(* ===== verification/Prelude.thy ===== *)
theory Prelude
  imports Complex_Main "HOL-Library.Word" "HOL-Library.AList" "HOL-Library.Sublist"
begin

text \<open>
  Shared vocabulary of the development: the error values of the diff engine, the result type of
  code that may throw, the sequencing operator, the rational model of IEEE doubles, and generic
  lemmas on association lists (the model of \<^verbatim>\<open>std::unordered_map\<close>), stable sorting
  (\<^verbatim>\<open>std::stable_sort\<close>) and strings.

  Doubles. Every finite IEEE double is a rational number, and the comparisons of the code
  (\<^verbatim>\<open>==\<close>, \<^verbatim>\<open><\<close>, \<^verbatim>\<open>></\<close>, \<^verbatim>\<open>>=\<close>)
  are the comparisons of those rationals (\<^verbatim>\<open>-0.0 == 0.0\<close> included). A component that
  only compares doubles is therefore modelled exactly over \<^typ>\<open>rat\<close>.
\<close>

section \<open>Errors and results\<close>

text \<open>The exception classes of \<^verbatim>\<open>include/dsigmatcher/diff/Errors.h\<close>; a C++ library
  exception (\<^verbatim>\<open>std::out_of_range\<close> and the like) is \<open>StdException\<close>.\<close>

datatype diff_error =
    DiaphoraWouldRaise (raise_site: string) (raise_detail: string)
  | UnsupportedInput string
  | IoFailure string
  | SqliteEnvironmentFailure string int
  | UsageRefused string
  | StdException string

type_synonym 'a result = "diff_error + 'a"

type_synonym double = rat

definition bindE :: "'a result \<Rightarrow> ('a \<Rightarrow> 'b result) \<Rightarrow> 'b result" where
  "bindE m f = (case m of Inl e \<Rightarrow> Inl e | Inr x \<Rightarrow> f x)"

named_theorems model_defs \<open>definitions unfolded when a component is evaluated\<close>
named_theorems wf_intros \<open>preservation of well-formedness\<close>

lemma bindE_Inl [simp]: "bindE (Inl e) f = Inl e"
  by (simp add: bindE_def)

lemma bindE_Inr [simp]: "bindE (Inr x) f = f x"
  by (simp add: bindE_def)

lemma bindE_eq_Inr: "bindE m f = Inr y \<longleftrightarrow> (\<exists>x. m = Inr x \<and> f x = Inr y)"
  by (cases m) auto

lemma bindE_eq_Inl: "bindE m f = Inl e \<longleftrightarrow> m = Inl e \<or> (\<exists>x. m = Inr x \<and> f x = Inl e)"
  by (cases m) auto

lemma bindE_assoc: "bindE (bindE m f) g = bindE m (\<lambda>x. bindE (f x) g)"
  by (cases m) auto

text \<open>The quote character, for the Python messages that contain one.\<close>

definition quote :: string where
  "quote = [CHR 0x27]"

definition starts_with :: "string \<Rightarrow> string \<Rightarrow> bool" where
  "starts_with text pre \<longleftrightarrow> take (length pre) text = pre"

lemma starts_with_prefix: "starts_with text pre \<longleftrightarrow> prefix pre text"
  by (auto simp: starts_with_def prefix_def) (metis append_take_drop_id)

section \<open>Decimal text\<close>

text \<open>\<^verbatim>\<open>std::to_string\<close> of an unsigned and of a signed integer.\<close>

definition digit_char :: "nat \<Rightarrow> char" where
  "digit_char d = char_of (48 + d)"

fun dec_nat :: "nat \<Rightarrow> string" where
  "dec_nat n = (if n < 10 then [digit_char n] else dec_nat (n div 10) @ [digit_char (n mod 10)])"

declare dec_nat.simps [simp del]

definition dec_int :: "int \<Rightarrow> string" where
  "dec_int i = (if i < 0 then CHR 0x2D # dec_nat (nat (- i)) else dec_nat (nat i))"

definition digits_value :: "string \<Rightarrow> nat" where
  "digits_value str = foldl (\<lambda>v c. 10 * v + (of_char c - 48)) 0 str"

lemma of_char_digit_char: "d < 10 \<Longrightarrow> of_char (digit_char d) = (48 + d :: nat)"
  by (simp add: digit_char_def)

lemma digits_value_snoc: "digits_value (str @ [c]) = 10 * digits_value str + (of_char c - 48)"
  by (simp add: digits_value_def)

lemma digits_value_dec_nat: "digits_value (dec_nat n) = n"
proof (induction n rule: dec_nat.induct)
  case (1 n)
  show ?case
  proof (cases "n < 10")
    case True
    then show ?thesis by (simp add: dec_nat.simps [of n] digits_value_def of_char_digit_char)
  next
    case False
    with 1 show ?thesis
      by (subst dec_nat.simps) (simp add: digits_value_snoc of_char_digit_char)
  qed
qed

lemma dec_nat_inj: "dec_nat m = dec_nat n \<longleftrightarrow> m = n"
  by (metis digits_value_dec_nat)

section \<open>Association lists as hash maps\<close>

text \<open>\<^verbatim>\<open>std::unordered_map\<close>: an association list with distinct keys. \<^term>\<open>map_of\<close>
  is \<^verbatim>\<open>find\<close>, \<^term>\<open>AList.update\<close> is assignment through \<^verbatim>\<open>operator[]\<close>, and
  \<^term>\<open>length\<close> is \<^verbatim>\<open>size()\<close>. The iteration order is never used by the code.\<close>

abbreviation keys :: "('k \<times> 'v) list \<Rightarrow> 'k list" where
  "keys m \<equiv> map fst m"

lemma map_of_update [simp]: "map_of (AList.update k v m) = (map_of m)(k \<mapsto> v)"
  by (rule update_conv')

lemma distinct_keys_update [simp]: "distinct (keys m) \<Longrightarrow> distinct (keys (AList.update k v m))"
  by (rule distinct_update)

lemma set_keys_update [simp]: "fst ` set (AList.update k v m) = insert k (fst ` set m)"
  by (induction m) auto

lemma length_alist_card: "distinct (keys m) \<Longrightarrow> length m = card (dom (map_of m))"
  using distinct_card [of "keys m"] by (simp add: dom_map_of_conv_image_fst)

lemma map_of_eq_None_keys: "map_of m k = None \<longleftrightarrow> k \<notin> set (keys m)"
  by (simp add: map_of_eq_None_iff)

section \<open>Stable sorting\<close>

lemma sorted_sort_key_id: "sorted (map f xs) \<Longrightarrow> sort_key f xs = xs"
  by (rule sort_key_id_if_sorted)

lemma sort_key_idem [simp]: "sort_key f (sort_key f xs) = sort_key f xs"
  by (simp add: sorted_sort_key_id)

lemma subseq_subset: "subseq xs ys \<Longrightarrow> set xs \<subseteq> set ys"
  by (auto dest: list_emb_set)

end
