(* ===== verification/Interning.thy ===== *)
theory Interning
  imports Prelude
begin

text \<open>
  The string interners (\<^verbatim>\<open>include/dsigmatcher/diff/Interner.h\<close>, implemented in
  \<^verbatim>\<open>src/diff/Ingest.cpp\<close>). One \<open>Interner\<close> is an append-only table with a hash index; the
  engine keeps three of them. Name and address ids are the table index plus one, computed in
  32 bits, so that 0 stays Python's \<^verbatim>\<open>None\<close>. The locale \<open>string_table\<close> is the
  interface the rest of the engine relies on; it is interpreted for the names, the descriptions
  and the addresses.
\<close>

section \<open>The tables\<close>

type_synonym NameId = "32 word"
type_synonym DescId = "32 word"
type_synonym AddrId = "32 word"

definition kNoneName :: NameId where "kNoneName = 0"
definition kNoneAddr :: AddrId where "kNoneAddr = 0"

text \<open>\<^verbatim>\<open>Storage\<close> owns the bytes and \<^verbatim>\<open>Views\<close> points into it; both hold the same
  texts in the same order, so one list models the two.\<close>

record Interner =
  Views :: "string list"
  Index :: "(string \<times> 32 word) list"

definition empty_Interner :: Interner where
  "empty_Interner = \<lparr>Views = [], Index = []\<rparr>"

definition Intern :: "Interner \<Rightarrow> string \<Rightarrow> 32 word \<times> Interner" where
  "Intern I text =
     (case map_of (Index I) text of
        Some i \<Rightarrow> (i, I)
      | None \<Rightarrow>
          (let i = of_nat (length (Views I))
           in (i, I\<lparr>Views := Views I @ [text], Index := AList.update text i (Index I)\<rparr>)))"

definition Interner_Find :: "Interner \<Rightarrow> string \<Rightarrow> 32 word option" where
  "Interner_Find I text = map_of (Index I) text"

text \<open>\<^verbatim>\<open>Views.at(Id)\<close> throws \<^verbatim>\<open>std::out_of_range\<close>.\<close>

definition Interner_Text :: "Interner \<Rightarrow> 32 word \<Rightarrow> string result" where
  "Interner_Text I i =
     (if unat i < length (Views I) then Inr (Views I ! unat i)
      else Inl (StdException ''out_of_range''))"

record Interners =
  Names :: Interner
  Descs :: Interner
  Addrs :: Interner

definition empty_Interners :: Interners where
  "empty_Interners = \<lparr>Names = empty_Interner, Descs = empty_Interner, Addrs = empty_Interner\<rparr>"

definition NameOf :: "Interners \<Rightarrow> string \<Rightarrow> NameId \<times> Interners" where
  "NameOf ids text = (let (i, I) = Intern (Names ids) text in (i + 1, ids\<lparr>Names := I\<rparr>))"

definition NameOpt :: "Interners \<Rightarrow> string option \<Rightarrow> NameId \<times> Interners" where
  "NameOpt ids t = (case t of None \<Rightarrow> (kNoneName, ids) | Some text \<Rightarrow> NameOf ids text)"

definition FindName :: "Interners \<Rightarrow> string \<Rightarrow> NameId option" where
  "FindName ids text = map_option (\<lambda>i. i + 1) (Interner_Find (Names ids) text)"

definition NameOrNone :: "Interners \<Rightarrow> NameId \<Rightarrow> string option result" where
  "NameOrNone ids i =
     (if i = kNoneName then Inr None
      else bindE (Interner_Text (Names ids) (i - 1)) (\<lambda>t. Inr (Some t)))"

definition NameText :: "Interners \<Rightarrow> NameId \<Rightarrow> string result" where
  "NameText ids i = (if i = kNoneName then Inr [] else Interner_Text (Names ids) (i - 1))"

definition NameKeyText :: "Interners \<Rightarrow> NameId \<Rightarrow> string result" where
  "NameKeyText ids i = (if i = kNoneName then Inr ''None'' else Interner_Text (Names ids) (i - 1))"

definition DescOf :: "Interners \<Rightarrow> string \<Rightarrow> DescId \<times> Interners" where
  "DescOf ids text = (let (i, I) = Intern (Descs ids) text in (i, ids\<lparr>Descs := I\<rparr>))"

definition DescText :: "Interners \<Rightarrow> DescId \<Rightarrow> string result" where
  "DescText ids i = Interner_Text (Descs ids) i"

definition AddrOf :: "Interners \<Rightarrow> string \<Rightarrow> AddrId \<times> Interners" where
  "AddrOf ids text = (let (i, I) = Intern (Addrs ids) text in (i + 1, ids\<lparr>Addrs := I\<rparr>))"

definition AddrOpt :: "Interners \<Rightarrow> string option \<Rightarrow> AddrId \<times> Interners" where
  "AddrOpt ids t = (case t of None \<Rightarrow> (kNoneAddr, ids) | Some text \<Rightarrow> AddrOf ids text)"

definition FindAddr :: "Interners \<Rightarrow> string \<Rightarrow> AddrId option" where
  "FindAddr ids text = map_option (\<lambda>i. i + 1) (Interner_Find (Addrs ids) text)"

definition AddrText :: "Interners \<Rightarrow> AddrId \<Rightarrow> string result" where
  "AddrText ids i = (if i = kNoneAddr then Inr [] else Interner_Text (Addrs ids) (i - 1))"

definition AddrKeyText :: "Interners \<Rightarrow> AddrId \<Rightarrow> string result" where
  "AddrKeyText ids i = (if i = kNoneAddr then Inr ''None'' else Interner_Text (Addrs ids) (i - 1))"

section \<open>Well-formed tables\<close>

text \<open>The index inverts the table. The bound keeps every id, plus one, inside 32 bits: a table
  with more than four thousand million texts would wrap an id to the one reserved for \<^verbatim>\<open>None\<close>.\<close>

definition interner_wf :: "Interner \<Rightarrow> bool" where
  "interner_wf I \<longleftrightarrow>
     distinct (Views I) \<and> length (Views I) < 2 ^ 32 \<and>
     (\<forall>t i. map_of (Index I) t = Some i \<longleftrightarrow> unat i < length (Views I) \<and> Views I ! unat i = t)"

definition interner_room :: "Interner \<Rightarrow> nat \<Rightarrow> bool" where
  "interner_room I n \<longleftrightarrow> length (Views I) + n < 2 ^ 32"

lemma interner_wf_empty [simp]: "interner_wf empty_Interner"
  by (simp add: interner_wf_def empty_Interner_def)

lemma index_None: "interner_wf I \<Longrightarrow> map_of (Index I) t = None \<longleftrightarrow> t \<notin> set (Views I)"
proof
  assume wf: "interner_wf I" and "map_of (Index I) t = None"
  then have "\<not> (unat i < length (Views I) \<and> Views I ! unat i = t)" for i :: "32 word"
    by (simp add: interner_wf_def) (metis option.distinct(1))
  moreover have "unat (of_nat k :: 32 word) = k" if "k < length (Views I)" for k
    using that wf by (simp add: interner_wf_def unat_of_nat)
  ultimately show "t \<notin> set (Views I)"
    by (metis in_set_conv_nth)
next
  assume "interner_wf I" and "t \<notin> set (Views I)"
  then show "map_of (Index I) t = None"
    unfolding interner_wf_def by (metis not_None_eq nth_mem)
qed

lemma unat_of_nat_views: "k < 2 ^ 32 \<Longrightarrow> unat (of_nat k :: 32 word) = k"
  by (simp add: unat_of_nat)

lemma Intern_new:
  assumes "interner_wf I" and "t \<notin> set (Views I)"
  shows "Intern I t = (of_nat (length (Views I)),
           I\<lparr>Views := Views I @ [t], Index := AList.update t (of_nat (length (Views I))) (Index I)\<rparr>)"
  using index_None [OF assms(1), of t] assms(2) by (simp add: Intern_def Let_def)

lemma Intern_old:
  assumes "interner_wf I" and "t \<in> set (Views I)"
  obtains i where "Intern I t = (i, I)" and "unat i < length (Views I)" and "Views I ! unat i = t"
proof -
  from assms obtain i where i: "map_of (Index I) t = Some i"
    by (metis index_None not_None_eq)
  with assms(1) have "unat i < length (Views I)" "Views I ! unat i = t"
    by (auto simp: interner_wf_def)
  with i show thesis by (intro that) (auto simp: Intern_def)
qed

lemma Intern_wf [wf_intros]:
  assumes "interner_wf I" and "interner_room I (Suc n)"
  shows "interner_wf (snd (Intern I t))"
proof (cases "t \<in> set (Views I)")
  case True
  with assms(1) show ?thesis by (rule Intern_old) (simp add: assms(1))
next
  case False
  let ?n = "length (Views I)"
  have n: "?n < 2 ^ 32 - 1" using assms(2) by (simp add: interner_room_def)
  have new: "unat (of_nat ?n :: 32 word) = ?n"
    using n by (intro unat_of_nat_views) simp
  have "(t' = t \<and> of_nat ?n = i \<or> t' \<noteq> t \<and> unat i < ?n \<and> Views I ! unat i = t') \<longleftrightarrow>
        (unat i < Suc ?n \<and> (Views I @ [t]) ! unat i = t')" for t' and i :: "32 word"
  proof (cases "unat i < ?n")
    case True
    then have "Views I ! unat i \<in> set (Views I)" by simp
    then show ?thesis using True False new by (auto simp: nth_append)
  next
    case False
    then show ?thesis using new by (auto simp: nth_append less_Suc_eq) (metis word_unat_eq_iff)
  qed
  moreover have "map_of (Index I) t' = Some i \<longleftrightarrow> unat i < ?n \<and> Views I ! unat i = t'" for t' i
    using assms(1) by (simp add: interner_wf_def)
  ultimately show ?thesis
    using assms False n
    by (simp add: Intern_new interner_wf_def) (auto split: if_splits)
qed

lemma Intern_text:
  assumes "interner_wf I" and "interner_room I (Suc n)"
  shows "Interner_Text (snd (Intern I t)) (fst (Intern I t)) = Inr t"
proof (cases "t \<in> set (Views I)")
  case True
  with assms(1) show ?thesis by (rule Intern_old) (simp add: Interner_Text_def)
next
  case False
  have "unat (of_nat (length (Views I)) :: 32 word) = length (Views I)"
    using assms(2) by (intro unat_of_nat_views) (simp add: interner_room_def)
  with assms(1) False show ?thesis by (simp add: Intern_new Interner_Text_def)
qed

lemma Intern_stable:
  assumes "interner_wf I" and "Interner_Text I i = Inr u"
  shows "Interner_Text (snd (Intern I t)) i = Inr u"
proof (cases "t \<in> set (Views I)")
  case True
  with assms(1) show ?thesis by (rule Intern_old) (simp add: assms(2))
next
  case False
  with assms show ?thesis
    by (auto simp: Intern_new Interner_Text_def nth_append split: if_splits)
qed

lemma Interner_Text_inj:
  assumes "interner_wf I" and "Interner_Text I i = Inr t" and "Interner_Text I j = Inr t"
  shows "i = j"
proof -
  have "unat i = unat j"
    using assms by (auto simp: Interner_Text_def interner_wf_def nth_eq_iff_index_eq split: if_splits)
  then show ?thesis by (rule word_unat_eq_iff [THEN iffD2])
qed

lemma Intern_room:
  assumes "interner_wf I" and "interner_room I (Suc n)"
  shows "interner_room (snd (Intern I t)) n"
proof (cases "t \<in> set (Views I)")
  case True
  with assms(1) show ?thesis
    by (rule Intern_old) (use assms(2) in \<open>simp add: interner_room_def\<close>)
next
  case False
  with assms show ?thesis by (simp add: Intern_new interner_room_def)
qed

lemma Intern_fst_bound:
  assumes "interner_wf I" and "interner_room I (Suc n)"
  shows "unat (fst (Intern I t)) < 2 ^ 32 - 1"
proof (cases "t \<in> set (Views I)")
  case True
  with assms(1) show ?thesis
    by (rule Intern_old) (use assms(2) in \<open>simp add: interner_room_def\<close>)
next
  case False
  then show ?thesis using assms by (simp add: Intern_new interner_room_def unat_of_nat)
qed

lemma Interner_Text_Suc_bound: "Interner_Text I i = Inr t \<Longrightarrow> unat i < length (Views I)"
  by (simp add: Interner_Text_def split: if_splits)

section \<open>The interface of an id table\<close>

text \<open>What the clients of the interners rely on: a text read back through its id, ids that stay
  valid when more texts are interned, one id per text. \<open>room s n\<close> says that \<open>n\<close> more texts fit.\<close>

locale string_table =
  fixes intern :: "'s \<Rightarrow> 't \<Rightarrow> 'id \<times> 's"
    and text_of :: "'s \<Rightarrow> 'id \<Rightarrow> 't result"
    and invar :: "'s \<Rightarrow> bool"
    and room :: "'s \<Rightarrow> nat \<Rightarrow> bool"
  assumes intern_invar: "invar s \<Longrightarrow> room s (Suc n) \<Longrightarrow> invar (snd (intern s t))"
    and intern_room: "invar s \<Longrightarrow> room s (Suc n) \<Longrightarrow> room (snd (intern s t)) n"
    and intern_text: "invar s \<Longrightarrow> room s (Suc n) \<Longrightarrow> text_of (snd (intern s t)) (fst (intern s t)) = Inr t"
    and intern_stable: "invar s \<Longrightarrow> text_of s i = Inr u \<Longrightarrow> text_of (snd (intern s t)) i = Inr u"
    and text_inj: "invar s \<Longrightarrow> text_of s i = Inr t \<Longrightarrow> text_of s j = Inr t \<Longrightarrow> i = j"
begin

lemma intern_known:
  assumes "invar s" and "room s (Suc n)" and "text_of s i = Inr t"
  shows "fst (intern s t) = i"
  using assms intern_invar intern_text intern_stable by (blast intro: text_inj)

lemma intern_twice:
  assumes s: "invar s" "room s (Suc (Suc n))"
  shows "fst (intern s t) = fst (intern (snd (intern s t)) u) \<longleftrightarrow> t = u"
proof -
  let ?s1 = "snd (intern s t)" and ?s2 = "snd (intern (snd (intern s t)) u)"
  have s1: "invar ?s1" "room ?s1 (Suc n)" using s by (auto intro: intern_invar intern_room)
  have "text_of ?s2 (fst (intern s t)) = Inr t"
    by (rule intern_stable [OF s1(1) intern_text [OF s]])
  moreover have "text_of ?s2 (fst (intern ?s1 u)) = Inr u"
    by (rule intern_text [OF s1])
  moreover have "invar ?s2" using s1 by (rule intern_invar)
  ultimately show ?thesis by (metis text_inj Inr_inject)
qed

primrec intern_all :: "'s \<Rightarrow> 't list \<Rightarrow> 'id list \<times> 's" where
  "intern_all s [] = ([], s)"
| "intern_all s (t # ts) =
     (let (i, s1) = intern s t; (rest, s2) = intern_all s1 ts in (i # rest, s2))"

lemma intern_all_stable:
  "invar s \<Longrightarrow> room s (length ts) \<Longrightarrow> text_of s i = Inr u \<Longrightarrow> text_of (snd (intern_all s ts)) i = Inr u"
proof (induction ts arbitrary: s)
  case (Cons t ts)
  then have "text_of (snd (intern_all (snd (intern s t)) ts)) i = Inr u"
    using intern_invar intern_room intern_stable by simp
  then show ?case by (simp add: split_beta)
qed simp

lemma intern_all_text:
  "invar s \<Longrightarrow> room s (length ts) \<Longrightarrow>
   map (text_of (snd (intern_all s ts))) (fst (intern_all s ts)) = map Inr ts"
proof (induction ts arbitrary: s)
  case (Cons t ts)
  let ?s1 = "snd (intern s t)"
  have s1: "invar ?s1" "room ?s1 (length ts)"
    using Cons.prems by (auto intro: intern_invar intern_room)
  have "text_of (snd (intern_all ?s1 ts)) (fst (intern s t)) = Inr t"
    using Cons.prems by (intro intern_all_stable [OF s1] intern_text) auto
  with Cons.IH [OF s1] show ?case by (simp add: split_beta)
qed simp

end

section \<open>The three tables provide it\<close>

text \<open>An address id read back as a Python value: \<^verbatim>\<open>None\<close> or the text.\<close>

definition AddrOrNone :: "Interners \<Rightarrow> AddrId \<Rightarrow> string option result" where
  "AddrOrNone ids i =
     (if i = kNoneAddr then Inr None
      else bindE (Interner_Text (Addrs ids) (i - 1)) (\<lambda>t. Inr (Some t)))"

definition names_room :: "Interners \<Rightarrow> nat \<Rightarrow> bool" where
  "names_room ids n \<longleftrightarrow> interner_room (Names ids) (Suc n)"

definition addrs_room :: "Interners \<Rightarrow> nat \<Rightarrow> bool" where
  "addrs_room ids n \<longleftrightarrow> interner_room (Addrs ids) (Suc n)"

definition names_wf :: "Interners \<Rightarrow> bool" where
  "names_wf ids \<longleftrightarrow> interner_wf (Names ids) \<and> length (Views (Names ids)) < 2 ^ 32 - 1"

definition addrs_wf :: "Interners \<Rightarrow> bool" where
  "addrs_wf ids \<longleftrightarrow> interner_wf (Addrs ids) \<and> length (Views (Addrs ids)) < 2 ^ 32 - 1"

definition interners_wf :: "Interners \<Rightarrow> bool" where
  "interners_wf ids \<longleftrightarrow> names_wf ids \<and> addrs_wf ids \<and> interner_wf (Descs ids)"

lemma plus1_nonzero:
  assumes "unat (i :: 32 word) < 2 ^ 32 - 1"
  shows "i + 1 \<noteq> 0"
proof
  assume "i + 1 = 0"
  then have "i = - 1" by (simp add: eq_neg_iff_add_eq_0)
  then have "unat i = 2 ^ 32 - 1"
    by (simp add: unsigned_minus_1_eq_mask mask_eq_exp_minus_1)
  with assms show False by simp
qed

interpretation descs: string_table DescOf DescText "\<lambda>ids. interner_wf (Descs ids)" "\<lambda>ids. interner_room (Descs ids)"
proof unfold_locales
  fix s t n and i j :: DescId and u
  show "interner_wf (Descs s) \<Longrightarrow> interner_room (Descs s) (Suc n) \<Longrightarrow> interner_wf (Descs (snd (DescOf s t)))"
    by (simp add: DescOf_def split_beta Intern_wf)
  show "interner_wf (Descs s) \<Longrightarrow> interner_room (Descs s) (Suc n) \<Longrightarrow> interner_room (Descs (snd (DescOf s t))) n"
    by (simp add: DescOf_def split_beta Intern_room)
  show "interner_wf (Descs s) \<Longrightarrow> interner_room (Descs s) (Suc n) \<Longrightarrow>
      DescText (snd (DescOf s t)) (fst (DescOf s t)) = Inr t"
    by (simp add: DescOf_def DescText_def split_beta Intern_text)
  show "interner_wf (Descs s) \<Longrightarrow> DescText s i = Inr u \<Longrightarrow> DescText (snd (DescOf s t)) i = Inr u"
    by (simp add: DescOf_def DescText_def split_beta Intern_stable)
  show "interner_wf (Descs s) \<Longrightarrow> DescText s i = Inr t \<Longrightarrow> DescText s j = Inr t \<Longrightarrow> i = j"
    unfolding DescText_def by (rule Interner_Text_inj)
qed

text \<open>Names and addresses share the plus-one encoding; its laws are proved once on a bare table.\<close>

definition opt_intern :: "Interner \<Rightarrow> string option \<Rightarrow> 32 word \<times> Interner" where
  "opt_intern I t =
     (case t of None \<Rightarrow> (0, I) | Some str \<Rightarrow> (fst (Intern I str) + 1, snd (Intern I str)))"

definition opt_text :: "Interner \<Rightarrow> 32 word \<Rightarrow> string option result" where
  "opt_text I i = (if i = 0 then Inr None else bindE (Interner_Text I (i - 1)) (\<lambda>t. Inr (Some t)))"

definition opt_wf :: "Interner \<Rightarrow> bool" where
  "opt_wf I \<longleftrightarrow> interner_wf I \<and> length (Views I) < 2 ^ 32 - 1"

lemma opt_text_Some: "opt_text I i = Inr (Some t) \<longleftrightarrow> i \<noteq> 0 \<and> Interner_Text I (i - 1) = Inr t"
  by (auto simp: opt_text_def bindE_eq_Inr)

lemma opt_text_None: "opt_text I i = Inr None \<longleftrightarrow> i = 0"
  by (auto simp: opt_text_def bindE_eq_Inr)

lemma opt_wf_intern:
  assumes "opt_wf I" and "interner_room I (Suc (Suc n))"
  shows "opt_wf (snd (opt_intern I t))" and "interner_room (snd (opt_intern I t)) (Suc n)"
proof -
  have "interner_room (snd (Intern I str)) (Suc n)" for str
    using assms by (intro Intern_room) (auto simp: opt_wf_def)
  moreover have "interner_wf (snd (Intern I str))" for str
    using assms by (intro Intern_wf) (auto simp: opt_wf_def)
  ultimately show "opt_wf (snd (opt_intern I t))" "interner_room (snd (opt_intern I t)) (Suc n)"
    using assms by (auto simp: opt_intern_def opt_wf_def interner_room_def less_diff_conv
        split: option.splits intro: le_less_trans [OF le_add1])
qed

lemma opt_intern_text:
  assumes "opt_wf I" and "interner_room I (Suc (Suc n))"
  shows "opt_text (snd (opt_intern I t)) (fst (opt_intern I t)) = Inr t"
proof (cases t)
  case (Some str)
  have "fst (Intern I str) + 1 \<noteq> 0"
    using assms by (intro plus1_nonzero Intern_fst_bound) (auto simp: opt_wf_def)
  with Some assms show ?thesis
    by (simp add: opt_intern_def opt_text_Some Intern_text opt_wf_def)
qed (simp add: opt_intern_def opt_text_None)

lemma opt_text_stable:
  "opt_wf I \<Longrightarrow> opt_text I i = Inr u \<Longrightarrow> opt_text (snd (opt_intern I t)) i = Inr u"
  by (cases u) (auto simp: opt_intern_def opt_text_Some opt_text_None opt_wf_def Intern_stable split: option.splits)

lemma opt_text_inj:
  "opt_wf I \<Longrightarrow> opt_text I i = Inr t \<Longrightarrow> opt_text I j = Inr t \<Longrightarrow> i = j"
  by (cases t) (auto simp: opt_text_Some opt_text_None opt_wf_def dest: Interner_Text_inj)

lemma NameOpt_opt: "NameOpt ids t = (fst (opt_intern (Names ids) t), ids\<lparr>Names := snd (opt_intern (Names ids) t)\<rparr>)"
  by (simp add: NameOpt_def NameOf_def opt_intern_def kNoneName_def split_beta split: option.splits)

lemma AddrOpt_opt: "AddrOpt ids t = (fst (opt_intern (Addrs ids) t), ids\<lparr>Addrs := snd (opt_intern (Addrs ids) t)\<rparr>)"
  by (simp add: AddrOpt_def AddrOf_def opt_intern_def kNoneAddr_def split_beta split: option.splits)

lemma NameOrNone_opt: "NameOrNone ids i = opt_text (Names ids) i"
  by (simp add: NameOrNone_def opt_text_def kNoneName_def)

lemma AddrOrNone_opt: "AddrOrNone ids i = opt_text (Addrs ids) i"
  by (simp add: AddrOrNone_def opt_text_def kNoneAddr_def)

lemma names_wf_opt: "names_wf ids \<longleftrightarrow> opt_wf (Names ids)"
  by (simp add: names_wf_def opt_wf_def)

lemma addrs_wf_opt: "addrs_wf ids \<longleftrightarrow> opt_wf (Addrs ids)"
  by (simp add: addrs_wf_def opt_wf_def)

lemmas opt_table_laws = opt_wf_intern opt_intern_text opt_text_stable opt_text_inj
lemmas names_opt = NameOpt_opt NameOrNone_opt names_wf_opt names_room_def
lemmas addrs_opt = AddrOpt_opt AddrOrNone_opt addrs_wf_opt addrs_room_def

interpretation names: string_table NameOpt NameOrNone names_wf names_room
  by unfold_locales (auto simp: names_opt opt_table_laws dest: opt_text_inj)

interpretation addrs: string_table AddrOpt AddrOrNone addrs_wf addrs_room
  by unfold_locales (auto simp: addrs_opt opt_table_laws dest: opt_text_inj)

section \<open>Reading ids back\<close>

lemma NameText_of: "NameOrNone ids i = Inr (Some t) \<Longrightarrow> NameText ids i = Inr t \<and> NameKeyText ids i = Inr t"
  by (auto simp: NameOrNone_def NameText_def NameKeyText_def bindE_eq_Inr split: if_splits)

lemma AddrText_of: "AddrOrNone ids i = Inr (Some t) \<Longrightarrow> AddrText ids i = Inr t \<and> AddrKeyText ids i = Inr t"
  by (auto simp: AddrOrNone_def AddrText_def AddrKeyText_def bindE_eq_Inr split: if_splits)

text \<open>An id is known when reading it does not throw.\<close>

definition known_name :: "Interners \<Rightarrow> NameId \<Rightarrow> bool" where
  "known_name ids i \<longleftrightarrow> unat i \<le> length (Views (Names ids))"

definition known_addr :: "Interners \<Rightarrow> AddrId \<Rightarrow> bool" where
  "known_addr ids i \<longleftrightarrow> unat i \<le> length (Views (Addrs ids))"

lemma unat_pred: "i \<noteq> 0 \<Longrightarrow> unat (i - 1 :: 32 word) < n \<longleftrightarrow> unat i \<le> n"
  by (simp add: unat_minus_one) (metis Suc_pred less_eq_Suc_le unat_gt_0)

lemma known_name_iff: "known_name ids i \<longleftrightarrow> (\<exists>t. NameKeyText ids i = Inr t)"
  by (auto simp: known_name_def NameKeyText_def Interner_Text_def kNoneName_def unat_pred)

lemma known_addr_iff: "known_addr ids i \<longleftrightarrow> (\<exists>t. AddrKeyText ids i = Inr t)"
  by (auto simp: known_addr_def AddrKeyText_def Interner_Text_def kNoneAddr_def unat_pred)

end
