(* ===== verification/Matching.thy ===== *)
theory Matching
  imports Interning
begin

text \<open>
  The match bookkeeping of \<^verbatim>\<open>src/diff/MatchState.cpp\<close>: the three ordered result lists with
  their membership indices, the two insertion-ordered dictionaries keyed by name, and the
  operations on them. The reference the C++ implements is Diaphora's Python state; it is given
  here as the abstract state \<open>py_state\<close> over plain lists and ordered dictionaries, and the
  operations of the model refine it.
\<close>

section \<open>Items, dictionaries and the state\<close>

datatype Chooser = Best | Partial | Unreliable

definition ChooserName :: "Chooser \<Rightarrow> string" where
  "ChooserName C = (case C of Best \<Rightarrow> ''best'' | Partial \<Rightarrow> ''partial'' | Unreliable \<Rightarrow> ''unreliable'')"

record Item =
  it_Ea1 :: AddrId
  it_Name1 :: NameId
  it_Ea2 :: AddrId
  it_Name2 :: NameId
  it_Desc :: DescId
  it_Ratio :: double
  it_Nodes1 :: int
  it_Nodes2 :: int

record MatchedEntry =
  me_Other :: NameId
  me_Ratio :: double

text \<open>A Python dict with its insertion order: \<^verbatim>\<open>NameDict\<close>.\<close>

record NameDict =
  nd_Order :: "NameId list"
  nd_Map :: "(NameId \<times> MatchedEntry) list"

definition empty_NameDict :: NameDict where
  "empty_NameDict = \<lparr>nd_Order = [], nd_Map = []\<rparr>"

definition NameDict_Put :: "NameDict \<Rightarrow> NameId \<Rightarrow> MatchedEntry \<Rightarrow> NameDict" where
  "NameDict_Put d k e =
     (case map_of (nd_Map d) k of
        None \<Rightarrow> d\<lparr>nd_Order := nd_Order d @ [k], nd_Map := AList.update k e (nd_Map d)\<rparr>
      | Some _ \<Rightarrow> d\<lparr>nd_Map := AList.update k e (nd_Map d)\<rparr>)"

definition NameDict_Find :: "NameDict \<Rightarrow> NameId \<Rightarrow> MatchedEntry option" where
  "NameDict_Find d k = map_of (nd_Map d) k"

definition NameDict_Clear :: "NameDict \<Rightarrow> NameDict" where
  "NameDict_Clear d = d\<lparr>nd_Order := [], nd_Map := []\<rparr>"

record MatchState =
  ms_Total1 :: int
  ms_Total2 :: int
  ms_Lists :: "Chooser \<Rightarrow> Item list"
  ms_Members :: "Chooser \<Rightarrow> (Item \<times> 32 word) list"
  ms_Primary :: NameDict
  ms_Secondary :: NameDict

definition empty_MatchState :: MatchState where
  "empty_MatchState =
     \<lparr>ms_Total1 = 0, ms_Total2 = 0, ms_Lists = (\<lambda>_. []), ms_Members = (\<lambda>_. []),
      ms_Primary = empty_NameDict, ms_Secondary = empty_NameDict\<rparr>"

text \<open>\<^verbatim>\<open>std::stable_sort\<close> with a strict \<^verbatim>\<open>>\<close> on the ratios; \<^term>\<open>sort_key\<close> is
  stable, and negating the key turns its order round.\<close>

definition SortDescending :: "Item list \<Rightarrow> Item list" where
  "SortDescending items = sort_key (\<lambda>it. - it_Ratio it) items"

definition member_count :: "(Item \<times> 32 word) list \<Rightarrow> Item \<Rightarrow> 32 word" where
  "member_count m it = (case map_of m it of None \<Rightarrow> 0 | Some n \<Rightarrow> n)"

text \<open>\<^verbatim>\<open>RebuildMembers\<close>: clear the index, then \<^verbatim>\<open>++Members[Index][It]\<close> for every item.\<close>

definition RebuildMembers :: "Item list \<Rightarrow> (Item \<times> 32 word) list" where
  "RebuildMembers items = fold (\<lambda>it m. AList.update it (member_count m it + 1) m) items []"

section \<open>Operations\<close>

definition SetTotals :: "MatchState \<Rightarrow> int \<Rightarrow> int \<Rightarrow> MatchState" where
  "SetTotals ms t1 t2 = ms\<lparr>ms_Total1 := t1, ms_Total2 := t2\<rparr>"

definition RaiseStartsWithNone :: "string \<Rightarrow> 'a result" where
  "RaiseStartsWithNone site =
     Inl (DiaphoraWouldRaise site
       (''AttributeError: '' @ quote @ ''NoneType'' @ quote @ '' object has no attribute ''
         @ quote @ ''startswith'' @ quote))"

definition StartsWith :: "Interners \<Rightarrow> NameId \<Rightarrow> string \<Rightarrow> string \<Rightarrow> bool result" where
  "StartsWith ids name pre site =
     (if name = kNoneName then RaiseStartsWithNone site
      else bindE (NameText ids name) (\<lambda>t. Inr (starts_with t pre)))"

definition HasBetterMatch :: "Interners \<Rightarrow> MatchState \<Rightarrow> NameId \<Rightarrow> NameId \<Rightarrow> double \<Rightarrow> bool result" where
  "HasBetterMatch ids ms n1 n2 ratio =
     bindE (StartsWith ids n1 ''sub_'' ''D:1392'') (\<lambda>sub1.
     bindE (if sub1 then Inr False
            else bindE (StartsWith ids n2 ''sub_'' ''D:1392'') (\<lambda>sub2. Inr (\<not> sub2))) (\<lambda>named.
     (case (if named then NameDict_Find (ms_Primary ms) n1 else None) of
        Some entry \<Rightarrow> Inr (me_Other entry = n1)
      | None \<Rightarrow>
          (case NameDict_Find (ms_Primary ms) n1 of
             Some entry \<Rightarrow> if me_Ratio entry > ratio then Inr True
               else (case NameDict_Find (ms_Secondary ms) n2 of
                       Some entry2 \<Rightarrow> Inr (me_Ratio entry2 > ratio)
                     | None \<Rightarrow> Inr False)
           | None \<Rightarrow> (case NameDict_Find (ms_Secondary ms) n2 of
                       Some entry2 \<Rightarrow> Inr (me_Ratio entry2 > ratio)
                     | None \<Rightarrow> Inr False)))))"

definition HasBestMatch :: "MatchState \<Rightarrow> NameId \<Rightarrow> NameId \<Rightarrow> bool" where
  "HasBestMatch ms n1 n2 =
     (if (case NameDict_Find (ms_Primary ms) n1 of Some e \<Rightarrow> me_Ratio e = 1 | None \<Rightarrow> False) then True
      else if (case NameDict_Find (ms_Secondary ms) n2 of Some e \<Rightarrow> me_Ratio e = 1 | None \<Rightarrow> False) then True
      else False)"

datatype AddMatchResult = Appended | Duplicate | RejectedBetter

text \<open>The new state and the outcome that \<^verbatim>\<open>TraceAddMatch\<close> records. A raise leaves the state
  as it was.\<close>

definition AddMatch ::
  "Interners \<Rightarrow> MatchState \<Rightarrow> NameId \<Rightarrow> NameId \<Rightarrow> double \<Rightarrow> Item \<Rightarrow> Chooser option
     \<Rightarrow> (MatchState \<times> AddMatchResult) result" where
  "AddMatch ids ms n1 n2 ratio0 it c =
     (let ratio = (if n1 = n2 then 1 else ratio0) in
      bindE (if ratio \<noteq> 1 then HasBetterMatch ids ms n1 n2 ratio else Inr False) (\<lambda>better.
      if better then Inr (ms, RejectedBetter)
      else
        (let appended = (case c of None \<Rightarrow> False | Some ch \<Rightarrow> member_count (ms_Members ms ch) it = 0);
             ms1 = (case c of
                      Some ch \<Rightarrow>
                        if appended
                        then ms\<lparr>ms_Lists := (ms_Lists ms)(ch := ms_Lists ms ch @ [it]),
                                ms_Members := (ms_Members ms)(ch := AList.update it 1 (ms_Members ms ch))\<rparr>
                        else ms
                    | None \<Rightarrow> ms)
         in Inr (ms1\<lparr>ms_Primary := NameDict_Put (ms_Primary ms1) n1 \<lparr>me_Other = n2, me_Ratio = ratio\<rparr>,
                      ms_Secondary := NameDict_Put (ms_Secondary ms1) n2 \<lparr>me_Other = n1, me_Ratio = ratio\<rparr>\<rparr>,
                 if appended then Appended else Duplicate))))"

text \<open>\<^verbatim>\<open>Cleanup\<close>. The key of an item is the concatenation of its two names; \<open>D\<close> is
  \<^verbatim>\<open>Dones\<close>, \<open>E\<close> is \<^verbatim>\<open>EaRatios\<close>; both run through the three categories.\<close>

definition cleanup_key :: "Interners \<Rightarrow> Item \<Rightarrow> string result" where
  "cleanup_key ids it =
     bindE (NameKeyText ids (it_Name1 it)) (\<lambda>a.
     bindE (NameKeyText ids (it_Name2 it)) (\<lambda>b. Inr (a @ ''-'' @ b)))"

definition cleanup_ratio :: "Item \<Rightarrow> double" where
  "cleanup_ratio it = (if it_Name1 it = it_Name2 it then 1 else it_Ratio it)"

fun cleanup_list ::
  "Interners \<Rightarrow> Item list \<Rightarrow> string list \<Rightarrow> (AddrId \<times> double) list
     \<Rightarrow> (Item list \<times> string list \<times> (AddrId \<times> double) list) result" where
  "cleanup_list ids [] D E = Inr ([], D, E)"
| "cleanup_list ids (it # items) D E =
     bindE (cleanup_key ids it) (\<lambda>key.
     if key \<in> set D then cleanup_list ids items D E
     else
       (let ratio = cleanup_ratio it; D1 = key # D
        in if (case map_of E (it_Ea1 it) of Some found \<Rightarrow> found > ratio | None \<Rightarrow> False)
           then cleanup_list ids items D1 E
           else bindE (cleanup_list ids items D1 (AList.update (it_Ea1 it) ratio E))
                  (\<lambda>(out, D2, E2). Inr (it # out, D2, E2))))"

definition put_item :: "Item \<Rightarrow> NameDict \<times> NameDict \<Rightarrow> NameDict \<times> NameDict" where
  "put_item it d =
     (NameDict_Put (fst d) (it_Name1 it) \<lparr>me_Other = it_Name2 it, me_Ratio = it_Ratio it\<rparr>,
      NameDict_Put (snd d) (it_Name2 it) \<lparr>me_Other = it_Name1 it, me_Ratio = it_Ratio it\<rparr>)"

definition Cleanup :: "Interners \<Rightarrow> MatchState \<Rightarrow> MatchState result" where
  "Cleanup ids ms =
     bindE (cleanup_list ids (SortDescending (ms_Lists ms Best)) [] []) (\<lambda>(o1, D1, E1).
     bindE (cleanup_list ids (SortDescending (ms_Lists ms Partial)) D1 E1) (\<lambda>(o2, D2, E2).
     bindE (cleanup_list ids (SortDescending (ms_Lists ms Unreliable)) D2 E2) (\<lambda>(o3, D3, E3).
       (let out = (\<lambda>c. case c of Best \<Rightarrow> o1 | Partial \<Rightarrow> o2 | Unreliable \<Rightarrow> o3);
            dicts = fold put_item (o1 @ o2 @ o3)
                      (NameDict_Clear (ms_Primary ms), NameDict_Clear (ms_Secondary ms))
        in Inr (ms\<lparr>ms_Primary := fst dicts, ms_Secondary := snd dicts,
                   ms_Lists := out, ms_Members := (\<lambda>c. RebuildMembers (out c))\<rparr>)))))"

definition AllFunctionsMatched :: "MatchState \<Rightarrow> bool" where
  "AllFunctionsMatched ms \<longleftrightarrow>
     int (length (nd_Map (ms_Primary ms))) = ms_Total1 ms \<or>
     int (length (nd_Map (ms_Secondary ms))) = ms_Total2 ms"

definition TotalMatchedFunctions :: "MatchState \<Rightarrow> nat" where
  "TotalMatchedFunctions ms = length (ms_Lists ms Best) + length (ms_Lists ms Partial)"

definition SortedResults :: "MatchState \<Rightarrow> Chooser \<Rightarrow> Item list" where
  "SortedResults ms c = SortDescending (ms_Lists ms c)"

definition MS_Primary :: "MatchState \<Rightarrow> NameId \<Rightarrow> MatchedEntry option" where
  "MS_Primary ms name = NameDict_Find (ms_Primary ms) name"

definition MS_Secondary :: "MatchState \<Rightarrow> NameId \<Rightarrow> MatchedEntry option" where
  "MS_Secondary ms name = NameDict_Find (ms_Secondary ms) name"

lemmas matching_defs [model_defs] =
  NameDict_Put_def NameDict_Find_def NameDict_Clear_def empty_NameDict_def empty_MatchState_def
  SetTotals_def HasBestMatch_def AllFunctionsMatched_def TotalMatchedFunctions_def
  SortedResults_def MS_Primary_def MS_Secondary_def

section \<open>Insertion-ordered dictionaries\<close>

text \<open>The contract of a Python dict: \<open>entries\<close> is its item list in insertion order, where
  re-assigning a key keeps the key's position and a new key goes to the end.\<close>

locale ordered_dict =
  fixes put :: "'d \<Rightarrow> 'k \<Rightarrow> 'v \<Rightarrow> 'd"
    and lookup :: "'d \<Rightarrow> 'k \<Rightarrow> 'v option"
    and size_of :: "'d \<Rightarrow> nat"
    and entries :: "'d \<Rightarrow> ('k \<times> 'v) list"
    and invar :: "'d \<Rightarrow> bool"
  assumes put_invar: "invar d \<Longrightarrow> invar (put d k v)"
    and put_entries: "invar d \<Longrightarrow> entries (put d k v) = AList.update k v (entries d)"
    and lookup_entries: "invar d \<Longrightarrow> lookup d k = map_of (entries d) k"
    and size_entries: "invar d \<Longrightarrow> size_of d = length (entries d)"
    and keys_distinct: "invar d \<Longrightarrow> distinct (keys (entries d))"
begin

lemma lookup_put: "invar d \<Longrightarrow> lookup (put d k v) j = (if j = k then Some v else lookup d j)"
  by (simp add: put_invar lookup_entries put_entries)

lemma size_put: "invar d \<Longrightarrow> size_of (put d k v) = size_of d + (if lookup d k = None then 1 else 0)"
proof -
  assume d: "invar d"
  have "length (AList.update k v m) = length m + (if map_of m k = None then 1 else 0)"
    for m :: "('k \<times> 'v) list"
    by (induction m) auto
  then show ?thesis by (simp add: d put_invar size_entries put_entries lookup_entries)
qed

definition put_all :: "('k \<times> 'v) list \<Rightarrow> 'd \<Rightarrow> 'd" where
  "put_all kvs d = fold (\<lambda>(k, v) d. put d k v) kvs d"

lemma put_all_invar: "invar d \<Longrightarrow> invar (put_all kvs d)"
  unfolding put_all_def by (induction kvs arbitrary: d) (auto intro: put_invar)

text \<open>Last writer wins.\<close>

lemma lookup_put_all:
  "invar d \<Longrightarrow> lookup (put_all kvs d) k =
     (case map_of (rev kvs) k of Some v \<Rightarrow> Some v | None \<Rightarrow> lookup d k)"
  unfolding put_all_def
proof (induction kvs arbitrary: d)
  case (Cons kv kvs)
  obtain k' v where kv: "kv = (k', v)" by (cases kv)
  have "invar (put d k' v)" using Cons.prems by (rule put_invar)
  from Cons.IH [OF this] show ?case
    using Cons.prems by (auto simp: kv lookup_put map_add_def split: option.splits)
qed simp

lemma size_card: "invar d \<Longrightarrow> size_of d = card {k. lookup d k \<noteq> None}"
proof -
  assume d: "invar d"
  then have "size_of d = card (dom (map_of (entries d)))"
    by (simp add: size_entries length_alist_card keys_distinct)
  also have "dom (map_of (entries d)) = {k. lookup d k \<noteq> None}"
    using d by (auto simp: lookup_entries)
  finally show ?thesis .
qed

end

text \<open>The invariant and the abstraction of \<open>NameDict\<close>.\<close>

definition nd_wf :: "NameDict \<Rightarrow> bool" where
  "nd_wf d \<longleftrightarrow> distinct (nd_Order d) \<and> distinct (keys (nd_Map d)) \<and> set (nd_Order d) = set (keys (nd_Map d))"

definition nd_entries :: "NameDict \<Rightarrow> (NameId \<times> MatchedEntry) list" where
  "nd_entries d = map (\<lambda>k. (k, the (map_of (nd_Map d) k))) (nd_Order d)"

lemma nd_wf_empty [simp]: "nd_wf empty_NameDict"
  by (simp add: nd_wf_def empty_NameDict_def)

lemma nd_wf_Clear [simp]: "nd_wf (NameDict_Clear d)"
  by (simp add: nd_wf_def NameDict_Clear_def)

lemma update_map_pairs:
  assumes "distinct ks"
  shows "AList.update k v (map (\<lambda>x. (x, f x)) ks) =
    (if k \<in> set ks then map (\<lambda>x. (x, if x = k then v else f x)) ks
     else map (\<lambda>x. (x, f x)) ks @ [(k, v)])"
  using assms by (induction ks) auto

lemma map_of_map_pairs: "map_of (map (\<lambda>x. (x, f x)) ks) k = (if k \<in> set ks then Some (f k) else None)"
  by (induction ks) auto

lemma nd_keys_iff: "nd_wf d \<Longrightarrow> map_of (nd_Map d) k = None \<longleftrightarrow> k \<notin> set (nd_Order d)"
  by (simp add: nd_wf_def map_of_eq_None_keys)

interpretation nd: ordered_dict NameDict_Put NameDict_Find "\<lambda>d. length (nd_Map d)" nd_entries nd_wf
proof unfold_locales
  fix d :: NameDict and k v
  assume d: "nd_wf d"
  show wf: "nd_wf (NameDict_Put d k v)"
    using d nd_keys_iff [OF d, of k]
    by (auto simp: NameDict_Put_def nd_wf_def split: option.splits)
  show "nd_entries (NameDict_Put d k v) = AList.update k v (nd_entries d)"
    using d nd_keys_iff [OF d, of k]
    by (auto simp: NameDict_Put_def nd_entries_def update_map_pairs nd_wf_def split: option.splits)
  show "NameDict_Find d k = map_of (nd_entries d) k"
    using nd_keys_iff [OF d, of k]
    by (auto simp: NameDict_Find_def nd_entries_def map_of_map_pairs)
  show "length (nd_Map d) = length (nd_entries d)"
    using d by (metis (no_types) nd_wf_def nd_entries_def distinct_card length_map)
  show "distinct (keys (nd_entries d))"
    using d by (simp add: nd_wf_def nd_entries_def comp_def)
qed

section \<open>The Python state and the refinement of \<open>AddMatch\<close>\<close>

text \<open>Diaphora's state: three lists and two dicts. \<open>py_add_match\<close> is the Python method, with the
  linear scan \<^verbatim>\<open>item not in self.all_matches[chooser]\<close>.\<close>

record py_state =
  py_all :: "Chooser \<Rightarrow> Item list"
  py_primary :: "(NameId \<times> MatchedEntry) list"
  py_secondary :: "(NameId \<times> MatchedEntry) list"

definition py_better :: "(NameId \<Rightarrow> bool) \<Rightarrow> py_state \<Rightarrow> NameId \<Rightarrow> NameId \<Rightarrow> double \<Rightarrow> bool" where
  "py_better is_sub p n1 n2 ratio \<longleftrightarrow>
     (if \<not> is_sub n1 \<and> \<not> is_sub n2 \<and> n1 \<in> dom (map_of (py_primary p))
      then me_Other (the (map_of (py_primary p) n1)) = n1
      else (\<exists>e. map_of (py_primary p) n1 = Some e \<and> me_Ratio e > ratio) \<or>
           (\<exists>e. map_of (py_secondary p) n2 = Some e \<and> me_Ratio e > ratio))"

definition py_add_match :: "(NameId \<Rightarrow> bool) \<Rightarrow> py_state \<Rightarrow> NameId \<Rightarrow> NameId \<Rightarrow> double \<Rightarrow> Item \<Rightarrow> Chooser option \<Rightarrow> py_state" where
  "py_add_match is_sub p n1 n2 ratio0 it c =
     (let ratio = (if n1 = n2 then 1 else ratio0) in
      if ratio \<noteq> 1 \<and> py_better is_sub p n1 n2 ratio then p
      else
        p\<lparr>py_all := (case c of None \<Rightarrow> py_all p
                     | Some ch \<Rightarrow> if it \<in> set (py_all p ch) then py_all p
                                  else (py_all p)(ch := py_all p ch @ [it])),
          py_primary := AList.update n1 \<lparr>me_Other = n2, me_Ratio = ratio\<rparr> (py_primary p),
          py_secondary := AList.update n2 \<lparr>me_Other = n1, me_Ratio = ratio\<rparr> (py_secondary p)\<rparr>)"

definition abs_state :: "MatchState \<Rightarrow> py_state" where
  "abs_state ms = \<lparr>py_all = ms_Lists ms, py_primary = nd_entries (ms_Primary ms),
                   py_secondary = nd_entries (ms_Secondary ms)\<rparr>"

definition is_sub_name :: "Interners \<Rightarrow> NameId \<Rightarrow> bool" where
  "is_sub_name ids n \<longleftrightarrow> (case NameText ids n of Inr t \<Rightarrow> starts_with t ''sub_'' | Inl _ \<Rightarrow> False)"

text \<open>The index agrees with the list when an item has a non-zero count exactly when it is in the list.\<close>

definition members_agree :: "Item list \<Rightarrow> (Item \<times> 32 word) list \<Rightarrow> bool" where
  "members_agree items m \<longleftrightarrow> (\<forall>it. member_count m it = 0 \<longleftrightarrow> it \<notin> set items)"

definition ms_wf :: "MatchState \<Rightarrow> bool" where
  "ms_wf ms \<longleftrightarrow> nd_wf (ms_Primary ms) \<and> nd_wf (ms_Secondary ms) \<and>
                 (\<forall>c. members_agree (ms_Lists ms c) (ms_Members ms c))"

definition named :: "Interners \<Rightarrow> NameId \<Rightarrow> bool" where
  "named ids n \<longleftrightarrow> n \<noteq> kNoneName \<and> known_name ids n"

lemma NameText_known: "named ids n \<Longrightarrow> \<exists>t. NameText ids n = Inr t"
  by (auto simp: named_def known_name_iff NameText_def NameKeyText_def)

lemma StartsWith_named:
  "named ids n \<Longrightarrow> StartsWith ids n ''sub_'' site = Inr (is_sub_name ids n)"
  using NameText_known [of ids n] by (auto simp: named_def StartsWith_def is_sub_name_def)

lemma HasBetterMatch_refines:
  assumes "ms_wf ms" and "named ids n1" and "named ids n2"
  shows "HasBetterMatch ids ms n1 n2 ratio = Inr (py_better (is_sub_name ids) (abs_state ms) n1 n2 ratio)"
  using assms unfolding ms_wf_def
  by (auto simp: HasBetterMatch_def StartsWith_named py_better_def abs_state_def
      nd.lookup_entries split: option.splits)

lemma members_agree_empty [simp]: "members_agree [] []"
  by (simp add: members_agree_def member_count_def)

lemma member_count_update: "member_count (AList.update k v m) it = (if it = k then v else member_count m it)"
  by (simp add: member_count_def)

lemma members_agree_append:
  "members_agree items m \<Longrightarrow> members_agree (items @ [it]) (AList.update it 1 m)"
  by (auto simp: members_agree_def member_count_update)

lemma members_agree_member: "members_agree items m \<Longrightarrow> member_count m it = 0 \<longleftrightarrow> it \<notin> set items"
  by (simp add: members_agree_def)

lemma ms_wf_empty [simp]: "ms_wf empty_MatchState"
  by (simp add: ms_wf_def empty_MatchState_def)

lemma AddMatch_wf [wf_intros]:
  assumes "ms_wf ms" and "AddMatch ids ms n1 n2 ratio it c = Inr (ms', res)"
  shows "ms_wf ms'"
  using assms
  by (auto simp: AddMatch_def ms_wf_def Let_def bindE_eq_Inr members_agree_append nd.put_invar
      split: if_splits option.splits)

lemma AddMatch_refines:
  assumes wf: "ms_wf ms" and "named ids n1" and "named ids n2"
  shows "\<exists>ms' res. AddMatch ids ms n1 n2 ratio it c = Inr (ms', res) \<and>
           abs_state ms' = py_add_match (is_sub_name ids) (abs_state ms) n1 n2 ratio it c \<and>
           (res = Appended \<longleftrightarrow> (\<exists>ch. c = Some ch \<and> py_all (abs_state ms') ch = py_all (abs_state ms) ch @ [it]))"
proof -
  have agree: "member_count (ms_Members ms ch) x = 0 \<longleftrightarrow> x \<notin> set (ms_Lists ms ch)" for ch x
    using wf by (simp add: ms_wf_def members_agree_def)
  show ?thesis
    using wf unfolding AddMatch_def
    by (auto simp: HasBetterMatch_refines [OF assms] py_add_match_def Let_def agree
        abs_state_def nd.put_entries ms_wf_def split: option.splits)
qed

section \<open>Membership indices\<close>

lemma member_count_rebuild_gen:
  "member_count (fold (\<lambda>it m. AList.update it (member_count m it + 1) m) items m) it =
     member_count m it + of_nat (count_list items it)"
proof (induction items arbitrary: m)
  case (Cons x items)
  show ?case by (simp add: Cons.IH member_count_update)
qed simp

lemma member_count_rebuild: "member_count (RebuildMembers items) it = of_nat (count_list items it)"
  by (simp add: RebuildMembers_def member_count_rebuild_gen) (simp add: member_count_def)

lemma RebuildMembers_agree:
  assumes "length items < 2 ^ 32"
  shows "members_agree items (RebuildMembers items)"
proof -
  have "(of_nat (count_list items it) :: 32 word) = 0 \<longleftrightarrow> count_list items it = 0" for it
  proof -
    have "count_list items it < 2 ^ 32"
      using assms count_le_length [of items it] by linarith
    then have "unat (of_nat (count_list items it) :: 32 word) = count_list items it"
      by (rule unat_of_nat_views)
    then show ?thesis by (simp only: unat_eq_0 [symmetric])
  qed
  then show ?thesis by (simp add: members_agree_def member_count_rebuild count_list_0_iff)
qed

section \<open>Cleanup\<close>

lemma length_SortDescending [simp]: "length (SortDescending items) = length items"
  by (simp add: SortDescending_def)

lemma set_SortDescending [simp]: "set (SortDescending items) = set items"
  by (simp add: SortDescending_def)

definition descending :: "Item list \<Rightarrow> bool" where
  "descending items \<longleftrightarrow> sorted_wrt (\<lambda>a b. it_Ratio a \<ge> it_Ratio b) items"

lemma descending_sorted: "descending items \<longleftrightarrow> sorted (map (\<lambda>it. - it_Ratio it) items)"
  by (simp add: descending_def sorted_map)

lemma descending_SortDescending [simp]: "descending (SortDescending items)"
  by (simp add: descending_sorted SortDescending_def)

lemma SortDescending_id: "descending items \<Longrightarrow> SortDescending items = items"
  by (simp add: descending_sorted SortDescending_def sorted_sort_key_id)

lemma subseq_sorted_wrt: "subseq xs ys \<Longrightarrow> sorted_wrt P ys \<Longrightarrow> sorted_wrt P xs"
  by (induction rule: list_emb.induct) (auto dest: list_emb_set)

lemma descending_subseq: "subseq xs ys \<Longrightarrow> descending ys \<Longrightarrow> descending xs"
  unfolding descending_def by (rule subseq_sorted_wrt)

text \<open>The key of an item whose names are interned.\<close>

definition item_known :: "Interners \<Rightarrow> Item \<Rightarrow> bool" where
  "item_known ids it \<longleftrightarrow> known_name ids (it_Name1 it) \<and> known_name ids (it_Name2 it)"

definition item_key :: "Interners \<Rightarrow> Item \<Rightarrow> string" where
  "item_key ids it = (case cleanup_key ids it of Inr k \<Rightarrow> k | Inl _ \<Rightarrow> [])"

lemma cleanup_key_known: "item_known ids it \<Longrightarrow> cleanup_key ids it = Inr (item_key ids it)"
  by (auto simp: item_known_def known_name_iff item_key_def cleanup_key_def)

lemma cleanup_key_known_iff: "(\<exists>k. cleanup_key ids it = Inr k) \<longleftrightarrow> item_known ids it"
  by (auto simp: item_known_def known_name_iff cleanup_key_def bindE_eq_Inr)

lemma cleanup_list_total:
  "\<forall>it\<in>set items. item_known ids it \<Longrightarrow> \<exists>r. cleanup_list ids items D E = Inr r"
proof (induction items arbitrary: D E)
  case (Cons it items)
  then have IH: "\<exists>out D' E'. cleanup_list ids items D E = Inr (out, D', E')" for D E
    by (metis list.set_intros(2) prod.exhaust)
  obtain o1 D1 E1 where 1: "cleanup_list ids items D E = Inr (o1, D1, E1)" using IH by blast
  obtain o2 D2 E2 where 2: "cleanup_list ids items (item_key ids it # D) E = Inr (o2, D2, E2)"
    using IH by blast
  obtain o3 D3 E3 where 3: "cleanup_list ids items (item_key ids it # D)
      (AList.update (it_Ea1 it) (cleanup_ratio it) E) = Inr (o3, D3, E3)"
    using IH by blast
  show ?case using Cons.prems 1 2 3 by (simp add: cleanup_key_known Let_def)
qed simp

lemma cleanup_list_append:
  "cleanup_list ids (xs @ ys) D E =
     bindE (cleanup_list ids xs D E) (\<lambda>(o1, D1, E1).
     bindE (cleanup_list ids ys D1 E1) (\<lambda>(o2, D2, E2). Inr (o1 @ o2, D2, E2)))"
proof (induction xs arbitrary: D E)
  case Nil
  show ?case by (cases "cleanup_list ids ys D E") auto
next
  case (Cons x xs)
  show ?case
    by (cases "cleanup_key ids x")
       (auto simp: Cons.IH Let_def bindE_assoc split_beta intro!: arg_cong [where f = "bindE _"])
qed

lemma cleanup_list_subseq:
  "cleanup_list ids items D E = Inr (out, D', E') \<Longrightarrow> subseq out items"
  by (induction items arbitrary: D E out D' E')
     (auto simp: Let_def bindE_eq_Inr split: if_splits option.splits)

lemma cleanup_list_keys:
  "cleanup_list ids items D E = Inr (out, D', E') \<Longrightarrow>
     distinct (map (item_key ids) out) \<and> (\<forall>x\<in>set out. item_key ids x \<notin> set D) \<and>
     set D' = set D \<union> item_key ids ` set items"
proof (induction items arbitrary: D E out D' E')
  case (Cons it items)
  from Cons.prems have key: "cleanup_key ids it = Inr (item_key ids it)"
    by (auto simp: bindE_eq_Inr item_key_def)
  show ?case
    using Cons.prems
    by (auto simp: key Let_def bindE_eq_Inr split: if_splits option.splits dest!: Cons.IH)
       (metis (mono_tags))+
qed simp

text \<open>One step of the loop, by what it does with its first item.\<close>

lemma cleanup_list_ConsE:
  assumes "cleanup_list ids (it # items) D E = Inr (out, D', E')"
  obtains (seen) "item_key ids it \<in> set D" and "cleanup_list ids items D E = Inr (out, D', E')"
  | (drop) m where "item_key ids it \<notin> set D" and "map_of E (it_Ea1 it) = Some m"
      and "m > cleanup_ratio it" and "cleanup_list ids items (item_key ids it # D) E = Inr (out, D', E')"
  | (keep) rest where "cleanup_key ids it = Inr (item_key ids it)" and "item_key ids it \<notin> set D"
      and "\<forall>m. map_of E (it_Ea1 it) = Some m \<longrightarrow> m \<le> cleanup_ratio it" and "out = it # rest"
      and "cleanup_list ids items (item_key ids it # D)
             (AList.update (it_Ea1 it) (cleanup_ratio it) E) = Inr (rest, D', E')"
proof -
  from assms have key: "cleanup_key ids it = Inr (item_key ids it)"
    by (auto simp: bindE_eq_Inr item_key_def)
  let ?drop = "case map_of E (it_Ea1 it) of Some m \<Rightarrow> m > cleanup_ratio it | None \<Rightarrow> False"
  consider "item_key ids it \<in> set D" | "item_key ids it \<notin> set D" ?drop
    | "item_key ids it \<notin> set D" "\<not> ?drop" by blast
  then show thesis
  proof cases
    case 1
    with assms show thesis by (intro seen) (simp_all add: key)
  next
    case 2
    then obtain m where "map_of E (it_Ea1 it) = Some m" "m > cleanup_ratio it"
      by (auto split: option.splits)
    with 2 assms show thesis by (intro drop) (simp_all add: key Let_def)
  next
    case 3
    with assms obtain rest where "out = it # rest" "cleanup_list ids items (item_key ids it # D)
        (AList.update (it_Ea1 it) (cleanup_ratio it) E) = Inr (rest, D', E')"
      by (auto simp: key Let_def bindE_eq_Inr)
    with 3 key show thesis by (intro keep) (auto split: option.splits)
  qed
qed

lemma cleanup_list_idem:
  "cleanup_list ids items D E = Inr (out, D', E') \<Longrightarrow> set D0 \<subseteq> set D \<Longrightarrow>
     \<exists>D1. cleanup_list ids out D0 E = Inr (out, D1, E') \<and> set D1 \<subseteq> set D'"
proof (induction items arbitrary: D E out D' E' D0)
  case (Cons it items)
  from Cons.prems(1) show ?case
  proof (cases rule: cleanup_list_ConsE)
    case seen
    with Cons.prems(2) show ?thesis by (blast intro: Cons.IH)
  next
    case (drop m)
    from Cons.prems(2) have "set D0 \<subseteq> set (item_key ids it # D)" by auto
    with drop(4) show ?thesis by (rule Cons.IH)
  next
    case (keep rest)
    from Cons.prems(2) have "set (item_key ids it # D0) \<subseteq> set (item_key ids it # D)" by auto
    from Cons.IH [OF keep(5) this] keep Cons.prems(2) show ?thesis
      by (auto simp: Let_def split: option.splits)
  qed
qed simp

lemma cleanup_list_dominates:
  "cleanup_list ids items D E = Inr (out, D', E') \<Longrightarrow>
     sorted_wrt (\<lambda>a b. it_Ea1 a = it_Ea1 b \<longrightarrow> cleanup_ratio a \<le> cleanup_ratio b) out \<and>
     (\<forall>k\<in>set out. \<forall>m. map_of E (it_Ea1 k) = Some m \<longrightarrow> m \<le> cleanup_ratio k)"
proof (induction items arbitrary: D E out D' E')
  case (Cons it items)
  from Cons.prems show ?case
  proof (cases rule: cleanup_list_ConsE)
    case (keep rest)
    note IH = Cons.IH [OF keep(5)]
    have 1: "cleanup_ratio it \<le> cleanup_ratio k" if "k \<in> set rest" "it_Ea1 k = it_Ea1 it" for k
      using IH that by (metis map_of_update fun_upd_same)
    have "m \<le> cleanup_ratio k" if "k \<in> set rest" "map_of E (it_Ea1 k) = Some m" for k m
    proof (cases "it_Ea1 k = it_Ea1 it")
      case True
      with that keep(3) have "m \<le> cleanup_ratio it" by auto
      with 1 [OF that(1) True] show ?thesis by simp
    next
      case False
      with that IH show ?thesis by (metis map_of_update fun_upd_other)
    qed
    with 1 keep(3) IH show ?thesis by (auto simp: keep(4))
  qed (use Cons.IH in blast)+
qed simp

text \<open>What the pass removes, it removes for a reason: an item of the same name pair was kept, or
  the first such item lost to a kept item of the same address with a greater ratio.\<close>

lemma cleanup_list_covers:
  "cleanup_list ids items D E = Inr (out, D', E') \<Longrightarrow> it \<in> set items \<Longrightarrow> item_key ids it \<notin> set D \<Longrightarrow>
     \<exists>x\<in>set items. item_key ids x = item_key ids it \<and>
       (x \<in> set out \<or> (\<exists>k\<in>set out. it_Ea1 k = it_Ea1 x \<and> cleanup_ratio k > cleanup_ratio x)
        \<or> (\<exists>m. map_of E (it_Ea1 x) = Some m \<and> m > cleanup_ratio x))"
proof (induction items arbitrary: D E out D' E')
  case (Cons y items)
  from Cons.prems(1) show ?case
  proof (cases rule: cleanup_list_ConsE)
    case seen
    with Cons.prems have "it \<in> set items" by auto
    from Cons.IH [OF seen(2) this Cons.prems(3)] show ?thesis by auto
  next
    case drop
    with Cons.IH [OF drop(4)] Cons.prems show ?thesis
      by (cases "item_key ids it = item_key ids y") auto
  next
    case (keep rest)
    show ?thesis
    proof (cases "item_key ids it = item_key ids y")
      case True
      then show ?thesis by (auto simp: keep(4))
    next
      case False
      with Cons.prems have "it \<in> set items" "item_key ids it \<notin> set (item_key ids y # D)" by auto
      from Cons.IH [OF keep(5) this] obtain x where x: "x \<in> set items" "item_key ids x = item_key ids it"
        and alt: "x \<in> set rest \<or> (\<exists>k\<in>set rest. it_Ea1 k = it_Ea1 x \<and> cleanup_ratio k > cleanup_ratio x)
          \<or> (\<exists>m. map_of (AList.update (it_Ea1 y) (cleanup_ratio y) E) (it_Ea1 x) = Some m
                 \<and> m > cleanup_ratio x)" by blast
      from alt have "x \<in> set out \<or> (\<exists>k\<in>set out. it_Ea1 k = it_Ea1 x \<and> cleanup_ratio k > cleanup_ratio x)
          \<or> (\<exists>m. map_of E (it_Ea1 x) = Some m \<and> m > cleanup_ratio x)"
        by (auto simp: keep(4) split: if_splits)
      with x show ?thesis by auto
    qed
  qed
qed simp

definition all_items :: "MatchState \<Rightarrow> Item list" where
  "all_items ms = ms_Lists ms Best @ ms_Lists ms Partial @ ms_Lists ms Unreliable"

lemma set_all_items: "set (all_items ms) = (\<Union>c. set (ms_Lists ms c))"
  by (auto simp: all_items_def) (metis Chooser.exhaust)

lemma NameDict_Clear_empty: "NameDict_Clear d = empty_NameDict"
  by (simp add: NameDict_Clear_def empty_NameDict_def)

lemma CleanupE:
  assumes "Cleanup ids ms = Inr ms'"
  obtains D1 E1 D2 E2 D3 E3
  where "cleanup_list ids (SortDescending (ms_Lists ms Best)) [] [] = Inr (ms_Lists ms' Best, D1, E1)"
    and "cleanup_list ids (SortDescending (ms_Lists ms Partial)) D1 E1 = Inr (ms_Lists ms' Partial, D2, E2)"
    and "cleanup_list ids (SortDescending (ms_Lists ms Unreliable)) D2 E2 = Inr (ms_Lists ms' Unreliable, D3, E3)"
    and "ms_Primary ms' = fst (fold put_item (all_items ms') (empty_NameDict, empty_NameDict))"
    and "ms_Secondary ms' = snd (fold put_item (all_items ms') (empty_NameDict, empty_NameDict))"
    and "ms_Members ms' = (\<lambda>c. RebuildMembers (ms_Lists ms' c))"
    and "ms_Total1 ms' = ms_Total1 ms" and "ms_Total2 ms' = ms_Total2 ms"
  using assms unfolding Cleanup_def
  by (auto simp: bindE_eq_Inr Let_def NameDict_Clear_empty all_items_def intro!: that)

lemma CleanupI:
  assumes "cleanup_list ids (SortDescending (ms_Lists ms Best)) [] [] = Inr (o1, D1, E1)"
    and "cleanup_list ids (SortDescending (ms_Lists ms Partial)) D1 E1 = Inr (o2, D2, E2)"
    and "cleanup_list ids (SortDescending (ms_Lists ms Unreliable)) D2 E2 = Inr (o3, D3, E3)"
    and "out = (\<lambda>c. case c of Best \<Rightarrow> o1 | Partial \<Rightarrow> o2 | Unreliable \<Rightarrow> o3)"
  shows "Cleanup ids ms =
    Inr (ms\<lparr>ms_Primary := fst (fold put_item (o1 @ o2 @ o3) (empty_NameDict, empty_NameDict)),
            ms_Secondary := snd (fold put_item (o1 @ o2 @ o3) (empty_NameDict, empty_NameDict)),
            ms_Lists := out, ms_Members := (\<lambda>c. RebuildMembers (out c))\<rparr>)"
  using assms by (simp add: Cleanup_def Let_def NameDict_Clear_empty)

lemma Cleanup_whole:
  assumes "Cleanup ids ms = Inr ms'"
  shows "\<exists>D E. cleanup_list ids (SortDescending (ms_Lists ms Best) @ SortDescending (ms_Lists ms Partial)
            @ SortDescending (ms_Lists ms Unreliable)) [] [] = Inr (all_items ms', D, E)"
  using assms by (rule CleanupE) (simp add: cleanup_list_append all_items_def)

lemma Cleanup_subseq:
  assumes "Cleanup ids ms = Inr ms'"
  shows "subseq (ms_Lists ms' c) (SortDescending (ms_Lists ms c))"
  using assms by (rule CleanupE) (cases c; simp add: cleanup_list_subseq)

lemma Cleanup_descending: "Cleanup ids ms = Inr ms' \<Longrightarrow> descending (ms_Lists ms' c)"
  by (rule descending_subseq [OF Cleanup_subseq]) auto

lemma Chooser_fun_eta: "(\<lambda>c. case c of Best \<Rightarrow> f Best | Partial \<Rightarrow> f Partial | Unreliable \<Rightarrow> f Unreliable) = f"
  by (rule ext) (simp split: Chooser.splits)

lemma Cleanup_fixpoint:
  assumes "Cleanup ids ms = Inr ms'"
  shows "Cleanup ids ms' = Inr ms'"
  using assms
proof (rule CleanupE)
  fix D1 E1 D2 E2 D3 E3
  assume 1: "cleanup_list ids (SortDescending (ms_Lists ms Best)) [] [] = Inr (ms_Lists ms' Best, D1, E1)"
    and 2: "cleanup_list ids (SortDescending (ms_Lists ms Partial)) D1 E1 = Inr (ms_Lists ms' Partial, D2, E2)"
    and 3: "cleanup_list ids (SortDescending (ms_Lists ms Unreliable)) D2 E2 = Inr (ms_Lists ms' Unreliable, D3, E3)"
    and ms': "ms_Primary ms' = fst (fold put_item (all_items ms') (empty_NameDict, empty_NameDict))"
      "ms_Secondary ms' = snd (fold put_item (all_items ms') (empty_NameDict, empty_NameDict))"
      "ms_Members ms' = (\<lambda>c. RebuildMembers (ms_Lists ms' c))"
  have S: "SortDescending (ms_Lists ms' c) = ms_Lists ms' c" for c
    using assms by (intro SortDescending_id Cleanup_descending)
  obtain D1' where d1: "cleanup_list ids (ms_Lists ms' Best) [] [] = Inr (ms_Lists ms' Best, D1', E1)" "set D1' \<subseteq> set D1"
    using cleanup_list_idem [OF 1, of "[]"] by auto
  obtain D2' where d2: "cleanup_list ids (ms_Lists ms' Partial) D1' E1 = Inr (ms_Lists ms' Partial, D2', E2)" "set D2' \<subseteq> set D2"
    using cleanup_list_idem [OF 2 d1(2)] by auto
  obtain D3' where d3: "cleanup_list ids (ms_Lists ms' Unreliable) D2' E2 = Inr (ms_Lists ms' Unreliable, D3', E3)"
    using cleanup_list_idem [OF 3 d2(2)] by auto
  have "Cleanup ids ms' =
    Inr (ms'\<lparr>ms_Primary := fst (fold put_item (all_items ms') (empty_NameDict, empty_NameDict)),
            ms_Secondary := snd (fold put_item (all_items ms') (empty_NameDict, empty_NameDict)),
            ms_Lists := ms_Lists ms', ms_Members := (\<lambda>c. RebuildMembers (ms_Lists ms' c))\<rparr>)"
    unfolding all_items_def
    by (rule CleanupI [where ms = ms', unfolded S, OF d1(1) d2(1) d3 Chooser_fun_eta [symmetric]])
  also have "\<dots> = Inr ms'" by (simp add: ms' [symmetric])
  finally show ?thesis .
qed

lemma Cleanup_total:
  assumes "\<forall>it\<in>set (all_items ms). item_known ids it"
  shows "\<exists>ms'. Cleanup ids ms = Inr ms'"
proof -
  have known: "\<forall>it\<in>set (SortDescending (ms_Lists ms c)). item_known ids it" for c
    using assms by (auto simp: set_all_items)
  obtain o1 D1 E1 where "cleanup_list ids (SortDescending (ms_Lists ms Best)) [] [] = Inr (o1, D1, E1)"
    using cleanup_list_total [OF known] by (metis prod.exhaust)
  moreover obtain o2 D2 E2 where "cleanup_list ids (SortDescending (ms_Lists ms Partial)) D1 E1 = Inr (o2, D2, E2)"
    using cleanup_list_total [OF known] by (metis prod.exhaust)
  moreover obtain o3 D3 E3 where "cleanup_list ids (SortDescending (ms_Lists ms Unreliable)) D2 E2 = Inr (o3, D3, E3)"
    using cleanup_list_total [OF known] by (metis prod.exhaust)
  ultimately show ?thesis using CleanupI [OF _ _ _ refl] by blast
qed

section \<open>The dictionaries after a cleanup\<close>

abbreviation primary_entry :: "Item \<Rightarrow> NameId \<times> MatchedEntry" where
  "primary_entry it \<equiv> (it_Name1 it, \<lparr>me_Other = it_Name2 it, me_Ratio = it_Ratio it\<rparr>)"

abbreviation secondary_entry :: "Item \<Rightarrow> NameId \<times> MatchedEntry" where
  "secondary_entry it \<equiv> (it_Name2 it, \<lparr>me_Other = it_Name1 it, me_Ratio = it_Ratio it\<rparr>)"

lemma fold_put_item:
  "fold put_item items d =
     (nd.put_all (map primary_entry items) (fst d), nd.put_all (map secondary_entry items) (snd d))"
  by (induction items arbitrary: d) (simp_all add: nd.put_all_def put_item_def)

lemma nd_Find_empty [simp]: "NameDict_Find empty_NameDict k = None"
  by (simp add: NameDict_Find_def empty_NameDict_def)

lemma Cleanup_dicts:
  assumes "Cleanup ids ms = Inr ms'"
  shows "nd_wf (ms_Primary ms')" and "nd_wf (ms_Secondary ms')"
    and "NameDict_Find (ms_Primary ms') n = map_of (rev (map primary_entry (all_items ms'))) n"
    and "NameDict_Find (ms_Secondary ms') n = map_of (rev (map secondary_entry (all_items ms'))) n"
proof -
  have p: "ms_Primary ms' = nd.put_all (map primary_entry (all_items ms')) empty_NameDict"
    and s: "ms_Secondary ms' = nd.put_all (map secondary_entry (all_items ms')) empty_NameDict"
    using assms by (auto elim!: CleanupE simp: fold_put_item)
  show "nd_wf (ms_Primary ms')" "nd_wf (ms_Secondary ms')"
    by (simp_all add: p s nd.put_all_invar)
  show "NameDict_Find (ms_Primary ms') n = map_of (rev (map primary_entry (all_items ms'))) n"
    "NameDict_Find (ms_Secondary ms') n = map_of (rev (map secondary_entry (all_items ms'))) n"
    by (simp_all add: p s nd.lookup_put_all option.case_eq_if)
qed

lemma map_of_rev_map_Some:
  "(\<exists>v. map_of (rev (map (\<lambda>x. (f x, g x)) xs)) k = Some v) \<longleftrightarrow> k \<in> f ` set xs"
proof -
  have "map_of (rev (map (\<lambda>x. (f x, g x)) xs)) k = None \<longleftrightarrow> k \<notin> f ` set xs"
    by (auto simp: map_of_eq_None_iff image_iff)
  then show ?thesis by auto
qed

lemma Cleanup_members_subset: "Cleanup ids ms = Inr ms' \<Longrightarrow> set (all_items ms') \<subseteq> set (all_items ms)"
  using Cleanup_subseq [THEN subseq_subset, of ids ms ms'] by (auto simp: set_all_items)

lemma Cleanup_wf [wf_intros]:
  assumes "Cleanup ids ms = Inr ms'" and "\<forall>c. length (ms_Lists ms c) < 2 ^ 32"
  shows "ms_wf ms'"
proof -
  have "length (ms_Lists ms' c) < 2 ^ 32" for c
    using list_emb_length [OF Cleanup_subseq [OF assms(1), of c]] assms(2)
    by (simp add: le_less_trans)
  then have "members_agree (ms_Lists ms' c) (ms_Members ms' c)" for c
    using assms(1) by (auto elim!: CleanupE simp: RebuildMembers_agree)
  then show ?thesis by (simp add: ms_wf_def Cleanup_dicts [OF assms(1)])
qed

lemma Cleanup_distinct_keys: "Cleanup ids ms = Inr ms' \<Longrightarrow> distinct (map (item_key ids) (all_items ms'))"
  by (blast dest: Cleanup_whole cleanup_list_keys)

section \<open>Reachable states\<close>

text \<open>The states the engine can be in: from the empty state by the operations of the class, where
  an added item carries the two names it is added under, as at every call site.\<close>

inductive ms_reach :: "Interners \<Rightarrow> MatchState \<Rightarrow> bool" for ids where
  init: "ms_reach ids empty_MatchState"
| totals: "ms_reach ids ms \<Longrightarrow> ms_reach ids (SetTotals ms t1 t2)"
| add: "ms_reach ids ms \<Longrightarrow> AddMatch ids ms (it_Name1 it) (it_Name2 it) ratio it c = Inr (ms', res) \<Longrightarrow>
    ms_reach ids ms'"
| cleanup: "ms_reach ids ms \<Longrightarrow> \<forall>c. length (ms_Lists ms c) < 2 ^ 32 \<Longrightarrow> Cleanup ids ms = Inr ms' \<Longrightarrow>
    ms_reach ids ms'"

definition items_in_dicts :: "MatchState \<Rightarrow> bool" where
  "items_in_dicts ms \<longleftrightarrow>
     (\<forall>it\<in>set (all_items ms). MS_Primary ms (it_Name1 it) \<noteq> None \<and> MS_Secondary ms (it_Name2 it) \<noteq> None)"

lemma items_in_dicts_alt:
  "items_in_dicts ms \<longleftrightarrow>
     (\<forall>c. \<forall>it\<in>set (ms_Lists ms c). NameDict_Find (ms_Primary ms) (it_Name1 it) \<noteq> None \<and>
        NameDict_Find (ms_Secondary ms) (it_Name2 it) \<noteq> None)"
  by (auto simp: items_in_dicts_def set_all_items MS_Primary_def MS_Secondary_def)

lemma AddMatch_items_in_dicts:
  assumes "ms_wf ms" and "items_in_dicts ms"
    and "AddMatch ids ms (it_Name1 it) (it_Name2 it) ratio it c = Inr (ms', res)"
  shows "items_in_dicts ms'"
  using assms
  by (auto simp: AddMatch_def Let_def bindE_eq_Inr items_in_dicts_alt ms_wf_def nd.lookup_put
      split: if_splits option.splits)

lemma AddMatch_distinct:
  assumes "ms_wf ms" and "\<forall>c. distinct (ms_Lists ms c)" and "AddMatch ids ms n1 n2 ratio it c = Inr (ms', res)"
  shows "\<forall>c. distinct (ms_Lists ms' c)"
  using assms
  by (auto simp: AddMatch_def Let_def bindE_eq_Inr ms_wf_def
      dest: members_agree_member [THEN iffD1, rotated] split: if_splits option.splits)

lemma Cleanup_items_in_dicts: "Cleanup ids ms = Inr ms' \<Longrightarrow> items_in_dicts ms'"
  unfolding items_in_dicts_def MS_Primary_def MS_Secondary_def
  by (auto simp: Cleanup_dicts map_of_eq_None_iff image_iff)

lemma Cleanup_distinct: "Cleanup ids ms = Inr ms' \<Longrightarrow> distinct (ms_Lists ms' c)"
  by (drule Cleanup_distinct_keys) (cases c; simp add: all_items_def distinct_map)

lemma ms_reach_inv:
  "ms_reach ids ms \<Longrightarrow> ms_wf ms \<and> (\<forall>c. distinct (ms_Lists ms c)) \<and> items_in_dicts ms"
proof (induction rule: ms_reach.induct)
  case init
  show ?case by (simp add: items_in_dicts_def all_items_def) (simp add: empty_MatchState_def)
next
  case (totals ms t1 t2)
  then show ?case by (simp add: SetTotals_def ms_wf_def items_in_dicts_alt)
next
  case (add ms it ratio c ms' res)
  then show ?case by (blast intro: AddMatch_wf AddMatch_items_in_dicts dest: AddMatch_distinct)
next
  case (cleanup ms ms')
  then show ?case by (blast intro: Cleanup_wf Cleanup_items_in_dicts Cleanup_distinct)
qed

section \<open>Properties of the match state\<close>

lemma NameText_known': "known_name ids n \<Longrightarrow> \<exists>t. NameText ids n = Inr t"
  by (auto simp: known_name_iff NameText_def NameKeyText_def split: if_splits)

lemma StartsWith_known:
  "known_name ids n \<Longrightarrow> StartsWith ids n ''sub_'' site =
     (if n = kNoneName then RaiseStartsWithNone site else Inr (is_sub_name ids n))"
  using NameText_known' [of ids n] by (auto simp: StartsWith_def is_sub_name_def)

lemma HasBetterMatch_cases:
  assumes "ms_wf ms" and "known_name ids n1" and "known_name ids n2"
  shows "HasBetterMatch ids ms n1 n2 ratio =
    (if n1 = kNoneName \<or> \<not> is_sub_name ids n1 \<and> n2 = kNoneName then RaiseStartsWithNone ''D:1392''
     else Inr (py_better (is_sub_name ids) (abs_state ms) n1 n2 ratio))"
  using assms unfolding ms_wf_def
  by (auto simp: HasBetterMatch_def StartsWith_known py_better_def abs_state_def RaiseStartsWithNone_def
      nd.lookup_entries split: option.splits)

text \<open>A table with three names, and items over them, for the concrete runs below.\<close>

definition demo_ids :: Interners where
  "demo_ids = snd (names.intern_all empty_Interners [Some ''main'', Some ''sub_401000'', Some ''helper''])"

definition demo_item :: "AddrId \<Rightarrow> NameId \<Rightarrow> AddrId \<Rightarrow> NameId \<Rightarrow> double \<Rightarrow> Item" where
  "demo_item e1 n1 e2 n2 r =
     \<lparr>it_Ea1 = e1, it_Name1 = n1, it_Ea2 = e2, it_Name2 = n2, it_Desc = 0, it_Ratio = r,
      it_Nodes1 = 3, it_Nodes2 = 4\<rparr>"

lemma demo_ids_eval:
  "demo_ids = \<lparr>Names = \<lparr>Views = [''main'', ''sub_401000'', ''helper''],
                Index = [(''main'', 0), (''sub_401000'', 1), (''helper'', 2)]\<rparr>,
     Descs = empty_Interner, Addrs = empty_Interner\<rparr>"
  by (simp add: demo_ids_def empty_Interners_def empty_Interner_def NameOpt_def NameOf_def Intern_def)

lemma demo_known: "known_name demo_ids 1" "known_name demo_ids 2" "known_name demo_ids 3"
  by (simp_all add: known_name_def demo_ids_eval)

lemma demo_key: "item_known demo_ids (demo_item e1 1 e2 2 r)" "item_known demo_ids (demo_item e1 3 e2 2 r)"
  by (simp_all add: item_known_def demo_item_def demo_known)

text \<open>C6. In every state the engine can reach, \<^verbatim>\<open>AddMatch\<close> raises exactly where Diaphora's
  \<^verbatim>\<open>has_better_match\<close> raises on a \<^verbatim>\<open>None\<close> name, and otherwise computes what Diaphora's
  \<^verbatim>\<open>add_match\<close> computes: the hash index decides \<^verbatim>\<open>item not in list\<close> and the dictionaries
  keep Python's insertion order.\<close>

theorem add_match_refines_python:
  assumes "ms_reach ids ms" and "known_name ids n1" and "known_name ids n2"
  shows "if n1 \<noteq> n2 \<and> ratio \<noteq> 1 \<and> (n1 = kNoneName \<or> \<not> is_sub_name ids n1 \<and> n2 = kNoneName)
         then AddMatch ids ms n1 n2 ratio it c = RaiseStartsWithNone ''D:1392''
         else \<exists>ms' res. AddMatch ids ms n1 n2 ratio it c = Inr (ms', res) \<and>
                abs_state ms' = py_add_match (is_sub_name ids) (abs_state ms) n1 n2 ratio it c"
proof -
  have wf: "ms_wf ms" using ms_reach_inv [OF assms(1)] by simp
  have agree: "member_count (ms_Members ms ch) x = 0 \<longleftrightarrow> x \<notin> set (ms_Lists ms ch)" for ch x
    using wf by (simp add: ms_wf_def members_agree_def)
  show ?thesis
    using wf unfolding AddMatch_def
    by (auto simp: HasBetterMatch_cases [OF wf assms(2,3)] py_add_match_def Let_def agree
        RaiseStartsWithNone_def abs_state_def nd.put_entries ms_wf_def split: option.splits)
qed

theorem add_match_refines_python_witness:
  "\<exists>ms' res. AddMatch demo_ids empty_MatchState 1 2 (1 / 2) (demo_item 7 1 8 2 (1 / 2)) (Some Partial) = Inr (ms', res) \<and>
     abs_state ms' = py_add_match (is_sub_name demo_ids) (abs_state empty_MatchState) 1 2 (1 / 2)
                       (demo_item 7 1 8 2 (1 / 2)) (Some Partial)"
  using add_match_refines_python [OF ms_reach.init demo_known(1,2), of "1 / 2" "demo_item 7 1 8 2 (1 / 2)" "Some Partial"]
  by (simp add: kNoneName_def)

text \<open>C7. Every reachable match state is well formed: the dictionaries are consistent, the
  membership indices agree with the lists, no list holds an item twice, and every item is
  registered under its two names.\<close>

theorem reachable_match_state_wf:
  assumes "ms_reach ids ms"
  shows "ms_wf ms \<and> (\<forall>c. distinct (ms_Lists ms c)) \<and> items_in_dicts ms"
  using assms by (rule ms_reach_inv)

theorem reachable_match_state_wf_witness:
  "ms_wf (SetTotals empty_MatchState 10 12) \<and> (\<forall>c. distinct (ms_Lists (SetTotals empty_MatchState 10 12) c)) \<and>
   items_in_dicts (SetTotals empty_MatchState 10 12)"
  by (rule reachable_match_state_wf [OF ms_reach.totals [OF ms_reach.init [of demo_ids]]])

text \<open>C8. \<^verbatim>\<open>Cleanup\<close> returns for every state whose names are interned, and its result is the
  pruned state: each list is a descending sub-list of the stably sorted input, no name pair occurs
  twice over all lists, along one address the effective ratios never decrease, every removed name
  pair lost to a kept item, and the dictionaries hold exactly the kept items, last writer first.\<close>

theorem cleanup_prunes:
  assumes "\<forall>it\<in>set (all_items ms). item_known ids it"
  shows "\<exists>ms'. Cleanup ids ms = Inr ms' \<and>
    (\<forall>c. subseq (ms_Lists ms' c) (SortDescending (ms_Lists ms c)) \<and> descending (ms_Lists ms' c)) \<and>
    distinct (map (item_key ids) (all_items ms')) \<and>
    sorted_wrt (\<lambda>a b. it_Ea1 a = it_Ea1 b \<longrightarrow> cleanup_ratio a \<le> cleanup_ratio b) (all_items ms') \<and>
    (\<forall>it\<in>set (all_items ms). \<exists>x\<in>set (all_items ms). item_key ids x = item_key ids it \<and>
       (x \<in> set (all_items ms') \<or>
        (\<exists>k\<in>set (all_items ms'). it_Ea1 k = it_Ea1 x \<and> cleanup_ratio k > cleanup_ratio x))) \<and>
    (\<forall>n. MS_Primary ms' n = map_of (rev (map primary_entry (all_items ms'))) n \<and>
         MS_Secondary ms' n = map_of (rev (map secondary_entry (all_items ms'))) n)"
proof -
  obtain ms' where ms': "Cleanup ids ms = Inr ms'"
    using Cleanup_total [OF assms] by blast
  let ?in = "SortDescending (ms_Lists ms Best) @ SortDescending (ms_Lists ms Partial)
               @ SortDescending (ms_Lists ms Unreliable)"
  obtain D E where run: "cleanup_list ids ?in [] [] = Inr (all_items ms', D, E)"
    using Cleanup_whole [OF ms'] by blast
  have set_in: "set ?in = set (all_items ms)" by (simp add: all_items_def)
  have "\<exists>x\<in>set (all_items ms). item_key ids x = item_key ids it \<and>
       (x \<in> set (all_items ms') \<or>
        (\<exists>k\<in>set (all_items ms'). it_Ea1 k = it_Ea1 x \<and> cleanup_ratio k > cleanup_ratio x))"
    if "it \<in> set (all_items ms)" for it
    using cleanup_list_covers [OF run, of it] that unfolding set_in by simp
  with ms' show ?thesis
    using cleanup_list_dominates [OF run] Cleanup_distinct_keys [OF ms']
    by (intro exI [of _ ms'])
       (simp add: Cleanup_subseq Cleanup_descending MS_Primary_def MS_Secondary_def Cleanup_dicts)
qed

text \<open>The lists the witnesses start from: two claims on the same first address and a repeated name pair.\<close>

definition demo_state :: MatchState where
  "demo_state = empty_MatchState\<lparr>ms_Lists := (\<lambda>c. case c of
      Best \<Rightarrow> [demo_item 7 1 8 2 1]
    | Partial \<Rightarrow> [demo_item 7 3 9 2 (3 / 4), demo_item 7 1 9 2 (1 / 2)]
    | Unreliable \<Rightarrow> [])\<rparr>"

lemma demo_state_known: "\<forall>it\<in>set (all_items demo_state). item_known demo_ids it"
  by (simp add: all_items_def demo_state_def demo_key)

theorem cleanup_prunes_witness:
  "\<exists>ms'. Cleanup demo_ids demo_state = Inr ms' \<and> distinct (map (item_key demo_ids) (all_items ms'))"
  using cleanup_prunes [OF demo_state_known] by blast

text \<open>C9. A second \<^verbatim>\<open>Cleanup\<close> changes nothing: lists, membership indices and dictionaries are
  already the pruned ones.\<close>

theorem cleanup_idempotent:
  assumes "Cleanup ids ms = Inr ms'"
  shows "Cleanup ids ms' = Inr ms'"
  using assms by (rule Cleanup_fixpoint)

theorem cleanup_idempotent_witness: "\<exists>ms'. Cleanup demo_ids demo_state = Inr ms' \<and> Cleanup demo_ids ms' = Inr ms'"
  using Cleanup_total [OF demo_state_known] cleanup_idempotent by blast

end
