(* ===== verification/PyInt.thy ===== *)
theory PyInt
  imports Prelude
begin

text \<open>
  Python's \<^verbatim>\<open>int(text)\<close> on address texts. The engine has it twice:
  \<^verbatim>\<open>Detail::PyIntAsciiAccepts\<close> (\<^verbatim>\<open>src/diff/StateDetail.h\<close>) only decides whether
  \<^verbatim>\<open>int\<close> accepts the text, \<^verbatim>\<open>PyIntCanonical\<close> (\<^verbatim>\<open>src/diff/Ratio.cpp\<close>) also
  returns \<^verbatim>\<open>str(int(text))\<close>. The two are shown to accept the same texts, and the canonical
  text to denote the same number.
\<close>

section \<open>Character classes\<close>

definition IsSpace :: "char \<Rightarrow> bool" where
  "IsSpace ch \<longleftrightarrow> ch = CHR 0x20 \<or> ch = CHR 0x09 \<or> ch = CHR 0x0A \<or> ch = CHR 0x0B \<or> ch = CHR 0x0C \<or> ch = CHR 0x0D"

definition IsDigit :: "char \<Rightarrow> bool" where
  "IsDigit ch \<longleftrightarrow> 48 \<le> (of_char ch :: nat) \<and> (of_char ch :: nat) \<le> 57"

definition IsAscii :: "string \<Rightarrow> bool" where
  "IsAscii str = list_all (\<lambda>ch. (of_char ch :: nat) < 0x80) str"

text \<open>The two \<^verbatim>\<open>while\<close> loops that move \<^verbatim>\<open>Begin\<close> and \<^verbatim>\<open>End\<close> inwards.\<close>

definition strip :: "string \<Rightarrow> string" where
  "strip str = rev (dropWhile IsSpace (rev (dropWhile IsSpace str)))"

section \<open>\<open>PyIntAsciiAccepts\<close>\<close>

fun accepts_loop :: "bool \<Rightarrow> string \<Rightarrow> bool" where
  "accepts_loop prev [] = True"
| "accepts_loop prev (ch # rest) =
     (if IsDigit ch then accepts_loop True rest
      else if ch = CHR ''_'' \<and> prev \<and> rest \<noteq> [] \<and> IsDigit (hd rest) then accepts_loop False rest
      else False)"

definition PyIntAsciiAccepts :: "string \<Rightarrow> bool" where
  "PyIntAsciiAccepts str =
     (let t = strip str;
          t = (if t \<noteq> [] \<and> (hd t = CHR ''+'' \<or> hd t = CHR ''-'') then tl t else t)
      in if t = [] \<or> \<not> IsDigit (hd t) then False else accepts_loop False t)"

section \<open>\<open>PyIntCanonical\<close>\<close>

text \<open>The loop keeps the digits seen so far and the previous character (initially \<^verbatim>\<open>'\0'\<close>).\<close>

fun canonical_loop :: "string \<Rightarrow> char \<Rightarrow> string \<Rightarrow> (string \<times> char) option" where
  "canonical_loop digits prev [] = Some (digits, prev)"
| "canonical_loop digits prev (ch # rest) =
     (if ch = CHR ''_'' then (if \<not> IsDigit prev then None else canonical_loop digits ch rest)
      else if IsDigit ch then canonical_loop (digits @ [ch]) ch rest
      else None)"

definition PyIntCanonical :: "string \<Rightarrow> string option result" where
  "PyIntCanonical str =
     (if \<not> list_all (\<lambda>ch. (of_char ch :: nat) < 0x80) str
      then Inl (UnsupportedInput ''int(): non-ASCII address text is not ported (Unicode digit/space mapping)'')
      else
        (let t = strip str;
             signed = (t \<noteq> [] \<and> (hd t = CHR ''+'' \<or> hd t = CHR ''-''));
             negative = (signed \<and> hd t = CHR ''-'');
             t = (if signed then tl t else t)
         in case canonical_loop [] (CHR 0x00) t of
              None \<Rightarrow> Inr None
            | Some (digits, prev) \<Rightarrow>
                if digits = [] \<or> prev = CHR ''_'' then Inr None
                else
                  (let significant = dropWhile (\<lambda>ch. ch = CHR ''0'') digits
                   in if significant = [] then Inr (Some ''0'')
                      else Inr (Some (if negative then ''-'' @ significant else significant)))))"

section \<open>The value of a numeral\<close>

definition digit_val :: "char \<Rightarrow> nat" where
  "digit_val ch = of_char ch - 48"

definition dec_val :: "string \<Rightarrow> nat" where
  "dec_val digits = fold (\<lambda>ch n. 10 * n + digit_val ch) digits 0"

text \<open>The number a text denotes: spaces stripped, an optional sign, the digits without their
  separators.\<close>

definition py_int_value :: "string \<Rightarrow> int" where
  "py_int_value str =
     (let t = strip str
      in if t \<noteq> [] \<and> hd t = CHR ''-'' then - int (dec_val (filter IsDigit (tl t)))
         else int (dec_val (filter IsDigit t)))"

text \<open>A canonical decimal text: \<^verbatim>\<open>0\<close>, or digits without a leading zero after an optional minus.\<close>

definition canonical_decimal :: "string \<Rightarrow> bool" where
  "canonical_decimal s \<longleftrightarrow>
     s = ''0'' \<or>
     (let d = (if s \<noteq> [] \<and> hd s = CHR ''-'' then tl s else s)
      in d \<noteq> [] \<and> list_all IsDigit d \<and> hd d \<noteq> CHR ''0'')"

lemma not_digit_underscore [simp]: "\<not> IsDigit (CHR ''_'')"
  by (simp add: IsDigit_def)

lemma not_digit_sign [simp]: "\<not> IsDigit (CHR ''+'')" "\<not> IsDigit (CHR ''-'')" "\<not> IsDigit (CHR 0x00)"
  by (simp_all add: IsDigit_def)

lemma digit_0 [simp]: "IsDigit (CHR ''0'')"
  by (simp add: IsDigit_def)

lemma not_space_digit: "IsDigit ch \<Longrightarrow> \<not> IsSpace ch"
  by (auto simp: IsDigit_def IsSpace_def)

section \<open>The two scanners agree\<close>

lemma canonical_loop_digits:
  "canonical_loop digits prev t = Some (ds, p) \<Longrightarrow> ds = digits @ filter IsDigit t"
  by (induction digits prev t rule: canonical_loop.induct) (auto split: if_splits)

text \<open>The look-ahead of one loop against the look-behind of the other: after a separator the
  accepting loop has already seen that a digit follows.\<close>

lemma canonical_loop_accepts:
  "(prev = CHR ''_'' \<longrightarrow> t = [] \<or> IsDigit (hd t)) \<Longrightarrow>
   (\<exists>ds p. canonical_loop digits prev t = Some (ds, p) \<and> (t \<noteq> [] \<longrightarrow> p \<noteq> CHR ''_'')) \<longleftrightarrow>
   accepts_loop (IsDigit prev) t"
proof (induction digits prev t rule: canonical_loop.induct)
  case (2 digits prev ch rest)
  show ?case
  proof (cases "ch = CHR ''_''")
    case True
    show ?thesis
    proof (cases "rest \<noteq> [] \<and> IsDigit (hd rest)")
      case True': True
      then show ?thesis using 2 True by auto
    next
      case False
      then have "canonical_loop digits ch rest = (if rest = [] then Some (digits, ch) else None)"
        using True by (cases rest) auto
      with False True show ?thesis by auto
    qed
  next
    case False
    then show ?thesis
      using "2.IH"(2) by (cases "rest = []") (auto simp: IsDigit_def)
  qed
qed simp

lemma accepts_loop_first: "IsDigit ch \<Longrightarrow> canonical_loop [] (CHR 0x00) (ch # rest) = Some (ds, p) \<Longrightarrow> ds \<noteq> []"
  by (drule canonical_loop_digits) simp

lemma canonical_loop_start:
  "(\<exists>ds p. canonical_loop [] (CHR 0x00) t = Some (ds, p) \<and> ds \<noteq> [] \<and> p \<noteq> CHR ''_'') \<longleftrightarrow>
     t \<noteq> [] \<and> IsDigit (hd t) \<and> accepts_loop False t"
proof (cases t)
  case (Cons ch rest)
  show ?thesis
  proof (cases "IsDigit ch")
    case True
    then show ?thesis
      using canonical_loop_accepts [of "CHR 0x00" t "[]"] accepts_loop_first [of ch rest] by (auto simp: Cons)
  qed (simp add: Cons)
qed simp

lemma PyIntCanonical_Some_iff:
  assumes "IsAscii str"
  shows "(\<exists>s. PyIntCanonical str = Inr (Some s)) \<longleftrightarrow> PyIntAsciiAccepts str"
proof -
  define signed where "signed \<longleftrightarrow> strip str \<noteq> [] \<and> (hd (strip str) = CHR ''+'' \<or> hd (strip str) = CHR ''-'')"
  define t where "t = (if signed then tl (strip str) else strip str)"
  have "(\<exists>s. PyIntCanonical str = Inr (Some s)) \<longleftrightarrow>
     (\<exists>ds p. canonical_loop [] (CHR 0x00) t = Some (ds, p) \<and> ds \<noteq> [] \<and> p \<noteq> CHR ''_'')"
    using assms unfolding PyIntCanonical_def IsAscii_def t_def signed_def
    by (auto simp: Let_def split: option.splits)
  also have "\<dots> \<longleftrightarrow> PyIntAsciiAccepts str"
    unfolding canonical_loop_start
    unfolding PyIntAsciiAccepts_def t_def signed_def by (auto simp: Let_def)
  finally show ?thesis .
qed

section \<open>The canonical text denotes the same number\<close>

lemma dec_val_gen: "fold (\<lambda>ch n. 10 * n + digit_val ch) ds n = n * 10 ^ length ds + dec_val ds"
proof (induction ds arbitrary: n)
  case (Cons d ds)
  have "dec_val (d # ds) = digit_val d * 10 ^ length ds + dec_val ds"
    using Cons.IH [of "digit_val d"] by (simp add: dec_val_def)
  then show ?case
    using Cons.IH [of "10 * n + digit_val d"] by (simp add: algebra_simps)
qed (simp add: dec_val_def)

lemma dec_val_Cons: "dec_val (d # ds) = digit_val d * 10 ^ length ds + dec_val ds"
  using dec_val_gen [of ds "digit_val d"] by (simp add: dec_val_def)

lemma dec_val_dropWhile_0: "dec_val (dropWhile (\<lambda>ch. ch = CHR ''0'') ds) = dec_val ds"
  by (induction ds) (simp_all add: dec_val_Cons digit_val_def)

lemma dropWhile_space_digit: "list_all (\<lambda>ch. \<not> IsSpace ch) t \<Longrightarrow> strip t = t"
proof -
  assume "list_all (\<lambda>ch. \<not> IsSpace ch) t"
  then have "dropWhile IsSpace t = t" "dropWhile IsSpace (rev t) = rev t"
    by (cases t; simp) (subst dropWhile_eq_self_iff, use \<open>list_all (\<lambda>ch. \<not> IsSpace ch) t\<close> in \<open>auto simp: list_all_iff hd_rev\<close>)
  then show ?thesis by (simp add: strip_def)
qed

lemma strip_digits: "list_all IsDigit d \<Longrightarrow> strip d = d" "list_all IsDigit d \<Longrightarrow> strip (CHR ''-'' # d) = CHR ''-'' # d"
  by (auto intro!: dropWhile_space_digit simp: list_all_iff not_space_digit) (simp add: IsSpace_def)

lemma digits_no_sign: "list_all IsDigit d \<Longrightarrow> d \<noteq> [] \<Longrightarrow> hd d \<noteq> CHR ''-'' \<and> hd d \<noteq> CHR ''+''"
  by (cases d) auto

lemma filter_digits: "list_all IsDigit d \<Longrightarrow> filter IsDigit d = d"
  by (simp add: list_all_iff)

lemma py_int_value_digits:
  assumes "list_all IsDigit d"
  shows "py_int_value d = int (dec_val d)" and "py_int_value (CHR ''-'' # d) = - int (dec_val d)"
  using assms digits_no_sign [OF assms]
  by (auto simp: py_int_value_def strip_digits filter_digits Let_def)

lemma PyIntCanonical_sound:
  assumes "PyIntCanonical str = Inr (Some s)"
  shows "canonical_decimal s \<and> py_int_value s = py_int_value str"
proof -
  define signed where "signed \<longleftrightarrow> strip str \<noteq> [] \<and> (hd (strip str) = CHR ''+'' \<or> hd (strip str) = CHR ''-'')"
  define t where "t = (if signed then tl (strip str) else strip str)"
  define neg where "neg \<longleftrightarrow> signed \<and> hd (strip str) = CHR ''-''"
  from assms obtain ds p where run: "canonical_loop [] (CHR 0x00) t = Some (ds, p)"
    and s: "s = (if dropWhile (\<lambda>ch. ch = CHR ''0'') ds = [] then ''0''
        else (if neg then ''-'' @ dropWhile (\<lambda>ch. ch = CHR ''0'') ds else dropWhile (\<lambda>ch. ch = CHR ''0'') ds))"
    unfolding PyIntCanonical_def t_def signed_def neg_def
    by (auto simp: Let_def split: option.splits if_splits)
  let ?sig = "dropWhile (\<lambda>ch. ch = CHR ''0'') ds"
  have ds: "ds = filter IsDigit t" using canonical_loop_digits [OF run] by simp
  then have dig: "list_all IsDigit ?sig"
    by (auto simp: list_all_iff dest!: set_dropWhileD)
  have same: "filter IsDigit (strip str) = filter IsDigit t"
    by (cases "strip str") (auto simp: t_def signed_def)
  have "neg \<longleftrightarrow> strip str \<noteq> [] \<and> hd (strip str) = CHR ''-''"
    by (auto simp: neg_def signed_def)
  moreover have "neg \<Longrightarrow> t = tl (strip str)" by (simp add: t_def neg_def)
  ultimately have val: "py_int_value str = (if neg then - int (dec_val ds) else int (dec_val ds))"
    by (auto simp: py_int_value_def Let_def ds same [symmetric])
  show ?thesis
  proof (cases "?sig = []")
    case True
    then have "dec_val ds = dec_val []" by (metis dec_val_dropWhile_0)
    then have "dec_val ds = 0" by (simp add: dec_val_def)
    moreover have "py_int_value ''0'' = 0"
      using py_int_value_digits(1) [of "''0''"] by (simp add: dec_val_Cons) (simp add: dec_val_def digit_val_def)
    ultimately show ?thesis using True by (simp add: s val canonical_decimal_def)
  next
    case False
    then have "hd ?sig \<noteq> CHR ''0''" by (metis (full_types) hd_dropWhile)
    moreover have "hd ?sig \<noteq> CHR ''-''" using digits_no_sign [OF dig False] by simp
    ultimately show ?thesis
      using False dig by (auto simp: s val canonical_decimal_def py_int_value_digits dec_val_dropWhile_0)
  qed
qed

section \<open>Properties\<close>

text \<open>C19. On ASCII text the engine's two readings of Python's \<^verbatim>\<open>int()\<close> accept exactly the same
  texts, and \<^verbatim>\<open>PyIntCanonical\<close> returns a canonical decimal text of the same number; other text
  is refused with \<^verbatim>\<open>UnsupportedInput\<close> and never guessed.\<close>

theorem py_int_scanners_agree:
  "(if IsAscii str
    then (case PyIntCanonical str of
            Inr (Some s) \<Rightarrow> PyIntAsciiAccepts str \<and> canonical_decimal s \<and> py_int_value s = py_int_value str
          | Inr None \<Rightarrow> \<not> PyIntAsciiAccepts str
          | Inl e \<Rightarrow> False)
    else \<exists>what. PyIntCanonical str = Inl (UnsupportedInput what))"
proof (cases "IsAscii str")
  case True
  then have "\<exists>r. PyIntCanonical str = Inr r"
    by (auto simp: PyIntCanonical_def IsAscii_def Let_def split: option.splits)
  then show ?thesis
    using True PyIntCanonical_Some_iff [OF True] PyIntCanonical_sound [of str]
    by (auto split: option.splits)
qed (simp add: PyIntCanonical_def IsAscii_def)

end
