(* ===== verification/Double.thy ===== *)
theory Double
  imports Prelude "HOL-Library.Log_Nat"
begin

text \<open>
  IEEE double arithmetic on rationals. A finite double is a rational; an operation of the code is the
  exact rational operation followed by \<open>fl\<close>, rounding to 53 significant bits or to a multiple of
  \<open>2 ^ -1074\<close> (subnormal numbers), ties to even. \<open>fl\<close> does not overflow: where the code can leave the
  finite range (\<^verbatim>\<open>float(text)\<close>), \<open>overflows\<close> tells.
\<close>

section \<open>Rounding to an integer, ties to even\<close>

definition round_even :: "rat \<Rightarrow> int" where
  "round_even x =
     (let f = \<lfloor>x\<rfloor>; d = x - of_int f
      in if d < 1 / 2 then f else if d > 1 / 2 then f + 1 else if even f then f else f + 1)"

lemma round_even_of_int [simp]: "round_even (of_int i) = i"
  by (simp add: round_even_def)

lemma round_even_bounds: "\<lfloor>x\<rfloor> \<le> round_even x" "round_even x \<le> \<lfloor>x\<rfloor> + 1"
  by (simp_all add: round_even_def Let_def)

lemma round_even_mono:
  assumes "x \<le> y" shows "round_even x \<le> round_even y"
proof (cases "\<lfloor>x\<rfloor> = \<lfloor>y\<rfloor>")
  case True
  with assms show ?thesis by (auto simp: round_even_def Let_def)
next
  case False
  with assms have "\<lfloor>x\<rfloor> + 1 \<le> \<lfloor>y\<rfloor>" using floor_mono [OF assms] by linarith
  with round_even_bounds [of x] round_even_bounds [of y] show ?thesis by linarith
qed

lemma round_even_close: "\<bar>of_int (round_even x) - x\<bar> \<le> 1 / 2"
proof -
  have "of_int \<lfloor>x\<rfloor> \<le> x" "x < of_int \<lfloor>x\<rfloor> + 1" using floor_correct [of x] by simp_all
  then show ?thesis by (auto simp: round_even_def Let_def abs_le_iff)
qed

section \<open>The exponent\<close>

definition pow2 :: "int \<Rightarrow> rat" where
  "pow2 e = (if e \<ge> 0 then 2 ^ nat e else 1 / 2 ^ nat (- e))"

lemma pow2_powi: "pow2 e = power_int 2 e"
  by (simp add: pow2_def power_int_def field_simps)

lemma pow2_pos [simp]: "0 < pow2 e"
  by (simp add: pow2_def)

lemma pow2_nonzero [simp]: "pow2 e \<noteq> 0"
  by (simp add: pow2_def)

lemma pow2_add: "pow2 (a + b) = pow2 a * pow2 b"
  by (simp add: pow2_powi power_int_add)

lemma pow2_mono: "a \<le> b \<Longrightarrow> pow2 a \<le> pow2 b"
  by (simp add: pow2_powi power_int_increasing)

lemma pow2_0 [simp]: "pow2 0 = 1" by (simp add: pow2_def)

text \<open>The exponent \<open>e\<close> with \<open>2^e \<le> x < 2^(e+1)\<close> of a positive rational.\<close>

definition exponent :: "rat \<Rightarrow> int" where
  "exponent x =
     (case quotient_of x of (p, q) \<Rightarrow>
        let d = bitlen p - bitlen q in if pow2 d \<le> x then d else d - 1)"

lemma exponent_bounds:
  assumes "0 < x"
  shows "pow2 (exponent x) \<le> x" and "x < pow2 (exponent x + 1)"
proof -
  obtain p q where pq: "quotient_of x = (p, q)" by fastforce
  then have q: "0 < q" and x: "x = of_int p / of_int q" by (simp_all add: quotient_of_denom_pos quotient_of_div)
  with assms have p: "0 < p" by (simp add: zero_less_divide_iff)
  define d where "d = bitlen p - bitlen q"
  have bp: "2 ^ nat (bitlen p - 1) \<le> p" "p < 2 ^ nat (bitlen p)" and bq: "2 ^ nat (bitlen q - 1) \<le> q" "q < 2 ^ nat (bitlen q)"
    using bitlen_bounds p q by auto
  have P: "1 \<le> bitlen p" "1 \<le> bitlen q" using p q bp(2) bq(2) by (cases "bitlen p \<le> 0"; cases "bitlen q \<le> 0"; simp)+
  have pp: "pow2 (bitlen p - 1) \<le> of_int p" "of_int p < pow2 (bitlen p)" "pow2 (bitlen q - 1) \<le> of_int q" "of_int q < pow2 (bitlen q)"
    using bp bq P by (simp_all add: pow2_def of_int_le_iff [symmetric] of_int_less_iff [symmetric] del: of_int_le_iff of_int_less_iff)
  have up: "x < pow2 (d + 1)"
  proof -
    have "of_int p < pow2 (bitlen p)" by (rule pp)
    also have "\<dots> = pow2 (d + 1) * pow2 (bitlen q - 1)" by (simp add: d_def pow2_add [symmetric])
    also have "\<dots> \<le> pow2 (d + 1) * of_int q" using pp(3) by (intro mult_left_mono) (simp_all add: less_imp_le)
    finally show ?thesis using q by (simp add: x pos_divide_less_eq)
  qed
  have low: "pow2 (d - 1) \<le> x"
  proof -
    have "pow2 (d - 1) * of_int q \<le> pow2 (d - 1) * pow2 (bitlen q)" using pp(4) by (intro mult_left_mono) (simp_all add: less_imp_le)
    also have "\<dots> = pow2 (bitlen p - 1)" by (simp add: d_def pow2_add [symmetric])
    also have "\<dots> \<le> of_int p" by (rule pp)
    finally show ?thesis using q by (simp add: x pos_le_divide_eq)
  qed
  have e: "exponent x = (if pow2 d \<le> x then d else d - 1)" by (simp add: exponent_def pq d_def Let_def)
  from low show "pow2 (exponent x) \<le> x" by (simp add: e)
  from up show "x < pow2 (exponent x + 1)" by (simp add: e)
qed

lemma pow2_less_iff: "pow2 a < pow2 b \<longleftrightarrow> a < b"
  by (metis linorder_not_le order.strict_iff_order pow2_mono pow2_powi power_int_strict_increasing one_less_numeral_iff semiring_norm(76))

lemma exponent_mono: "0 < x \<Longrightarrow> x \<le> y \<Longrightarrow> exponent x \<le> exponent y"
proof -
  assume "0 < x" "x \<le> y"
  then have "pow2 (exponent x) < pow2 (exponent y + 1)"
    using exponent_bounds(1) [of x] exponent_bounds(2) [of y] by linarith
  then show ?thesis by (simp add: pow2_less_iff)
qed

section \<open>Rounding to a double\<close>

definition scale :: "rat \<Rightarrow> int" where
  "scale x = max (exponent x) (- 1022)"

definition ulp :: "rat \<Rightarrow> rat" where
  "ulp x = pow2 (scale x - 52)"

definition fl_pos :: "rat \<Rightarrow> rat" where
  "fl_pos x = of_int (round_even (x / ulp x)) * ulp x"

definition fl :: "rat \<Rightarrow> double" where
  "fl x = (if x = 0 then 0 else if x > 0 then fl_pos x else - fl_pos (- x))"

definition overflows :: "rat \<Rightarrow> bool" where
  "overflows x \<longleftrightarrow> pow2 1024 \<le> \<bar>fl x\<bar>"

lemma ulp_pos [simp]: "0 < ulp x"
  by (simp add: ulp_def)

lemma pow2_52: "pow2 52 = of_int (2 ^ 52)" and pow2_53: "pow2 53 = of_int (2 ^ 53)"
  by (simp_all add: pow2_def)

lemma ulp_nonzero [simp]: "ulp x \<noteq> 0"
  using ulp_pos [of x] by (simp only: less_imp_neq [symmetric] not_False_eq_True)

lemma fl_pos_exact:
  assumes "x / ulp x = of_int i" shows "fl_pos x = x"
proof -
  have "fl_pos x = of_int i * ulp x" by (simp only: fl_pos_def assms round_even_of_int)
  also have "\<dots> = x / ulp x * ulp x" by (simp only: assms)
  finally show ?thesis by simp
qed

lemma round_ulp_le:
  assumes "0 < x" shows "0 \<le> round_even (x / ulp x)" and "round_even (x / ulp x) \<le> 2 ^ 53"
proof -
  have "x < pow2 (scale x + 1)"
    using exponent_bounds(2) [OF assms] pow2_mono [of "exponent x + 1" "scale x + 1"] by (simp add: scale_def)
  then have "x / ulp x \<le> pow2 53"
    by (simp add: ulp_def pos_divide_le_eq pow2_add [symmetric] add.commute less_imp_le)
  from round_even_mono [OF this] show "round_even (x / ulp x) \<le> 2 ^ 53" unfolding pow2_53 round_even_of_int .
  show "0 \<le> round_even (x / ulp x)"
    using assms round_even_mono [of 0 "x / ulp x"] round_even_of_int [of 0] by (simp add: less_imp_le)
qed

lemma fl_pos_le: "0 < x \<Longrightarrow> fl_pos x \<le> pow2 (scale x + 1)"
proof -
  assume "0 < x"
  then have "of_int (round_even (x / ulp x)) \<le> pow2 53" unfolding pow2_53 of_int_le_iff by (rule round_ulp_le)
  then have "fl_pos x \<le> pow2 53 * ulp x" by (simp add: fl_pos_def)
  also have "\<dots> = pow2 (scale x + 1)" by (simp add: ulp_def pow2_add [symmetric] add.commute)
  finally show ?thesis .
qed

lemma fl_pos_ge:
  assumes "0 < x" and "- 1022 \<le> exponent x" shows "pow2 (exponent x) \<le> fl_pos x"
proof -
  have s: "scale x = exponent x" using assms(2) by (simp add: scale_def)
  have "pow2 52 \<le> x / ulp x"
    using exponent_bounds(1) [OF assms(1)] s by (simp add: ulp_def pos_le_divide_eq pow2_add [symmetric] add.commute)
  then have "2 ^ 52 \<le> round_even (x / ulp x)"
    using round_even_mono [of "pow2 52" "x / ulp x"] unfolding pow2_52 round_even_of_int by blast
  then have "pow2 52 \<le> of_int (round_even (x / ulp x))" unfolding pow2_52 of_int_le_iff .
  then have "pow2 52 * ulp x \<le> fl_pos x" by (simp add: fl_pos_def)
  moreover have "pow2 52 * ulp x = pow2 (exponent x)" by (simp add: ulp_def s pow2_add [symmetric] add.commute)
  ultimately show ?thesis by simp
qed

lemma fl_pos_nonneg: "0 < x \<Longrightarrow> 0 \<le> fl_pos x"
  using round_ulp_le(1) [of x] by (simp add: fl_pos_def less_imp_le)

lemma fl_pos_mono:
  assumes "0 < x" "x \<le> y" shows "fl_pos x \<le> fl_pos y"
proof (cases "scale x = scale y")
  case True
  then have "ulp x = ulp y" by (simp add: ulp_def)
  with assms show ?thesis by (simp add: fl_pos_def round_even_mono divide_right_mono less_imp_le)
next
  case False
  with exponent_mono [OF assms] have y: "- 1022 \<le> exponent y" "scale x + 1 \<le> exponent y" by (auto simp: scale_def)
  then have "pow2 (scale x + 1) \<le> pow2 (exponent y)" by (intro pow2_mono)
  with fl_pos_le [OF assms(1)] fl_pos_ge [OF _ y(1)] assms show ?thesis by simp
qed

lemma fl_mono:
  assumes "x \<le> y" shows "fl x \<le> fl y"
proof -
  consider "x < 0" "y < 0" | "x < 0" "y \<ge> 0" | "x = 0" "y \<ge> 0" | "0 < x" using assms by linarith
  then show ?thesis
  proof cases
    case 1
    with assms fl_pos_mono [of "- y" "- x"] show ?thesis by (simp add: fl_def)
  next
    case 2
    with fl_pos_nonneg [of "- x"] fl_pos_nonneg [of y] show ?thesis by (auto simp: fl_def)
  next
    case 3
    with fl_pos_nonneg [of y] show ?thesis by (auto simp: fl_def)
  next
    case 4
    with assms fl_pos_mono [of x y] show ?thesis by (simp add: fl_def)
  qed
qed

text \<open>A rational with at most 53 significant bits that is a multiple of \<open>2 ^ -1074\<close> is a double.\<close>

definition is_double :: "rat \<Rightarrow> bool" where
  "is_double x \<longleftrightarrow> (\<exists>m e. x = of_int m * pow2 e \<and> \<bar>m\<bar> \<le> 2 ^ 53 \<and> - 1074 \<le> e)"

lemma multiple_of_ulp:
  assumes "x = of_int m * pow2 e" and "scale x - 52 \<le> e" shows "fl_pos x = x"
proof -
  have k: "0 \<le> e - (scale x - 52)" using assms(2) by simp
  then have "pow2 (e - (scale x - 52)) = of_int (2 ^ nat (e - (scale x - 52)))" by (simp add: pow2_def)
  moreover have "pow2 e = pow2 (e - (scale x - 52)) * ulp x" by (simp add: ulp_def pow2_add [symmetric])
  ultimately have "of_int m * pow2 e = of_int (m * 2 ^ nat (e - (scale x - 52))) * ulp x"
    by (simp only: of_int_mult mult.assoc)
  from trans [OF assms(1) this] have "x / ulp x = of_int (m * 2 ^ nat (e - (scale x - 52)))"
    by (simp only: nonzero_divide_eq_eq [OF ulp_nonzero])
  then show ?thesis by (rule fl_pos_exact)
qed

lemma fl_pos_double:
  assumes "0 < x" and "x = of_int m * pow2 e" and "m \<le> 2 ^ 53" and "- 1074 \<le> e"
  shows "fl_pos x = x"
proof (cases "scale x - 52 \<le> e")
  case True
  then show ?thesis by (rule multiple_of_ulp [OF assms(2)])
next
  case False
  with assms(4) have s: "scale x = exponent x" by (auto simp: scale_def)
  have "pow2 (exponent x) \<le> of_int m * pow2 e" using exponent_bounds(1) [OF assms(1)] assms(2) by simp
  also have "\<dots> \<le> pow2 53 * pow2 e"
    using assms(3) by (intro mult_right_mono) (simp_all add: less_imp_le pow2_def)
  finally have "pow2 (exponent x) \<le> pow2 (53 + e)" by (simp add: pow2_add)
  then have "exponent x \<le> 53 + e" by (metis linorder_not_le pow2_less_iff)
  with False s have e: "exponent x = 53 + e" by simp
  with assms(2) exponent_bounds(1) [OF assms(1)] have "pow2 53 * pow2 e \<le> of_int m * pow2 e" by (simp add: pow2_add)
  then have "pow2 53 \<le> of_int m" by simp
  then have "m = 2 ^ 53" using assms(3) by (simp add: pow2_def)
  then have "x = of_int 1 * pow2 (53 + e)" using assms(2) by (simp add: pow2_add pow2_53)
  then show ?thesis by (rule multiple_of_ulp) (simp add: s e)
qed

lemma fl_double: "is_double x \<Longrightarrow> fl x = x"
proof -
  assume "is_double x"
  then obtain m e where x: "x = of_int m * pow2 e" "\<bar>m\<bar> \<le> 2 ^ 53" "- 1074 \<le> e" unfolding is_double_def by blast
  then have "0 < x \<Longrightarrow> fl_pos x = x" by (rule_tac fl_pos_double [of x m e]) auto
  moreover have "- x = of_int (- m) * pow2 e" using x by simp
  then have "x < 0 \<Longrightarrow> fl_pos (- x) = - x" using x(2,3) by (rule_tac fl_pos_double [of "- x" "- m" e]) auto
  ultimately show ?thesis by (auto simp: fl_def)
qed

lemma is_double_int: "\<bar>m\<bar> \<le> 2 ^ 53 \<Longrightarrow> is_double (of_int m)"
  unfolding is_double_def by (intro exI [of _ m] exI [of _ 0]) simp

lemma fl_int: "\<bar>m\<bar> \<le> 2 ^ 53 \<Longrightarrow> fl (of_int m) = of_int m"
  by (intro fl_double is_double_int)

lemma fl_nat: "n \<le> 2 ^ 53 \<Longrightarrow> fl (of_nat n) = of_nat n"
  using fl_int [of "int n"] by simp

lemma fl_0 [simp]: "fl 0 = 0" and fl_1 [simp]: "fl 1 = 1"
  using fl_int [of 0] fl_int [of 1] by simp_all

lemma fl_le_1: "x \<le> 1 \<Longrightarrow> fl x \<le> 1" and fl_nonneg: "0 \<le> x \<Longrightarrow> 0 \<le> fl x"
  using fl_mono [of x 1] fl_mono [of 0 x] by simp_all

lemma fl_ge_1: "1 \<le> x \<Longrightarrow> 1 \<le> fl x"
  using fl_mono [of 1 x] by simp

text \<open>The result of rounding is a double again.\<close>

lemma fl_is_double: "is_double (fl x)"
proof -
  have pos: "is_double (fl_pos y)" if "0 < y" for y
    using round_ulp_le [OF that] unfolding is_double_def fl_pos_def
    by (intro exI [of _ "round_even (y / ulp y)"] exI [of _ "scale y - 52"]) (simp add: ulp_def scale_def)
  have neg: "is_double (- y)" if "is_double y" for y
    using that unfolding is_double_def by (metis abs_minus_cancel mult_minus_left of_int_minus)
  consider "x = 0" | "0 < x" | "x < 0" by linarith
  then show ?thesis
  proof cases
    case 1
    then show ?thesis using is_double_int [of 0] by simp
  qed (use pos neg in \<open>auto simp: fl_def\<close>)
qed

lemma fl_idem [simp]: "fl (fl x) = fl x"
  by (rule fl_double [OF fl_is_double])

section \<open>Operations\<close>

text \<open>\<^verbatim>\<open>static_cast<double>(size_t)\<close>, \<^verbatim>\<open>+\<close>, \<^verbatim>\<open>-\<close>, \<^verbatim>\<open>*\<close>, \<^verbatim>\<open>/\<close>.\<close>

definition dbl_of_size :: "nat \<Rightarrow> double" where "dbl_of_size n = fl (of_nat n)"
definition dbl_add :: "double \<Rightarrow> double \<Rightarrow> double" where "dbl_add x y = fl (x + y)"
definition dbl_sub :: "double \<Rightarrow> double \<Rightarrow> double" where "dbl_sub x y = fl (x - y)"
definition dbl_mul :: "double \<Rightarrow> double \<Rightarrow> double" where "dbl_mul x y = fl (x * y)"
definition dbl_div :: "double \<Rightarrow> double \<Rightarrow> double" where "dbl_div x y = fl (x / y)"

lemmas dbl_ops [model_defs] = dbl_of_size_def dbl_add_def dbl_sub_def dbl_mul_def dbl_div_def

end
