(* ===== verification/BigUInt.thy ===== *)
theory BigUInt
  imports Prelude
begin

text \<open>
  The unsigned big integer of \<^verbatim>\<open>src/diff/PyValue.cpp\<close>: 32-bit limbs, least significant first, with the
  64-bit intermediate products of the code. Every operation is proved to compute on the value
  \<open>big\<close> of the limbs, with no wrap-around, and to keep the representation normal (no leading zero
  limb), which is what makes \<^verbatim>\<open>IsZero\<close>, \<^verbatim>\<open>Compare\<close> and \<^verbatim>\<open>BitLength\<close> right.
\<close>

unbundle bit_operations_syntax

section \<open>Words as numbers\<close>

lemma unat_drop: "unat (drop_bit k w) = unat w div 2 ^ k"
  by (simp only: unat_drop_bit_eq) (simp only: drop_bit_eq_div)

lemma unat_push: "unat (push_bit k w) = (unat w * 2 ^ k) mod 2 ^ LENGTH('a)" for w :: "'a::len word"
  by (simp only: unsigned_push_bit_eq) (simp only: push_bit_eq_mult take_bit_eq_mod)

lemma unat_bound: "unat (w :: 'a::len word) < 2 ^ LENGTH('a)"
  by (rule unsigned_less)

lemma unat_bound32: "unat (w :: 32 word) < 4294967296" and unat_bound64: "unat (v :: 64 word) < 18446744073709551616"
  using unat_bound [of w] unat_bound [of v] by simp_all

lemma unat_ucast32: "unat (ucast (v :: 64 word) :: 32 word) = unat v mod 2 ^ 32"
  by (simp add: unsigned_ucast_eq take_bit_eq_mod)

lemma unat_ucast64: "unat (ucast (w :: 32 word) :: 64 word) = unat w"
  using unat_bound [of w] by (simp add: unsigned_ucast_eq take_bit_nat_eq_self)

lemma ucast32_eq_0: "drop_bit 32 v = 0 \<Longrightarrow> ucast (v :: 64 word) = (0 :: 32 word) \<Longrightarrow> v = 0"
proof -
  assume "drop_bit 32 v = 0" "ucast v = (0 :: 32 word)"
  then have "unat v div 2 ^ 32 = 0" "unat v mod 2 ^ 32 = 0" by (metis unat_drop unsigned_0, metis unat_ucast32 unsigned_0)
  then have "unat v = 0" by (metis div_mult_mod_eq mult_zero_left add_0)
  then show "v = 0" by (simp only: unsigned_eq_0_iff)
qed

lemma unat_of_nat32: "k < 2 ^ 32 \<Longrightarrow> unat (of_nat k :: 32 word) = k"
  by (simp add: unsigned_of_nat take_bit_nat_eq_self)

lemma unat_word_of_int32: "0 \<le> x \<Longrightarrow> x < 2 ^ 32 \<Longrightarrow> int (unat (word_of_int x :: 32 word)) = x"
  by (simp add: unsigned_of_int take_bit_int_eq_self)

section \<open>The class\<close>

type_synonym limbs = "32 word list"

text \<open>\<^verbatim>\<open>BigUInt(uint64_t)\<close>\<close>

function limbs_of :: "64 word \<Rightarrow> limbs" where
  "limbs_of v = (if v \<noteq> 0 then ucast v # limbs_of (drop_bit 32 v) else [])"
  by pat_completeness auto
termination
proof (relation "measure unat", simp)
  fix v :: "64 word" assume "v \<noteq> 0"
  then have "0 < unat v" by (simp add: unat_gt_0)
  then show "(drop_bit 32 v, v) \<in> measure unat" by (simp add: unat_drop del: drop_bit_eq_div)
qed

declare limbs_of.simps [simp del]

definition IsZero :: "limbs \<Rightarrow> bool" where
  "IsZero ls \<longleftrightarrow> ls = []"

fun Trim_rev :: "limbs \<Rightarrow> limbs" where
  "Trim_rev (l # ls) = (if l = 0 then Trim_rev ls else l # ls)"
| "Trim_rev [] = []"

definition Trim :: "limbs \<Rightarrow> limbs" where
  "Trim ls = rev (Trim_rev (rev ls))"

fun mul_add_loop :: "32 word \<Rightarrow> 64 word \<Rightarrow> limbs \<Rightarrow> limbs" where
  "mul_add_loop factor carry [] = (if carry \<noteq> 0 then [ucast carry] else [])"
| "mul_add_loop factor carry (l # ls) =
     (let product = ucast l * ucast factor + carry :: 64 word
      in ucast product # mul_add_loop factor (drop_bit 32 product) ls)"

definition MulAdd :: "limbs \<Rightarrow> 32 word \<Rightarrow> 32 word \<Rightarrow> limbs" where
  "MulAdd ls factor addend = mul_add_loop factor (ucast addend) ls"

fun MulPow10 :: "limbs \<Rightarrow> nat \<Rightarrow> limbs" where
  "MulPow10 ls count =
     (if count \<ge> 9 then MulPow10 (MulAdd ls 1000000000 0) (count - 9)
      else if count > 0 then MulAdd ls (10 ^ count) 0 else ls)"

fun MulPow5 :: "limbs \<Rightarrow> nat \<Rightarrow> limbs" where
  "MulPow5 ls count =
     (if count \<ge> 13 then MulPow5 (MulAdd ls 1220703125 0) (count - 13)
      else (let factor = 5 ^ count :: 32 word in if factor \<noteq> 1 then MulAdd ls factor 0 else ls))"

declare MulPow10.simps [simp del] MulPow5.simps [simp del]

fun shl_loop :: "nat \<Rightarrow> 32 word \<Rightarrow> limbs \<Rightarrow> limbs" where
  "shl_loop rest carry [] = (if carry \<noteq> 0 then [carry] else [])"
| "shl_loop rest carry (l # ls) = (push_bit rest l OR carry) # shl_loop rest (drop_bit (32 - rest) l) ls"

definition ShiftLeft :: "limbs \<Rightarrow> nat \<Rightarrow> limbs" where
  "ShiftLeft ls bits =
     (if IsZero ls \<or> bits = 0 then ls
      else (let words = bits div 32; rest = bits mod 32
            in replicate words 0 @ (if rest \<noteq> 0 then shl_loop rest 0 ls else ls)))"

text \<open>The loops that run from the most significant limb down work on the reversed list.\<close>

fun shr_loop :: "32 word \<Rightarrow> limbs \<Rightarrow> limbs" where
  "shr_loop carry [] = []"
| "shr_loop carry (l # ls) = (drop_bit 1 l OR push_bit 31 carry) # shr_loop (l AND 1) ls"

definition ShiftRightOne :: "limbs \<Rightarrow> limbs" where
  "ShiftRightOne ls = Trim (rev (shr_loop 0 (rev ls)))"

function top_bits :: "32 word \<Rightarrow> nat" where
  "top_bits w = (if w \<noteq> 0 then Suc (top_bits (drop_bit 1 w)) else 0)"
  by pat_completeness auto
termination
proof (relation "measure unat", simp)
  fix w :: "32 word" assume "w \<noteq> 0"
  then have "0 < unat w" by (simp add: unat_gt_0)
  then show "(drop_bit 1 w, w) \<in> measure unat" by (simp add: unat_drop del: drop_bit_eq_div)
qed

declare top_bits.simps [simp del]

definition BitLength :: "limbs \<Rightarrow> nat" where
  "BitLength ls = (if IsZero ls then 0 else (length ls - 1) * 32 + top_bits (last ls))"

fun cmp_loop :: "limbs \<Rightarrow> limbs \<Rightarrow> int" where
  "cmp_loop (a # as) (b # bs) = (if a \<noteq> b then (if a < b then -1 else 1) else cmp_loop as bs)"
| "cmp_loop _ _ = 0"

definition Compare :: "limbs \<Rightarrow> limbs \<Rightarrow> int" where
  "Compare a b = (if length a \<noteq> length b then (if length a < length b then -1 else 1) else cmp_loop (rev a) (rev b))"

fun sub_loop :: "int \<Rightarrow> limbs \<Rightarrow> limbs \<Rightarrow> limbs" where
  "sub_loop borrow [] other = []"
| "sub_loop borrow (l # ls) other =
     (let v = uint l - borrow - (case other of [] \<Rightarrow> 0 | o1 # _ \<Rightarrow> uint o1);
          v1 = (if v < 0 then v + 2 ^ 32 else v)
      in word_of_int v1 # sub_loop (if v < 0 then 1 else 0) ls (tl other))"

definition Subtract :: "limbs \<Rightarrow> limbs \<Rightarrow> limbs" where
  "Subtract ls other = Trim (sub_loop 0 ls other)"

fun div_loop :: "32 word \<Rightarrow> 64 word \<Rightarrow> limbs \<Rightarrow> limbs \<times> 64 word" where
  "div_loop divisor rem [] = ([], rem)"
| "div_loop divisor rem (l # ls) =
     (let current = push_bit 32 rem OR ucast l;
          (qs, r) = div_loop divisor (current mod ucast divisor) ls
      in (ucast (current div ucast divisor) # qs, r))"

definition DivSmall :: "limbs \<Rightarrow> 32 word \<Rightarrow> limbs \<times> 32 word" where
  "DivSmall ls divisor = (case div_loop divisor 0 (rev ls) of (qs, r) \<Rightarrow> (Trim (rev qs), ucast r))"

section \<open>Values\<close>

fun big :: "limbs \<Rightarrow> nat" where
  "big [] = 0"
| "big (l # ls) = unat l + 2 ^ 32 * big ls"

definition normal :: "limbs \<Rightarrow> bool" where
  "normal ls \<longleftrightarrow> ls = [] \<or> last ls \<noteq> 0"

named_theorems big_values \<open>the value an operation computes\<close>

lemma big_append [simp]: "big (xs @ ys) = big xs + 2 ^ (32 * length xs) * big ys"
  by (induction xs) (simp_all add: algebra_simps power_add)

lemma big_replicate_0 [simp]: "big (replicate n 0) = 0"
  by (induction n) simp_all

lemma big_less: "big ls < 2 ^ (32 * length ls)"
proof (induction ls)
  case (Cons l ls)
  have "unat l < 2 ^ 32" using unat_bound [of l] by simp
  moreover have "2 ^ 32 * big ls + 2 ^ 32 \<le> 2 ^ 32 * 2 ^ (32 * length ls)"
    using Cons by (metis Suc_leI mult_Suc_right add.commute mult_le_mono2)
  ultimately show ?case by (simp add: power_add)
qed simp

lemma normal_Nil [simp]: "normal []"
  by (simp add: normal_def)

lemma normal_Cons: "normal (l # ls) \<longleftrightarrow> (ls = [] \<and> l \<noteq> 0) \<or> (ls \<noteq> [] \<and> normal ls)"
  by (auto simp: normal_def)

lemma normal_ge: "normal ls \<Longrightarrow> ls \<noteq> [] \<Longrightarrow> 2 ^ (32 * (length ls - 1)) \<le> big ls"
proof (induction ls)
  case (Cons l ls)
  show ?case
  proof (cases "ls = []")
    case True
    with Cons.prems show ?thesis by (simp add: normal_def Suc_le_eq unat_gt_0)
  next
    case False
    with Cons have "2 ^ (32 * (length ls - 1)) \<le> big ls" by (simp add: normal_Cons)
    then have "2 ^ 32 * 2 ^ (32 * (length ls - 1)) \<le> 2 ^ 32 * big ls" by simp
    moreover have "2 ^ 32 * 2 ^ (32 * (length ls - 1)) = (2 :: nat) ^ (32 * length ls)"
      using False unfolding power_add [symmetric] by (cases ls) simp_all
    ultimately show ?thesis by simp
  qed
qed simp

lemma big_eq_0_iff: "normal ls \<Longrightarrow> big ls = 0 \<longleftrightarrow> IsZero ls"
proof -
  assume "normal ls"
  then have "ls \<noteq> [] \<Longrightarrow> 0 < big ls" using normal_ge [of ls] by (metis less_le_trans zero_less_numeral zero_less_power)
  then show ?thesis by (cases "ls = []") (simp_all add: IsZero_def)
qed

lemma normal_Trim [simp]: "normal (Trim ls)"
proof -
  have "Trim_rev xs = [] \<or> hd (Trim_rev xs) \<noteq> 0" for xs by (induction xs) auto
  then show ?thesis by (auto simp: Trim_def normal_def last_rev)
qed

lemma big_Trim [simp, big_values]: "big (Trim ls) = big ls"
proof -
  have "big (rev (Trim_rev xs)) = big (rev xs)" for xs by (induction xs) auto
  then show ?thesis by (simp add: Trim_def)
qed

lemma length_Trim: "length (Trim ls) \<le> length ls"
proof -
  have "length (Trim_rev xs) \<le> length xs" for xs by (induction xs) auto
  then show ?thesis by (metis Trim_def length_rev)
qed

lemma big_limbs_of [big_values]: "big (limbs_of v) = unat v"
proof (induction v rule: limbs_of.induct)
  case (1 v)
  then show ?case by (subst limbs_of.simps) (simp add: unat_drop unat_ucast32 del: drop_bit_eq_div)
qed

lemma normal_limbs_of [simp]: "normal (limbs_of v)"
proof (induction v rule: limbs_of.induct)
  case (1 v)
  moreover have "limbs_of (drop_bit 32 v) = [] \<longleftrightarrow> drop_bit 32 v = 0" by (subst limbs_of.simps) simp
  ultimately show ?case by (subst limbs_of.simps) (auto simp: normal_Cons simp del: drop_bit_eq_div dest: ucast32_eq_0)
qed

text \<open>The product of two limbs plus a carry fits 64 bits.\<close>

lemma product_fits:
  assumes "c < 2 ^ 32"
  shows "unat (ucast (l :: 32 word) * ucast (f :: 32 word) + c :: 64 word) = unat l * unat f + unat c"
    and "drop_bit 32 (ucast l * ucast f + c) < (2 ^ 32 :: 64 word)"
proof -
  have c: "unat c < 4294967296" using assms by (simp add: word_less_nat_alt)
  have "unat l * unat f \<le> 4294967295 * 4294967295"
    using unat_bound32 [of l] unat_bound32 [of f] by (intro mult_mono) simp_all
  then have fits: "unat l * unat f + unat c < 18446744073709551616" using c by simp
  have m: "unat (ucast l * ucast f :: 64 word) = unat l * unat f"
    using fits by (simp add: unat_word_ariths unsigned_ucast_eq take_bit_nat_eq_self unat_bound32 [THEN less_trans])
  show p: "unat (ucast l * ucast f + c :: 64 word) = unat l * unat f + unat c"
    using fits m by (simp add: unat_word_ariths)
  have "unat (drop_bit 32 (ucast l * ucast f + c :: 64 word)) < 2 ^ 32"
    unfolding unat_drop p using fits by simp
  then show "drop_bit 32 (ucast l * ucast f + c) < (2 ^ 32 :: 64 word)" by (simp add: word_less_nat_alt)
qed

lemma big_mul_add_loop:
  assumes "c < 2 ^ 32" shows "big (mul_add_loop f c ls) = big ls * unat f + unat c"
  using assms
proof (induction ls arbitrary: c)
  case Nil
  then have "unat c < 2 ^ 32" by (simp add: word_less_nat_alt)
  then show ?case by (simp add: unat_ucast32)
next
  case (Cons l ls)
  let ?p = "ucast l * ucast f + c :: 64 word"
  have "big (mul_add_loop f (drop_bit 32 ?p) ls) = big ls * unat f + unat ?p div 2 ^ 32"
    using Cons.IH [OF product_fits(2) [OF Cons.prems]] by (simp add: unat_drop del: drop_bit_eq_div)
  then show ?case
    using product_fits(1) [OF Cons.prems, of l f] by (simp add: Let_def unat_ucast32 algebra_simps del: drop_bit_eq_div)
qed

lemma normal_mul_add_loop:
  assumes "c < 2 ^ 32" and "f \<noteq> 0" and "normal ls" shows "normal (mul_add_loop f c ls)"
  using assms(1,3)
proof (induction ls arbitrary: c)
  case Nil
  then have "drop_bit 32 c = 0" by (simp add: word_less_nat_alt unat_drop word_unat_eq_iff del: drop_bit_eq_div)
  then show ?case by (auto simp: normal_Cons dest: ucast32_eq_0)
next
  case (Cons l ls)
  let ?p = "ucast l * ucast f + c :: 64 word"
  have ih: "normal ls \<Longrightarrow> normal (mul_add_loop f (drop_bit 32 ?p) ls)" by (rule Cons.IH [OF product_fits(2) [OF Cons.prems(1)]])
  show ?case
  proof (cases "ls = []")
    case True
    with Cons.prems(2) have "l \<noteq> 0" by (simp add: normal_def)
    then have "0 < unat l * unat f" using assms(2) by (simp add: unat_gt_0)
    then have "?p \<noteq> 0" using product_fits(1) [OF Cons.prems(1), of l f] by (metis add_is_0 less_irrefl unsigned_0)
    then have "drop_bit 32 ?p = 0 \<Longrightarrow> ucast ?p \<noteq> (0 :: 32 word)" by (blast dest: ucast32_eq_0)
    with ih True show ?thesis by (auto simp: Let_def normal_Cons simp del: drop_bit_eq_div)
  next
    case False
    with ih Cons.prems(2) show ?thesis by (cases ls) (auto simp: Let_def normal_Cons simp del: drop_bit_eq_div)
  qed
qed

lemma carry_fits: "(ucast (a :: 32 word) :: 64 word) < 2 ^ 32"
  using unat_bound [of a] by (simp add: word_less_nat_alt unat_ucast64)

lemma big_MulAdd [big_values]: "big (MulAdd ls f a) = big ls * unat f + unat a"
  by (simp add: MulAdd_def big_mul_add_loop [OF carry_fits] unat_ucast64)

lemma normal_MulAdd [simp]: "f \<noteq> 0 \<Longrightarrow> normal ls \<Longrightarrow> normal (MulAdd ls f a)"
  unfolding MulAdd_def by (rule normal_mul_add_loop [OF carry_fits])

lemma unat_pow10: "n \<le> 9 \<Longrightarrow> unat (10 ^ n :: 32 word) = 10 ^ n"
proof -
  assume "n \<le> 9"
  then have "(10 :: nat) ^ n \<le> 10 ^ 9" by (intro power_increasing) simp_all
  then show ?thesis using unat_of_nat32 [of "10 ^ n"] by simp
qed

lemma unat_pow5: "n \<le> 13 \<Longrightarrow> unat (5 ^ n :: 32 word) = 5 ^ n"
proof -
  assume "n \<le> 13"
  then have "(5 :: nat) ^ n \<le> 5 ^ 13" by (intro power_increasing) simp_all
  then show ?thesis using unat_of_nat32 [of "5 ^ n"] by simp
qed

lemma power_nonzero32: "0 < unat w \<Longrightarrow> w \<noteq> (0 :: 32 word)"
  by auto

lemma big_MulPow10 [big_values]: "big (MulPow10 ls n) = big ls * 10 ^ n"
proof (induction ls n rule: MulPow10.induct)
  case (1 ls n)
  show ?case
  proof (cases "n \<ge> 9")
    case True
    then have "(10 :: nat) ^ n = 10 ^ 9 * 10 ^ (n - 9)" unfolding power_add [symmetric] by simp
    with True 1 show ?thesis by (subst MulPow10.simps) (simp add: big_values)
  next
    case False
    then show ?thesis by (subst MulPow10.simps) (simp add: big_values unat_pow10)
  qed
qed

lemma normal_MulPow10 [simp]: "normal ls \<Longrightarrow> normal (MulPow10 ls n)"
proof (induction ls n rule: MulPow10.induct)
  case (1 ls n)
  show ?case
  proof (cases "n \<ge> 9")
    case False
    then have "(10 ^ n :: 32 word) \<noteq> 0" by (intro power_nonzero32) (simp add: unat_pow10)
    with False 1 show ?thesis by (subst MulPow10.simps) simp
  qed (use 1 in \<open>subst MulPow10.simps, simp\<close>)
qed

lemma big_MulPow5 [big_values]: "big (MulPow5 ls n) = big ls * 5 ^ n"
proof (induction ls n rule: MulPow5.induct)
  case (1 ls n)
  show ?case
  proof (cases "n \<ge> 13")
    case True
    then have "(5 :: nat) ^ n = 5 ^ 13 * 5 ^ (n - 13)" unfolding power_add [symmetric] by simp
    with True 1 show ?thesis by (subst MulPow5.simps) (simp add: big_values)
  next
    case False
    then have "unat (5 ^ n :: 32 word) = 5 ^ n" by (simp add: unat_pow5)
    moreover from this have "(5 ^ n :: 32 word) = 1 \<Longrightarrow> (5 :: nat) ^ n = 1" by (metis unsigned_1)
    ultimately show ?thesis using False by (subst MulPow5.simps) (auto simp: big_values Let_def)
  qed
qed

lemma normal_MulPow5 [simp]: "normal ls \<Longrightarrow> normal (MulPow5 ls n)"
proof (induction ls n rule: MulPow5.induct)
  case (1 ls n)
  show ?case
  proof (cases "n \<ge> 13")
    case False
    then have "(5 ^ n :: 32 word) \<noteq> 0" by (intro power_nonzero32) (simp add: unat_pow5)
    with False 1 show ?thesis by (subst MulPow5.simps) (simp add: Let_def)
  qed (use 1 in \<open>subst MulPow5.simps, simp\<close>)
qed

subsection \<open>Shifts\<close>

lemma shl_limb:
  assumes "0 < r" and "r < 32" and "unat c < 2 ^ r"
  shows "unat (push_bit r l OR c) + 2 ^ 32 * unat (drop_bit (32 - r) l) = unat l * 2 ^ r + unat (c :: 32 word)"
proof -
  have "push_bit r l AND c = 0"
  proof (rule bit_word_eqI)
    fix n assume "n < LENGTH(32)"
    have "\<not> bit c n" if "r \<le> n"
    proof -
      have "unat c div 2 ^ n = 0" using assms(3) that by (metis div_less less_le_trans power_increasing one_le_numeral)
      then have "\<not> bit (unat c) n" by (simp add: bit_iff_odd)
      then show ?thesis by (simp add: bit_unsigned_iff)
    qed
    then show "bit (push_bit r l AND c) n \<longleftrightarrow> bit (0 :: 32 word) n" by (auto simp: bit_and_iff bit_push_bit_iff)
  qed
  then have or: "push_bit r l OR c = push_bit r l + c" by (simp add: disjunctive_add_eq_or)
  have pw: "(2 :: nat) ^ 32 = 2 ^ (32 - r) * 2 ^ r" using assms(2) by (simp add: power_add [symmetric])
  have "unat (push_bit r l) = (unat l * 2 ^ r) mod (2 ^ (32 - r) * 2 ^ r)" unfolding unat_push pw [symmetric] by simp
  then have push: "unat (push_bit r l) = (unat l mod 2 ^ (32 - r)) * 2 ^ r" by (simp only: mod_mult_mult2)
  have "unat l mod 2 ^ (32 - r) + 1 \<le> 2 ^ (32 - r)" by (simp add: Suc_leI)
  then have "(unat l mod 2 ^ (32 - r) + 1) * 2 ^ r \<le> 2 ^ (32 - r) * 2 ^ r" by (intro mult_right_mono) simp_all
  then have fits: "unat (push_bit r l) + unat c < 2 ^ 32" using push assms(3) pw by (simp add: algebra_simps)
  then have "unat (push_bit r l OR c) = unat (push_bit r l) + unat c" unfolding or by (simp add: unat_word_ariths)
  moreover have "2 ^ 32 * unat (drop_bit (32 - r) l) = (unat l div 2 ^ (32 - r) * 2 ^ (32 - r)) * 2 ^ r"
    using pw by (simp add: unat_drop del: drop_bit_eq_div)
  moreover have "unat l * 2 ^ r = unat l div 2 ^ (32 - r) * 2 ^ (32 - r) * 2 ^ r + unat l mod 2 ^ (32 - r) * 2 ^ r"
    by (simp only: add_mult_distrib [symmetric] div_mult_mod_eq)
  ultimately show ?thesis unfolding push by linarith
qed

lemma drop_carry: "r < 32 \<Longrightarrow> 0 < r \<Longrightarrow> unat (drop_bit (32 - r) (l :: 32 word)) < 2 ^ r"
proof -
  assume r: "r < 32" "0 < r"
  have "unat l < 2 ^ r * 2 ^ (32 - r)" using unat_bound [of l] r by (simp add: power_add [symmetric])
  then show ?thesis unfolding unat_drop by (simp add: less_mult_imp_div_less)
qed

lemma big_shl_loop:
  assumes "0 < r" and "r < 32" and "unat c < 2 ^ r"
  shows "big (shl_loop r c ls) = big ls * 2 ^ r + unat c"
  using assms(3)
proof (induction ls arbitrary: c)
  case (Cons l ls)
  have "big (shl_loop r (drop_bit (32 - r) l) ls) = big ls * 2 ^ r + unat (drop_bit (32 - r) l)"
    by (rule Cons.IH [OF drop_carry [OF assms(2,1)]])
  then show ?case using shl_limb [OF assms(1,2) Cons.prems, of l] by (simp add: algebra_simps del: drop_bit_eq_div)
qed simp

lemma normal_shl_loop:
  assumes "0 < r" and "r < 32" and "normal ls" and "unat c < 2 ^ r"
  shows "normal (shl_loop r c ls)"
  using assms(3,4)
proof (induction ls arbitrary: c)
  case (Cons l ls)
  let ?d = "drop_bit (32 - r) l"
  have ih: "normal ls \<Longrightarrow> normal (shl_loop r ?d ls)" by (rule Cons.IH [OF _ drop_carry [OF assms(2,1)]])
  show ?case
  proof (cases "ls = []")
    case True
    with Cons.prems(1) have "0 < unat l" by (simp add: normal_def unat_gt_0)
    then have "0 < unat (push_bit r l OR c) + 2 ^ 32 * unat ?d"
      unfolding shl_limb [OF assms(1,2) Cons.prems(2)] by simp
    then have "?d = 0 \<Longrightarrow> push_bit r l OR c \<noteq> 0" by (metis add_0 less_irrefl mult_zero_right unsigned_0)
    with True show ?thesis by (auto simp: normal_Cons simp del: drop_bit_eq_div)
  next
    case False
    with ih Cons.prems(1) show ?thesis by (cases ls) (auto simp: normal_Cons simp del: drop_bit_eq_div)
  qed
qed (simp add: normal_Cons)

lemma big_ShiftLeft [big_values]: "big (ShiftLeft ls n) = big ls * 2 ^ n"
proof -
  have "(2 :: nat) ^ n = 2 ^ (n mod 32) * 2 ^ (32 * (n div 32))" unfolding power_add [symmetric] by simp
  moreover have "0 < n mod 32 \<Longrightarrow> big (shl_loop (n mod 32) 0 ls) = big ls * 2 ^ (n mod 32)"
    using big_shl_loop [of "n mod 32" 0 ls] by simp
  ultimately show ?thesis by (simp add: ShiftLeft_def IsZero_def Let_def algebra_simps)
qed

lemma normal_ShiftLeft [simp]: "normal ls \<Longrightarrow> normal (ShiftLeft ls n)"
proof -
  assume n: "normal ls"
  have app: "normal (replicate k 0 @ xs)" if "normal xs" "xs \<noteq> []" for k xs using that by (simp add: normal_def)
  have "ls \<noteq> [] \<Longrightarrow> shl_loop r c ls \<noteq> []" for r c by (cases ls) simp_all
  with n app show ?thesis by (auto simp: ShiftLeft_def IsZero_def Let_def intro!: app normal_shl_loop)
qed

text \<open>Loops from the most significant limb down: the value of the limbs read so far.\<close>

definition bigr :: "nat \<Rightarrow> limbs \<Rightarrow> nat" where
  "bigr v ls = foldl (\<lambda>v l. v * 2 ^ 32 + unat l) v ls"

lemma bigr_simps [simp]: "bigr v [] = v" "bigr v (l # ls) = bigr (v * 2 ^ 32 + unat l) ls"
  by (simp_all add: bigr_def)

lemma bigr_split: "bigr v ls = v * 2 ^ (32 * length ls) + bigr 0 ls"
proof (induction ls arbitrary: v)
  case (Cons l ls)
  show ?case using Cons.IH [of "v * 2 ^ 32 + unat l"] Cons.IH [of "unat l"]
    by (simp add: power_add algebra_simps)
qed simp

lemma big_rev: "big (rev ls) = bigr 0 ls"
proof (induction ls)
  case (Cons l ls)
  then show ?case using bigr_split [of "unat l" ls] by simp
qed simp

lemma shr_limb:
  assumes "c = 0 \<or> c = 1"
  shows "unat (drop_bit 1 l OR push_bit 31 c) = unat l div 2 + 2 ^ 31 * unat (c :: 32 word)"
  using assms
proof
  assume c: "c = 1"
  have "drop_bit 1 l AND push_bit 31 c = 0"
    by (rule bit_word_eqI) (auto simp: bit_and_iff bit_push_bit_iff bit_drop_bit_eq c bit_1_iff simp del: drop_bit_eq_div push_bit_of_1 dest: bit_imp_le_length)
  then have "drop_bit 1 l OR push_bit 31 c = drop_bit 1 l + push_bit 31 c" by (simp add: disjunctive_add_eq_or)
  moreover have "unat l div 2 + 2 ^ 31 < 2 ^ 32" using unat_bound32 [of l] by simp
  moreover have "unat (push_bit 31 c) = 2 ^ 31" by (simp add: c unat_push)
  ultimately show ?thesis by (simp add: c unat_word_ariths unat_drop del: drop_bit_eq_div)
next
  assume "c = 0"
  then have "drop_bit 1 l OR push_bit 31 c = drop_bit 1 l" by simp
  with \<open>c = 0\<close> show ?thesis using unat_drop [of 1 l] by simp
qed

lemma and_1_cases: "(l :: 32 word) AND 1 = 0 \<or> l AND 1 = 1"
  by (simp add: and_one_eq mod_2_eq_odd)

lemma unat_and_1: "unat ((l :: 32 word) AND 1) = unat l mod 2"
  by (simp only: unsigned_and_eq unsigned_1) (simp only: and_one_eq)

lemma bigr_shr_loop:
  assumes "c = 0 \<or> c = 1" shows "bigr 0 (shr_loop c ls) = (unat c * 2 ^ (32 * length ls) + bigr 0 ls) div 2"
  using assms
proof (induction ls arbitrary: c)
  case (Cons l ls)
  let ?n = "2 ^ (32 * length ls) :: nat"
  have "bigr 0 (shr_loop c (l # ls)) = unat (drop_bit 1 l OR push_bit 31 c) * 2 ^ (32 * length (shr_loop (l AND 1) ls))
      + bigr 0 (shr_loop (l AND 1) ls)"
    using bigr_split [of "unat (drop_bit 1 l OR push_bit 31 c)"] by (simp del: drop_bit_eq_div)
  moreover have "length (shr_loop x ls) = length ls" for x by (induction ls arbitrary: x) simp_all
  moreover have "bigr 0 (shr_loop (l AND 1) ls) = (unat l mod 2 * ?n + bigr 0 ls) div 2"
    using Cons.IH [OF and_1_cases [of l]] by (simp only: unat_and_1)
  moreover have "bigr 0 (l # ls) = unat l * ?n + bigr 0 ls" using bigr_split [of "unat l" ls] by simp
  ultimately have "bigr 0 (shr_loop c (l # ls)) = (unat l div 2 + 2 ^ 31 * unat c) * ?n + (unat l mod 2 * ?n + bigr 0 ls) div 2"
    using shr_limb [OF Cons.prems, of l] by simp
  also have "\<dots> = (2 * ((unat l div 2 + 2 ^ 31 * unat c) * ?n) + (unat l mod 2 * ?n + bigr 0 ls)) div 2" by simp
  also have "2 * ((unat l div 2 + 2 ^ 31 * unat c) * ?n) + (unat l mod 2 * ?n + bigr 0 ls)
      = unat c * 2 ^ (32 * length (l # ls)) + bigr 0 (l # ls)"
  proof -
    have "2 * (unat l div 2) * ?n + unat l mod 2 * ?n = unat l * ?n" by (simp only: add_mult_distrib [symmetric] mult_div_mod_eq)
    then show ?thesis using bigr_split [of "unat l" ls] by (simp add: power_add algebra_simps)
  qed
  finally show ?case .
qed (use assms in \<open>auto simp: div_eq_0_iff\<close>)

lemma big_ShiftRightOne [big_values]: "big (ShiftRightOne ls) = big ls div 2"
  using bigr_shr_loop [of 0 "rev ls"] big_rev [of "rev ls"] by (simp add: ShiftRightOne_def big_rev)

lemma normal_ShiftRightOne [simp]: "normal (ShiftRightOne ls)"
  by (simp add: ShiftRightOne_def)

subsection \<open>Bit length and comparison\<close>

lemma top_bits_bounds: "unat w < 2 ^ top_bits w" "w \<noteq> 0 \<Longrightarrow> 2 ^ (top_bits w - 1) \<le> unat w"
proof -
  have "unat w < 2 ^ top_bits w \<and> (w \<noteq> 0 \<longrightarrow> 2 ^ (top_bits w - 1) \<le> unat w)"
  proof (induction w rule: top_bits.induct)
    case (1 w)
    show ?case
    proof (cases "w = 0")
      case False
      have half: "unat (drop_bit 1 w) = unat w div 2" using unat_drop [of 1 w] by simp
      from 1 False have ih: "unat w div 2 < 2 ^ top_bits (drop_bit 1 w)"
        "drop_bit 1 w \<noteq> 0 \<longrightarrow> 2 ^ (top_bits (drop_bit 1 w) - 1) \<le> unat w div 2" unfolding half [symmetric] by blast+
      have "2 ^ top_bits (drop_bit 1 w) \<le> unat w"
      proof (cases "drop_bit 1 w = 0")
        case True
        then show ?thesis using False by (subst top_bits.simps) (simp add: Suc_le_eq unat_gt_0)
      next
        case d: False
        then have "0 < top_bits (drop_bit 1 w)" by (subst top_bits.simps) simp
        then have "(2 :: nat) ^ top_bits (drop_bit 1 w) = 2 * 2 ^ (top_bits (drop_bit 1 w) - 1)"
          by (simp add: power_eq_if)
        with d ih show ?thesis by linarith
      qed
      with False ih show ?thesis by (subst (1 2) top_bits.simps) auto
    qed (subst (1 2) top_bits.simps, simp)
  qed
  then show "unat w < 2 ^ top_bits w" "w \<noteq> 0 \<Longrightarrow> 2 ^ (top_bits w - 1) \<le> unat w" by blast+
qed

lemma big_last: "ls \<noteq> [] \<Longrightarrow> big ls = big (butlast ls) + 2 ^ (32 * (length ls - 1)) * unat (last ls)"
  using big_append [of "butlast ls" "[last ls]"] by simp

lemma BitLength_bounds:
  assumes "normal ls"
  shows "big ls < 2 ^ BitLength ls" "0 < big ls \<Longrightarrow> 2 ^ (BitLength ls - 1) \<le> big ls \<and> 0 < BitLength ls"
proof -
  have "big ls < 2 ^ BitLength ls \<and> (0 < big ls \<longrightarrow> 2 ^ (BitLength ls - 1) \<le> big ls \<and> 0 < BitLength ls)"
  proof (cases "ls = []")
    case False
    let ?t = "last ls" and ?n = "32 * (length ls - 1)"
    have t: "?t \<noteq> 0" using assms False by (simp add: normal_def)
    then have pos: "0 < top_bits ?t" by (subst top_bits.simps) simp
    have lo: "big (butlast ls) < 2 ^ ?n" using big_less [of "butlast ls"] by simp
    have len: "BitLength ls = ?n + top_bits ?t" using False by (simp add: BitLength_def IsZero_def)
    have "big ls < 2 ^ ?n * (unat ?t + 1)" using lo big_last [OF False] by simp
    also have "\<dots> \<le> 2 ^ ?n * 2 ^ top_bits ?t" using top_bits_bounds(1) [of ?t] by (intro mult_le_mono2) simp
    also have "\<dots> = 2 ^ BitLength ls" by (simp only: len power_add)
    finally have up: "big ls < 2 ^ BitLength ls" .
    have "BitLength ls - 1 = ?n + (top_bits ?t - 1)" using len pos by simp
    then have "2 ^ (BitLength ls - 1) = 2 ^ ?n * (2 :: nat) ^ (top_bits ?t - 1)" by (simp only: power_add)
    also have "\<dots> \<le> 2 ^ ?n * unat ?t" using top_bits_bounds(2) [OF t] by (intro mult_le_mono2)
    also have "\<dots> \<le> big ls" using big_last [OF False] by simp
    finally show ?thesis using up pos len by simp
  qed (simp add: BitLength_def IsZero_def)
  then show "big ls < 2 ^ BitLength ls" "0 < big ls \<Longrightarrow> 2 ^ (BitLength ls - 1) \<le> big ls \<and> 0 < BitLength ls" by blast+
qed

definition sign_of :: "nat \<Rightarrow> nat \<Rightarrow> int" where
  "sign_of x y = (if x < y then -1 else if x = y then 0 else 1)"

lemma cmp_loop_sign: "length as = length bs \<Longrightarrow> cmp_loop as bs = sign_of (bigr 0 as) (bigr 0 bs)"
proof (induction as bs rule: cmp_loop.induct)
  case (1 a as b bs)
  let ?n = "2 ^ (32 * length as) :: nat"
  have lt: "bigr 0 xs < 2 ^ (32 * length xs)" for xs using big_less [of "rev xs"] by (simp add: big_rev)
  have v: "bigr 0 (a # as) = unat a * ?n + bigr 0 as" "bigr 0 (b # bs) = unat b * ?n + bigr 0 bs"
    using 1(2) bigr_split [of "unat a" as] bigr_split [of "unat b" bs] by simp_all
  have less: "x * ?n + r < y * ?n + s" if "x < y" "r < ?n" for x y r s :: nat
  proof -
    have "x * ?n + r < (x + 1) * ?n" using that by simp
    also have "\<dots> \<le> y * ?n" using that by (intro mult_right_mono) simp_all
    finally show ?thesis by simp
  qed
  consider "unat a < unat b" | "unat a = unat b" | "unat a > unat b" by linarith
  then show ?case
  proof cases
    case 1
    with less [OF 1 lt [of as]] v show ?thesis by (auto simp: sign_of_def word_less_nat_alt)
  next
    case 2
    then have "a = b" by (simp only: word_unat_eq_iff)
    with "1.IH" 1(2) v show ?thesis by (simp add: sign_of_def)
  next
    case 3
    then have "bigr 0 (b # bs) < bigr 0 (a # as)" unfolding v using less [OF 3, of "bigr 0 bs"] lt [of bs] 1(2) by simp
    with 3 show ?thesis by (auto simp: sign_of_def word_less_nat_alt simp del: bigr_simps)
  qed
qed (auto simp: sign_of_def)

lemma Compare_sign [big_values]:
  assumes "normal a" and "normal b" shows "Compare a b = sign_of (big a) (big b)"
proof -
  have shorter: "big x < big y" if "length x < length y" "normal y" for x y
  proof -
    have "big x < 2 ^ (32 * length x)" by (rule big_less)
    also have "\<dots> \<le> 2 ^ (32 * (length y - 1))" using that(1) by (intro power_increasing) auto
    also have "\<dots> \<le> big y" using that by (intro normal_ge) auto
    finally show ?thesis .
  qed
  consider "length a < length b" | "length a = length b" | "length b < length a" by linarith
  then show ?thesis
  proof cases
    case 2
    then show ?thesis using cmp_loop_sign [of "rev a" "rev b"] big_rev [of "rev a"] big_rev [of "rev b"] by (simp add: Compare_def)
  qed (use shorter [OF _ assms(2), of a] shorter [OF _ assms(1), of b] in \<open>auto simp: Compare_def sign_of_def\<close>)
qed

subsection \<open>Subtraction and division\<close>

lemma big_sub_loop:
  assumes "length other \<le> length ls" and "b0 = 0 \<or> b0 = 1"
  shows "\<exists>b. (b = 0 \<or> b = 1) \<and>
    int (big (sub_loop b0 ls other)) = int (big ls) - b0 - int (big other) + b * 2 ^ (32 * length ls)"
  using assms
proof (induction ls arbitrary: b0 other)
  case (Cons l ls)
  define o1 where "o1 = (case other of [] \<Rightarrow> 0 | o1 # _ \<Rightarrow> uint o1)"
  define v where "v = uint l - b0 - o1"
  define b1 :: int where "b1 = (if v < 0 then 1 else 0)"
  have o1: "0 \<le> o1" "o1 < 2 ^ 32" "int (big other) = o1 + 2 ^ 32 * int (big (tl other))"
    using uint_bounded [of "hd other"] by (cases other; simp add: o1_def)+
  have l: "0 \<le> uint l" "uint l < 2 ^ 32" using uint_bounded [of l] by simp_all
  have w: "int (unat (word_of_int (if v < 0 then v + 2 ^ 32 else v) :: 32 word)) = v + b1 * 2 ^ 32"
  proof -
    have "0 \<le> v + b1 * 2 ^ 32" "v + b1 * 2 ^ 32 < 2 ^ 32"
      using l o1(1,2) Cons.prems(2) v_def by (cases "v < 0"; simp only: b1_def if_True if_False; linarith)+
    moreover have "(if v < 0 then v + 2 ^ 32 else v) = v + b1 * 2 ^ 32" by (simp add: b1_def)
    ultimately show ?thesis using unat_word_of_int32 [of "v + b1 * 2 ^ 32"] by presburger
  qed
  obtain b where b: "b = 0 \<or> b = 1"
    "int (big (sub_loop b1 ls (tl other))) = int (big ls) - b1 - int (big (tl other)) + b * 2 ^ (32 * length ls)"
    using Cons.IH [of "tl other" b1] Cons.prems(1) by (force simp: b1_def)
  have step: "sub_loop b0 (l # ls) other = word_of_int (if v < 0 then v + 2 ^ 32 else v) # sub_loop b1 ls (tl other)"
    by (simp only: sub_loop.simps Let_def v_def o1_def b1_def)
  have "int (big (sub_loop b0 (l # ls) other)) = (v + b1 * 2 ^ 32) + 2 ^ 32 * int (big (sub_loop b1 ls (tl other)))"
    unfolding step big.simps of_nat_add w by simp
  also have "\<dots> = int (big (l # ls)) - b0 - int (big other) + b * 2 ^ (32 * length (l # ls))"
    unfolding b(2) o1(3) by (simp add: v_def power_add algebra_simps)
  finally show ?case using b(1) by blast
qed auto

lemma big_Subtract [big_values]:
  assumes "normal ls" and "normal other" and "big other \<le> big ls"
  shows "big (Subtract ls other) = big ls - big other"
proof -
  have len: "length other \<le> length ls"
  proof (rule ccontr)
    assume longer: "\<not> length other \<le> length ls"
    then have "2 ^ (32 * length ls) \<le> (2 :: nat) ^ (32 * (length other - 1))" by (intro power_increasing) auto
    also have "\<dots> \<le> big other" using assms(2) longer by (intro normal_ge) auto
    finally show False using big_less [of ls] assms(3) by simp
  qed
  obtain b where b: "b = 0 \<or> b = 1"
    "int (big (sub_loop 0 ls other)) = int (big ls) - 0 - int (big other) + b * 2 ^ (32 * length ls)"
    using big_sub_loop [OF len, of 0] by blast
  have l: "length (sub_loop x ls y) = length ls" for x y by (induction ls arbitrary: x y) (simp_all add: Let_def)
  have "big (sub_loop 0 ls other) < 2 ^ (32 * length ls)" using big_less [of "sub_loop 0 ls other"] by (simp add: l)
  then have "int (big (sub_loop 0 ls other)) < 2 ^ (32 * length ls)" by (metis of_nat_less_iff of_nat_numeral of_nat_power)
  with b assms(3) have "b = 0" by auto
  with b(2) assms(3) show ?thesis by (simp add: Subtract_def)
qed

lemma normal_Subtract [simp]: "normal (Subtract ls other)"
  by (simp add: Subtract_def)

lemma div_limb:
  fixes l :: "32 word"
  assumes "d \<noteq> (0 :: 32 word)" and "unat (r :: 64 word) < unat d"
  defines "cur \<equiv> push_bit 32 r OR ucast l"
  shows "unat cur = unat r * 2 ^ 32 + unat l" and "unat (cur div ucast d) = (unat r * 2 ^ 32 + unat l) div unat d"
    and "unat (cur mod ucast d) = (unat r * 2 ^ 32 + unat l) mod unat d"
    and "unat (ucast (cur div ucast d) :: 32 word) = (unat r * 2 ^ 32 + unat l) div unat d"
proof -
  have r: "unat r < 2 ^ 32" using assms(2) unat_bound [of d] by simp
  have "push_bit 32 r AND ucast l = 0"
    by (rule bit_word_eqI) (auto simp: bit_and_iff bit_push_bit_iff bit_ucast_iff dest: bit_imp_le_length)
  then have "cur = push_bit 32 r + ucast l" by (simp add: cur_def disjunctive_add_eq_or)
  moreover have push: "unat (push_bit 32 r) = unat r * 2 ^ 32" using r by (simp add: unat_push)
  moreover have "unat r * 2 ^ 32 + unat l < 2 ^ 64" using r unat_bound32 [of l] by simp
  ultimately show cur: "unat cur = unat r * 2 ^ 32 + unat l" by (simp add: unat_word_ariths unat_ucast64)
  show div: "unat (cur div ucast d) = (unat r * 2 ^ 32 + unat l) div unat d"
    by (simp only: unat_div_distrib cur unat_ucast64)
  show "unat (cur mod ucast d) = (unat r * 2 ^ 32 + unat l) mod unat d"
    by (simp only: unat_mod_distrib cur unat_ucast64)
  have "(unat r * 2 ^ 32 + unat l) < unat d * 2 ^ 32"
  proof -
    have "unat r * 2 ^ 32 + unat l < (unat r + 1) * 2 ^ 32" using unat_bound32 [of l] by simp
    also have "\<dots> \<le> unat d * 2 ^ 32" using assms(2) by (intro mult_right_mono) simp_all
    finally show ?thesis .
  qed
  then have "(unat r * 2 ^ 32 + unat l) div unat d < 2 ^ 32" by (simp add: less_mult_imp_div_less mult.commute)
  then show "unat (ucast (cur div ucast d) :: 32 word) = (unat r * 2 ^ 32 + unat l) div unat d"
    unfolding unat_ucast32 div by simp
qed

lemma bigr_div_loop:
  assumes "d \<noteq> 0" and "unat r < unat d"
  shows "bigr 0 (fst (div_loop d r ls)) = (unat r * 2 ^ (32 * length ls) + bigr 0 ls) div unat d \<and>
    unat (snd (div_loop d r ls)) = (unat r * 2 ^ (32 * length ls) + bigr 0 ls) mod unat d \<and>
    length (fst (div_loop d r ls)) = length ls"
  using assms(2)
proof (induction ls arbitrary: r)
  case (Cons l ls)
  let ?cur = "push_bit 32 r OR ucast l" and ?d = "unat d" and ?n = "2 ^ (32 * length ls) :: nat"
  let ?x = "unat r * 2 ^ 32 + unat l"
  note dl = div_limb [OF assms(1) Cons.prems, of l]
  have "?x mod ?d < ?d" using assms(1) by (simp add: unat_gt_0)
  then have ih: "bigr 0 (fst (div_loop d (?cur mod ucast d) ls)) = (?x mod ?d * ?n + bigr 0 ls) div ?d"
    "unat (snd (div_loop d (?cur mod ucast d) ls)) = (?x mod ?d * ?n + bigr 0 ls) mod ?d"
    "length (fst (div_loop d (?cur mod ucast d) ls)) = length ls"
    using Cons.IH [of "?cur mod ucast d"] unfolding dl(3) by blast+
  have total: "unat r * 2 ^ (32 * length (l # ls)) + bigr 0 (l # ls) = ?d * (?x div ?d * ?n) + (?x mod ?d * ?n + bigr 0 ls)"
  proof -
    have "?d * (?x div ?d * ?n) + ?x mod ?d * ?n = ?x * ?n"
      by (simp only: mult.assoc [symmetric] add_mult_distrib [symmetric] mult_div_mod_eq)
    then show ?thesis using bigr_split [of "unat l" ls] by (simp add: power_add algebra_simps)
  qed
  have eq: "div_loop d r (l # ls) = (ucast (?cur div ucast d) # fst (div_loop d (?cur mod ucast d) ls), snd (div_loop d (?cur mod ucast d) ls))"
    by (simp add: Let_def split_beta)
  have "bigr 0 (fst (div_loop d r (l # ls))) = ?x div ?d * ?n + (?x mod ?d * ?n + bigr 0 ls) div ?d"
    unfolding eq using bigr_split [of "?x div ?d"] ih(1,3) dl(4) by simp
  also have "\<dots> = (unat r * 2 ^ (32 * length (l # ls)) + bigr 0 (l # ls)) div ?d"
    unfolding total using assms(1) by (simp add: unat_gt_0)
  finally have q: "bigr 0 (fst (div_loop d r (l # ls))) = (unat r * 2 ^ (32 * length (l # ls)) + bigr 0 (l # ls)) div ?d" .
  have "unat (snd (div_loop d r (l # ls))) = (unat r * 2 ^ (32 * length (l # ls)) + bigr 0 (l # ls)) mod ?d"
    unfolding eq total by (simp add: ih(2))
  with q ih(3) show ?case unfolding eq by simp
qed simp

lemma DivSmall_value:
  assumes "d \<noteq> 0"
  shows "big (fst (DivSmall ls d)) = big ls div unat d" "unat (snd (DivSmall ls d)) = big ls mod unat d" "normal (fst (DivSmall ls d))"
proof -
  have d: "0 < unat d" using assms by (simp add: unat_gt_0)
  note dl = bigr_div_loop [OF assms, of 0 "rev ls"] 
  have r: "unat (snd (div_loop d 0 (rev ls))) = big ls mod unat d" using dl d big_rev [of "rev ls"] by simp
  show "big (fst (DivSmall ls d)) = big ls div unat d"
    using dl d big_rev [of "rev ls"] by (simp add: DivSmall_def split_beta big_rev)
  have "big ls mod unat d < 2 ^ 32" using unat_bound [of d] mod_less_divisor [OF d, of "big ls"] by simp
  then show "unat (snd (DivSmall ls d)) = big ls mod unat d" using r by (simp add: DivSmall_def split_beta unat_ucast32)
  show "normal (fst (DivSmall ls d))" by (simp add: DivSmall_def split_beta)
qed

lemma length_DivSmall: "length (fst (DivSmall ls d)) \<le> length ls"
proof -
  have "length (fst (div_loop d r xs)) = length xs" for r xs by (induction xs arbitrary: r) (simp_all add: Let_def split_beta)
  then show ?thesis using length_Trim [of "rev (fst (div_loop d 0 (rev ls)))"] by (simp add: DivSmall_def split_beta)
qed

section \<open>Decimal text\<close>

text \<open>\<^verbatim>\<open>ToDecimal\<close>: chunks of nine digits, least significant first.\<close>

function chunks_of :: "limbs \<Rightarrow> 32 word list" where
  "chunks_of ls = (if IsZero ls then [] else snd (DivSmall ls 1000000000) # chunks_of (fst (DivSmall ls 1000000000)))"
  by pat_completeness auto
termination
proof (relation "measure (\<lambda>ls. big ls + length ls)", simp)
  fix ls :: limbs assume ls: "\<not> IsZero ls"
  let ?q = "fst (DivSmall ls 1000000000)"
  have q: "big ?q = big ls div 1000000000" "normal ?q" "length ?q \<le> length ls"
    using DivSmall_value [of 1000000000 ls] length_DivSmall by simp_all
  have "big ?q + length ?q < big ls + length ls"
  proof (cases "big ls = 0")
    case True
    with q big_eq_0_iff [OF q(2)] have "?q = []" by (simp add: IsZero_def)
    with ls show ?thesis using True by (simp add: IsZero_def)
  next
    case False
    then have "big ?q < big ls" using q(1) by simp
    with q(3) show ?thesis by simp
  qed
  then show "(?q, ls) \<in> measure (\<lambda>ls. big ls + length ls)" by simp
qed

declare chunks_of.simps [simp del]

definition pad9 :: "32 word \<Rightarrow> string" where
  "pad9 w = (let part = dec_nat (unat w) in replicate (9 - length part) (CHR ''0'') @ part)"

definition ToDecimal :: "limbs \<Rightarrow> string" where
  "ToDecimal ls =
     (if IsZero ls then ''0''
      else (let chunks = chunks_of ls in dec_nat (unat (last chunks)) @ concat (map pad9 (rev (butlast chunks)))))"

text \<open>\<^verbatim>\<open>FromDecimal\<close>: a short head chunk, then chunks of nine digits.\<close>

definition chunk_value :: "string \<Rightarrow> 32 word" where
  "chunk_value digits = foldl (\<lambda>v c. v * 10 + (of_char c - 48)) 0 digits"

fun from_chunks :: "limbs \<Rightarrow> string \<Rightarrow> limbs" where
  "from_chunks ls [] = ls"
| "from_chunks ls (c # cs) =
     (let digits = take 9 (c # cs) in from_chunks (MulAdd ls (10 ^ length digits) (chunk_value digits)) (drop 9 (c # cs)))"

definition FromDecimal :: "string \<Rightarrow> limbs" where
  "FromDecimal digits =
     (let head = length digits mod 9;
          first = (if head \<noteq> 0 then MulAdd [] (10 ^ head) (chunk_value (take head digits)) else [])
      in from_chunks first (drop head digits))"

section \<open>Decimal text of a value\<close>

definition dec_digits :: "string \<Rightarrow> bool" where
  "dec_digits str \<longleftrightarrow> list_all (\<lambda>c. 48 \<le> (of_char c :: nat) \<and> of_char c \<le> (57 :: nat)) str"

lemma digits_value_append: "digits_value (xs @ ys) = digits_value xs * 10 ^ length ys + digits_value ys"
proof (induction ys rule: rev_induct)
  case (snoc y ys)
  then show ?case using digits_value_snoc [of "xs @ ys" y] by (simp add: digits_value_snoc algebra_simps)
qed (simp add: digits_value_def)

lemma digits_value_less: "dec_digits ds \<Longrightarrow> digits_value ds < 10 ^ length ds"
proof (induction ds rule: rev_induct)
  case (snoc d ds)
  then have "digits_value ds + 1 \<le> 10 ^ length ds" "of_char d - 48 < (10 :: nat)" by (auto simp: dec_digits_def)
  then show ?case by (simp add: digits_value_snoc)
qed (simp add: digits_value_def)

lemma chunk_value_digits: "dec_digits ds \<Longrightarrow> chunk_value ds = of_nat (digits_value ds)"
proof (induction ds rule: rev_induct)
  case (snoc d ds)
  then have "48 \<le> (of_char d :: nat)" by (simp add: dec_digits_def)
  moreover have "(of_char d :: 32 word) = of_nat (of_char d)" by (simp only: of_nat_of_char)
  ultimately have "(of_char d :: 32 word) - 48 = of_nat (of_char d - 48)" by (simp add: of_nat_diff)
  with snoc show ?case by (simp add: chunk_value_def digits_value_def dec_digits_def algebra_simps)
qed (simp add: chunk_value_def digits_value_def)

lemma dec_digits_parts: "dec_digits ds \<Longrightarrow> dec_digits (take n ds)" "dec_digits ds \<Longrightarrow> dec_digits (drop n ds)"
  by (auto simp: dec_digits_def list_all_iff dest: in_set_takeD in_set_dropD)

lemma MulAdd_chunk:
  assumes "dec_digits ds" and "length ds \<le> 9"
  shows "big (MulAdd ls (10 ^ length ds) (chunk_value ds)) = big ls * 10 ^ length ds + digits_value ds"
    and "normal ls \<Longrightarrow> normal (MulAdd ls (10 ^ length ds) (chunk_value ds))"
proof -
  have "(10 :: nat) ^ length ds \<le> 10 ^ 9" using assms(2) by (intro power_increasing) simp_all
  with digits_value_less [OF assms(1)] have "unat (chunk_value ds) = digits_value ds"
    by (simp add: chunk_value_digits [OF assms(1)] unat_of_nat32)
  then show "big (MulAdd ls (10 ^ length ds) (chunk_value ds)) = big ls * 10 ^ length ds + digits_value ds"
    using assms(2) by (simp add: big_values unat_pow10)
  have "(10 ^ length ds :: 32 word) \<noteq> 0" using assms(2) by (intro power_nonzero32) (simp add: unat_pow10)
  then show "normal ls \<Longrightarrow> normal (MulAdd ls (10 ^ length ds) (chunk_value ds))" by simp
qed

lemma from_chunks_value:
  "dec_digits ds \<Longrightarrow> big (from_chunks ls ds) = big ls * 10 ^ length ds + digits_value ds \<and> (normal ls \<longrightarrow> normal (from_chunks ls ds))"
proof (induction ls ds rule: from_chunks.induct)
  case (2 ls c cs)
  let ?t = "take 9 (c # cs)" and ?d = "drop 9 (c # cs)"
  have t: "dec_digits ?t" "dec_digits ?d" using 2(2) by (rule dec_digits_parts)+
  have "length ?t \<le> 9" by simp
  note m = MulAdd_chunk [OF t(1) this, of ls]
  have ih: "big (from_chunks ls (c # cs)) = big (MulAdd ls (10 ^ length ?t) (chunk_value ?t)) * 10 ^ length ?d + digits_value ?d"
    "normal ls \<Longrightarrow> normal (from_chunks ls (c # cs))"
    using 2(1) [OF refl t(2)] m(2) by (auto simp: Let_def)
  have "length (c # cs) = length ?t + length ?d" by simp
  then have "(10 :: nat) ^ length (c # cs) = 10 ^ length ?t * 10 ^ length ?d" by (simp only: power_add)
  moreover have "digits_value (c # cs) = digits_value ?t * 10 ^ length ?d + digits_value ?d"
    using digits_value_append [of ?t ?d] by (simp only: append_take_drop_id)
  ultimately show ?case using ih unfolding m(1) by (simp only: add_mult_distrib mult.assoc add.assoc) blast
qed (simp add: digits_value_def)

lemma FromDecimal_value:
  assumes "dec_digits ds"
  shows "big (FromDecimal ds) = digits_value ds" and "normal (FromDecimal ds)"
proof -
  let ?h = "length ds mod 9"
  let ?first = "if ?h \<noteq> 0 then MulAdd [] (10 ^ ?h) (chunk_value (take ?h ds)) else []"
  have len: "length (take ?h ds) = ?h" by simp
  have "?h \<le> 9" by (meson less_imp_le mod_less_divisor zero_less_numeral)
  then have f: "big ?first = digits_value (take ?h ds)" "normal ?first"
    using MulAdd_chunk [OF dec_digits_parts(1) [OF assms, of ?h], of "[]"] by (auto simp: digits_value_def)
  have fd: "FromDecimal ds = from_chunks ?first (drop ?h ds)" by (simp add: FromDecimal_def Let_def)
  show "big (FromDecimal ds) = digits_value ds" "normal (FromDecimal ds)"
    using from_chunks_value [OF dec_digits_parts(2) [OF assms, of ?h], of ?first] f
      digits_value_append [of "take ?h ds" "drop ?h ds"] unfolding fd append_take_drop_id by auto
qed

text \<open>Padded decimal text.\<close>

fun padded :: "nat \<Rightarrow> nat \<Rightarrow> string" where
  "padded 0 r = []"
| "padded (Suc k) r = padded k (r div 10) @ [digit_char (r mod 10)]"

lemma digit_char_0: "digit_char 0 = CHR ''0''"
  by code_simp

lemma padded_0: "padded k 0 = replicate k (CHR ''0'')"
  by (induction k) (simp_all add: digit_char_0 replicate_append_same)

lemma dec_nat_padded: "r < 10 ^ k \<Longrightarrow> 0 < k \<Longrightarrow> replicate (k - length (dec_nat r)) (CHR ''0'') @ dec_nat r = padded k r \<and> length (dec_nat r) \<le> k"
proof (induction k arbitrary: r)
  case (Suc k)
  show ?case
  proof (cases "r < 10")
    case True
    then show ?thesis by (simp add: dec_nat.simps [of r] padded_0 replicate_append_same)
  next
    case False
    then have "0 < k" using Suc.prems(1) by (cases k) auto
    moreover have "r div 10 < 10 ^ k" using Suc.prems(1) by (simp add: less_mult_imp_div_less)
    ultimately have ih: "replicate (k - length (dec_nat (r div 10))) (CHR ''0'') @ dec_nat (r div 10) = padded k (r div 10)"
      "length (dec_nat (r div 10)) \<le> k" using Suc.IH by blast+
    show ?thesis using False ih by (simp add: dec_nat.simps [of r])
  qed
qed simp

lemma dec_nat_shift: "0 < q \<Longrightarrow> r < 10 ^ k \<Longrightarrow> dec_nat (q * 10 ^ k + r) = dec_nat q @ padded k r"
proof (induction k arbitrary: r)
  case (Suc k)
  have "q * 10 ^ Suc k + r = r + 10 * (q * 10 ^ k)" by simp
  then have "(q * 10 ^ Suc k + r) div 10 = q * 10 ^ k + r div 10" "(q * 10 ^ Suc k + r) mod 10 = r mod 10"
    by (simp_all only: mod_mult_self2 div_mult_self2 zero_neq_numeral [symmetric] not_False_eq_True)
  moreover have "1 * 10 ^ 1 \<le> q * (10 :: nat) ^ Suc k" using Suc.prems(1) by (intro mult_mono power_increasing) simp_all
  then have "10 \<le> q * 10 ^ Suc k + r" by (simp only: power_one_right mult_1 trans_le_add1)
  moreover have "r div 10 < 10 ^ k" using Suc.prems(2) by (simp add: less_mult_imp_div_less)
  ultimately show ?case using Suc by (subst dec_nat.simps) simp
qed simp

lemma chunks_of_text:
  assumes "normal ls" and "\<not> IsZero ls"
  shows "chunks_of ls \<noteq> [] \<and> dec_nat (unat (last (chunks_of ls))) @ concat (map pad9 (rev (butlast (chunks_of ls)))) = dec_nat (big ls)"
  using assms
proof (induction ls rule: chunks_of.induct)
  case (1 ls)
  let ?q = "fst (DivSmall ls 1000000000)" and ?r = "snd (DivSmall ls 1000000000)"
  have d: "big ?q = big ls div 10 ^ 9" "unat ?r = big ls mod 10 ^ 9" "normal ?q"
    using DivSmall_value [of 1000000000 ls] by simp_all
  have c: "chunks_of ls = ?r # chunks_of ?q" using 1(3) by (subst chunks_of.simps) simp
  show ?case
  proof (cases "IsZero ?q")
    case True
    then have "chunks_of ?q = []" by (subst chunks_of.simps) simp
    moreover have "big ls div 10 ^ 9 = 0" using True d(1,3) big_eq_0_iff by metis
    ultimately show ?thesis using c d(2) by (simp add: div_eq_0_iff)
  next
    case False
    from 1(1) [OF 1(3) d(3) False] have ih: "chunks_of ?q \<noteq> []"
      "dec_nat (unat (last (chunks_of ?q))) @ concat (map pad9 (rev (butlast (chunks_of ?q)))) = dec_nat (big ?q)" by blast+
    have "0 < big ?q" using False big_eq_0_iff [OF d(3)] by simp
    moreover have "pad9 ?r = padded 9 (unat ?r)"
      using dec_nat_padded [of "unat ?r" 9] d(2) by (simp add: pad9_def Let_def)
    moreover have "unat ?r < 10 ^ 9" unfolding d(2) by (rule mod_less_divisor) simp
    ultimately have "dec_nat (big ?q * 10 ^ 9 + unat ?r) = dec_nat (big ?q) @ pad9 ?r"
      by (simp only: dec_nat_shift)
    then have "dec_nat (big ls) = dec_nat (big ?q) @ pad9 ?r" unfolding d(1,2) by (simp only: div_mult_mod_eq)
    with ih c show ?thesis by simp
  qed
qed

lemma ToDecimal_value: "normal ls \<Longrightarrow> ToDecimal ls = dec_nat (big ls)"
  using chunks_of_text [of ls] big_eq_0_iff [of ls]
  by (cases "IsZero ls") (auto simp: ToDecimal_def Let_def dec_nat.simps [of 0] digit_char_0)

section \<open>The big integer is exact\<close>

text \<open>C24. On normal limbs every operation of the big integer computes the exact natural number, with
  no carry, borrow or 64-bit product lost, and returns normal limbs again: multiply-add, powers of ten
  and five, shifts, comparison, subtraction and division by a limb.\<close>

theorem big_uint_exact:
  assumes "normal a" and "normal b" and "f \<noteq> 0"
  shows "big (MulAdd a f c) = big a * unat f + unat c \<and> normal (MulAdd a f c) \<and>
    big (MulPow10 a n) = big a * 10 ^ n \<and> normal (MulPow10 a n) \<and> big (MulPow5 a n) = big a * 5 ^ n \<and> normal (MulPow5 a n) \<and>
    big (ShiftLeft a n) = big a * 2 ^ n \<and> normal (ShiftLeft a n) \<and>
    big (ShiftRightOne a) = big a div 2 \<and> normal (ShiftRightOne a) \<and>
    Compare a b = sign_of (big a) (big b) \<and> (big b \<le> big a \<longrightarrow> big (Subtract a b) = big a - big b) \<and> normal (Subtract a b) \<and>
    big (fst (DivSmall a f)) = big a div unat f \<and> unat (snd (DivSmall a f)) = big a mod unat f \<and> normal (fst (DivSmall a f))"
  using assms by (simp add: big_values DivSmall_value)

theorem big_uint_exact_witness:
  "Compare [1, 2] [3] = sign_of (big [1, 2]) (big [3]) \<and> big (Subtract [1, 2] [3]) = big [1, 2] - big [3] \<and>
   big (fst (DivSmall [1, 2] 7)) = big [1, 2] div 7"
  using big_uint_exact [of "[1, 2]" "[3]" 7 0 0] by (simp add: normal_def)

text \<open>The text of the limbs read from digits is the canonical decimal text of the number the digits denote.\<close>

lemma big_uint_decimal_round_trip:
  assumes "dec_digits ds"
  shows "ToDecimal (FromDecimal ds) = dec_nat (digits_value ds)"
  using ToDecimal_value [OF FromDecimal_value(2) [OF assms]] FromDecimal_value(1) [OF assms] by simp

end
