(* ===== verification/PyFloat.thy ===== *)
theory PyFloat
  imports Double BigUInt
begin

text \<open>
  The conversion from decimal to double of \<^verbatim>\<open>src/diff/PyValue.cpp\<close> on top of the big integer: the
  scaled long division, the rounding of its quotient, the truncation to 800 digits and the early exits,
  proved correctly rounded.
\<close>

unbundle bit_operations_syntax

section \<open>Floats\<close>

text \<open>A \<^verbatim>\<open>double\<close> with its sign bit: a finite one by its magnitude. The sign of a NaN is never observed.\<close>

datatype flt = Finite bool rat | Infinity bool | NotANumber

definition flt_value :: "bool \<Rightarrow> rat \<Rightarrow> rat" where
  "flt_value neg m = (if neg then - m else m)"

text \<open>IEEE \<^verbatim>\<open>==\<close>\<close>

fun flt_eq :: "flt \<Rightarrow> flt \<Rightarrow> bool" where
  "flt_eq (Finite n m) (Finite n' m') \<longleftrightarrow> flt_value n m = flt_value n' m'"
| "flt_eq (Infinity n) (Infinity n') \<longleftrightarrow> n = n'"
| "flt_eq _ _ \<longleftrightarrow> False"

text \<open>The double nearest to a non-negative rational, with overflow to infinity.\<close>

definition nearest :: "bool \<Rightarrow> rat \<Rightarrow> flt" where
  "nearest neg x = (if pow2 1024 \<le> fl x then Infinity neg else Finite neg (fl x))"

section \<open>\<open>DecimalToDouble\<close>\<close>

definition kMaxAbsExp :: int where "kMaxAbsExp = 1100000000"

definition kMaxSignificantDigits :: nat where "kMaxSignificantDigits = 800"

fun clz_loop :: "nat \<Rightarrow> 64 word \<Rightarrow> nat" where
  "clz_loop 0 v = 0"
| "clz_loop (Suc b) v = (if bit v b then 0 else Suc (clz_loop b v))"

definition CountLeadingZeros64 :: "64 word \<Rightarrow> nat" where
  "CountLeadingZeros64 v = clz_loop 64 v"

primrec quotient_loop :: "nat \<Rightarrow> limbs \<Rightarrow> limbs \<Rightarrow> 64 word \<Rightarrow> limbs \<times> 64 word" where
  "quotient_loop 0 num step q = (num, q)"
| "quotient_loop (Suc b) num step q =
     (if Compare num step \<ge> 0
      then quotient_loop b (Subtract num step) (ShiftRightOne step) (q OR push_bit b 1)
      else quotient_loop b num (ShiftRightOne step) q)"

text \<open>\<^verbatim>\<open>std::ldexp\<close> of an integer\<close>

definition ldexp_flt :: "bool \<Rightarrow> nat \<Rightarrow> int \<Rightarrow> flt" where
  "ldexp_flt neg m e = nearest neg (of_nat m * pow2 e)"

text \<open>Rounding the scaled quotient.\<close>

definition round_quotient :: "64 word \<Rightarrow> bool \<Rightarrow> int \<Rightarrow> nat" where
  "round_quotient q sticky shift =
     (if shift < 64
      then (let kept = drop_bit (nat shift) q; dropped = q AND (push_bit (nat shift) 1 - 1); half = push_bit (nat shift - 1) 1;
                up = dropped > half \<or> (dropped = half \<and> (sticky \<or> kept AND 1 \<noteq> 0))
            in unat (if up then kept + 1 else kept))
      else if shift = 64
      then (let half = push_bit 63 1; up = q > half \<or> (q = half \<and> sticky) in if up then 1 else 0)
      else 0)"

definition decimal_core :: "bool \<Rightarrow> string \<Rightarrow> int \<Rightarrow> flt" where
  "decimal_core neg digits exp10 =
     (let num0 = FromDecimal digits; den0 = limbs_of 1;
          num1 = (if exp10 \<ge> 0 then MulPow10 num0 (nat exp10) else num0);
          den1 = (if exp10 \<ge> 0 then den0 else MulPow10 den0 (nat (- exp10)));
          k = 63 - (int (BitLength num1) - int (BitLength den1));
          num = (if k > 0 then ShiftLeft num1 (nat k) else num1);
          den = (if k < 0 then ShiftLeft den1 (nat (- k)) else den1);
          (rest, q) = quotient_loop 64 num (ShiftLeft den 63) 0;
          sticky = (\<not> IsZero rest);
          bits = 64 - int (CountLeadingZeros64 q);
          exp2 = bits - 1 - k
      in if exp2 > 1023 then Infinity neg
         else (let keep = (if exp2 \<ge> - 1022 then 53 else exp2 + 1075); shift = bits - keep
               in ldexp_flt neg (round_quotient q sticky shift) (shift - k)))"

definition DecimalToDouble :: "bool \<Rightarrow> string \<Rightarrow> int \<Rightarrow> flt" where
  "DecimalToDouble neg digits exp10 =
     (let d1 = dropWhile (\<lambda>c. c = CHR ''0'') digits
      in if d1 = [] then Finite neg 0
         else
           (let zeros = length (takeWhile (\<lambda>c. c = CHR ''0'') (rev d1));
                e2 = exp10 + int zeros; d2 = take (length d1 - zeros) d1;
                long = length d2 > kMaxSignificantDigits;
                e3 = (if long then e2 + int (length d2 - kMaxSignificantDigits - 1) else e2);
                d3 = (if long then take kMaxSignificantDigits d2 @ ''1'' else d2);
                magnitude = int (length d3) + e3
            in if magnitude > 310 then Infinity neg
               else if magnitude \<le> - 324 then Finite neg 0
               else decimal_core neg d3 e3))"

section \<open>The quotient\<close>

lemma unat_push_1: "b < LENGTH('a) \<Longrightarrow> unat (push_bit b (1 :: 'a::len word)) = 2 ^ b"
proof -
  assume "b < LENGTH('a)"
  then have "(2 :: nat) ^ b < 2 ^ LENGTH('a)" by (intro power_strict_increasing) simp_all
  then show ?thesis unfolding unat_push by simp
qed

lemma unat_set_bit:
  assumes "2 ^ Suc b dvd unat (q :: 64 word)" and "b < 64"
  shows "unat (q OR push_bit b 1) = unat q + 2 ^ b"
proof -
  obtain k where k: "unat q = 2 ^ b * (2 * k)" using assms(1) by (auto simp: dvd_def)
  have "unat q div 2 ^ b = 2 * k" unfolding k by simp
  then have "\<not> bit (unat q) b" by (simp add: bit_iff_odd)
  then have nb: "\<not> bit q b" using assms(2) by (simp add: bit_unsigned_iff)
  have "q AND push_bit b 1 = 0"
    by (rule bit_word_eqI) (use nb in \<open>auto simp: bit_and_iff bit_push_bit_iff bit_1_iff simp del: push_bit_of_1\<close>)
  then have "q OR push_bit b 1 = q + push_bit b 1" by (simp add: disjunctive_add_eq_or)
  moreover have p: "unat (push_bit b (1 :: 64 word)) = 2 ^ b" using assms(2) by (simp add: unat_push_1 del: push_bit_of_1)
  moreover have "unat q + 2 ^ b < 2 ^ 64"
  proof -
    have e: "(2 :: nat) ^ 64 = 2 ^ b * 2 ^ (64 - b)" using assms(2) by (simp add: power_add [symmetric])
    have "2 ^ b * (2 * k) < 2 ^ b * 2 ^ (64 - b)" using unat_bound [of q] unfolding k e [symmetric] by simp
    then have "2 * k < 2 ^ (64 - b)" by simp
    moreover have "even ((2 :: nat) ^ (64 - b))" using assms(2) by simp
    ultimately have "2 * k + 1 < 2 ^ (64 - b)" by (metis Suc_eq_plus1 Suc_lessI dvd_triv_left even_Suc)
    then have "(2 :: nat) ^ b * (2 * k + 1) < 2 ^ b * 2 ^ (64 - b)" by (rule mult_strict_left_mono) simp
    then show ?thesis unfolding k e by (simp only: add_mult_distrib2 mult_1_right)
  qed
  ultimately show ?thesis by (simp add: unat_word_ariths)
qed

lemma half_step: "0 < b \<Longrightarrow> den * 2 ^ b div 2 = den * (2 :: nat) ^ (b - 1)"
  by (cases b) simp_all

lemma quotient_loop_value:
  assumes "normal num" and "normal step" and "b \<le> 64" and "0 < den" and "0 < b \<Longrightarrow> big step = den * 2 ^ (b - 1)"
    and "big num < den * 2 ^ b" and "2 ^ b dvd unat q"
  shows "big (fst (quotient_loop b num step q)) = big num mod den \<and> normal (fst (quotient_loop b num step q)) \<and>
    unat (snd (quotient_loop b num step q)) = unat q + big num div den"
  using assms
proof (induction b arbitrary: num step q)
  case (Suc b)
  have step: "big step = den * 2 ^ b" using Suc.prems(5) by simp
  have half: "normal (ShiftRightOne step)" "0 < b \<Longrightarrow> big (ShiftRightOne step) = den * 2 ^ (b - 1)"
    using half_step [of b den] by (simp_all add: big_values step)
  have cmp: "Compare num step \<ge> 0 \<longleftrightarrow> den * 2 ^ b \<le> big num"
    using Suc.prems(1,2) step by (auto simp: big_values sign_of_def)
  have b: "b < 64" "b \<le> 64" using Suc.prems(3) by simp_all
  have dvd: "2 ^ b dvd unat q" using Suc.prems(7) by (metis dvd_mult_left power_Suc2)
  show ?case
  proof (cases "den * 2 ^ b \<le> big num")
    case True
    let ?q = "q OR push_bit b 1"
    have sub: "big (Subtract num step) = big num - den * 2 ^ b" using Suc.prems(1,2) True step by (simp add: big_values)
    have or: "unat ?q = unat q + 2 ^ b" by (rule unat_set_bit [OF Suc.prems(7) b(1)])
    have less: "big (Subtract num step) < den * 2 ^ b" using Suc.prems(6) unfolding sub by simp
    have "2 ^ b dvd unat ?q" using dvd unfolding or by simp
    from Suc.IH [OF normal_Subtract half(1) b(2) Suc.prems(4) half(2) less this]
    have ih: "big (fst (quotient_loop b (Subtract num step) (ShiftRightOne step) ?q)) = (big num - den * 2 ^ b) mod den"
      "normal (fst (quotient_loop b (Subtract num step) (ShiftRightOne step) ?q))"
      "unat (snd (quotient_loop b (Subtract num step) (ShiftRightOne step) ?q)) = unat q + 2 ^ b + (big num - den * 2 ^ b) div den"
      unfolding sub or by blast+
    obtain m where m: "big num = den * 2 ^ b + m" using True le_iff_add by blast
    have "quotient_loop (Suc b) num step q = quotient_loop b (Subtract num step) (ShiftRightOne step) ?q"
      using True cmp by simp
    with ih Suc.prems(4) show ?thesis unfolding m by simp
  next
    case False
    then have "big num < den * 2 ^ b" by simp
    from Suc.IH [OF Suc.prems(1) half(1) b(2) Suc.prems(4) half(2) this dvd] False cmp show ?thesis by simp
  qed
qed simp

lemma clz_loop_bounds:
  assumes "b \<le> 64" and "unat v < 2 ^ b"
  shows "clz_loop b v \<le> b \<and> unat v < 2 ^ (b - clz_loop b v) \<and> (0 < unat v \<longrightarrow> clz_loop b v < b \<and> 2 ^ (b - clz_loop b v - 1) \<le> unat v)"
  using assms
proof (induction b)
  case (Suc b)
  have bv: "bit v b \<longleftrightarrow> 2 ^ b \<le> unat v"
  proof -
    have "unat v div 2 ^ b < 2" using Suc.prems(2) by (simp add: less_mult_imp_div_less)
    then have "odd (unat v div 2 ^ b) \<longleftrightarrow> 1 \<le> unat v div 2 ^ b" by (metis One_nat_def dvd_0_right less_2_cases_iff not_less_eq_eq odd_one le_refl zero_le)
    moreover have "1 \<le> unat v div 2 ^ b \<longleftrightarrow> 2 ^ b \<le> unat v" by (simp add: Suc_le_eq div_greater_zero_iff)
    moreover have "bit v b \<longleftrightarrow> bit (unat v) b" using Suc.prems(1) by (simp add: bit_unsigned_iff)
    ultimately show ?thesis by (simp add: bit_iff_odd)
  qed
  show ?case
  proof (cases "bit v b")
    case True
    with bv Suc.prems(2) show ?thesis by simp
  next
    case False
    then have "unat v < 2 ^ b" using bv by simp
    with Suc have "clz_loop b v \<le> b \<and> unat v < 2 ^ (b - clz_loop b v) \<and> (0 < unat v \<longrightarrow> clz_loop b v < b \<and> 2 ^ (b - clz_loop b v - 1) \<le> unat v)" by simp
    with False show ?thesis by (simp add: Suc_diff_le)
  qed
qed simp

lemma round_even_scaled:
  fixes Q S :: nat and f :: rat
  assumes "0 \<le> f" and "f < 1" and "0 < S"
  defines "k \<equiv> Q div 2 ^ S" and "d \<equiv> Q mod 2 ^ S"
  shows "round_even ((of_nat Q + f) / 2 ^ S) =
    int (if d > 2 ^ (S - 1) \<or> (d = 2 ^ (S - 1) \<and> (f \<noteq> 0 \<or> odd k)) then k + 1 else k)"
proof -
  let ?x = "(of_nat Q + f) / 2 ^ S" and ?z = "(of_nat d + f) / (2 :: rat) ^ S"
  have "of_nat Q = of_nat k * (2 :: rat) ^ S + of_nat d"
  proof -
    have "of_nat Q = (of_nat (k * 2 ^ S + d) :: rat)" unfolding k_def d_def by (simp only: div_mult_mod_eq)
    then show ?thesis by simp
  qed
  then have x: "?x = of_nat k + ?z" by (simp add: add_divide_distrib)
  have "d < 2 ^ S" by (simp add: d_def)
  then have "d + 1 \<le> 2 ^ S" by simp
  then have "of_nat (d + 1) \<le> (of_nat (2 ^ S) :: rat)" by (simp only: of_nat_le_iff)
  then have "of_nat d + 1 \<le> (2 :: rat) ^ S" by simp
  then have z: "0 \<le> ?z" "?z < 1" using assms(1,2) by (auto simp: divide_less_eq)
  have fl: "\<lfloor>?x\<rfloor> = int k" using x z by linarith
  have p: "(2 :: rat) ^ S = 2 * 2 ^ (S - 1)" using assms(3) by (cases S) simp_all
  have pw: "(2 :: rat) ^ (S - 1) = of_nat (2 ^ (S - 1))" by simp
  have half: "?z < 1 / 2 \<longleftrightarrow> of_nat d + f < of_nat (2 ^ (S - 1))" "?z > 1 / 2 \<longleftrightarrow> of_nat d + f > of_nat (2 ^ (S - 1))"
    unfolding p pw [symmetric] by (auto simp: field_simps)
  consider "d < 2 ^ (S - 1)" | "d = 2 ^ (S - 1)" | "d > 2 ^ (S - 1)" by linarith
  then show ?thesis
  proof cases
    case 1
    then have "d + 1 \<le> 2 ^ (S - 1)" by simp
    then have "of_nat (d + 1) \<le> (of_nat (2 ^ (S - 1)) :: rat)" by (simp only: of_nat_le_iff)
    then have "of_nat d + 1 \<le> (of_nat (2 ^ (S - 1)) :: rat)" by simp
    with assms(2) have "?z < 1 / 2" unfolding half by linarith
    with 1 fl x show ?thesis by (simp add: round_even_def Let_def)
  next
    case 2
    then show ?thesis using fl x half assms(1) by (cases "f = 0") (auto simp: round_even_def Let_def)
  next
    case 3
    then have "(of_nat (2 ^ (S - 1)) :: rat) < of_nat d" by (simp only: of_nat_less_iff)
    with assms(1) have "?z > 1 / 2" unfolding half by linarith
    with 3 fl x show ?thesis by (simp add: round_even_def Let_def)
  qed
qed

lemma round_quotient_value:
  fixes f :: rat
  assumes "0 < shift" and "0 \<le> f" and "f < 1" and "sticky \<longleftrightarrow> f \<noteq> 0"
  shows "int (round_quotient q sticky shift) = round_even ((of_nat (unat q) + f) / 2 ^ nat shift)"
proof -
  define S where "S = nat shift"
  have S: "0 < S" "int S = shift" using assms(1) by (simp_all add: S_def)
  let ?Q = "unat q" let ?k = "?Q div 2 ^ S" and ?d = "?Q mod 2 ^ S"
  have Q: "?Q < 2 ^ 64" using unat_bound [of q] by simp
  let ?up = "?d > 2 ^ (S - 1) \<or> (?d = 2 ^ (S - 1) \<and> (f \<noteq> 0 \<or> odd ?k))"
  have R: "round_even ((of_nat ?Q + f) / 2 ^ S) = int (if ?up then ?k + 1 else ?k)"
    by (rule round_even_scaled [OF assms(2,3) S(1)])
  consider "S < 64" | "S = 64" | "64 < S" by linarith
  then have "round_quotient q sticky shift = (if ?up then ?k + 1 else ?k)"
  proof cases
    case 1
    let ?kept = "drop_bit S q" and ?dropped = "q AND (push_bit S 1 - 1)" and ?half = "push_bit (S - 1) 1 :: 64 word"
    have kept: "unat ?kept = ?k" by (rule unat_drop)
    have "?dropped = take_bit S q" by (simp add: take_bit_eq_mask mask_eq_exp_minus_1 push_bit_of_1)
    then have dropped: "unat ?dropped = ?d" by (simp only: unsigned_take_bit_eq) (simp only: take_bit_eq_mod)
    have half: "unat ?half = 2 ^ (S - 1)" using 1 by (intro unat_push_1) simp
    have "unat (?kept AND 1) = ?k mod 2" by (simp only: unsigned_and_eq unsigned_1 kept) (simp only: and_one_eq)
    then have "?kept AND 1 \<noteq> 0 \<longleftrightarrow> odd ?k" by (simp only: word_unat_eq_iff unsigned_0 odd_iff_mod_2_eq_one) presburger
    then have up: "(?dropped > ?half \<or> (?dropped = ?half \<and> (sticky \<or> ?kept AND 1 \<noteq> 0))) \<longleftrightarrow> ?up"
      unfolding word_less_nat_alt word_unat_eq_iff dropped half assms(4) by blast
    have "(2 :: nat) ^ 1 \<le> 2 ^ S" using S(1) by (intro power_increasing) simp_all
    then have "?k \<le> ?Q div 2" by (simp add: div_le_mono2)
    then have "unat ?kept + 1 < 2 ^ 64" using Q kept by simp
    then have "unat (?kept + 1) = ?k + 1" using kept by (simp add: unat_word_ariths)
    moreover have "shift < 64" "nat shift = S" using 1 S by simp_all
    ultimately show ?thesis unfolding round_quotient_def Let_def using up kept
      by (simp only: if_True if_P) (simp split: if_split del: drop_bit_eq_div)
  next
    case 2
    have half: "unat (push_bit 63 1 :: 64 word) = 2 ^ 63" by (rule unat_push_1) simp
    have k: "?k = 0" "?d = ?Q" using Q 2 by simp_all
    have "(q > push_bit 63 1 \<or> (q = push_bit 63 1 \<and> sticky)) \<longleftrightarrow> ?up"
      unfolding word_less_nat_alt word_unat_eq_iff half assms(4) k using 2 by auto
    then show ?thesis using 2 S k by (simp add: round_quotient_def Let_def)
  next
    case 3
    have "(2 :: nat) ^ 64 \<le> 2 ^ (S - 1)" using 3 by (intro power_increasing) simp_all
    moreover have "(2 :: nat) ^ 64 \<le> 2 ^ S" using 3 by (intro power_increasing) simp_all
    ultimately have "?k = 0" "?d = ?Q" "?Q < 2 ^ (S - 1)" using Q by simp_all
    then show ?thesis using 3 S by (auto simp: round_quotient_def)
  qed
  with R show ?thesis by (simp only: S_def)
qed

section \<open>Correct rounding\<close>

lemma exponent_unique: "pow2 e \<le> x \<Longrightarrow> x < pow2 (e + 1) \<Longrightarrow> exponent x = e"
proof -
  assume e: "pow2 e \<le> x" "x < pow2 (e + 1)"
  then have "0 < x" using pow2_pos [of e] by linarith
  from exponent_bounds [OF this] e have "pow2 (exponent x) < pow2 (e + 1)" "pow2 e < pow2 (exponent x + 1)" by linarith+
  then show ?thesis unfolding pow2_less_iff by linarith
qed

lemma pow2_nat: "0 \<le> e \<Longrightarrow> pow2 e = of_nat (2 ^ nat e)"
  by (simp add: pow2_def)

lemma pow2_int: "pow2 (int n) = of_nat (2 ^ n)"
  by (simp add: pow2_def)

lemma nearest_fl [simp]: "nearest neg (fl x) = nearest neg x"
  by (simp add: nearest_def)

lemma is_double_pow2: "- 1074 \<le> e \<Longrightarrow> is_double (pow2 e)"
  unfolding is_double_def by (intro exI [of _ 1] exI [of _ e]) simp

lemma nearest_overflow: "pow2 1024 \<le> x \<Longrightarrow> nearest neg x = Infinity neg"
  using fl_mono [of "pow2 1024" x] fl_double [OF is_double_pow2 [of 1024]] by (simp add: nearest_def)

lemma nearest_underflow:
  assumes "0 \<le> x" and "x < pow2 (- 1075)" shows "nearest neg x = Finite neg 0"
proof (cases "x = 0")
  case False
  with assms have x: "0 < x" by simp
  have "exponent x < - 1075"
    using exponent_bounds(1) [OF x] assms(2) pow2_less_iff [of "exponent x" "- 1075"] by linarith
  then have u: "ulp x = pow2 (- 1074)" by (simp add: ulp_def scale_def)
  have "pow2 (- 1074) = 2 * pow2 (- 1075)" using pow2_add [of 1 "- 1075"] by (simp add: pow2_def [of 1])
  then have "x / ulp x < 1 / 2" "0 \<le> x / ulp x" using assms x u by (simp_all add: pos_divide_less_eq)
  then have "\<lfloor>x / ulp x\<rfloor> = 0" by linarith
  with \<open>x / ulp x < 1 / 2\<close> have "fl x = 0" using x by (simp add: fl_def fl_pos_def round_even_def Let_def)
  then show ?thesis by (simp add: nearest_def not_le)
qed (simp add: nearest_def not_le)

text \<open>The scaled quotient of two positive integers, rounded.\<close>

lemma scaled_quotient_nearest:
  fixes n d :: nat
  assumes d: "0 < d" and x: "x = of_nat n / of_nat d / pow2 k" and lo: "2 ^ 62 * d \<le> n" and hi: "n < 2 ^ 64 * d"
    and q: "unat q = n div d" and sticky: "sticky \<longleftrightarrow> n mod d \<noteq> 0"
  defines "bits \<equiv> 64 - int (CountLeadingZeros64 q)"
  defines "exp2 \<equiv> bits - 1 - k"
  defines "shift \<equiv> bits - (if exp2 \<ge> - 1022 then 53 else exp2 + 1075)"
  shows "(if exp2 > 1023 then Infinity neg else ldexp_flt neg (round_quotient q sticky shift) (shift - k)) = nearest neg x"
proof -
  define z where "z = CountLeadingZeros64 q"
  define f :: rat where "f = of_nat (n mod d) / of_nat d"
  let ?Q = "n div d"
  have Q: "2 ^ 62 \<le> ?Q" using lo d by (simp add: less_eq_div_iff_mult_less_eq)
  then have "0 < unat q" using q by (metis less_le_trans zero_less_numeral zero_less_power)
  then have z: "z < 64" "?Q < 2 ^ (64 - z)" "2 ^ (64 - z - 1) \<le> ?Q"
    using clz_loop_bounds [of 64 q] unat_bound [of q] q by (auto simp: z_def CountLeadingZeros64_def)
  have "(2 :: nat) ^ 62 < 2 ^ (64 - z)" using Q z(2) by linarith
  then have "62 < 64 - z" by (simp only: power_strict_increasing_iff one_less_numeral_iff semiring_norm)
  then have bits: "63 \<le> bits" "bits = int (64 - z)" "bits - 1 = int (64 - z - 1)" using z(1) by (auto simp: bits_def z_def)
  have f: "0 \<le> f" "f < 1" "f \<noteq> 0 \<longleftrightarrow> sticky" using d sticky by (simp_all add: f_def)
  have y: "of_nat n / of_nat d = of_nat ?Q + f"
  proof -
    have "(of_nat n :: rat) = of_nat ?Q * of_nat d + of_nat (n mod d)"
      by (simp only: of_nat_mult [symmetric] of_nat_add [symmetric] div_mult_mod_eq)
    then show ?thesis using d by (simp add: f_def field_simps)
  qed
  have "?Q + 1 \<le> 2 ^ (64 - z)" using z(2) by simp
  then have "(of_nat (?Q + 1) :: rat) \<le> of_nat (2 ^ (64 - z))" by (simp only: of_nat_le_iff)
  then have "(of_nat ?Q :: rat) + 1 \<le> of_nat (2 ^ (64 - z))" by (simp only: of_nat_add of_nat_1)
  moreover have "(of_nat (2 ^ (64 - z - 1)) :: rat) \<le> of_nat ?Q" using z(3) by (simp only: of_nat_le_iff)
  moreover have "pow2 bits = of_nat (2 ^ (64 - z))" by (simp only: bits(2) pow2_int)
  moreover have "pow2 (bits - 1) = of_nat (2 ^ (64 - z - 1))" by (simp only: bits(3) pow2_int)
  ultimately have yb: "pow2 (bits - 1) \<le> of_nat ?Q + f" "of_nat ?Q + f < pow2 bits" using f(1,2) by linarith+
  then have "pow2 exp2 \<le> x" "x < pow2 (exp2 + 1)"
    unfolding x y by (simp_all add: exp2_def pos_le_divide_eq pos_divide_less_eq pow2_add [symmetric])
  then have e: "exponent x = exp2" and pos: "0 < x" using exponent_unique pow2_pos [of exp2] by (blast, linarith)
  show ?thesis
  proof (cases "exp2 > 1023")
    case True
    then have "pow2 1024 \<le> x" using \<open>pow2 exp2 \<le> x\<close> pow2_mono [of 1024 exp2] by linarith
    with True show ?thesis by (simp add: nearest_overflow)
  next
    case False
    have shift: "0 < shift" using bits(1) by (simp add: shift_def)
    have "scale x - 52 = shift - k" by (auto simp: scale_def e shift_def exp2_def)
    then have u: "ulp x = pow2 (shift - k)" by (simp only: ulp_def)
    have xq: "x = (of_nat ?Q + f) / pow2 k" unfolding x y ..
    have "pow2 shift = pow2 k * pow2 (shift - k)" by (simp add: pow2_add [symmetric])
    then have "x / ulp x = (of_nat ?Q + f) / pow2 shift" unfolding u by (simp add: xq)
    also have "pow2 shift = 2 ^ nat shift" using shift by (simp add: pow2_def)
    finally have "round_even (x / ulp x) = int (round_quotient q sticky shift)"
      using round_quotient_value [OF shift f(1,2), of sticky q] f(3) q by simp
    then have "fl x = of_nat (round_quotient q sticky shift) * pow2 (shift - k)"
      using pos u by (simp add: fl_def fl_pos_def)
    with False show ?thesis by (metis ldexp_flt_def nearest_fl)
  qed
qed

lemma bit_length_ratio:
  assumes "normal a" and "normal b" and "0 < big a" and "0 < big b"
  shows "pow2 (int (BitLength a) - int (BitLength b) - 1) \<le> of_nat (big a) / of_nat (big b)"
    and "of_nat (big a) / of_nat (big b) < pow2 (int (BitLength a) - int (BitLength b) + 1)"
proof -
  note A = BitLength_bounds [OF assms(1)] and B = BitLength_bounds [OF assms(2)]
  let ?m = "int (BitLength a)" and ?n = "int (BitLength b)"
  have p: "(of_nat (2 ^ BitLength c) :: rat) = pow2 (int (BitLength c))" for c by (simp add: pow2_def)
  have p1: "0 < BitLength c \<Longrightarrow> (of_nat (2 ^ (BitLength c - 1)) :: rat) = pow2 (int (BitLength c) - 1)" for c
    by (simp add: pow2_def nat_diff_distrib)
  have a: "pow2 (?m - 1) \<le> of_nat (big a)" "of_nat (big a) < pow2 ?m"
    unfolding p1 [OF A(2) [OF assms(3), THEN conjunct2], symmetric] p [symmetric] of_nat_le_iff of_nat_less_iff
    using A(1) A(2) [OF assms(3)] by blast+
  have b: "pow2 (?n - 1) \<le> of_nat (big b)" "of_nat (big b) < pow2 ?n"
    unfolding p1 [OF B(2) [OF assms(4), THEN conjunct2], symmetric] p [symmetric] of_nat_le_iff of_nat_less_iff
    using B(1) B(2) [OF assms(4)] by blast+
  have b0: "(0 :: rat) < of_nat (big b)" using assms(4) by simp
  have "pow2 (?m - ?n - 1) * of_nat (big b) \<le> pow2 (?m - ?n - 1) * pow2 ?n"
    using b(2) by (intro mult_left_mono) (simp_all add: less_imp_le)
  also have "\<dots> = pow2 (?m - 1)" by (simp add: pow2_add [symmetric])
  finally show "pow2 (?m - ?n - 1) \<le> of_nat (big a) / of_nat (big b)" using a(1) b0 by (simp add: pos_le_divide_eq)
  have "pow2 ?m = pow2 (?m - ?n + 1) * pow2 (?n - 1)" by (simp add: pow2_add [symmetric])
  also have "\<dots> \<le> pow2 (?m - ?n + 1) * of_nat (big b)" using b(1) by (intro mult_left_mono) (simp_all add: less_imp_le)
  finally show "of_nat (big a) / of_nat (big b) < pow2 (?m - ?n + 1)" using a(2) b0 by (simp add: pos_divide_less_eq)
qed

definition pow10 :: "int \<Rightarrow> rat" where
  "pow10 e = 10 powi e"

lemma pow10_pos [simp]: "0 < pow10 e"
  by (simp add: pow10_def)

lemma pow10_add: "pow10 (a + b) = pow10 a * pow10 b"
  by (simp add: pow10_def power_int_add)

lemma pow10_neg: "e \<le> 0 \<Longrightarrow> pow10 e = 1 / 10 ^ nat (- e)"
  by (simp add: pow10_def power_int_def power_one_over)

lemma pow10_nat: "pow10 (int n) = of_nat (10 ^ n)"
  by (simp add: pow10_def)

lemma decimal_core_nearest:
  assumes "dec_digits ds" and "0 < digits_value ds"
  shows "decimal_core neg ds e = nearest neg (of_nat (digits_value ds) * pow10 e)"
proof -
  define num1 where "num1 = (if e \<ge> 0 then MulPow10 (FromDecimal ds) (nat e) else FromDecimal ds)"
  define den1 where "den1 = (if e \<ge> 0 then limbs_of 1 else MulPow10 (limbs_of 1) (nat (- e)))"
  define k where "k = 63 - (int (BitLength num1) - int (BitLength den1))"
  define num where "num = (if k > 0 then ShiftLeft num1 (nat k) else num1)"
  define den where "den = (if k < 0 then ShiftLeft den1 (nat (- k)) else den1)"
  define res where "res = quotient_loop 64 num (ShiftLeft den 63) 0"
  define x where "x = of_nat (digits_value ds) * pow10 e"
  have norm: "normal num1" "normal den1" "normal num" "normal den"
    by (simp_all add: num1_def den1_def num_def den_def FromDecimal_value(2) [OF assms(1)])
  have v: "big num1 = digits_value ds * 10 ^ nat e" "big den1 = 10 ^ nat (- e)"
    by (simp_all add: num1_def den1_def big_values FromDecimal_value(1) [OF assms(1)])
  then have pos: "0 < big num1" "0 < big den1" using assms(2) by simp_all
  have x: "x = of_nat (big num1) / of_nat (big den1)"
    unfolding x_def v by (cases "e \<ge> 0") (simp_all add: pow10_def power_int_def field_simps)
  have n: "of_nat (big num) / of_nat (big den) = x * pow2 k"
    unfolding x num_def den_def by (cases k "0 :: int" rule: linorder_cases) (simp_all add: big_values pow2_def field_simps)
  have dpos: "0 < big den" using pos(2) by (simp add: den_def big_values)
  have xb: "pow2 (62 - k) \<le> x" "x < pow2 (64 - k)"
    using bit_length_ratio [OF norm(1,2) pos] unfolding x k_def by (simp_all add: algebra_simps)
  have "pow2 62 \<le> of_nat (big num) / of_nat (big den)" "of_nat (big num) / of_nat (big den) < pow2 64"
    unfolding n using mult_right_mono [OF xb(1), of "pow2 k"] mult_strict_right_mono [OF xb(2), of "pow2 k"]
    by (simp_all add: pow2_add [symmetric] less_imp_le)
  then have "(of_nat (2 ^ 62 * big den) :: rat) \<le> of_nat (big num)" "(of_nat (big num) :: rat) < of_nat (2 ^ 64 * big den)"
    using dpos by (simp_all add: pos_le_divide_eq pos_divide_less_eq pow2_def)
  then have b: "2 ^ 62 * big den \<le> big num" "big num < 2 ^ 64 * big den" by (simp_all only: of_nat_le_iff of_nat_less_iff)
  have q: "big (fst res) = big num mod big den" "normal (fst res)" "unat (snd res) = big num div big den"
    using quotient_loop_value [of num "ShiftLeft den 63" 64 "big den" 0] norm(3,4) dpos b(2)
    by (simp_all add: res_def big_values mult.commute)
  have sticky: "\<not> IsZero (fst res) \<longleftrightarrow> big num mod big den \<noteq> 0" using q(1) big_eq_0_iff [OF q(2)] by simp
  have "x = of_nat (big num) / of_nat (big den) / pow2 k" unfolding n by simp
  from scaled_quotient_nearest [OF dpos this b q(3) sticky]
  show ?thesis
    unfolding decimal_core_def Let_def x_def [symmetric]
    by (simp only: num1_def [symmetric] den1_def [symmetric] k_def [symmetric] num_def [symmetric] den_def [symmetric]
      res_def [symmetric] split_beta)
qed

section \<open>Dropping digits\<close>

text \<open>Between two rationals that round differently lies a critical point, a double or the midpoint of
  two doubles, with at most 54 significant bits.\<close>

lemma critical_between:
  assumes "0 < u" and "u \<le> v" and "fl u \<noteq> fl v"
  shows "\<exists>k s. 0 < k \<and> k \<le> 2 ^ 54 \<and> - 1075 \<le> s \<and> u \<le> of_int k * pow2 s \<and> of_int k * pow2 s \<le> v"
proof (cases "scale u = scale v")
  case True
  let ?w = "ulp v" let ?a = "round_even (v / ?w)" let ?b = "round_even (u / ?w)"
  have v: "0 < v" using assms by simp
  have w: "ulp u = ?w" using True by (simp add: ulp_def)
  have "?b \<noteq> ?a" using assms v w by (auto simp: fl_def fl_pos_def)
  moreover have "?b \<le> ?a" using assms(2) by (intro round_even_mono divide_right_mono) (simp_all add: less_imp_le)
  ultimately have ba: "?b + 1 \<le> ?a" by simp
  have b0: "0 \<le> ?b" using round_ulp_le(1) [OF assms(1)] w by simp
  have a53: "?a \<le> 2 ^ 53" by (rule round_ulp_le(2) [OF v])
  have "of_int ?a - v / ?w \<le> 1 / 2" "u / ?w - of_int ?b \<le> 1 / 2"
    using round_even_close [of "v / ?w"] round_even_close [of "u / ?w"] by linarith+
  moreover have "(of_int ?b :: rat) + 1 \<le> of_int ?a" using ba by (metis of_int_1 of_int_add of_int_le_iff)
  ultimately have "u / ?w \<le> of_int (2 * ?a - 1) / 2" "of_int (2 * ?a - 1) / 2 \<le> v / ?w" by simp_all
  then have "u \<le> of_int (2 * ?a - 1) / 2 * ?w" "of_int (2 * ?a - 1) / 2 * ?w \<le> v"
    by (simp_all add: pos_divide_le_eq pos_le_divide_eq)
  moreover have "?w = 2 * pow2 (scale v - 53)" using pow2_add [of 1 "scale v - 53"] by (simp add: ulp_def pow2_def [of 1])
  moreover have "- 1075 \<le> scale v - 53" by (simp add: scale_def)
  ultimately show ?thesis using ba b0 a53 by (intro exI [of _ "2 * ?a - 1"] exI [of _ "scale v - 53"]) simp
next
  case False
  have v: "0 < v" using assms by simp
  from exponent_mono [OF assms(1,2)] False have e: "scale u + 1 \<le> exponent v" "- 1022 \<le> exponent v" by (auto simp: scale_def)
  have "u < pow2 (exponent u + 1)" by (rule exponent_bounds(2) [OF assms(1)])
  also have "\<dots> \<le> pow2 (exponent v)" using e(1) by (intro pow2_mono) (simp add: scale_def)
  finally show ?thesis using exponent_bounds(1) [OF v] e(2) by (intro exI [of _ 1] exI [of _ "exponent v"]) simp
qed


lemma critical_digits: "(2 :: rat) ^ 54 * 5 ^ 1075 \<le> 10 ^ 799"
proof -
  have "(5 :: rat) ^ 276 = (5 ^ 3) ^ 92" by (simp only: power_mult [symmetric]) simp
  also have "\<dots> \<le> (2 ^ 7) ^ 92" by (rule power_mono) simp_all
  also have "\<dots> = 2 ^ 644" by (simp only: power_mult [symmetric]) simp
  finally have "(2 :: rat) ^ 54 * 5 ^ 276 \<le> 2 ^ 54 * 2 ^ 644" by (rule mult_left_mono) simp
  also have "\<dots> = 2 ^ 698" by (simp only: power_add [symmetric]) simp
  also have "\<dots> \<le> (2 :: rat) ^ 799" by (rule power_increasing) simp_all
  finally have "(2 :: rat) ^ 54 * 5 ^ 276 * 5 ^ 799 \<le> 2 ^ 799 * 5 ^ 799" by (rule mult_right_mono) simp
  moreover have "(2 :: rat) ^ 799 * 5 ^ 799 = 10 ^ 799"
  proof -
    have "(2 :: rat) * 5 = 10" by simp
    then show ?thesis by (simp only: power_mult_distrib [symmetric])
  qed
  moreover have "(2 :: rat) ^ 54 * 5 ^ 276 * 5 ^ 799 = 2 ^ 54 * 5 ^ 1075"
  proof -
    have "(276 :: nat) + 799 = 1075" by simp
    then show ?thesis by (simp only: mult.assoc power_add [symmetric])
  qed
  ultimately show ?thesis by (simp only:)
qed

text \<open>A critical point whose integer part in units of \<open>10 ^ g\<close> has 800 digits is an integer there.\<close>

lemma critical_integer:
  assumes k: "0 < k" "k \<le> 2 ^ 54" and s: "- 1075 \<le> s" and g: "g \<le> - 490"
    and big: "10 ^ 799 < of_int k * pow2 s / pow10 g"
  shows "\<exists>i. of_int k * pow2 s / pow10 g = of_int i"
proof (cases "0 \<le> s")
  case True
  have "of_int k * pow2 s / pow10 g = of_int (k * 2 ^ nat s * 10 ^ nat (- g))"
    using True g by (simp add: pow2_def pow10_neg)
  then show ?thesis by blast
next
  case False
  define n where "n = nat (- s)"
  have n: "s = - int n" "n \<le> 1075" using False s by (simp_all add: n_def)
  have "(10 :: rat) ^ n = 2 ^ n * 5 ^ n" by (simp add: power_mult_distrib [symmetric])
  then have five: "pow2 s = 5 ^ n / 10 ^ n" unfolding n(1) by (simp add: pow2_def)
  show ?thesis
  proof (cases "g \<le> s")
    case True
    have "(10 :: rat) ^ nat (- g) = 10 ^ n * 10 ^ (nat (- g) - n)" using True n(1) by (simp add: power_add [symmetric])
    then have "of_int k * pow2 s / pow10 g = of_int (k * 5 ^ n * 10 ^ (nat (- g) - n))"
      unfolding five using g by (simp add: pow10_neg)
    then show ?thesis by blast
  next
    case False
    have "(10 :: rat) ^ n = 10 ^ nat (- g) * 10 ^ (n - nat (- g))" using False n(1) g by (simp add: power_add [symmetric])
    then have e: "of_int k * pow2 s / pow10 g = of_int k * 5 ^ n / 10 ^ (n - nat (- g))"
      unfolding five using g by (simp add: pow10_neg)
    have "of_int k * (5 :: rat) ^ n / 10 ^ (n - nat (- g)) \<le> of_int k * 5 ^ n / 1"
      using k by (intro divide_left_mono) simp_all
    also have "\<dots> \<le> 2 ^ 54 * 5 ^ 1075"
    proof -
      have "(of_int k :: rat) \<le> of_int (2 ^ 54)" using k(2) by (simp only: of_int_le_iff)
      then have "(of_int k :: rat) \<le> 2 ^ 54" by (simp only: of_int_power of_int_numeral)
      moreover have "(5 :: rat) ^ n \<le> 5 ^ 1075" using n(2) by (intro power_increasing) simp_all
      ultimately show ?thesis unfolding div_by_1 by (rule mult_mono) (simp_all only: zero_le_power zero_le_numeral)
    qed
    also have "\<dots> \<le> 10 ^ 799" by (rule critical_digits)
    finally have "of_int k * pow2 s / pow10 g \<le> 10 ^ 799" unfolding e .
    with big have False by (simp only: linorder_not_less [symmetric] not_True_eq_False)
    then show ?thesis ..
  qed
qed

lemma dropped_digits:
  assumes P: "10 ^ 799 \<le> P" and g: "g \<le> - 490"
    and u: "of_int P * pow10 g < u" and uv: "u \<le> v" and v: "v < (of_int P + 1) * pow10 g"
  shows "fl u = fl v"
proof (rule ccontr)
  assume ne: "fl u \<noteq> fl v"
  have "0 < P" by (rule less_le_trans [OF _ P]) simp
  then have "0 < of_int P * pow10 g" by simp
  then have u0: "0 < u" using u by linarith
  from critical_between [OF u0 uv ne] obtain k s where c: "0 < k" "k \<le> 2 ^ 54" "- 1075 \<le> s"
    "u \<le> of_int k * pow2 s" "of_int k * pow2 s \<le> v" by blast
  let ?c = "of_int k * pow2 s / pow10 g"
  have "of_int P * pow10 g < of_int k * pow2 s" "of_int k * pow2 s < (of_int P + 1) * pow10 g" using c u v by linarith+
  then have b: "of_int P < ?c" "?c < of_int P + 1" by (simp_all add: pos_less_divide_eq pos_divide_less_eq)
  have "(of_int (10 ^ 799) :: rat) \<le> of_int P" using P by (simp only: of_int_le_iff)
  then have "10 ^ 799 \<le> (of_int P :: rat)" by (simp only: of_int_power of_int_numeral)
  then have "10 ^ 799 < ?c" using b(1) by (rule le_less_trans)
  from critical_integer [OF c(1-3) g this] obtain i where "?c = of_int i" by blast
  with b have "P < i" "i < P + 1" by (metis of_int_less_iff, metis of_int_1 of_int_add of_int_less_iff)
  then show False by simp
qed

section \<open>\<open>DecimalToDouble\<close> rounds correctly\<close>

lemma two_93: "((2 :: rat) ^ 93) ^ 11 \<le> (10 ^ 28) ^ 11"
  by (rule power_mono) simp_all

lemma pow2_1024: "pow2 1024 \<le> pow10 310"
proof -
  have e: "93 * 11 + 1 = (1024 :: nat)" "28 * 11 + 2 = (310 :: nat)" by simp_all
  have "(2 :: rat) ^ (93 * 11 + 1) \<le> 10 ^ (28 * 11 + 2)"
    unfolding power_add power_mult by (rule mult_mono [OF two_93]) simp_all
  then have "(2 :: rat) ^ 1024 \<le> 10 ^ 310" unfolding e .
  moreover have "pow2 1024 = 2 ^ 1024" using pow2_int [of 1024] by (simp only: of_nat_numeral of_nat_power)
  moreover have "pow10 310 = 10 ^ 310" using pow10_nat [of 310] by (simp only: of_nat_numeral of_nat_power)
  ultimately show ?thesis by (simp only:)
qed

lemma pow10_324: "pow10 (- 324) \<le> pow2 (- 1075)"
proof -
  have e: "93 * 11 + 52 = (1075 :: nat)" "28 * 11 + 16 = (324 :: nat)" by simp_all
  have "(2 :: rat) ^ (93 * 11 + 52) \<le> 10 ^ (28 * 11 + 16)"
    unfolding power_add power_mult by (rule mult_mono [OF two_93]) simp_all
  then have "(2 :: rat) ^ 1075 \<le> 10 ^ 324" unfolding e .
  then have "1 / (10 :: rat) ^ 324 \<le> 1 / 2 ^ 1075" by (intro divide_left_mono) (simp_all only: zero_less_power zero_less_numeral mult_pos_pos zero_le_one)
  moreover have "pow2 (- 1075) = 1 / 2 ^ 1075" unfolding pow2_def by (simp only: nat_numeral minus_minus) (simp only: if_False neg_0_le_iff_le not_numeral_le_zero)
  moreover have "pow10 (- 324) = 1 / 10 ^ 324" using pow10_neg [of "- 324"] by (simp only: minus_minus nat_numeral neg_le_0_iff_le zero_le_numeral)
  ultimately show ?thesis by (simp only:)
qed

lemma pow10_mono: "a \<le> b \<Longrightarrow> pow10 a \<le> pow10 b"
  by (simp add: pow10_def power_int_increasing)

lemma digits_value_zeros: "digits_value (replicate n (CHR ''0'')) = 0"
  by (induction n) (simp_all add: digits_value_def replicate_append_same [symmetric] del: replicate.simps, simp_all add: digits_value_def of_char_def)

lemma digits_value_drop_zeros: "digits_value (dropWhile (\<lambda>c. c = CHR ''0'') ds) = digits_value ds"
proof (induction ds)
  case (Cons d ds)
  then show ?case using digits_value_append [of "[d]" ds] by (simp add: digits_value_def of_char_def)
qed simp

lemma digits_value_ge:
  assumes "dec_digits (d # ds)" and "d \<noteq> CHR ''0''" shows "10 ^ length ds \<le> digits_value (d # ds)"
proof -
  have "of_char d \<noteq> (48 :: nat)" using assms(2) by (metis char_of_char digit_char_0 digit_char_def add_0_right)
  moreover have "(48 :: nat) \<le> of_char d" using assms(1) by (simp add: dec_digits_def)
  ultimately have "1 \<le> of_char d - (48 :: nat)" by linarith
  then have "1 * 10 ^ length ds \<le> (of_char d - 48) * (10 :: nat) ^ length ds" by (rule mult_right_mono) simp
  moreover have "digits_value (d # ds) = (of_char d - 48) * 10 ^ length ds + digits_value ds"
    using digits_value_append [of "[d]" ds] by (simp add: digits_value_def)
  ultimately show ?thesis by linarith
qed

lemma trailing_zeros:
  fixes d1 :: string
  defines "z \<equiv> length (takeWhile (\<lambda>c. c = CHR ''0'') (rev d1))"
  shows "d1 = take (length d1 - z) d1 @ replicate z (CHR ''0'')" and "take (length d1 - z) d1 = [] \<or> last (take (length d1 - z) d1) \<noteq> CHR ''0''"
proof -
  let ?P = "\<lambda>c. c = CHR ''0''"
  let ?d = "rev (dropWhile ?P (rev d1))"
  have "takeWhile ?P (rev d1) = replicate z (CHR ''0'')"
    unfolding z_def by (intro replicate_eqI) (auto dest: set_takeWhileD)
  then have "rev d1 = replicate z (CHR ''0'') @ dropWhile ?P (rev d1)" by (metis takeWhile_dropWhile_id)
  then have d: "d1 = ?d @ replicate z (CHR ''0'')" by (metis rev_append rev_replicate rev_rev_ident)
  then have "take (length d1 - z) d1 = ?d" by (metis append_eq_conv_conj diff_add_inverse2 length_append length_replicate)
  with d show "d1 = take (length d1 - z) d1 @ replicate z (CHR ''0'')" by simp
  have "?d = [] \<or> last ?d \<noteq> CHR ''0''" using hd_dropWhile [of ?P "rev d1"] by (auto simp: last_rev)
  with \<open>take (length d1 - z) d1 = ?d\<close> show "take (length d1 - z) d1 = [] \<or> last (take (length d1 - z) d1) \<noteq> CHR ''0''" by simp
qed

text \<open>Early exits by the decimal magnitude.\<close>

lemma magnitude_overflow:
  assumes "10 ^ (n - 1) \<le> v" and "0 < n" and "int n + e > 310"
  shows "nearest neg (of_nat v * pow10 e) = Infinity neg"
proof -
  have "pow10 310 \<le> pow10 (int (n - 1) + e)" using assms(2,3) by (intro pow10_mono) simp
  also have "\<dots> = of_nat (10 ^ (n - 1)) * pow10 e" by (simp only: pow10_add pow10_nat)
  also have "\<dots> \<le> of_nat v * pow10 e" using assms(1) by (intro mult_right_mono) (simp_all only: of_nat_le_iff less_imp_le pow10_pos)
  finally show ?thesis using pow2_1024 by (intro nearest_overflow) (rule order_trans)
qed

lemma magnitude_underflow:
  assumes "v \<le> 10 ^ n" and "of_nat v * pow10 e = x \<or> x < of_nat v * pow10 e" and "0 \<le> x" and "v < 10 ^ n \<or> x < of_nat v * pow10 e" and "int n + e \<le> - 324"
  shows "nearest neg x = Finite neg 0"
proof -
  have "(of_nat v :: rat) \<le> of_nat (10 ^ n)" using assms(1) by (simp only: of_nat_le_iff)
  then have le: "of_nat v * pow10 e \<le> of_nat (10 ^ n) * pow10 e" by (intro mult_right_mono) (simp_all only: less_imp_le pow10_pos)
  have lt: "v < 10 ^ n \<Longrightarrow> of_nat v * pow10 e < of_nat (10 ^ n) * pow10 e"
    by (rule mult_strict_right_mono) (simp_all only: of_nat_less_iff pow10_pos)
  have "x < of_nat (10 ^ n) * pow10 e" using assms(2,4) le lt by linarith
  also have "\<dots> = pow10 (int n + e)" by (simp only: pow10_add pow10_nat)
  also have "\<dots> \<le> pow10 (- 324)" using assms(5) by (rule pow10_mono)
  finally have "x < pow2 (- 1075)" using pow10_324 by linarith
  with assms(3) show ?thesis by (rule nearest_underflow)
qed

lemma long_digits_nearest:
  fixes e :: int
  assumes P: "dec_digits p" "length p = 800" "10 ^ 799 \<le> digits_value p" and r: "dec_digits r" "0 < digits_value r"
  defines "g \<equiv> e + int (length r)"
  defines "x \<equiv> of_nat (digits_value (p @ r)) * pow10 e"
  shows "(if 801 + (g - 1) > 310 then Infinity neg else if 801 + (g - 1) \<le> - 324 then Finite neg 0
      else decimal_core neg (p @ ''1'') (g - 1)) = nearest neg x"
proof -
  let ?P = "digits_value p" let ?R = "digits_value r"
  have "of_nat ?R / of_nat (10 ^ length r) < (1 :: rat)" "0 < of_nat ?R / (of_nat (10 ^ length r) :: rat)"
    using digits_value_less [OF r(1)] r(2) by (simp_all add: divide_less_eq)
  moreover have x: "x = (of_nat ?P + of_nat ?R / of_nat (10 ^ length r)) * pow10 g"
    unfolding x_def g_def digits_value_append pow10_add pow10_nat by (simp add: field_simps)
  ultimately have xb: "of_nat ?P * pow10 g < x" "x < (of_nat ?P + 1) * pow10 g" by simp_all
  define x' where "x' = of_nat (digits_value (p @ ''1'')) * pow10 (g - 1)"
  have "digits_value (p @ ''1'') = ?P * 10 + 1" using digits_value_append [of p "''1''"] by (simp add: digits_value_def of_char_def)
  moreover have "pow10 g = pow10 (g - 1) * 10" using pow10_add [of "g - 1" 1] pow10_nat [of 1] by simp
  ultimately have xb': "of_nat ?P * pow10 g < x'" "x' < (of_nat ?P + 1) * pow10 g"
    unfolding x'_def by (simp_all add: algebra_simps) 
  consider (over) "801 + (g - 1) > 310" | (under) "801 + (g - 1) \<le> - 324" | (core) "\<not> 801 + (g - 1) > 310" "\<not> 801 + (g - 1) \<le> - 324" by linarith
  then show ?thesis
  proof cases
    case over
    have "nearest neg (of_nat (digits_value (p @ r)) * pow10 e) = Infinity neg"
    proof (rule magnitude_overflow)
      have "(10 :: nat) ^ (800 + length r - 1) = 10 ^ 799 * 10 ^ length r" unfolding power_add [symmetric] by simp
      also have "\<dots> \<le> ?P * 10 ^ length r" using P(3) by (rule mult_right_mono) simp
      finally show "10 ^ (800 + length r - 1) \<le> digits_value (p @ r)" unfolding digits_value_append by simp
    qed (use over in \<open>simp_all add: g_def\<close>)
    with over show ?thesis by (simp add: x_def)
  next
    case under
    have a: "?P + 1 \<le> 10 ^ length p" using digits_value_less [OF P(1)] by simp
    have b: "x < of_nat (?P + 1) * pow10 g" using xb(2) by (simp add: add.commute)
    have c: "0 \<le> x" by (simp add: x_def less_imp_le)
    have d: "int (length p) + g \<le> - 324" using under P(2) by simp
    have "nearest neg x = Finite neg 0" by (rule magnitude_underflow [OF a disjI2 [OF b] c disjI2 [OF b] d])
    with under show ?thesis by simp
  next
    case core
    have "fl x = fl x'"
    proof -
      have g: "g \<le> - 490" using core(1) by simp
      have P': "10 ^ 799 \<le> int ?P" using P(3) by (metis of_nat_le_iff of_nat_numeral of_nat_power)
      show ?thesis
      proof (cases "x \<le> x'")
        case True
        then show ?thesis using dropped_digits [OF P' g, of x x'] xb xb' by simp
      next
        case False
        then show ?thesis using dropped_digits [OF P' g, of x' x] xb xb' by simp
      qed
    qed
    moreover have "dec_digits (p @ ''1'')" "0 < digits_value (p @ ''1'')"
      using P(1) \<open>digits_value (p @ ''1'') = ?P * 10 + 1\<close> by (simp_all add: dec_digits_def of_char_def)
    ultimately show ?thesis using core decimal_core_nearest [of "p @ ''1''" neg "g - 1"] by (simp add: nearest_def x'_def)
  qed
qed

lemma nearest_0: "nearest neg 0 = Finite neg 0"
  by (simp add: nearest_def not_le)

lemma DecimalToDouble_nearest:
  assumes ds: "dec_digits ds"
  shows "DecimalToDouble neg ds e = nearest neg (of_nat (digits_value ds) * pow10 e)"
proof -
  define d1 where "d1 = dropWhile (\<lambda>c. c = CHR ''0'') ds"
  have v1: "digits_value d1 = digits_value ds" by (simp add: d1_def digits_value_drop_zeros)
  show ?thesis
  proof (cases "d1 = []")
    case True
    with v1 have "digits_value ds = 0" by (simp add: digits_value_def)
    with True show ?thesis by (simp add: DecimalToDouble_def d1_def [symmetric] nearest_0)
  next
    case False
    define z where "z = length (takeWhile (\<lambda>c. c = CHR ''0'') (rev d1))"
    define d2 where "d2 = take (length d1 - z) d1"
    have split: "d1 = d2 @ replicate z (CHR ''0'')" and tail: "d2 = [] \<or> last d2 \<noteq> CHR ''0''"
      unfolding d2_def z_def by (rule trailing_zeros)+
    have hd1: "hd d1 \<noteq> CHR ''0''" using False unfolding d1_def by (rule hd_dropWhile)
    have ne: "d2 \<noteq> []" using split False hd1 by (cases z) auto
    then obtain c cs where cs: "d2 = c # cs" by (cases d2) auto
    have dd1: "dec_digits d1" using ds by (auto simp: dec_digits_def d1_def list_all_iff dest: set_dropWhileD)
    then have dd2: "dec_digits d2" unfolding d2_def by (rule dec_digits_parts)
    have "c \<noteq> CHR ''0''" using hd1 split cs by simp
    then have low: "10 ^ length cs \<le> digits_value d2" using digits_value_ge dd2 unfolding cs by blast
    have val: "of_nat (digits_value ds) * pow10 e = of_nat (digits_value d2) * pow10 (e + int z)"
    proof -
      have "digits_value ds = digits_value d2 * 10 ^ z"
        unfolding v1 [symmetric] by (subst split) (simp add: digits_value_append digits_value_zeros)
      then show ?thesis by (simp add: pow10_add pow10_nat)
    qed
    let ?e2 = "e + int z"
    show ?thesis
    proof (cases "length d2 > kMaxSignificantDigits")
      case long: True
      define p where "p = take 800 d2"
      define r where "r = drop 800 d2"
      have len: "length d2 > 800" using long by (simp add: kMaxSignificantDigits_def)
      have pr: "d2 = p @ r" "length p = 800" "r \<noteq> []" "dec_digits p" "dec_digits r"
        using len dec_digits_parts [OF dd2, of 800] by (simp_all add: p_def r_def)
      obtain ps where ps: "p = c # ps" using cs len by (auto simp: p_def)
      then have "length ps = 799" using pr(2) by simp
      then have plow: "10 ^ 799 \<le> digits_value p"
        using digits_value_ge [of c ps] pr(4) \<open>c \<noteq> CHR ''0''\<close> unfolding ps by metis
      have "last r \<noteq> CHR ''0''" using tail pr(1,3) by simp
      moreover have "last r \<in> set r" using pr(3) by (rule last_in_set)
      ultimately have "dropWhile (\<lambda>c. c = CHR ''0'') r \<noteq> []" unfolding dropWhile_eq_Nil_conv by blast
      then obtain y ys where ys: "dropWhile (\<lambda>c. c = CHR ''0'') r = y # ys" by (cases "dropWhile (\<lambda>c. c = CHR ''0'') r") auto
      then have "y \<noteq> CHR ''0''" using hd_dropWhile [of "\<lambda>c. c = CHR ''0''" r] by simp
      moreover have "dec_digits (dropWhile (\<lambda>c. c = CHR ''0'') r)"
        using pr(5) by (auto simp: dec_digits_def list_all_iff dest: set_dropWhileD)
      then have "dec_digits (y # ys)" by (simp only: ys)
      ultimately have "10 ^ length ys \<le> digits_value r" using digits_value_ge [of y ys] digits_value_drop_zeros [of r] ys by simp
      then have rpos: "0 < digits_value r" by (metis less_le_trans zero_less_numeral zero_less_power)
      have g: "?e2 + int (length d2 - kMaxSignificantDigits - 1) = ?e2 + int (length r) - 1"
        using pr(3) by (cases r) (simp_all add: pr(1,2) kMaxSignificantDigits_def)
      have "int (length (take kMaxSignificantDigits d2 @ ''1'')) = 801" using len by (simp add: kMaxSignificantDigits_def)
      moreover have "take kMaxSignificantDigits d2 = p" by (simp add: p_def kMaxSignificantDigits_def)
      moreover note long_digits_nearest [OF pr(4,2) plow pr(5) rpos, of ?e2 neg, folded pr(1)]
      ultimately show ?thesis unfolding val
        by (simp only: DecimalToDouble_def d1_def [symmetric] z_def [symmetric] d2_def [symmetric] Let_def long if_True False if_False g)
    next
      case short: False
      have n: "length d2 = Suc (length cs)" by (simp add: cs)
      have core: "decimal_core neg d2 ?e2 = nearest neg (of_nat (digits_value d2) * pow10 ?e2)"
        using low by (intro decimal_core_nearest [OF dd2]) (metis less_le_trans zero_less_numeral zero_less_power)
      have over: "nearest neg (of_nat (digits_value d2) * pow10 ?e2) = Infinity neg" if "int (length d2) + ?e2 > 310"
        using low n that by (intro magnitude_overflow [of "length d2"]) simp_all
      have under: "nearest neg (of_nat (digits_value d2) * pow10 ?e2) = Finite neg 0" if "int (length d2) + ?e2 \<le> - 324"
        using digits_value_less [OF dd2] that
        by (intro magnitude_underflow [of "digits_value d2" "length d2" ?e2]) (simp_all add: less_imp_le)
      have "DecimalToDouble neg ds e = (if int (length d2) + ?e2 > 310 then Infinity neg
          else if int (length d2) + ?e2 \<le> - 324 then Finite neg 0 else decimal_core neg d2 ?e2)"
        by (simp only: DecimalToDouble_def d1_def [symmetric] z_def [symmetric] d2_def [symmetric] Let_def short False if_False)
      then show ?thesis unfolding val using core over under by simp
    qed
  qed
qed

text \<open>C23. \<^verbatim>\<open>DecimalToDouble\<close> is correctly rounded: for every digit string and every exponent, 800-digit
  truncation, early exits and subnormal results included, it returns the double nearest to the decimal
  number, ties to even, and infinity where that overflows.\<close>

theorem decimal_to_double_correct:
  assumes "dec_digits digits"
  shows "DecimalToDouble neg digits exp10 =
    (let x = of_nat (digits_value digits) * 10 powi exp10
     in if 2 ^ 1024 \<le> fl x then Infinity neg else Finite neg (fl x))"
proof -
  have "pow2 1024 = 2 ^ 1024" using pow2_int [of 1024] by (simp only: of_nat_numeral of_nat_power)
  with DecimalToDouble_nearest [OF assms, of neg exp10] show ?thesis by (simp only: nearest_def pow10_def Let_def)
qed

theorem decimal_to_double_witness:
  "DecimalToDouble True ''0150'' (- 2) =
    (let x = of_nat (digits_value ''0150'') * 10 powi (- 2)
     in if 2 ^ 1024 \<le> fl x then Infinity True else Finite True (fl x))"
  by (rule decimal_to_double_correct) (simp add: dec_digits_def of_char_def)

end
