(* ===== verification/Consuming.thy ===== *)
theory Consuming
  imports Matching PyInt PyFloat
begin

text \<open>
  The row consumers of \<^verbatim>\<open>src/diff/Consumer.cpp\<close>: \<^verbatim>\<open>check_match\<close> and the
  \<^verbatim>\<open>add_matches_*\<close> family, over the part of \<^verbatim>\<open>DiffSession\<close> they touch.

  A consumer reads its rows through the abstract class \<^verbatim>\<open>RowSource\<close>, whose fetch may throw
  and interns the texts of the row; a source is modelled by the list of its fetches, each run when the loop reaches it. The ratio engine is the abstract class
  \<^verbatim>\<open>IRatioProvider\<close>, and the patch-diff hook is called through its declaration: both are
  arguments of the definitions (state transformers over their own state), so every theorem holds for
  every provider and every hook. The trace is the log of the trace events
  (\<^verbatim>\<open>TraceSink\<close>), as if it were always enabled.
\<close>

section \<open>State and errors\<close>

type_synonym ('s, 'a) action = "'s \<Rightarrow> 'a result \<times> 's"

definition bindS :: "('s, 'a) action \<Rightarrow> ('a \<Rightarrow> ('s, 'b) action) \<Rightarrow> ('s, 'b) action" where
  "bindS m f s = (case m s of (Inl e, s1) \<Rightarrow> (Inl e, s1) | (Inr x, s1) \<Rightarrow> f x s1)"

definition retS :: "'a \<Rightarrow> ('s, 'a) action" where
  "retS x s = (Inr x, s)"

text \<open>A call that reads the state and may throw.\<close>

definition getS :: "('s \<Rightarrow> 'a result) \<Rightarrow> ('s, 'a) action" where
  "getS f s = (f s, s)"

definition modS :: "('s \<Rightarrow> 's) \<Rightarrow> ('s, unit) action" where
  "modS f s = (Inr (), f s)"

lemmas action_defs [model_defs] = bindS_def retS_def getS_def modS_def

lemma bindS_eq:
  "bindS m f s = (r, s') \<longleftrightarrow>
     (\<exists>e. m s = (Inl e, s') \<and> r = Inl e) \<or> (\<exists>x s1. m s = (Inr x, s1) \<and> f x s1 = (r, s'))"
  by (cases "m s" rule: prod.exhaust; cases "fst (m s)") (auto simp: bindS_def split: sum.splits)

section \<open>Rows, frames and the session\<close>

datatype Side = Main_Side | Diff_Side

datatype MdSource = Sql | Python

record HeuristicRow =
  hr_Ea1 :: AddrId
  hr_Ea2 :: AddrId
  hr_Row1 :: "32 word"
  hr_Row2 :: "32 word"
  hr_Side1 :: Side
  hr_Side2 :: Side
  hr_Name1 :: NameId
  hr_Name2 :: NameId
  hr_Desc :: DescId
  hr_Nodes1 :: "int option"
  hr_Nodes2 :: "int option"
  hr_Md1 :: "flt option"
  hr_Md2 :: "flt option"

datatype RowDecision =
  Nullsub | HasBest | HasBetter | AcceptedBest | AcceptedPartial | BelowMin | AcceptedUnreliable | Raised

definition RowDecisionName :: "RowDecision \<Rightarrow> string" where
  "RowDecisionName d =
     (case d of Nullsub \<Rightarrow> ''nullsub'' | HasBest \<Rightarrow> ''has_best'' | HasBetter \<Rightarrow> ''has_better''
      | AcceptedBest \<Rightarrow> ''accepted_best'' | AcceptedPartial \<Rightarrow> ''accepted_partial''
      | BelowMin \<Rightarrow> ''below_min'' | AcceptedUnreliable \<Rightarrow> ''accepted_unreliable'' | Raised \<Rightarrow> ''raised'')"

definition AddMatchResultName :: "AddMatchResult \<Rightarrow> string" where
  "AddMatchResultName r =
     (case r of Appended \<Rightarrow> ''appended'' | Duplicate \<Rightarrow> ''duplicate'' | RejectedBetter \<Rightarrow> ''rejected_better'')"

datatype TraceEvent =
    RowEvent AddrId AddrId RowDecision "double option"
  | AddMatchEvent NameId NameId double Item "Chooser option" AddMatchResult
  | CleanupEvent nat int nat nat nat
  | PointEvent string nat nat nat

datatype FrameKind = Internal | FromQuery

record RoutingFrame =
  rf_Which :: FrameKind
  rf_Partial :: "Chooser option"
  rf_Val :: "double option"
  rf_UnreliableGiven :: bool

record UnmatchedRow =
  ur_Ea :: AddrId
  ur_Name :: NameId

record FinalResults =
  fr_Best :: "Item list"
  fr_Partial :: "Item list"
  fr_Unreliable :: "Item list"
  fr_Multimatch :: "Item list"
  fr_UnmatchedPrimary :: "UnmatchedRow list option"
  fr_UnmatchedSecondary :: "UnmatchedRow list option"

record ('r, 'h) Session =
  ss_Ids :: Interners
  ss_State :: MatchState
  ss_Ratio :: 'r
  ss_Hook :: 'h
  ss_HooksLoaded :: bool
  ss_MaxProcessedRows :: int
  ss_Frames :: "RoutingFrame list"
  ss_Trace :: "TraceEvent list"
  ss_CleanupCounters :: "(nat \<times> int) list"
  ss_PointSeq :: int
  ss_Final :: FinalResults
  ss_IsSymbolsStripped :: bool
  ss_IsPatchDiff :: bool
  ss_Truncations :: "(int \<times> string \<times> string) list"

type_synonym 'r provider = "Interners \<Rightarrow> 'r \<Rightarrow> HeuristicRow \<Rightarrow> MdSource \<Rightarrow> double result \<times> 'r"
type_synonym 'h hook = "Interners \<Rightarrow> 'h \<Rightarrow> HeuristicRow \<Rightarrow> double \<Rightarrow> unit result \<times> 'h"

text \<open>\<^verbatim>\<open>Config.h\<close>: C:137 and C:141.\<close>

definition kDefaultPartialRatio :: double where "kDefaultPartialRatio = 1 / 2"

section \<open>Small steps\<close>

definition TraceRow :: "HeuristicRow \<Rightarrow> RowDecision \<Rightarrow> double option \<Rightarrow> (('r, 'h) Session, unit) action" where
  "TraceRow row d r = modS (\<lambda>s. s\<lparr>ss_Trace := ss_Trace s @ [RowEvent (hr_Ea1 row) (hr_Ea2 row) d r]\<rparr>)"

text \<open>\<^verbatim>\<open>S.State().AddMatch(...)\<close> with its trace event.\<close>

definition SessionAddMatch ::
  "NameId \<Rightarrow> NameId \<Rightarrow> double \<Rightarrow> Item \<Rightarrow> Chooser option \<Rightarrow> (('r, 'h) Session, unit) action" where
  "SessionAddMatch n1 n2 ratio it c s =
     (case AddMatch (ss_Ids s) (ss_State s) n1 n2 ratio it c of
        Inl e \<Rightarrow> (Inl e, s)
      | Inr (ms, res) \<Rightarrow>
          (Inr (), s\<lparr>ss_State := ms, ss_Trace := ss_Trace s @ [AddMatchEvent n1 n2 ratio it c res]\<rparr>))"

text \<open>\<^verbatim>\<open>Detail::RequirePyInt\<close>: TypeError for \<^verbatim>\<open>None\<close>, a refusal for text that is not
  ASCII, ValueError for text that \<^verbatim>\<open>int()\<close> rejects.\<close>

definition RequirePyInt :: "Interners \<Rightarrow> AddrId \<Rightarrow> string \<Rightarrow> unit result" where
  "RequirePyInt ids ea site =
     (if ea = kNoneAddr
      then Inl (DiaphoraWouldRaise (site @ '' TypeError'')
             (''int() argument must be a string, a bytes-like object or a real number, not ''
               @ quote @ ''NoneType'' @ quote))
      else bindE (AddrText ids ea) (\<lambda>str.
        if \<not> IsAscii str
        then Inl (UnsupportedInput (''address text '' @ quote @ str @ quote
               @ '' is not ASCII: Python int() of it ('' @ site @ '') is not ported''))
        else if \<not> PyIntAsciiAccepts str
        then Inl (DiaphoraWouldRaise (site @ '' ValueError'')
               (''invalid literal for int() with base 10: '' @ quote @ str @ quote))
        else Inr ()))"

definition NameStartsWith :: "string \<Rightarrow> string \<Rightarrow> NameId \<Rightarrow> (('r, 'h) Session, bool) action" where
  "NameStartsWith pre site name =
     getS (\<lambda>s. if name = kNoneName
               then Inl (DiaphoraWouldRaise site
                 (''AttributeError: '' @ quote @ ''NoneType'' @ quote @ '' object has no attribute ''
                   @ quote @ ''startswith'' @ quote))
               else bindE (NameText (ss_Ids s) name) (\<lambda>t. Inr (starts_with t pre)))"

definition AcceptedDecision :: "RoutingFrame list \<Rightarrow> double \<Rightarrow> RowDecision" where
  "AcceptedDecision frames R =
     (if frames = [] then (if R = 1 then AcceptedBest else AcceptedPartial)
      else
        (let frame = last frames in
         if rf_Which frame = FromQuery then AcceptedBest
         else
           (let val = (case rf_Val frame of Some v \<Rightarrow> v | None \<Rightarrow> kDefaultPartialRatio) in
            if R = 1 then AcceptedBest
            else if R \<ge> val \<and> rf_Partial frame \<noteq> None then AcceptedPartial
            else if R < kDefaultPartialRatio \<and> R > val \<and> rf_UnreliableGiven frame then AcceptedUnreliable
            else BelowMin)))"

definition CheckRatioCall :: "'r provider \<Rightarrow> HeuristicRow \<Rightarrow> MdSource \<Rightarrow> (('r, 'h) Session, double) action" where
  "CheckRatioCall prov row src s =
     (case prov (ss_Ids s) (ss_Ratio s) row src of (res, r') \<Rightarrow> (res, s\<lparr>ss_Ratio := r'\<rparr>))"

definition PatchDiffHookCall :: "'h hook \<Rightarrow> HeuristicRow \<Rightarrow> double \<Rightarrow> (('r, 'h) Session, unit) action" where
  "PatchDiffHookCall hook row ratio s =
     (case hook (ss_Ids s) (ss_Hook s) row ratio of (res, h') \<Rightarrow> (res, s\<lparr>ss_Hook := h'\<rparr>))"

section \<open>\<open>CheckMatch\<close>\<close>

definition CheckMatchBody ::
  "'r provider \<Rightarrow> 'h hook \<Rightarrow> HeuristicRow \<Rightarrow> (('r, 'h) Session, double option) action" where
  "CheckMatchBody prov hook row =
     bindS (NameStartsWith ''nullsub_'' ''D:1846'' (hr_Name1 row)) (\<lambda>null1.
     bindS (if null1 then retS True else NameStartsWith ''nullsub_'' ''D:1846'' (hr_Name2 row)) (\<lambda>nullsub.
     if nullsub then bindS (TraceRow row Nullsub None) (\<lambda>_. retS None)
     else
       bindS (getS (\<lambda>s. Inr (HasBestMatch (ss_State s) (hr_Name1 row) (hr_Name2 row)))) (\<lambda>best.
       if best then bindS (TraceRow row HasBest None) (\<lambda>_. retS None)
       else
         bindS (CheckRatioCall prov row Sql) (\<lambda>R.
         bindS (getS (\<lambda>s. HasBetterMatch (ss_Ids s) (ss_State s) (hr_Name1 row) (hr_Name2 row) R)) (\<lambda>better.
         if better then bindS (TraceRow row HasBetter (Some R)) (\<lambda>_. retS None)
         else
           bindS (getS (\<lambda>s. Inr (ss_HooksLoaded s))) (\<lambda>loaded.
           bindS (if loaded then PatchDiffHookCall hook row R else retS ()) (\<lambda>_.
           bindS (getS (\<lambda>s. Inr (AcceptedDecision (ss_Frames s) R))) (\<lambda>dec.
           bindS (TraceRow row dec (Some R)) (\<lambda>_. retS (Some R)))))))))) "

definition CheckMatch ::
  "'r provider \<Rightarrow> 'h hook \<Rightarrow> HeuristicRow \<Rightarrow> (('r, 'h) Session, double option) action" where
  "CheckMatch prov hook row s =
     (case CheckMatchBody prov hook row s of
        (Inl (DiaphoraWouldRaise site detail), s1) \<Rightarrow>
          (Inl (DiaphoraWouldRaise site detail), snd (TraceRow row Raised None s1))
      | other \<Rightarrow> other)"

section \<open>The consumer loops\<close>

definition StrOfEa :: "AddrId \<Rightarrow> (('r, 'h) Session, AddrId) action" where
  "StrOfEa ea s =
     (if ea = kNoneAddr
      then (case AddrOf (ss_Ids s) ''None'' of (i, ids) \<Rightarrow> (Inr i, s\<lparr>ss_Ids := ids\<rparr>))
      else (Inr ea, s))"

definition IntOfNodes :: "int option \<Rightarrow> string \<Rightarrow> int result" where
  "IntOfNodes nodes site =
     (case nodes of
        None \<Rightarrow> Inl (DiaphoraWouldRaise site
          (''TypeError: int() argument must be a string, a bytes-like object or a real number, not ''
            @ quote @ ''NoneType'' @ quote))
      | Some n \<Rightarrow> Inr n)"

text \<open>\<^verbatim>\<open>RoutingScope\<close>: the frame is popped on every exit from the scope, a throw included.\<close>

definition with_frame :: "RoutingFrame \<Rightarrow> (('r, 'h) Session, 'a) action \<Rightarrow> (('r, 'h) Session, 'a) action" where
  "with_frame frame body s =
     (case body (s\<lparr>ss_Frames := ss_Frames s @ [frame]\<rparr>) of
        (res, s1) \<Rightarrow> (res, s1\<lparr>ss_Frames := butlast (ss_Frames s1)\<rparr>))"

text \<open>The body of the loop of \<^verbatim>\<open>AddMatchesInternalImpl\<close> for one fetched row.\<close>

definition consume_internal ::
  "'r provider \<Rightarrow> 'h hook \<Rightarrow> Chooser \<Rightarrow> Chooser option \<Rightarrow> double option \<Rightarrow> bool \<Rightarrow> HeuristicRow
     \<Rightarrow> (('r, 'h) Session, unit) action" where
  "consume_internal prov hook best part val unreliable_given row =
     bindS (CheckMatch prov hook row) (\<lambda>R.
     case R of
       None \<Rightarrow> retS ()
     | Some ratio \<Rightarrow>
         bindS (StrOfEa (hr_Ea1 row)) (\<lambda>ea.
         bindS (getS (\<lambda>s. IntOfNodes (hr_Nodes1 row) ''D:1915'')) (\<lambda>nodes1.
         bindS (getS (\<lambda>s. IntOfNodes (hr_Nodes2 row) ''D:1916'')) (\<lambda>nodes2.
           let v = (case val of Some v \<Rightarrow> v | None \<Rightarrow> kDefaultPartialRatio);
               it = \<lparr>it_Ea1 = ea, it_Name1 = hr_Name1 row, it_Ea2 = hr_Ea2 row, it_Name2 = hr_Name2 row,
                     it_Desc = hr_Desc row, it_Ratio = ratio, it_Nodes1 = nodes1, it_Nodes2 = nodes2\<rparr>;
               target = (if ratio = 1 then Some best
                         else if ratio \<ge> v \<and> part \<noteq> None then part else None)
           in if target \<noteq> None
              then bindS (getS (\<lambda>s. RequirePyInt (ss_Ids s) ea ''D:1935'')) (\<lambda>_.
                   SessionAddMatch (hr_Name1 row) (hr_Name2 row) ratio it target)
              else if ratio < kDefaultPartialRatio \<and> ratio > v \<and> unreliable_given
              then bindS (getS (\<lambda>s. RequirePyInt (ss_Ids s) ea ''D:1943'')) (\<lambda>_.
                   SessionAddMatch (hr_Name1 row) (hr_Name2 row) ratio it (Some Unreliable))
              else retS ()))))"

text \<open>One \<^verbatim>\<open>RowSource::Next\<close> that has a row: it works on the id tables of the session.\<close>

type_synonym fetch = "Interners \<Rightarrow> HeuristicRow result \<times> Interners"

type_synonym rows = "fetch list"

definition FetchRow :: "fetch \<Rightarrow> (('r, 'h) Session, HeuristicRow) action" where
  "FetchRow fetched s = (case fetched (ss_Ids s) of (res, ids) \<Rightarrow> (res, s\<lparr>ss_Ids := ids\<rparr>))"

fun internal_loop ::
  "(HeuristicRow \<Rightarrow> (('r, 'h) Session, unit) action) \<Rightarrow> int \<Rightarrow> int \<Rightarrow> rows \<Rightarrow> (('r, 'h) Session, unit) action" where
  "internal_loop consume maxrows i [] s = (Inr (), s)"
| "internal_loop consume maxrows i (fetched # rest) s =
     (if maxrows \<noteq> 0 \<and> i < maxrows
      then bindS (FetchRow fetched) (\<lambda>row. bindS (consume row) (\<lambda>_. internal_loop consume maxrows (i + 1) rest)) s
      else (Inr (), s))"

definition AddMatchesInternalImpl ::
  "'r provider \<Rightarrow> 'h hook \<Rightarrow> rows \<Rightarrow> Chooser \<Rightarrow> Chooser option \<Rightarrow> double option \<Rightarrow> bool
     \<Rightarrow> (('r, 'h) Session, unit) action" where
  "AddMatchesInternalImpl prov hook rows best part val unreliable_given =
     with_frame \<lparr>rf_Which = Internal, rf_Partial = part, rf_Val = val, rf_UnreliableGiven = unreliable_given\<rparr>
       (\<lambda>s. internal_loop (consume_internal prov hook best part val unreliable_given)
              (ss_MaxProcessedRows s) 0 rows s)"

definition AddMatchesInternal ::
  "'r provider \<Rightarrow> 'h hook \<Rightarrow> rows \<Rightarrow> Chooser \<Rightarrow> Chooser option \<Rightarrow> double option
     \<Rightarrow> (('r, 'h) Session, unit) action" where
  "AddMatchesInternal prov hook rows best part val =
     AddMatchesInternalImpl prov hook rows best part val False"

definition consume_query ::
  "'r provider \<Rightarrow> 'h hook \<Rightarrow> Chooser \<Rightarrow> HeuristicRow \<Rightarrow> (('r, 'h) Session, unit) action" where
  "consume_query prov hook category row =
     bindS (CheckMatch prov hook row) (\<lambda>R.
     case R of
       None \<Rightarrow> retS ()
     | Some ratio \<Rightarrow>
         bindS (StrOfEa (hr_Ea1 row)) (\<lambda>ea.
         bindS (getS (\<lambda>s. IntOfNodes (hr_Nodes1 row) ''D:2071'')) (\<lambda>nodes1.
         bindS (getS (\<lambda>s. IntOfNodes (hr_Nodes2 row) ''D:2072'')) (\<lambda>nodes2.
           SessionAddMatch (hr_Name1 row) (hr_Name2 row) 1
             \<lparr>it_Ea1 = ea, it_Name1 = hr_Name1 row, it_Ea2 = hr_Ea2 row, it_Name2 = hr_Name2 row,
              it_Desc = hr_Desc row, it_Ratio = 1, it_Nodes1 = nodes1, it_Nodes2 = nodes2\<rparr>
             (Some category)))))"

fun query_loop :: "(HeuristicRow \<Rightarrow> (('r, 'h) Session, unit) action) \<Rightarrow> rows \<Rightarrow> (('r, 'h) Session, unit) action" where
  "query_loop consume [] s = (Inr (), s)"
| "query_loop consume (fetched # rest) s =
     bindS (FetchRow fetched) (\<lambda>row. bindS (consume row) (\<lambda>_. query_loop consume rest)) s"

definition AddMatchesFromQuery ::
  "'r provider \<Rightarrow> 'h hook \<Rightarrow> rows \<Rightarrow> Chooser \<Rightarrow> (('r, 'h) Session, unit) action" where
  "AddMatchesFromQuery prov hook rows category s =
     (if AllFunctionsMatched (ss_State s) then (Inr (), s)
      else with_frame \<lparr>rf_Which = FromQuery, rf_Partial = None, rf_Val = None, rf_UnreliableGiven = False\<rparr>
             (\<lambda>s. case query_loop (consume_query prov hook category) rows s of
                    (Inl (DiaphoraWouldRaise site detail), s1) \<Rightarrow> (Inr (), s1)
                  | other \<Rightarrow> other) s)"

definition AddMatchesFromQueryRatio ::
  "'r provider \<Rightarrow> 'h hook \<Rightarrow> rows \<Rightarrow> Chooser \<Rightarrow> Chooser \<Rightarrow> (('r, 'h) Session, unit) action" where
  "AddMatchesFromQueryRatio prov hook rows best part s =
     (if AllFunctionsMatched (ss_State s) then (Inr (), s)
      else AddMatchesInternalImpl prov hook rows best (Some part) None False s)"

definition AddMatchesFromQueryRatioMax ::
  "'r provider \<Rightarrow> 'h hook \<Rightarrow> rows \<Rightarrow> Chooser \<Rightarrow> Chooser \<Rightarrow> double \<Rightarrow> (('r, 'h) Session, unit) action" where
  "AddMatchesFromQueryRatioMax prov hook rows best part v s =
     (if AllFunctionsMatched (ss_State s) then (Inr (), s)
      else AddMatchesInternalImpl prov hook rows best (Some part) (Some v) True s)"

definition AddMatchesFromQueryRatioMaxTrusted ::
  "'r provider \<Rightarrow> 'h hook \<Rightarrow> rows \<Rightarrow> double \<Rightarrow> (('r, 'h) Session, unit) action" where
  "AddMatchesFromQueryRatioMaxTrusted prov hook rows v s =
     (if AllFunctionsMatched (ss_State s) then (Inr (), s)
      else AddMatchesInternalImpl prov hook rows Best (Some Partial) (Some v) True s)"

section \<open>Reasoning about actions\<close>

text \<open>\<open>preserves P m\<close>: every run of \<open>m\<close> from a state with \<open>P\<close> ends in one, also when it throws.\<close>

definition preserves :: "('s \<Rightarrow> bool) \<Rightarrow> ('s, 'a) action \<Rightarrow> bool" where
  "preserves P m \<longleftrightarrow> (\<forall>s. P s \<longrightarrow> P (snd (m s)))"

named_theorems keeps \<open>preservation rules for actions\<close>

lemma preservesD: "preserves P m \<Longrightarrow> P s \<Longrightarrow> m s = (r, s') \<Longrightarrow> P s'"
  by (metis preserves_def snd_conv)

lemma preservesI: "(\<And>s r s'. P s \<Longrightarrow> m s = (r, s') \<Longrightarrow> P s') \<Longrightarrow> preserves P m"
  by (metis preserves_def prod.collapse)

lemma preserves_bindS [keeps]: "preserves P m \<Longrightarrow> (\<And>x. preserves P (f x)) \<Longrightarrow> preserves P (bindS m f)"
  unfolding preserves_def bindS_def by (auto split: prod.splits sum.splits)

lemma preserves_retS [keeps]: "preserves P (retS x)"
  by (simp add: preserves_def retS_def)

lemma preserves_getS [keeps]: "preserves P (getS f)"
  by (simp add: preserves_def getS_def)

lemma preserves_if [keeps]:
  "(b \<Longrightarrow> preserves P m1) \<Longrightarrow> (\<not> b \<Longrightarrow> preserves P m2) \<Longrightarrow> preserves P (if b then m1 else m2)"
  by simp

lemma preserves_option [keeps]:
  "preserves P m \<Longrightarrow> (\<And>x. preserves P (f x)) \<Longrightarrow> preserves P (case opt of None \<Rightarrow> m | Some x \<Rightarrow> f x)"
  by (cases opt) auto

text \<open>The contract of a loop body: what it keeps for each row, and the fetches keep, the loops keep for every
  source.\<close>

locale row_body =
  fixes consume :: "HeuristicRow \<Rightarrow> (('r, 'h) Session, unit) action"
    and P :: "('r, 'h) Session \<Rightarrow> bool" and ok :: "fetch \<Rightarrow> bool"
  assumes consume_keeps: "preserves P (consume row)"
    and fetch_keeps: "ok fetched \<Longrightarrow> preserves P (FetchRow fetched)"
begin

lemma internal_loop_keeps: "list_all ok rows \<Longrightarrow> preserves P (internal_loop consume maxrows i rows)"
proof (induction rows arbitrary: i)
  case (Cons fetched rest)
  then have "preserves P (bindS (FetchRow fetched) (\<lambda>row. bindS (consume row) (\<lambda>_. internal_loop consume maxrows (i + 1) rest)))"
    by (intro keeps consume_keeps fetch_keeps Cons.IH) simp_all
  then show ?case by (simp add: preserves_def)
qed (simp add: preserves_def)

lemma query_loop_keeps: "list_all ok rows \<Longrightarrow> preserves P (query_loop consume rows)"
proof (induction rows)
  case (Cons fetched rest)
  then have "preserves P (bindS (FetchRow fetched) (\<lambda>row. bindS (consume row) (\<lambda>_. query_loop consume rest)))"
    by (intro keeps consume_keeps fetch_keeps Cons.IH) simp_all
  then show ?case by (simp add: preserves_def)
qed (simp add: preserves_def)

end

lemma list_all_True [simp]: "list_all (\<lambda>_. True) xs"
  by (induction xs) simp_all

section \<open>Frames are restored\<close>

abbreviation frames_are :: "RoutingFrame list \<Rightarrow> ('r, 'h) Session \<Rightarrow> bool" where
  "frames_are F s \<equiv> ss_Frames s = F"

lemma frames_small [keeps]:
  "preserves (frames_are F) (TraceRow row d r)"
  "preserves (frames_are F) (SessionAddMatch n1 n2 ratio it c)"
  "preserves (frames_are F) (NameStartsWith pre site name)"
  "preserves (frames_are F) (CheckRatioCall prov row src)"
  "preserves (frames_are F) (PatchDiffHookCall hook row ratio)"
  "preserves (frames_are F) (StrOfEa ea)"
  "preserves (frames_are F) (FetchRow fetched)"
  by (auto simp: preserves_def FetchRow_def TraceRow_def modS_def SessionAddMatch_def NameStartsWith_def getS_def
      CheckRatioCall_def PatchDiffHookCall_def StrOfEa_def split: sum.splits prod.splits)

lemma CheckMatch_from_body:
  assumes "preserves P (CheckMatchBody prov hook row)" and "preserves P (TraceRow row Raised None)"
  shows "preserves P (CheckMatch prov hook row)"
  unfolding preserves_def
proof (intro allI impI)
  fix s assume "P s"
  obtain r s1 where body: "CheckMatchBody prov hook row s = (r, s1)" by force
  with assms(1) \<open>P s\<close> have "P s1" by (rule preservesD)
  with assms(2) show "P (snd (CheckMatch prov hook row s))"
    by (auto simp: CheckMatch_def body preserves_def split: sum.splits diff_error.splits)
qed

lemma frames_CheckMatchBody: "preserves (frames_are F) (CheckMatchBody prov hook row)"
  unfolding CheckMatchBody_def by (intro keeps)

lemma frames_CheckMatch [keeps]: "preserves (frames_are F) (CheckMatch prov hook row)"
  by (intro CheckMatch_from_body frames_CheckMatchBody keeps)

interpretation frames_int: row_body "consume_internal prov hook best part val u" "frames_are F" "\<lambda>_. True"
  for prov hook best part val u F
  by unfold_locales (auto simp: consume_internal_def Let_def intro!: keeps)

interpretation frames_query: row_body "consume_query prov hook category" "frames_are F" "\<lambda>_. True"
  for prov hook category F
  by unfold_locales (auto simp: consume_query_def intro!: keeps)

lemma with_frame_restores:
  assumes "preserves (frames_are (F @ [frame])) body" and "ss_Frames s = F"
  shows "ss_Frames (snd (with_frame frame body s)) = F"
proof -
  obtain r s1 where run: "body (s\<lparr>ss_Frames := F @ [frame]\<rparr>) = (r, s1)" by force
  then have "ss_Frames s1 = F @ [frame]"
    by (rule preservesD [OF assms(1), rotated]) simp
  with run assms(2) show ?thesis by (simp add: with_frame_def)
qed

section \<open>One row event per \<open>CheckMatch\<close>\<close>

definition row_events :: "TraceEvent list \<Rightarrow> nat" where
  "row_events tr = length (filter (\<lambda>e. case e of RowEvent _ _ _ _ \<Rightarrow> True | _ \<Rightarrow> False) tr)"

lemma CheckRatioCall_eq:
  "CheckRatioCall prov row src s =
     (fst (prov (ss_Ids s) (ss_Ratio s) row src), s\<lparr>ss_Ratio := snd (prov (ss_Ids s) (ss_Ratio s) row src)\<rparr>)"
  by (simp add: CheckRatioCall_def split_beta)

lemma PatchDiffHookCall_eq:
  "PatchDiffHookCall hook row ratio s =
     (fst (hook (ss_Ids s) (ss_Hook s) row ratio), s\<lparr>ss_Hook := snd (hook (ss_Ids s) (ss_Hook s) row ratio)\<rparr>)"
  by (simp add: PatchDiffHookCall_def split_beta)

lemmas check_match_steps =
  getS_def retS_def NameStartsWith_def TraceRow_def modS_def CheckRatioCall_eq PatchDiffHookCall_eq

lemma CheckMatchBody_trace:
  assumes "CheckMatchBody prov hook row s = (res, s')"
  shows "(case res of
            Inl e \<Rightarrow> ss_Trace s' = ss_Trace s
          | Inr None \<Rightarrow> \<exists>d r. ss_Trace s' = ss_Trace s @ [RowEvent (hr_Ea1 row) (hr_Ea2 row) d r] \<and>
               d \<in> {Nullsub, HasBest, HasBetter}
          | Inr (Some R) \<Rightarrow> ss_Trace s' = ss_Trace s @
               [RowEvent (hr_Ea1 row) (hr_Ea2 row) (AcceptedDecision (ss_Frames s) R) (Some R)])"
  using assms unfolding CheckMatchBody_def
  by (auto simp: bindS_eq check_match_steps split: if_splits)

text \<open>What is known when a row is accepted.\<close>

lemma CheckMatchBody_accept:
  assumes "CheckMatchBody prov hook row s = (Inr (Some R), s')"
  shows "\<not> HasBestMatch (ss_State s) (hr_Name1 row) (hr_Name2 row)"
    and "fst (prov (ss_Ids s) (ss_Ratio s) row Sql) = Inr R"
    and "HasBetterMatch (ss_Ids s) (ss_State s) (hr_Name1 row) (hr_Name2 row) R = Inr False"
    and "ss_Ids s' = ss_Ids s" and "ss_State s' = ss_State s"
    and "hr_Name1 row \<noteq> kNoneName" and "hr_Name2 row \<noteq> kNoneName"
  using assms unfolding CheckMatchBody_def
  by (auto simp: bindS_eq check_match_steps split: if_splits)

lemma CheckMatch_accept_iff:
  "CheckMatch prov hook row s = (Inr x, s') \<longleftrightarrow> CheckMatchBody prov hook row s = (Inr x, s')"
  by (auto simp: CheckMatch_def split: prod.splits sum.splits diff_error.splits)

section \<open>The effect of a row on the match state\<close>

text \<open>The match operations read only the name table.\<close>

lemma Names_only:
  assumes "Names ids' = Names ids"
  shows "NameText ids' = NameText ids" "NameKeyText ids' = NameKeyText ids"
    and "HasBetterMatch ids' = HasBetterMatch ids" "AddMatch ids' = AddMatch ids"
    and "cleanup_list ids' = cleanup_list ids" "Cleanup ids' = Cleanup ids"
proof -
  show text1: "NameText ids' = NameText ids" "NameKeyText ids' = NameKeyText ids"
    using assms by (auto simp: NameText_def NameKeyText_def fun_eq_iff)
  have sw: "StartsWith ids' = StartsWith ids" by (intro ext) (simp add: StartsWith_def text1)
  show better: "HasBetterMatch ids' = HasBetterMatch ids" by (intro ext) (simp only: HasBetterMatch_def sw)
  show "AddMatch ids' = AddMatch ids" by (intro ext) (simp only: AddMatch_def better)
  have key: "cleanup_key ids' = cleanup_key ids" by (intro ext) (simp add: cleanup_key_def text1)
  have "cleanup_list ids' items D E = cleanup_list ids items D E" for items D E
    by (induction items arbitrary: D E) (simp_all only: cleanup_list.simps key)
  then show list: "cleanup_list ids' = cleanup_list ids" by (simp add: fun_eq_iff)
  show "Cleanup ids' = Cleanup ids" by (intro ext) (simp only: Cleanup_def list)
qed

lemma ms_reach_Names: "ms_reach ids ms \<Longrightarrow> Names ids' = Names ids \<Longrightarrow> ms_reach ids' ms"
proof (induction rule: ms_reach.induct)
  case (add ms it ratio c ms' res)
  then show ?case using ms_reach.add [of ids' ms it ratio c ms' res] by (metis Names_only(4))
next
  case (cleanup ms ms')
  then show ?case using ms_reach.cleanup [of ids' ms ms'] by (metis Names_only(6))
qed (auto intro: ms_reach.intros)

text \<open>The match state does not notice that more names are interned.\<close>

definition names_le :: "Interners \<Rightarrow> Interners \<Rightarrow> bool" where
  "names_le ids ids' \<longleftrightarrow> (\<forall>i t. Interner_Text (Names ids) i = Inr t \<longrightarrow> Interner_Text (Names ids') i = Inr t)"

lemma names_le_text:
  assumes "names_le ids ids'"
  shows "NameText ids i = Inr t \<Longrightarrow> NameText ids' i = Inr t" and "NameKeyText ids i = Inr t \<Longrightarrow> NameKeyText ids' i = Inr t"
  using assms by (auto simp: names_le_def NameText_def NameKeyText_def split: if_splits)

lemma StartsWith_names_le:
  "names_le ids ids' \<Longrightarrow> StartsWith ids n pre site = Inr b \<Longrightarrow> StartsWith ids' n pre site = Inr b"
  by (auto simp: StartsWith_def RaiseStartsWithNone_def bindE_eq_Inr names_le_text split: if_splits)

lemma bindE_extend:
  assumes "bindE x f = Inr b" and "\<And>a. x = Inr a \<Longrightarrow> x' = Inr a" and "\<And>a. f a = Inr b \<Longrightarrow> f' a = Inr b"
  shows "bindE x' f' = Inr b"
  using assms by (cases x) simp_all

lemma if_extend:
  assumes "(if c then t else e) = Inr b" and "t = Inr b \<Longrightarrow> t' = Inr b" and "e = Inr b \<Longrightarrow> e' = Inr b"
  shows "(if c then t' else e') = Inr b"
  using assms by (cases c) simp_all

lemma HasBetterMatch_names_le:
  assumes le: "names_le ids ids'" and run: "HasBetterMatch ids ms n1 n2 r = Inr b"
  shows "HasBetterMatch ids' ms n1 n2 r = Inr b"
proof -
  have named: "(if sub1 then Inr False else bindE (StartsWith ids' n2 ''sub_'' ''D:1392'') (\<lambda>sub2. Inr (\<not> sub2))) = Inr c"
    if "(if sub1 then Inr False else bindE (StartsWith ids n2 ''sub_'' ''D:1392'') (\<lambda>sub2. Inr (\<not> sub2))) = Inr c" for sub1 c
    using that StartsWith_names_le [OF le] by (cases sub1) (auto elim!: bindE_extend)
  show ?thesis
    using run unfolding HasBetterMatch_def
    by (rule bindE_extend) (erule StartsWith_names_le [OF le], erule bindE_extend, erule named, assumption)
qed

lemma AddMatch_names_le:
  assumes "names_le ids ids'" and "AddMatch ids ms n1 n2 r it c = Inr x"
  shows "AddMatch ids' ms n1 n2 r it c = Inr x"
proof -
  let ?r = "if n1 = n2 then 1 else r"
  from assms(2) obtain better where b: "(if ?r \<noteq> 1 then HasBetterMatch ids ms n1 n2 ?r else Inr False) = Inr better"
    unfolding AddMatch_def Let_def bindE_eq_Inr by blast
  then have "(if ?r \<noteq> 1 then HasBetterMatch ids' ms n1 n2 ?r else Inr False) = Inr better"
    using HasBetterMatch_names_le [OF assms(1)] by (simp split: if_splits)
  then show ?thesis using assms(2) b unfolding AddMatch_def Let_def by (simp only: bindE_Inr)
qed

lemma cleanup_list_names_le:
  "cleanup_list ids items D E = Inr x \<Longrightarrow> names_le ids ids' \<Longrightarrow> cleanup_list ids' items D E = Inr x"
proof (induction items arbitrary: D E x)
  case (Cons it items)
  have key: "cleanup_key ids' it = Inr k" if "cleanup_key ids it = Inr k" for k
    using that names_le_text(2) [OF Cons.prems(2)] unfolding cleanup_key_def by (auto simp: bindE_eq_Inr)
  note rest = Cons.IH [OF _ Cons.prems(2)]
  from Cons.prems(1) show ?case
    unfolding cleanup_list.simps
    by (elim bindE_extend) (erule key, unfold Let_def, elim if_extend, (erule rest | erule bindE_extend | assumption)+)
qed simp

lemma Cleanup_names_le:
  assumes le: "names_le ids ids'" and run: "Cleanup ids ms = Inr ms'"
  shows "Cleanup ids' ms = Inr ms'"
proof -
  note step = cleanup_list_names_le [OF _ le]
  from run obtain o1 D1 E1 o2 D2 E2 o3 D3 E3
    where 1: "cleanup_list ids (SortDescending (ms_Lists ms Best)) [] [] = Inr (o1, D1, E1)"
      and 2: "cleanup_list ids (SortDescending (ms_Lists ms Partial)) D1 E1 = Inr (o2, D2, E2)"
      and 3: "cleanup_list ids (SortDescending (ms_Lists ms Unreliable)) D2 E2 = Inr (o3, D3, E3)"
    unfolding Cleanup_def bindE_eq_Inr by (auto simp only: split_paired_Ex prod.case bindE_eq_Inr)
  from run show ?thesis unfolding Cleanup_def by (simp only: 1 2 3 step [OF 1] step [OF 2] step [OF 3] bindE_Inr prod.case)
qed

lemma ms_reach_names_le: "ms_reach ids ms \<Longrightarrow> names_le ids ids' \<Longrightarrow> ms_reach ids' ms"
proof (induction rule: ms_reach.induct)
  case (add ms it ratio c ms' res)
  then show ?case using ms_reach.add AddMatch_names_le by blast
next
  case (cleanup ms ms')
  then show ?case using ms_reach.cleanup Cleanup_names_le by blast
qed (auto intro: ms_reach.intros)

lemma StrOfEa_state:
  "StrOfEa ea s = (r, s') \<Longrightarrow>
     ss_State s' = ss_State s \<and> Names (ss_Ids s') = Names (ss_Ids s) \<and> ss_Ratio s' = ss_Ratio s"
  by (auto simp: StrOfEa_def AddrOf_def split: if_splits prod.splits)

lemma CheckMatchBody_state:
  assumes "CheckMatchBody prov hook row s = (res, s')"
  shows "ss_Ids s' = ss_Ids s \<and> ss_State s' = ss_State s \<and>
    (ss_Ratio s' = ss_Ratio s \<or> ss_Ratio s' = snd (prov (ss_Ids s) (ss_Ratio s) row Sql))"
  using assms unfolding CheckMatchBody_def
  by (auto simp: bindS_eq check_match_steps split: if_splits)

lemma TraceRow_state [simp]:
  "ss_Ids (snd (TraceRow row d r s)) = ss_Ids s" "ss_State (snd (TraceRow row d r s)) = ss_State s"
  "ss_Ratio (snd (TraceRow row d r s)) = ss_Ratio s" "ss_Frames (snd (TraceRow row d r s)) = ss_Frames s"
  by (simp_all add: TraceRow_def modS_def)

lemma CheckMatch_state:
  assumes "CheckMatch prov hook row s = (res, s')"
  shows "ss_Ids s' = ss_Ids s \<and> ss_State s' = ss_State s \<and>
    (ss_Ratio s' = ss_Ratio s \<or> ss_Ratio s' = snd (prov (ss_Ids s) (ss_Ratio s) row Sql))"
proof -
  obtain r s1 where body: "CheckMatchBody prov hook row s = (r, s1)" by force
  from assms body have "s' = s1 \<or> s' = snd (TraceRow row Raised None s1)"
    by (auto simp: CheckMatch_def split: sum.splits diff_error.splits)
  with CheckMatchBody_state [OF body] show ?thesis by auto
qed

lemma SessionAddMatch_state:
  assumes "SessionAddMatch n1 n2 ratio it c s = (r, s')"
  shows "ss_Ids s' = ss_Ids s \<and> ss_Ratio s' = ss_Ratio s \<and>
    (ss_State s' = ss_State s \<or>
     (\<exists>res. AddMatch (ss_Ids s) (ss_State s) n1 n2 ratio it c = Inr (ss_State s', res)))"
  using assms by (auto simp: SessionAddMatch_def split: sum.splits)

text \<open>The routing of \<^verbatim>\<open>AddMatchesInternalImpl\<close>: which chooser an accepted ratio goes to.\<close>

definition routed :: "Chooser \<Rightarrow> Chooser option \<Rightarrow> double option \<Rightarrow> bool \<Rightarrow> double \<Rightarrow> Chooser option" where
  "routed best part val u R =
     (let v = (case val of Some v \<Rightarrow> v | None \<Rightarrow> kDefaultPartialRatio) in
      if R = 1 then Some best
      else if R \<ge> v \<and> part \<noteq> None then part
      else if R < kDefaultPartialRatio \<and> R > v \<and> u then Some Unreliable
      else None)"

definition added_item :: "HeuristicRow \<Rightarrow> double \<Rightarrow> Item \<Rightarrow> bool" where
  "added_item row R it \<longleftrightarrow> it_Name1 it = hr_Name1 row \<and> it_Name2 it = hr_Name2 row \<and>
     it_Ea2 it = hr_Ea2 row \<and> it_Desc it = hr_Desc row \<and> it_Ratio it = R \<and>
     hr_Nodes1 row = Some (it_Nodes1 it) \<and> hr_Nodes2 row = Some (it_Nodes2 it)"

definition row_effect ::
  "'r provider \<Rightarrow> HeuristicRow \<Rightarrow> (double \<Rightarrow> double) \<Rightarrow> (double \<Rightarrow> Chooser option) \<Rightarrow> ('r, 'h) Session \<Rightarrow> ('r, 'h) Session \<Rightarrow> bool" where
  "row_effect prov row stored route s s' \<longleftrightarrow>
     Names (ss_Ids s') = Names (ss_Ids s) \<and>
     (ss_Ratio s' = ss_Ratio s \<or> ss_Ratio s' = snd (prov (ss_Ids s) (ss_Ratio s) row Sql)) \<and>
     (ss_State s' = ss_State s \<or>
      (\<exists>R it c res. fst (prov (ss_Ids s) (ss_Ratio s) row Sql) = Inr R \<and> added_item row (stored R) it \<and>
         HasBetterMatch (ss_Ids s) (ss_State s) (hr_Name1 row) (hr_Name2 row) R = Inr False \<and>
         route R = Some c \<and>
         AddMatch (ss_Ids s) (ss_State s) (hr_Name1 row) (hr_Name2 row) (stored R) it (Some c)
           = Inr (ss_State s', res)))"

lemma IntOfNodes_Inr: "IntOfNodes nodes site = Inr n \<longleftrightarrow> nodes = Some n"
  by (auto simp: IntOfNodes_def split: option.splits)

lemma row_effectI:
  assumes "CheckMatch prov hook row s = (Inr (Some R), s1)" and "StrOfEa (hr_Ea1 row) s1 = (x, s2)"
    and "ss_State s' = ss_State s2 \<and> ss_Ids s' = ss_Ids s2 \<and> ss_Ratio s' = ss_Ratio s2 \<or>
         SessionAddMatch (hr_Name1 row) (hr_Name2 row) (stored R) it (Some c) s2 = (r, s') \<and>
         added_item row (stored R) it \<and> route R = Some c"
  shows "row_effect prov row stored route s s'"
proof -
  note s1 = CheckMatch_state [OF assms(1)] and s2 = StrOfEa_state [OF assms(2)]
  note acc = CheckMatchBody_accept [OF assms(1) [unfolded CheckMatch_accept_iff]]
  from s1 s2 have "Names (ss_Ids s2) = Names (ss_Ids s)" by simp
  then have add: "AddMatch (ss_Ids s2) = AddMatch (ss_Ids s)" by (rule Names_only)
  from assms(3) show ?thesis
  proof
    assume "SessionAddMatch (hr_Name1 row) (hr_Name2 row) (stored R) it (Some c) s2 = (r, s') \<and>
         added_item row (stored R) it \<and> route R = Some c"
    then show ?thesis
      using SessionAddMatch_state [of "hr_Name1 row" "hr_Name2 row" "stored R" it "Some c" s2 r s'] s1 s2 acc add
      unfolding row_effect_def by auto
  qed (use s1 s2 in \<open>auto simp: row_effect_def\<close>)
qed

lemma row_effect_rejected:
  "CheckMatch prov hook row s = (r, s') \<Longrightarrow> row_effect prov row stored route s s'"
  by (drule CheckMatch_state) (auto simp: row_effect_def)

lemma consume_internal_effect:
  assumes run: "consume_internal prov hook best part val u row s = (r, s')"
  shows "row_effect prov row (\<lambda>R. R) (routed best part val u) s s'"
proof -
  obtain x s1 where cm: "CheckMatch prov hook row s = (x, s1)" by force
  show ?thesis
  proof (cases "\<exists>R. x = Inr (Some R)")
    case True
    then obtain R where R: "x = Inr (Some R)" by blast
    obtain y s2 where ea: "StrOfEa (hr_Ea1 row) s1 = (y, s2)" by force
    from run show ?thesis
      unfolding consume_internal_def
      by (auto simp: bindS_eq cm R ea getS_def retS_def Let_def IntOfNodes_Inr routed_def added_item_def
          split: if_splits option.splits
          intro: row_effect_rejected row_effectI [OF cm [unfolded R] ea])
  next
    case False
    with run cm have "s' = s1"
      by (auto simp: consume_internal_def bindS_eq retS_def split: option.splits)
    with cm show ?thesis by (auto intro: row_effect_rejected)
  qed
qed

lemma consume_query_effect:
  assumes run: "consume_query prov hook category row s = (r, s')"
  shows "row_effect prov row (\<lambda>_. 1) (\<lambda>_. Some category) s s'"
proof -
  obtain x s1 where cm: "CheckMatch prov hook row s = (x, s1)" by force
  show ?thesis
  proof (cases "\<exists>R. x = Inr (Some R)")
    case True
    then obtain R where R: "x = Inr (Some R)" by blast
    obtain y s2 where ea: "StrOfEa (hr_Ea1 row) s1 = (y, s2)" by force
    from run show ?thesis
      unfolding consume_query_def
      by (auto simp: bindS_eq cm R ea getS_def retS_def Let_def IntOfNodes_Inr added_item_def
          split: if_splits option.splits
          intro: row_effectI [OF cm [unfolded R] ea])
  next
    case False
    with run cm have "s' = s1"
      by (auto simp: consume_query_def bindS_eq retS_def split: option.splits)
    with cm show ?thesis by (auto intro: row_effect_rejected)
  qed
qed

lemma AddMatch_lists:
  assumes "AddMatch ids ms n1 n2 ratio it c = Inr (ms', res)"
  shows "ms_Lists ms' ch = ms_Lists ms ch \<or> c = Some ch \<and> ms_Lists ms' ch = ms_Lists ms ch @ [it]"
  using assms by (auto simp: AddMatch_def Let_def bindE_eq_Inr split: if_splits option.splits)

lemma row_effect_reach:
  assumes "ms_reach (ss_Ids s) (ss_State s)" and "row_effect prov row stored route s s'"
  shows "ms_reach (ss_Ids s') (ss_State s')"
proof -
  from assms(2) have "Names (ss_Ids s') = Names (ss_Ids s)" by (simp add: row_effect_def)
  moreover from assms have "ms_reach (ss_Ids s) (ss_State s')"
    unfolding row_effect_def added_item_def by (metis ms_reach.add)
  ultimately show ?thesis by (blast intro: ms_reach_Names)
qed

section \<open>The contract of a ratio provider\<close>

text \<open>A best item has ratio 1, a partial item a smaller one, and the unreliable list is empty: the
  default configuration. \<^verbatim>\<open>FinalPass.cpp\<close> relies on it.\<close>

definition ratios_ok :: "MatchState \<Rightarrow> bool" where
  "ratios_ok ms \<longleftrightarrow>
     (\<forall>it\<in>set (ms_Lists ms Best). it_Ratio it = 1) \<and>
     (\<forall>it\<in>set (ms_Lists ms Partial). it_Ratio it < 1) \<and>
     ms_Lists ms Unreliable = []"

lemma routed_default:
  "routed Best (Some Partial) val u R = Some c \<Longrightarrow> c = Best \<and> R = 1 \<or> c = Partial \<and> R \<noteq> 1"
  by (auto simp: routed_def Let_def split: if_splits)

text \<open>A fetch that only interns: known names keep their texts.\<close>

definition interns :: "fetch \<Rightarrow> bool" where
  "interns fetched \<longleftrightarrow> (\<forall>ids. names_le ids (snd (fetched ids)))"

locale ratio_provider =
  fixes prov :: "'r provider" and rinv :: "'r \<Rightarrow> bool"
  assumes prov_inv: "rinv r \<Longrightarrow> rinv (snd (prov ids r row src))"
    and prov_le_1: "rinv r \<Longrightarrow> fst (prov ids r row src) = Inr x \<Longrightarrow> x \<le> 1"
begin

definition session_ok :: "('r, 'h) Session \<Rightarrow> bool" where
  "session_ok s \<longleftrightarrow> ms_reach (ss_Ids s) (ss_State s) \<and> rinv (ss_Ratio s) \<and> ratios_ok (ss_State s)"

lemma row_effect_ok:
  assumes ok: "session_ok s" and eff: "row_effect prov row stored route s s'"
    and route: "\<And>R c. R \<le> 1 \<Longrightarrow> route R = Some c \<Longrightarrow> c = Best \<and> stored R = 1 \<or> c = Partial \<and> stored R < 1"
  shows "session_ok s'"
proof -
  have r: "rinv (ss_Ratio s')"
    using ok eff prov_inv unfolding row_effect_def session_ok_def by metis
  have "ratios_ok (ss_State s')"
  proof (cases "ss_State s' = ss_State s")
    case True
    with ok show ?thesis by (simp add: session_ok_def)
  next
    case False
    with eff obtain R it c res where R: "fst (prov (ss_Ids s) (ss_Ratio s) row Sql) = Inr R"
      and it: "it_Ratio it = stored R" and c: "route R = Some c"
      and add: "AddMatch (ss_Ids s) (ss_State s) (hr_Name1 row) (hr_Name2 row) (stored R) it (Some c)
                  = Inr (ss_State s', res)"
      unfolding row_effect_def added_item_def by blast
    from ok R have "R \<le> 1" unfolding session_ok_def by (blast intro: prov_le_1)
    from route [OF this c] it ok AddMatch_lists [OF add, of Best] AddMatch_lists [OF add, of Partial]
      AddMatch_lists [OF add, of Unreliable]
    show ?thesis unfolding session_ok_def ratios_ok_def by auto
  qed
  with r ok eff show ?thesis by (auto simp: session_ok_def intro: row_effect_reach)
qed

lemma consume_internal_ok: "preserves session_ok (consume_internal prov hook Best (Some Partial) val u row)"
  by (rule preservesI, erule row_effect_ok, erule consume_internal_effect) (auto dest: routed_default)

lemma consume_query_ok: "preserves session_ok (consume_query prov hook Best row)"
  by (rule preservesI, erule row_effect_ok, erule consume_query_effect) auto

lemma session_ok_frames [simp]: "session_ok (s\<lparr>ss_Frames := F\<rparr>) = session_ok s"
  by (simp add: session_ok_def)

lemma with_frame_ok: "preserves session_ok body \<Longrightarrow> preserves session_ok (with_frame frame body)"
  unfolding preserves_def with_frame_def by (auto split: prod.splits) (metis session_ok_frames snd_conv)

lemma FetchRow_ok: "interns fetched \<Longrightarrow> preserves session_ok (FetchRow fetched)"
  unfolding preserves_def FetchRow_def session_ok_def interns_def by (auto split: prod.splits) (metis ms_reach_names_le snd_conv)

lemma AddMatchesInternalImpl_ok:
  assumes "list_all interns rows"
  shows "preserves session_ok (AddMatchesInternalImpl prov hook rows Best (Some Partial) val u)"
  unfolding AddMatchesInternalImpl_def
proof (rule with_frame_ok)
  have "row_body (consume_internal prov hook Best (Some Partial) val u) session_ok interns"
    by unfold_locales (rule consume_internal_ok, rule FetchRow_ok)
  from row_body.internal_loop_keeps [OF this assms]
  show "preserves session_ok (\<lambda>s. internal_loop (consume_internal prov hook Best (Some Partial) val u)
      (ss_MaxProcessedRows s) 0 rows s)"
    unfolding preserves_def by blast
qed

lemma AddMatchesFromQuery_ok:
  assumes "list_all interns rows"
  shows "preserves session_ok (AddMatchesFromQuery prov hook rows Best)"
proof -
  have "row_body (consume_query prov hook Best) session_ok interns"
    by unfold_locales (rule consume_query_ok, rule FetchRow_ok)
  from row_body.query_loop_keeps [OF this assms]
  have loop: "preserves session_ok (query_loop (consume_query prov hook Best) rows)" .
  have "preserves session_ok (\<lambda>s. case query_loop (consume_query prov hook Best) rows s of
                    (Inl (DiaphoraWouldRaise site detail), s1) \<Rightarrow> (Inr (), s1)
                  | other \<Rightarrow> other)"
    unfolding preserves_def
    using preservesD [OF loop] by (auto split: prod.splits sum.splits diff_error.splits)
  from with_frame_ok [OF this] show ?thesis
    by (simp add: AddMatchesFromQuery_def preserves_def)
qed

end

section \<open>Accepted rows are never rejected later\<close>

definition rejections :: "TraceEvent list \<Rightarrow> nat" where
  "rejections tr = length (filter (\<lambda>e. case e of AddMatchEvent _ _ _ _ _ RejectedBetter \<Rightarrow> True | _ \<Rightarrow> False) tr)"

abbreviation rejections_are :: "nat \<Rightarrow> ('r, 'h) Session \<Rightarrow> bool" where
  "rejections_are k s \<equiv> rejections (ss_Trace s) = k"

lemma rejections_append [simp]: "rejections (tr @ tr') = rejections tr + rejections tr'"
  by (simp add: rejections_def)

lemma rejections_events [simp]:
  "rejections [RowEvent a b d r] = 0" "rejections [] = 0"
  "rejections [AddMatchEvent n1 n2 q it c res] = (if res = RejectedBetter then 1 else 0)"
  by (auto simp: rejections_def split: AddMatchResult.splits)

lemma CheckMatchBody_rejections: "preserves (rejections_are k) (CheckMatchBody prov hook row)"
  by (rule preservesI, drule CheckMatchBody_trace) (auto split: sum.splits option.splits)

lemma CheckMatch_rejections: "preserves (rejections_are k) (CheckMatch prov hook row)"
  by (rule CheckMatch_from_body [OF CheckMatchBody_rejections]) (simp add: preserves_def TraceRow_def modS_def)

lemma AddMatch_not_rejected:
  assumes "HasBetterMatch ids ms n1 n2 R = Inr False" and "q = R \<or> q = 1"
  shows "AddMatch ids ms n1 n2 q it c \<noteq> Inr (ms', RejectedBetter)"
  using assms by (auto simp: AddMatch_def Let_def bindE_eq_Inr split: if_splits)

lemma StrOfEa_trace: "StrOfEa ea s = (r, s') \<Longrightarrow> ss_Trace s' = ss_Trace s"
  by (auto simp: StrOfEa_def split: if_splits prod.splits)

lemma add_after_accept:
  assumes cm: "CheckMatch prov hook row s = (Inr (Some R), s1)" and ea: "StrOfEa a s1 = (y, s2)"
    and q: "q = R \<or> q = 1"
    and add: "SessionAddMatch (hr_Name1 row) (hr_Name2 row) q it c s2 = (r, s')"
  shows "rejections (ss_Trace s') = rejections (ss_Trace s)"
proof -
  note acc = CheckMatchBody_accept [OF cm [unfolded CheckMatch_accept_iff]]
  have "Names (ss_Ids s2) = Names (ss_Ids s)" "ss_State s2 = ss_State s"
    using acc(4,5) StrOfEa_state [OF ea] by simp_all
  with acc(3) have "HasBetterMatch (ss_Ids s2) (ss_State s2) (hr_Name1 row) (hr_Name2 row) R = Inr False"
    by (metis Names_only(3))
  note no = AddMatch_not_rejected [OF this q]
  have "rejections (ss_Trace s2) = rejections (ss_Trace s)"
    using preservesD [OF CheckMatch_rejections refl cm] StrOfEa_trace [OF ea] by simp
  with add no show ?thesis by (auto simp: SessionAddMatch_def split: sum.splits)
qed

lemma consume_internal_rejections: "preserves (rejections_are k) (consume_internal prov hook best part val u row)"
proof (rule preservesI)
  fix s r s'
  assume k: "rejections_are k s" and run: "consume_internal prov hook best part val u row s = (r, s')"
  obtain x s1 where cm: "CheckMatch prov hook row s = (x, s1)" by force
  have s1: "rejections_are k s1" by (rule preservesD [OF CheckMatch_rejections k cm])
  show "rejections_are k s'"
  proof (cases "\<exists>R. x = Inr (Some R)")
    case True
    then obtain R where R: "x = Inr (Some R)" by blast
    obtain y s2 where ea: "StrOfEa (hr_Ea1 row) s1 = (y, s2)" by force
    from run have "s' = s2 \<or> (\<exists>it c. SessionAddMatch (hr_Name1 row) (hr_Name2 row) R it c s2 = (r, s'))"
      unfolding consume_internal_def
      by (auto simp: bindS_eq cm R ea getS_def retS_def Let_def split: if_splits)
    then show ?thesis
    proof (elim disjE exE)
      assume "s' = s2"
      with s1 StrOfEa_trace [OF ea] show ?thesis by simp
    next
      fix it c
      assume add: "SessionAddMatch (hr_Name1 row) (hr_Name2 row) R it c s2 = (r, s')"
      from add_after_accept [OF cm [unfolded R] ea disjI1 [OF refl] add] k show ?thesis by simp
    qed
  next
    case False
    with run cm have "s' = s1"
      by (auto simp: consume_internal_def bindS_eq retS_def split: option.splits)
    with s1 show ?thesis by simp
  qed
qed

interpretation rej_int: row_body "consume_internal prov hook best part val u" "rejections_are k" "\<lambda>_. True"
  for prov hook best part val u k
  by unfold_locales (rule consume_internal_rejections, simp add: preserves_def FetchRow_def split_beta)

section \<open>The row cap\<close>

lemma internal_loop_cap:
  "internal_loop consume maxrows i rows s = internal_loop consume maxrows i (take (nat (maxrows - i)) rows) s"
proof (induction rows arbitrary: i s)
  case (Cons fetched rest)
  show ?case
  proof (cases "maxrows \<noteq> 0 \<and> i < maxrows")
    case True
    then have "nat (maxrows - i) = Suc (nat (maxrows - (i + 1)))" by linarith
    moreover have "internal_loop consume maxrows (i + 1) rest =
        internal_loop consume maxrows (i + 1) (take (nat (maxrows - (i + 1))) rest)"
      using Cons.IH by (intro ext)
    ultimately show ?thesis using True by simp
  qed (cases "nat (maxrows - i)"; auto)
qed simp

section \<open>Properties of the consumers\<close>

text \<open>\<^verbatim>\<open>CheckMatch\<close> never changes the match state and writes exactly one row event: a
  rejection reason, the decision the caller's routing gives the accepted ratio, or \<^verbatim>\<open>raised\<close>
  when Diaphora would raise; a native refusal writes none.\<close>

lemma check_match_one_row_event:
  "case CheckMatch prov hook row s of (res, s') \<Rightarrow>
     ss_State s' = ss_State s \<and> ss_Frames s' = ss_Frames s \<and>
     (case res of
        Inr (Some R) \<Rightarrow> ss_Trace s' = ss_Trace s @
          [RowEvent (hr_Ea1 row) (hr_Ea2 row) (AcceptedDecision (ss_Frames s) R) (Some R)]
      | Inr None \<Rightarrow> \<exists>d r. ss_Trace s' = ss_Trace s @ [RowEvent (hr_Ea1 row) (hr_Ea2 row) d r] \<and>
          d \<in> {Nullsub, HasBest, HasBetter}
      | Inl (DiaphoraWouldRaise site detail) \<Rightarrow>
          ss_Trace s' = ss_Trace s @ [RowEvent (hr_Ea1 row) (hr_Ea2 row) Raised None]
      | Inl _ \<Rightarrow> ss_Trace s' = ss_Trace s)"
proof -
  obtain res s' where run: "CheckMatch prov hook row s = (res, s')" by force
  obtain r s1 where body: "CheckMatchBody prov hook row s = (r, s1)" by force
  have "ss_Frames s' = ss_Frames s" by (rule preservesD [OF frames_CheckMatch refl run])
  with CheckMatch_state [OF run] CheckMatchBody_trace [OF body] run body show ?thesis
    by (auto simp: CheckMatch_def TraceRow_def modS_def split: sum.splits option.splits diff_error.splits)
qed

text \<open>C10. A row that \<^verbatim>\<open>CheckMatch\<close> accepted is never turned away by the second
  \<^verbatim>\<open>has_better_match\<close> test inside \<^verbatim>\<open>AddMatch\<close>: no ratio consumer ever produces a
  \<^verbatim>\<open>rejected_better\<close> event, whatever the rows, the ratio provider and the hook.\<close>

theorem consumers_never_reject_accepted:
  "rejections (ss_Trace (snd (AddMatchesInternalImpl prov hook rows best part val u s))) = rejections (ss_Trace s)"
proof -
  let ?frame = "\<lparr>rf_Which = Internal, rf_Partial = part, rf_Val = val, rf_UnreliableGiven = u\<rparr>"
  let ?s = "s\<lparr>ss_Frames := ss_Frames s @ [?frame]\<rparr>"
  have "rejections (ss_Trace (snd (internal_loop (consume_internal prov hook best part val u)
          (ss_MaxProcessedRows s) 0 rows ?s))) = rejections (ss_Trace s)"
    by (rule rej_int.internal_loop_keeps [OF list_all_True, unfolded preserves_def, rule_format]) simp
  then show ?thesis
    by (simp add: AddMatchesInternalImpl_def with_frame_def split_beta)
qed

text \<open>C11. The row cap: the ratio consumers read at most \<^verbatim>\<open>MaxProcessedRows\<close> rows (rejected
  ones count), so rows behind the cap, and errors fetching them, have no effect.\<close>

theorem row_cap:
  "AddMatchesInternalImpl prov hook rows best part val u s =
   AddMatchesInternalImpl prov hook (take (nat (ss_MaxProcessedRows s)) rows) best part val u s"
  unfolding AddMatchesInternalImpl_def with_frame_def
  by (subst internal_loop_cap) simp

text \<open>C12. The routing scope is balanced and errors are contained: after
  \<^verbatim>\<open>AddMatchesFromQuery\<close> the frame stack is what it was before, and a Python exception while
  fetching or consuming a row never leaves it; other errors do.\<close>

theorem query_consumer_contains_raises:
  "ss_Frames (snd (AddMatchesFromQuery prov hook rows category s)) = ss_Frames s \<and>
   fst (AddMatchesFromQuery prov hook rows category s) \<noteq> Inl (DiaphoraWouldRaise site detail)"
proof (cases "AllFunctionsMatched (ss_State s)")
  case False
  let ?frame = "\<lparr>rf_Which = FromQuery, rf_Partial = None, rf_Val = None, rf_UnreliableGiven = False\<rparr>"
  let ?body = "\<lambda>s. case query_loop (consume_query prov hook category) rows s of
                    (Inl (DiaphoraWouldRaise site detail), s1) \<Rightarrow> (Inr (), s1)
                  | other \<Rightarrow> other"
  have "preserves (frames_are (ss_Frames s @ [?frame])) ?body"
    unfolding preserves_def
    using preservesD [OF frames_query.query_loop_keeps [OF list_all_True]]
    by (auto split: prod.splits sum.splits diff_error.splits)
  then have "ss_Frames (snd (with_frame ?frame ?body s)) = ss_Frames s"
    by (rule with_frame_restores) simp
  moreover have "fst (with_frame ?frame ?body s) \<noteq> Inl (DiaphoraWouldRaise site detail)"
    by (auto simp: with_frame_def split: prod.splits sum.splits diff_error.splits)
  ultimately show ?thesis using False by (simp add: AddMatchesFromQuery_def)
qed (simp add: AddMatchesFromQuery_def)

end
