(* ===== verification/FinalPass.thy ===== *)
theory FinalPass
  imports Consuming
begin

text \<open>
  The last two stages: \<^verbatim>\<open>StageFinalPass\<close> (\<^verbatim>\<open>src/diff/FinalPass.cpp\<close>), which resolves
  multiple matches by address and fills the result choosers, and \<^verbatim>\<open>StageFindUnmatched\<close>
  (\<^verbatim>\<open>src/diff/Unmatched.cpp\<close>). \<^verbatim>\<open>DiffSession::Cleanup\<close> and
  \<^verbatim>\<open>DiffSession::Point\<close> (\<^verbatim>\<open>src/diff/Pipeline.cpp\<close>) are modelled with their counters
  and trace events, for a session that writes no snapshot files.
\<close>

section \<open>\<open>DiffSession::Point\<close> and \<open>DiffSession::Cleanup\<close>\<close>

datatype CleanupSite = L1551 | L2945 | L3185 | L3217 | L3340 | L3413 | L3471 | L3655 | L3671

definition site_line :: "CleanupSite \<Rightarrow> nat" where
  "site_line site =
     (case site of L1551 \<Rightarrow> 1551 | L2945 \<Rightarrow> 2945 | L3185 \<Rightarrow> 3185 | L3217 \<Rightarrow> 3217 | L3340 \<Rightarrow> 3340
      | L3413 \<Rightarrow> 3413 | L3471 \<Rightarrow> 3471 | L3655 \<Rightarrow> 3655 | L3671 \<Rightarrow> 3671)"

definition list_sizes :: "MatchState \<Rightarrow> nat \<times> nat \<times> nat" where
  "list_sizes ms = (length (ms_Lists ms Best), length (ms_Lists ms Partial), length (ms_Lists ms Unreliable))"

definition Point :: "string \<Rightarrow> (('r, 'h) Session, unit) action" where
  "Point name = modS (\<lambda>s. case list_sizes (ss_State s) of (b, p, u) \<Rightarrow>
     s\<lparr>ss_PointSeq := ss_PointSeq s + 1, ss_Trace := ss_Trace s @ [PointEvent name b p u]\<rparr>)"

definition BumpCleanup :: "nat \<Rightarrow> (('r, 'h) Session, int) action" where
  "BumpCleanup line s =
     (let n = (case map_of (ss_CleanupCounters s) line of Some k \<Rightarrow> k | None \<Rightarrow> 0) + 1
      in (Inr n, s\<lparr>ss_CleanupCounters := AList.update line n (ss_CleanupCounters s)\<rparr>))"

definition StateCleanup :: "(('r, 'h) Session, unit) action" where
  "StateCleanup s =
     (case Cleanup (ss_Ids s) (ss_State s) of Inl e \<Rightarrow> (Inl e, s) | Inr ms \<Rightarrow> (Inr (), s\<lparr>ss_State := ms\<rparr>))"

definition SessionCleanup :: "CleanupSite \<Rightarrow> (('r, 'h) Session, unit) action" where
  "SessionCleanup site =
     bindS (BumpCleanup (site_line site)) (\<lambda>n.
     let suffix = ''cleanup:'' @ dec_nat (site_line site) @ '':'' @ dec_int n in
     bindS (Point (''before:'' @ suffix)) (\<lambda>_.
     bindS StateCleanup (\<lambda>_.
     bindS (modS (\<lambda>s. case list_sizes (ss_State s) of (b, p, u) \<Rightarrow>
              s\<lparr>ss_Trace := ss_Trace s @ [CleanupEvent (site_line site) n b p u]\<rparr>)) (\<lambda>_.
     Point (''after:'' @ suffix)))))"

section \<open>\<open>StageFinalPass\<close>\<close>

record MultiDict =
  md_Order :: "AddrId list"
  md_Map :: "(AddrId \<times> Item list) list"

definition empty_MultiDict :: MultiDict where
  "empty_MultiDict = \<lparr>md_Order = [], md_Map = []\<rparr>"

definition MultiDict_Append :: "MultiDict \<Rightarrow> AddrId \<Rightarrow> Item \<Rightarrow> MultiDict" where
  "MultiDict_Append d ea it =
     (case map_of (md_Map d) ea of
        None \<Rightarrow> \<lparr>md_Order = md_Order d @ [ea], md_Map = AList.update ea [it] (md_Map d)\<rparr>
      | Some items \<Rightarrow> d\<lparr>md_Map := AList.update ea (items @ [it]) (md_Map d)\<rparr>)"

definition EaPairKey :: "Interners \<Rightarrow> AddrId \<Rightarrow> AddrId \<Rightarrow> string result" where
  "EaPairKey ids ea1 ea2 =
     bindE (AddrKeyText ids ea1) (\<lambda>a. bindE (AddrKeyText ids ea2) (\<lambda>b. Inr (a @ ''-'' @ b)))"

text \<open>The chooser lists of \<^verbatim>\<open>S.Final()\<close> that receive items.\<close>

datatype FinalList = FinalOf Chooser | FinalMultimatch

definition push_final :: "FinalList \<Rightarrow> Item \<Rightarrow> FinalResults \<Rightarrow> FinalResults" where
  "push_final target it fr =
     (case target of
        FinalOf Best \<Rightarrow> fr\<lparr>fr_Best := fr_Best fr @ [it]\<rparr>
      | FinalOf Partial \<Rightarrow> fr\<lparr>fr_Partial := fr_Partial fr @ [it]\<rparr>
      | FinalOf Unreliable \<Rightarrow> fr\<lparr>fr_Unreliable := fr_Unreliable fr @ [it]\<rparr>
      | FinalMultimatch \<Rightarrow> fr\<lparr>fr_Multimatch := fr_Multimatch fr @ [it]\<rparr>)"

definition AddChooserItem :: "FinalList \<Rightarrow> Item \<Rightarrow> (('r, 'h) Session, unit) action" where
  "AddChooserItem target it =
     bindS (getS (\<lambda>s. RequirePyInt (ss_Ids s) (it_Ea1 it) ''D:286'')) (\<lambda>_.
     bindS (getS (\<lambda>s. RequirePyInt (ss_Ids s) (it_Ea2 it) ''D:288'')) (\<lambda>_.
     modS (\<lambda>s. s\<lparr>ss_Final := push_final target it (ss_Final s)\<rparr>)))"

text \<open>The inner loop over the items of one address, and the loop over the addresses.\<close>

fun add_multi_items ::
  "AddrId \<Rightarrow> Item list \<Rightarrow> AddrId list \<times> string list \<Rightarrow> (('r, 'h) Session, AddrId list \<times> string list) action" where
  "add_multi_items ea [] acc = retS acc"
| "add_multi_items ea (it # items) (ignore, dones) =
     bindS (getS (\<lambda>s. EaPairKey (ss_Ids s) (it_Ea1 it) (it_Ea2 it))) (\<lambda>key.
     if key \<notin> set dones
     then bindS (AddChooserItem FinalMultimatch it) (\<lambda>_.
          add_multi_items ea items (List.insert ea ignore, key # dones))
     else add_multi_items ea items (ignore, dones))"

definition md_at :: "MultiDict \<Rightarrow> AddrId \<Rightarrow> Item list result" where
  "md_at d ea = (case map_of (md_Map d) ea of Some items \<Rightarrow> Inr items | None \<Rightarrow> Inl (StdException ''out_of_range''))"

fun add_multi_groups ::
  "MultiDict \<Rightarrow> AddrId list \<Rightarrow> AddrId list \<times> string list \<Rightarrow> (('r, 'h) Session, AddrId list \<times> string list) action" where
  "add_multi_groups d [] acc = retS acc"
| "add_multi_groups d (ea # eas) acc =
     bindS (getS (\<lambda>s. md_at d ea)) (\<lambda>items.
     bindS (if length items > 1 then add_multi_items ea items acc else retS acc) (\<lambda>acc1.
     add_multi_groups d eas acc1))"

definition AddMultimatchesToChooser ::
  "MultiDict \<Rightarrow> AddrId list \<times> string list \<Rightarrow> (('r, 'h) Session, AddrId list \<times> string list) action" where
  "AddMultimatchesToChooser d = add_multi_groups d (md_Order d)"

text \<open>One visit of a running maximum: \<^verbatim>\<open>try_emplace\<close>, the comparison that skips the rest of
  the iteration (\<open>None\<close>), and the store.\<close>

definition raise_max :: "(AddrId \<times> double) list \<Rightarrow> AddrId \<Rightarrow> double \<Rightarrow> (AddrId \<times> double) list option" where
  "raise_max m ea ratio =
     (let cur = (case map_of m ea of Some r \<Rightarrow> r | None \<Rightarrow> ratio)
      in if cur > ratio then None else Some (AList.update ea ratio m))"

record FinalScan =
  fs_Dones :: "string list"
  fs_MaxMain :: "(AddrId \<times> double) list"
  fs_MaxDiff :: "(AddrId \<times> double) list"
  fs_MultiMain :: MultiDict
  fs_MultiDiff :: MultiDict

definition empty_FinalScan :: FinalScan where
  "empty_FinalScan = \<lparr>fs_Dones = [], fs_MaxMain = [], fs_MaxDiff = [],
     fs_MultiMain = empty_MultiDict, fs_MultiDiff = empty_MultiDict\<rparr>"

definition scan_new :: "Item \<Rightarrow> FinalScan \<Rightarrow> FinalScan" where
  "scan_new it sc =
     (case raise_max (fs_MaxMain sc) (it_Ea1 it) (it_Ratio it) of
        None \<Rightarrow> sc
      | Some mm \<Rightarrow>
          (let sc1 = sc\<lparr>fs_MaxMain := mm, fs_MultiMain := MultiDict_Append (fs_MultiMain sc) (it_Ea1 it) it\<rparr>
           in case raise_max (fs_MaxDiff sc1) (it_Ea2 it) (it_Ratio it) of
                None \<Rightarrow> sc1
              | Some md \<Rightarrow>
                  sc1\<lparr>fs_MaxDiff := md, fs_MultiDiff := MultiDict_Append (fs_MultiDiff sc1) (it_Ea2 it) it\<rparr>))"

fun find_multimatches :: "Interners \<Rightarrow> Item list \<Rightarrow> FinalScan \<Rightarrow> FinalScan result" where
  "find_multimatches ids [] sc = Inr sc"
| "find_multimatches ids (it # items) sc =
     bindE (EaPairKey ids (it_Ea1 it) (it_Ea2 it)) (\<lambda>key.
     if key \<in> set (fs_Dones sc) then find_multimatches ids items sc
     else find_multimatches ids items (scan_new it (sc\<lparr>fs_Dones := key # fs_Dones sc\<rparr>)))"

text \<open>\<^verbatim>\<open>throw DiaphoraWouldRaise(site, std::string(Ids.AddrKeyText(Ea)))\<close>.\<close>

definition raise_KeyError :: "string \<Rightarrow> AddrId \<Rightarrow> (('r, 'h) Session, 'a) action" where
  "raise_KeyError site ea =
     getS (\<lambda>s. bindE (AddrKeyText (ss_Ids s) ea) (\<lambda>t. Inl (DiaphoraWouldRaise site t)))"

definition final_item ::
  "FinalScan \<Rightarrow> AddrId list \<Rightarrow> AddrId list \<Rightarrow> Chooser \<Rightarrow> Item \<Rightarrow> (('r, 'h) Session, unit) action" where
  "final_item sc ignore_main ignore_diff category it =
     (if it_Ea1 it \<in> set ignore_main \<or> it_Ea2 it \<in> set ignore_diff then retS ()
      else case map_of (fs_MaxMain sc) (it_Ea1 it) of
        None \<Rightarrow> raise_KeyError ''D:2931 KeyError'' (it_Ea1 it)
      | Some mm \<Rightarrow>
          if it_Ratio it < mm then retS ()
          else case map_of (fs_MaxDiff sc) (it_Ea2 it) of
            None \<Rightarrow> raise_KeyError ''D:2933 KeyError'' (it_Ea2 it)
          | Some md \<Rightarrow>
              if it_Ratio it < md then retS ()
              else AddChooserItem (FinalOf category) it)"

fun final_items ::
  "FinalScan \<Rightarrow> AddrId list \<Rightarrow> AddrId list \<Rightarrow> (Chooser \<times> Item) list \<Rightarrow> (('r, 'h) Session, unit) action" where
  "final_items sc im id' [] = retS ()"
| "final_items sc im id' ((c, it) # rest) =
     bindS (final_item sc im id' c it) (\<lambda>_. final_items sc im id' rest)"

text \<open>The items the two passes visit: the sorted lists of the three categories, in this order.\<close>

definition visited :: "MatchState \<Rightarrow> (Chooser \<times> Item) list" where
  "visited ms = concat (map (\<lambda>c. map (Pair c) (SortedResults ms c)) [Best, Partial, Unreliable])"

definition StageFinalPass :: "(('r, 'h) Session, unit) action" where
  "StageFinalPass =
     bindS (SessionCleanup L2945) (\<lambda>_.
     bindS (getS (\<lambda>s. find_multimatches (ss_Ids s) (map snd (visited (ss_State s))) empty_FinalScan)) (\<lambda>sc.
     bindS (AddMultimatchesToChooser (fs_MultiMain sc) ([], [])) (\<lambda>(ignore_main, dones).
     bindS (AddMultimatchesToChooser (fs_MultiDiff sc) ([], dones)) (\<lambda>(ignore_diff, _).
     bindS (getS (\<lambda>s. Inr (visited (ss_State s)))) (\<lambda>items.
     final_items sc ignore_main ignore_diff items)))))"

section \<open>Maxima per address\<close>

abbreviation ea_pair :: "Item \<Rightarrow> AddrId \<times> AddrId" where
  "ea_pair it \<equiv> (it_Ea1 it, it_Ea2 it)"

text \<open>The items of \<open>S\<close> no item of \<open>S\<close> with the same address beats.\<close>

definition max_by :: "(Item \<Rightarrow> AddrId) \<Rightarrow> Item set \<Rightarrow> Item set" where
  "max_by ky S = {i \<in> S. \<forall>k\<in>S. ky k = ky i \<longrightarrow> it_Ratio k \<le> it_Ratio i}"

definition md_group :: "MultiDict \<Rightarrow> AddrId \<Rightarrow> Item list" where
  "md_group d e = (case map_of (md_Map d) e of Some items \<Rightarrow> items | None \<Rightarrow> [])"

definition table_inv :: "(Item \<Rightarrow> AddrId) \<Rightarrow> Item set \<Rightarrow> (AddrId \<times> double) list \<Rightarrow> MultiDict \<Rightarrow> bool" where
  "table_inv ky S m d \<longleftrightarrow>
     (\<forall>i\<in>S. \<exists>r. map_of m (ky i) = Some r \<and> it_Ratio i \<le> r) \<and>
     (\<forall>e r. map_of m e = Some r \<longrightarrow> (\<exists>i\<in>S. ky i = e \<and> it_Ratio i = r)) \<and>
     (\<forall>i\<in>max_by ky S. \<exists>k\<in>set (md_group d (ky i)). ea_pair k = ea_pair i) \<and>
     (\<forall>e. \<forall>k\<in>set (md_group d e). ky k = e \<and> k \<in> max_by ky S) \<and>
     (\<forall>e. distinct (map ea_pair (md_group d e))) \<and>
     distinct (md_Order d) \<and> (\<forall>e. e \<in> set (md_Order d) \<longleftrightarrow> map_of (md_Map d) e \<noteq> None)"

lemma table_invD:
  assumes "table_inv ky S m d"
  shows "i \<in> S \<Longrightarrow> \<exists>r. map_of m (ky i) = Some r \<and> it_Ratio i \<le> r"
    and "i \<in> max_by ky S \<Longrightarrow> \<exists>k\<in>set (md_group d (ky i)). ea_pair k = ea_pair i"
    and "k \<in> set (md_group d e) \<Longrightarrow> ky k = e" and "k \<in> set (md_group d e) \<Longrightarrow> k \<in> max_by ky S"
    and "distinct (md_Order d)" and "e \<in> set (md_Order d) \<longleftrightarrow> map_of (md_Map d) e \<noteq> None"
  using assms unfolding table_inv_def by blast+

lemma max_by_subset: "max_by ky S \<subseteq> S"
  by (auto simp: max_by_def)

lemma max_by_insert:
  assumes "\<forall>i\<in>S. it_Ratio x \<le> it_Ratio i"
  shows "max_by ky (insert x S) =
    (if \<exists>i\<in>S. ky i = ky x \<and> it_Ratio x < it_Ratio i then max_by ky S else insert x (max_by ky S))"
  using assms by (auto simp: max_by_def not_less)

lemma table_inv_empty: "table_inv ky {} [] empty_MultiDict"
  by (simp add: table_inv_def max_by_def md_group_def empty_MultiDict_def)

lemma md_group_Append: "md_group (MultiDict_Append d ea it) e = (if e = ea then md_group d ea @ [it] else md_group d e)"
  by (auto simp: md_group_def MultiDict_Append_def split: option.splits)

lemma Append_order:
  assumes "distinct (md_Order d)" and "\<forall>e. e \<in> set (md_Order d) \<longleftrightarrow> map_of (md_Map d) e \<noteq> None"
  shows "distinct (md_Order (MultiDict_Append d ea it))"
    and "\<forall>e. e \<in> set (md_Order (MultiDict_Append d ea it)) \<longleftrightarrow> map_of (md_Map (MultiDict_Append d ea it)) e \<noteq> None"
  using assms by (auto simp: MultiDict_Append_def split: option.splits)

lemma table_max_value:
  assumes "table_inv ky S m d" and "\<forall>i\<in>S. it_Ratio x \<le> it_Ratio i"
  shows "raise_max m (ky x) (it_Ratio x) =
    (if \<exists>i\<in>S. ky i = ky x \<and> it_Ratio x < it_Ratio i then None else Some (AList.update (ky x) (it_Ratio x) m))"
proof (cases "map_of m (ky x)")
  case None
  with assms(1) have "\<forall>i\<in>S. ky i \<noteq> ky x" unfolding table_inv_def by (metis option.distinct(1))
  with None show ?thesis by (auto simp: raise_max_def)
next
  case (Some r)
  with assms(1) obtain i where i: "i \<in> S" "ky i = ky x" "it_Ratio i = r"
    unfolding table_inv_def by blast
  have "it_Ratio j \<le> r" if "j \<in> S" "ky j = ky x" for j
    using assms(1) that Some unfolding table_inv_def by (metis option.inject)
  with i have "(\<exists>i\<in>S. ky i = ky x \<and> it_Ratio x < it_Ratio i) \<longleftrightarrow> it_Ratio x < r"
    by (meson less_le_trans)
  with Some show ?thesis by (simp add: raise_max_def)
qed

text \<open>An item whose pair of addresses is new: the table visits it.\<close>

lemma table_inv_new:
  assumes inv: "table_inv ky S m d" and le: "\<forall>i\<in>S. it_Ratio x \<le> it_Ratio i"
    and new: "ea_pair x \<notin> ea_pair ` S"
  shows "case raise_max m (ky x) (it_Ratio x) of
           None \<Rightarrow> table_inv ky (insert x S) m d \<and> max_by ky (insert x S) = max_by ky S
         | Some m' \<Rightarrow> table_inv ky (insert x S) m' (MultiDict_Append d (ky x) x) \<and>
                      max_by ky (insert x S) = insert x (max_by ky S)"
proof (cases "\<exists>i\<in>S. ky i = ky x \<and> it_Ratio x < it_Ratio i")
  case True
  then have mx: "max_by ky (insert x S) = max_by ky S" using max_by_insert [OF le, of ky] by simp
  from True inv obtain r where "map_of m (ky x) = Some r" "it_Ratio x \<le> r"
    unfolding table_inv_def by (metis less_le_not_le order.trans)
  with inv mx have "table_inv ky (insert x S) m d" unfolding table_inv_def by auto
  with mx True table_max_value [OF inv le] show ?thesis by simp
next
  case False
  then have mx: "max_by ky (insert x S) = insert x (max_by ky S)" using max_by_insert [OF le, of ky] by auto
  have old: "it_Ratio i = it_Ratio x" if "i \<in> S" "ky i = ky x" for i
    using False le that by (meson antisym not_less)
  have "ea_pair x \<notin> ea_pair ` set (md_group d e)" for e
    using inv new max_by_subset unfolding table_inv_def by blast
  then have "distinct (map ea_pair (md_group (MultiDict_Append d (ky x) x) e))" for e
    using inv unfolding table_inv_def by (auto simp: md_group_Append)
  moreover have "\<exists>r. map_of (AList.update (ky x) (it_Ratio x) m) (ky i) = Some r \<and> it_Ratio i \<le> r"
    if "i \<in> insert x S" for i
    using that inv old unfolding table_inv_def by (cases "ky i = ky x") auto
  moreover have "\<exists>i\<in>insert x S. ky i = e \<and> it_Ratio i = r"
    if "map_of (AList.update (ky x) (it_Ratio x) m) e = Some r" for e r
    using that inv unfolding table_inv_def by (cases "e = ky x") auto
  moreover have "\<exists>k\<in>set (md_group (MultiDict_Append d (ky x) x) (ky i)). ea_pair k = ea_pair i"
    if "i \<in> insert x (max_by ky S)" for i
  proof (cases "i = x")
    case False
    with that inv obtain k where "k \<in> set (md_group d (ky i))" "ea_pair k = ea_pair i"
      unfolding table_inv_def by blast
    then show ?thesis by (cases "ky i = ky x") (auto simp: md_group_Append)
  qed (auto simp: md_group_Append)
  moreover have "ky k = e \<and> k \<in> insert x (max_by ky S)"
    if "k \<in> set (md_group (MultiDict_Append d (ky x) x) e)" for k e
    using that inv unfolding table_inv_def by (auto simp: md_group_Append split: if_splits)
  ultimately have "table_inv ky (insert x S) (AList.update (ky x) (it_Ratio x) m) (MultiDict_Append d (ky x) x)"
    using Append_order [of d "ky x" x] inv unfolding table_inv_def mx by blast
  moreover have "raise_max m (ky x) (it_Ratio x) = Some (AList.update (ky x) (it_Ratio x) m)"
    unfolding table_max_value [OF inv le] using False by (rule if_not_P)
  ultimately show ?thesis using mx by simp
qed

text \<open>An item whose pair of addresses was seen: nothing has to be done.\<close>

lemma table_inv_dup:
  assumes inv: "table_inv ky S m d" and le: "\<forall>i\<in>S. it_Ratio x \<le> it_Ratio i"
    and i: "i \<in> S" "ea_pair i = ea_pair x" and ky: "ky i = ky x"
  shows "table_inv ky (insert x S) m d"
    and "x \<in> max_by ky (insert x S) \<Longrightarrow> i \<in> max_by ky S \<and> max_by ky (insert x S) = insert x (max_by ky S)"
    and "x \<notin> max_by ky (insert x S) \<Longrightarrow> max_by ky (insert x S) = max_by ky S"
proof -
  from inv i(1) ky obtain r where "map_of m (ky x) = Some r" "it_Ratio i \<le> r"
    unfolding table_inv_def by metis
  with le i(1) have x: "\<exists>r. map_of m (ky x) = Some r \<and> it_Ratio x \<le> r" by force
  show rest: "x \<notin> max_by ky (insert x S) \<Longrightarrow> max_by ky (insert x S) = max_by ky S"
    using max_by_insert [OF le, of ky] by (auto split: if_splits)
  have top: "i \<in> max_by ky S \<and> max_by ky (insert x S) = insert x (max_by ky S)" if "x \<in> max_by ky (insert x S)"
  proof -
    from that have "\<forall>k\<in>S. ky k = ky x \<longrightarrow> it_Ratio k \<le> it_Ratio x" by (auto simp: max_by_def)
    with i ky le have "i \<in> max_by ky S" by (force simp: max_by_def)
    with that show ?thesis using max_by_insert [OF le, of ky] by (auto split: if_splits)
  qed
  then show "x \<in> max_by ky (insert x S) \<Longrightarrow> i \<in> max_by ky S \<and> max_by ky (insert x S) = insert x (max_by ky S)" .
  show "table_inv ky (insert x S) m d"
  proof (cases "x \<in> max_by ky (insert x S)")
    case True
    have "\<exists>k\<in>set (md_group d (ky j)). ea_pair k = ea_pair j" if "j \<in> insert x (max_by ky S)" for j
    proof (cases "j = x")
      case True
      from top [OF \<open>x \<in> max_by ky (insert x S)\<close>] inv obtain k where "k \<in> set (md_group d (ky i))" "ea_pair k = ea_pair i"
        unfolding table_inv_def by blast
      with True i ky show ?thesis by auto
    qed (use that inv in \<open>auto simp: table_inv_def\<close>)
    with inv x top [OF True] show ?thesis unfolding table_inv_def by auto
  next
    case False
    with inv x rest show ?thesis unfolding table_inv_def by auto
  qed
qed

section \<open>The scan\<close>

definition pair_key :: "Interners \<Rightarrow> Item \<Rightarrow> string" where
  "pair_key ids it = projr (EaPairKey ids (it_Ea1 it) (it_Ea2 it))"

text \<open>The keys of the items exist and separate the pairs of addresses.\<close>

definition keys_ok :: "Interners \<Rightarrow> Item set \<Rightarrow> bool" where
  "keys_ok ids U \<longleftrightarrow>
     (\<forall>i\<in>U. EaPairKey ids (it_Ea1 i) (it_Ea2 i) = Inr (pair_key ids i)) \<and>
     (\<forall>i\<in>U. \<forall>j\<in>U. pair_key ids i = pair_key ids j \<longrightarrow> ea_pair i = ea_pair j)"

lemma pair_key_pair: "ea_pair i = ea_pair j \<Longrightarrow> pair_key ids i = pair_key ids j"
  by (simp add: pair_key_def)

definition scan_inv :: "Interners \<Rightarrow> Item set \<Rightarrow> FinalScan \<Rightarrow> bool" where
  "scan_inv ids S sc \<longleftrightarrow>
     set (fs_Dones sc) = pair_key ids ` S \<and>
     table_inv it_Ea1 S (fs_MaxMain sc) (fs_MultiMain sc) \<and>
     table_inv it_Ea2 (max_by it_Ea1 S) (fs_MaxDiff sc) (fs_MultiDiff sc)"

lemma scan_inv_empty: "scan_inv ids {} empty_FinalScan"
proof -
  have "max_by it_Ea1 {} = {}" by (simp add: max_by_def)
  then show ?thesis by (simp add: scan_inv_def empty_FinalScan_def table_inv_empty)
qed

lemma scan_inv_new:
  assumes inv: "scan_inv ids S sc" and le: "\<forall>i\<in>S. it_Ratio x \<le> it_Ratio i"
    and new: "ea_pair x \<notin> ea_pair ` S"
  shows "scan_inv ids (insert x S) (scan_new x (sc\<lparr>fs_Dones := pair_key ids x # fs_Dones sc\<rparr>))"
proof -
  from inv have main: "table_inv it_Ea1 S (fs_MaxMain sc) (fs_MultiMain sc)"
    and diff: "table_inv it_Ea2 (max_by it_Ea1 S) (fs_MaxDiff sc) (fs_MultiDiff sc)"
    and dones: "set (fs_Dones sc) = pair_key ids ` S" by (simp_all add: scan_inv_def)
  have le': "\<forall>i\<in>max_by it_Ea1 S. it_Ratio x \<le> it_Ratio i" using le max_by_subset by blast
  have new': "ea_pair x \<notin> ea_pair ` max_by it_Ea1 S" using new max_by_subset by blast
  note m = table_inv_new [OF main le new] and f = table_inv_new [OF diff le' new']
  show ?thesis
  proof (cases "raise_max (fs_MaxMain sc) (it_Ea1 x) (it_Ratio x)")
    case None
    with m diff dones show ?thesis by (simp add: scan_inv_def scan_new_def)
  next
    case (Some mm)
    with m f dones show ?thesis
      by (cases "raise_max (fs_MaxDiff sc) (it_Ea2 x) (it_Ratio x)")
        (simp_all add: scan_inv_def scan_new_def)
  qed
qed

lemma scan_inv_dup:
  assumes inv: "scan_inv ids S sc" and le: "\<forall>i\<in>S. it_Ratio x \<le> it_Ratio i"
    and i: "i \<in> S" "ea_pair i = ea_pair x"
  shows "scan_inv ids (insert x S) sc"
proof -
  from inv have main: "table_inv it_Ea1 S (fs_MaxMain sc) (fs_MultiMain sc)"
    and diff: "table_inv it_Ea2 (max_by it_Ea1 S) (fs_MaxDiff sc) (fs_MultiDiff sc)"
    and dones: "set (fs_Dones sc) = pair_key ids ` S" by (simp_all add: scan_inv_def)
  have le': "\<forall>i\<in>max_by it_Ea1 S. it_Ratio x \<le> it_Ratio i" using le max_by_subset by blast
  from i have ky: "it_Ea1 i = it_Ea1 x" "it_Ea2 i = it_Ea2 x" by simp_all
  note m = table_inv_dup [OF main le i ky(1)]
  have "table_inv it_Ea2 (max_by it_Ea1 (insert x S)) (fs_MaxDiff sc) (fs_MultiDiff sc)"
  proof (cases "x \<in> max_by it_Ea1 (insert x S)")
    case True
    with m(2) have "i \<in> max_by it_Ea1 S" "max_by it_Ea1 (insert x S) = insert x (max_by it_Ea1 S)" by blast+
    with table_inv_dup(1) [OF diff le' _ i(2) ky(2)] show ?thesis by simp
  qed (use m(3) diff in simp)
  moreover have "set (fs_Dones sc) = pair_key ids ` insert x S"
    using dones imageI [OF i(1), of "pair_key ids"] pair_key_pair [OF i(2), of ids] by (simp add: insert_absorb)
  ultimately show ?thesis using m(1) by (simp add: scan_inv_def)
qed

lemma find_multimatches_inv:
  assumes "keys_ok ids (S \<union> set items)" and "descending items"
    and "\<forall>x\<in>set items. \<forall>i\<in>S. it_Ratio x \<le> it_Ratio i" and "scan_inv ids S sc"
  shows "\<exists>sc'. find_multimatches ids items sc = Inr sc' \<and> scan_inv ids (S \<union> set items) sc'"
  using assms
proof (induction items arbitrary: S sc)
  case (Cons x items)
  have key: "EaPairKey ids (it_Ea1 x) (it_Ea2 x) = Inr (pair_key ids x)"
    using Cons.prems(1) by (simp add: keys_ok_def)
  have le: "\<forall>i\<in>S. it_Ratio x \<le> it_Ratio i" using Cons.prems(3) by simp
  have dones: "set (fs_Dones sc) = pair_key ids ` S" using Cons.prems(4) by (simp add: scan_inv_def)
  have next_ok: "keys_ok ids (insert x S \<union> set items)" "descending items"
    "\<forall>y\<in>set items. \<forall>i\<in>insert x S. it_Ratio y \<le> it_Ratio i"
    using Cons.prems by (auto simp: descending_def)
  show ?case
  proof (cases "pair_key ids x \<in> set (fs_Dones sc)")
    case True
    with dones obtain i where "i \<in> S" "pair_key ids i = pair_key ids x" by auto
    moreover from this Cons.prems(1) have "ea_pair i = ea_pair x" unfolding keys_ok_def by auto
    ultimately have "scan_inv ids (insert x S) sc" by (intro scan_inv_dup [OF Cons.prems(4) le])
    from Cons.IH [OF next_ok this] key True show ?thesis by simp
  next
    case False
    with dones have "ea_pair x \<notin> ea_pair ` S" using pair_key_pair [of x _ ids] by blast
    from Cons.IH [OF next_ok scan_inv_new [OF Cons.prems(4) le this]] key False show ?thesis by simp
  qed
qed simp

section \<open>The multimatch chooser\<close>

definition chooser_ok :: "Interners \<Rightarrow> Item \<Rightarrow> bool" where
  "chooser_ok ids it \<longleftrightarrow> (\<forall>site. RequirePyInt ids (it_Ea1 it) site = Inr () \<and> RequirePyInt ids (it_Ea2 it) site = Inr ())"

lemma AddChooserItem_ok:
  "chooser_ok (ss_Ids s) it \<Longrightarrow>
     AddChooserItem target it s = (Inr (), s\<lparr>ss_Final := push_final target it (ss_Final s)\<rparr>)"
  by (simp add: AddChooserItem_def chooser_ok_def bindS_def getS_def modS_def)

text \<open>A run that only appends items of \<open>X\<close> to the multimatch chooser.\<close>

definition multi_effect :: "Item set \<Rightarrow> ('r, 'h) Session \<Rightarrow> ('r, 'h) Session \<Rightarrow> bool" where
  "multi_effect X s s' \<longleftrightarrow>
     (\<exists>ys. set ys \<subseteq> X \<and> s' = s\<lparr>ss_Final := (ss_Final s)\<lparr>fr_Multimatch := fr_Multimatch (ss_Final s) @ ys\<rparr>\<rparr>)"

lemma multi_effect_refl: "multi_effect X s s"
  unfolding multi_effect_def by (intro exI [of _ "[]"]) simp

lemma multi_effect_trans:
  assumes "multi_effect X s s1" and "multi_effect Y s1 s2"
  shows "multi_effect (X \<union> Y) s s2"
proof -
  from assms obtain xs ys where "set xs \<subseteq> X" "set ys \<subseteq> Y"
    "s1 = s\<lparr>ss_Final := (ss_Final s)\<lparr>fr_Multimatch := fr_Multimatch (ss_Final s) @ xs\<rparr>\<rparr>"
    "s2 = s1\<lparr>ss_Final := (ss_Final s1)\<lparr>fr_Multimatch := fr_Multimatch (ss_Final s1) @ ys\<rparr>\<rparr>"
    unfolding multi_effect_def by blast
  then show ?thesis unfolding multi_effect_def by (intro exI [of _ "xs @ ys"]) auto
qed

lemma multi_effect_ids: "multi_effect X s s' \<Longrightarrow> ss_Ids s' = ss_Ids s \<and> ss_State s' = ss_State s"
  by (auto simp: multi_effect_def)

lemma multi_effect_one:
  "it \<in> X \<Longrightarrow> multi_effect X s (s\<lparr>ss_Final := push_final FinalMultimatch it (ss_Final s)\<rparr>)"
  unfolding multi_effect_def by (intro exI [of _ "[it]"]) (simp add: push_final_def)

lemma add_multi_items_run:
  assumes "\<forall>it\<in>set items. chooser_ok (ss_Ids s) it \<and>
     EaPairKey (ss_Ids s) (it_Ea1 it) (it_Ea2 it) = Inr (pair_key (ss_Ids s) it)"
  shows "\<exists>ig' dn' s'. add_multi_items ea items (ig, dn) s = (Inr (ig', dn'), s') \<and> multi_effect (set items) s s' \<and>
     set dn' = set dn \<union> pair_key (ss_Ids s) ` set items \<and>
     set ig' = set ig \<union> (if pair_key (ss_Ids s) ` set items \<subseteq> set dn then {} else {ea})"
  using assms
proof (induction items arbitrary: ig dn s)
  case Nil
  then show ?case by (simp add: retS_def multi_effect_refl)
next
  case (Cons it items)
  let ?key = "pair_key (ss_Ids s) it" and ?s1 = "s\<lparr>ss_Final := push_final FinalMultimatch it (ss_Final s)\<rparr>"
  show ?case
  proof (cases "?key \<in> set dn")
    case True
    obtain ig' dn' s' where "add_multi_items ea items (ig, dn) s = (Inr (ig', dn'), s')"
      "multi_effect (set items) s s'" "set dn' = set dn \<union> pair_key (ss_Ids s) ` set items"
      "set ig' = set ig \<union> (if pair_key (ss_Ids s) ` set items \<subseteq> set dn then {} else {ea})"
      using Cons.IH [of s ig dn] Cons.prems by auto
    then show ?thesis
      using True Cons.prems multi_effect_trans [OF multi_effect_refl, of "set items" s s' "{it}"]
      by (auto simp: bindS_def getS_def)
  next
    case False
    have ids: "ss_Ids ?s1 = ss_Ids s" by simp
    obtain ig' dn' s' where "add_multi_items ea items (List.insert ea ig, ?key # dn) ?s1 = (Inr (ig', dn'), s')"
      "multi_effect (set items) ?s1 s'" "set dn' = insert ?key (set dn) \<union> pair_key (ss_Ids s) ` set items"
      "set ig' = insert ea (set ig) \<union> (if pair_key (ss_Ids s) ` set items \<subseteq> insert ?key (set dn) then {} else {ea})"
      using Cons.IH [of ?s1 "List.insert ea ig" "?key # dn", unfolded ids] Cons.prems by auto
    then show ?thesis
      using False Cons.prems multi_effect_trans [OF multi_effect_one [of it "{it}" s]]
      by (auto simp: bindS_def getS_def AddChooserItem_ok)
  qed
qed

lemma disjoint_subset_Un: "A \<inter> C = {} \<Longrightarrow> (A \<subseteq> B \<union> C) = (A \<subseteq> B)"
  by blast

lemma insert_compr_if: "{x \<in> insert a A. P x} = (if P a then {a} else {}) \<union> {x \<in> A. P x}"
  by auto

definition big :: "MultiDict \<Rightarrow> AddrId set \<Rightarrow> Item set" where
  "big d E = (\<Union>e\<in>{e \<in> E. length (md_group d e) > 1}. set (md_group d e))"

lemma add_multi_groups_run:
  assumes "\<forall>e\<in>set eas. map_of (md_Map d) e \<noteq> None" and "distinct eas"
    and "\<forall>e\<in>set eas. \<forall>it\<in>set (md_group d e). chooser_ok (ss_Ids s) it \<and>
           EaPairKey (ss_Ids s) (it_Ea1 it) (it_Ea2 it) = Inr (pair_key (ss_Ids s) it)"
    and "\<forall>e\<in>set eas. \<forall>e'\<in>set eas. e \<noteq> e' \<longrightarrow>
           pair_key (ss_Ids s) ` set (md_group d e) \<inter> pair_key (ss_Ids s) ` set (md_group d e') = {}"
  shows "\<exists>ig' dn' s'. add_multi_groups d eas (ig, dn) s = (Inr (ig', dn'), s') \<and> multi_effect (big d (set eas)) s s' \<and>
     set dn' = set dn \<union> pair_key (ss_Ids s) ` big d (set eas) \<and>
     set ig' = set ig \<union> {e \<in> set eas. length (md_group d e) > 1 \<and> \<not> pair_key (ss_Ids s) ` set (md_group d e) \<subseteq> set dn}"
  using assms
proof (induction eas arbitrary: ig dn s)
  case Nil
  then show ?case by (simp add: retS_def multi_effect_refl big_def)
next
  case (Cons e eas)
  let ?k = "pair_key (ss_Ids s)" and ?g = "md_group d e"
  have at: "md_at d e = Inr ?g" using Cons.prems(1) by (auto simp: md_at_def md_group_def)
  have "\<exists>ig1 dn1 s1. (if length ?g > 1 then add_multi_items e ?g (ig, dn) else retS (ig, dn)) s = (Inr (ig1, dn1), s1) \<and>
     multi_effect (big d {e}) s s1 \<and> set dn1 = set dn \<union> ?k ` big d {e} \<and>
     set ig1 = set ig \<union> (if length ?g > 1 \<and> \<not> ?k ` set ?g \<subseteq> set dn then {e} else {})"
  proof (cases "length ?g > 1")
    case True
    then have "big d {e} = set ?g" by (auto simp: big_def)
    with True add_multi_items_run [of ?g s e ig dn] Cons.prems(3) show ?thesis by (auto split: if_splits)
  next
    case False
    then have "big d {e} = {}" by (auto simp: big_def)
    with False show ?thesis by (simp add: retS_def multi_effect_refl)
  qed
  then obtain ig1 dn1 s1 where head: "(if length ?g > 1 then add_multi_items e ?g (ig, dn) else retS (ig, dn)) s = (Inr (ig1, dn1), s1)"
    and e1: "multi_effect (big d {e}) s s1" and dn1: "set dn1 = set dn \<union> ?k ` big d {e}"
    and ig1: "set ig1 = set ig \<union> (if length ?g > 1 \<and> \<not> ?k ` set ?g \<subseteq> set dn then {e} else {})" by blast
  have ids: "ss_Ids s1 = ss_Ids s" using multi_effect_ids [OF e1] by simp
  obtain ig2 dn2 s2 where tail: "add_multi_groups d eas (ig1, dn1) s1 = (Inr (ig2, dn2), s2)"
    and e2: "multi_effect (big d (set eas)) s1 s2" and dn2: "set dn2 = set dn1 \<union> ?k ` big d (set eas)"
    and ig2: "set ig2 = set ig1 \<union> {e \<in> set eas. length (md_group d e) > 1 \<and> \<not> ?k ` set (md_group d e) \<subseteq> set dn1}"
    using Cons.IH [of s1 ig1 dn1, unfolded ids] Cons.prems by auto
  have disj: "?k ` set (md_group d e') \<inter> ?k ` big d {e} = {}" if "e' \<in> set eas" for e'
  proof -
    from that Cons.prems(2) have "e' \<noteq> e" by auto
    with that Cons.prems(4) [rule_format, of e' e] have "?k ` set (md_group d e') \<inter> ?k ` set ?g = {}" by simp
    moreover have "big d {e} \<subseteq> set ?g" by (auto simp: big_def)
    ultimately show ?thesis by blast
  qed
  have "(?k ` set (md_group d e') \<subseteq> set dn1) = (?k ` set (md_group d e') \<subseteq> set dn)" if "e' \<in> set eas" for e'
    unfolding dn1 by (rule disjoint_subset_Un [OF disj [OF that]])
  then have "{e' \<in> set eas. length (md_group d e') > 1 \<and> \<not> ?k ` set (md_group d e') \<subseteq> set dn1} =
      {e' \<in> set eas. length (md_group d e') > 1 \<and> \<not> ?k ` set (md_group d e') \<subseteq> set dn}"
    by (intro Collect_cong conj_cong refl) simp
  then have "set ig2 = set ig \<union> {e' \<in> set (e # eas). length (md_group d e') > 1 \<and> \<not> ?k ` set (md_group d e') \<subseteq> set dn}"
    unfolding ig2 ig1 by (simp only: list.set(2) insert_compr_if Un_assoc)
  moreover have big: "big d {e} \<union> big d (set eas) = big d (set (e # eas))" by (auto simp: big_def)
  moreover have "set dn2 = set dn \<union> ?k ` big d (set (e # eas))"
    unfolding dn2 dn1 big [symmetric] image_Un Un_assoc ..
  moreover have "add_multi_groups d (e # eas) (ig, dn) s = (Inr (ig2, dn2), s2)"
    using head tail at by (simp add: bindS_def getS_def)
  ultimately show ?case
    using multi_effect_trans [OF e1 e2] by (intro exI conjI) simp_all
qed

section \<open>Decimal addresses\<close>

text \<open>The addresses of a real export: a decimal text.\<close>

definition decimal_addr :: "Interners \<Rightarrow> AddrId \<Rightarrow> bool" where
  "decimal_addr ids a \<longleftrightarrow> a \<noteq> kNoneAddr \<and>
     (case AddrText ids a of Inr t \<Rightarrow> t \<noteq> [] \<and> list_all IsDigit t | Inl _ \<Rightarrow> False)"

lemma accepts_loop_digits: "list_all IsDigit t \<Longrightarrow> accepts_loop prev t"
  by (induction t arbitrary: prev) auto

lemma PyIntAsciiAccepts_digits:
  assumes "list_all IsDigit t" and "t \<noteq> []" shows "PyIntAsciiAccepts t"
  using assms digits_no_sign [OF assms] accepts_loop_digits [OF assms(1)]
  by (cases t) (auto simp: PyIntAsciiAccepts_def strip_digits(1))

lemma RequirePyInt_decimal: "decimal_addr ids a \<Longrightarrow> RequirePyInt ids a site = Inr ()"
  by (auto simp: decimal_addr_def RequirePyInt_def IsAscii_def PyIntAsciiAccepts_digits list_all_iff IsDigit_def
      split: sum.splits intro: order_le_less_trans)

lemma decimal_addr_inj:
  assumes "addrs_wf ids" "decimal_addr ids a" "decimal_addr ids b" "AddrText ids a = AddrText ids b"
  shows "a = b"
proof -
  from assms(2-4) obtain t where "AddrOrNone ids a = Inr (Some t)" "AddrOrNone ids b = Inr (Some t)"
    by (auto simp: decimal_addr_def AddrText_def AddrOrNone_def kNoneAddr_def split: sum.splits if_splits)
  with assms(1) show ?thesis by (rule addrs.text_inj)
qed

lemma EaPairKey_decimal:
  assumes "decimal_addr ids a" "decimal_addr ids b"
  shows "EaPairKey ids a b = Inr (projr (AddrText ids a) @ ''-'' @ projr (AddrText ids b))"
  using assms by (auto simp: decimal_addr_def EaPairKey_def AddrKeyText_def AddrText_def kNoneAddr_def split: sum.splits)

lemma digits_then_dash:
  assumes "list_all IsDigit a" "list_all IsDigit c" "a @ CHR ''-'' # b = c @ CHR ''-'' # d"
  shows "a = c \<and> b = d"
proof -
  have "takeWhile IsDigit (x @ CHR ''-'' # y) = x" if "list_all IsDigit x" for x y
    using that by (simp add: takeWhile_append list_all_iff)
  with assms have "a = c" by metis
  with assms(3) show ?thesis by simp
qed

lemma keys_ok_decimal:
  assumes wf: "addrs_wf ids" and dec: "\<forall>it\<in>U. decimal_addr ids (it_Ea1 it) \<and> decimal_addr ids (it_Ea2 it)"
  shows "keys_ok ids U"
proof -
  have key: "EaPairKey ids (it_Ea1 i) (it_Ea2 i) = Inr (projr (AddrText ids (it_Ea1 i)) @ CHR ''-'' # projr (AddrText ids (it_Ea2 i)))"
    if "i \<in> U" for i using dec that EaPairKey_decimal [of ids "it_Ea1 i" "it_Ea2 i"] by simp
  have text_ok: "AddrText ids a = Inr (projr (AddrText ids a)) \<and> list_all IsDigit (projr (AddrText ids a))"
    if "decimal_addr ids a" for a using that by (auto simp: decimal_addr_def split: sum.splits)
  have "ea_pair i = ea_pair j" if "i \<in> U" "j \<in> U" "pair_key ids i = pair_key ids j" for i j
  proof -
    from that key have "projr (AddrText ids (it_Ea1 i)) @ CHR ''-'' # projr (AddrText ids (it_Ea2 i)) =
        projr (AddrText ids (it_Ea1 j)) @ CHR ''-'' # projr (AddrText ids (it_Ea2 j))"
      by (simp add: pair_key_def)
    with digits_then_dash text_ok dec that have
      "projr (AddrText ids (it_Ea1 i)) = projr (AddrText ids (it_Ea1 j))"
      "projr (AddrText ids (it_Ea2 i)) = projr (AddrText ids (it_Ea2 j))" by metis+
    with decimal_addr_inj [OF wf] text_ok dec that show ?thesis by (metis prod.inject)
  qed
  with key show ?thesis by (simp add: keys_ok_def pair_key_def)
qed

section \<open>The final choosers\<close>

definition final_ok :: "FinalScan \<Rightarrow> AddrId list \<Rightarrow> AddrId list \<Rightarrow> Item \<Rightarrow> bool" where
  "final_ok sc im id' it \<longleftrightarrow> it_Ea1 it \<notin> set im \<and> it_Ea2 it \<notin> set id' \<and>
     (\<exists>mm md. map_of (fs_MaxMain sc) (it_Ea1 it) = Some mm \<and> map_of (fs_MaxDiff sc) (it_Ea2 it) = Some md \<and>
        mm \<le> it_Ratio it \<and> md \<le> it_Ratio it)"

definition push_all :: "(Chooser \<times> Item) list \<Rightarrow> FinalResults \<Rightarrow> FinalResults" where
  "push_all items = fold (\<lambda>(c, it). push_final (FinalOf c) it) items"

lemma final_items_run:
  assumes "\<forall>(c, it)\<in>set items. chooser_ok (ss_Ids s) it \<and>
     (\<exists>mm. map_of (fs_MaxMain sc) (it_Ea1 it) = Some mm \<and>
        (mm \<le> it_Ratio it \<longrightarrow> map_of (fs_MaxDiff sc) (it_Ea2 it) \<noteq> None))"
  shows "final_items sc im id' items s =
    (Inr (), s\<lparr>ss_Final := push_all (filter (\<lambda>(c, it). final_ok sc im id' it) items) (ss_Final s)\<rparr>)"
  using assms
proof (induction items arbitrary: s)
  case Nil
  then show ?case by (simp add: retS_def push_all_def)
next
  case (Cons x items)
  obtain c it where x: "x = (c, it)" by (cases x)
  let ?s1 = "if final_ok sc im id' it then s\<lparr>ss_Final := push_final (FinalOf c) it (ss_Final s)\<rparr> else s"
  have "final_item sc im id' c it s = (Inr (), ?s1)"
    using Cons.prems by (auto simp: x final_item_def final_ok_def retS_def AddChooserItem_ok)
  moreover have "ss_Ids ?s1 = ss_Ids s" by simp
  ultimately show ?case
    using Cons.IH [of ?s1] Cons.prems by (simp add: x bindS_def push_all_def)
qed

lemma push_all_lists:
  "fr_Best (push_all items fr) = fr_Best fr @ map snd (filter (\<lambda>x. fst x = Best) items)"
  "fr_Partial (push_all items fr) = fr_Partial fr @ map snd (filter (\<lambda>x. fst x = Partial) items)"
  "fr_Unreliable (push_all items fr) = fr_Unreliable fr @ map snd (filter (\<lambda>x. fst x = Unreliable) items)"
  "fr_Multimatch (push_all items fr) = fr_Multimatch fr"
  by (induction items arbitrary: fr) (auto simp: push_all_def push_final_def split: Chooser.splits)

lemma UN_Pair_lists: "(\<Union>c\<in>UNIV. Pair c ` L c) = {(c, it). it \<in> L c}"
  by auto

lemma set_visited: "set (visited ms) = {(c, it). it \<in> set (ms_Lists ms c)}"
proof -
  have "UNIV = {Best, Partial, Unreliable}" using Chooser.exhaust by blast
  then have "(\<Union>c\<in>{Best, Partial, Unreliable}. Pair c ` set (ms_Lists ms c)) = {(c, it). it \<in> set (ms_Lists ms c)}"
    by (metis (no_types) UN_Pair_lists)
  then show ?thesis by (simp add: visited_def SortedResults_def)
qed

lemma visited_descending: "ratios_ok ms \<Longrightarrow> descending (map snd (visited ms))"
proof -
  assume ok: "ratios_ok ms"
  then have "SortDescending (ms_Lists ms Unreliable) = []" by (simp add: ratios_ok_def SortDescending_def)
  with ok descending_SortDescending [of "ms_Lists ms Best"] descending_SortDescending [of "ms_Lists ms Partial"]
  show ?thesis
    by (force simp: visited_def SortedResults_def ratios_ok_def descending_def sorted_wrt_append comp_def)
qed

section \<open>The whole final pass\<close>

lemma table_groups:
  assumes inv: "table_inv ky S m d" and keys: "keys_ok ids U" and S: "S \<subseteq> U" and ky: "ky = it_Ea1 \<or> ky = it_Ea2"
  shows "it \<in> set (md_group d e) \<Longrightarrow> it \<in> S"
    and "e \<noteq> e' \<Longrightarrow> pair_key ids ` set (md_group d e) \<inter> pair_key ids ` set (md_group d e') = {}"
proof -
  show g: "it \<in> set (md_group d e) \<Longrightarrow> it \<in> S" for e it using table_invD(4) [OF inv] max_by_subset by blast
  assume "e \<noteq> e'"
  have False if "i \<in> set (md_group d e)" "j \<in> set (md_group d e')" "pair_key ids i = pair_key ids j" for i j
  proof -
    have "i \<in> U" "j \<in> U" using that g S by blast+
    with keys that(3) have "ea_pair i = ea_pair j" unfolding keys_ok_def by blast
    with ky have "ky i = ky j" by auto
    with table_invD(3) [OF inv] that(1,2) \<open>e \<noteq> e'\<close> show False by metis
  qed
  then show "pair_key ids ` set (md_group d e) \<inter> pair_key ids ` set (md_group d e') = {}" by blast
qed

lemma AddMultimatches_run:
  fixes s :: "('r, 'h) Session"
  assumes inv: "table_inv ky S m d" and keys: "keys_ok (ss_Ids s) U" and S: "S \<subseteq> U"
    and ch: "\<forall>it\<in>U. chooser_ok (ss_Ids s) it" and ky: "ky = it_Ea1 \<or> ky = it_Ea2"
  shows "\<exists>ig dn' s'. AddMultimatchesToChooser d ([], dn) s = (Inr (ig, dn'), s') \<and> multi_effect S s s' \<and>
     set dn' = set dn \<union> pair_key (ss_Ids s) ` big d (set (md_Order d)) \<and>
     set ig = {e \<in> set (md_Order d). length (md_group d e) > 1 \<and>
                 \<not> pair_key (ss_Ids s) ` set (md_group d e) \<subseteq> set dn}"
proof -
  note g = table_groups [OF inv keys S ky]
  have ok: "\<forall>e\<in>set (md_Order d). \<forall>it\<in>set (md_group d e). chooser_ok (ss_Ids s) it \<and>
           EaPairKey (ss_Ids s) (it_Ea1 it) (it_Ea2 it) = Inr (pair_key (ss_Ids s) it)"
  proof (intro ballI)
    fix e it assume "it \<in> set (md_group d e)"
    with g(1) S have "it \<in> U" by blast
    with ch keys show "chooser_ok (ss_Ids s) it \<and>
        EaPairKey (ss_Ids s) (it_Ea1 it) (it_Ea2 it) = Inr (pair_key (ss_Ids s) it)"
      unfolding keys_ok_def by blast
  qed
  have order: "\<forall>e\<in>set (md_Order d). map_of (md_Map d) e \<noteq> None" using table_invD(6) [OF inv] by blast
  have sub: "big d (set (md_Order d)) \<subseteq> S" using g(1) by (auto simp: big_def)
  have "multi_effect S s s'" if "multi_effect (big d (set (md_Order d))) s s'" for s' :: "('r, 'h) Session"
    using that sub unfolding multi_effect_def by blast
  moreover obtain ig dn' s' where "add_multi_groups d (md_Order d) ([], dn) s = (Inr (ig, dn'), s')"
    "multi_effect (big d (set (md_Order d))) s s'" "set dn' = set dn \<union> pair_key (ss_Ids s) ` big d (set (md_Order d))"
    "set ig = set [] \<union> {e \<in> set (md_Order d). length (md_group d e) > 1 \<and>
                 \<not> pair_key (ss_Ids s) ` set (md_group d e) \<subseteq> set dn}"
    using add_multi_groups_run [OF order table_invD(5) [OF inv] ok, of "[]" dn] g(2) by blast
  ultimately show ?thesis
    unfolding AddMultimatchesToChooser_def by auto
qed

lemma two_in_group:
  assumes "table_inv ky S m d" and "i \<in> max_by ky S" "j \<in> max_by ky S" and "ky i = ky j" "ea_pair i \<noteq> ea_pair j"
  shows "ky i \<in> set (md_Order d) \<and> length (md_group d (ky i)) > 1 \<and>
    (\<exists>k\<in>set (md_group d (ky i)). ea_pair k = ea_pair i)"
proof -
  obtain k l where kl: "k \<in> set (md_group d (ky i))" "ea_pair k = ea_pair i"
    "l \<in> set (md_group d (ky i))" "ea_pair l = ea_pair j"
    using table_invD(2) [OF assms(1)] assms(2-4) by metis
  with assms(5) have "k \<noteq> l" by auto
  with kl have "length (md_group d (ky i)) > 1"
    by (cases "md_group d (ky i)"; cases "tl (md_group d (ky i))") auto
  moreover have "ky i \<in> set (md_Order d)"
    using kl(1) table_invD(6) [OF assms(1), of "ky i"] by (cases "map_of (md_Map d) (ky i)") (auto simp: md_group_def)
  ultimately show ?thesis using kl by blast
qed

lemma final_ok_max:
  assumes "scan_inv ids S sc" and "it \<in> S" and "final_ok sc im id' it"
  shows "it \<in> max_by it_Ea1 S \<and> it \<in> max_by it_Ea2 (max_by it_Ea1 S)"
proof -
  from assms have t1: "table_inv it_Ea1 S (fs_MaxMain sc) (fs_MultiMain sc)"
    and t2: "table_inv it_Ea2 (max_by it_Ea1 S) (fs_MaxDiff sc) (fs_MultiDiff sc)" by (simp_all add: scan_inv_def)
  have max: "i \<in> max_by ky T" if "table_inv ky T m d" "i \<in> T" "map_of m (ky i) = Some r" "r \<le> it_Ratio i" for ky T m d i r
  proof -
    have "it_Ratio k \<le> it_Ratio i" if "k \<in> T" "ky k = ky i" for k
      using table_invD(1) [OF \<open>table_inv ky T m d\<close> that(1)] that(2) \<open>map_of m (ky i) = Some r\<close> \<open>r \<le> it_Ratio i\<close>
      by force
    with \<open>i \<in> T\<close> show ?thesis by (simp add: max_by_def)
  qed
  with t1 assms have "it \<in> max_by it_Ea1 S" unfolding final_ok_def by blast
  with t2 max assms(3) show ?thesis unfolding final_ok_def by blast
qed

lemma ratios_ok_Cleanup: "Cleanup ids ms = Inr ms' \<Longrightarrow> ratios_ok ms \<Longrightarrow> ratios_ok ms'"
proof -
  assume c: "Cleanup ids ms = Inr ms'" and ok: "ratios_ok ms"
  have "set (ms_Lists ms' ch) \<subseteq> set (ms_Lists ms ch)" for ch
    using subseq_subset [OF Cleanup_subseq [OF c, of ch]] by simp
  with ok show ?thesis unfolding ratios_ok_def by (metis empty_iff empty_set set_empty subset_empty subsetD)
qed

lemma SessionCleanup_run:
  assumes "Cleanup (ss_Ids s) (ss_State s) = Inr ms"
  shows "\<exists>s'. SessionCleanup site s = (Inr (), s') \<and> ss_State s' = ms \<and> ss_Ids s' = ss_Ids s \<and> ss_Final s' = ss_Final s"
  using assms
  by (simp add: SessionCleanup_def bindS_def BumpCleanup_def Point_def modS_def StateCleanup_def Let_def list_sizes_def)

lemma max_is_top:
  assumes inv: "table_inv ky S m d" and i: "i \<in> max_by ky S"
  shows "\<exists>r. map_of m (ky i) = Some r \<and> r \<le> it_Ratio i"
proof -
  from i have "i \<in> S" using max_by_subset by blast
  then obtain r where r: "map_of m (ky i) = Some r" using table_invD(1) [OF inv] by blast
  then obtain k where "k \<in> S" "ky k = ky i" "it_Ratio k = r" using inv unfolding table_inv_def by blast
  with i r show ?thesis by (auto simp: max_by_def)
qed

lemma max_values:
  assumes "table_inv ky S m d" and "i \<in> S"
  shows "\<exists>r. map_of m (ky i) = Some r \<and> (r \<le> it_Ratio i \<longrightarrow> i \<in> max_by ky S)"
proof -
  from table_invD(1) [OF assms] obtain r where r: "map_of m (ky i) = Some r" by blast
  have "it_Ratio k \<le> it_Ratio i" if "r \<le> it_Ratio i" "k \<in> S" "ky k = ky i" for k
    using table_invD(1) [OF assms(1) that(2)] that(1,3) r by force
  with r assms(2) show ?thesis by (auto simp: max_by_def)
qed

text \<open>What the pass means to select: the items that are best for their first address and, among
  those, best for their second, when no other pair of addresses is equally good on either side.\<close>

definition final_choice :: "Item set \<Rightarrow> Item set" where
  "final_choice S =
     (let M = max_by it_Ea1 S; D = max_by it_Ea2 M
      in {i \<in> D. (\<forall>j\<in>M. it_Ea1 j = it_Ea1 i \<longrightarrow> it_Ea2 j = it_Ea2 i) \<and>
                 (\<forall>j\<in>D. it_Ea2 j = it_Ea2 i \<longrightarrow> it_Ea1 j = it_Ea1 i)})"

lemma final_choiceD:
  "i \<in> final_choice S \<Longrightarrow> i \<in> max_by it_Ea2 (max_by it_Ea1 S) \<and>
     (\<forall>j\<in>max_by it_Ea1 S. it_Ea1 j = it_Ea1 i \<longrightarrow> it_Ea2 j = it_Ea2 i) \<and>
     (\<forall>j\<in>max_by it_Ea2 (max_by it_Ea1 S). it_Ea2 j = it_Ea2 i \<longrightarrow> it_Ea1 j = it_Ea1 i)"
  unfolding final_choice_def Let_def by (rule CollectD)

lemma unambiguous_group:
  assumes inv: "table_inv ky S m d" and one: "\<forall>j\<in>max_by ky S. ky j = e \<longrightarrow> ea_pair j = p"
  shows "length (md_group d e) \<le> 1"
proof -
  have "ea_pair j = p" if "j \<in> set (md_group d e)" for j
    using one table_invD(3,4) [OF inv that] by blast
  then have "set (map ea_pair (md_group d e)) \<subseteq> {p}" by auto
  moreover have "distinct (map ea_pair (md_group d e))" using inv by (simp add: table_inv_def)
  ultimately show ?thesis
    using card_mono [of "{p}" "set (map ea_pair (md_group d e))"] distinct_card [of "map ea_pair (md_group d e)"]
    by simp
qed

lemma final_ok_iff_choice:
  assumes inv: "scan_inv ids S sc" and keys: "keys_ok ids S" and i: "i \<in> S"
    and im: "set im = {e \<in> set (md_Order (fs_MultiMain sc)). length (md_group (fs_MultiMain sc) e) > 1 \<and>
                 \<not> pair_key ids ` set (md_group (fs_MultiMain sc) e) \<subseteq> {}}"
    and dn: "set dn = pair_key ids ` big (fs_MultiMain sc) (set (md_Order (fs_MultiMain sc)))"
    and id': "set id' = {e \<in> set (md_Order (fs_MultiDiff sc)). length (md_group (fs_MultiDiff sc) e) > 1 \<and>
                 \<not> pair_key ids ` set (md_group (fs_MultiDiff sc) e) \<subseteq> set dn}"
  shows "final_ok sc im id' i \<longleftrightarrow> i \<in> final_choice S"
proof -
  let ?M = "max_by it_Ea1 S" let ?D = "max_by it_Ea2 ?M"
  from inv have t1: "table_inv it_Ea1 S (fs_MaxMain sc) (fs_MultiMain sc)"
    and t2: "table_inv it_Ea2 ?M (fs_MaxDiff sc) (fs_MultiDiff sc)" by (simp_all add: scan_inv_def)
  show ?thesis
  proof
    assume ok: "final_ok sc im id' i"
    then have no: "it_Ea1 i \<notin> set im" "it_Ea2 i \<notin> set id'" by (simp_all add: final_ok_def)
    from final_ok_max [OF inv i ok] have M: "i \<in> ?M" and D: "i \<in> ?D" by blast+
    have main: "it_Ea2 j = it_Ea2 i" if "j \<in> ?M" "it_Ea1 j = it_Ea1 i" for j
      using two_in_group [OF t1 M that(1)] that(2) no(1) unfolding im by force
    have "it_Ea1 j = it_Ea1 i" if j: "j \<in> ?D" "it_Ea2 j = it_Ea2 i" for j
    proof (rule ccontr)
      assume "it_Ea1 j \<noteq> it_Ea1 i"
      from two_in_group [OF t2 D j(1)] j(2) this obtain k where k: "it_Ea2 i \<in> set (md_Order (fs_MultiDiff sc))"
        "length (md_group (fs_MultiDiff sc) (it_Ea2 i)) > 1"
        "k \<in> set (md_group (fs_MultiDiff sc) (it_Ea2 i))" "ea_pair k = ea_pair i" by auto
      with no(2) have "pair_key ids k \<in> set dn" unfolding id' by blast
      then obtain e l where l: "e \<in> set (md_Order (fs_MultiMain sc))" "length (md_group (fs_MultiMain sc) e) > 1"
        "l \<in> set (md_group (fs_MultiMain sc) e)" "pair_key ids l = pair_key ids k"
        unfolding dn big_def by auto
      have "l \<in> S" "k \<in> S"
        using table_invD(4) [OF t1 l(3)] table_invD(4) [OF t2 k(3)] max_by_subset by blast+
      with keys l(4) have "ea_pair l = ea_pair k" unfolding keys_ok_def by blast
      with k(4) table_invD(3) [OF t1 l(3)] have "e = it_Ea1 i" by simp
      with l no(1) show False unfolding im by auto
    qed
    with D main show "i \<in> final_choice S" unfolding final_choice_def Let_def by blast
  next
    assume "i \<in> final_choice S"
    from final_choiceD [OF this] have D: "i \<in> ?D" and main: "\<forall>j\<in>?M. it_Ea1 j = it_Ea1 i \<longrightarrow> ea_pair j = ea_pair i"
      and diff: "\<forall>j\<in>?D. it_Ea2 j = it_Ea2 i \<longrightarrow> ea_pair j = ea_pair i"
      by (blast intro: arg_cong2 [where f = Pair])+
    from D have M: "i \<in> ?M" using max_by_subset by blast
    from unambiguous_group [OF t1 main] unambiguous_group [OF t2 diff]
    have "it_Ea1 i \<notin> set im" "it_Ea2 i \<notin> set id'" unfolding im id' by auto
    with max_is_top [OF t1 M] max_is_top [OF t2 D] show "final_ok sc im id' i" by (auto simp: final_ok_def)
  qed
qed

definition final_ready :: "('r, 'h) Session \<Rightarrow> bool" where
  "final_ready s \<longleftrightarrow> addrs_wf (ss_Ids s) \<and> ratios_ok (ss_State s) \<and>
     (\<forall>it\<in>set (all_items (ss_State s)). item_known (ss_Ids s) it \<and>
        decimal_addr (ss_Ids s) (it_Ea1 it) \<and> decimal_addr (ss_Ids s) (it_Ea2 it))"

lemma choose_filter:
  "map snd (filter (\<lambda>x. fst x = c) (filter (\<lambda>(c, it). P it) (visited ms))) = filter P (SortedResults ms c)"
  by (cases c) (simp_all add: visited_def filter_map comp_def)

lemma StageFinalPass_run:
  fixes s :: "('r, 'h) Session"
  assumes ready: "final_ready s"
  shows "\<exists>s' ys. StageFinalPass s = (Inr (), s') \<and> Cleanup (ss_Ids s) (ss_State s) = Inr (ss_State s') \<and>
     set ys \<subseteq> set (all_items (ss_State s')) \<and>
     fr_Multimatch (ss_Final s') = fr_Multimatch (ss_Final s) @ ys \<and>
     (let pick = filter (\<lambda>it. it \<in> final_choice (set (all_items (ss_State s')))) in
      fr_Best (ss_Final s') = fr_Best (ss_Final s) @ pick (SortedResults (ss_State s') Best) \<and>
      fr_Partial (ss_Final s') = fr_Partial (ss_Final s) @ pick (SortedResults (ss_State s') Partial) \<and>
      fr_Unreliable (ss_Final s') = fr_Unreliable (ss_Final s) @ pick (SortedResults (ss_State s') Unreliable))"
proof -
  let ?ids = "ss_Ids s"
  obtain ms where ms: "Cleanup ?ids (ss_State s) = Inr ms"
    using Cleanup_total [of "ss_State s" ?ids] ready by (auto simp: final_ready_def)
  obtain s1 where s1: "SessionCleanup L2945 s = (Inr (), s1)" "ss_State s1 = ms" "ss_Ids s1 = ?ids" "ss_Final s1 = ss_Final s"
    using SessionCleanup_run [OF ms] by blast
  let ?U = "set (all_items ms)"
  have U: "snd ` set (visited ms) = ?U" by (auto simp: set_visited set_all_items image_iff)
  have dec: "\<forall>it\<in>?U. decimal_addr ?ids (it_Ea1 it) \<and> decimal_addr ?ids (it_Ea2 it)"
    using ready Cleanup_members_subset [OF ms] by (auto simp: final_ready_def)
  have keys: "keys_ok ?ids ?U" using ready dec by (simp add: final_ready_def keys_ok_decimal)
  have ch: "\<forall>it\<in>?U. chooser_ok ?ids it" using dec by (simp add: chooser_ok_def RequirePyInt_decimal)
  have "descending (map snd (visited ms))"
    using ready ratios_ok_Cleanup [OF ms] by (simp add: final_ready_def visited_descending)
  then obtain sc where sc: "find_multimatches ?ids (map snd (visited ms)) empty_FinalScan = Inr sc" "scan_inv ?ids ?U sc"
    using find_multimatches_inv [of ?ids "{}" "map snd (visited ms)" empty_FinalScan] scan_inv_empty keys U by auto
  then have t1: "table_inv it_Ea1 ?U (fs_MaxMain sc) (fs_MultiMain sc)"
    and t2: "table_inv it_Ea2 (max_by it_Ea1 ?U) (fs_MaxDiff sc) (fs_MultiDiff sc)" by (simp_all add: scan_inv_def)
  obtain im dn s2 where s2: "AddMultimatchesToChooser (fs_MultiMain sc) ([], []) s1 = (Inr (im, dn), s2)"
    "multi_effect ?U s1 s2" "set dn = set [] \<union> pair_key ?ids ` big (fs_MultiMain sc) (set (md_Order (fs_MultiMain sc)))"
    "set im = {e \<in> set (md_Order (fs_MultiMain sc)). length (md_group (fs_MultiMain sc) e) > 1 \<and>
                 \<not> pair_key ?ids ` set (md_group (fs_MultiMain sc) e) \<subseteq> set []}"
    using AddMultimatches_run [OF t1, of s1 ?U "[]", unfolded s1(3)] keys ch by blast
  have ids2: "ss_Ids s2 = ?ids" using multi_effect_ids [OF s2(2)] s1 by simp
  obtain id' dn' s3 where s3: "AddMultimatchesToChooser (fs_MultiDiff sc) ([], dn) s2 = (Inr (id', dn'), s3)"
    "multi_effect (max_by it_Ea1 ?U) s2 s3"
    "set id' = {e \<in> set (md_Order (fs_MultiDiff sc)). length (md_group (fs_MultiDiff sc) e) > 1 \<and>
                 \<not> pair_key ?ids ` set (md_group (fs_MultiDiff sc) e) \<subseteq> set dn}"
    using AddMultimatches_run [OF t2, of s2 ?U dn, unfolded ids2] keys ch max_by_subset by blast
  have s3': "ss_Ids s3 = ?ids" "ss_State s3 = ms"
    using multi_effect_ids [OF s3(2)] multi_effect_ids [OF s2(2)] ids2 s1 by simp_all
  let ?ok = "final_ok sc im id'"
  have ok_iff: "?ok it \<longleftrightarrow> it \<in> final_choice ?U" if "it \<in> ?U" for it
    using final_ok_iff_choice [OF sc(2) keys that _ _ s3(3)] s2(3,4) by simp
  have "\<exists>mm. map_of (fs_MaxMain sc) (it_Ea1 it) = Some mm \<and> (mm \<le> it_Ratio it \<longrightarrow> map_of (fs_MaxDiff sc) (it_Ea2 it) \<noteq> None)"
    if "it \<in> ?U" for it
    using max_values [OF t1 that] table_invD(1) [OF t2] by (metis option.distinct(1))
  then have "final_items sc im id' (visited ms) s3 =
      (Inr (), s3\<lparr>ss_Final := push_all (filter (\<lambda>(c, it). ?ok it) (visited ms)) (ss_Final s3)\<rparr>)"
    using final_items_run [of "visited ms" s3 sc im id'] U ch by (force simp: s3')
  then have run: "StageFinalPass s =
      (Inr (), s3\<lparr>ss_Final := push_all (filter (\<lambda>(c, it). ?ok it) (visited ms)) (ss_Final s3)\<rparr>)"
    using s1 s2(1) s3(1) sc(1) s3' by (simp add: StageFinalPass_def bindS_def getS_def)
  have pick: "filter ?ok (SortedResults ms c) = filter (\<lambda>it. it \<in> final_choice ?U) (SortedResults ms c)" for c
    using ok_iff set_all_items [of ms] by (intro filter_cong) (auto simp: SortedResults_def)
  obtain ys where ys: "set ys \<subseteq> ?U" "ss_Final s3 = (ss_Final s)\<lparr>fr_Multimatch := fr_Multimatch (ss_Final s) @ ys\<rparr>"
    using multi_effect_trans [OF s2(2) s3(2)] s1(4) max_by_subset [of it_Ea1 ?U]
    unfolding multi_effect_def by (auto simp: Un_absorb2)
  show ?thesis
    using run ms ys s3'(2) by (simp add: push_all_lists choose_filter pick Let_def del: filter_filter)
qed

section \<open>Properties of the final pass\<close>

text \<open>A session with one best and two competing partial items over decimal addresses.\<close>

definition demo_ids2 :: Interners where
  "demo_ids2 = snd (AddrOpt (snd (AddrOpt (snd (AddrOpt demo_ids (Some ''4096''))) (Some ''8192''))) (Some ''12288''))"

definition demo_final :: "(unit, unit) Session" where
  "demo_final = \<lparr>ss_Ids = demo_ids2,
     ss_State = empty_MatchState\<lparr>ms_Lists := (\<lambda>c. case c of
        Best \<Rightarrow> [demo_item 1 1 1 2 1]
      | Partial \<Rightarrow> [demo_item 2 3 2 2 (1 / 2), demo_item 3 3 2 1 (3 / 4)]
      | Unreliable \<Rightarrow> [])\<rparr>,
     ss_Ratio = (), ss_Hook = (), ss_HooksLoaded = False, ss_MaxProcessedRows = 1000, ss_Frames = [], ss_Trace = [],
     ss_CleanupCounters = [], ss_PointSeq = 0,
     ss_Final = \<lparr>fr_Best = [], fr_Partial = [], fr_Unreliable = [], fr_Multimatch = [],
                 fr_UnmatchedPrimary = None, fr_UnmatchedSecondary = None\<rparr>,
     ss_IsSymbolsStripped = False, ss_IsPatchDiff = False, ss_Truncations = []\<rparr>"

lemma demo_ids2_eval:
  "demo_ids2 = demo_ids\<lparr>Addrs := \<lparr>Views = [''4096'', ''8192'', ''12288''],
     Index = [(''4096'', 0), (''8192'', 1), (''12288'', 2)]\<rparr>\<rparr>"
  by (simp add: demo_ids2_def demo_ids_eval AddrOpt_def AddrOf_def Intern_def empty_Interner_def)

lemma demo_ids2_wf: "addrs_wf demo_ids2"
proof -
  have "addrs_wf demo_ids" "addrs_room demo_ids 3"
    by (simp_all add: addrs_wf_def addrs_room_def interner_room_def demo_ids_eval) (simp_all add: empty_Interner_def)
  then show ?thesis unfolding demo_ids2_def
    by (metis addrs.intern_invar addrs.intern_room numeral_3_eq_3)
qed

lemma demo_addr: "decimal_addr demo_ids2 1" "decimal_addr demo_ids2 2" "decimal_addr demo_ids2 3"
  by (simp_all add: decimal_addr_def AddrText_def Interner_Text_def demo_ids2_eval kNoneAddr_def IsDigit_def)

lemma demo_final_ready: "final_ready demo_final"
  using demo_addr demo_ids2_wf
  by (auto simp: final_ready_def demo_final_def all_items_def ratios_ok_def demo_item_def item_known_def
      known_name_def demo_ids2_eval demo_ids_eval)

text \<open>C1. For a session whose items have decimal addresses, interned names and ratios as the
  default configuration routes them, \<^verbatim>\<open>StageFinalPass\<close> never raises (neither of the two
  \<^verbatim>\<open>KeyError\<close> branches nor an \<^verbatim>\<open>int()\<close> error is reached), and each result chooser receives,
  in order, exactly the items of its cleaned and sorted list that are the only best ones for their first
  address and, among the items that are best for their first address, the only best ones for their second.\<close>

theorem final_pass_selects:
  assumes "final_ready s"
  shows "\<exists>s' ys. StageFinalPass s = (Inr (), s') \<and> Cleanup (ss_Ids s) (ss_State s) = Inr (ss_State s') \<and>
     set ys \<subseteq> set (all_items (ss_State s')) \<and>
     fr_Multimatch (ss_Final s') = fr_Multimatch (ss_Final s) @ ys \<and>
     (let pick = filter (\<lambda>it. it \<in> final_choice (set (all_items (ss_State s')))) in
      fr_Best (ss_Final s') = fr_Best (ss_Final s) @ pick (SortedResults (ss_State s') Best) \<and>
      fr_Partial (ss_Final s') = fr_Partial (ss_Final s) @ pick (SortedResults (ss_State s') Partial) \<and>
      fr_Unreliable (ss_Final s') = fr_Unreliable (ss_Final s) @ pick (SortedResults (ss_State s') Unreliable))"
  using assms by (rule StageFinalPass_run)

theorem final_pass_selects_witness:
  "\<exists>s'. StageFinalPass demo_final = (Inr (), s') \<and>
     (\<exists>pick. fr_Best (ss_Final s') = filter pick (SortedResults (ss_State s') Best))"
  using final_pass_selects [OF demo_final_ready] by (auto simp: demo_final_def Let_def)

lemma final_choice_one_to_one:
  assumes "i \<in> final_choice S" "j \<in> final_choice S"
  shows "it_Ea1 i = it_Ea1 j \<longleftrightarrow> it_Ea2 i = it_Ea2 j"
    and "k \<in> S \<Longrightarrow> it_Ea1 k = it_Ea1 i \<Longrightarrow> it_Ratio k \<le> it_Ratio i"
    and "k \<in> max_by it_Ea1 S \<Longrightarrow> it_Ea2 k = it_Ea2 i \<Longrightarrow> it_Ratio k \<le> it_Ratio i"
proof -
  let ?M = "max_by it_Ea1 S" let ?D = "max_by it_Ea2 ?M"
  have ij: "i \<in> ?D" "j \<in> ?D" "i \<in> ?M" "j \<in> ?M"
    using final_choiceD [OF assms(1)] final_choiceD [OF assms(2)] max_by_subset [of it_Ea2 ?M] by blast+
  then show "it_Ea1 i = it_Ea1 j \<longleftrightarrow> it_Ea2 i = it_Ea2 j"
    using final_choiceD [OF assms(1)] final_choiceD [OF assms(2)] by metis
  show "k \<in> S \<Longrightarrow> it_Ea1 k = it_Ea1 i \<Longrightarrow> it_Ratio k \<le> it_Ratio i"
    using ij(3) by (simp add: max_by_def)
  show "k \<in> max_by it_Ea1 S \<Longrightarrow> it_Ea2 k = it_Ea2 i \<Longrightarrow> it_Ratio k \<le> it_Ratio i"
    using ij(1) by (simp add: max_by_def [of it_Ea2])
qed

text \<open>C2. The result of the final pass is a matching: in a session that is ready for it (decimal addresses, interned
  names, ratios as the default configuration routes them) and starts with empty choosers, two items in the best, partial
  or unreliable results agree on the first address exactly when they agree on the second; no candidate of the cleaned lists
  has a higher ratio for the first address of a result; and no candidate that is itself best for its first address has a
  higher ratio for the second address of a result. (A candidate with a higher ratio for that second address may exist: it
  has then lost on its own first address, as in Diaphora.)\<close>

theorem final_pass_one_to_one:
  assumes "final_ready s" and "fr_Best (ss_Final s) = []" and "fr_Partial (ss_Final s) = []"
    and "fr_Unreliable (ss_Final s) = []"
  shows "\<exists>s'. StageFinalPass s = (Inr (), s') \<and>
     (let results = set (fr_Best (ss_Final s') @ fr_Partial (ss_Final s') @ fr_Unreliable (ss_Final s'))
      in (\<forall>i\<in>results. \<forall>j\<in>results. it_Ea1 i = it_Ea1 j \<longleftrightarrow> it_Ea2 i = it_Ea2 j) \<and>
         (\<forall>i\<in>results. \<forall>k\<in>set (all_items (ss_State s')). it_Ea1 k = it_Ea1 i \<longrightarrow> it_Ratio k \<le> it_Ratio i) \<and>
         (\<forall>i\<in>results. \<forall>k\<in>max_by it_Ea1 (set (all_items (ss_State s'))). it_Ea2 k = it_Ea2 i \<longrightarrow> it_Ratio k \<le> it_Ratio i))"
proof -
  obtain s' where run: "StageFinalPass s = (Inr (), s')" and
    lists: "let pick = filter (\<lambda>it. it \<in> final_choice (set (all_items (ss_State s')))) in
      fr_Best (ss_Final s') = fr_Best (ss_Final s) @ pick (SortedResults (ss_State s') Best) \<and>
      fr_Partial (ss_Final s') = fr_Partial (ss_Final s) @ pick (SortedResults (ss_State s') Partial) \<and>
      fr_Unreliable (ss_Final s') = fr_Unreliable (ss_Final s) @ pick (SortedResults (ss_State s') Unreliable)"
    using StageFinalPass_run [OF assms(1)] by blast
  let ?R = "set (fr_Best (ss_Final s') @ fr_Partial (ss_Final s') @ fr_Unreliable (ss_Final s'))"
  have R: "?R \<subseteq> final_choice (set (all_items (ss_State s')))"
    using lists assms(2-4) by (auto simp: Let_def)
  have "it_Ea1 i = it_Ea1 j \<longleftrightarrow> it_Ea2 i = it_Ea2 j" if "i \<in> ?R" "j \<in> ?R" for i j
    using that R final_choice_one_to_one(1) by blast
  moreover have "it_Ratio k \<le> it_Ratio i" if "i \<in> ?R" "k \<in> set (all_items (ss_State s'))" "it_Ea1 k = it_Ea1 i" for i k
    using that R final_choice_one_to_one(2) by blast
  moreover have "it_Ratio k \<le> it_Ratio i" if "i \<in> ?R" "k \<in> max_by it_Ea1 (set (all_items (ss_State s')))" "it_Ea2 k = it_Ea2 i" for i k
    using that R final_choice_one_to_one(3) by blast
  ultimately show ?thesis using run unfolding Let_def by blast
qed

theorem final_pass_one_to_one_witness:
  "\<exists>s'. StageFinalPass demo_final = (Inr (), s') \<and>
     (\<forall>i\<in>set (fr_Partial (ss_Final s')). \<forall>j\<in>set (fr_Best (ss_Final s')). it_Ea1 i = it_Ea1 j \<longleftrightarrow> it_Ea2 i = it_Ea2 j)"
  using final_pass_one_to_one [OF demo_final_ready] unfolding Let_def by (auto simp: demo_final_def)

section \<open>A key collision\<close>

text \<open>Without decimal addresses two different pairs of addresses can have the same key text: the pairs \<^verbatim>\<open>1, -3\<close> and
  \<^verbatim>\<open>1-, 3\<close>. The scan then skips the second item before its maximum is recorded, and the final loop raises the
  \<^verbatim>\<open>KeyError\<close> that Python raises there.\<close>

definition collide_ids :: Interners where
  "collide_ids = \<lparr>Names = \<lparr>Views = [''main'', ''sub_401000'', ''helper''],
                Index = [(''main'', 0), (''sub_401000'', 1), (''helper'', 2)]\<rparr>, Descs = empty_Interner, Addrs = \<lparr>Views = [''1'', ''-3'', ''1-'', ''3''],
     Index = [(''1'', 0), (''-3'', 1), (''1-'', 2), (''3'', 3)]\<rparr>\<rparr>"

definition collide_session :: "(unit, unit) Session" where
  "collide_session = demo_final\<lparr>ss_Ids := collide_ids,
     ss_State := empty_MatchState\<lparr>ms_Lists := (\<lambda>c. if c = Best then [demo_item 1 1 2 2 1, demo_item 3 3 4 2 1] else [])\<rparr>\<rparr>"

lemma final_pass_key_collision: "fst (StageFinalPass collide_session) = Inl (DiaphoraWouldRaise ''D:2931 KeyError'' ''1-'')"
  by code_simp

end
