(* ===== verification/Utf8.thy ===== *)
theory Utf8
  imports Prelude
begin

unbundle bit_operations_syntax

text \<open>
  \<^verbatim>\<open>IsValidUtf8\<close> of \<^verbatim>\<open>src/diff/Ingest.cpp\<close>: the validation every text cell of an export
  goes through. It is shown to accept exactly the encodings of sequences of Unicode scalar values,
  with its eight-byte ASCII fast path.
\<close>

section \<open>The validator\<close>

abbreviation byte :: "char \<Rightarrow> nat" where
  "byte c \<equiv> of_char c"

text \<open>The little-endian load of the fast path.\<close>

definition Load64 :: "string \<Rightarrow> 64 word" where
  "Load64 bs = foldr (OR) (map (\<lambda>i. push_bit (8 * i) (of_char (bs ! i) :: 64 word)) [0..<8]) 0"

function skip_ascii8 :: "string \<Rightarrow> string" where
  "skip_ascii8 bs =
     (if 8 \<le> length bs \<and> Load64 (take 8 bs) AND 0x8080808080808080 = 0
      then skip_ascii8 (drop 8 bs) else bs)"
  by auto
termination by (relation "measure length") auto

declare skip_ascii8.simps [simp del]

text \<open>\<^verbatim>\<open>Need\<close>, \<^verbatim>\<open>Min\<close> and the first bits of \<^verbatim>\<open>Code\<close> for a lead byte that is not ASCII.\<close>

definition utf8_lead :: "nat \<Rightarrow> (nat \<times> nat \<times> nat) option" where
  "utf8_lead lead =
     (if 0xC2 \<le> lead \<and> lead \<le> 0xDF then Some (1, 0x80, lead AND 0x1F)
      else if 0xE0 \<le> lead \<and> lead \<le> 0xEF then Some (2, 0x800, lead AND 0x0F)
      else if 0xF0 \<le> lead \<and> lead \<le> 0xF4 then Some (3, 0x10000, lead AND 0x07)
      else None)"

fun utf8_tail :: "nat \<Rightarrow> string \<Rightarrow> nat option" where
  "utf8_tail code [] = Some code"
| "utf8_tail code (c # cs) =
     (if byte c AND 0xC0 \<noteq> 0x80 then None else utf8_tail (push_bit 6 code OR (byte c AND 0x3F)) cs)"

lemma skip_ascii8_length: "length (skip_ascii8 bs) \<le> length bs"
proof (induction bs rule: skip_ascii8.induct)
  case (1 bs)
  then show ?case by (subst skip_ascii8.simps) (auto simp: not_le dest: le_trans [OF _ diff_le_self])
qed

function IsValidUtf8 :: "string \<Rightarrow> bool" where
  "IsValidUtf8 bs =
     (case skip_ascii8 bs of
        [] \<Rightarrow> True
      | c # rest \<Rightarrow>
          if byte c < 0x80 then IsValidUtf8 rest
          else case utf8_lead (byte c) of
            None \<Rightarrow> False
          | Some (need, minimum, code0) \<Rightarrow>
              if length (c # rest) \<le> need then False
              else case utf8_tail code0 (take need rest) of
                None \<Rightarrow> False
              | Some code \<Rightarrow>
                  if code < minimum \<or> code > 0x10FFFF \<or> (code \<ge> 0xD800 \<and> code \<le> 0xDFFF) then False
                  else IsValidUtf8 (drop need rest))"
  by pat_completeness auto
termination
proof (relation "measure length", goal_cases)
  case (2 bs c rest)
  with skip_ascii8_length [of bs] show ?case by simp
next
  case (3 bs c rest)
  with skip_ascii8_length [of bs] show ?case by (auto intro: le_less_trans)
qed simp

declare IsValidUtf8.simps [simp del]

section \<open>Encoding\<close>

definition scalar :: "nat \<Rightarrow> bool" where
  "scalar cp \<longleftrightarrow> cp \<le> 0x10FFFF \<and> \<not> (0xD800 \<le> cp \<and> cp \<le> 0xDFFF)"

definition utf8_encode :: "nat \<Rightarrow> nat list" where
  "utf8_encode cp =
     (if cp < 0x80 then [cp]
      else if cp < 0x800 then [0xC0 + cp div 64, 0x80 + cp mod 64]
      else if cp < 0x10000 then [0xE0 + cp div 4096, 0x80 + cp div 64 mod 64, 0x80 + cp mod 64]
      else [0xF0 + cp div 262144, 0x80 + cp div 4096 mod 64, 0x80 + cp div 64 mod 64, 0x80 + cp mod 64])"

definition utf8_text :: "string \<Rightarrow> bool" where
  "utf8_text bs \<longleftrightarrow> (\<exists>cps. list_all scalar cps \<and> map byte bs = concat (map utf8_encode cps))"

section \<open>Bit fields as arithmetic\<close>

lemma byte_less: "byte c < 256"
  by simp

lemma and_C0: "n AND 0xC0 = 64 * (n div 64 mod 4)" for n :: nat
proof -
  have "n AND push_bit 6 (mask 2) = push_bit 6 (take_bit 2 (drop_bit 6 n))"
    by (rule bit_eqI) (auto simp: bit_simps)
  then show ?thesis by (simp add: mask_eq_exp_minus_1 push_bit_eq_mult take_bit_eq_mod drop_bit_eq_div)
qed

lemma continuation_iff: "n < 256 \<Longrightarrow> n AND 0xC0 = 0x80 \<longleftrightarrow> 128 \<le> n \<and> n < 192" for n :: nat
proof -
  assume "n < 256"
  then have "n div 64 < 4" by (simp add: less_mult_imp_div_less)
  then have "n AND 0xC0 = 64 * (n div 64)" by (simp add: and_C0)
  moreover have "n = 64 * (n div 64) + n mod 64" "n mod 64 < 64" by simp_all
  moreover have "n div 64 = 2" if "128 \<le> n" "n < 192" using that by (intro div_nat_eqI) simp_all
  ultimately show ?thesis by (auto; linarith)
qed

lemma and_low:
  "n AND 0x3F = n mod 64" "n AND 0x1F = n mod 32" "n AND 0x0F = n mod 16" "n AND 0x07 = n mod 8" for n :: nat
  using take_bit_eq_mask [of 6 n] take_bit_eq_mask [of 5 n] take_bit_eq_mask [of 4 n] take_bit_eq_mask [of 3 n]
  by (simp_all add: mask_eq_exp_minus_1 take_bit_eq_mod)

lemma shift_or: "push_bit 6 a OR (b mod 64) = 64 * a + b mod 64" for a b :: nat
proof -
  have "push_bit 6 a OR take_bit 6 b = push_bit 6 a + take_bit 6 b"
    by (rule sym, rule disjunctive_add) (auto simp: bit_simps)
  then show ?thesis by (simp add: push_bit_eq_mult take_bit_eq_mod mult.commute)
qed

lemma utf8_tail_Cons:
  "utf8_tail code (c # cs) =
     (if 128 \<le> byte c \<and> byte c < 192 then utf8_tail (64 * code + byte c mod 64) cs else None)"
  using continuation_iff [OF byte_less, of c] by (simp add: and_low shift_or)

declare utf8_tail.simps(2) [simp del]

section \<open>The fast path skips ASCII only\<close>

lemma bit7_of_char: "bit (of_char c :: 64 word) 7 \<longleftrightarrow> 0x80 \<le> byte c"
proof -
  have "(of_char c :: 64 word) = of_nat (byte c)" by (simp only: of_nat_of_char)
  then have "bit (of_char c :: 64 word) 7 \<longleftrightarrow> bit (byte c) 7" by (simp add: bit_of_nat_iff)
  also have "\<dots> \<longleftrightarrow> odd (byte c div 128)" by (simp add: bit_iff_odd)
  also have "\<dots> \<longleftrightarrow> 0x80 \<le> byte c"
    using byte_less [of c] div_nat_eqI [of 128 1 "byte c"] by (cases "0x80 \<le> byte c") simp_all
  finally show ?thesis .
qed

lemma foldr_or_and_zero: "foldr (OR) ws 0 AND m = 0 \<longleftrightarrow> (\<forall>w\<in>set ws. w AND m = 0)" for m :: "64 word"
  by (induction ws) (auto simp: bit.conj_disj_distrib2 or_eq_0_iff)

lemma high_bits: "k < 64 \<Longrightarrow> bit (0x8080808080808080 :: 64 word) k \<longleftrightarrow> k mod 8 = 7"
proof -
  assume "k < 64"
  have "\<forall>k\<in>set [0..<64]. bit (0x8080808080808080 :: 64 word) k \<longleftrightarrow> k mod 8 = 7" by code_simp
  with \<open>k < 64\<close> show ?thesis by simp
qed

lemma and_zero_iff: "w AND m = 0 \<longleftrightarrow> (\<forall>k<64. \<not> (bit w k \<and> bit m k))" for w m :: "64 word"
  by (auto simp: bit_eq_iff bit_and_iff)

lemma high_bit_word:
  assumes "i < 8"
  shows "push_bit (8 * i) (of_char c :: 64 word) AND 0x8080808080808080 = 0 \<longleftrightarrow> byte c < 0x80"
proof -
  have small: "\<not> bit (of_char c :: 64 word) k" if "8 \<le> k" for k
  proof -
    have "(of_char c :: 64 word) = of_nat (byte c)" by (simp only: of_nat_of_char)
    moreover have "\<not> bit (byte c) k"
      using that byte_less [of c] bit_take_bit_iff [of 8 "byte c" k] by (simp add: take_bit_nat_eq_self)
    ultimately show ?thesis by (simp add: bit_of_nat_iff)
  qed
  have "push_bit (8 * i) (of_char c :: 64 word) AND 0x8080808080808080 = 0 \<longleftrightarrow>
      (\<forall>k<64. \<not> (bit (push_bit (8 * i) (of_char c :: 64 word)) k \<and> k mod 8 = 7))"
    using high_bits by (simp only: and_zero_iff) blast
  also have "\<dots> \<longleftrightarrow> \<not> bit (of_char c :: 64 word) 7"
  proof
    assume "\<forall>k<64. \<not> (bit (push_bit (8 * i) (of_char c :: 64 word)) k \<and> k mod 8 = 7)"
    from this [rule_format, of "8 * i + 7"] assms show "\<not> bit (of_char c :: 64 word) 7"
      by (simp add: bit_push_bit_iff)
  next
    assume 7: "\<not> bit (of_char c :: 64 word) 7"
    show "\<forall>k<64. \<not> (bit (push_bit (8 * i) (of_char c :: 64 word)) k \<and> k mod 8 = 7)"
    proof (intro allI impI notI)
      fix k :: nat assume "k < 64" and k: "bit (push_bit (8 * i) (of_char c :: 64 word)) k \<and> k mod 8 = 7"
      then have "8 * i \<le> k" by (simp add: bit_push_bit_iff)
      then obtain j where j: "k = 8 * i + j" using le_Suc_ex by blast
      with k have "bit (of_char c :: 64 word) j" by (simp add: bit_push_bit_iff)
      moreover from this small have "j < 8" using not_le by blast
      with k j have "j = 7" by simp
      ultimately show False using 7 by simp
    qed
  qed
  finally show ?thesis using bit7_of_char [of c] by auto
qed

lemma Load64_bit:
  assumes "length bs = 8"
  shows "Load64 bs AND 0x8080808080808080 = 0 \<longleftrightarrow> (\<forall>c\<in>set bs. byte c < 0x80)"
proof -
  have "Load64 bs AND 0x8080808080808080 = 0 \<longleftrightarrow> (\<forall>i<8. byte (bs ! i) < 0x80)"
    unfolding Load64_def foldr_or_and_zero by (auto simp: high_bit_word)
  with assms show ?thesis by (auto simp: all_set_conv_all_nth)
qed

section \<open>One encoded code point\<close>

lemma encode_nonempty: "utf8_encode cp \<noteq> []"
  by (simp add: utf8_encode_def)

lemma utf8_text_Nil [simp]: "utf8_text []"
  unfolding utf8_text_def by (intro exI [of _ "[]"]) simp

lemma utf8_text_Cons:
  "utf8_text (c # cs) \<longleftrightarrow>
     (\<exists>cp xs ys. scalar cp \<and> c # cs = xs @ ys \<and> map byte xs = utf8_encode cp \<and> utf8_text ys)"
proof
  assume "utf8_text (c # cs)"
  then obtain cps where cps: "list_all scalar cps" "map byte (c # cs) = concat (map utf8_encode cps)"
    unfolding utf8_text_def by blast
  then obtain cp rest where split: "cps = cp # rest" by (cases cps) auto
  with cps(2) have "map byte (c # cs) = utf8_encode cp @ concat (map utf8_encode rest)"
    by (simp only: list.map concat.simps)
  then obtain xs ys where "c # cs = xs @ ys" "map byte xs = utf8_encode cp" "map byte ys = concat (map utf8_encode rest)"
    by (auto simp only: map_eq_append_conv)
  with cps split show "\<exists>cp xs ys. scalar cp \<and> c # cs = xs @ ys \<and> map byte xs = utf8_encode cp \<and> utf8_text ys"
    unfolding utf8_text_def by (metis list.pred_inject(2))
next
  assume "\<exists>cp xs ys. scalar cp \<and> c # cs = xs @ ys \<and> map byte xs = utf8_encode cp \<and> utf8_text ys"
  then obtain cp xs ys cps where "scalar cp" "c # cs = xs @ ys" "map byte xs = utf8_encode cp"
    "list_all scalar cps" "map byte ys = concat (map utf8_encode cps)" unfolding utf8_text_def by blast
  then show "utf8_text (c # cs)" unfolding utf8_text_def by (intro exI [of _ "cp # cps"]) simp
qed

lemma encode_ascii: "byte c < 0x80 \<Longrightarrow> map byte (c # xs) = utf8_encode cp \<longleftrightarrow> cp = byte c \<and> xs = []"
  by (auto simp: utf8_encode_def)

lemma utf8_text_ascii: "byte c < 0x80 \<Longrightarrow> utf8_text (c # cs) \<longleftrightarrow> utf8_text cs"
proof
  assume c: "byte c < 0x80"
  {
    assume "utf8_text (c # cs)"
    then obtain cp xs ys where "c # cs = xs @ ys" "map byte xs = utf8_encode cp" "utf8_text ys"
      unfolding utf8_text_Cons by blast
    moreover from this have "xs = [c]" using encode_nonempty [of cp] encode_ascii [OF c] by (cases xs) auto
    ultimately show "utf8_text cs" by simp
  next
    assume "utf8_text cs"
    with c show "utf8_text (c # cs)" unfolding utf8_text_Cons
      by (intro exI [of _ "byte c"] exI [of _ "[c]"] exI [of _ cs]) (simp add: scalar_def utf8_encode_def)
  }
qed

lemma utf8_text_ascii_append: "\<forall>c\<in>set xs. byte c < 0x80 \<Longrightarrow> utf8_text (xs @ ys) \<longleftrightarrow> utf8_text ys"
  by (induction xs) (auto simp: utf8_text_ascii)

lemma utf8_text_skip: "utf8_text (skip_ascii8 bs) \<longleftrightarrow> utf8_text bs"
proof (induction bs rule: skip_ascii8.induct)
  case (1 bs)
  show ?case
  proof (cases "8 \<le> length bs \<and> Load64 (take 8 bs) AND 0x8080808080808080 = 0")
    case True
    then have "\<forall>c\<in>set (take 8 bs). byte c < 0x80" using Load64_bit [of "take 8 bs"] by simp
    from utf8_text_ascii_append [OF this, of "drop 8 bs"] 1 True show ?thesis
      by (subst skip_ascii8.simps) simp
  next
    case False
    then have "skip_ascii8 bs = bs" by (subst skip_ascii8.simps) (rule if_not_P)
    then show ?thesis by simp
  qed
qed

text \<open>The lead byte, the continuation bytes and the final range test accept one code point.\<close>

definition utf8_accepts :: "nat \<Rightarrow> string \<Rightarrow> nat \<Rightarrow> bool" where
  "utf8_accepts lead xs code \<longleftrightarrow>
     (\<exists>minimum code0. utf8_lead lead = Some (length xs, minimum, code0) \<and> utf8_tail code0 xs = Some code \<and>
        minimum \<le> code \<and> scalar code)"

lemma offset_mod:
  "l < 32 \<Longrightarrow> (0xC0 + l) mod 32 = l" "l < 16 \<Longrightarrow> (0xE0 + l) mod 16 = l" "l < 8 \<Longrightarrow> (0xF0 + l) mod 8 = l"
  "l < 64 \<Longrightarrow> (0x80 + l) mod 64 = l" for l :: nat
  by (rule mod_nat_eqI; simp)+

lemma div_mod_2:
  "a < 64 \<Longrightarrow> (64 * l + a) div 64 = l \<and> (64 * l + a) mod 64 = a" for a l :: nat
  by simp

lemma div_mod_3:
  fixes a b l :: nat
  assumes "a < 64" "b < 64"
  shows "(64 * (64 * l + a) + b) div 4096 = l \<and> (64 * (64 * l + a) + b) div 64 mod 64 = a \<and> (64 * (64 * l + a) + b) mod 64 = b"
proof -
  have "n div 4096 = n div 64 div 64" for n :: nat by (simp add: div_mult2_eq [symmetric])
  with div_mod_2 [OF assms(2), of "64 * l + a"] div_mod_2 [OF assms(1), of l] show ?thesis by (simp only:)
qed

lemma div_mod_4:
  fixes a b c l :: nat
  assumes "a < 64" "b < 64" "c < 64"
  shows "(64 * (64 * (64 * l + a) + b) + c) div 262144 = l \<and> (64 * (64 * (64 * l + a) + b) + c) div 4096 mod 64 = a \<and>
    (64 * (64 * (64 * l + a) + b) + c) div 64 mod 64 = b \<and> (64 * (64 * (64 * l + a) + b) + c) mod 64 = c"
proof -
  have "n div 262144 = n div 64 div 4096" "n div 4096 = n div 64 div 64" for n :: nat
    by (simp_all add: div_mult2_eq [symmetric])
  with div_mod_2 [OF assms(3), of "64 * (64 * l + a) + b"] div_mod_3 [OF assms(1,2), of l]
  show ?thesis by metis
qed

lemma split_3: "code = 64 * (64 * (code div 4096) + code div 64 mod 64) + code mod 64" for code :: nat
proof -
  have "code div 4096 = code div 64 div 64" by (simp add: div_mult2_eq [symmetric])
  then show ?thesis by simp
qed

lemma split_4: "code = 64 * (64 * (64 * (code div 262144) + code div 4096 mod 64) + code div 64 mod 64) + code mod 64" for code :: nat
proof -
  have "code div 4096 = code div 64 div 64" "code div 262144 = code div 64 div 64 div 64"
    by (simp_all add: div_mult2_eq [symmetric])
  then show ?thesis by simp
qed

lemma tail_byte: "128 \<le> n \<Longrightarrow> n < 192 \<Longrightarrow> \<exists>a<64. n = 0x80 + a \<and> n mod 64 = a" for n :: nat
proof -
  assume n: "128 \<le> n" "n < 192"
  then obtain a where a: "n = 0x80 + a" using le_Suc_ex by blast
  with n have "a < 64" by simp
  with a offset_mod(4) show ?thesis by blast
qed

lemma accepts_encode:
  assumes "utf8_accepts lead xs code"
  shows "lead # map byte xs = utf8_encode code"
proof -
  from assms obtain minimum code0 where lead: "utf8_lead lead = Some (length xs, minimum, code0)"
    and tail: "utf8_tail code0 xs = Some code" and code: "minimum \<le> code" "scalar code"
    unfolding utf8_accepts_def by blast
  from lead consider
      (two) "0xC2 \<le> lead" "lead \<le> 0xDF" "length xs = 1" "minimum = 0x80" "code0 = lead mod 32"
    | (three) "0xE0 \<le> lead" "lead \<le> 0xEF" "length xs = 2" "minimum = 0x800" "code0 = lead mod 16"
    | (four) "0xF0 \<le> lead" "lead \<le> 0xF4" "length xs = 3" "minimum = 0x10000" "code0 = lead mod 8"
    by (auto simp: utf8_lead_def and_low split: if_splits)
  then show ?thesis
  proof cases
    case two
    from two(3) obtain c where xs: "xs = [c]" by (auto simp: length_Suc_conv)
    obtain l where l: "lead = 0xC0 + l" "l < 32" using that [of "lead - 0xC0"] two by simp
    from tail xs have "128 \<le> byte c" "byte c < 192" by (simp_all add: utf8_tail_Cons split: if_splits)
    from tail_byte [OF this] obtain a where a: "a < 64" "byte c = 0x80 + a" "byte c mod 64 = a" by blast
    with tail xs two l have "code = 64 * l + a" by (simp add: utf8_tail_Cons offset_mod split: if_splits)
    with code two l a xs div_mod_2 [of a l] show ?thesis by (simp add: utf8_encode_def)
  next
    case three
    from three(3) obtain c d where xs: "xs = [c, d]" by (auto simp: length_Suc_conv numeral_2_eq_2)
    obtain l where l: "lead = 0xE0 + l" "l < 16" using that [of "lead - 0xE0"] three by simp
    from tail xs have "128 \<le> byte c" "byte c < 192" "128 \<le> byte d" "byte d < 192"
      by (simp_all add: utf8_tail_Cons split: if_splits)
    with tail_byte obtain a b where a: "a < 64" "byte c = 0x80 + a" "byte c mod 64 = a"
      and b: "b < 64" "byte d = 0x80 + b" "byte d mod 64 = b" by metis
    with tail xs three l have "code = 64 * (64 * l + a) + b" by (simp add: utf8_tail_Cons offset_mod split: if_splits)
    with code three l a b xs div_mod_3 [of a b l] show ?thesis by (simp add: utf8_encode_def)
  next
    case four
    from four(3) obtain c d e where xs: "xs = [c, d, e]" by (auto simp: length_Suc_conv numeral_3_eq_3)
    obtain l where l: "lead = 0xF0 + l" "l < 8" using that [of "lead - 0xF0"] four by simp
    from tail xs have "128 \<le> byte c" "byte c < 192" "128 \<le> byte d" "byte d < 192" "128 \<le> byte e" "byte e < 192"
      by (simp_all add: utf8_tail_Cons split: if_splits)
    with tail_byte obtain a b f where a: "a < 64" "byte c = 0x80 + a" "byte c mod 64 = a"
      and b: "b < 64" "byte d = 0x80 + b" "byte d mod 64 = b"
      and f: "f < 64" "byte e = 0x80 + f" "byte e mod 64 = f" by metis
    with tail xs four l have "code = 64 * (64 * (64 * l + a) + b) + f"
      by (simp add: utf8_tail_Cons offset_mod split: if_splits)
    with code four l a b f xs div_mod_4 [of a b f l] show ?thesis by (simp add: utf8_encode_def)
  qed
qed

lemma encode_accepts:
  assumes "scalar code" and "0x80 \<le> code" and "lead # map byte xs = utf8_encode code"
  shows "utf8_accepts lead xs code"
proof -
  have low: "128 \<le> 0x80 + n mod 64" "0x80 + n mod 64 < 192" "(0x80 + n mod 64) mod 64 = n mod 64" for n :: nat
    using offset_mod(4) [of "n mod 64"] by simp_all
  consider "code < 0x800" | "0x800 \<le> code" "code < 0x10000" | "0x10000 \<le> code" by linarith
  then show ?thesis
  proof cases
    case 1
    with assms obtain c where xs: "xs = [c]" "byte c = 0x80 + code mod 64" and lead: "lead = 0xC0 + code div 64"
      by (auto simp: utf8_encode_def)
    have l: "2 \<le> code div 64" "code div 64 < 32"
      using 1 assms(2) div_le_mono [of 128 code 64] less_mult_imp_div_less [of code 32 64] by simp_all
    with xs lead low [of code] offset_mod(1) [OF l(2)] assms(1,2) show ?thesis
      by (simp add: utf8_accepts_def utf8_lead_def utf8_tail_Cons and_low)
  next
    case 2
    with assms obtain c d where xs: "xs = [c, d]" "byte c = 0x80 + code div 64 mod 64" "byte d = 0x80 + code mod 64"
      and lead: "lead = 0xE0 + code div 4096" by (auto simp: utf8_encode_def)
    have l: "code div 4096 < 16" using 2 less_mult_imp_div_less [of code 16 4096] by simp
    have "utf8_tail (code div 4096) xs = Some (64 * (64 * (code div 4096) + code div 64 mod 64) + code mod 64)"
      using low [of code] low [of "code div 64"] by (simp add: xs utf8_tail_Cons)
    also have "\<dots> = Some code" by (rule arg_cong [OF split_3 [symmetric]])
    finally have "utf8_tail (code div 4096) xs = Some code" .
    with xs(1) lead 2 offset_mod(2) [OF l] l assms(1) show ?thesis
      by (simp add: utf8_accepts_def utf8_lead_def and_low)
  next
    case 3
    with assms obtain c d e where xs: "xs = [c, d, e]" "byte c = 0x80 + code div 4096 mod 64"
      "byte d = 0x80 + code div 64 mod 64" "byte e = 0x80 + code mod 64"
      and lead: "lead = 0xF0 + code div 262144" by (auto simp: utf8_encode_def)
    have "code div 262144 \<le> 0x10FFFF div 262144" using assms(1) by (intro div_le_mono) (simp add: scalar_def)
    then have l: "code div 262144 < 5" "code div 262144 < 8" by simp_all
    have "utf8_tail (code div 262144) xs =
        Some (64 * (64 * (64 * (code div 262144) + code div 4096 mod 64) + code div 64 mod 64) + code mod 64)"
      using low [of code] low [of "code div 64"] low [of "code div 4096"] by (simp add: xs utf8_tail_Cons)
    also have "\<dots> = Some code" by (rule arg_cong [OF split_4 [symmetric]])
    finally have "utf8_tail (code div 262144) xs = Some code" .
    with xs(1) lead 3 offset_mod(3) [OF l(2)] l(1) assms(1) show ?thesis
      by (simp add: utf8_accepts_def utf8_lead_def and_low)
  qed
qed

section \<open>The validator accepts exactly UTF-8\<close>

lemma utf8_text_multibyte:
  assumes c: "0x80 \<le> byte c"
  shows "utf8_text (c # cs) \<longleftrightarrow>
    (\<exists>n code. n \<le> length cs \<and> utf8_accepts (byte c) (take n cs) code \<and> utf8_text (drop n cs))"
proof
  assume "utf8_text (c # cs)"
  then obtain cp xs ys where cp: "scalar cp" "c # cs = xs @ ys" "map byte xs = utf8_encode cp" "utf8_text ys"
    unfolding utf8_text_Cons by blast
  then obtain zs where zs: "xs = c # zs" using encode_nonempty [of cp] by (cases xs) auto
  with cp c have "0x80 \<le> cp" by (auto simp: utf8_encode_def split: if_splits)
  with cp zs have "utf8_accepts (byte c) zs cp" by (intro encode_accepts) simp_all
  with cp zs show "\<exists>n code. n \<le> length cs \<and> utf8_accepts (byte c) (take n cs) code \<and> utf8_text (drop n cs)"
    by (intro exI [of _ "length zs"] exI [of _ cp]) auto
next
  assume "\<exists>n code. n \<le> length cs \<and> utf8_accepts (byte c) (take n cs) code \<and> utf8_text (drop n cs)"
  then obtain n code where n: "utf8_accepts (byte c) (take n cs) code" "utf8_text (drop n cs)" by blast
  then have "scalar code" "map byte (c # take n cs) = utf8_encode code"
    using accepts_encode [OF n(1)] by (auto simp: utf8_accepts_def)
  moreover have "c # cs = (c # take n cs) @ drop n cs" by simp
  ultimately show "utf8_text (c # cs)" using n(2) unfolding utf8_text_Cons by blast
qed

lemma IsValidUtf8_iff_text: "IsValidUtf8 bs \<longleftrightarrow> utf8_text bs"
proof (induction bs rule: IsValidUtf8.induct)
  case (1 bs)
  show ?case
  proof (cases "skip_ascii8 bs")
    case Nil
    then show ?thesis using utf8_text_skip [of bs] by (subst IsValidUtf8.simps) simp
  next
    case (Cons c rest)
    have text_bs: "utf8_text bs \<longleftrightarrow> utf8_text (c # rest)" using utf8_text_skip [of bs] Cons by simp
    show ?thesis
    proof (cases "byte c < 0x80")
      case True
      with 1(1) [OF Cons] Cons text_bs show ?thesis
        by (subst IsValidUtf8.simps) (simp add: utf8_text_ascii)
    next
      case False
      then have multi: "utf8_text bs \<longleftrightarrow>
          (\<exists>n code. n \<le> length rest \<and> utf8_accepts (byte c) (take n rest) code \<and> utf8_text (drop n rest))"
        using text_bs utf8_text_multibyte by simp
      show ?thesis
      proof (cases "utf8_lead (byte c)")
        case None
        with multi Cons False show ?thesis by (subst IsValidUtf8.simps) (simp add: utf8_accepts_def)
      next
        case (Some info)
        obtain need minimum code0 where info: "info = (need, minimum, code0)" by (cases info)
        have multi2: "utf8_text bs \<longleftrightarrow> need \<le> length rest \<and>
            (\<exists>code. utf8_tail code0 (take need rest) = Some code \<and> minimum \<le> code \<and> scalar code) \<and>
            utf8_text (drop need rest)"
          unfolding multi utf8_accepts_def using Some info by (auto simp: min_absorb2 cong: conj_cong)
        show ?thesis
          using 1(2) [OF Cons False Some info [symmetric] refl] multi2 Cons False Some info
          by (subst IsValidUtf8.simps) (auto simp: scalar_def not_le split: option.splits)
      qed
    qed
  qed
qed

text \<open>C18. \<^verbatim>\<open>IsValidUtf8\<close>, with its eight-byte fast path, accepts a byte string exactly when it
  is the concatenated UTF-8 encoding of Unicode scalar values: no overlong form, no surrogate,
  nothing above U+10FFFF, no truncated sequence.\<close>

theorem is_valid_utf8_iff: "IsValidUtf8 bs \<longleftrightarrow> (\<exists>cps. list_all scalar cps \<and> map byte bs = concat (map utf8_encode cps))"
  unfolding IsValidUtf8_iff_text utf8_text_def ..

end
