(* ===== verification/Unmatched.thy ===== *)
theory Unmatched
  imports FinalPass Utf8
begin

text \<open>
  \<^verbatim>\<open>StageFindUnmatched\<close> (\<^verbatim>\<open>src/diff/Unmatched.cpp\<close>). SQLite is outside the model: the two
  queries are given by the lists of their step outcomes (an error, or the two cells of a row).
\<close>

section \<open>The stage\<close>

datatype QueryCell = SqlNull | SqlText string | SqlOther

type_synonym query_rows = "(diff_error + QueryCell \<times> QueryCell) list"

record NameAddressRow =
  nar_Name :: NameId
  nar_Ea :: AddrId

definition TextCell :: "QueryCell \<Rightarrow> string \<Rightarrow> string \<Rightarrow> string option result" where
  "TextCell cell column query =
     (case cell of
        SqlNull \<Rightarrow> Inr None
      | SqlText bytes \<Rightarrow>
          if \<not> IsValidUtf8 bytes
          then Inl (DiaphoraWouldRaise ''fetch''
                 (''OperationalError: Could not decode to UTF-8 column '' @ quote @ column @ quote @ '' ('' @ query @ '')''))
          else Inr (Some bytes)
      | SqlOther \<Rightarrow>
          Inl (UnsupportedInput (''find_unmatched: non-TEXT value in column '' @ quote @ column @ quote
                 @ '' of `'' @ query @ ''`'')))"

definition session_NameOpt :: "string option \<Rightarrow> (('r, 'h) Session, NameId) action" where
  "session_NameOpt t s = (case NameOpt (ss_Ids s) t of (i, ids) \<Rightarrow> (Inr i, s\<lparr>ss_Ids := ids\<rparr>))"

definition session_AddrOpt :: "string option \<Rightarrow> (('r, 'h) Session, AddrId) action" where
  "session_AddrOpt t s = (case AddrOpt (ss_Ids s) t of (i, ids) \<Rightarrow> (Inr i, s\<lparr>ss_Ids := ids\<rparr>))"

fun FetchAll :: "string \<Rightarrow> query_rows \<Rightarrow> (('r, 'h) Session, NameAddressRow list) action" where
  "FetchAll sql [] = retS []"
| "FetchAll sql (Inl e # rest) = getS (\<lambda>s. Inl e)"
| "FetchAll sql (Inr (name, address) # rest) =
     bindS (getS (\<lambda>s. TextCell name ''name'' sql)) (\<lambda>n.
     bindS (session_NameOpt n) (\<lambda>name_id.
     bindS (getS (\<lambda>s. TextCell address ''address'' sql)) (\<lambda>a.
     bindS (session_AddrOpt a) (\<lambda>ea.
     bindS (FetchAll sql rest) (\<lambda>rows.
     retS (\<lparr>nar_Name = name_id, nar_Ea = ea\<rparr> # rows))))))"

fun Unmatched :: "NameAddressRow list \<Rightarrow> bool \<Rightarrow> string \<Rightarrow> (('r, 'h) Session, UnmatchedRow list) action" where
  "Unmatched [] main_side site = retS []"
| "Unmatched (row # rows) main_side site =
     bindS (getS (\<lambda>s. Inr ((if main_side then MS_Primary (ss_State s) (nar_Name row)
                            else MS_Secondary (ss_State s) (nar_Name row)) \<noteq> None))) (\<lambda>matched.
     if matched then Unmatched rows main_side site
     else bindS (getS (\<lambda>s. RequirePyInt (ss_Ids s) (nar_Ea row) site)) (\<lambda>_.
          bindS (Unmatched rows main_side site) (\<lambda>rest.
          retS (\<lparr>ur_Ea = nar_Ea row, ur_Name = nar_Name row\<rparr> # rest))))"

definition kSqlUnmatchedMain :: string where "kSqlUnmatchedMain = ''select name, address from functions''"
definition kSqlUnmatchedDiff :: string where "kSqlUnmatchedDiff = ''select name, address from diff.functions''"

definition StageFindUnmatched :: "query_rows \<Rightarrow> query_rows \<Rightarrow> (('r, 'h) Session, unit) action" where
  "StageFindUnmatched main_rows diff_rows =
     bindS (FetchAll kSqlUnmatchedMain main_rows) (\<lambda>rows.
     bindS (if rows \<noteq> []
            then bindS (Unmatched rows True ''D:280 (main)'') (\<lambda>us.
                 modS (\<lambda>s. s\<lparr>ss_Final := (ss_Final s)\<lparr>fr_UnmatchedSecondary := Some us\<rparr>\<rparr>))
            else retS ()) (\<lambda>_.
     bindS (FetchAll kSqlUnmatchedDiff diff_rows) (\<lambda>rows.
     if rows \<noteq> []
     then bindS (Unmatched rows False ''D:280 (diff)'') (\<lambda>us.
          modS (\<lambda>s. s\<lparr>ss_Final := (ss_Final s)\<lparr>fr_UnmatchedPrimary := Some us\<rparr>\<rparr>))
     else retS ())))"

section \<open>Reading the rows\<close>

text \<open>A row of a real export: an optional valid name, a decimal address.\<close>

definition export_row :: "string option \<times> string \<Rightarrow> bool" where
  "export_row r \<longleftrightarrow> (case fst r of None \<Rightarrow> True | Some n \<Rightarrow> IsValidUtf8 n) \<and> snd r \<noteq> [] \<and> list_all IsDigit (snd r)"

definition cells :: "string option \<times> string \<Rightarrow> diff_error + QueryCell \<times> QueryCell" where
  "cells r = Inr (case fst r of None \<Rightarrow> SqlNull | Some n \<Rightarrow> SqlText n, SqlText (snd r))"

definition ids_le :: "Interners \<Rightarrow> Interners \<Rightarrow> bool" where
  "ids_le ids ids' \<longleftrightarrow> (\<forall>i t. NameOrNone ids i = Inr t \<longrightarrow> NameOrNone ids' i = Inr t) \<and>
     (\<forall>i t. AddrOrNone ids i = Inr t \<longrightarrow> AddrOrNone ids' i = Inr t)"

definition ids_room :: "Interners \<Rightarrow> nat \<Rightarrow> bool" where
  "ids_room ids n \<longleftrightarrow> names_wf ids \<and> addrs_wf ids \<and> names_room ids n \<and> addrs_room ids n"

definition row_texts :: "Interners \<Rightarrow> NameId \<Rightarrow> AddrId \<Rightarrow> string option result \<times> string option result" where
  "row_texts ids n a = (NameOrNone ids n, AddrOrNone ids a)"

lemma NameOpt_laws:
  assumes "ids_room ids (Suc n)"
  shows "ids_room (snd (NameOpt ids t)) n" and "ids_le ids (snd (NameOpt ids t))"
    and "NameOrNone (snd (NameOpt ids t)) (fst (NameOpt ids t)) = Inr t"
proof -
  have addrs: "Addrs (snd (NameOpt ids t)) = Addrs ids"
    by (simp add: NameOpt_def NameOf_def split: option.splits prod.splits)
  then have "AddrOrNone (snd (NameOpt ids t)) = AddrOrNone ids" by (simp add: AddrOrNone_def fun_eq_iff)
  with assms show "ids_le ids (snd (NameOpt ids t))"
    by (simp add: ids_le_def ids_room_def names.intern_stable)
  show "NameOrNone (snd (NameOpt ids t)) (fst (NameOpt ids t)) = Inr t"
    using assms unfolding ids_room_def by (blast intro: names.intern_text)
  have "addrs_wf (snd (NameOpt ids t))" "addrs_room (snd (NameOpt ids t)) n"
    using assms addrs by (simp_all add: ids_room_def addrs_wf_def addrs_room_def interner_room_def)
  then show "ids_room (snd (NameOpt ids t)) n"
    using assms names.intern_invar names.intern_room unfolding ids_room_def by blast
qed

lemma AddrOpt_laws:
  assumes "ids_room ids (Suc n)"
  shows "ids_room (snd (AddrOpt ids t)) n" and "ids_le ids (snd (AddrOpt ids t))"
    and "AddrOrNone (snd (AddrOpt ids t)) (fst (AddrOpt ids t)) = Inr t"
proof -
  have names: "Names (snd (AddrOpt ids t)) = Names ids"
    by (simp add: AddrOpt_def AddrOf_def split: option.splits prod.splits)
  then have "NameOrNone (snd (AddrOpt ids t)) = NameOrNone ids" by (simp add: NameOrNone_def fun_eq_iff)
  with assms show "ids_le ids (snd (AddrOpt ids t))"
    by (simp add: ids_le_def ids_room_def addrs.intern_stable)
  show "AddrOrNone (snd (AddrOpt ids t)) (fst (AddrOpt ids t)) = Inr t"
    using assms unfolding ids_room_def by (blast intro: addrs.intern_text)
  have "names_wf (snd (AddrOpt ids t))" "names_room (snd (AddrOpt ids t)) n"
    using assms names by (simp_all add: ids_room_def names_wf_def names_room_def interner_room_def)
  then show "ids_room (snd (AddrOpt ids t)) n"
    using assms addrs.intern_invar addrs.intern_room unfolding ids_room_def by blast
qed

lemma ids_le_trans: "ids_le a b \<Longrightarrow> ids_le b c \<Longrightarrow> ids_le a c"
  by (simp add: ids_le_def)

lemma ids_le_refl: "ids_le a a"
  by (simp add: ids_le_def)

lemma ascii_utf8: "list_all IsDigit t \<Longrightarrow> IsValidUtf8 t"
proof -
  assume "list_all IsDigit t"
  then have "\<forall>c\<in>set t. byte c < 0x80" by (auto simp: list_all_iff IsDigit_def)
  from utf8_text_ascii_append [OF this, of "[]"] show ?thesis by (simp add: IsValidUtf8_iff_text)
qed

lemma TextCell_export:
  assumes "export_row r"
  shows "TextCell (case fst r of None \<Rightarrow> SqlNull | Some n \<Rightarrow> SqlText n) col q = Inr (fst r)"
    and "TextCell (SqlText (snd r)) col q = Inr (Some (snd r))"
  using assms ascii_utf8 by (auto simp: export_row_def TextCell_def split: option.splits)

text \<open>A fetch of export rows succeeds, and every row reads back as it was.\<close>

lemma FetchAll_run:
  assumes "ids_room (ss_Ids s) (2 * length rows + k)" and "list_all export_row rows"
  shows "\<exists>ids' out. FetchAll sql (map cells rows) s = (Inr out, s\<lparr>ss_Ids := ids'\<rparr>) \<and>
     ids_room ids' k \<and> ids_le (ss_Ids s) ids' \<and>
     map (\<lambda>r. row_texts ids' (nar_Name r) (nar_Ea r)) out = map (\<lambda>(n, a). (Inr n, Inr (Some a))) rows"
  using assms
proof (induction rows arbitrary: s)
  case Nil
  then show ?case by (auto simp: retS_def ids_le_refl intro!: exI [of _ "ss_Ids s"])
next
  case (Cons r rows)
  let ?ids1 = "snd (NameOpt (ss_Ids s) (fst r))" and ?n = "fst (NameOpt (ss_Ids s) (fst r))"
  let ?ids2 = "snd (AddrOpt ?ids1 (Some (snd r)))" and ?a = "fst (AddrOpt ?ids1 (Some (snd r)))"
  from Cons.prems have room: "ids_room (ss_Ids s) (Suc (Suc (2 * length rows + k)))" and r: "export_row r" by simp_all
  note l1 = NameOpt_laws [OF room, of "fst r"]
  note l2 = AddrOpt_laws [OF l1(1), of "Some (snd r)"]
  have texts: "row_texts ?ids2 ?n ?a = (Inr (fst r), Inr (Some (snd r)))"
    using l1(3) l2(2,3) by (simp add: row_texts_def ids_le_def)
  obtain ids' out where run: "FetchAll sql (map cells rows) (s\<lparr>ss_Ids := ?ids2\<rparr>) = (Inr out, s\<lparr>ss_Ids := ids'\<rparr>)"
    and ids': "ids_room ids' k" "ids_le ?ids2 ids'"
    and out: "map (\<lambda>r. row_texts ids' (nar_Name r) (nar_Ea r)) out = map (\<lambda>(n, a). (Inr n, Inr (Some a))) rows"
    using Cons.IH [of "s\<lparr>ss_Ids := ?ids2\<rparr>"] Cons.prems(2) l2(1) by auto
  have "row_texts ids' ?n ?a = (Inr (fst r), Inr (Some (snd r)))"
    using texts ids'(2) by (simp add: row_texts_def ids_le_def)
  moreover have "ids_le (ss_Ids s) ids'" using l1(2) l2(2) ids'(2) by (blast intro: ids_le_trans)
  moreover have "FetchAll sql (map cells (r # rows)) s = (Inr (\<lparr>nar_Name = ?n, nar_Ea = ?a\<rparr> # out), s\<lparr>ss_Ids := ids'\<rparr>)"
    using run TextCell_export [OF r]
    by (simp add: cells_def bindS_def getS_def retS_def session_NameOpt_def session_AddrOpt_def split_beta)
  ultimately show ?case using ids' out by (auto simp: split_beta)
qed

section \<open>The unmatched functions\<close>

lemma RequirePyInt_text:
  assumes "AddrOrNone ids a = Inr (Some t)" and "t \<noteq> []" and "list_all IsDigit t"
  shows "RequirePyInt ids a site = Inr ()"
proof (rule RequirePyInt_decimal)
  from assms show "decimal_addr ids a"
    using AddrText_of [OF assms(1)] by (auto simp: decimal_addr_def AddrOrNone_def split: if_splits)
qed

definition dict_of :: "bool \<Rightarrow> MatchState \<Rightarrow> NameId \<Rightarrow> MatchedEntry option" where
  "dict_of main_side ms = (if main_side then MS_Primary ms else MS_Secondary ms)"

lemma Unmatched_run:
  assumes "\<forall>r\<in>set rows. RequirePyInt (ss_Ids s) (nar_Ea r) site = Inr ()"
  shows "Unmatched rows main_side site s =
    (Inr (map (\<lambda>r. \<lparr>ur_Ea = nar_Ea r, ur_Name = nar_Name r\<rparr>)
           (filter (\<lambda>r. dict_of main_side (ss_State s) (nar_Name r) = None) rows)), s)"
  using assms by (induction rows) (auto simp: bindS_def getS_def retS_def dict_of_def)

text \<open>A name text is matched when the id of the text is in the dictionary of its side.\<close>

definition matched_text :: "Interners \<Rightarrow> (NameId \<Rightarrow> MatchedEntry option) \<Rightarrow> string option \<Rightarrow> bool" where
  "matched_text ids d n \<longleftrightarrow> (\<exists>i. NameOrNone ids i = Inr n \<and> d i \<noteq> None)"

definition dict_known :: "Interners \<Rightarrow> (NameId \<Rightarrow> MatchedEntry option) \<Rightarrow> bool" where
  "dict_known ids d \<longleftrightarrow> (\<forall>i. d i \<noteq> None \<longrightarrow> (\<exists>n. NameOrNone ids i = Inr n))"

lemma matched_by_text:
  assumes "dict_known ids d" and "ids_le ids ids'" and "names_wf ids'" and "NameOrNone ids' i = Inr n"
  shows "d i = None \<longleftrightarrow> \<not> matched_text ids d n"
proof
  assume "d i = None"
  moreover have "j = i" if "NameOrNone ids j = Inr n" for j
  proof -
    from that assms(2) have "NameOrNone ids' j = Inr n" by (simp add: ids_le_def)
    with assms(3,4) show ?thesis by (auto intro: names.text_inj)
  qed
  ultimately show "\<not> matched_text ids d n" by (auto simp: matched_text_def)
next
  assume no: "\<not> matched_text ids d n"
  show "d i = None"
  proof (rule ccontr)
    assume "d i \<noteq> None"
    with assms(1) obtain m where "NameOrNone ids i = Inr m" unfolding dict_known_def by blast
    moreover from this assms(2,4) have "m = n" by (auto simp: ids_le_def)
    ultimately show False using no \<open>d i \<noteq> None\<close> by (auto simp: matched_text_def)
  qed
qed

lemma list_all2_filter_map:
  "map f xs = map g ys \<Longrightarrow> (\<And>x y. x \<in> set xs \<Longrightarrow> f x = g y \<Longrightarrow> P x = Q y) \<Longrightarrow> map f (filter P xs) = map g (filter Q ys)"
proof (induction xs arbitrary: ys)
  case (Cons x xs)
  then obtain y zs where "ys = y # zs" by (cases ys) auto
  with Cons show ?case by auto
qed simp

text \<open>The list one side produces, read back through the tables.\<close>

definition unmatched_texts :: "Interners \<Rightarrow> UnmatchedRow list \<Rightarrow> (string option result \<times> string option result) list" where
  "unmatched_texts ids us = map (\<lambda>u. row_texts ids (ur_Name u) (ur_Ea u)) us"

lemma side_run:
  assumes room: "ids_room (ss_Ids s) (2 * length rows + k)" and ok: "list_all export_row rows"
    and known: "dict_known (ss_Ids s) (dict_of main_side (ss_State s))"
  shows "\<exists>ids' out us. FetchAll sql (map cells rows) s = (Inr out, s\<lparr>ss_Ids := ids'\<rparr>) \<and> (out = [] \<longleftrightarrow> rows = []) \<and>
     Unmatched out main_side site (s\<lparr>ss_Ids := ids'\<rparr>) = (Inr us, s\<lparr>ss_Ids := ids'\<rparr>) \<and>
     ids_room ids' k \<and> ids_le (ss_Ids s) ids' \<and>
     unmatched_texts ids' us = map (\<lambda>(n, a). (Inr n, Inr (Some a)))
       (filter (\<lambda>(n, a). \<not> matched_text (ss_Ids s) (dict_of main_side (ss_State s)) n) rows)"
proof -
  let ?d = "dict_of main_side (ss_State s)"
  obtain ids' out where run: "FetchAll sql (map cells rows) s = (Inr out, s\<lparr>ss_Ids := ids'\<rparr>)"
    and ids': "ids_room ids' k" "ids_le (ss_Ids s) ids'"
    and out: "map (\<lambda>r. row_texts ids' (nar_Name r) (nar_Ea r)) out = map (\<lambda>(n, a). (Inr n, Inr (Some a))) rows"
    using FetchAll_run [OF room ok] by blast
  have row: "\<exists>n a. (n, a) \<in> set rows \<and> NameOrNone ids' (nar_Name r) = Inr n \<and> AddrOrNone ids' (nar_Ea r) = Inr (Some a)"
    if "r \<in> set out" for r
  proof -
    have "row_texts ids' (nar_Name r) (nar_Ea r) \<in> set (map (\<lambda>r. row_texts ids' (nar_Name r) (nar_Ea r)) out)"
      using that by simp
    then show ?thesis unfolding out by (auto simp: row_texts_def)
  qed
  have "RequirePyInt ids' (nar_Ea r) site = Inr ()" if "r \<in> set out" for r
    using row [OF that] ok RequirePyInt_text by (force simp: list_all_iff export_row_def)
  then have un: "Unmatched out main_side site (s\<lparr>ss_Ids := ids'\<rparr>) =
      (Inr (map (\<lambda>r. \<lparr>ur_Ea = nar_Ea r, ur_Name = nar_Name r\<rparr>) (filter (\<lambda>r. ?d (nar_Name r) = None) out)), s\<lparr>ss_Ids := ids'\<rparr>)"
    using Unmatched_run [of out "s\<lparr>ss_Ids := ids'\<rparr>" site main_side] by simp
  have "?d (nar_Name r) = None \<longleftrightarrow> (case y of (n, a) \<Rightarrow> \<not> matched_text (ss_Ids s) ?d n)"
    if "r \<in> set out" "row_texts ids' (nar_Name r) (nar_Ea r) = (case y of (n, a) \<Rightarrow> (Inr n, Inr (Some a)))" for r y
    using that matched_by_text [OF known ids'(2), of "nar_Name r"] ids'(1) by (auto simp: row_texts_def ids_room_def)
  from list_all2_filter_map [OF out this]
  have "map (\<lambda>r. row_texts ids' (nar_Name r) (nar_Ea r)) (filter (\<lambda>r. ?d (nar_Name r) = None) out) =
     map (\<lambda>(n, a). (Inr n, Inr (Some a))) (filter (\<lambda>(n, a). \<not> matched_text (ss_Ids s) ?d n) rows)" by simp
  then show ?thesis
    using run ids' un map_eq_imp_length_eq [OF out]
    by (intro exI [of _ ids'] exI [of _ out] exI) (auto simp: unmatched_texts_def comp_def)
qed

lemma matched_text_mono:
  assumes "dict_known ids d" and "ids_le ids ids'" and "names_wf ids'"
  shows "matched_text ids' d n \<longleftrightarrow> matched_text ids d n" and "dict_known ids' d"
  using assms unfolding matched_text_def dict_known_def ids_le_def by (metis Inr_inject)+

lemma unmatched_texts_mono:
  assumes "unmatched_texts ids us = map (\<lambda>(n, a). (Inr n, Inr (Some a))) rows" and "ids_le ids ids'"
  shows "unmatched_texts ids' us = unmatched_texts ids us"
  using assms(1)
proof (induction us arbitrary: rows)
  case (Cons u us)
  then obtain r rest where "rows = r # rest" by (cases rows) (auto simp: unmatched_texts_def)
  with Cons assms(2) show ?case by (auto simp: unmatched_texts_def row_texts_def ids_le_def split: prod.splits)
qed (simp add: unmatched_texts_def)

lemma demo_ids_room: "ids_room demo_ids 100"
proof -
  have r: "ids_room empty_Interners (Suc (Suc (Suc 100)))"
    by (simp add: ids_room_def names_wf_def addrs_wf_def names_room_def addrs_room_def interner_room_def
        empty_Interners_def) (simp add: empty_Interner_def)
  have eq: "demo_ids = snd (NameOpt (snd (NameOpt (snd (NameOpt empty_Interners (Some ''main'')))
      (Some ''sub_401000''))) (Some ''helper''))" by (simp add: demo_ids_def split_beta)
  show ?thesis unfolding eq by (intro NameOpt_laws(1) r)
qed

lemma demo_ids2_room: "ids_room demo_ids2 4"
proof -
  have "100 = Suc (Suc (Suc 97))" by simp
  then have "ids_room demo_ids2 97" unfolding demo_ids2_def by (metis AddrOpt_laws(1) demo_ids_room)
  then show ?thesis by (simp add: ids_room_def names_room_def addrs_room_def interner_room_def)
qed
section \<open>Property of the stage\<close>

definition unmatched_ready :: "('r, 'h) Session \<Rightarrow> nat \<Rightarrow> bool" where
  "unmatched_ready s n \<longleftrightarrow> ids_room (ss_Ids s) (2 * n) \<and>
     dict_known (ss_Ids s) (MS_Primary (ss_State s)) \<and> dict_known (ss_Ids s) (MS_Secondary (ss_State s))"

text \<open>C17. On export rows (an optional UTF-8 name and a decimal address each) the stage never
  raises, leaves the match state alone, and reports in row order exactly the functions whose name
  is not matched: the main functions in Diaphora's \<^verbatim>\<open>unmatched_second\<close>, the diff functions in
  \<^verbatim>\<open>unmatched_primary\<close>, each read back through the id tables; an empty table leaves its list as
  it was.\<close>

theorem find_unmatched_complement:
  assumes "unmatched_ready s (length main_rows + length diff_rows)"
    and "list_all export_row main_rows" and "list_all export_row diff_rows"
  shows "\<exists>s'. StageFindUnmatched (map cells main_rows) (map cells diff_rows) s = (Inr (), s') \<and>
     ss_State s' = ss_State s \<and>
     (if main_rows = [] then fr_UnmatchedSecondary (ss_Final s') = fr_UnmatchedSecondary (ss_Final s)
      else \<exists>us. fr_UnmatchedSecondary (ss_Final s') = Some us \<and>
        unmatched_texts (ss_Ids s') us = map (\<lambda>(n, a). (Inr n, Inr (Some a)))
          (filter (\<lambda>(n, a). \<not> matched_text (ss_Ids s) (MS_Primary (ss_State s)) n) main_rows)) \<and>
     (if diff_rows = [] then fr_UnmatchedPrimary (ss_Final s') = fr_UnmatchedPrimary (ss_Final s)
      else \<exists>us. fr_UnmatchedPrimary (ss_Final s') = Some us \<and>
        unmatched_texts (ss_Ids s') us = map (\<lambda>(n, a). (Inr n, Inr (Some a)))
          (filter (\<lambda>(n, a). \<not> matched_text (ss_Ids s) (MS_Secondary (ss_State s)) n) diff_rows))"
proof -
  have room: "ids_room (ss_Ids s) (2 * length main_rows + 2 * length diff_rows)"
    and known: "dict_known (ss_Ids s) (dict_of True (ss_State s))" "dict_known (ss_Ids s) (dict_of False (ss_State s))"
    using assms(1) by (simp_all add: unmatched_ready_def dict_of_def algebra_simps)
  obtain ids1 out1 us1 where m: "FetchAll kSqlUnmatchedMain (map cells main_rows) s = (Inr out1, s\<lparr>ss_Ids := ids1\<rparr>)"
    "out1 = [] \<longleftrightarrow> main_rows = []"
    "Unmatched out1 True ''D:280 (main)'' (s\<lparr>ss_Ids := ids1\<rparr>) = (Inr us1, s\<lparr>ss_Ids := ids1\<rparr>)"
    "ids_room ids1 (2 * length diff_rows)" "ids_le (ss_Ids s) ids1"
    and us1: "unmatched_texts ids1 us1 = map (\<lambda>(n, a). (Inr n, Inr (Some a)))
       (filter (\<lambda>(n, a). \<not> matched_text (ss_Ids s) (dict_of True (ss_State s)) n) main_rows)"
    using side_run [OF room assms(2) known(1)] by blast
  define s1 where "s1 = (if main_rows = [] then s\<lparr>ss_Ids := ids1\<rparr>
    else s\<lparr>ss_Ids := ids1, ss_Final := (ss_Final s)\<lparr>fr_UnmatchedSecondary := Some us1\<rparr>\<rparr>)"
  have s1: "ss_Ids s1 = ids1" "ss_State s1 = ss_State s" by (simp_all add: s1_def)
  have wf1: "names_wf ids1" using m(4) by (simp add: ids_room_def)
  note mono = matched_text_mono [OF known(2) m(5) wf1]
  obtain ids2 out2 us2 where d: "FetchAll kSqlUnmatchedDiff (map cells diff_rows) s1 = (Inr out2, s1\<lparr>ss_Ids := ids2\<rparr>)"
    "out2 = [] \<longleftrightarrow> diff_rows = []"
    "Unmatched out2 False ''D:280 (diff)'' (s1\<lparr>ss_Ids := ids2\<rparr>) = (Inr us2, s1\<lparr>ss_Ids := ids2\<rparr>)"
    "ids_le ids1 ids2"
    and us2: "unmatched_texts ids2 us2 = map (\<lambda>(n, a). (Inr n, Inr (Some a)))
       (filter (\<lambda>(n, a). \<not> matched_text ids1 (dict_of False (ss_State s)) n) diff_rows)"
    using side_run [of s1 diff_rows 0 False kSqlUnmatchedDiff "''D:280 (diff)''"] m(4) assms(3) mono(2)
    unfolding s1 by auto
  have us1': "unmatched_texts ids2 us1 = unmatched_texts ids1 us1"
    using us1 d(4) by (rule unmatched_texts_mono)
  let ?s2 = "if diff_rows = [] then s1\<lparr>ss_Ids := ids2\<rparr>
    else s1\<lparr>ss_Ids := ids2, ss_Final := (ss_Final s1)\<lparr>fr_UnmatchedPrimary := Some us2\<rparr>\<rparr>"
  have "(if out1 \<noteq> [] then bindS (Unmatched out1 True ''D:280 (main)'') (\<lambda>us.
                 modS (\<lambda>s. s\<lparr>ss_Final := (ss_Final s)\<lparr>fr_UnmatchedSecondary := Some us\<rparr>\<rparr>))
            else retS ()) (s\<lparr>ss_Ids := ids1\<rparr>) = (Inr (), s1)"
    using m(2,3) by (simp add: bindS_def modS_def retS_def s1_def)
  moreover have "(if out2 \<noteq> [] then bindS (Unmatched out2 False ''D:280 (diff)'') (\<lambda>us.
                 modS (\<lambda>s. s\<lparr>ss_Final := (ss_Final s)\<lparr>fr_UnmatchedPrimary := Some us\<rparr>\<rparr>))
            else retS ()) (s1\<lparr>ss_Ids := ids2\<rparr>) = (Inr (), ?s2)"
    using d(2,3) by (simp add: bindS_def modS_def retS_def)
  ultimately have "StageFindUnmatched (map cells main_rows) (map cells diff_rows) s = (Inr (), ?s2)"
    using m(1) d(1) unfolding StageFindUnmatched_def bindS_def [of "FetchAll _ _"] bindS_def [of "if _ then _ else _"]
    by simp
  then show ?thesis
    using us1 us1' us2 mono(1)
    by (intro exI [of _ ?s2]) (simp add: s1_def dict_of_def)
qed

theorem find_unmatched_complement_witness:
  "\<exists>s'. StageFindUnmatched (map cells [(Some ''main'', ''4096''), (None, ''8192'')]) (map cells []) demo_final = (Inr (), s') \<and>
     (\<exists>us. fr_UnmatchedSecondary (ss_Final s') = Some us \<and>
        unmatched_texts (ss_Ids s') us = [(Inr (Some ''main''), Inr (Some ''4096'')), (Inr None, Inr (Some ''8192''))])"
proof -
  have "MS_Primary (ss_State demo_final) n = None" "MS_Secondary (ss_State demo_final) n = None" for n
    by (simp_all add: demo_final_def MS_Primary_def MS_Secondary_def empty_MatchState_def)
  moreover have "ids_room (ss_Ids demo_final) 4" by (simp add: demo_final_def demo_ids2_room)
  ultimately have "unmatched_ready demo_final (length [(Some ''main'', ''4096''), (None, ''8192'')] + length [])"
    and "\<not> matched_text (ss_Ids demo_final) (MS_Primary (ss_State demo_final)) n" for n
    by (simp_all add: unmatched_ready_def dict_known_def matched_text_def)
  moreover have "IsValidUtf8 ''main''" by code_simp
  then have "list_all export_row [(Some ''main'', ''4096''), (None, ''8192'')]"
    by (simp add: export_row_def IsDigit_def)
  ultimately show ?thesis
    using find_unmatched_complement [of demo_final "[(Some ''main'', ''4096''), (None, ''8192'')]" "[]"] by auto
qed

end
