(* ===== verification/TextScan.thy ===== *)
theory TextScan
  imports Utf8
begin

text \<open>
  The three text scanners of \<^verbatim>\<open>src/diff/TextDiff.cpp\<close>: \<^verbatim>\<open>str.split("\n")\<close>,
  \<^verbatim>\<open>str.splitlines()\<close> and the callee-name scanner that replaces \<^verbatim>\<open>re.findall(CPP_NAMES_RE)\<close>.
  A scanner position \<open>I\<close> in the text \<open>S\<close> is modelled by the suffix \<open>drop I S\<close>.
\<close>

abbreviation code :: "char \<Rightarrow> nat" where
  "code c \<equiv> of_char c"

section \<open>\<open>PySplitNewline\<close>\<close>

abbreviation newline :: char where
  "newline \<equiv> CHR 0x0A"

function PySplitNewline :: "string \<Rightarrow> string list" where
  "PySplitNewline s =
     (case dropWhile (\<lambda>c. c \<noteq> newline) s of
        [] \<Rightarrow> [s]
      | _ # rest \<Rightarrow> takeWhile (\<lambda>c. c \<noteq> newline) s # PySplitNewline rest)"
  by auto
termination
proof (relation "measure length", simp, goal_cases)
  case (1 s c rest)
  then show ?case using length_dropWhile_le [of "\<lambda>c. c \<noteq> newline" s] by simp
qed

declare PySplitNewline.simps [simp del]

text \<open>\<^verbatim>\<open>"\n".join(...)\<close>.\<close>

fun join_newline :: "string list \<Rightarrow> string" where
  "join_newline [] = []"
| "join_newline [p] = p"
| "join_newline (p # ps) = p @ newline # join_newline ps"

section \<open>\<open>PySplitLines\<close>\<close>

definition LineBreakAt :: "string \<Rightarrow> nat" where
  "LineBreakAt s =
     (case s of
        [] \<Rightarrow> 0
      | c # rest \<Rightarrow>
          if code c \<in> {0x0A, 0x0B, 0x0C, 0x0D, 0x1C, 0x1D, 0x1E} then 1
          else if code c = 0xC2 then (if rest \<noteq> [] \<and> code (rest ! 0) = 0x85 then 2 else 0)
          else if code c = 0xE2 then
            (if length rest \<ge> 2 \<and> code (rest ! 0) = 0x80 \<and> (code (rest ! 1) = 0xA8 \<or> code (rest ! 1) = 0xA9)
             then 3 else 0)
          else 0)"

text \<open>The inner loop: the line up to the next break, and what starts with the break.\<close>

fun next_line :: "string \<Rightarrow> string \<times> string" where
  "next_line [] = ([], [])"
| "next_line (c # rest) =
     (if LineBreakAt (c # rest) = 0 then (case next_line rest of (l, r) \<Rightarrow> (c # l, r)) else ([], c # rest))"

text \<open>How far the break reaches: \<^verbatim>\<open>"\r\n"\<close> is one break.\<close>

definition break_length :: "string \<Rightarrow> nat" where
  "break_length s =
     (if s = [] then 0
      else if hd s = CHR 0x0D \<and> length s > 1 \<and> s ! 1 = CHR 0x0A then 2
      else LineBreakAt s)"

lemma next_line_append: "fst (next_line s) @ snd (next_line s) = s"
  by (induction s) (auto simp: split_beta)

lemma next_line_break: "snd (next_line s) = [] \<or> 0 < LineBreakAt (snd (next_line s))"
  by (induction s) (auto simp: split_beta)

lemma break_length_pos: "snd (next_line s) = [] \<or> 0 < break_length (snd (next_line s))"
  using next_line_break [of s] by (auto simp: break_length_def)

lemma next_line_progress:
  "s \<noteq> [] \<Longrightarrow> length (drop (break_length (snd (next_line s))) (snd (next_line s))) < length s"
proof -
  assume "s \<noteq> []"
  have "length s = length (fst (next_line s)) + length (snd (next_line s))"
    by (subst next_line_append [of s, symmetric]) simp
  moreover have "0 < length s" using \<open>s \<noteq> []\<close> by simp
  ultimately show ?thesis using break_length_pos [of s] 
    by (cases "snd (next_line s) = []") (simp_all add: less_eq_Suc_le trans_le_add2)
qed

function PySplitLines :: "string \<Rightarrow> string list" where
  "PySplitLines s =
     (if s = [] then []
      else fst (next_line s) # PySplitLines (drop (break_length (snd (next_line s))) (snd (next_line s))))"
  by auto
termination by (relation "measure length", simp, unfold in_measure, rule next_line_progress)

declare PySplitLines.simps [simp del]

section \<open>\<open>CppNamesFindAll\<close>\<close>

definition WordCharAt :: "string \<Rightarrow> nat" where
  "WordCharAt s =
     (case s of
        [] \<Rightarrow> 0
      | c # rest \<Rightarrow>
          if 97 \<le> code c \<and> code c \<le> 122 \<or> 65 \<le> code c \<and> code c \<le> 90 \<or> 48 \<le> code c \<and> code c \<le> 57 \<or> code c = 95 then 1
          else if code c = 0xC4 \<and> rest \<noteq> [] then (if code (rest ! 0) = 0xB0 \<or> code (rest ! 0) = 0xB1 then 2 else 0)
          else if code c = 0xC5 \<and> rest \<noteq> [] then (if code (rest ! 0) = 0xBF then 2 else 0)
          else if code c = 0xE2 \<and> length rest \<ge> 2 then (if code (rest ! 0) = 0x84 \<and> code (rest ! 1) = 0xAA then 3 else 0)
          else 0)"

definition StartCharAt :: "string \<Rightarrow> bool" where
  "StartCharAt s \<longleftrightarrow> WordCharAt s \<noteq> 0 \<and> \<not> (48 \<le> code (hd s) \<and> code (hd s) \<le> 57)"

lemma WordCharAt_le: "WordCharAt s \<le> length s"
  by (auto simp: WordCharAt_def Suc_le_eq split: list.splits)

text \<open>The greedy run of word characters: the number of characters and the bytes they take.\<close>

function word_run :: "string \<Rightarrow> nat \<times> nat" where
  "word_run s =
     (let w = WordCharAt s
      in if w = 0 then (0, 0) else (case word_run (drop w s) of (n, k) \<Rightarrow> (Suc n, w + k)))"
  by auto
termination
proof (relation "measure length", goal_cases)
  case (2 s w)
  then show ?case using WordCharAt_le [of s] by simp
qed simp

declare word_run.simps [simp del]

text \<open>The \<^verbatim>\<open>"::"\<close> extensions: how many bytes they take.\<close>

lemma word_run_le: "snd (word_run s) \<le> length s"
proof (induction s rule: word_run.induct)
  case (1 s)
  show ?case
  proof (cases "WordCharAt s = 0")
    case False
    with 1 WordCharAt_le [of s] show ?thesis by (subst word_run.simps) (auto simp: Let_def split: prod.splits)
  qed (simp add: word_run.simps [of s])
qed

function extensions :: "string \<Rightarrow> nat" where
  "extensions s =
     (if length s > 2 \<and> s ! 0 = CHR '':'' \<and> s ! 1 = CHR '':'' \<and> WordCharAt (drop 2 s) \<noteq> 0
      then (let k = snd (word_run (drop 2 s)) in 2 + k + extensions (drop (2 + k) s))
      else 0)"
  by auto
termination by (relation "measure length") auto

declare extensions.simps [simp del]

lemma extensions_le: "extensions s \<le> length s"
proof (induction s rule: extensions.induct)
  case (1 s)
  let ?go = "length s > 2 \<and> s ! 0 = CHR '':'' \<and> s ! 1 = CHR '':'' \<and> WordCharAt (drop 2 s) \<noteq> 0"
  let ?k = "snd (word_run (drop 2 s))"
  show ?case
  proof (cases ?go)
    case True
    then have "extensions s = 2 + ?k + extensions (drop (2 + ?k) s)"
      by (subst extensions.simps) (simp add: Let_def)
    moreover have "?k \<le> length s - 2" "extensions (drop (2 + ?k) s) \<le> length s - (2 + ?k)"
      using 1 [OF True refl] word_run_le [of "drop 2 s"] by (simp_all only: length_drop)
    ultimately show ?thesis using True by linarith
  next
    case False
    then have "extensions s = 0" by (subst extensions.simps) (rule if_not_P)
    then show ?thesis by simp
  qed
qed

text \<open>The length in bytes of the match at the start of the text, if there is one.\<close>

definition name_at :: "string \<Rightarrow> nat option" where
  "name_at s =
     (if StartCharAt s
      then (let w = WordCharAt s; (n, k) = word_run (drop w s)
            in if 1 + n \<ge> 4 then Some (w + k + extensions (drop (w + k) s)) else None)
      else None)"

lemma name_at_bounds: "name_at s = Some n \<Longrightarrow> 0 < n \<and> n \<le> length s"
proof -
  assume n: "name_at s = Some n"
  let ?w = "WordCharAt s" let ?k = "snd (word_run (drop ?w s))"
  from n have start: "StartCharAt s" and eq: "n = ?w + ?k + extensions (drop (?w + ?k) s)"
    by (auto simp: name_at_def Let_def split: if_splits prod.splits)
  from start have "0 < ?w" by (simp add: StartCharAt_def)
  with eq show ?thesis
    using WordCharAt_le [of s] word_run_le [of "drop ?w s"] extensions_le [of "drop (?w + ?k) s"] by simp
qed

function CppNamesFindAll :: "string \<Rightarrow> string list" where
  "CppNamesFindAll s =
     (if s = [] then []
      else case name_at s of
        Some n \<Rightarrow> take n s # CppNamesFindAll (drop n s)
      | None \<Rightarrow> CppNamesFindAll (tl s))"
  by auto
termination
proof (relation "measure length", simp, goal_cases)
  case (1 s)
  then show ?case by (cases s) auto
next
  case (2 s n)
  then show ?case using name_at_bounds [of s n] by (cases s) auto
qed

declare CppNamesFindAll.simps [simp del]

section \<open>Splitting is the inverse of joining\<close>

lemma join_newline_Cons: "ps \<noteq> [] \<Longrightarrow> join_newline (p # ps) = p @ newline # join_newline ps"
  by (cases ps) auto

lemma PySplitNewline_last: "dropWhile (\<lambda>c. c \<noteq> newline) s = [] \<Longrightarrow> PySplitNewline s = [s]"
  by (simp only: PySplitNewline.simps [of s] list.case)

lemma PySplitNewline_more:
  "dropWhile (\<lambda>c. c \<noteq> newline) s = c # rest \<Longrightarrow> PySplitNewline s = takeWhile (\<lambda>c. c \<noteq> newline) s # PySplitNewline rest"
  by (simp only: PySplitNewline.simps [of s] list.case)

lemma PySplitNewline_nonempty: "PySplitNewline s \<noteq> []"
  by (subst PySplitNewline.simps) (simp split: list.splits)

lemma join_split: "join_newline (PySplitNewline s) = s"
proof (induction s rule: PySplitNewline.induct)
  case (1 s)
  show ?case
  proof (cases "dropWhile (\<lambda>c. c \<noteq> newline) s")
    case Nil
    then show ?thesis by (simp only: PySplitNewline_last join_newline.simps)
  next
    case (Cons c rest)
    then have "c = newline" using hd_dropWhile [of "\<lambda>c. c \<noteq> newline" s] by simp
    moreover have "s = takeWhile (\<lambda>c. c \<noteq> newline) s @ c # rest"
      using takeWhile_dropWhile_id [of "\<lambda>c. c \<noteq> newline" s] Cons by simp
    ultimately show ?thesis
      unfolding PySplitNewline_more [OF Cons] join_newline_Cons [OF PySplitNewline_nonempty] 1 [OF Cons] by simp
  qed
qed

lemma PySplitNewline_append:
  assumes "newline \<notin> set p"
  shows "PySplitNewline p = [p]" and "PySplitNewline (p @ newline # s) = p # PySplitNewline s"
proof -
  from assms have "takeWhile (\<lambda>c. c \<noteq> newline) (p @ newline # s) = p" "dropWhile (\<lambda>c. c \<noteq> newline) (p @ newline # s) = newline # s"
    "dropWhile (\<lambda>c. c \<noteq> newline) p = []"
    by (auto simp: takeWhile_append dropWhile_append dropWhile_eq_Nil_conv)
  then show "PySplitNewline p = [p]" "PySplitNewline (p @ newline # s) = p # PySplitNewline s"
    by (simp_all only: PySplitNewline_last PySplitNewline_more)
qed

lemma split_join:
  assumes "ps \<noteq> []" and "\<forall>p\<in>set ps. newline \<notin> set p"
  shows "PySplitNewline (join_newline ps) = ps"
  using assms by (induction ps rule: join_newline.induct) (simp_all add: PySplitNewline_append)

lemma split_no_newline: "p \<in> set (PySplitNewline s) \<Longrightarrow> newline \<notin> set p"
proof (induction s rule: PySplitNewline.induct)
  case (1 s)
  show ?case
  proof (cases "dropWhile (\<lambda>c. c \<noteq> newline) s")
    case Nil
    with 1(2) show ?thesis unfolding PySplitNewline_last [OF Nil] by (auto simp: dropWhile_eq_Nil_conv)
  next
    case (Cons c rest)
    from 1(2) consider "p = takeWhile (\<lambda>c. c \<noteq> newline) s" | "p \<in> set (PySplitNewline rest)"
      unfolding PySplitNewline_more [OF Cons] by auto
    then show ?thesis using 1(1) [OF Cons] by cases (auto dest: set_takeWhileD)
  qed
qed

text \<open>\<^verbatim>\<open>PySplitNewline\<close> inverts joining: the pieces are the only non-empty list of texts
  without a newline whose newline-join is the input.\<close>

theorem split_newline_unique:
  "PySplitNewline s = ps \<longleftrightarrow> ps \<noteq> [] \<and> list_all (\<lambda>p. newline \<notin> set p) ps \<and> join_newline ps = s"
  using join_split [of s] split_join [of ps] split_no_newline [of _ s] PySplitNewline_nonempty [of s]
  by (auto simp: list_all_iff)

section \<open>Line breaks\<close>

text \<open>The UTF-8 text of a code point, and the line breaks that the documentation of \<^verbatim>\<open>str.splitlines\<close> lists:
  line feed, vertical tab, form feed, carriage return, file, group and record separator, next line, line
  separator and paragraph separator.\<close>

definition cp_text :: "nat \<Rightarrow> string" where
  "cp_text cp = map char_of (utf8_encode cp)"

definition break_texts :: "string list" where
  "break_texts = map cp_text [0x0A, 0x0B, 0x0C, 0x0D, 0x1C, 0x1D, 0x1E, 0x85, 0x2028, 0x2029]"

text \<open>\<open>split_lines s ls\<close>: the lines of a text by Python's rule. No break starts inside a line, a final
  line without a break is not empty, and a carriage return directly before a line feed is not a break
  of its own.\<close>

definition no_break :: "string \<Rightarrow> string \<Rightarrow> bool" where
  "no_break l r \<longleftrightarrow> (\<forall>k<length l. \<forall>e\<in>set break_texts. \<forall>t. drop k l @ r \<noteq> e @ t)"

inductive split_lines :: "string \<Rightarrow> string list \<Rightarrow> bool" where
  empty: "split_lines [] []"
| last: "l \<noteq> [] \<Longrightarrow> no_break l [] \<Longrightarrow> split_lines l [l]"
| line: "no_break l (e @ r) \<Longrightarrow> e = [CHR 0x0D, CHR 0x0A] \<or>
     (e \<in> set break_texts \<and> \<not> (e = [CHR 0x0D] \<and> r \<noteq> [] \<and> hd r = CHR 0x0A)) \<Longrightarrow>
     split_lines r ls \<Longrightarrow> split_lines (l @ e @ r) (l # ls)"

lemma text_codes: "t = u \<longleftrightarrow> map code t = map code u"
  by (metis inj_map_eq_map inj_def of_char_eq_iff)

lemma break_texts_iff: "e \<in> set break_texts \<longleftrightarrow> map code e \<in> {[0x0A], [0x0B], [0x0C], [0x0D], [0x1C], [0x1D], [0x1E],
    [0xC2, 0x85], [0xE2, 0x80, 0xA8], [0xE2, 0x80, 0xA9]}"
proof -
  have "e = cp_text x \<longleftrightarrow> map code e = map code (cp_text x)" for x by (rule text_codes)
  then show ?thesis by (simp add: break_texts_def) (simp add: cp_text_def utf8_encode_def)
qed

lemma LineBreakAt_text: "e \<in> set break_texts \<Longrightarrow> LineBreakAt (e @ r) = length e \<and> e \<noteq> []"
  by (auto simp: break_texts_iff LineBreakAt_def map_eq_Cons_conv)

lemma LineBreakAt_take: "LineBreakAt s \<noteq> 0 \<Longrightarrow> take (LineBreakAt s) s \<in> set break_texts"
  by (cases s rule: list.exhaust; cases "tl s"; cases "tl (tl s)")
     (auto simp: break_texts_iff LineBreakAt_def split: if_splits)

lemma LineBreakAt_0: "LineBreakAt s = 0 \<longleftrightarrow> (\<forall>e\<in>set break_texts. \<forall>t. s \<noteq> e @ t)"
proof
  show "\<forall>e\<in>set break_texts. \<forall>t. s \<noteq> e @ t" if "LineBreakAt s = 0" using that LineBreakAt_text by force
  show "LineBreakAt s = 0" if "\<forall>e\<in>set break_texts. \<forall>t. s \<noteq> e @ t"
    using that LineBreakAt_take [of s] append_take_drop_id [of "LineBreakAt s" s] by metis
qed

lemma no_break_iff: "no_break l r \<longleftrightarrow> (\<forall>k<length l. LineBreakAt (drop k l @ r) = 0)"
  by (simp add: no_break_def LineBreakAt_0)

lemma next_line_no_break: "no_break (fst (next_line s)) (snd (next_line s))"
proof (induction s)
  case (Cons c s)
  show ?case
  proof (cases "LineBreakAt (c # s) = 0")
    case True
    have "LineBreakAt (drop k (c # fst (next_line s)) @ snd (next_line s)) = 0"
      if "k < Suc (length (fst (next_line s)))" for k
      using that Cons True by (cases k) (auto simp: no_break_iff next_line_append)
    with True show ?thesis by (simp add: no_break_iff split_beta)
  qed (simp add: no_break_iff)
qed (simp add: no_break_iff)

lemma LineBreakAt_le: "LineBreakAt s \<le> length s"
  by (auto simp: LineBreakAt_def Suc_le_eq split: list.splits)

lemma break_cases:
  assumes "r \<noteq> []" and "0 < LineBreakAt r"
  defines "e \<equiv> take (break_length r) r" and "rest \<equiv> drop (break_length r) r"
  shows "e = [CHR 0x0D, CHR 0x0A] \<or>
     (e \<in> set break_texts \<and> \<not> (e = [CHR 0x0D] \<and> rest \<noteq> [] \<and> hd rest = CHR 0x0A))"
proof (cases "hd r = CHR 0x0D \<and> length r > 1 \<and> r ! 1 = CHR 0x0A")
  case True
  then obtain t where "r = CHR 0x0D # CHR 0x0A # t"
    by (cases r; cases "tl r") auto
  then show ?thesis by (simp add: e_def break_length_def)
next
  case False
  with assms(1) have b: "break_length r = LineBreakAt r" by (auto simp: break_length_def)
  have "\<not> (e = [CHR 0x0D] \<and> rest \<noteq> [] \<and> hd rest = CHR 0x0A)"
  proof
    assume "e = [CHR 0x0D] \<and> rest \<noteq> [] \<and> hd rest = CHR 0x0A"
    moreover have "r = e @ rest" by (simp add: e_def rest_def)
    ultimately show False using False by (cases rest) auto
  qed
  with b assms(2) LineBreakAt_take [of r] show ?thesis by (auto simp: e_def rest_def)
qed

lemma PySplitLines_spec: "split_lines s (PySplitLines s)"
proof (induction s rule: PySplitLines.induct)
  case (1 s)
  show ?case
  proof (cases "s = []")
    case True
    then show ?thesis by (subst PySplitLines.simps) (simp add: split_lines.empty)
  next
    case False
    let ?l = "fst (next_line s)" and ?r = "snd (next_line s)"
    let ?e = "take (break_length ?r) ?r" and ?rest = "drop (break_length ?r) ?r"
    have s: "s = ?l @ ?e @ ?rest" by (simp add: next_line_append)
    have lines: "PySplitLines s = ?l # PySplitLines ?rest" using False by (subst PySplitLines.simps) simp
    show ?thesis
    proof (cases "?r = []")
      case True
      then have "?l = s" using next_line_append [of s] by simp
      moreover have "PySplitLines ?rest = []" using True by (subst PySplitLines.simps) simp
      ultimately show ?thesis using False True next_line_no_break [of s] lines by (simp add: split_lines.last)
    next
      case r: False
      have "split_lines (?l @ ?e @ ?rest) (?l # PySplitLines ?rest)"
      proof (rule split_lines.line)
        show "no_break ?l (?e @ ?rest)" using next_line_no_break [of s] by simp
        show "?e = [CHR 0x0D, CHR 0x0A] \<or> (?e \<in> set break_texts \<and>
            \<not> (?e = [CHR 0x0D] \<and> ?rest \<noteq> [] \<and> hd ?rest = CHR 0x0A))"
          using next_line_break [of s] r by (intro break_cases) simp_all
      qed (rule 1 [OF False])
      then show ?thesis using s lines by simp
    qed
  qed
qed

text \<open>C21. \<^verbatim>\<open>PySplitLines\<close> returns the lines of its input by Python's \<^verbatim>\<open>splitlines\<close> rule:
  the lines and the breaks between them spell the text, a break is one of the ten code points that
  Python documents (in UTF-8) or CR LF, no break starts inside a line, and a final break adds no empty line.\<close>

theorem split_lines_python: "split_lines s (PySplitLines s)"
  by (rule PySplitLines_spec)

section \<open>The regular expression of the name scanner\<close>

text \<open>\<open>word_seq s k m\<close>: the text starts with \<open>m\<close> word characters that take \<open>k\<close> bytes.\<close>

inductive word_seq :: "string \<Rightarrow> nat \<Rightarrow> nat \<Rightarrow> bool" where
  none: "word_seq s 0 0"
| more: "WordCharAt s \<noteq> 0 \<Longrightarrow> word_seq (drop (WordCharAt s) s) k m \<Longrightarrow> word_seq s (WordCharAt s + k) (Suc m)"

text \<open>\<^verbatim>\<open>((::){0,1}[a-zA-Z0-9_]+)*\<close> matches the first \<open>k\<close> bytes.\<close>

inductive ext_match :: "string \<Rightarrow> nat \<Rightarrow> bool" where
  none: "ext_match s 0"
| word: "word_seq s k (Suc m) \<Longrightarrow> ext_match (drop k s) j \<Longrightarrow> ext_match s (k + j)"
| scope: "length s > 2 \<Longrightarrow> s ! 0 = CHR '':'' \<Longrightarrow> s ! 1 = CHR '':'' \<Longrightarrow> word_seq (drop 2 s) k (Suc m) \<Longrightarrow>
     ext_match (drop (2 + k) s) j \<Longrightarrow> ext_match s (2 + k + j)"

text \<open>\<^verbatim>\<open>[a-zA-Z_][a-zA-Z0-9_]{3,}((::){0,1}[a-zA-Z0-9_]+)*\<close> matches the first \<open>n\<close> bytes.\<close>

definition cpp_match :: "string \<Rightarrow> nat \<Rightarrow> bool" where
  "cpp_match s n \<longleftrightarrow> StartCharAt s \<and> (\<exists>k m j. m \<ge> 4 \<and> word_seq s k m \<and> ext_match (drop k s) j \<and> n = k + j)"

text \<open>\<^verbatim>\<open>re.findall\<close>: leftmost matches, greedy, not overlapping.\<close>

inductive find_all :: "string \<Rightarrow> string list \<Rightarrow> bool" where
  stop: "find_all [] []"
| skip: "\<forall>n. \<not> cpp_match s n \<Longrightarrow> find_all (tl s) names \<Longrightarrow> find_all s names"
| hit: "cpp_match s n \<Longrightarrow> \<forall>k. cpp_match s k \<longrightarrow> k \<le> n \<Longrightarrow> find_all (drop n s) names \<Longrightarrow>
     find_all s (take n s # names)"

text \<open>The greedy length from a position.\<close>

definition greedy :: "string \<Rightarrow> nat" where
  "greedy s = snd (word_run s) + extensions (drop (snd (word_run s)) s)"

lemma word_run_0: "WordCharAt s = 0 \<Longrightarrow> word_run s = (0, 0)"
  by (simp add: word_run.simps [of s])

lemma word_run_step:
  "WordCharAt s \<noteq> 0 \<Longrightarrow> word_run s =
     (Suc (fst (word_run (drop (WordCharAt s) s))), WordCharAt s + snd (word_run (drop (WordCharAt s) s)))"
  by (subst word_run.simps) (simp add: Let_def split_beta)

lemma word_run_seq: "word_seq s (snd (word_run s)) (fst (word_run s))"
proof (induction s rule: word_run.induct)
  case (1 s)
  show ?case
  proof (cases "WordCharAt s = 0")
    case True
    then show ?thesis by (simp add: word_run_0 word_seq.none)
  next
    case False
    with 1 [OF refl False] show ?thesis by (simp add: word_run_step word_seq.more)
  qed
qed

lemma word_seq_run:
  "word_seq s k m \<Longrightarrow> fst (word_run s) = m + fst (word_run (drop k s)) \<and> snd (word_run s) = k + snd (word_run (drop k s))"
  by (induction rule: word_seq.induct) (simp_all add: word_run_step add.commute)

lemma word_seq_greedy: "word_seq s k m \<Longrightarrow> greedy s = k + greedy (drop k s)"
  by (drule word_seq_run) (simp add: greedy_def add.commute)

lemma extensions_scope:
  assumes "length s > 2" "s ! 0 = CHR '':''" "s ! 1 = CHR '':''" "WordCharAt (drop 2 s) \<noteq> 0"
  shows "extensions s = 2 + greedy (drop 2 s)"
  using assms by (subst extensions.simps) (simp add: Let_def greedy_def add.commute)

lemma colon_not_word: "s ! 0 = CHR '':'' \<Longrightarrow> s \<noteq> [] \<Longrightarrow> WordCharAt s = 0"
  by (cases s) (auto simp: WordCharAt_def)

lemma word_seq_Suc: "word_seq s k (Suc m) \<Longrightarrow> WordCharAt s \<noteq> 0"
  by (erule word_seq.cases) auto

lemma ext_match_greedy: "ext_match s j \<Longrightarrow> j \<le> greedy s"
proof (induction rule: ext_match.induct)
  case (word s k m j)
  then show ?case by (simp add: word_seq_greedy)
next
  case (scope s k m j)
  then have "s \<noteq> []" by auto
  with scope have "greedy s = 2 + greedy (drop 2 s)"
    using extensions_scope [OF scope(1-3)] word_seq_Suc [OF scope(4)] colon_not_word [OF scope(2)]
    by (simp add: greedy_def [of s] word_run_0)
  moreover have "greedy (drop 2 s) = k + greedy (drop k (drop 2 s))" using scope(4) by (rule word_seq_greedy)
  ultimately show ?case using scope.IH by (simp add: add.commute)
qed simp

lemma extensions_match: "ext_match s (extensions s)"
proof (induction s rule: extensions.induct)
  case (1 s)
  let ?go = "length s > 2 \<and> s ! 0 = CHR '':'' \<and> s ! 1 = CHR '':'' \<and> WordCharAt (drop 2 s) \<noteq> 0"
  let ?k = "snd (word_run (drop 2 s))"
  show ?case
  proof (cases ?go)
    case True
    then obtain m where "word_seq (drop 2 s) ?k (Suc m)"
      using word_run_seq [of "drop 2 s"] word_run_step [of "drop 2 s"] by auto
    moreover have "extensions s = 2 + ?k + extensions (drop (2 + ?k) s)"
      using True by (subst extensions.simps) (simp add: Let_def)
    ultimately show ?thesis using True 1 [OF True refl] ext_match.scope [of s ?k m] by simp
  next
    case False
    then have "extensions s = 0" by (subst extensions.simps) (rule if_not_P)
    then show ?thesis by (simp add: ext_match.none)
  qed
qed

lemma name_at_eq: "name_at s = (if StartCharAt s \<and> fst (word_run s) \<ge> 4 then Some (greedy s) else None)"
proof (cases "StartCharAt s")
  case True
  then have "WordCharAt s \<noteq> 0" by (simp add: StartCharAt_def)
  with True word_run_step [of s] show ?thesis by (auto simp: name_at_def greedy_def Let_def split: prod.splits)
qed (simp add: name_at_def)

lemma cpp_match_iff:
  "(\<exists>n. cpp_match s n) \<longleftrightarrow> name_at s \<noteq> None"
  "name_at s = Some n \<Longrightarrow> cpp_match s n \<and> (\<forall>k. cpp_match s k \<longrightarrow> k \<le> n)"
proof -
  have bound: "fst (word_run s) \<ge> 4 \<and> k \<le> greedy s" if "cpp_match s k" for k
    using that word_seq_run word_seq_greedy ext_match_greedy unfolding cpp_match_def by fastforce
  have self: "cpp_match s (greedy s)" if "StartCharAt s" "fst (word_run s) \<ge> 4"
    using that word_run_seq [of s] extensions_match unfolding cpp_match_def greedy_def by blast
  show "(\<exists>n. cpp_match s n) \<longleftrightarrow> name_at s \<noteq> None"
    using bound self by (auto simp: name_at_eq cpp_match_def split: if_splits)
  show "cpp_match s n \<and> (\<forall>k. cpp_match s k \<longrightarrow> k \<le> n)" if "name_at s = Some n"
    using that bound self by (auto simp: name_at_eq split: if_splits)
qed

text \<open>In terms of the scanner's own characters, the scanner takes the longest match at every position.\<close>

lemma scanner_finds_all: "find_all s (CppNamesFindAll s)"
proof (induction s rule: CppNamesFindAll.induct)
  case (1 s)
  show ?case
  proof (cases "s = []")
    case True
    then show ?thesis by (subst CppNamesFindAll.simps) (simp add: find_all.stop)
  next
    case False
    show ?thesis
    proof (cases "name_at s")
      case None
      with 1(1) [OF False] False cpp_match_iff(1) [of s] show ?thesis
        by (subst CppNamesFindAll.simps) (simp add: find_all.skip)
    next
      case (Some n)
      with 1(2) [OF False Some] False cpp_match_iff(2) [OF Some] show ?thesis
        by (subst CppNamesFindAll.simps) (simp add: find_all.hit)
    qed
  qed
qed

section \<open>The regular expression of Diaphora\<close>

text \<open>The characters of \<^verbatim>\<open>[a-zA-Z0-9_]\<close> and \<^verbatim>\<open>[a-zA-Z_]\<close> under \<^verbatim>\<open>re.IGNORECASE\<close>, as UTF-8 texts: the ASCII ones, written
  out, and the four code points that fold to ASCII letters.\<close>

definition start_texts :: "string list" where
  "start_texts = map (\<lambda>c. [c]) ''abcdefghijklmnopqrstuvwxyzABCDEFGHIJKLMNOPQRSTUVWXYZ_'' @ map cp_text [0x130, 0x131, 0x17F, 0x212A]"

definition word_texts :: "string list" where
  "word_texts = map (\<lambda>c. [c]) ''0123456789'' @ start_texts"

text \<open>A text of \<open>m\<close> word characters, and a text of \<^verbatim>\<open>((::){0,1}[a-zA-Z0-9_]+)*\<close>.\<close>

inductive words :: "string \<Rightarrow> nat \<Rightarrow> bool" where
  none: "words [] 0"
| more: "t \<in> set word_texts \<Longrightarrow> words w m \<Longrightarrow> words (t @ w) (Suc m)"

inductive scopes :: "string \<Rightarrow> bool" where
  none: "scopes []"
| word: "words w (Suc m) \<Longrightarrow> scopes e \<Longrightarrow> scopes (w @ e)"
| scope: "words w (Suc m) \<Longrightarrow> scopes e \<Longrightarrow> scopes (''::'' @ w @ e)"

text \<open>\<^verbatim>\<open>[a-zA-Z_][a-zA-Z0-9_]{3,}((::){0,1}[a-zA-Z0-9_]+)*\<close>\<close>

definition cpp_name :: "string \<Rightarrow> bool" where
  "cpp_name t \<longleftrightarrow> (\<exists>a w m e. t = a @ w @ e \<and> a \<in> set start_texts \<and> words w m \<and> m \<ge> 3 \<and> scopes e)"

text \<open>\<^verbatim>\<open>re.findall\<close>: from left to right, the longest match at a position, not overlapping.\<close>

inductive findall :: "string \<Rightarrow> string list \<Rightarrow> bool" where
  stop: "findall [] []"
| skip: "\<forall>t r. c # s = t @ r \<longrightarrow> \<not> cpp_name t \<Longrightarrow> findall s names \<Longrightarrow> findall (c # s) names"
| hit: "cpp_name t \<Longrightarrow> \<forall>t' r'. t @ r = t' @ r' \<longrightarrow> cpp_name t' \<longrightarrow> length t' \<le> length t \<Longrightarrow> findall r names \<Longrightarrow>
     findall (t @ r) (t # names)"

subsection \<open>Its characters are those of the scanner\<close>

lemma code_mem: "c \<in> set s \<longleftrightarrow> code c \<in> set (map code s)"
  by (auto simp: image_iff)

lemma start_char: "c \<in> set ''abcdefghijklmnopqrstuvwxyzABCDEFGHIJKLMNOPQRSTUVWXYZ_'' \<longleftrightarrow>
    97 \<le> code c \<and> code c \<le> 122 \<or> 65 \<le> code c \<and> code c \<le> 90 \<or> code c = 95"
proof -
  have eq: "map code ''abcdefghijklmnopqrstuvwxyzABCDEFGHIJKLMNOPQRSTUVWXYZ_'' = [97..<123] @ [65..<91] @ [95]" by simp
  have "code c \<in> set ([97..<123] @ [65..<91] @ [95]) \<longleftrightarrow>
    97 \<le> code c \<and> code c \<le> 122 \<or> 65 \<le> code c \<and> code c \<le> 90 \<or> code c = 95"
    by (simp only: set_append set_upt Un_iff atLeastLessThan_iff list.set insert_iff empty_iff) auto
  then show ?thesis unfolding eq [symmetric] code_mem [symmetric] .
qed

lemma digit_char: "c \<in> set ''0123456789'' \<longleftrightarrow> 48 \<le> code c \<and> code c \<le> 57"
proof -
  have eq: "map code ''0123456789'' = [48..<58]" by simp
  have "code c \<in> set [48..<58] \<longleftrightarrow> 48 \<le> code c \<and> code c \<le> 57"
    by (simp only: set_upt atLeastLessThan_iff) linarith
  then show ?thesis unfolding eq [symmetric] code_mem [symmetric] .
qed

lemma folded: "map code (cp_text 0x130) = [0xC4, 0xB0]" "map code (cp_text 0x131) = [0xC4, 0xB1]" "map code (cp_text 0x17F) = [0xC5, 0xBF]"
  "map code (cp_text 0x212A) = [0xE2, 0x84, 0xAA]"
  by (simp_all add: cp_text_def utf8_encode_def)

lemma folded_iff: "t \<in> set (map cp_text [0x130, 0x131, 0x17F, 0x212A]) \<longleftrightarrow>
    map code t \<in> {[0xC4, 0xB0], [0xC4, 0xB1], [0xC5, 0xBF], [0xE2, 0x84, 0xAA]}"
proof -
  have "t = cp_text x \<longleftrightarrow> map code t = map code (cp_text x)" for x by (rule text_codes)
  then show ?thesis by (simp add: folded)
qed

lemma start_texts_iff: "t \<in> set start_texts \<longleftrightarrow>
    (\<exists>c. t = [c] \<and> (97 \<le> code c \<and> code c \<le> 122 \<or> 65 \<le> code c \<and> code c \<le> 90 \<or> code c = 95)) \<or>
    map code t \<in> {[0xC4, 0xB0], [0xC4, 0xB1], [0xC5, 0xBF], [0xE2, 0x84, 0xAA]}"
  unfolding start_texts_def set_append Un_iff folded_iff start_char [symmetric] by (simp only: set_map image_iff) blast

lemma word_texts_iff: "t \<in> set word_texts \<longleftrightarrow> (\<exists>c. t = [c] \<and> 48 \<le> code c \<and> code c \<le> 57) \<or> t \<in> set start_texts"
  unfolding word_texts_def set_append Un_iff digit_char [symmetric] by (simp only: set_map image_iff) blast

lemma WordCharAt_text: "t \<in> set word_texts \<Longrightarrow> WordCharAt (t @ r) = length t"
  by (auto simp: word_texts_iff start_texts_iff WordCharAt_def map_eq_Cons_conv)

lemma WordCharAt_take: "WordCharAt s \<noteq> 0 \<Longrightarrow> take (WordCharAt s) s \<in> set word_texts"
  by (cases s rule: list.exhaust; cases "tl s"; cases "tl (tl s)")
     (auto simp: word_texts_iff start_texts_iff WordCharAt_def split: if_splits)

lemma StartCharAt_iff: "StartCharAt s \<longleftrightarrow> WordCharAt s \<noteq> 0 \<and> take (WordCharAt s) s \<in> set start_texts"
proof (cases "WordCharAt s = 0")
  case False
  then show ?thesis using WordCharAt_take [OF False]
    by (cases s) (auto simp: StartCharAt_def word_texts_iff start_texts_iff map_eq_Cons_conv take_Cons' split: if_splits)
qed (simp add: StartCharAt_def)

subsection \<open>Its matches are those of the scanner\<close>

lemma word_seq_words: "word_seq s k m \<Longrightarrow> k \<le> length s \<and> words (take k s) m"
proof (induction rule: word_seq.induct)
  case (more s k m)
  then have "words (take (WordCharAt s) s @ take k (drop (WordCharAt s) s)) (Suc m)"
    by (intro words.more WordCharAt_take) simp_all
  moreover have "WordCharAt s + k \<le> length s" using more WordCharAt_le [of s] by simp linarith
  ultimately show ?case by (simp add: take_add)
qed (simp add: words.none)

lemma words_word_seq: "words w m \<Longrightarrow> word_seq (w @ r) (length w) m"
proof (induction rule: words.induct)
  case (more t w m)
  moreover from more.hyps have "t \<noteq> []" by (auto simp: word_texts_iff start_texts_iff)
  ultimately show ?case using word_seq.more [of "t @ w @ r" "length w" m] WordCharAt_text [of t "w @ r"] by simp
qed (simp add: word_seq.none)

lemma ext_match_scopes: "ext_match s j \<Longrightarrow> j \<le> length s \<and> scopes (take j s)"
proof (induction rule: ext_match.induct)
  case (word s k m j)
  then have "scopes (take k s @ take j (drop k s))"
    using word_seq_words by (intro scopes.word) blast+
  moreover have "k + j \<le> length s" using word word_seq_words [of s k "Suc m"] by simp linarith
  ultimately show ?case by (simp add: take_add)
next
  case (scope s k m j)
  then obtain t where s: "s = ''::'' @ t" by (cases s; cases "tl s") auto
  with scope have "scopes (''::'' @ take k t @ take j (drop k t))"
    using word_seq_words by (intro scopes.scope) auto
  moreover have "k + j \<le> length t" using scope s word_seq_words [of t k "Suc m"] by simp linarith
  ultimately show ?case by (simp add: s take_add)
qed (simp add: scopes.none)

lemma scopes_ext_match: "scopes e \<Longrightarrow> ext_match (e @ r) (length e)"
proof (induction rule: scopes.induct)
  case (word w m e)
  then show ?case using ext_match.word [of "w @ e @ r" "length w" m "length e"] words_word_seq [of w "Suc m" "e @ r"] by simp
next
  case (scope w m e)
  then have "word_seq (w @ e @ r) (length w) (Suc m)" by (simp add: words_word_seq)
  moreover from this have "w @ e @ r \<noteq> []" using word_seq_Suc WordCharAt_le [of "w @ e @ r"] by (metis le_zero_eq list.size(3))
  ultimately show ?case using scope ext_match.scope [of "''::'' @ w @ e @ r" "length w" m "length e"] by simp
qed (simp add: ext_match.none)

lemma cpp_match_name: "cpp_match s n \<longleftrightarrow> n \<le> length s \<and> cpp_name (take n s)"
proof
  assume "cpp_match s n"
  then obtain k m j where k: "StartCharAt s" "m \<ge> 4" "word_seq s k m" "ext_match (drop k s) j" "n = k + j"
    by (auto simp: cpp_match_def)
  from k(2,3) obtain k' m' where k': "k = WordCharAt s + k'" "m = Suc m'" "word_seq (drop (WordCharAt s) s) k' m'"
    by (auto elim: word_seq.cases)
  note words = word_seq_words [OF k'(3)] and tail = ext_match_scopes [OF k(4)]
  have "take n s = take (WordCharAt s) s @ take k' (drop (WordCharAt s) s) @ take j (drop k s)"
    by (simp only: k(5) k'(1) take_add append_assoc)
  moreover have "n \<le> length s" using words tail WordCharAt_le [of s] by (simp add: k(5) k'(1)) linarith
  ultimately show "n \<le> length s \<and> cpp_name (take n s)"
    unfolding cpp_name_def using words tail k(1,2) k'(2) StartCharAt_iff [of s] by fastforce
next
  assume n: "n \<le> length s \<and> cpp_name (take n s)"
  then obtain a w m e where t: "take n s = a @ w @ e" "a \<in> set start_texts" "words w m" "m \<ge> 3" "scopes e"
    by (auto simp: cpp_name_def)
  from t(1) have s: "s = a @ w @ e @ drop n s" by (metis append.assoc append_take_drop_id)
  have "a \<noteq> []" using t(2) by (auto simp: start_texts_iff)
  moreover have W: "WordCharAt s = length a" using t(2) by (subst s) (simp add: WordCharAt_text word_texts_def)
  ultimately have "StartCharAt s" using t(2) s by (metis StartCharAt_iff append_eq_conv_conj length_0_conv)
  moreover have "word_seq s (length a + length w) (Suc m)"
    using word_seq.more [of s "length w" m] words_word_seq [OF t(3), of "e @ drop n s"] W \<open>a \<noteq> []\<close> s
    by (metis append_eq_conv_conj length_0_conv)
  moreover have "ext_match (drop (length a + length w) s) (length e)"
    using scopes_ext_match [OF t(5), of "drop n s"] by (subst s) simp
  moreover have "n = length a + length w + length e" using n arg_cong [OF t(1), of length] by simp
  ultimately show "cpp_match s n" unfolding cpp_match_def using t(4) by (intro conjI exI [of _ "length a + length w"] exI [of _ "Suc m"] exI [of _ "length e"]) simp_all
qed

lemma find_all_findall: "find_all s names \<Longrightarrow> findall s names"
proof (induction rule: find_all.induct)
  case (skip s names)
  show ?case
  proof (cases s)
    case Nil
    with skip show ?thesis by simp
  next
    case (Cons c r)
    have "\<not> cpp_name t" if "c # r = t @ u" for t u
      using skip(1) that spec [of "\<lambda>n. \<not> cpp_match s n" "length t"] by (simp add: cpp_match_name Cons)
    with skip(3) show ?thesis unfolding Cons by (intro findall.skip) auto
  qed
next
  case (hit s n names)
  have "length t \<le> length (take n s)" if "take n s @ drop n s = t @ u" "cpp_name t" for t u
  proof -
    from that(1) have "s = t @ u" by simp
    then have "cpp_match s (length t)" using that(2) by (simp add: cpp_match_name)
    then show ?thesis using hit(1,2) by (simp add: cpp_match_name)
  qed
  with hit(1,4) have "findall (take n s @ drop n s) (take n s # names)"
    by (intro findall.hit) (auto simp: cpp_match_name)
  then show ?case by simp
qed (rule findall.stop)

lemma cpp_name_nonempty: "cpp_name t \<Longrightarrow> t \<noteq> []"
  by (auto simp: cpp_name_def start_texts_iff)

lemma findall_unique: "findall s names \<Longrightarrow> findall s names' \<Longrightarrow> names = names'"
proof (induction arbitrary: names' rule: findall.induct)
  case stop
  then show ?case by cases (auto dest: cpp_name_nonempty)
next
  case (skip c s names)
  from skip.prems show ?case
  proof cases
    case (skip)
    then show ?thesis using local.skip.IH by blast
  next
    case (hit t r names'')
    then show ?thesis using local.skip.hyps(1) by metis
  qed
next
  case (hit t r names)
  from hit.prems show ?case
  proof cases
    case (stop)
    then show ?thesis using local.hit.hyps(1) cpp_name_nonempty by blast
  next
    case (skip c s)
    then show ?thesis using local.hit.hyps(1) by metis
  next
    case (hit t' r' names'')
    then have "length t' = length t" using local.hit.hyps(1,2) by (metis order.antisym)
    with hit show ?thesis using local.hit.IH by (metis append_eq_append_conv)
  qed
qed

text \<open>C20. The hand-written scanner \<^verbatim>\<open>CppNamesFindAll\<close> computes \<^verbatim>\<open>re.findall\<close> of Diaphora's
  name expression, and nothing else is that list: at each position the longest text of the expression is taken, a
  position where no text of the expression starts is skipped, and matches do not overlap. The expression is written out
  over its character classes and the four code points that \<^verbatim>\<open>re.IGNORECASE\<close> adds to them, apart from the scanner.\<close>

theorem cpp_names_find_all: "findall s names \<longleftrightarrow> names = CppNamesFindAll s"
  using find_all_findall [OF scanner_finds_all] findall_unique by blast

end
