(* ===== verification/Difflib.thy ===== *)
theory Difflib
  imports Double "HOL-Library.Product_Lexorder" "HOL-Library.Multiset"
begin

text \<open>
  The port of Python's \<^verbatim>\<open>difflib\<close> in \<^verbatim>\<open>src/diff/TextDiff.cpp\<close>: \<^verbatim>\<open>SequenceMatcher\<close>
  with its element index, the longest match, matching blocks, opcodes, grouped opcodes, the three
  ratios, and \<^verbatim>\<open>UnifiedDiff\<close>. Positions are \<open>nat\<close>: the constructor refuses sequences that do not
  fit 32 bits, so no \<^verbatim>\<open>size_t\<close> computation wraps.
\<close>

section \<open>Data\<close>

type_synonym elem = "32 word"

datatype OpTag = Replace | Delete | Insert | Equal

definition OpTagName :: "OpTag \<Rightarrow> string" where
  "OpTagName tag = (case tag of Replace \<Rightarrow> ''replace'' | Delete \<Rightarrow> ''delete'' | Insert \<Rightarrow> ''insert'' | Equal \<Rightarrow> ''equal'')"

record Opcode =
  op_Tag :: OpTag
  op_I1 :: nat
  op_I2 :: nat
  op_J1 :: nat
  op_J2 :: nat

record MatchingBlock =
  mb_A :: nat
  mb_B :: nat
  mb_Size :: nat

text \<open>\<^verbatim>\<open>kAbsent\<close> in \<^verbatim>\<open>AKey\<close> is \<open>None\<close>; the two caches are \<open>None\<close> until they are computed.\<close>

record SequenceMatcher =
  sm_A :: "elem list"
  sm_B :: "elem list"
  sm_AutoJunk :: bool
  sm_B2j :: "nat list list"
  sm_Popular :: "bool list"
  sm_AKey :: "nat option list"
  sm_BKey :: "nat list"
  sm_MatchingBlocks :: "MatchingBlock list option"
  sm_Opcodes :: "Opcode list option"

definition CalculateRatio :: "nat \<Rightarrow> nat \<Rightarrow> double" where
  "CalculateRatio matches len =
     (if len \<noteq> 0 then dbl_div (dbl_mul 2 (dbl_of_size matches)) (dbl_of_size len) else 1)"

section \<open>\<open>ChainB\<close> and the constructor\<close>

text \<open>The first loop. The lookup table is a direct table or a hash map in the code; either is a
  finite map from element values to dense keys.\<close>

record KeyTable =
  kt_Lookup :: "(elem \<times> nat) list"
  kt_B2j :: "nat list list"
  kt_BKey :: "nat list"

definition chain_step :: "elem list \<Rightarrow> nat \<Rightarrow> KeyTable \<Rightarrow> KeyTable" where
  "chain_step B i t =
     (case map_of (kt_Lookup t) (B ! i) of
        None \<Rightarrow>
          (let key = length (kt_B2j t)
           in \<lparr>kt_Lookup = AList.update (B ! i) key (kt_Lookup t), kt_B2j = kt_B2j t @ [[i]], kt_BKey = kt_BKey t @ [key]\<rparr>)
      | Some key \<Rightarrow> t\<lparr>kt_B2j := (kt_B2j t)[key := kt_B2j t ! key @ [i]], kt_BKey := kt_BKey t @ [key]\<rparr>)"

definition chain_keys :: "elem list \<Rightarrow> KeyTable" where
  "chain_keys B = fold (chain_step B) [0..<length B] \<lparr>kt_Lookup = [], kt_B2j = [], kt_BKey = []\<rparr>"

definition ChainB :: "elem list \<Rightarrow> elem list \<Rightarrow> bool \<Rightarrow> SequenceMatcher" where
  "ChainB A B autojunk =
     (let t = chain_keys B; n = length B; ntest = n div 100 + 1;
          purge = autojunk \<and> n \<ge> 200;
          popular = map (\<lambda>js. purge \<and> length js > ntest) (kt_B2j t)
      in \<lparr>sm_A = A, sm_B = B, sm_AutoJunk = autojunk,
          sm_B2j = map (\<lambda>(js, p). if p then [] else js) (zip (kt_B2j t) popular),
          sm_Popular = popular,
          sm_AKey = map (map_of (kt_Lookup t)) A, sm_BKey = kt_BKey t,
          sm_MatchingBlocks = None, sm_Opcodes = None\<rparr>)"

definition new_SequenceMatcher :: "elem list \<Rightarrow> elem list \<Rightarrow> bool \<Rightarrow> SequenceMatcher result" where
  "new_SequenceMatcher A B autojunk =
     (if length A \<ge> 2 ^ 32 - 1 \<or> length B \<ge> 2 ^ 32 - 1
      then Inl (StdException ''SequenceMatcher: sequence too long'')
      else Inr (ChainB A B autojunk))"

section \<open>\<open>FindLongestMatch\<close>\<close>

text \<open>The positions of \<^verbatim>\<open>a[i]\<close> in \<^verbatim>\<open>b\<close> that the index still has.\<close>

definition js_of :: "SequenceMatcher \<Rightarrow> nat \<Rightarrow> nat list" where
  "js_of sm i = (case sm_AKey sm ! i of None \<Rightarrow> [] | Some key \<Rightarrow> sm_B2j sm ! key)"

text \<open>One row: \<open>prev\<close> is what the monotone pointer \<^verbatim>\<open>P\<close> has not passed yet.\<close>

definition skip_prev :: "nat \<Rightarrow> (nat \<times> nat) list \<Rightarrow> (nat \<times> nat) list" where
  "skip_prev j prev = (if j > 0 then dropWhile (\<lambda>x. fst x < j - 1) prev else prev)"

definition prev_len :: "nat \<Rightarrow> (nat \<times> nat) list \<Rightarrow> nat" where
  "prev_len j prev = (if j > 0 \<and> prev \<noteq> [] \<and> fst (hd prev) = j - 1 then snd (hd prev) else 0)"

definition keep_best :: "nat \<Rightarrow> nat \<times> nat \<Rightarrow> nat \<times> nat \<times> nat \<Rightarrow> nat \<times> nat \<times> nat" where
  "keep_best i jk best =
     (case jk of (j, k) \<Rightarrow> if k > snd (snd best) then (i + 1 - k, j + 1 - k, k) else best)"

primrec row_loop ::
  "nat \<Rightarrow> nat \<Rightarrow> nat list \<Rightarrow> (nat \<times> nat) list \<Rightarrow> (nat \<times> nat) list \<Rightarrow> nat \<times> nat \<times> nat
     \<Rightarrow> (nat \<times> nat) list \<times> (nat \<times> nat \<times> nat)" where
  "row_loop i bhi [] prev cur best = (cur, best)"
| "row_loop i bhi (j # js) prev cur best =
     (if j \<ge> bhi then (cur, best)
      else
        (let prev1 = skip_prev j prev; k = prev_len j prev1 + 1
         in row_loop i bhi js prev1 (cur @ [(j, k)]) (keep_best i (j, k) best)))"

definition match_row ::
  "SequenceMatcher \<Rightarrow> nat \<Rightarrow> nat \<Rightarrow> nat \<Rightarrow> (nat \<times> nat) list \<times> (nat \<times> nat \<times> nat) \<Rightarrow> (nat \<times> nat) list \<times> (nat \<times> nat \<times> nat)" where
  "match_row sm blo bhi i st = row_loop i bhi (dropWhile (\<lambda>j. j < blo) (js_of sm i)) (fst st) [] (snd st)"

function extend_left :: "elem list \<Rightarrow> elem list \<Rightarrow> nat \<Rightarrow> nat \<Rightarrow> nat \<times> nat \<times> nat \<Rightarrow> nat \<times> nat \<times> nat" where
  "extend_left A B alo blo (i, j, k) =
     (if i > alo \<and> j > blo \<and> A ! (i - 1) = B ! (j - 1)
      then extend_left A B alo blo (i - 1, j - 1, k + 1) else (i, j, k))"
  by pat_completeness auto
termination by (relation "measure (\<lambda>(A, B, alo, blo, i, j, k). i)") auto

function extend_right :: "elem list \<Rightarrow> elem list \<Rightarrow> nat \<Rightarrow> nat \<Rightarrow> nat \<times> nat \<times> nat \<Rightarrow> nat \<times> nat \<times> nat" where
  "extend_right A B ahi bhi (i, j, k) =
     (if i + k < ahi \<and> j + k < bhi \<and> A ! (i + k) = B ! (j + k)
      then extend_right A B ahi bhi (i, j, k + 1) else (i, j, k))"
  by pat_completeness auto
termination by (relation "measure (\<lambda>(A, B, ahi, bhi, i, j, k). ahi - (i + k))") auto

declare extend_left.simps [simp del] extend_right.simps [simp del]

definition FindLongestMatch :: "SequenceMatcher \<Rightarrow> nat \<Rightarrow> nat \<Rightarrow> nat \<Rightarrow> nat \<Rightarrow> MatchingBlock result" where
  "FindLongestMatch sm alo ahi blo bhi =
     (if ahi > length (sm_A sm) \<or> bhi > length (sm_B sm) \<or> alo > ahi \<or> blo > bhi
      then Inl (StdException ''SequenceMatcher::FindLongestMatch: range out of bounds'')
      else
        (let best = snd (fold (match_row sm blo bhi) [alo..<ahi] ([], (alo, blo, 0)));
             (i, j, k) = extend_right (sm_A sm) (sm_B sm) ahi bhi (extend_left (sm_A sm) (sm_B sm) alo blo best)
         in Inr \<lparr>mb_A = i, mb_B = j, mb_Size = k\<rparr>))"

section \<open>Bounds on the first sequence\<close>

text \<open>Whatever the index holds, the longest match stays inside its window of the first sequence: the
  queue of \<^verbatim>\<open>GetMatchingBlocks\<close> shrinks.\<close>

definition a_bounded :: "nat \<Rightarrow> nat \<Rightarrow> (nat \<times> nat) list \<times> (nat \<times> nat \<times> nat) \<Rightarrow> bool" where
  "a_bounded alo i st \<longleftrightarrow> (\<forall>(j, k)\<in>set (fst st). k \<le> i - alo) \<and>
     (case snd st of (bi, bj, bk) \<Rightarrow> alo \<le> bi \<and> bi + bk \<le> i)"

lemma row_loop_bounded:
  assumes "alo \<le> i" and "\<forall>(j, k)\<in>set prev. k \<le> i - alo" and "a_bounded alo (Suc i) (cur, best)"
  shows "a_bounded alo (Suc i) (row_loop i bhi js prev cur best)"
  using assms(2,3)
proof (induction js arbitrary: prev cur best)
  case (Cons j js)
  let ?prev1 = "skip_prev j prev" let ?k = "prev_len j ?prev1 + 1"
  have prev1: "\<forall>(j, k)\<in>set ?prev1. k \<le> i - alo"
    using Cons.prems(1) by (auto simp: skip_prev_def dest: set_dropWhileD)
  then have "prev_len j ?prev1 \<le> i - alo"
    using list.set_sel(1) [of ?prev1] by (auto simp: prev_len_def split_beta)
  then have k: "?k \<le> Suc i - alo" using assms(1) by simp
  then have "a_bounded alo (Suc i) (cur @ [(j, ?k)], keep_best i (j, ?k) best)"
    using Cons.prems(2) assms(1) by (auto simp: a_bounded_def keep_best_def split: prod.splits)
  from Cons.IH [OF prev1 this] Cons.prems(2) show ?case by (simp add: Let_def)
qed simp

lemma match_rows_bounded:
  assumes "alo \<le> ahi"
  shows "a_bounded alo ahi (fold (match_row sm blo bhi) [alo..<ahi] ([], (alo, blo, 0)))"
  using assms
proof (induction ahi rule: dec_induct)
  case base
  then show ?case by (simp add: a_bounded_def)
next
  case (step n)
  let ?st = "fold (match_row sm blo bhi) [alo..<n] ([], (alo, blo, 0))"
  have "\<forall>(j, k)\<in>set (fst ?st). k \<le> n - alo" "a_bounded alo (Suc n) ([], snd ?st)"
    using step.IH by (auto simp: a_bounded_def split: prod.splits)
  from row_loop_bounded [OF step.hyps(1) this, of bhi "dropWhile (\<lambda>j. j < blo) (js_of sm n)"] step.hyps(1)
  show ?case using match_row_def [of sm blo bhi n ?st] by simp
qed

lemma extend_left_facts:
  "extend_left A B alo blo (i, j, k) = (i', j', k') \<Longrightarrow> alo \<le> i \<Longrightarrow>
     alo \<le> i' \<and> i' + k' = i + k \<and> j' + k' = j + k \<and> k \<le> k' \<and> (blo \<le> j \<longrightarrow> blo \<le> j')"
proof (induction A B alo blo "(i, j, k)" arbitrary: i j k rule: extend_left.induct)
  case (1 A B alo blo i j k)
  show ?case
  proof (cases "i > alo \<and> j > blo \<and> A ! (i - 1) = B ! (j - 1)")
    case True
    with 1(2) have "extend_left A B alo blo (i - 1, j - 1, k + 1) = (i', j', k')"
      by (simp add: extend_left.simps [of A B alo blo i j k])
    from 1(1) [OF True this] True show ?thesis by force
  next
    case False
    with 1(2) have "(i', j', k') = (i, j, k)" by (subst (asm) extend_left.simps) (simp only: if_False prod.inject)
    with 1(3) show ?thesis by auto
  qed
qed

lemma extend_right_facts:
  "extend_right A B ahi bhi (i, j, k) = (i', j', k') \<Longrightarrow>
     i' = i \<and> j' = j \<and> k \<le> k' \<and> (i + k \<le> ahi \<longrightarrow> i + k' \<le> ahi) \<and> (j + k \<le> bhi \<longrightarrow> j + k' \<le> bhi)"
proof (induction A B ahi bhi "(i, j, k)" arbitrary: i j k rule: extend_right.induct)
  case (1 A B ahi bhi i j k)
  show ?case
  proof (cases "i + k < ahi \<and> j + k < bhi \<and> A ! (i + k) = B ! (j + k)")
    case True
    with 1(2) have "extend_right A B ahi bhi (i, j, k + 1) = (i', j', k')"
      by (simp add: extend_right.simps [of A B ahi bhi i j k])
    from 1(1) [OF True this] True show ?thesis by auto
  next
    case False
    with 1(2) have "(i', j', k') = (i, j, k)" by (subst (asm) extend_right.simps) (simp only: if_False prod.inject)
    then show ?thesis by auto
  qed
qed

lemma FindLongestMatch_a_bounds:
  assumes "FindLongestMatch sm alo ahi blo bhi = Inr x"
  shows "alo \<le> mb_A x" and "mb_A x + mb_Size x \<le> ahi" and "alo \<le> ahi"
proof -
  show le: "alo \<le> ahi" using assms by (auto simp: FindLongestMatch_def split: if_splits)
  obtain bi bj bk where best: "snd (fold (match_row sm blo bhi) [alo..<ahi] ([], (alo, blo, 0))) = (bi, bj, bk)"
    by (metis prod_cases3)
  with match_rows_bounded [OF le, of sm blo bhi] have b: "alo \<le> bi" "bi + bk \<le> ahi" by (simp_all add: a_bounded_def)
  obtain i1 j1 k1 where l: "extend_left (sm_A sm) (sm_B sm) alo blo (bi, bj, bk) = (i1, j1, k1)" by (metis prod_cases3)
  obtain i2 j2 k2 where r: "extend_right (sm_A sm) (sm_B sm) ahi bhi (i1, j1, k1) = (i2, j2, k2)" by (metis prod_cases3)
  from assms best l r have "x = \<lparr>mb_A = i2, mb_B = j2, mb_Size = k2\<rparr>"
    by (auto simp: FindLongestMatch_def Let_def split: if_splits)
  with extend_left_facts [OF l b(1)] extend_right_facts [OF r] b show "alo \<le> mb_A x" "mb_A x + mb_Size x \<le> ahi" by simp_all
qed

section \<open>Matching blocks and opcodes\<close>

type_synonym range = "nat \<times> nat \<times> nat \<times> nat"

definition range_size :: "range \<Rightarrow> nat" where
  "range_size r = (case r of (alo, ahi, blo, bhi) \<Rightarrow> 2 * (ahi - alo) + 1)"

text \<open>The queue loop; the head of the list is the back of the vector.\<close>

function blocks_loop :: "SequenceMatcher \<Rightarrow> range list \<Rightarrow> MatchingBlock list \<Rightarrow> MatchingBlock list result" where
  "blocks_loop sm [] blocks = Inr blocks"
| "blocks_loop sm ((alo, ahi, blo, bhi) # queue) blocks =
     (case FindLongestMatch sm alo ahi blo bhi of
        Inl e \<Rightarrow> Inl e
      | Inr x \<Rightarrow>
          if mb_Size x = 0 then blocks_loop sm queue blocks
          else
            blocks_loop sm
              ((if mb_A x + mb_Size x < ahi \<and> mb_B x + mb_Size x < bhi
                then [(mb_A x + mb_Size x, ahi, mb_B x + mb_Size x, bhi)] else [])
               @ (if alo < mb_A x \<and> blo < mb_B x then [(alo, mb_A x, blo, mb_B x)] else [])
               @ queue)
              (blocks @ [x]))"
  by pat_completeness auto
termination
proof (relation "measure (\<lambda>(sm, queue, blocks). sum_list (map range_size queue))", simp, goal_cases)
  case (1 sm alo ahi blo bhi queue blocks x)
  then show ?case by (simp add: range_size_def)
next
  case (2 sm alo ahi blo bhi queue blocks x)
  from FindLongestMatch_a_bounds [OF 2(1)] 2(2) show ?case by (auto simp: range_size_def)
qed

fun collapse :: "MatchingBlock list \<Rightarrow> nat \<times> nat \<times> nat \<Rightarrow> MatchingBlock list" where
  "collapse [] (i1, j1, k1) = (if k1 \<noteq> 0 then [\<lparr>mb_A = i1, mb_B = j1, mb_Size = k1\<rparr>] else [])"
| "collapse (b # bs) (i1, j1, k1) =
     (if i1 + k1 = mb_A b \<and> j1 + k1 = mb_B b then collapse bs (i1, j1, k1 + mb_Size b)
      else (if k1 \<noteq> 0 then [\<lparr>mb_A = i1, mb_B = j1, mb_Size = k1\<rparr>] else []) @ collapse bs (mb_A b, mb_B b, mb_Size b))"

text \<open>\<^verbatim>\<open>std::sort\<close> by the triple; equal triples are equal blocks.\<close>

definition sort_blocks :: "MatchingBlock list \<Rightarrow> MatchingBlock list" where
  "sort_blocks = sort_key (\<lambda>b. (mb_A b, mb_B b, mb_Size b))"

definition compute_blocks :: "SequenceMatcher \<Rightarrow> MatchingBlock list result" where
  "compute_blocks sm =
     bindE (blocks_loop sm [(0, length (sm_A sm), 0, length (sm_B sm))] []) (\<lambda>blocks.
       Inr (collapse (sort_blocks blocks) (0, 0, 0)
            @ [\<lparr>mb_A = length (sm_A sm), mb_B = length (sm_B sm), mb_Size = 0\<rparr>]))"

definition GetMatchingBlocks :: "SequenceMatcher \<Rightarrow> (MatchingBlock list \<times> SequenceMatcher) result" where
  "GetMatchingBlocks sm =
     (case sm_MatchingBlocks sm of
        Some blocks \<Rightarrow> Inr (blocks, sm)
      | None \<Rightarrow> bindE (compute_blocks sm) (\<lambda>blocks. Inr (blocks, sm\<lparr>sm_MatchingBlocks := Some blocks\<rparr>)))"

fun opcodes_loop :: "MatchingBlock list \<Rightarrow> nat \<Rightarrow> nat \<Rightarrow> Opcode list" where
  "opcodes_loop [] i j = []"
| "opcodes_loop (b # bs) i j =
     (let ai = mb_A b; bj = mb_B b; size = mb_Size b;
          tag = (if i < ai \<and> j < bj then Some Replace else if i < ai then Some Delete
                 else if j < bj then Some Insert else None);
          gap = (case tag of Some t \<Rightarrow> [\<lparr>op_Tag = t, op_I1 = i, op_I2 = ai, op_J1 = j, op_J2 = bj\<rparr>] | None \<Rightarrow> []);
          eq = (if size \<noteq> 0
                then [\<lparr>op_Tag = Equal, op_I1 = ai, op_I2 = ai + size, op_J1 = bj, op_J2 = bj + size\<rparr>] else [])
      in gap @ eq @ opcodes_loop bs (ai + size) (bj + size))"

definition GetOpcodes :: "SequenceMatcher \<Rightarrow> (Opcode list \<times> SequenceMatcher) result" where
  "GetOpcodes sm =
     (case sm_Opcodes sm of
        Some ops \<Rightarrow> Inr (ops, sm)
      | None \<Rightarrow>
          bindE (GetMatchingBlocks sm) (\<lambda>(blocks, sm1).
            let ops = opcodes_loop blocks 0 0 in Inr (ops, sm1\<lparr>sm_Opcodes := Some ops\<rparr>)))"

section \<open>Grouped opcodes\<close>

definition trim_front :: "nat \<Rightarrow> Opcode \<Rightarrow> Opcode" where
  "trim_front n c = c\<lparr>op_I1 := max (op_I1 c) (if op_I2 c \<ge> n then op_I2 c - n else 0),
                     op_J1 := max (op_J1 c) (if op_J2 c \<ge> n then op_J2 c - n else 0)\<rparr>"

definition trim_back :: "nat \<Rightarrow> Opcode \<Rightarrow> Opcode" where
  "trim_back n c = c\<lparr>op_I2 := min (op_I2 c) (op_I1 c + n), op_J2 := min (op_J2 c) (op_J1 c + n)\<rparr>"

definition trim_ends :: "nat \<Rightarrow> Opcode list \<Rightarrow> Opcode list" where
  "trim_ends n codes =
     (let codes1 = (if op_Tag (hd codes) = Equal then trim_front n (hd codes) # tl codes else codes)
      in if op_Tag (last codes1) = Equal then butlast codes1 @ [trim_back n (last codes1)] else codes1)"

fun group_loop :: "nat \<Rightarrow> Opcode list \<Rightarrow> Opcode list \<Rightarrow> Opcode list list" where
  "group_loop n [] grp =
     (if grp \<noteq> [] \<and> \<not> (length grp = 1 \<and> op_Tag (hd grp) = Equal) then [grp] else [])"
| "group_loop n (c # cs) grp =
     (if op_Tag c = Equal \<and> op_I2 c - op_I1 c > n + n
      then (grp @ [trim_back n c]) # group_loop n cs [trim_front n c]
      else group_loop n cs (grp @ [c]))"

text \<open>The trimmed codes are written back into the cache, unless the cache is empty.\<close>

definition GetGroupedOpcodes :: "SequenceMatcher \<Rightarrow> int \<Rightarrow> (Opcode list list \<times> SequenceMatcher) result" where
  "GetGroupedOpcodes sm n =
     (if n < 0
      then Inl (StdException ''SequenceMatcher::GetGroupedOpcodes: negative context size is not supported'')
      else
        bindE (GetOpcodes sm) (\<lambda>(ops, sm1).
          let codes = (if ops = [] then [\<lparr>op_Tag = Equal, op_I1 = 0, op_I2 = 1, op_J1 = 0, op_J2 = 1\<rparr>] else ops);
              codes1 = trim_ends (nat n) codes;
              sm2 = (if ops = [] then sm1 else sm1\<lparr>sm_Opcodes := Some codes1\<rparr>)
          in Inr (group_loop (nat n) codes1 [], sm2)))"

section \<open>Ratios\<close>

definition Ratio :: "SequenceMatcher \<Rightarrow> (double \<times> SequenceMatcher) result" where
  "Ratio sm =
     bindE (GetMatchingBlocks sm) (\<lambda>(blocks, sm1).
       Inr (CalculateRatio (sum_list (map mb_Size blocks)) (length (sm_A sm) + length (sm_B sm)), sm1))"

text \<open>\<^verbatim>\<open>Avail\<close> and \<^verbatim>\<open>AvailHas\<close> are one list of optional counts.\<close>

fun quick_loop :: "nat option list \<Rightarrow> int list \<Rightarrow> int option list \<Rightarrow> nat \<Rightarrow> nat" where
  "quick_loop [] full avail matches = matches"
| "quick_loop (None # ks) full avail matches = quick_loop ks full avail matches"
| "quick_loop (Some key # ks) full avail matches =
     (let numb = (case avail ! key of Some a \<Rightarrow> a | None \<Rightarrow> full ! key)
      in quick_loop ks full (avail[key := Some (numb - 1)]) (if numb > 0 then matches + 1 else matches))"

definition QuickRatio :: "SequenceMatcher \<Rightarrow> double" where
  "QuickRatio sm =
     (let full = fold (\<lambda>key f. f[key := f ! key + 1]) (sm_BKey sm) (replicate (length (sm_B2j sm)) (0 :: int));
          matches = quick_loop (sm_AKey sm) full (replicate (length (sm_B2j sm)) None) 0
      in CalculateRatio matches (length (sm_A sm) + length (sm_B sm)))"

definition RealQuickRatio :: "SequenceMatcher \<Rightarrow> double" where
  "RealQuickRatio sm =
     CalculateRatio (min (length (sm_A sm)) (length (sm_B sm))) (length (sm_A sm) + length (sm_B sm))"

section \<open>\<open>UnifiedDiff\<close>\<close>

definition FormatRangeUnified :: "nat \<Rightarrow> nat \<Rightarrow> string" where
  "FormatRangeUnified start stop =
     (let beginning = start + 1; len = stop - start
      in if len = 1 then dec_nat beginning
         else (let beginning = (if len = 0 then beginning - 1 else beginning)
               in dec_nat beginning @ '','' @ dec_nat len))"

definition Prefixed :: "char \<Rightarrow> string \<Rightarrow> string" where
  "Prefixed pre line = pre # line"

fun intern_lines :: "string list \<Rightarrow> (string \<times> elem) list \<Rightarrow> elem list \<times> (string \<times> elem) list" where
  "intern_lines [] ids = ([], ids)"
| "intern_lines (l # ls) ids =
     (case map_of ids l of
        Some i \<Rightarrow> (case intern_lines ls ids of (out, ids1) \<Rightarrow> (i # out, ids1))
      | None \<Rightarrow>
          (let i = of_nat (length ids) in
           case intern_lines ls (AList.update l i ids) of (out, ids1) \<Rightarrow> (i # out, ids1)))"

definition code_rows :: "string list \<Rightarrow> string list \<Rightarrow> Opcode \<Rightarrow> string list" where
  "code_rows A B c =
     (if op_Tag c = Equal then map (\<lambda>i. Prefixed (CHR '' '') (A ! i)) [op_I1 c..<op_I2 c]
      else (if op_Tag c = Replace \<or> op_Tag c = Delete
            then map (\<lambda>i. Prefixed (CHR ''-'') (A ! i)) [op_I1 c..<op_I2 c] else [])
         @ (if op_Tag c = Replace \<or> op_Tag c = Insert
            then map (\<lambda>j. Prefixed (CHR ''+'') (B ! j)) [op_J1 c..<op_J2 c] else []))"

definition group_rows :: "string list \<Rightarrow> string list \<Rightarrow> string \<Rightarrow> Opcode list \<Rightarrow> string list" where
  "group_rows A B lineterm grp =
     (''@@ -'' @ FormatRangeUnified (op_I1 (hd grp)) (op_I2 (last grp)) @ '' +''
        @ FormatRangeUnified (op_J1 (hd grp)) (op_J2 (last grp)) @ '' @@'' @ lineterm)
     # concat (map (code_rows A B) grp)"

definition UnifiedDiff :: "string list \<Rightarrow> string list \<Rightarrow> int \<Rightarrow> string \<Rightarrow> string list result" where
  "UnifiedDiff A B n lineterm =
     (let (ids_a, ids) = intern_lines A []; (ids_b, _) = intern_lines B ids
      in bindE (new_SequenceMatcher ids_a ids_b True) (\<lambda>sm.
         bindE (GetGroupedOpcodes sm n) (\<lambda>(groups, _).
         Inr ((if groups = [] then [] else [''--- '' @ lineterm, ''+++ '' @ lineterm])
              @ concat (map (group_rows A B lineterm) groups)))))"

end
