(* ===== verification/DiffCorrect.thy ===== *)
theory DiffCorrect
  imports Difflib
begin

text \<open>
  Correctness of the \<^verbatim>\<open>difflib\<close> port: the element index, the longest match, the matching blocks,
  the opcodes as an edit script, the hunks of the unified diff, and the order of the three ratios.
\<close>

section \<open>The element index\<close>

definition positions :: "'a list \<Rightarrow> 'a \<Rightarrow> nat list" where
  "positions B v = filter (\<lambda>i. B ! i = v) [0..<length B]"

definition positions_upto :: "nat \<Rightarrow> 'a list \<Rightarrow> 'a \<Rightarrow> nat list" where
  "positions_upto n B v = filter (\<lambda>i. B ! i = v) [0..<n]"

definition keys_inv :: "elem list \<Rightarrow> nat \<Rightarrow> KeyTable \<Rightarrow> bool" where
  "keys_inv B n t \<longleftrightarrow>
     (\<forall>v key. map_of (kt_Lookup t) v = Some key \<longrightarrow>
        key < length (kt_B2j t) \<and> kt_B2j t ! key = positions_upto n B v) \<and>
     (\<forall>v. map_of (kt_Lookup t) v = None \<longrightarrow> positions_upto n B v = []) \<and>
     length (kt_BKey t) = n \<and> (\<forall>i<n. map_of (kt_Lookup t) (B ! i) = Some (kt_BKey t ! i)) \<and>
     (\<forall>v w key. map_of (kt_Lookup t) v = Some key \<longrightarrow> map_of (kt_Lookup t) w = Some key \<longrightarrow> v = w)"

lemma positions_upto_Suc: "positions_upto (Suc n) B v = positions_upto n B v @ (if B ! n = v then [n] else [])"
  by (simp add: positions_upto_def)

lemma keys_inv_step:
  assumes inv: "keys_inv B n t" shows "keys_inv B (Suc n) (chain_step B n t)"
proof (cases "map_of (kt_Lookup t) (B ! n)")
  case None
  let ?t = "chain_step B n t"
  have L: "map_of (kt_Lookup ?t) v = (if v = B ! n then Some (length (kt_B2j t)) else map_of (kt_Lookup t) v)" for v
    using None by (simp add: chain_step_def Let_def)
  have b2j: "kt_B2j ?t = kt_B2j t @ [[n]]" "kt_BKey ?t = kt_BKey t @ [length (kt_B2j t)]"
    using None by (simp_all add: chain_step_def Let_def)
  have empty: "positions_upto n B (B ! n) = []" using inv None unfolding keys_inv_def by blast
  have old: "key < length (kt_B2j t) \<and> kt_B2j t ! key = positions_upto n B v" if "map_of (kt_Lookup t) v = Some key" for v key
    using inv that unfolding keys_inv_def by blast
  have bkey: "length (kt_BKey t) = n" "\<And>i. i < n \<Longrightarrow> map_of (kt_Lookup t) (B ! i) = Some (kt_BKey t ! i)"
    and inj: "\<And>v w key. map_of (kt_Lookup t) v = Some key \<Longrightarrow> map_of (kt_Lookup t) w = Some key \<Longrightarrow> v = w"
    and none: "\<And>v. map_of (kt_Lookup t) v = None \<Longrightarrow> positions_upto n B v = []"
    using inv unfolding keys_inv_def by blast+
  show ?thesis unfolding keys_inv_def
  proof (intro conjI allI impI)
    fix v key assume "map_of (kt_Lookup ?t) v = Some key"
    then show "key < length (kt_B2j ?t)" "kt_B2j ?t ! key = positions_upto (Suc n) B v"
      using old [of v key] empty by (auto simp: L b2j positions_upto_Suc nth_append split: if_splits)
  next
    fix v assume "map_of (kt_Lookup ?t) v = None"
    then show "positions_upto (Suc n) B v = []" using none by (auto simp: L positions_upto_Suc split: if_splits)
  next
    show "length (kt_BKey ?t) = Suc n" using bkey by (simp add: b2j)
  next
    fix i assume "i < Suc n"
    then consider "i = n" | "i < n" by linarith
    then show "map_of (kt_Lookup ?t) (B ! i) = Some (kt_BKey ?t ! i)"
    proof cases
      case 2
      with bkey(2) [OF 2] None have "B ! i \<noteq> B ! n" by auto
      with 2 bkey show ?thesis by (simp add: L b2j nth_append)
    qed (simp add: L b2j bkey nth_append)
  next
    fix v w key assume "map_of (kt_Lookup ?t) v = Some key" "map_of (kt_Lookup ?t) w = Some key"
    then have vw: "(if v = B ! n then Some (length (kt_B2j t)) else map_of (kt_Lookup t) v) = Some key"
      "(if w = B ! n then Some (length (kt_B2j t)) else map_of (kt_Lookup t) w) = Some key" by (simp_all only: L)
    show "v = w"
    proof (cases "v = B ! n"; cases "w = B ! n")
      assume "v = B ! n" "w \<noteq> B ! n"
      with vw old [of w key] show ?thesis by simp
    next
      assume "v \<noteq> B ! n" "w = B ! n"
      with vw old [of v key] show ?thesis by simp
    next
      assume "v \<noteq> B ! n" "w \<noteq> B ! n"
      with vw have "map_of (kt_Lookup t) v = Some key" "map_of (kt_Lookup t) w = Some key" by simp_all
      then show ?thesis by (rule inj)
    qed simp
  qed
next
  case (Some k)
  let ?t = "chain_step B n t"
  have t: "kt_Lookup ?t = kt_Lookup t" "kt_B2j ?t = (kt_B2j t)[k := kt_B2j t ! k @ [n]]" "kt_BKey ?t = kt_BKey t @ [k]"
    using Some by (simp_all add: chain_step_def)
  have k: "k < length (kt_B2j t)" "kt_B2j t ! k = positions_upto n B (B ! n)"
    using inv Some unfolding keys_inv_def by blast+
  have inj: "\<And>v key. map_of (kt_Lookup t) v = Some key \<Longrightarrow> key = k \<Longrightarrow> v = B ! n"
    using inv Some unfolding keys_inv_def by blast
  have other: "B ! n \<noteq> v" if "map_of (kt_Lookup t) v = None" for v using that Some by auto
  show ?thesis unfolding keys_inv_def
  proof (intro conjI allI impI)
    fix v key assume v: "map_of (kt_Lookup ?t) v = Some key"
    then have old: "key < length (kt_B2j t)" "kt_B2j t ! key = positions_upto n B v"
      using inv unfolding keys_inv_def t(1) by blast+
    then show "key < length (kt_B2j ?t)" by (simp add: t)
    show "kt_B2j ?t ! key = positions_upto (Suc n) B v"
    proof (cases "key = k")
      case True
      with inj v t(1) have "v = B ! n" by simp
      with True k show ?thesis by (simp add: t positions_upto_Suc)
    next
      case False
      with v Some t(1) have "v \<noteq> B ! n" by auto
      with False old show ?thesis by (simp add: t positions_upto_Suc)
    qed
  next
    fix v assume v: "map_of (kt_Lookup ?t) v = None"
    then have "positions_upto n B v = []" using inv unfolding keys_inv_def t(1) by blast
    with v other show "positions_upto (Suc n) B v = []" by (simp add: t positions_upto_Suc)
  next
    show "length (kt_BKey ?t) = Suc n" using inv unfolding keys_inv_def t by simp
  next
    fix i assume "i < Suc n"
    with inv Some show "map_of (kt_Lookup ?t) (B ! i) = Some (kt_BKey ?t ! i)"
      unfolding keys_inv_def t by (cases "i = n") (auto simp: nth_append)
  next
    fix v w key assume "map_of (kt_Lookup ?t) v = Some key" "map_of (kt_Lookup ?t) w = Some key"
    with inv show "v = w" unfolding keys_inv_def t by blast
  qed
qed

lemma chain_keys_inv: "keys_inv B (length B) (chain_keys B)"
proof -
  have "keys_inv B n (fold (chain_step B) [0..<n] \<lparr>kt_Lookup = [], kt_B2j = [], kt_BKey = []\<rparr>)" for n
  proof (induction n)
    case 0
    then show ?case by (simp add: keys_inv_def positions_upto_def)
  next
    case (Suc n)
    then show ?case by (simp add: keys_inv_step)
  qed
  then show ?thesis by (simp add: chain_keys_def)
qed

text \<open>A popular element: purged from the index of a long second sequence.\<close>

definition popular :: "SequenceMatcher \<Rightarrow> elem \<Rightarrow> bool" where
  "popular sm v \<longleftrightarrow> sm_AutoJunk sm \<and> length (sm_B sm) \<ge> 200 \<and>
     length (positions (sm_B sm) v) > length (sm_B sm) div 100 + 1"

definition chained :: "SequenceMatcher \<Rightarrow> bool" where
  "chained sm \<longleftrightarrow>
     (\<forall>i<length (sm_A sm). js_of sm i = (if popular sm (sm_A sm ! i) then [] else positions (sm_B sm) (sm_A sm ! i)))"

lemma ChainB_chained: "chained (ChainB A B autojunk)"
proof -
  let ?t = "chain_keys B" and ?sm = "ChainB A B autojunk"
  have inv: "keys_inv B (length B) ?t" by (rule chain_keys_inv)
  have "js_of ?sm i = (if popular ?sm (A ! i) then [] else positions B (A ! i))" if i: "i < length A" for i
  proof (cases "map_of (kt_Lookup ?t) (A ! i)")
    case None
    with inv have "positions B (A ! i) = []" unfolding keys_inv_def positions_def positions_upto_def by blast
    with None i show ?thesis by (simp add: js_of_def ChainB_def Let_def)
  next
    case (Some key)
    with inv have k: "key < length (kt_B2j ?t)" "kt_B2j ?t ! key = positions B (A ! i)"
      unfolding keys_inv_def positions_def positions_upto_def by blast+
    with Some i show ?thesis by (simp add: js_of_def ChainB_def Let_def popular_def)
  qed
  then show ?thesis by (simp add: chained_def ChainB_def Let_def)
qed

section \<open>One row of the match table\<close>

definition get_len :: "(nat \<times> nat) list \<Rightarrow> nat \<Rightarrow> nat" where
  "get_len prev x = (case map_of prev x of Some k \<Rightarrow> k | None \<Rightarrow> 0)"

definition len_before :: "(nat \<times> nat) list \<Rightarrow> nat \<Rightarrow> nat" where
  "len_before prev j = (if j = 0 then 0 else get_len prev (j - 1))"

abbreviation increasing :: "nat list \<Rightarrow> bool" where
  "increasing \<equiv> sorted_wrt (<)"

lemma get_len_dropWhile:
  assumes "x \<ge> y" shows "get_len (dropWhile (\<lambda>e. fst e < y) prev) x = get_len prev x"
  using assms by (induction prev) (auto simp: get_len_def)

lemma prev_len_get:
  assumes "increasing (map fst prev)"
  shows "prev_len j (skip_prev j prev) = len_before prev j"
proof (cases "j = 0")
  case False
  let ?p = "dropWhile (\<lambda>e. fst e < j - 1) prev"
  have ge: "?p \<noteq> [] \<Longrightarrow> j - 1 \<le> fst (hd ?p)" using hd_dropWhile [of "\<lambda>e. fst e < j - 1" prev] by (simp add: not_less)
  have inc: "increasing (map fst ?p)"
    using assms by (induction prev) auto
  have "get_len ?p (j - 1) = (if ?p \<noteq> [] \<and> fst (hd ?p) = j - 1 then snd (hd ?p) else 0)"
  proof (cases ?p)
    case (Cons e es)
    have "map_of es (j - 1) = None" if "fst e > j - 1"
      using inc Cons that by (auto simp: map_of_eq_None_iff)
    moreover have "map_of es (j - 1) = None" if "fst e = j - 1"
      using inc Cons that by (auto simp: map_of_eq_None_iff)
    ultimately show ?thesis using ge Cons
      by (cases e, cases "fst e = j - 1") (simp_all add: get_len_def del: One_nat_def)
  next
    case Nil
    then show ?thesis unfolding Nil by (simp add: get_len_def)
  qed
  with False show ?thesis
    using get_len_dropWhile [of "j - 1" "j - 1" prev] by (simp add: prev_len_def skip_prev_def len_before_def del: dropWhile_eq_Nil_conv One_nat_def)
qed (simp add: prev_len_def len_before_def)

lemma skip_prev_later:
  assumes "j \<le> j'" shows "len_before (skip_prev j prev) j' = len_before prev j'"
  using assms get_len_dropWhile [of "j - 1" "j' - 1" prev]
  by (auto simp: len_before_def skip_prev_def intro: get_len_dropWhile)

lemma skip_prev_increasing: "increasing (map fst prev) \<Longrightarrow> increasing (map fst (skip_prev j prev))"
  by (auto simp: skip_prev_def) (induction prev, auto)

text \<open>The row computes, for each position of its element, one more than the length one step up the
  diagonal, and offers each to the best match.\<close>

lemma row_loop_eq:
  assumes "increasing js" and "increasing (map fst prev)"
  shows "row_loop i bhi js prev cur best =
    (let new = map (\<lambda>j. (j, Suc (len_before prev j))) (takeWhile (\<lambda>j. j < bhi) js)
     in (cur @ new, fold (keep_best i) new best))"
  using assms
proof (induction js arbitrary: prev cur best)
  case (Cons j js)
  let ?prev1 = "skip_prev j prev"
  have k: "prev_len j ?prev1 = len_before prev j" using Cons.prems(2) by (rule prev_len_get)
  have later: "map (\<lambda>j. (j, Suc (len_before ?prev1 j))) (takeWhile (\<lambda>j. j < bhi) js) =
      map (\<lambda>j. (j, Suc (len_before prev j))) (takeWhile (\<lambda>j. j < bhi) js)"
    using Cons.prems(1) by (auto dest!: set_takeWhileD intro!: skip_prev_later simp: less_imp_le)
  show ?case
    using Cons.IH [of ?prev1 "cur @ [(j, Suc (len_before prev j))]" "keep_best i (j, Suc (len_before prev j)) best"]
      Cons.prems skip_prev_increasing [OF Cons.prems(2), of j] k later
    by (simp add: Let_def)
qed (simp add: Let_def)

lemma takeWhile_dropWhile_filter:
  assumes "increasing js"
  shows "takeWhile (\<lambda>j. j < bhi) (dropWhile (\<lambda>j. j < blo) js) = filter (\<lambda>j. blo \<le> j \<and> j < bhi) js"
  using assms
proof (induction js)
  case (Cons j js)
  have "takeWhile (\<lambda>j. j < bhi) js = filter (\<lambda>j. blo \<le> j \<and> j < bhi) js" if "blo \<le> j"
  proof -
    from that Cons.prems have "\<forall>x\<in>set js. blo \<le> x" by auto
    then have "dropWhile (\<lambda>j. j < blo) js = js" by (cases js) (auto simp: not_less)
    with Cons.IH Cons.prems show ?thesis by simp
  qed
  moreover have "filter (\<lambda>j. blo \<le> j \<and> j < bhi) js = []" if "bhi \<le> j"
    using that Cons.prems by (auto simp: filter_empty_conv)
  ultimately show ?case using Cons by auto
qed simp

lemma increasing_dropWhile: "increasing js \<Longrightarrow> increasing (dropWhile P js)"
  by (induction js) auto

definition row_js :: "SequenceMatcher \<Rightarrow> nat \<Rightarrow> nat \<Rightarrow> nat \<Rightarrow> nat list" where
  "row_js sm blo bhi i = filter (\<lambda>j. blo \<le> j \<and> j < bhi) (js_of sm i)"

lemma match_row_eq:
  assumes "increasing (js_of sm i)" and "increasing (map fst prev)"
  shows "match_row sm blo bhi i (prev, best) =
    (let new = map (\<lambda>j. (j, Suc (len_before prev j))) (row_js sm blo bhi i) in (new, fold (keep_best i) new best))"
  using row_loop_eq [OF increasing_dropWhile [OF assms(1)] assms(2), of i bhi "\<lambda>j. j < blo" "[]" best]
  by (simp add: match_row_def row_js_def takeWhile_dropWhile_filter [OF assms(1)])

section \<open>The match table\<close>

text \<open>The length of the run of indexed equal elements that ends in row \<open>alo + d - 1\<close> and column \<open>j\<close>.\<close>

primrec runlen :: "SequenceMatcher \<Rightarrow> nat \<Rightarrow> nat \<Rightarrow> nat \<Rightarrow> nat \<Rightarrow> nat \<Rightarrow> nat" where
  "runlen sm alo blo bhi 0 j = 0"
| "runlen sm alo blo bhi (Suc d) j =
     (if j \<in> set (row_js sm blo bhi (alo + d)) then Suc (if j = 0 then 0 else runlen sm alo blo bhi d (j - 1)) else 0)"

definition row_of :: "SequenceMatcher \<Rightarrow> nat \<Rightarrow> nat \<Rightarrow> nat \<Rightarrow> nat \<Rightarrow> (nat \<times> nat) list" where
  "row_of sm alo blo bhi d =
     (case d of 0 \<Rightarrow> [] | Suc e \<Rightarrow> map (\<lambda>j. (j, runlen sm alo blo bhi d j)) (row_js sm blo bhi (alo + e)))"

lemma row_of_get: "get_len (row_of sm alo blo bhi d) j = runlen sm alo blo bhi d j"
proof (cases d)
  case (Suc e)
  have "map_of (map (\<lambda>j. (j, f j)) js) j = (if j \<in> set js then Some (f j) else None)" for f :: "nat \<Rightarrow> nat" and js
    by (induction js) auto
  with Suc show ?thesis by (simp add: row_of_def get_len_def del: runlen.simps(2)) (simp add: row_js_def)
qed (simp add: row_of_def get_len_def)

definition best_inv :: "SequenceMatcher \<Rightarrow> nat \<Rightarrow> nat \<Rightarrow> nat \<Rightarrow> nat \<Rightarrow> nat \<times> nat \<times> nat \<Rightarrow> bool" where
  "best_inv sm alo blo bhi d best \<longleftrightarrow>
     (\<forall>e\<le>d. \<forall>j. runlen sm alo blo bhi e j \<le> snd (snd best)) \<and>
     (best = (alo, blo, 0) \<or>
      (\<exists>e j k. e < d \<and> runlen sm alo blo bhi (Suc e) j = k \<and> 0 < k \<and> best = (alo + e + 1 - k, j + 1 - k, k)))"

lemma js_of_chained:
  assumes "chained sm" and "i < length (sm_A sm)"
  shows "increasing (js_of sm i)" and "j \<in> set (js_of sm i) \<Longrightarrow> j < length (sm_B sm) \<and> sm_B sm ! j = sm_A sm ! i"
    and "\<not> popular sm (sm_A sm ! i) \<Longrightarrow> j < length (sm_B sm) \<Longrightarrow> sm_B sm ! j = sm_A sm ! i \<Longrightarrow> j \<in> set (js_of sm i)"
proof -
  have js: "js_of sm i = (if popular sm (sm_A sm ! i) then [] else positions (sm_B sm) (sm_A sm ! i))"
    using assms by (simp add: chained_def)
  show "increasing (js_of sm i)" by (simp add: js positions_def sorted_wrt_filter)
  show "j \<in> set (js_of sm i) \<Longrightarrow> j < length (sm_B sm) \<and> sm_B sm ! j = sm_A sm ! i"
    by (simp add: js positions_def split: if_splits)
  show "\<not> popular sm (sm_A sm ! i) \<Longrightarrow> j < length (sm_B sm) \<Longrightarrow> sm_B sm ! j = sm_A sm ! i \<Longrightarrow> j \<in> set (js_of sm i)"
    by (simp add: js positions_def)
qed

text \<open>The same elements in both sequences, \<open>k\<close> of them from \<open>i\<close> and from \<open>j\<close>.\<close>

definition run :: "'a list \<Rightarrow> 'a list \<Rightarrow> nat \<Rightarrow> nat \<Rightarrow> nat \<Rightarrow> bool" where
  "run A B i j k \<longleftrightarrow> (\<forall>t<k. A ! (i + t) = B ! (j + t))"

lemma run_Suc: "run A B i j (Suc k) \<longleftrightarrow> run A B i j k \<and> A ! (i + k) = B ! (j + k)"
  by (auto simp: run_def less_Suc_eq)

lemma run_0 [simp]: "run A B i j 0"
  by (simp add: run_def)

lemma run_front: "A ! i = B ! j \<Longrightarrow> run A B (Suc i) (Suc j) k \<Longrightarrow> run A B i j (Suc k)"
  by (auto simp: run_def less_Suc_eq_0_disj)

lemma runlen_run:
  assumes "chained sm" and "alo + d \<le> length (sm_A sm)" and "0 < runlen sm alo blo bhi d j"
  shows "runlen sm alo blo bhi d j \<le> d \<and> blo + runlen sm alo blo bhi d j \<le> Suc j \<and> j < bhi \<and>
    run (sm_A sm) (sm_B sm) (alo + d - runlen sm alo blo bhi d j) (Suc j - runlen sm alo blo bhi d j) (runlen sm alo blo bhi d j)"
  using assms(2,3)
proof (induction d arbitrary: j)
  case (Suc d)
  from Suc.prems(2) have j: "j \<in> set (row_js sm blo bhi (alo + d))" by (simp split: if_splits)
  with js_of_chained(2) [OF assms(1), of "alo + d" j] Suc.prems(1)
  have e: "sm_B sm ! j = sm_A sm ! (alo + d)" "blo \<le> j" "j < bhi" by (auto simp: row_js_def)
  let ?k = "if j = 0 then 0 else runlen sm alo blo bhi d (j - 1)"
  have r: "runlen sm alo blo bhi (Suc d) j = Suc ?k" using j by simp
  show ?case
  proof (cases "?k = 0")
    case True
    with r have "runlen sm alo blo bhi (Suc d) j = 1" by simp
    with e show ?thesis by (simp add: run_def)
  next
    case False
    then have "j > 0" "0 < runlen sm alo blo bhi d (j - 1)" by (simp_all split: if_splits)
    with Suc.IH [of "j - 1"] Suc.prems(1) have ih: "?k \<le> d" "blo + ?k \<le> j"
      "run (sm_A sm) (sm_B sm) (alo + d - ?k) (j - ?k) ?k" by auto
    moreover have "alo + d - ?k + ?k = alo + d" "j - ?k + ?k = j" using ih by simp_all
    ultimately have "run (sm_A sm) (sm_B sm) (alo + d - ?k) (j - ?k) (Suc ?k)"
      using e(1) by (simp only: run_Suc)
    with ih e show ?thesis unfolding r by simp
  qed
qed simp

lemma runlen_longest:
  assumes "chained sm" and "i + k \<le> length (sm_A sm)" and "alo \<le> i" and "blo \<le> j" and "j + k \<le> bhi"
    and "bhi \<le> length (sm_B sm)" and "run (sm_A sm) (sm_B sm) i j k" and "\<forall>t<k. \<not> popular sm (sm_A sm ! (i + t))"
  shows "k \<le> runlen sm alo blo bhi (i + k - alo) (j + k - 1)"
  using assms(2,5,7,8)
proof (induction k)
  case (Suc k)
  have k: "k \<le> runlen sm alo blo bhi (i + k - alo) (j + k - 1)" using Suc by (auto simp: run_Suc)
  have "i + k < length (sm_A sm)" "\<not> popular sm (sm_A sm ! (i + k))" "j + k < length (sm_B sm)"
    "sm_B sm ! (j + k) = sm_A sm ! (i + k)"
    using Suc.prems assms(6) by (auto simp: run_Suc)
  then have "j + k \<in> set (js_of sm (i + k))" using js_of_chained(3) [OF assms(1)] by blast
  then have "j + k \<in> set (row_js sm blo bhi (alo + (i + k - alo)))" using Suc.prems assms(3,4) by (simp add: row_js_def)
  moreover have "i + Suc k - alo = Suc (i + k - alo)" using assms(3) by simp
  ultimately show ?case using k by (cases "j + k = 0") simp_all
qed simp

section \<open>The longest match\<close>

lemma keep_best_mono: "snd (snd best) \<le> snd (snd (keep_best i jk best))" "snd jk \<le> snd (snd (keep_best i jk best))"
  by (auto simp: keep_best_def split_beta)

lemma keep_best_cases: "keep_best i jk best = best \<or> keep_best i jk best = (i + 1 - snd jk, fst jk + 1 - snd jk, snd jk)"
  by (simp add: keep_best_def split_beta)

lemma keep_best_fold_mono: "snd (snd best) \<le> snd (snd (fold (keep_best i) new best))"
proof (induction new arbitrary: best)
  case (Cons x new)
  from order_trans [OF keep_best_mono(1) Cons.IH] show ?case by simp
qed simp

lemma keep_best_fold_max: "jk \<in> set new \<Longrightarrow> snd jk \<le> snd (snd (fold (keep_best i) new best))"
proof (induction new arbitrary: best)
  case (Cons x new)
  have "snd x \<le> snd (snd (fold (keep_best i) new (keep_best i x best)))"
    by (rule order_trans [OF keep_best_mono(2) keep_best_fold_mono])
  with Cons.IH [of "keep_best i x best"] Cons.prems show ?case by auto
qed simp

lemma keep_best_fold_cases:
  "fold (keep_best i) new best = best \<or>
     (\<exists>jk\<in>set new. fold (keep_best i) new best = (i + 1 - snd jk, fst jk + 1 - snd jk, snd jk))"
proof (induction new arbitrary: best)
  case (Cons x new)
  from Cons.IH [of "keep_best i x best"] keep_best_cases [of i x best] show ?case by auto
qed simp

lemma best_inv_step:
  assumes inv: "best_inv sm alo blo bhi d best"
  shows "best_inv sm alo blo bhi (Suc d) (fold (keep_best (alo + d)) (row_of sm alo blo bhi (Suc d)) best)"
proof -
  let ?new = "row_of sm alo blo bhi (Suc d)" let ?b = "fold (keep_best (alo + d)) ?new best"
  let ?len = "runlen sm alo blo bhi"
  have new_eq: "?new = map (\<lambda>j. (j, ?len (Suc d) j)) (row_js sm blo bhi (alo + d))" by (simp add: row_of_def del: runlen.simps)
  have new: "?len (Suc d) j \<le> snd (snd ?b)" for j
  proof (cases "j \<in> set (row_js sm blo bhi (alo + d))")
    case True
    then have "(j, ?len (Suc d) j) \<in> set ?new" unfolding new_eq by (simp del: runlen.simps)
    from keep_best_fold_max [OF this] show ?thesis by (simp del: runlen.simps)
  qed simp
  have "?len e j \<le> snd (snd best)" if "e \<le> d" for e j using inv that unfolding best_inv_def by blast
  then have old: "?len e j \<le> snd (snd ?b)" if "e \<le> d" for e j
    using that keep_best_fold_mono order_trans by meson
  have max: "\<forall>e\<le>Suc d. \<forall>j. ?len e j \<le> snd (snd ?b)" using new old by (metis le_SucE)
  from keep_best_fold_cases [of "alo + d" ?new best]
  show ?thesis
  proof
    assume "?b = best"
    with inv max show ?thesis unfolding best_inv_def by (metis less_SucI)
  next
    assume "\<exists>jk\<in>set ?new. ?b = (alo + d + 1 - snd jk, fst jk + 1 - snd jk, snd jk)"
    then obtain j where j: "j \<in> set (row_js sm blo bhi (alo + d))"
      "?b = (alo + d + 1 - ?len (Suc d) j, j + 1 - ?len (Suc d) j, ?len (Suc d) j)"
      unfolding new_eq by (auto simp del: runlen.simps)
    moreover have "0 < ?len (Suc d) j" using j by simp
    ultimately show ?thesis using max unfolding best_inv_def by blast
  qed
qed

lemma rows_state:
  assumes "chained sm" and "alo + d \<le> length (sm_A sm)"
  shows "\<exists>best. fold (match_row sm blo bhi) [alo..<alo + d] ([], (alo, blo, 0)) = (row_of sm alo blo bhi d, best) \<and>
    best_inv sm alo blo bhi d best"
  using assms(2)
proof (induction d)
  case 0
  then show ?case by (simp add: row_of_def best_inv_def)
next
  case (Suc d)
  then obtain best where ih: "fold (match_row sm blo bhi) [alo..<alo + d] ([], (alo, blo, 0)) = (row_of sm alo blo bhi d, best)"
    "best_inv sm alo blo bhi d best" by auto
  have inc: "increasing (js_of sm (alo + d))" using js_of_chained(1) [OF assms(1)] Suc.prems by simp
  have "increasing (map fst (row_of sm alo blo bhi d))"
  proof (cases d)
    case (Suc e)
    have "increasing (js_of sm (alo + e))" using js_of_chained(1) [OF assms(1)] Suc.prems Suc by simp
    then show ?thesis using Suc by (simp add: row_of_def comp_def row_js_def sorted_wrt_filter del: runlen.simps)
  qed (simp add: row_of_def)
  note mr = match_row_eq [OF inc this, of blo bhi best]
  have "map (\<lambda>j. (j, Suc (len_before (row_of sm alo blo bhi d) j))) (row_js sm blo bhi (alo + d)) = row_of sm alo blo bhi (Suc d)"
    by (simp add: row_of_def [of _ _ _ _ "Suc d"] len_before_def row_of_get)
  with mr have "match_row sm blo bhi (alo + d) (row_of sm alo blo bhi d, best) =
      (row_of sm alo blo bhi (Suc d), fold (keep_best (alo + d)) (row_of sm alo blo bhi (Suc d)) best)"
    by (simp only: Let_def)
  with ih best_inv_step [OF ih(2)] show ?case by simp
qed

definition in_window :: "nat \<Rightarrow> nat \<Rightarrow> nat \<Rightarrow> nat \<Rightarrow> nat \<times> nat \<times> nat \<Rightarrow> bool" where
  "in_window alo ahi blo bhi best \<longleftrightarrow>
     (case best of (i, j, k) \<Rightarrow> alo \<le> i \<and> i + k \<le> ahi \<and> blo \<le> j \<and> j + k \<le> bhi)"

lemma best_inv_run:
  assumes "best_inv sm alo blo bhi d (i, j, k)" and "chained sm" and "alo + d \<le> length (sm_A sm)" and "blo \<le> bhi"
  shows "in_window alo (alo + d) blo bhi (i, j, k) \<and> run (sm_A sm) (sm_B sm) i j k"
proof -
  from assms(1) have "(i, j, k) = (alo, blo, 0) \<or>
      (\<exists>e j'. e < d \<and> k = runlen sm alo blo bhi (Suc e) j' \<and> 0 < k \<and> i = alo + e + 1 - k \<and> j = j' + 1 - k)"
    unfolding best_inv_def by (auto simp del: runlen.simps)
  then show ?thesis
  proof
    assume "\<exists>e j'. e < d \<and> k = runlen sm alo blo bhi (Suc e) j' \<and> 0 < k \<and> i = alo + e + 1 - k \<and> j = j' + 1 - k"
    then obtain e j' where e: "e < d" "k = runlen sm alo blo bhi (Suc e) j'" "0 < k" "i = alo + e + 1 - k" "j = j' + 1 - k"
      by blast
    with runlen_run [OF assms(2), of alo "Suc e" blo bhi j'] assms(3)
    have "k \<le> Suc e" "blo + k \<le> Suc j'" "j' < bhi" "run (sm_A sm) (sm_B sm) (alo + Suc e - k) (Suc j' - k) k"
      by (simp_all del: runlen.simps)
    with e show ?thesis by (auto simp: in_window_def simp del: runlen.simps)
  qed (use assms(4) in \<open>simp add: in_window_def\<close>)
qed

lemma extend_left_run:
  "extend_left A B alo blo (i, j, k) = (i', j', k') \<Longrightarrow> run A B i j k \<Longrightarrow>
     run A B i' j' k' \<and> \<not> (i' > alo \<and> j' > blo \<and> A ! (i' - 1) = B ! (j' - 1))"
proof (induction A B alo blo "(i, j, k)" arbitrary: i j k rule: extend_left.induct)
  case (1 A B alo blo i j k)
  show ?case
  proof (cases "i > alo \<and> j > blo \<and> A ! (i - 1) = B ! (j - 1)")
    case True
    with 1(2) have "extend_left A B alo blo (i - 1, j - 1, k + 1) = (i', j', k')"
      by (simp add: extend_left.simps [of A B alo blo i j k])
    moreover have "run A B (i - 1) (j - 1) (k + 1)"
      using run_front [of A "i - 1" B "j - 1" k] True 1(3) by simp
    ultimately show ?thesis by (rule 1(1) [OF True])
  next
    case False
    with 1(2) have "(i', j', k') = (i, j, k)" by (subst (asm) extend_left.simps) (simp only: if_False prod.inject)
    with 1(3) False show ?thesis by auto
  qed
qed

lemma extend_right_run:
  "extend_right A B ahi bhi (i, j, k) = (i', j', k') \<Longrightarrow> run A B i j k \<Longrightarrow>
     run A B i' j' k' \<and> \<not> (i' + k' < ahi \<and> j' + k' < bhi \<and> A ! (i' + k') = B ! (j' + k'))"
proof (induction A B ahi bhi "(i, j, k)" arbitrary: i j k rule: extend_right.induct)
  case (1 A B ahi bhi i j k)
  show ?case
  proof (cases "i + k < ahi \<and> j + k < bhi \<and> A ! (i + k) = B ! (j + k)")
    case True
    with 1(2) have "extend_right A B ahi bhi (i, j, k + 1) = (i', j', k')"
      by (simp add: extend_right.simps [of A B ahi bhi i j k])
    moreover have "run A B i j (k + 1)" using True 1(3) by (simp add: run_Suc)
    ultimately show ?thesis by (rule 1(1) [OF True])
  next
    case False
    with 1(2) have "(i', j', k') = (i, j, k)" by (subst (asm) extend_right.simps) (simp only: if_False prod.inject)
    with 1(3) False show ?thesis by auto
  qed
qed

definition block_ok :: "SequenceMatcher \<Rightarrow> nat \<Rightarrow> nat \<Rightarrow> nat \<Rightarrow> nat \<Rightarrow> MatchingBlock \<Rightarrow> bool" where
  "block_ok sm alo ahi blo bhi x \<longleftrightarrow>
     in_window alo ahi blo bhi (mb_A x, mb_B x, mb_Size x) \<and> run (sm_A sm) (sm_B sm) (mb_A x) (mb_B x) (mb_Size x)"

definition not_extendable :: "SequenceMatcher \<Rightarrow> nat \<Rightarrow> nat \<Rightarrow> nat \<Rightarrow> nat \<Rightarrow> MatchingBlock \<Rightarrow> bool" where
  "not_extendable sm alo ahi blo bhi x \<longleftrightarrow>
     \<not> (mb_A x > alo \<and> mb_B x > blo \<and> sm_A sm ! (mb_A x - 1) = sm_B sm ! (mb_B x - 1)) \<and>
     \<not> (mb_A x + mb_Size x < ahi \<and> mb_B x + mb_Size x < bhi \<and>
        sm_A sm ! (mb_A x + mb_Size x) = sm_B sm ! (mb_B x + mb_Size x))"

lemma FindLongestMatch_returns:
  assumes "alo \<le> ahi" and "ahi \<le> length (sm_A sm)" and "blo \<le> bhi" and "bhi \<le> length (sm_B sm)"
  obtains x where "FindLongestMatch sm alo ahi blo bhi = Inr x"
  using assms by (force simp: FindLongestMatch_def Let_def split_beta)

lemma FindLongestMatch_facts:
  assumes x: "FindLongestMatch sm alo ahi blo bhi = Inr x" and ch: "chained sm"
  shows "block_ok sm alo ahi blo bhi x" and "not_extendable sm alo ahi blo bhi x"
    and "runlen sm alo blo bhi e j \<le> mb_Size x \<or> ahi - alo < e"
proof -
  have b: "alo \<le> ahi" "blo \<le> bhi" "ahi \<le> length (sm_A sm)" using x by (auto simp: FindLongestMatch_def split: if_splits)
  obtain bi bj bk where best: "snd (fold (match_row sm blo bhi) [alo..<ahi] ([], (alo, blo, 0))) = (bi, bj, bk)"
    and inv: "best_inv sm alo blo bhi (ahi - alo) (bi, bj, bk)"
    using rows_state [OF ch, of alo "ahi - alo" blo bhi] b by (auto simp: prod_eq_iff)
  have win: "in_window alo ahi blo bhi (bi, bj, bk)" "run (sm_A sm) (sm_B sm) bi bj bk"
    using best_inv_run [OF inv ch] b by simp_all
  obtain i1 j1 k1 where l: "extend_left (sm_A sm) (sm_B sm) alo blo (bi, bj, bk) = (i1, j1, k1)" by (metis prod_cases3)
  obtain i2 j2 k2 where r: "extend_right (sm_A sm) (sm_B sm) ahi bhi (i1, j1, k1) = (i2, j2, k2)" by (metis prod_cases3)
  have xe: "x = \<lparr>mb_A = i2, mb_B = j2, mb_Size = k2\<rparr>"
    using x best l r by (auto simp: FindLongestMatch_def Let_def split: if_splits)
  have fl: "i1 + k1 = bi + bk" "j1 + k1 = bj + bk" "bk \<le> k1" "alo \<le> i1" "blo \<le> j1"
    using extend_left_facts [OF l] win(1) by (auto simp: in_window_def)
  have fr: "i2 = i1" "j2 = j1" "k1 \<le> k2" "i1 + k2 \<le> ahi" "j1 + k2 \<le> bhi"
    using extend_right_facts [OF r] fl win(1) by (auto simp: in_window_def)
  have rl: "run (sm_A sm) (sm_B sm) i1 j1 k1" "\<not> (i1 > alo \<and> j1 > blo \<and> sm_A sm ! (i1 - 1) = sm_B sm ! (j1 - 1))"
    using extend_left_run [OF l win(2)] by blast+
  note rr = extend_right_run [OF r rl(1)]
  show "block_ok sm alo ahi blo bhi x" using rr fl fr unfolding block_ok_def in_window_def xe by simp
  show "not_extendable sm alo ahi blo bhi x" using rl(2) rr fr unfolding not_extendable_def xe by simp
  show "runlen sm alo blo bhi e j \<le> mb_Size x \<or> ahi - alo < e"
  proof (cases "e \<le> ahi - alo")
    case True
    then have "runlen sm alo blo bhi e j \<le> bk" using inv unfolding best_inv_def by auto
    then show ?thesis using fl fr unfolding xe by simp
  qed simp
qed

text \<open>C15. \<^verbatim>\<open>FindLongestMatch\<close> answers for every window inside the two sequences: the block it
  returns lies in the window, its elements are equal, it cannot be extended either way, and no run of
  equal elements in the window that avoids the purged popular elements is longer.\<close>

theorem find_longest_match_correct:
  assumes "alo \<le> ahi" and "ahi \<le> length A" and "blo \<le> bhi" and "bhi \<le> length B"
  shows "\<exists>x. FindLongestMatch (ChainB A B autojunk) alo ahi blo bhi = Inr x \<and>
    alo \<le> mb_A x \<and> mb_A x + mb_Size x \<le> ahi \<and> blo \<le> mb_B x \<and> mb_B x + mb_Size x \<le> bhi \<and>
    run A B (mb_A x) (mb_B x) (mb_Size x) \<and> not_extendable (ChainB A B autojunk) alo ahi blo bhi x \<and>
    (\<forall>i j k. alo \<le> i \<and> i + k \<le> ahi \<and> blo \<le> j \<and> j + k \<le> bhi \<and> run A B i j k \<and>
       (\<forall>t<k. \<not> popular (ChainB A B autojunk) (A ! (i + t))) \<longrightarrow> k \<le> mb_Size x)"
proof -
  let ?sm = "ChainB A B autojunk"
  have AB: "sm_A ?sm = A" "sm_B ?sm = B" by (simp_all add: ChainB_def Let_def)
  have ch: "chained ?sm" by (rule ChainB_chained)
  obtain x where x: "FindLongestMatch ?sm alo ahi blo bhi = Inr x"
    by (rule FindLongestMatch_returns [of alo ahi ?sm blo bhi]) (use assms AB in auto)
  have "k \<le> mb_Size x" if h: "alo \<le> i" "i + k \<le> ahi" "blo \<le> j" "j + k \<le> bhi" "run A B i j k"
    "\<forall>t<k. \<not> popular ?sm (A ! (i + t))" for i j k
  proof -
    have "k \<le> runlen ?sm alo blo bhi (i + k - alo) (j + k - 1)"
      by (rule runlen_longest [OF ch]) (use h assms AB in auto)
    with FindLongestMatch_facts(3) [OF x ch, of "i + k - alo" "j + k - 1"] h(2) show ?thesis by linarith
  qed
  with x FindLongestMatch_facts(1,2) [OF x ch] show ?thesis
    by (auto simp: block_ok_def in_window_def AB)
qed

theorem find_longest_match_witness:
  "\<exists>x. FindLongestMatch (ChainB [1, 2, 3] [2, 3] False) 0 3 0 2 = Inr x \<and> mb_Size x \<ge> 2"
proof -
  obtain x where x: "FindLongestMatch (ChainB [1, 2, 3] [2, 3] False) 0 3 0 2 = Inr x"
    and longest: "\<And>i j k. 0 \<le> i \<and> i + k \<le> 3 \<and> 0 \<le> j \<and> j + k \<le> 2 \<and> run [1 :: elem, 2, 3] [2, 3] i j k \<and>
       (\<forall>t<k. \<not> popular (ChainB [1, 2, 3] [2, 3] False) ([1, 2, 3] ! (i + t))) \<Longrightarrow> k \<le> mb_Size x"
    using find_longest_match_correct [of 0 3 "[1, 2, 3]" 0 2 "[2, 3]" False] by auto
  have "run [1 :: elem, 2, 3] [2, 3] 1 0 2" by (simp add: run_def less_Suc_eq numeral_2_eq_2)
  with longest [of 1 2 0] have "2 \<le> mb_Size x" by (simp add: popular_def ChainB_def Let_def)
  with x show ?thesis by blast
qed

section \<open>Matching blocks\<close>

text \<open>A window precedes another when both of its sides end before the other's begin.\<close>

definition precedes :: "range \<Rightarrow> range \<Rightarrow> bool" where
  "precedes r s \<longleftrightarrow> (case r of (_, ahi, _, bhi) \<Rightarrow> case s of (alo, _, blo, _) \<Rightarrow> ahi \<le> alo \<and> bhi \<le> blo)"

definition separate :: "range \<Rightarrow> range \<Rightarrow> bool" where
  "separate r s \<longleftrightarrow> precedes r s \<or> precedes s r"

definition block_range :: "MatchingBlock \<Rightarrow> range" where
  "block_range b = (mb_A b, mb_A b + mb_Size b, mb_B b, mb_B b + mb_Size b)"

definition window_ok :: "SequenceMatcher \<Rightarrow> range \<Rightarrow> bool" where
  "window_ok sm r \<longleftrightarrow> (case r of (alo, ahi, blo, bhi) \<Rightarrow> alo \<le> ahi \<and> ahi \<le> length (sm_A sm) \<and> blo \<le> bhi \<and> bhi \<le> length (sm_B sm))"

definition good_block :: "SequenceMatcher \<Rightarrow> MatchingBlock \<Rightarrow> bool" where
  "good_block sm b \<longleftrightarrow> block_ok sm 0 (length (sm_A sm)) 0 (length (sm_B sm)) b \<and> 0 < mb_Size b"

lemma separate_sym: "separate r s \<Longrightarrow> separate s r"
  by (auto simp: separate_def)

lemma sorted_wrt_symmetric_perm:
  assumes "\<And>x y. P x y \<Longrightarrow> P y x" and "sorted_wrt P xs" and "mset xs = mset ys"
  shows "sorted_wrt P ys"
  using assms(2,3)
proof (induction xs arbitrary: ys)
  case (Cons x xs)
  then obtain us vs where ys: "ys = us @ x # vs" by (metis list.set_intros(1) mset_eq_setD split_list)
  with Cons.prems(2) have m: "mset xs = mset (us @ vs)" by simp
  with Cons have "sorted_wrt P (us @ vs)" by simp
  moreover have "\<forall>y\<in>set (us @ vs). P x y" using Cons.prems(1) m by (metis mset_eq_setD sorted_wrt.simps(2))
  ultimately show ?case unfolding ys using assms(1) by (auto simp: sorted_wrt_append)
qed simp

lemma separate_part:
  assumes "separate (alo, ahi, blo, bhi) s" and "alo \<le> alo'" and "ahi' \<le> ahi" and "blo \<le> blo'" and "bhi' \<le> bhi"
  shows "separate (alo', ahi', blo', bhi') s"
  using assms by (auto simp: separate_def precedes_def split: prod.splits)

lemma blocks_step_separate:
  assumes sep: "sorted_wrt separate ((alo, ahi, blo, bhi) # queue @ map block_range blocks)"
    and x: "block_ok sm alo ahi blo bhi x"
  shows "sorted_wrt separate
    (((if mb_A x + mb_Size x < ahi \<and> mb_B x + mb_Size x < bhi then [(mb_A x + mb_Size x, ahi, mb_B x + mb_Size x, bhi)] else [])
      @ (if alo < mb_A x \<and> blo < mb_B x then [(alo, mb_A x, blo, mb_B x)] else []) @ queue)
     @ map block_range (blocks @ [x]))"
proof -
  let ?r = "(mb_A x + mb_Size x, ahi, mb_B x + mb_Size x, bhi)" and ?l = "(alo, mb_A x, blo, mb_B x)"
  let ?rest = "queue @ map block_range blocks"
  have part: "separate p s" if "s \<in> set ?rest" "p \<in> {?r, ?l, block_range x}" for p s
  proof -
    have s: "separate (alo, ahi, blo, bhi) s" using sep that(1) by auto
    from that(2) x show ?thesis
      by (auto simp: block_range_def [of x] block_ok_def in_window_def intro: separate_part [OF s])
  qed
  have three: "separate ?r ?l" "separate ?r (block_range x)" "separate ?l (block_range x)"
    by (auto simp: separate_def precedes_def block_range_def)
  have "sorted_wrt separate ([?r, ?l, block_range x] @ ?rest)" using sep three part by auto
  then have sorted: "sorted_wrt separate ((if mb_A x + mb_Size x < ahi \<and> mb_B x + mb_Size x < bhi then [?r] else [])
      @ (if alo < mb_A x \<and> blo < mb_B x then [?l] else []) @ block_range x # ?rest)"
    by (auto simp: sorted_wrt_append)
  show ?thesis by (rule sorted_wrt_symmetric_perm [OF separate_sym sorted]) simp_all
qed

lemma blocks_loop_good:
  assumes "chained sm" and "list_all (window_ok sm) queue" and "list_all (good_block sm) blocks"
    and "sorted_wrt separate (queue @ map block_range blocks)"
  shows "\<exists>bs. blocks_loop sm queue blocks = Inr bs \<and> list_all (good_block sm) bs \<and> sorted_wrt separate (map block_range bs)"
  using assms
proof (induction sm queue blocks rule: blocks_loop.induct)
  case (2 sm alo ahi blo bhi queue blocks)
  have w: "alo \<le> ahi" "ahi \<le> length (sm_A sm)" "blo \<le> bhi" "bhi \<le> length (sm_B sm)"
    using "2.prems"(2) by (simp_all add: window_ok_def)
  then obtain x where x: "FindLongestMatch sm alo ahi blo bhi = Inr x" by (rule FindLongestMatch_returns)
  have ok: "block_ok sm alo ahi blo bhi x" by (rule FindLongestMatch_facts(1) [OF x "2.prems"(1)])
  show ?case
  proof (cases "mb_Size x = 0")
    case True
    with x "2.IH"(1) [OF x True] "2.prems" show ?thesis by auto
  next
    case False
    have "good_block sm x" using ok False w by (simp add: good_block_def block_ok_def in_window_def)
    with ok w "2.prems" have "\<exists>bs. blocks_loop sm ((if mb_A x + mb_Size x < ahi \<and> mb_B x + mb_Size x < bhi
          then [(mb_A x + mb_Size x, ahi, mb_B x + mb_Size x, bhi)] else [])
        @ (if alo < mb_A x \<and> blo < mb_B x then [(alo, mb_A x, blo, mb_B x)] else []) @ queue) (blocks @ [x]) = Inr bs \<and>
      list_all (good_block sm) bs \<and> sorted_wrt separate (map block_range bs)"
      by (intro "2.IH"(2) [OF x False] blocks_step_separate [OF _ ok])
        (auto simp: window_ok_def block_ok_def in_window_def)
    with x False show ?thesis by simp
  qed
qed simp

text \<open>Blocks in order: each begins, in both sequences, where the one before has ended.\<close>

fun in_order :: "SequenceMatcher \<Rightarrow> nat \<Rightarrow> nat \<Rightarrow> MatchingBlock list \<Rightarrow> bool" where
  "in_order sm i j [] \<longleftrightarrow> i \<le> length (sm_A sm) \<and> j \<le> length (sm_B sm)"
| "in_order sm i j (b # bs) \<longleftrightarrow>
     i \<le> mb_A b \<and> j \<le> mb_B b \<and> run (sm_A sm) (sm_B sm) (mb_A b) (mb_B b) (mb_Size b) \<and>
     in_order sm (mb_A b + mb_Size b) (mb_B b + mb_Size b) bs"

lemma sorted_separate:
  assumes "sorted (map (\<lambda>b. (mb_A b, mb_B b, mb_Size b)) bs)" and "list_all (good_block sm) bs"
    and "sorted_wrt separate (map block_range bs)"
  shows "sorted_wrt (\<lambda>x y. mb_A x + mb_Size x \<le> mb_A y \<and> mb_B x + mb_Size x \<le> mb_B y) bs"
  using assms
proof (induction bs)
  case (Cons x bs)
  have "mb_A x + mb_Size x \<le> mb_A y \<and> mb_B x + mb_Size x \<le> mb_B y" if y: "y \<in> set bs" for y
  proof -
    have "mb_A x \<le> mb_A y" using Cons.prems(1) y by (auto simp: less_eq_prod_def)
    moreover have "0 < mb_Size y" using Cons.prems(2) y by (auto simp: list_all_iff good_block_def)
    moreover have "separate (block_range x) (block_range y)" using Cons.prems(3) y by simp
    ultimately show ?thesis by (auto simp: separate_def precedes_def block_range_def)
  qed
  with Cons show ?case by simp
qed simp

lemma in_order_of_sorted:
  assumes "sorted_wrt (\<lambda>x y. mb_A x + mb_Size x \<le> mb_A y \<and> mb_B x + mb_Size x \<le> mb_B y) bs"
    and "list_all (good_block sm) bs" and "\<forall>b\<in>set bs. i \<le> mb_A b \<and> j \<le> mb_B b"
    and "i \<le> length (sm_A sm)" and "j \<le> length (sm_B sm)"
  shows "in_order sm i j bs"
  using assms
proof (induction bs arbitrary: i j)
  case (Cons b bs)
  from Cons.prems(2) have b: "mb_A b + mb_Size b \<le> length (sm_A sm)" "mb_B b + mb_Size b \<le> length (sm_B sm)"
    "run (sm_A sm) (sm_B sm) (mb_A b) (mb_B b) (mb_Size b)"
    by (simp_all add: good_block_def block_ok_def in_window_def)
  have "in_order sm (mb_A b + mb_Size b) (mb_B b + mb_Size b) bs"
    by (rule Cons.IH) (use Cons.prems b in auto)
  with b Cons.prems show ?case by simp
qed simp

lemma run_append: "run A B i j k \<Longrightarrow> run A B (i + k) (j + k) l \<Longrightarrow> run A B i j (k + l)"
proof -
  assume k: "run A B i j k" and l: "run A B (i + k) (j + k) l"
  have "A ! (i + t) = B ! (j + t)" if "t < k + l" for t
  proof (cases "t < k")
    case False
    with that l [unfolded run_def, rule_format, of "t - k"] show ?thesis by simp
  qed (use k in \<open>simp add: run_def\<close>)
  then show ?thesis by (simp add: run_def)
qed

lemma collapse_in_order:
  assumes "in_order sm (i1 + k1) (j1 + k1) bs" and "i \<le> i1" and "j \<le> j1" and "run (sm_A sm) (sm_B sm) i1 j1 k1"
  shows "in_order sm i j (collapse bs (i1, j1, k1))"
  using assms
proof (induction bs "(i1, j1, k1)" arbitrary: i j i1 j1 k1 rule: collapse.induct)
  case (2 b bs i1 j1 k1)
  show ?case
  proof (cases "i1 + k1 = mb_A b \<and> j1 + k1 = mb_B b")
    case True
    have "in_order sm i j (collapse bs (i1, j1, k1 + mb_Size b))"
      by (rule "2.hyps"(1) [OF True]) (use "2.prems" True in \<open>auto simp: add.assoc [symmetric] intro: run_append\<close>)
    with True show ?thesis by simp
  next
    case False
    have *: "in_order sm i' j' (collapse bs (mb_A b, mb_B b, mb_Size b))" if "i' \<le> mb_A b" "j' \<le> mb_B b" for i' j'
      by (rule "2.hyps"(2) [OF False]) (use "2.prems" that in auto)
    show ?thesis
    proof (cases "k1 = 0")
      case True
      with False * [of i j] "2.prems" show ?thesis by auto
    next
      case k: False
      with False * [of "i1 + k1" "j1 + k1"] "2.prems" show ?thesis by auto
    qed
  qed
qed (simp split: if_splits)

lemma in_order_snoc:
  "in_order sm i j (bs @ [\<lparr>mb_A = length (sm_A sm), mb_B = length (sm_B sm), mb_Size = 0\<rparr>]) \<longleftrightarrow> in_order sm i j bs"
  by (induction bs arbitrary: i j) auto

lemma sort_blocks_props: "mset (sort_blocks bs) = mset bs" "sorted (map (\<lambda>b. (mb_A b, mb_B b, mb_Size b)) (sort_blocks bs))"
  by (simp_all add: sort_blocks_def)

lemma compute_blocks_in_order:
  assumes "chained sm"
  shows "\<exists>bs. compute_blocks sm = Inr (bs @ [\<lparr>mb_A = length (sm_A sm), mb_B = length (sm_B sm), mb_Size = 0\<rparr>]) \<and>
    in_order sm 0 0 bs"
proof -
  have "\<exists>bs. blocks_loop sm [(0, length (sm_A sm), 0, length (sm_B sm))] [] = Inr bs \<and> list_all (good_block sm) bs \<and>
      sorted_wrt separate (map block_range bs)"
    by (rule blocks_loop_good [OF assms]) (simp_all add: window_ok_def)
  then obtain bs where bs: "blocks_loop sm [(0, length (sm_A sm), 0, length (sm_B sm))] [] = Inr bs"
    "list_all (good_block sm) bs" "sorted_wrt separate (map block_range bs)" by blast
  let ?s = "sort_blocks bs"
  have m: "mset ?s = mset bs" by (rule sort_blocks_props)
  then have good: "list_all (good_block sm) ?s" using bs(2) mset_eq_setD [OF m] by (simp add: list_all_iff)
  have "sorted_wrt separate (map block_range ?s)"
    by (rule sorted_wrt_symmetric_perm [OF separate_sym bs(3)]) (simp_all add: m)
  from in_order_of_sorted [OF sorted_separate [OF sort_blocks_props(2) good this] good, of 0 0]
  have "in_order sm 0 0 (collapse ?s (0, 0, 0))" by (intro collapse_in_order) simp_all
  with bs(1) show ?thesis by (simp add: compute_blocks_def)
qed

section \<open>The opcodes as an edit script\<close>

definition seg :: "'a list \<Rightarrow> nat \<Rightarrow> nat \<Rightarrow> 'a list" where
  "seg xs i j = map ((!) xs) [i..<j]"

lemma seg_append: "i \<le> j \<Longrightarrow> j \<le> k \<Longrightarrow> seg xs i j @ seg xs j k = seg xs i k"
  unfolding seg_def map_append [symmetric] by (metis le_add_diff_inverse upt_add_eq_append)

lemma seg_full [simp]: "seg xs 0 (length xs) = xs"
  by (simp add: seg_def map_nth)

lemma seg_empty [simp]: "seg xs i i = []"
  by (simp add: seg_def)

text \<open>The two sequences hold the same elements from \<open>i\<close>, \<open>j\<close> up to \<open>i'\<close>, \<open>j'\<close>.\<close>

definition same :: "'a list \<Rightarrow> 'a list \<Rightarrow> nat \<Rightarrow> nat \<Rightarrow> nat \<Rightarrow> nat \<Rightarrow> bool" where
  "same A B i j i' j' \<longleftrightarrow>
     i \<le> i' \<and> i' \<le> length A \<and> j \<le> j' \<and> j' \<le> length B \<and> i' - i = j' - j \<and> run A B i j (i' - i)"

lemma same_refl [simp]: "same A B i j i j \<longleftrightarrow> i \<le> length A \<and> j \<le> length B"
  by (auto simp: same_def)

lemma same_trans: "same A B i j i' j' \<Longrightarrow> same A B i' j' i'' j'' \<Longrightarrow> same A B i j i'' j''"
proof -
  assume s: "same A B i j i' j'" "same A B i' j' i'' j''"
  then have "i + (i' - i) = i'" "j + (i' - i) = j'" "i' - i + (i'' - i') = i'' - i" by (auto simp: same_def)
  with s run_append [of A B i j "i' - i" "i'' - i'"] show ?thesis by (auto simp: same_def)
qed

lemma same_part:
  assumes "same A B i j i' j'" and "x \<le> y" and "y \<le> i' - i" shows "same A B (i + x) (j + x) (i + y) (j + y)"
proof -
  have "A ! (i + x + t) = B ! (j + x + t)" if "t < y - x" for t
    using assms that by (simp add: same_def run_def add.assoc)
  with assms show ?thesis by (auto simp: same_def run_def)
qed

lemma same_seg: "same A B i j i' j' \<Longrightarrow> seg A i i' = seg B j j'"
  by (auto simp: same_def run_def seg_def intro!: nth_equalityI)

definition op_wf :: "'a list \<Rightarrow> 'a list \<Rightarrow> Opcode \<Rightarrow> bool" where
  "op_wf A B c \<longleftrightarrow>
     op_I2 c \<le> length A \<and> op_J2 c \<le> length B \<and>
     (case op_Tag c of
        Equal \<Rightarrow> same A B (op_I1 c) (op_J1 c) (op_I2 c) (op_J2 c)
      | Replace \<Rightarrow> op_I1 c < op_I2 c \<and> op_J1 c < op_J2 c
      | Delete \<Rightarrow> op_I1 c < op_I2 c \<and> op_J1 c = op_J2 c
      | Insert \<Rightarrow> op_I1 c = op_I2 c \<and> op_J1 c < op_J2 c)"

lemma op_wf_le: "op_wf A B c \<Longrightarrow> op_I1 c \<le> op_I2 c" "op_wf A B c \<Longrightarrow> op_J1 c \<le> op_J2 c"
  by (auto simp: op_wf_def same_def split: OpTag.splits)

fun script :: "'a list \<Rightarrow> 'a list \<Rightarrow> nat \<Rightarrow> nat \<Rightarrow> Opcode list \<Rightarrow> nat \<Rightarrow> nat \<Rightarrow> bool" where
  "script A B i j [] i' j' \<longleftrightarrow> i = i' \<and> j = j'"
| "script A B i j (c # cs) i' j' \<longleftrightarrow>
     op_I1 c = i \<and> op_J1 c = j \<and> op_wf A B c \<and> script A B (op_I2 c) (op_J2 c) cs i' j'"

lemma script_append:
  "script A B i j (cs @ ds) i' j' \<longleftrightarrow> (\<exists>m k. script A B i j cs m k \<and> script A B m k ds i' j')"
  by (induction cs arbitrary: i j) auto

lemma script_le: "script A B i j cs i' j' \<Longrightarrow> i \<le> i' \<and> j \<le> j'"
  by (induction cs arbitrary: i j) (auto dest: op_wf_le order_trans)

definition apply_opcodes :: "'a list \<Rightarrow> 'a list \<Rightarrow> Opcode list \<Rightarrow> 'a list" where
  "apply_opcodes A B ops =
     concat (map (\<lambda>c. if op_Tag c = Equal then seg A (op_I1 c) (op_I2 c) else seg B (op_J1 c) (op_J2 c)) ops)"

lemma script_apply: "script A B i j cs i' j' \<Longrightarrow> apply_opcodes A B cs = seg B j j'"
proof (induction cs arbitrary: i j)
  case (Cons c cs)
  then have c: "op_wf A B c" "op_J1 c = j" "apply_opcodes A B cs = seg B (op_J2 c) j'" "op_J2 c \<le> j'"
    by (auto dest: script_le)
  then have "(if op_Tag c = Equal then seg A (op_I1 c) (op_I2 c) else seg B (op_J1 c) (op_J2 c)) = seg B j (op_J2 c)"
    by (auto simp: op_wf_def same_seg)
  with c op_wf_le(2) [OF c(1)] show ?case by (simp add: apply_opcodes_def seg_append)
qed (simp add: apply_opcodes_def)

lemma script_old: "script A B i j cs i' j' \<Longrightarrow> concat (map (\<lambda>c. seg A (op_I1 c) (op_I2 c)) cs) = seg A i i'"
proof (induction cs arbitrary: i j)
  case (Cons c cs)
  then have "op_I1 c \<le> op_I2 c" "op_I2 c \<le> i'" by (auto dest: script_le op_wf_le(1))
  with Cons show ?case by (auto simp: seg_append)
qed simp

lemma in_order_bounds: "in_order sm i j bs \<Longrightarrow> i \<le> length (sm_A sm) \<and> j \<le> length (sm_B sm)"
  by (induction bs arbitrary: i j) force+

lemma opcodes_loop_script:
  assumes "in_order sm i j bs"
  shows "script (sm_A sm) (sm_B sm) i j
    (opcodes_loop (bs @ [\<lparr>mb_A = length (sm_A sm), mb_B = length (sm_B sm), mb_Size = 0\<rparr>]) i j)
    (length (sm_A sm)) (length (sm_B sm))"
  using assms
proof (induction bs arbitrary: i j)
  case Nil
  then show ?case by (auto simp: op_wf_def Let_def)
next
  case (Cons b bs)
  from Cons.prems have rest: "in_order sm (mb_A b + mb_Size b) (mb_B b + mb_Size b) bs" by simp
  with Cons.prems in_order_bounds [OF rest] Cons.IH [OF rest] show ?case
    by (auto simp: op_wf_def same_def Let_def)
qed

lemma GetOpcodes_script:
  "\<exists>ops sm. GetOpcodes (ChainB A B autojunk) = Inr (ops, sm) \<and> script A B 0 0 ops (length A) (length B)"
proof -
  let ?sm = "ChainB A B autojunk"
  have f: "sm_A ?sm = A" "sm_B ?sm = B" "sm_MatchingBlocks ?sm = None" "sm_Opcodes ?sm = None"
    by (simp_all add: ChainB_def Let_def)
  obtain bs where bs: "compute_blocks ?sm = Inr (bs @ [\<lparr>mb_A = length A, mb_B = length B, mb_Size = 0\<rparr>])" "in_order ?sm 0 0 bs"
    using compute_blocks_in_order [OF ChainB_chained [of A B autojunk]] unfolding f by blast
  let ?ops = "opcodes_loop (bs @ [\<lparr>mb_A = length A, mb_B = length B, mb_Size = 0\<rparr>]) 0 0"
  have "script A B 0 0 ?ops (length A) (length B)" using opcodes_loop_script [OF bs(2)] unfolding f .
  moreover have "\<exists>sm. GetOpcodes ?sm = Inr (?ops, sm)" using bs(1) f by (simp add: GetOpcodes_def GetMatchingBlocks_def Let_def)
  ultimately show ?thesis by blast
qed

text \<open>C14. \<^verbatim>\<open>GetOpcodes\<close> of a new matcher returns an edit script: the opcodes tile both sequences
  without gap or overlap, each tag tells the truth about its ranges, so the old ranges spell the first
  sequence and applying the script to it gives the second.\<close>

theorem opcodes_edit_script:
  "\<exists>ops sm. GetOpcodes (ChainB A B autojunk) = Inr (ops, sm) \<and> script A B 0 0 ops (length A) (length B) \<and>
     concat (map (\<lambda>c. seg A (op_I1 c) (op_I2 c)) ops) = A \<and> apply_opcodes A B ops = B"
proof -
  obtain ops sm where ops: "GetOpcodes (ChainB A B autojunk) = Inr (ops, sm)" "script A B 0 0 ops (length A) (length B)"
    using GetOpcodes_script by blast
  with script_old [OF ops(2)] script_apply [OF ops(2)] show ?thesis by simp
qed

section \<open>Hunks\<close>

text \<open>Groups of opcodes as hunks: each is a script, and between them the sequences are the same.\<close>

fun hunks_from :: "'a list \<Rightarrow> 'a list \<Rightarrow> nat \<Rightarrow> nat \<Rightarrow> Opcode list list \<Rightarrow> bool" where
  "hunks_from A B i j [] \<longleftrightarrow> same A B i j (length A) (length B)"
| "hunks_from A B i j (g # gs) \<longleftrightarrow>
     g \<noteq> [] \<and> same A B i j (op_I1 (hd g)) (op_J1 (hd g)) \<and>
     script A B (op_I1 (hd g)) (op_J1 (hd g)) g (op_I2 (last g)) (op_J2 (last g)) \<and>
     hunks_from A B (op_I2 (last g)) (op_J2 (last g)) gs"

lemma script_ends:
  assumes "script A B i j g i' j'" and "g \<noteq> []"
  shows "op_I1 (hd g) = i" "op_J1 (hd g) = j" "op_I2 (last g) = i'" "op_J2 (last g) = j'"
  using assms by (induction g arbitrary: i j) (auto split: if_splits)

lemma trim_back_same:
  assumes "op_wf A B c" and "op_Tag c = Equal"
  shows "op_wf A B (trim_back n c)" "same A B (op_I2 (trim_back n c)) (op_J2 (trim_back n c)) (op_I2 c) (op_J2 c)"
    "op_I1 (trim_back n c) = op_I1 c" "op_J1 (trim_back n c) = op_J1 c" "op_Tag (trim_back n c) = Equal"
proof -
  let ?l = "op_I2 c - op_I1 c" let ?y = "min ?l n"
  have s: "same A B (op_I1 c) (op_J1 c) (op_I2 c) (op_J2 c)" using assms by (simp add: op_wf_def)
  have e: "op_I2 (trim_back n c) = op_I1 c + ?y" "op_J2 (trim_back n c) = op_J1 c + ?y"
    using s by (auto simp: trim_back_def same_def)
  show "op_wf A B (trim_back n c)"
    using same_part [OF s, of 0 ?y] assms e s by (auto simp: op_wf_def trim_back_def same_def)
  show "same A B (op_I2 (trim_back n c)) (op_J2 (trim_back n c)) (op_I2 c) (op_J2 c)"
    using same_part [OF s, of ?y ?l] s unfolding e by (auto simp: same_def)
qed (simp_all add: trim_back_def assms)

lemma trim_front_same:
  assumes "op_wf A B c" and "op_Tag c = Equal"
  shows "op_wf A B (trim_front n c)" "same A B (op_I1 c) (op_J1 c) (op_I1 (trim_front n c)) (op_J1 (trim_front n c))"
    "op_I2 (trim_front n c) = op_I2 c" "op_J2 (trim_front n c) = op_J2 c" "op_Tag (trim_front n c) = Equal"
proof -
  let ?l = "op_I2 c - op_I1 c" let ?x = "?l - n"
  have s: "same A B (op_I1 c) (op_J1 c) (op_I2 c) (op_J2 c)" using assms by (simp add: op_wf_def)
  have e: "op_I1 (trim_front n c) = op_I1 c + ?x" "op_J1 (trim_front n c) = op_J1 c + ?x"
    using s by (auto simp: trim_front_def same_def)
  have "op_I1 c + ?l = op_I2 c" "op_J1 c + ?l = op_J2 c" using s by (auto simp: same_def)
  then show "op_wf A B (trim_front n c)"
    using same_part [OF s diff_le_self [of ?l n] order_refl] assms e by (auto simp: op_wf_def trim_front_def)
  show "same A B (op_I1 c) (op_J1 c) (op_I1 (trim_front n c)) (op_J1 (trim_front n c))"
    using same_part [OF s, of 0 ?x] unfolding e by simp
qed (simp_all add: trim_front_def assms)

lemma trim_between:
  assumes "op_wf A B c" and "op_Tag c = Equal" and "op_I2 c - op_I1 c > n + n"
  shows "same A B (op_I2 (trim_back n c)) (op_J2 (trim_back n c)) (op_I1 (trim_front n c)) (op_J1 (trim_front n c))"
proof -
  let ?l = "op_I2 c - op_I1 c"
  have s: "same A B (op_I1 c) (op_J1 c) (op_I2 c) (op_J2 c)" using assms by (simp add: op_wf_def)
  have "op_I2 (trim_back n c) = op_I1 c + n" "op_J2 (trim_back n c) = op_J1 c + n"
    "op_I1 (trim_front n c) = op_I1 c + (?l - n)" "op_J1 (trim_front n c) = op_J1 c + (?l - n)"
    using s assms(3) by (auto simp: trim_front_def trim_back_def same_def)
  then show ?thesis using same_part [OF s, of n "?l - n"] assms(3) by simp
qed

lemma group_loop_hunks:
  assumes "script A B i j cs ie je" and "script A B i0 j0 grp i j" and "same A B p q i0 j0"
    and "same A B ie je (length A) (length B)"
  shows "hunks_from A B p q (group_loop n cs grp)"
  using assms
proof (induction n cs grp arbitrary: i j i0 j0 p q rule: group_loop.induct)
  case (1 n grp)
  then have s: "script A B i0 j0 grp ie je" by simp
  show ?case
  proof (cases "grp \<noteq> [] \<and> \<not> (length grp = 1 \<and> op_Tag (hd grp) = Equal)")
    case True
    with s script_ends [OF s] "1.prems" show ?thesis by simp
  next
    case False
    have "same A B i0 j0 ie je"
    proof (cases grp)
      case (Cons c cs)
      with False have "cs = []" "op_Tag c = Equal" by (cases cs; auto)+
      with Cons s show ?thesis by (auto simp: op_wf_def)
    qed (use s "1.prems" in \<open>auto simp: same_def\<close>)
    with False "1.prems"(3,4) show ?thesis by (auto intro: same_trans)
  qed
next
  case (2 n c cs grp)
  from "2.prems"(1) have c: "op_I1 c = i" "op_J1 c = j" "op_wf A B c" "script A B (op_I2 c) (op_J2 c) cs ie je" by auto
  show ?case
  proof (cases "op_Tag c = Equal \<and> op_I2 c - op_I1 c > n + n")
    case True
    note b = trim_back_same [OF c(3), of n] and f = trim_front_same [OF c(3), of n]
    have "hunks_from A B (op_I2 (trim_back n c)) (op_J2 (trim_back n c)) (group_loop n cs [trim_front n c])"
      by (rule "2.IH"(1) [OF True c(4)])
        (use True f trim_between [OF c(3)] "2.prems"(4) in auto)
    moreover have s: "script A B i0 j0 (grp @ [trim_back n c]) (op_I2 (trim_back n c)) (op_J2 (trim_back n c))"
      using "2.prems"(2) c True b by (auto simp: script_append)
    ultimately show ?thesis using True script_ends [OF s] "2.prems"(3) by simp
  next
    case False
    then have "hunks_from A B p q (group_loop n cs (grp @ [c]))"
      by (intro "2.IH"(2) [OF False c(4) _ "2.prems"(3,4)]) (use "2.prems"(2) c in \<open>auto simp: script_append\<close>)
    with False show ?thesis by auto
  qed
qed

lemma script_bounds: "script A B i j cs i' j' \<Longrightarrow> cs \<noteq> [] \<Longrightarrow> i' \<le> length A \<and> j' \<le> length B"
proof (induction cs arbitrary: i j)
  case (Cons c cs)
  then show ?case by (cases "cs = []") (auto simp: op_wf_def)
qed simp

lemma trim_ends_script:
  assumes s: "script A B i j codes ie je" and ne: "codes \<noteq> []" and b: "i \<le> length A" "j \<le> length B"
  shows "\<exists>i' j' ie' je'. script A B i' j' (trim_ends n codes) ie' je' \<and> same A B i j i' j' \<and> same A B ie' je' ie je"
proof -
  define codes1 where "codes1 = (if op_Tag (hd codes) = Equal then trim_front n (hd codes) # tl codes else codes)"
  obtain c cs where cs: "codes = c # cs" using ne by (cases codes) auto
  have ne1: "codes1 \<noteq> []" using cs by (simp add: codes1_def)
  have "\<exists>i' j'. script A B i' j' codes1 ie je \<and> same A B i j i' j'"
  proof (cases "op_Tag c = Equal")
    case True
    with s cs trim_front_same [of A B c n] show ?thesis by (auto simp: codes1_def)
  next
    case False
    with s cs b show ?thesis by (intro exI [of _ i] exI [of _ j]) (simp add: codes1_def)
  qed
  then obtain i' j' where s1: "script A B i' j' codes1 ie je" "same A B i j i' j'" by blast
  have trim: "trim_ends n codes = (if op_Tag (last codes1) = Equal then butlast codes1 @ [trim_back n (last codes1)] else codes1)"
    by (simp add: trim_ends_def codes1_def Let_def)
  show ?thesis
  proof (cases "op_Tag (last codes1) = Equal")
    case True
    obtain m k where m: "script A B i' j' (butlast codes1) m k" "script A B m k [last codes1] ie je"
      using s1(1) ne1 script_append [of A B i' j' "butlast codes1" "[last codes1]"] by auto
    then have wf: "op_wf A B (last codes1)" "op_I1 (last codes1) = m" "op_J1 (last codes1) = k"
      "op_I2 (last codes1) = ie" "op_J2 (last codes1) = je" by auto
    note tb = trim_back_same [OF wf(1) True, of n]
    have "script A B i' j' (trim_ends n codes) (op_I2 (trim_back n (last codes1))) (op_J2 (trim_back n (last codes1)))"
      unfolding trim using True m(1) tb wf by (auto simp: script_append)
    with tb(2) wf s1(2) show ?thesis by auto
  next
    case False
    have "same A B ie je ie je" using script_bounds [OF s ne] by simp
    then show ?thesis unfolding trim if_not_P [OF False] using s1 by blast
  qed
qed

lemma GetGroupedOpcodes_hunks:
  assumes "n \<ge> 0"
  shows "\<exists>groups sm. GetGroupedOpcodes (ChainB A B autojunk) n = Inr (groups, sm) \<and> hunks_from A B 0 0 groups"
proof -
  obtain ops sm where ops: "GetOpcodes (ChainB A B autojunk) = Inr (ops, sm)" "script A B 0 0 ops (length A) (length B)"
    using GetOpcodes_script by blast
  show ?thesis
  proof (cases "ops = []")
    case True
    with ops(2) have "A = []" "B = []" by auto
    with True ops(1) assms show ?thesis
      by (auto simp: GetGroupedOpcodes_def trim_ends_def trim_front_def trim_back_def Let_def)
  next
    case False
    obtain i j ie je where t: "script A B i j (trim_ends (nat n) ops) ie je" "same A B 0 0 i j" "same A B ie je (length A) (length B)"
      using trim_ends_script [OF ops(2) False, of "nat n"] by auto
    have "script A B i j [] i j" by simp
    from group_loop_hunks [OF t(1) this t(2,3)] False ops(1) assms show ?thesis
      by (simp add: GetGroupedOpcodes_def Let_def)
  qed
qed

section \<open>The unified diff\<close>

text \<open>Reading the rows of a hunk back: context and removed rows are the old side, context and added
  rows the new side. A patch copies what lies between the hunks.\<close>

definition old_side :: "string list \<Rightarrow> string list" where
  "old_side rows = map tl (filter (\<lambda>r. hd r \<noteq> CHR ''+'') rows)"

definition new_side :: "string list \<Rightarrow> string list" where
  "new_side rows = map tl (filter (\<lambda>r. hd r \<noteq> CHR ''-'') rows)"

fun patch :: "string list \<Rightarrow> nat \<Rightarrow> (nat \<times> nat \<times> string list) list \<Rightarrow> string list option" where
  "patch A pos [] = Some (drop pos A)"
| "patch A pos ((start, stop, rows) # hs) =
     (if pos \<le> start \<and> start \<le> stop \<and> stop \<le> length A \<and> old_side rows = seg A start stop
      then map_option (\<lambda>rest. seg A pos start @ new_side rows @ rest) (patch A stop hs) else None)"

definition hunk :: "string list \<Rightarrow> string list \<Rightarrow> Opcode list \<Rightarrow> nat \<times> nat \<times> string list" where
  "hunk A B g = (op_I1 (hd g), op_I2 (last g), concat (map (code_rows A B) g))"

lemma code_rows_sides:
  assumes "op_wf A B c"
  shows "old_side (code_rows A B c) = seg A (op_I1 c) (op_I2 c)" "new_side (code_rows A B c) = seg B (op_J1 c) (op_J2 c)"
proof -
  have "old_side (code_rows A B c) = seg A (op_I1 c) (op_I2 c) \<and> new_side (code_rows A B c) = seg B (op_J1 c) (op_J2 c)"
    using assms same_seg [of A B "op_I1 c" "op_J1 c" "op_I2 c" "op_J2 c"]
    by (cases "op_Tag c")
      (simp_all add: op_wf_def code_rows_def old_side_def new_side_def Prefixed_def seg_def comp_def filter_map)
  then show "old_side (code_rows A B c) = seg A (op_I1 c) (op_I2 c)" "new_side (code_rows A B c) = seg B (op_J1 c) (op_J2 c)"
    by simp_all
qed

lemma sides_append: "old_side (xs @ ys) = old_side xs @ old_side ys" "new_side (xs @ ys) = new_side xs @ new_side ys"
  by (simp_all add: old_side_def new_side_def)

lemma script_rows:
  assumes "script A B i j g i' j'"
  shows "old_side (concat (map (code_rows A B) g)) = seg A i i' \<and> new_side (concat (map (code_rows A B) g)) = seg B j j'"
  using assms
proof (induction g arbitrary: i j)
  case (Cons c g)
  then have c: "op_I1 c = i" "op_J1 c = j" "op_wf A B c" "script A B (op_I2 c) (op_J2 c) g i' j'" by auto
  with code_rows_sides [OF c(3)] Cons.IH [OF c(4)] op_wf_le [OF c(3)] script_le [OF c(4)]
  show ?case by (simp add: sides_append seg_append)
qed (simp add: old_side_def new_side_def)

lemma seg_drop: "seg xs i (length xs) = drop i xs"
  by (rule nth_equalityI) (auto simp: seg_def)

lemma patch_hunks:
  "hunks_from A B i j gs \<Longrightarrow> patch A i (map (hunk A B) gs) = Some (drop j B)"
proof (induction gs arbitrary: i j)
  case Nil
  then show ?case using same_seg [of A B i j "length A" "length B"] by (simp add: seg_drop)
next
  case (Cons g gs)
  let ?i = "op_I1 (hd g)" and ?j = "op_J1 (hd g)" and ?i' = "op_I2 (last g)" and ?j' = "op_J2 (last g)"
  have g: "g \<noteq> []" "same A B i j ?i ?j" "script A B ?i ?j g ?i' ?j'" "hunks_from A B ?i' ?j' gs" using Cons.prems by auto
  have b: "i \<le> ?i" "j \<le> ?j" "?i \<le> ?i'" "?j \<le> ?j'" "?i' \<le> length A" "?j' \<le> length B"
    using g(2) script_le [OF g(3)] script_bounds [OF g(3,1)] by (auto simp: same_def)
  have "seg B j ?j @ seg B ?j ?j' @ drop ?j' B = drop j B"
    using b by (simp add: seg_drop [symmetric] seg_append)
  with script_rows [OF g(3)] Cons.IH [OF g(4)] b same_seg [OF g(2)] show ?case by (simp add: hunk_def)
qed

text \<open>Interning gives equal lines equal ids and, below \<open>2 ^ 32\<close> lines, different lines different ids.\<close>

definition dense_ids :: "(string \<times> elem) list \<Rightarrow> bool" where
  "dense_ids ids \<longleftrightarrow> distinct (map fst ids) \<and> map snd ids = map of_nat [0..<length ids]"

lemma update_new: "map_of ids l = None \<Longrightarrow> AList.update l v ids = ids @ [(l, v)]"
  by (induction ids) (auto split: if_splits)

lemma intern_lines_ids:
  assumes "dense_ids ids" and "intern_lines ls ids = (out, ids1)"
  shows "dense_ids ids1 \<and> map_of ids \<subseteq>\<^sub>m map_of ids1 \<and> map (map_of ids1) ls = map Some out \<and>
    length ids1 \<le> length ids + length ls"
  using assms
proof (induction ls arbitrary: ids out)
  case (Cons l ls)
  show ?case
  proof (cases "map_of ids l")
    case None
    let ?ids = "ids @ [(l, of_nat (length ids))]"
    have d: "dense_ids ?ids" using Cons.prems(1) None by (auto simp: dense_ids_def map_of_eq_None_iff)
    obtain out1 where o: "intern_lines ls ?ids = (out1, ids1)" "out = of_nat (length ids) # out1"
      using Cons.prems(2) None by (auto simp: update_new Let_def split: prod.splits)
    from Cons.IH [OF d o(1)] have ih: "dense_ids ids1" "map_of ?ids \<subseteq>\<^sub>m map_of ids1" "map (map_of ids1) ls = map Some out1"
      "length ids1 \<le> length ?ids + length ls" by auto
    have "map_of ids \<subseteq>\<^sub>m map_of ?ids" using None by (auto simp: map_add_def map_le_def dom_def)
    moreover have "map_of ?ids l = Some (of_nat (length ids))" using None by (simp add: map_add_def)
    ultimately show ?thesis using ih o(2)
      by (auto simp: map_le_def dom_def intro: map_le_trans)
  next
    case (Some i)
    then obtain out1 where o: "intern_lines ls ids = (out1, ids1)" "out = i # out1"
      using Cons.prems(2) by (auto split: prod.splits)
    from Cons.IH [OF Cons.prems(1) o(1)] Some o(2) show ?thesis by (auto simp: map_le_def dom_def)
  qed
qed simp

lemma dense_ids_inj:
  assumes "dense_ids ids" and "length ids \<le> 2 ^ 32" and "map_of ids x = Some i" and "map_of ids y = Some i"
  shows "x = y"
proof -
  have val: "ids ! k = (fst (ids ! k), of_nat k)" if "k < length ids" for k
  proof -
    have "map snd ids ! k = map of_nat [0..<length ids] ! k" using assms(1) by (simp only: dense_ids_def)
    with that show ?thesis by (simp add: prod_eq_iff)
  qed
  obtain k l where k: "k < length ids" "ids ! k = (x, i)" and l: "l < length ids" "ids ! l = (y, i)"
    using assms(3,4) by (meson in_set_conv_nth map_of_SomeD)
  with val [OF k(1)] val [OF l(1)] have "(of_nat k :: elem) = of_nat l" by simp
  with k(1) l(1) assms(2) have "k = l" by (simp add: word_of_nat_eq_iff take_bit_nat_eq_self)
  with k l show ?thesis by simp
qed

lemma intern_lines_run:
  assumes "intern_lines A [] = (a, ids)" and "intern_lines B ids = (b, ids1)" and "length A + length B \<le> 2 ^ 32"
  shows "length a = length A" "length b = length B"
    and "i < length A \<Longrightarrow> j < length B \<Longrightarrow> a ! i = b ! j \<longleftrightarrow> A ! i = B ! j"
proof -
  have ida: "dense_ids ids" "map (map_of ids) A = map Some a" "length ids \<le> length A"
    using intern_lines_ids [OF _ assms(1)] by (auto simp: dense_ids_def)
  then have idb: "dense_ids ids1" "map_of ids \<subseteq>\<^sub>m map_of ids1" "map (map_of ids1) B = map Some b" "length ids1 \<le> 2 ^ 32"
    using intern_lines_ids [OF _ assms(2)] assms(3) by auto
  show len: "length a = length A" "length b = length B" using ida(2) idb(3) by (metis length_map)+
  assume ij: "i < length A" "j < length B"
  have "map_of ids (A ! i) = Some (a ! i)" "map_of ids1 (B ! j) = Some (b ! j)"
    using ida(2) idb(3) ij len by (metis nth_map)+
  then have "map_of ids1 (A ! i) = Some (a ! i)" "map_of ids1 (B ! j) = Some (b ! j)"
    using idb(2) by (auto simp: map_le_def dom_def)
  then show "a ! i = b ! j \<longleftrightarrow> A ! i = B ! j" using dense_ids_inj [OF idb(1,4)] by auto
qed

text \<open>Hunks over the ids of lines are hunks over the lines.\<close>

lemma same_transfer:
  assumes "length a = length A" and "length b = length B"
    and "\<And>i j. i < length A \<Longrightarrow> j < length B \<Longrightarrow> a ! i = b ! j \<longleftrightarrow> A ! i = B ! j"
  shows "same a b i j i' j' \<longleftrightarrow> same A B i j i' j'"
  using assms by (auto simp: same_def run_def)

lemma hunks_transfer:
  assumes "length a = length A" and "length b = length B"
    and "\<And>i j. i < length A \<Longrightarrow> j < length B \<Longrightarrow> a ! i = b ! j \<longleftrightarrow> A ! i = B ! j"
  shows "hunks_from a b i j gs \<longleftrightarrow> hunks_from A B i j gs"
proof -
  note t = same_transfer [OF assms]
  have "op_wf a b c \<longleftrightarrow> op_wf A B c" for c using t assms(1,2) by (simp add: op_wf_def split: OpTag.splits)
  then have "script a b i j cs i' j' \<longleftrightarrow> script A B i j cs i' j'" for i j cs i' j' by (induction cs arbitrary: i j) simp_all
  with t assms(1,2) show ?thesis by (induction gs arbitrary: i j) simp_all
qed

text \<open>C13. \<^verbatim>\<open>UnifiedDiff\<close> with a non-negative context returns the rows of hunks that patch the first
  text into the second: every hunk lies after the one before it, its context and removed rows are
  exactly the old lines of its range, and replacing them by its context and added rows gives the
  second text.\<close>

theorem unified_diff_patches:
  assumes "n \<ge> 0" and "length A + length B < 2 ^ 32 - 1"
  shows "\<exists>groups. UnifiedDiff A B n lineterm =
      Inr ((if groups = [] then [] else [''--- '' @ lineterm, ''+++ '' @ lineterm])
           @ concat (map (group_rows A B lineterm) groups)) \<and>
    patch A 0 (map (hunk A B) groups) = Some B"
proof -
  obtain a ids where a: "intern_lines A [] = (a, ids)" by fastforce
  obtain b ids1 where b: "intern_lines B ids = (b, ids1)" by fastforce
  have le: "length A + length B \<le> 2 ^ 32" using assms(2) by simp
  note ab = intern_lines_run [OF a b le]
  obtain groups sm where g: "GetGroupedOpcodes (ChainB a b True) n = Inr (groups, sm)" "hunks_from a b 0 0 groups"
    using GetGroupedOpcodes_hunks [OF assms(1)] by blast
  have "patch A 0 (map (hunk A B) groups) = Some B"
    using patch_hunks [of A B 0 0 groups] g(2) hunks_transfer [OF ab] by simp
  moreover have "new_SequenceMatcher a b True = Inr (ChainB a b True)"
    using assms(2) ab(1,2) by (simp add: new_SequenceMatcher_def)
  ultimately show ?thesis using a b g(1) by (auto simp: UnifiedDiff_def)
qed

theorem unified_diff_witness:
  "\<exists>groups. UnifiedDiff [''a'', ''b''] [''a'', ''c''] 3 [] =
      Inr ((if groups = [] then [] else [''--- '', ''+++ '']) @ concat (map (group_rows [''a'', ''b''] [''a'', ''c''] []) groups)) \<and>
    patch [''a'', ''b''] 0 (map (hunk [''a'', ''b''] [''a'', ''c'']) groups) = Some [''a'', ''c'']"
  using unified_diff_patches [of 3 "[''a'', ''b'']" "[''a'', ''c'']" "[]"] by (simp only: append_Nil2) simp

section \<open>The ratios\<close>

text \<open>What the counters of \<^verbatim>\<open>QuickRatio\<close> still offer of an element.\<close>

definition offered :: "(elem \<rightharpoonup> nat) \<Rightarrow> int list \<Rightarrow> int option list \<Rightarrow> elem \<Rightarrow> nat" where
  "offered f full avail v =
     (case f v of None \<Rightarrow> 0 | Some key \<Rightarrow> nat (case avail ! key of Some a \<Rightarrow> a | None \<Rightarrow> full ! key))"

lemma quick_loop_matches:
  assumes "\<And>v key. f v = Some key \<Longrightarrow> key < length avail" and "\<And>v w key. f v = Some key \<Longrightarrow> f w = Some key \<Longrightarrow> v = w"
    and "\<And>v. count M v = offered f full avail v"
  shows "quick_loop (map f A) full avail m = m + size (mset A \<inter># M)"
  using assms(1,3)
proof (induction A arbitrary: avail M m)
  case (Cons v A)
  show ?case
  proof (cases "f v")
    case None
    then have "v \<notin># M" using Cons.prems(2) [of v] by (simp add: offered_def not_in_iff)
    then have "mset (v # A) \<inter># M = mset A \<inter># M" by (simp add: inter_add_left1)
    moreover have "quick_loop (map f A) full avail m = m + size (mset A \<inter># M)" by (rule Cons.IH [OF Cons.prems])
    ultimately show ?thesis using None by simp
  next
    case (Some key)
    define numb where "numb = (case avail ! key of Some a \<Rightarrow> a | None \<Rightarrow> full ! key)"
    have cnt: "count M v = nat numb" using Cons.prems(2) [of v] Some by (simp add: offered_def numb_def)
    have key: "key < length avail" using Cons.prems(1) Some by blast
    have M': "count (M - {#v#}) w = offered f full (avail[key := Some (numb - 1)]) w" for w
    proof (cases "w = v")
      case True
      with cnt Some key show ?thesis by (simp add: offered_def)
    next
      case False
      then have "f w \<noteq> Some key" using assms(2) Some by blast
      then have "offered f full (avail[key := Some (numb - 1)]) w = offered f full avail w"
        by (auto simp: offered_def split: option.split)
      with False Cons.prems(2) [of w] show ?thesis by simp
    qed
    have "quick_loop (map f A) full (avail[key := Some (numb - 1)]) (if numb > 0 then m + 1 else m)
        = (if numb > 0 then m + 1 else m) + size (mset A \<inter># (M - {#v#}))"
      by (rule Cons.IH) (use Cons.prems(1) M' in auto)
    moreover have "v \<in># M \<longleftrightarrow> numb > 0" using cnt by (simp add: count_greater_zero_iff [symmetric])
    ultimately show ?thesis using Some
      by (cases "numb > 0") (simp_all add: Let_def numb_def inter_add_left1 inter_add_left2)
  qed
qed simp

lemma fold_count: "key < length f \<Longrightarrow> (\<And>k. k \<in> set ks \<Longrightarrow> k < length f) \<Longrightarrow>
  fold (\<lambda>key f. f[key := f ! key + 1]) ks f ! key = f ! key + int (count_list ks key)"
proof (induction ks arbitrary: f)
  case (Cons k ks)
  then show ?case by (cases "k = key") auto
qed simp

lemma count_list_keys:
  assumes "\<And>v. v \<in> set B \<Longrightarrow> g v \<noteq> None" and "\<And>v w key. g v = Some key \<Longrightarrow> g w = Some key \<Longrightarrow> v = w" and "g v = Some key"
  shows "count_list (map (\<lambda>v. the (g v)) B) key = count (mset B) v"
  using assms(1)
proof (induction B)
  case (Cons b B)
  have "the (g b) = key \<longleftrightarrow> b = v" using Cons.prems [of b] assms(2,3) by force
  with Cons show ?case by auto
qed simp

lemma QuickRatio_multiset:
  "QuickRatio (ChainB A B autojunk) = CalculateRatio (size (mset A \<inter># mset B)) (length A + length B)"
proof -
  let ?t = "chain_keys B" let ?f = "map_of (kt_Lookup ?t)"
  note inv = chain_keys_inv [of B, unfolded keys_inv_def]
  have key: "key < length (kt_B2j ?t)" if "?f v = Some key" for v key using inv that by blast
  have inj: "v = w" if "?f v = Some key" "?f w = Some key" for v w key using inv that by blast
  have len: "length (kt_BKey ?t) = length B" and bkey: "\<And>i. i < length B \<Longrightarrow> ?f (B ! i) = Some (kt_BKey ?t ! i)"
    using inv by blast+
  have mem: "?f v \<noteq> None" if "v \<in> set B" for v using that bkey by (metis in_set_conv_nth option.distinct(1))
  have keys: "kt_BKey ?t = map (\<lambda>v. the (?f v)) B" using len bkey by (intro nth_equalityI) simp_all
  let ?n = "length (kt_B2j ?t)"
  define full where "full = fold (\<lambda>key f. f[key := f ! key + 1]) (kt_BKey ?t) (replicate ?n (0 :: int))"
  have "count (mset B) v = offered ?f full (replicate ?n None) v" for v
  proof (cases "?f v")
    case None
    then have "v \<notin> set B" using mem by blast
    with None show ?thesis by (simp add: offered_def)
  next
    case (Some k)
    have "\<And>x. x \<in> set (kt_BKey ?t) \<Longrightarrow> x < ?n" using keys mem key by (fastforce simp del: map_of_eq_None_iff)
    then have "full ! k = int (count_list (kt_BKey ?t) k)" using key [OF Some] by (simp add: full_def fold_count)
    moreover have "count_list (kt_BKey ?t) k = count (mset B) v"
      unfolding keys by (rule count_list_keys [of B ?f v k, OF mem inj Some])
    ultimately show ?thesis using Some key [OF Some] by (simp add: offered_def)
  qed
  from quick_loop_matches [of ?f "replicate ?n None" "mset B" full A 0, OF _ inj this] key
  show ?thesis by (simp add: QuickRatio_def ChainB_def Let_def full_def)
qed

lemma in_order_matches:
  assumes "in_order sm i j bs"
  shows "\<exists>M. size M = sum_list (map mb_Size bs) \<and> M \<subseteq># mset (drop i (sm_A sm)) \<and> M \<subseteq># mset (drop j (sm_B sm))"
  using assms
proof (induction bs arbitrary: i j)
  case (Cons b bs)
  let ?a = "mb_A b" and ?b = "mb_B b" and ?k = "mb_Size b"
  have b: "i \<le> ?a" "j \<le> ?b" "run (sm_A sm) (sm_B sm) ?a ?b ?k" "in_order sm (?a + ?k) (?b + ?k) bs" using Cons.prems by auto
  note le = in_order_bounds [OF b(4)]
  from Cons.IH [OF b(4)] obtain M where M: "size M = sum_list (map mb_Size bs)"
    "M \<subseteq># mset (drop (?a + ?k) (sm_A sm))" "M \<subseteq># mset (drop (?b + ?k) (sm_B sm))" by blast
  have split: "drop i xs = seg xs i m @ seg xs m (m + k) @ drop (m + k) xs" if "i \<le> m" "m + k \<le> length xs"
    for xs :: "elem list" and i m k using that by (simp add: seg_drop [symmetric] seg_append)
  have "seg (sm_A sm) ?a (?a + ?k) = seg (sm_B sm) ?b (?b + ?k)"
    using b(3) le by (intro same_seg) (simp add: same_def)
  then have "mset (seg (sm_A sm) ?a (?a + ?k)) + M \<subseteq># mset (drop j (sm_B sm))"
    using M(3) split [OF b(2), of ?k "sm_B sm"] le by (simp add: mset_subset_eq_mono_add subset_mset.add_increasing)
  moreover have "mset (seg (sm_A sm) ?a (?a + ?k)) + M \<subseteq># mset (drop i (sm_A sm))"
    using M(2) split [OF b(1), of ?k "sm_A sm"] le by (simp add: mset_subset_eq_mono_add subset_mset.add_increasing)
  moreover have "size (mset (seg (sm_A sm) ?a (?a + ?k)) + M) = sum_list (map mb_Size (b # bs))"
    using M(1) by (simp add: seg_def)
  ultimately show ?case by blast
qed (auto intro: exI [of _ "{#}"])

lemma CalculateRatio_mono: "m \<le> m' \<Longrightarrow> CalculateRatio m n \<le> CalculateRatio m' n"
  by (auto simp: CalculateRatio_def dbl_ops fl_nonneg intro!: fl_mono divide_right_mono)

lemma CalculateRatio_bounds: "2 * m \<le> n \<Longrightarrow> n \<le> 2 ^ 53 \<Longrightarrow> CalculateRatio m n \<le> 1" "0 \<le> CalculateRatio m n"
proof -
  assume le: "2 * m \<le> n" and n: "n \<le> 2 ^ 53"
  have "dbl_of_size m = of_nat m" "dbl_of_size n = of_nat n" "dbl_mul 2 (of_nat m) = of_nat (2 * m)"
    using le n fl_nat [of m] fl_nat [of n] fl_nat [of "2 * m"] by (simp_all add: dbl_ops)
  moreover have "(of_nat (2 * m) :: rat) / of_nat n \<le> 1" if "n \<noteq> 0" using le that
    by (metis divide_le_eq_1 of_nat_le_iff of_nat_0_less_iff bot_nat_0.not_eq_extremum)
  ultimately show "CalculateRatio m n \<le> 1" by (auto simp: CalculateRatio_def dbl_div_def intro: fl_le_1)
next
  show "0 \<le> CalculateRatio m n" by (simp add: CalculateRatio_def dbl_ops fl_nonneg)
qed

text \<open>C16. The three ratios of a new matcher are ordered as \<^verbatim>\<open>difflib\<close> promises, up to the rounding of
  doubles: \<^verbatim>\<open>Ratio\<close> returns at most \<^verbatim>\<open>QuickRatio\<close>, which counts the elements the two sequences
  share with multiplicity, \<^verbatim>\<open>QuickRatio\<close> at most \<^verbatim>\<open>RealQuickRatio\<close>, and all lie between 0 and 1.\<close>

theorem ratios_ordered:
  assumes "length A < 2 ^ 32 - 1" and "length B < 2 ^ 32 - 1"
  shows "\<exists>sm r sm1. new_SequenceMatcher A B autojunk = Inr sm \<and> Ratio sm = Inr (r, sm1) \<and>
    0 \<le> r \<and> r \<le> QuickRatio sm \<and>
    QuickRatio sm = CalculateRatio (size (mset A \<inter># mset B)) (length A + length B) \<and>
    QuickRatio sm \<le> RealQuickRatio sm \<and> RealQuickRatio sm \<le> 1"
proof -
  let ?sm = "ChainB A B autojunk"
  have f: "sm_A ?sm = A" "sm_B ?sm = B" "sm_MatchingBlocks ?sm = None" by (simp_all add: ChainB_def Let_def)
  obtain bs where bs: "compute_blocks ?sm = Inr (bs @ [\<lparr>mb_A = length A, mb_B = length B, mb_Size = 0\<rparr>])" "in_order ?sm 0 0 bs"
    using compute_blocks_in_order [OF ChainB_chained [of A B autojunk]] unfolding f by blast
  let ?m = "sum_list (map mb_Size bs)" and ?n = "length A + length B"
  have r: "\<exists>sm1. Ratio ?sm = Inr (CalculateRatio ?m ?n, sm1)" using bs(1) f by (simp add: Ratio_def GetMatchingBlocks_def)
  obtain M where "size M = ?m" "M \<subseteq># mset A" "M \<subseteq># mset B" using in_order_matches [OF bs(2)] unfolding f by auto
  then have m: "?m \<le> size (mset A \<inter># mset B)" by (metis size_mset_mono subset_mset.inf.boundedI)
  have q: "size (mset A \<inter># mset B) \<le> min (length A) (length B)"
    using size_mset_mono [of "mset A \<inter># mset B" "mset A"] size_mset_mono [of "mset A \<inter># mset B" "mset B"] by simp
  have "RealQuickRatio ?sm = CalculateRatio (min (length A) (length B)) ?n" by (simp add: RealQuickRatio_def f)
  moreover have "CalculateRatio (min (length A) (length B)) ?n \<le> 1" using assms by (intro CalculateRatio_bounds) auto
  ultimately show ?thesis
    using r CalculateRatio_mono [OF m] CalculateRatio_mono [OF q] CalculateRatio_bounds(2) assms
    by (auto simp: new_SequenceMatcher_def QuickRatio_multiset)
qed

theorem ratios_ordered_witness:
  "\<exists>sm r sm1. new_SequenceMatcher [1, 2, 3] [3, 2] True = Inr sm \<and> Ratio sm = Inr (r, sm1) \<and>
    0 \<le> r \<and> r \<le> QuickRatio sm \<and>
    QuickRatio sm = CalculateRatio (size (mset [1 :: elem, 2, 3] \<inter># mset [3, 2])) (length [1 :: elem, 2, 3] + length [3 :: elem, 2]) \<and>
    QuickRatio sm \<le> RealQuickRatio sm \<and> RealQuickRatio sm \<le> 1"
  using ratios_ordered [of "[1, 2, 3]" "[3, 2]" True] by simp

end
