(* ===== verification/FloatText.thy ===== *)
theory FloatText
  imports PyFloat
begin

text \<open>
  \<^verbatim>\<open>float(text)\<close> and \<^verbatim>\<open>repr(float)\<close> of \<^verbatim>\<open>src/diff/PyValue.cpp\<close>: the grammar of \<^verbatim>\<open>float()\<close>, the exact and the
  shortest decimal expansion of a double, and the proof that \<^verbatim>\<open>float(repr(x))\<close> is \<^verbatim>\<open>x\<close>.
\<close>

section \<open>\<open>float(text)\<close>\<close>

definition IsAsciiDigit :: "char \<Rightarrow> bool" where
  "IsAsciiDigit c \<longleftrightarrow> 48 \<le> (of_char c :: nat) \<and> of_char c \<le> (57 :: nat)"

definition IsPySpace :: "char \<Rightarrow> bool" where
  "IsPySpace c \<longleftrightarrow> c \<in> {CHR '' '', CHR 0x09, CHR 0x0A, CHR 0x0B, CHR 0x0C, CHR 0x0D}"

definition ascii_lower :: "char \<Rightarrow> char" where
  "ascii_lower c = (if 65 \<le> (of_char c :: nat) \<and> of_char c \<le> (90 :: nat) then char_of (of_char c + 32 :: nat) else c)"

definition EqualsIgnoreCase :: "string \<Rightarrow> string \<Rightarrow> bool" where
  "EqualsIgnoreCase rest word \<longleftrightarrow> map ascii_lower (take (length word) rest) = word"

text \<open>\<^verbatim>\<open>_Py_string_to_number_with_underscores\<close>\<close>

fun underscore_loop :: "char \<Rightarrow> string \<Rightarrow> string option" where
  "underscore_loop prev [] = (if prev = CHR ''_'' then None else Some [])"
| "underscore_loop prev (c # cs) =
     (if c = CHR ''_'' then (if IsAsciiDigit prev then underscore_loop c cs else None)
      else if prev = CHR ''_'' \<and> \<not> IsAsciiDigit c then None
      else map_option ((#) c) (underscore_loop c cs))"

definition strip_float :: "string \<Rightarrow> string option" where
  "strip_float txt =
     (case dropWhile IsPySpace txt of [] \<Rightarrow> None | c # cs \<Rightarrow> Some (c # rev (dropWhile IsPySpace (rev cs))))"

definition take_sign :: "string \<Rightarrow> bool \<times> string" where
  "take_sign body = (case body of c # cs \<Rightarrow> if c = CHR ''+'' then (False, cs) else if c = CHR ''-'' then (True, cs) else (False, body)
     | [] \<Rightarrow> (False, []))"

definition ParseInfNan :: "string \<Rightarrow> flt option" where
  "ParseInfNan body =
     (case take_sign body of (neg, rest) \<Rightarrow>
        if EqualsIgnoreCase rest ''inf''
        then (let r1 = drop 3 rest; r2 = (if EqualsIgnoreCase r1 ''inity'' then drop 5 r1 else r1)
              in if r2 = [] then Some (Infinity neg) else None)
        else if EqualsIgnoreCase rest ''nan'' then (if drop 3 rest = [] then Some NotANumber else None)
        else None)"

definition exp_digit :: "int \<Rightarrow> char \<Rightarrow> int" where
  "exp_digit v c = (if v \<le> kMaxAbsExp then v * 10 + (of_char c - 48) else v)"

text \<open>The exponent, and what follows it.\<close>

definition ParseExponent :: "string \<Rightarrow> int \<times> string" where
  "ParseExponent rest =
     (case rest of
        c # cs \<Rightarrow>
          if c = CHR ''e'' \<or> c = CHR ''E''
          then (case take_sign cs of (neg, r) \<Rightarrow>
                  if r \<noteq> [] \<and> IsAsciiDigit (hd r)
                  then (let r1 = dropWhile (\<lambda>c. c = CHR ''0'') r; ds = takeWhile IsAsciiDigit r1; v = foldl exp_digit 0 ds;
                            v1 = (if length ds > 8 \<or> v > kMaxAbsExp then kMaxAbsExp else v)
                        in (if neg then - v1 else v1, dropWhile IsAsciiDigit r1))
                  else (0, rest))
          else (0, rest)
      | [] \<Rightarrow> (0, []))"

definition ParseBody :: "string \<Rightarrow> flt option" where
  "ParseBody body =
     (case take_sign body of (neg, rest) \<Rightarrow>
        let d1 = takeWhile IsAsciiDigit rest; r1 = dropWhile IsAsciiDigit rest;
            (d2, r2) = (case r1 of c # cs \<Rightarrow> if c = CHR ''.'' then (takeWhile IsAsciiDigit cs, dropWhile IsAsciiDigit cs) else ([], r1)
                        | [] \<Rightarrow> ([], []))
        in if d1 @ d2 = [] then ParseInfNan body
           else (case ParseExponent r2 of (e, r3) \<Rightarrow>
                   if r3 \<noteq> [] then None else Some (DecimalToDouble neg (d1 @ d2) (e - int (length d2)))))"

definition PyFloatAscii :: "string \<Rightarrow> flt option" where
  "PyFloatAscii input =
     (if CHR 0x00 \<in> set input then None
      else Option.bind (if CHR ''_'' \<in> set input then underscore_loop (CHR 0x00) input else Some input) (\<lambda>txt.
           Option.bind (strip_float txt) ParseBody))"

definition PyFloat :: "string \<Rightarrow> flt option result" where
  "PyFloat txt =
     (if list_ex (\<lambda>c. of_char c \<ge> (128 :: nat)) txt
      then Inl (UnsupportedInput ''float(): non-ASCII text is not ported (Unicode digit/space mapping)'')
      else Inr (PyFloatAscii txt))"

section \<open>\<open>repr(float)\<close>\<close>

fun strip_twos :: "nat \<Rightarrow> int \<Rightarrow> nat \<times> int" where
  "strip_twos m e = (if m \<noteq> 0 \<and> even m then strip_twos (m div 2) (e + 1) else (m, e))"

declare strip_twos.simps [simp del]

definition strip_trailing_zeros :: "string \<Rightarrow> string" where
  "strip_trailing_zeros ds = rev (dropWhile (\<lambda>c. c = CHR ''0'') (rev ds))"

text \<open>\<^verbatim>\<open>frexp\<close> and \<^verbatim>\<open>ldexp(Fraction, 53)\<close>: the 53-bit mantissa and its exponent.\<close>

definition ExactDecimal :: "rat \<Rightarrow> string \<times> int" where
  "ExactDecimal v =
     (let ex = exponent v + 1; mantissa0 = nat \<lfloor>v / pow2 (ex - 53)\<rfloor>;
          (mantissa, exp2) = strip_twos mantissa0 (ex - 53);
          val = limbs_of (of_nat mantissa)
      in if exp2 \<ge> 0
         then (let digits = ToDecimal (ShiftLeft val (nat exp2)) in (strip_trailing_zeros digits, int (length digits)))
         else (let digits = ToDecimal (MulPow5 val (nat (- exp2)))
               in (strip_trailing_zeros digits, int (length digits) + exp2)))"

fun increment_rev :: "string \<Rightarrow> string \<times> bool" where
  "increment_rev [] = (''1'', True)"
| "increment_rev (d # ds) =
     (if d \<noteq> CHR ''9'' then (char_of (of_char d + 1 :: nat) # ds, False)
      else (case increment_rev ds of (ds', carried) \<Rightarrow> (CHR ''0'' # ds', carried)))"

definition IncrementDigits :: "string \<Rightarrow> string \<times> bool" where
  "IncrementDigits digits = (case increment_rev (rev digits) of (ds, carried) \<Rightarrow> (rev ds, carried))"

definition shortest_at :: "rat \<Rightarrow> string \<Rightarrow> int \<Rightarrow> nat \<Rightarrow> (string \<times> int) option" where
  "shortest_at v exact decpt precision =
     (if length exact \<le> precision then Some (exact, decpt)
      else
        (let down = take precision exact;
             (up0, carried) = IncrementDigits down;
             up = (if carried then butlast up0 else up0);
             up_decpt = (if carried then decpt + 1 else decpt);
             down_ok = flt_eq (DecimalToDouble False down (decpt - int (length down))) (Finite False v);
             up_ok = flt_eq (DecimalToDouble False up (up_decpt - int (length up))) (Finite False v)
         in if \<not> down_ok \<and> \<not> up_ok then None
            else
              (let rest = drop precision exact;
                   cmp = (if of_char (rest ! 0) > (53 :: nat) then 1
                          else if of_char (rest ! 0) < (53 :: nat) then - 1 else if length rest > 1 then 1 else 0 :: int);
                   take_up = (if down_ok \<and> up_ok then cmp > 0 \<or> (cmp = 0 \<and> odd (of_char (last down) - 48 :: nat))
                              else up_ok \<and> \<not> down_ok)
               in Some (strip_trailing_zeros (if take_up then up else down), if take_up then up_decpt else decpt))))"

text \<open>The loop over the precisions 1 to 17.\<close>

primrec shortest_loop :: "rat \<Rightarrow> string \<Rightarrow> int \<Rightarrow> nat list \<Rightarrow> string \<times> int" where
  "shortest_loop v exact decpt [] = (exact, decpt)"
| "shortest_loop v exact decpt (p # ps) =
     (case shortest_at v exact decpt p of Some r \<Rightarrow> r | None \<Rightarrow> shortest_loop v exact decpt ps)"

definition ShortestDigits :: "rat \<Rightarrow> string \<times> int" where
  "ShortestDigits v = (case ExactDecimal v of (exact, decpt) \<Rightarrow> shortest_loop v exact decpt [1..<18])"

definition repr_layout :: "string \<Rightarrow> int \<Rightarrow> string" where
  "repr_layout digits decpt =
     (let count = int (length digits)
      in if decpt \<le> - 4 \<or> decpt > 16
         then (let ex = decpt - 1; ed = dec_nat (nat \<bar>ex\<bar>)
               in hd digits # (if count > 1 then CHR ''.'' # tl digits else [])
                  @ (if ex < 0 then ''e-'' else ''e+'') @ (if length ed < 2 then ''0'' else []) @ ed)
         else if decpt \<le> 0 then ''0.'' @ replicate (nat (- decpt)) (CHR ''0'') @ digits
         else if decpt \<ge> count then digits @ replicate (nat (decpt - count)) (CHR ''0'') @ ''.0''
         else take (nat decpt) digits @ ''.'' @ drop (nat decpt) digits)"

definition PyReprFloat :: "flt \<Rightarrow> string" where
  "PyReprFloat value =
     (case value of
        NotANumber \<Rightarrow> ''nan''
      | Infinity neg \<Rightarrow> if neg then ''-inf'' else ''inf''
      | Finite neg m \<Rightarrow>
          if m = 0 then (if neg then ''-0.0'' else ''0.0'')
          else (case ShortestDigits m of (digits, decpt) \<Rightarrow> (if neg then ''-'' else []) @ repr_layout digits decpt))"

section \<open>Decimal expansions\<close>

definition dec_val :: "string \<Rightarrow> int \<Rightarrow> rat" where
  "dec_val D p = of_nat (digits_value D) * pow10 (p - int (length D))"

definition leading :: "string \<Rightarrow> bool" where
  "leading D \<longleftrightarrow> dec_digits D \<and> D \<noteq> [] \<and> hd D \<noteq> CHR ''0''"

lemma dec_digit_char: "d < 10 \<Longrightarrow> 48 \<le> (of_char (digit_char d) :: nat) \<and> of_char (digit_char d) \<le> (57 :: nat)"
  by (simp add: of_char_digit_char)

lemma dec_nat_ne [simp]: "dec_nat n \<noteq> []"
  by (subst dec_nat.simps) simp

lemma dec_digits_dec_nat: "dec_digits (dec_nat n)"
proof (induction n rule: dec_nat.induct)
  case (1 n)
  then show ?case by (subst dec_nat.simps) (simp add: dec_digits_def dec_digit_char)
qed

lemma hd_dec_nat: "0 < n \<Longrightarrow> hd (dec_nat n) \<noteq> CHR ''0''"
proof (induction n rule: dec_nat.induct)
  case (1 n)
  have "digit_char n \<noteq> CHR ''0''" if "n < 10"
    using that 1(2) of_char_digit_char [OF that] of_char_digit_char [of 0] digit_char_0 by auto
  moreover have "hd (dec_nat (n div 10)) \<noteq> CHR ''0''" if "\<not> n < 10" using 1(1) that by simp
  ultimately show ?case by (subst dec_nat.simps) simp
qed

lemma leading_dec_nat: "0 < n \<Longrightarrow> leading (dec_nat n)"
  by (simp add: leading_def dec_digits_dec_nat hd_dec_nat)

lemma strip_trailing_split:
  "ds = strip_trailing_zeros ds @ replicate (length ds - length (strip_trailing_zeros ds)) (CHR ''0'')"
proof -
  let ?P = "\<lambda>c. c = CHR ''0''" let ?z = "length (takeWhile ?P (rev ds))"
  have "rev ds = takeWhile ?P (rev ds) @ dropWhile ?P (rev ds)" by simp
  moreover have "takeWhile ?P (rev ds) = replicate ?z (CHR ''0'')" by (intro replicate_eqI) (auto dest: set_takeWhileD)
  ultimately have "rev ds = replicate ?z (CHR ''0'') @ dropWhile ?P (rev ds)" by simp
  then have "ds = strip_trailing_zeros ds @ replicate ?z (CHR ''0'')"
    unfolding strip_trailing_zeros_def by (metis rev_append rev_replicate rev_rev_ident)
  then show ?thesis by (metis diff_add_inverse length_append length_replicate)
qed

lemma strip_trailing_leading:
  assumes "leading D" shows "leading (strip_trailing_zeros D)" and "dec_val (strip_trailing_zeros D) p = dec_val D p"
proof -
  define n where "n = length D - length (strip_trailing_zeros D)"
  have s: "D = strip_trailing_zeros D @ replicate n (CHR ''0'')" unfolding n_def by (rule strip_trailing_split)
  have ne: "strip_trailing_zeros D \<noteq> []"
  proof
    assume "strip_trailing_zeros D = []"
    with s have "D = replicate n (CHR ''0'')" by simp
    with assms show False by (cases n) (auto simp: leading_def)
  qed
  have "dec_digits (strip_trailing_zeros D)"
    using assms s unfolding leading_def dec_digits_def by (metis list_all_append)
  moreover have "hd (strip_trailing_zeros D) \<noteq> CHR ''0''" using assms ne by (subst (asm) s) (simp add: leading_def)
  ultimately show "leading (strip_trailing_zeros D)" using ne by (simp add: leading_def)
  have "int (length D) = int (length (strip_trailing_zeros D)) + int n" by (subst s) simp
  moreover have "digits_value D = digits_value (strip_trailing_zeros D) * 10 ^ n"
    by (subst s) (simp add: digits_value_append digits_value_zeros)
  moreover have "pow10 (p - int (length (strip_trailing_zeros D))) = pow10 (p - int (length D)) * pow10 (int n)"
    unfolding pow10_add [symmetric] calculation(1) by simp
  ultimately show "dec_val (strip_trailing_zeros D) p = dec_val D p" by (simp add: dec_val_def pow10_nat)
qed

lemma strip_twos_value:
  "0 < m \<Longrightarrow> strip_twos m e = (m', e') \<Longrightarrow> of_nat m' * pow2 e' = (of_nat m * pow2 e :: rat) \<and> 0 < m' \<and> m' \<le> m"
proof (induction m e rule: strip_twos.induct)
  case (1 m e)
  show ?case
  proof (cases "even m")
    case True
    with 1(3) \<open>0 < m\<close> have s: "strip_twos (m div 2) (e + 1) = (m', e')" by (subst (asm) strip_twos.simps) simp
    have "0 < m div 2" using True \<open>0 < m\<close> by (auto elim: evenE)
    with 1(1) True \<open>0 < m\<close> s have ih: "of_nat m' * pow2 e' = (of_nat (m div 2) * pow2 (e + 1) :: rat)" "0 < m'" "m' \<le> m div 2" by auto
    have "(of_nat m :: rat) = of_nat (m div 2) * 2" using True by (auto elim: evenE)
    with ih show ?thesis by (simp add: pow2_add pow2_def [of 1])
  next
    case False
    with 1(3) \<open>0 < m\<close> have "m' = m" "e' = e" by (subst (asm) strip_twos.simps; simp)+
    with \<open>0 < m\<close> show ?thesis by simp
  qed
qed

lemma mantissa_exact:
  assumes "0 < v" and "is_double v"
  shows "\<exists>m. v / pow2 (exponent v - 52) = of_nat m \<and> 0 < m \<and> m < 2 ^ 53"
proof -
  obtain m e where me: "v = of_int m * pow2 e" "\<bar>m\<bar> \<le> 2 ^ 53" using assms(2) unfolding is_double_def by blast
  define s where "s = exponent v - 52"
  have b: "pow2 (exponent v) \<le> v" "v < pow2 (exponent v + 1)" using exponent_bounds [OF assms(1)] by blast+
  have "\<exists>i. v / pow2 s = of_int i"
  proof (cases "s \<le> e")
    case True
    have "pow2 e = of_int (2 ^ nat (e - s)) * pow2 s"
      using True pow2_add [of "e - s" s] by (simp add: pow2_def [of "e - s"])
    then have "v = of_int (m * 2 ^ nat (e - s)) * pow2 s" using me(1) by simp
    then have "v / pow2 s = of_int (m * 2 ^ nat (e - s))" by (simp only: nonzero_divide_eq_eq [OF pow2_nonzero])
    then show ?thesis by blast
  next
    case False
    have "of_int m * pow2 e \<le> pow2 53 * pow2 e"
      using me(2) by (intro mult_right_mono) (simp_all add: less_imp_le pow2_def)
    then have "v \<le> pow2 (53 + e)" unfolding me(1) pow2_add .
    with b(1) have "pow2 (exponent v) \<le> pow2 (53 + e)" by (rule order_trans)
    then have "exponent v \<le> 53 + e" by (metis linorder_not_le pow2_less_iff)
    with False have ex: "exponent v = 53 + e" by (simp add: s_def)
    with b(1) me(1) have "pow2 53 * pow2 e \<le> of_int m * pow2 e" by (simp add: pow2_add)
    then have "pow2 53 \<le> of_int m" by simp
    then have "m = 2 ^ 53" using me(2) by (simp add: pow2_def)
    then have "v = pow2 (53 + e)" using me(1) by (simp add: pow2_add pow2_53)
    also have "53 + e = 52 + s" using ex by (simp add: s_def)
    finally have "v = of_int (2 ^ 52) * pow2 s" by (simp only: pow2_add pow2_52)
    then have "v / pow2 s = of_int (2 ^ 52)" by (simp only: nonzero_divide_eq_eq [OF pow2_nonzero])
    then show ?thesis by blast
  qed
  then obtain i where i: "v / pow2 s = of_int i" by blast
  have "pow2 (exponent v + 1) = pow2 53 * pow2 s" by (simp add: s_def pow2_add [symmetric] add.commute)
  then have "0 < v / pow2 s" "v / pow2 s < pow2 53" using assms(1) b(2) by (simp_all add: pos_divide_less_eq)
  then have "0 < i" "i < 2 ^ 53" unfolding i by (simp_all add: pow2_def)
  then show ?thesis using i unfolding s_def by (intro exI [of _ "nat i"]) simp
qed

lemma ExactDecimal_value:
  assumes "0 < v" and "is_double v" and "ExactDecimal v = (D, p)"
  shows "leading D" and "dec_val D p = v"
proof -
  let ?s = "exponent v - 52"
  obtain m0 where m0: "v / pow2 ?s = of_nat m0" "0 < m0" "m0 < 2 ^ 53" using mantissa_exact [OF assms(1,2)] by blast
  obtain m e where me: "strip_twos m0 ?s = (m, e)" by fastforce
  have "of_nat m * pow2 e = of_nat m0 * pow2 ?s" and m: "0 < m" "m \<le> m0" using strip_twos_value [OF m0(2) me] by blast+
  then have v: "v = of_nat m * pow2 e" using m0(1) by (simp add: field_simps)
  have "m < 2 ^ 64" using m m0(3) by simp
  then have unat: "unat (of_nat m :: 64 word) = m" by (simp add: unsigned_of_nat take_bit_nat_eq_self)
  define N where "N = (if e \<ge> 0 then m * 2 ^ nat e else m * 5 ^ nat (- e))"
  define q where "q = (if e \<ge> 0 then 0 else e)"
  have "D = strip_trailing_zeros (dec_nat N)" "p = int (length (dec_nat N)) + q"
    using assms(3) by (simp_all add: ExactDecimal_def Let_def m0(1) me N_def q_def ToDecimal_value big_values unat split: if_splits)
  moreover have "0 < N" using m by (simp add: N_def)
  moreover have "dec_val (dec_nat N) (int (length (dec_nat N)) + q) = v"
  proof (cases "e \<ge> 0")
    case True
    then show ?thesis by (simp add: dec_val_def digits_value_dec_nat N_def q_def v pow2_def pow10_def)
  next
    case False
    then have "pow10 e * 5 ^ nat (- e) = pow2 e"
      by (simp add: pow10_neg pow2_def power_mult_distrib [symmetric] field_simps)
    then show ?thesis using False by (simp add: dec_val_def digits_value_dec_nat N_def q_def v mult.commute)
  qed
  ultimately show "leading D" "dec_val D p = v" using strip_trailing_leading [OF leading_dec_nat] by simp_all
qed

section \<open>The shortest digits round to the double\<close>

definition rounds_to :: "rat \<Rightarrow> string \<Rightarrow> int \<Rightarrow> bool" where
  "rounds_to v D p \<longleftrightarrow> leading D \<and> nearest False (dec_val D p) = Finite False v"

lemma flt_eq_nearest: "0 < v \<Longrightarrow> flt_eq (nearest False x) (Finite False v) \<Longrightarrow> nearest False x = Finite False v"
  by (auto simp: nearest_def flt_value_def split: if_splits)

lemma leading_take: "leading D \<Longrightarrow> 0 < n \<Longrightarrow> leading (take n D)"
  by (cases D; cases n) (auto simp: leading_def dec_digits_def list_all_iff dest: in_set_takeD)

lemma dec_digits_Nil [simp]: "dec_digits []"
  by (simp add: dec_digits_def)

lemma dec_digits_Cons [simp]: "dec_digits (d # ds) \<longleftrightarrow> IsAsciiDigit d \<and> dec_digits ds"
  by (auto simp: dec_digits_def IsAsciiDigit_def)

lemma char_of_suc: "IsAsciiDigit d \<Longrightarrow> d \<noteq> CHR ''9'' \<Longrightarrow> IsAsciiDigit (char_of (of_char d + 1 :: nat)) \<and> char_of (of_char d + 1 :: nat) \<noteq> CHR ''0''"
proof -
  assume d: "IsAsciiDigit d" "d \<noteq> CHR ''9''"
  have "of_char d \<noteq> (57 :: nat)"
  proof
    assume "of_char d = (57 :: nat)"
    then have "char_of (of_char d :: nat) = char_of (57 :: nat)" by simp
    moreover have "char_of (57 :: nat) = CHR ''9''" by code_simp
    ultimately show False using d(2) by simp
  qed
  with d(1) have b: "48 \<le> (of_char d :: nat)" "of_char d < (57 :: nat)" by (auto simp: IsAsciiDigit_def)
  then have oc: "of_char (char_of (of_char d + 1 :: nat)) = (of_char d + 1 :: nat)" by simp
  have "of_char (CHR ''0'') = (48 :: nat)" by (simp add: of_char_def)
  with oc b have "char_of (of_char d + 1 :: nat) \<noteq> CHR ''0''" by (metis Suc_eq_plus1 Suc_n_not_le_n)
  with oc b show ?thesis by (simp add: IsAsciiDigit_def)
qed

lemma dec_digits_append: "dec_digits (xs @ ys) \<longleftrightarrow> dec_digits xs \<and> dec_digits ys"
  by (simp add: dec_digits_def)

lemma dec_digits_rev: "dec_digits (rev xs) \<longleftrightarrow> dec_digits xs"
  by (simp add: dec_digits_def)

lemma IsAsciiDigit_0_1 [simp]: "IsAsciiDigit (CHR ''0'')" "IsAsciiDigit (CHR ''1'')"
  by (simp_all add: IsAsciiDigit_def of_char_def)

lemma increment_rev_digits:
  assumes "dec_digits ds" and "increment_rev ds = (ds', c)"
  shows "dec_digits ds' \<and> (c \<longrightarrow> last ds' = CHR ''1'' \<and> length ds' = Suc (length ds)) \<and>
    (\<not> c \<longrightarrow> length ds' = length ds \<and> (ds \<noteq> [] \<longrightarrow> last ds \<noteq> CHR ''0'' \<longrightarrow> last ds' \<noteq> CHR ''0''))"
  using assms
proof (induction ds arbitrary: ds' c)
  case (Cons d ds)
  show ?case
  proof (cases "d = CHR ''9''")
    case True
    with Cons.prems(2) obtain es where es: "increment_rev ds = (es, c)" "ds' = CHR ''0'' # es" by (auto split: prod.splits)
    from Cons.IH [OF _ es(1)] Cons.prems(1) have ih: "dec_digits es" "c \<longrightarrow> last es = CHR ''1'' \<and> length es = Suc (length ds)"
      "\<not> c \<longrightarrow> length es = length ds \<and> (ds \<noteq> [] \<longrightarrow> last ds \<noteq> CHR ''0'' \<longrightarrow> last es \<noteq> CHR ''0'')" by simp_all
    moreover have "ds = [] \<Longrightarrow> c" using es(1) by auto
    moreover have "es \<noteq> []" using es(1) by (cases ds) (auto split: if_splits prod.splits)
    ultimately show ?thesis using True es(2) by auto
  next
    case False
    with Cons.prems char_of_suc [of d] show ?thesis by auto
  qed
qed auto

lemma IncrementDigits_leading:
  assumes "leading D" and "IncrementDigits D = (up0, carried)"
  shows "leading (if carried then butlast up0 else up0)"
proof -
  obtain ds where ds: "increment_rev (rev D) = (ds, carried)" "up0 = rev ds"
    using assms(2) by (auto simp: IncrementDigits_def split: prod.splits)
  have D: "dec_digits (rev D)" "rev D \<noteq> []" "last (rev D) \<noteq> CHR ''0''"
    using assms(1) by (simp_all add: leading_def dec_digits_rev last_rev)
  from increment_rev_digits [OF D(1) ds(1)] D(2,3)
  have i: "dec_digits ds" "carried \<Longrightarrow> last ds = CHR ''1'' \<and> length ds = Suc (length D)"
    "\<not> carried \<Longrightarrow> length ds = length D \<and> last ds \<noteq> CHR ''0''" by auto
  have lenD: "0 < length D" using D(2) by simp
  show ?thesis
  proof (cases carried)
    case True
    have "dec_digits up0" using i(1) ds(2) by (simp add: dec_digits_rev)
    from True i(2) have "hd up0 = CHR ''1''" "length up0 = Suc (length D)" using ds(2) by (simp_all add: hd_rev)
    then have "up0 = CHR ''1'' # tl up0" "tl up0 \<noteq> []" using lenD by (cases up0; auto)+
    then have "butlast up0 = CHR ''1'' # butlast (tl up0)" by (metis butlast.simps(2))
    moreover have "dec_digits (butlast up0)" using \<open>dec_digits up0\<close> by (metis butlast_conv_take dec_digits_parts(1))
    ultimately show ?thesis using True by (simp add: leading_def)
  next
    case False
    with i lenD ds(2) show ?thesis by (cases "ds = []") (auto simp: leading_def dec_digits_rev hd_rev)
  qed
qed

lemma rounds_to_strip: "rounds_to v D p \<Longrightarrow> rounds_to v (strip_trailing_zeros D) p"
  by (simp add: rounds_to_def strip_trailing_leading)

lemma checked_rounds_to:
  assumes "leading D" and "0 < v" and "flt_eq (DecimalToDouble False D (p - int (length D))) (Finite False v)"
  shows "rounds_to v D p"
proof -
  have "DecimalToDouble False D (p - int (length D)) = nearest False (dec_val D p)"
    using assms(1) by (simp add: dec_val_def DecimalToDouble_nearest leading_def)
  with assms flt_eq_nearest [OF assms(2)] show ?thesis by (simp add: rounds_to_def)
qed

lemma shortest_at_rounds_to:
  assumes "rounds_to v exact decpt" and "0 < v" and "0 < n" and "shortest_at v exact decpt n = Some (D, p)"
  shows "rounds_to v D p"
proof (cases "length exact \<le> n")
  case True
  with assms show ?thesis by (simp add: shortest_at_def)
next
  case False
  let ?down = "take n exact"
  obtain up0 carried where inc: "IncrementDigits ?down = (up0, carried)" by fastforce
  define up where "up = (if carried then butlast up0 else up0)"
  define up_decpt where "up_decpt = (if carried then decpt + 1 else decpt)"
  define down_ok where "down_ok = flt_eq (DecimalToDouble False ?down (decpt - int (length ?down))) (Finite False v)"
  define up_ok where "up_ok = flt_eq (DecimalToDouble False up (up_decpt - int (length up))) (Finite False v)"
  have lead: "leading ?down" using assms(1,3) by (simp add: rounds_to_def leading_take)
  then have "leading up" unfolding up_def by (rule IncrementDigits_leading [OF _ inc])
  then have ok: "up_ok \<Longrightarrow> rounds_to v up up_decpt" "down_ok \<Longrightarrow> rounds_to v ?down decpt"
    using lead checked_rounds_to assms(2) unfolding up_ok_def down_ok_def by blast+
  obtain b where b: "D = strip_trailing_zeros (if b then up else ?down)" "p = (if b then up_decpt else decpt)" "if b then up_ok else down_ok"
    using assms(4) False inc
    unfolding shortest_at_def Let_def up_def up_decpt_def down_ok_def up_ok_def
    by (simp only: if_False prod.case) (force split: if_splits)
  with ok show ?thesis by (cases b) (simp_all add: rounds_to_strip)
qed

lemma ShortestDigits_rounds_to:
  assumes "0 < v" and "is_double v" and "v < pow2 1024" and "ShortestDigits v = (D, p)"
  shows "rounds_to v D p"
proof -
  obtain exact decpt where e: "ExactDecimal v = (exact, decpt)" by fastforce
  have ex: "rounds_to v exact decpt"
    using ExactDecimal_value [OF assms(1,2) e] assms(3) fl_double [OF assms(2)] by (simp add: rounds_to_def nearest_def)
  have "rounds_to v D p" if "shortest_loop v exact decpt ps = (D, p)" "\<forall>n\<in>set ps. 0 < n" for ps
    using that
  proof (induction ps)
    case (Cons n ps)
    then show ?case by (auto split: option.splits dest: shortest_at_rounds_to [OF ex assms(1)])
  qed (use ex in simp)
  from this [of "[1..<18]"] assms(4) e show ?thesis by (simp add: ShortestDigits_def)
qed

section \<open>Reading the text back\<close>

lemma dec_digits_all: "dec_digits ds \<Longrightarrow> c \<in> set ds \<Longrightarrow> IsAsciiDigit c"
  by (auto simp: dec_digits_def IsAsciiDigit_def list_all_iff)

lemma takeWhile_digits: "dec_digits ds \<Longrightarrow> rest = [] \<or> \<not> IsAsciiDigit (hd rest) \<Longrightarrow>
  takeWhile IsAsciiDigit (ds @ rest) = ds \<and> dropWhile IsAsciiDigit (ds @ rest) = rest"
  by (induction ds) (cases rest; auto)+

lemma not_digit [simp]: "\<not> IsAsciiDigit (CHR ''.'')" "\<not> IsAsciiDigit (CHR ''e'')" "\<not> IsAsciiDigit (CHR ''+'')" "\<not> IsAsciiDigit (CHR ''-'')"
  "\<not> IsAsciiDigit (CHR ''n'')" "\<not> IsAsciiDigit (CHR ''i'')" "\<not> IsAsciiDigit (CHR ''_'')" "\<not> IsAsciiDigit (CHR 0x00)"
  by (simp_all add: IsAsciiDigit_def of_char_def)

definition sign_text :: "bool \<Rightarrow> string" where
  "sign_text neg = (if neg then ''-'' else [])"

lemma take_sign_digits: "IsAsciiDigit c \<Longrightarrow> take_sign (sign_text neg @ c # cs) = (neg, c # cs)"
  using not_digit by (auto simp: take_sign_def sign_text_def)

lemma ParseBody_point:
  assumes "dec_digits d1" and "d1 \<noteq> []" and "dec_digits d2"
  shows "ParseBody (sign_text neg @ d1 @ ''.'' @ d2) = Some (DecimalToDouble neg (d1 @ d2) (- int (length d2)))"
proof -
  obtain c cs where d1: "d1 = c # cs" using assms(2) by (cases d1) auto
  have s: "take_sign (sign_text neg @ d1 @ ''.'' @ d2) = (neg, d1 @ ''.'' @ d2)"
    using take_sign_digits [of c neg "cs @ ''.'' @ d2"] assms(1) by (simp add: d1)
  have "takeWhile IsAsciiDigit (d1 @ ''.'' @ d2) = d1" "dropWhile IsAsciiDigit (d1 @ ''.'' @ d2) = ''.'' @ d2"
    using takeWhile_digits [OF assms(1), of "''.'' @ d2"] by simp_all
  moreover have "takeWhile IsAsciiDigit d2 = d2" "dropWhile IsAsciiDigit d2 = []"
    using takeWhile_digits [OF assms(3), of "[]"] by simp_all
  ultimately show ?thesis using assms(2) unfolding ParseBody_def s
    by (simp add: ParseExponent_def del: takeWhile_eq_all_conv dropWhile_eq_Nil_conv)
qed

lemma exp_digits_value: "dec_digits ds \<Longrightarrow> length ds \<le> 8 \<Longrightarrow> foldl exp_digit 0 ds = int (digits_value ds) \<and> int (digits_value ds) \<le> kMaxAbsExp"
proof (induction ds rule: rev_induct)
  case (snoc d ds)
  have d: "dec_digits ds" "IsAsciiDigit d" using snoc.prems(1) by (simp_all add: dec_digits_append)
  have ih: "foldl exp_digit 0 ds = int (digits_value ds)" "int (digits_value ds) \<le> kMaxAbsExp" using snoc d by simp_all
  have "digits_value (ds @ [d]) < 10 ^ length (ds @ [d])" by (rule digits_value_less [OF snoc.prems(1)])
  also have "\<dots> \<le> 10 ^ 8" using snoc.prems(2) by (intro power_increasing) simp_all
  finally have "int (digits_value (ds @ [d])) \<le> kMaxAbsExp" by (simp add: kMaxAbsExp_def)
  moreover have "(of_char d :: int) = int (of_char d)" by (simp only: of_nat_of_char)
  then have "(of_char d :: int) - 48 = int (of_char d - 48)" using d(2) by (simp add: IsAsciiDigit_def)
  then have "foldl exp_digit 0 (ds @ [d]) = int (digits_value (ds @ [d]))"
    using ih by (simp add: exp_digit_def digits_value_snoc)
  ultimately show ?case by blast
qed (simp add: digits_value_def kMaxAbsExp_def)

lemma ParseExponent_text:
  assumes "dec_digits ed" and "ed \<noteq> []" and "length ed \<le> 8"
  shows "ParseExponent ((if neg then ''e-'' else ''e+'') @ ed) = (if neg then - int (digits_value ed) else int (digits_value ed), [])"
proof -
  let ?r = "dropWhile (\<lambda>c. c = CHR ''0'') ed"
  have r: "dec_digits ?r" "length ?r \<le> 8"
    using assms(1,3) length_dropWhile_le [of "\<lambda>c. c = CHR ''0''" ed]
    by (auto simp: dec_digits_def list_all_iff dest: set_dropWhileD)
  have "takeWhile IsAsciiDigit ?r = ?r" "dropWhile IsAsciiDigit ?r = []" using takeWhile_digits [OF r(1), of "[]"] by simp_all
  moreover have "IsAsciiDigit (hd ed)" using assms(1,2) by (cases ed) auto
  moreover have "foldl exp_digit 0 ?r = int (digits_value ed)" "int (digits_value ed) \<le> kMaxAbsExp"
    using exp_digits_value [OF r] by (simp_all add: digits_value_drop_zeros)
  ultimately show ?thesis using assms(2) r(2) 
    by (simp add: ParseExponent_def take_sign_def Let_def del: takeWhile_eq_all_conv dropWhile_eq_Nil_conv)
qed

lemma ParseBody_exponent:
  assumes "dec_digits (c # d2)" and "dec_digits ed" and "ed \<noteq> []" and "length ed \<le> 8"
  shows "ParseBody (sign_text neg @ (c # (if d2 \<noteq> [] then CHR ''.'' # d2 else []) @ (if eneg then ''e-'' else ''e+'') @ ed)) =
    Some (DecimalToDouble neg (c # d2) ((if eneg then - int (digits_value ed) else int (digits_value ed)) - int (length d2)))"
proof -
  let ?e = "(if eneg then ''e-'' else ''e+'') @ ed"
  let ?t = "c # (if d2 \<noteq> [] then CHR ''.'' # d2 else []) @ ?e"
  have c: "IsAsciiDigit c" "dec_digits d2" using assms(1) by simp_all
  have s: "take_sign (sign_text neg @ ?t) = (neg, ?t)" using c(1) by (rule take_sign_digits)
  have w: "takeWhile IsAsciiDigit ?t = [c]" "dropWhile IsAsciiDigit ?t = (if d2 \<noteq> [] then CHR ''.'' # d2 else []) @ ?e"
    using c(1) by (auto split: if_splits)
  have "takeWhile IsAsciiDigit (d2 @ ?e) = d2" "dropWhile IsAsciiDigit (d2 @ ?e) = ?e"
    using takeWhile_digits [OF c(2), of ?e] by (auto split: if_splits)
  with ParseExponent_text [OF assms(2-4), of eneg] show ?thesis
    unfolding ParseBody_def s prod.case Let_def w by (cases "d2 = []") (auto split: if_splits)
qed

lemma repr_layout_parses:
  assumes lead: "leading D" and p: "- 324 < p" "p \<le> 310"
  shows "ParseBody (sign_text neg @ repr_layout D p) = Some (nearest neg (dec_val D p))"
proof -
  have D: "dec_digits D" "D \<noteq> []" using lead by (simp_all add: leading_def)
  let ?n = "int (length D)"
  have zeros: "dec_digits (replicate k (CHR ''0''))" for k by (induction k) simp_all
  consider (expo) "p \<le> - 4 \<or> p > 16" | (small) "\<not> (p \<le> - 4 \<or> p > 16)" "p \<le> 0"
    | (large) "\<not> (p \<le> - 4 \<or> p > 16)" "\<not> p \<le> 0" "?n \<le> p" | (mid) "\<not> (p \<le> - 4 \<or> p > 16)" "\<not> p \<le> 0" "\<not> ?n \<le> p" by linarith
  then show ?thesis
  proof cases
    case expo
    obtain c d2 where cd: "D = c # d2" using D(2) by (cases D) auto
    define n where "n = nat \<bar>p - 1\<bar>"
    define ed where "ed = (if length (dec_nat n) < 2 then ''0'' else []) @ dec_nat n"
    have "n < 10 ^ 3" using p by (simp add: n_def)
    then have "length (dec_nat n) \<le> 3" using dec_nat_padded [of n 3] by simp
    then have ed: "dec_digits ed" "ed \<noteq> []" "length ed \<le> 8" "digits_value ed = n"
      using dec_digits_dec_nat [of n] digits_value_append [of "''0''" "dec_nat n"]
      by (simp_all add: ed_def dec_digits_append digits_value_dec_nat digits_value_def [of "''0''"] of_char_def)
    have layout: "repr_layout D p = c # (if d2 \<noteq> [] then CHR ''.'' # d2 else []) @ (if p - 1 < 0 then ''e-'' else ''e+'') @ ed"
      using expo by (simp add: repr_layout_def Let_def cd ed_def n_def)
    have e: "(if p - 1 < 0 then - int (digits_value ed) else int (digits_value ed)) - int (length d2) = p - ?n"
      unfolding ed(4) by (simp add: n_def cd)
    show ?thesis unfolding layout ParseBody_exponent [OF D(1) [unfolded cd] ed(1-3)] e
      by (simp add: DecimalToDouble_nearest [OF D(1) [unfolded cd]] dec_val_def cd)
  next
    case small
    let ?z = "replicate (nat (- p)) (CHR ''0'')"
    have z: "dec_digits (?z @ D)" "dec_digits (''0'' @ ?z @ D)" using zeros D(1) by (simp_all add: dec_digits_append)
    have "repr_layout D p = ''0'' @ ''.'' @ (?z @ D)" using small by (simp add: repr_layout_def Let_def)
    moreover have "digits_value (''0'' @ ?z @ D) = digits_value D"
      by (simp only: digits_value_append digits_value_zeros) (simp add: digits_value_def of_char_def)
    moreover have "- int (length (?z @ D)) = p - ?n" using small by simp
    ultimately show ?thesis using ParseBody_point [of "''0''" "?z @ D" neg] z
      by (simp add: DecimalToDouble_nearest dec_val_def del: of_nat_add length_append)
  next
    case large
    let ?k = "nat (p - ?n)" let ?z = "replicate ?k (CHR ''0'')"
    have z: "dec_digits (D @ ?z)" "dec_digits ((D @ ?z) @ ''0'')" using zeros D(1) by (simp_all add: dec_digits_append)
    have "repr_layout D p = (D @ ?z) @ ''.'' @ ''0''" using large by (simp add: repr_layout_def Let_def)
    moreover have "digits_value ((D @ ?z) @ ''0'') = digits_value D * 10 ^ ?k * 10"
      by (simp only: digits_value_append digits_value_zeros) (simp add: digits_value_def of_char_def)
    then have "of_nat (digits_value ((D @ ?z) @ ''0'')) * pow10 (- 1) = dec_val D p"
      using large pow10_nat [of ?k] by (simp add: dec_val_def pow10_neg [of "- 1"])
    ultimately show ?thesis using ParseBody_point [of "D @ ?z" "''0''" neg] z D(2)
      by (simp add: DecimalToDouble_nearest del: digits_value_append append_assoc)
  next
    case mid
    let ?a = "take (nat p) D" and ?b = "drop (nat p) D"
    have "?a \<noteq> []" using mid D(2) by simp
    moreover have "- int (length ?b) = p - ?n" using mid by simp
    moreover have "repr_layout D p = ?a @ ''.'' @ ?b" using mid by (simp add: repr_layout_def Let_def)
    moreover have "dec_digits ?a" "dec_digits ?b" using D(1) by (rule dec_digits_parts)+
    ultimately show ?thesis using ParseBody_point [of ?a ?b neg]
      by (simp only: append_take_drop_id DecimalToDouble_nearest [OF D(1)] dec_val_def not_False_eq_True)
  qed
qed

lemma rounds_to_magnitude:
  assumes "rounds_to v D p" and "0 < v" shows "- 324 < p \<and> p \<le> 310"
proof -
  obtain c cs where cs: "D = c # cs" using assms(1) by (cases D) (auto simp: rounds_to_def leading_def)
  have D: "dec_digits D" "c \<noteq> CHR ''0''" "nearest False (dec_val D p) = Finite False v"
    using assms(1) cs by (auto simp: rounds_to_def leading_def)
  have low: "10 ^ (length D - 1) \<le> digits_value D" using digits_value_ge [of c cs] D cs by simp
  have "\<not> p > 310" using magnitude_overflow [OF low, of "p - int (length D)" False] D(3) cs by (auto simp: dec_val_def)
  moreover have "\<not> p \<le> - 324"
  proof
    assume "p \<le> - 324"
    then have "nearest False (dec_val D p) = Finite False 0"
      using digits_value_less [OF D(1)]
      by (intro magnitude_underflow [of "digits_value D" "length D" "p - int (length D)"]) (simp_all add: dec_val_def less_imp_le)
    with D(3) assms(2) show False by simp
  qed
  ultimately show ?thesis by simp
qed

text \<open>The text of a float has no character that \<^verbatim>\<open>float()\<close> strips, skips or refuses.\<close>

definition plain :: "char \<Rightarrow> bool" where
  "plain c \<longleftrightarrow> IsAsciiDigit c \<or> c \<in> set ''.eE+-infa''"

lemma plain_facts: "plain c \<Longrightarrow> \<not> IsPySpace c \<and> c \<noteq> CHR 0x00 \<and> c \<noteq> CHR ''_'' \<and> \<not> of_char c \<ge> (128 :: nat)"
  by (auto simp: plain_def IsAsciiDigit_def IsPySpace_def of_char_def)

lemma PyFloat_plain:
  assumes "list_all plain str" and "str \<noteq> []" shows "PyFloat str = Inr (ParseBody str)"
proof -
  obtain c cs where cs: "str = c # cs" using assms(2) by (cases str) auto
  have ok: "\<not> IsPySpace x" "x \<noteq> CHR 0x00" "x \<noteq> CHR ''_''" "\<not> of_char x \<ge> (128 :: nat)" if "x \<in> set str" for x
    using assms(1) that plain_facts [of x] by (auto simp: list_all_iff)
  have "dropWhile IsPySpace str = str" using ok(1) by (simp add: cs)
  moreover have "dropWhile IsPySpace (rev cs) = rev cs" using ok(1) [of "last cs"] by (cases cs rule: rev_cases) (auto simp: cs)
  ultimately have "strip_float str = Some str" by (simp add: strip_float_def cs)
  moreover have "CHR 0x00 \<notin> set str" "CHR ''_'' \<notin> set str" "\<not> list_ex (\<lambda>c. of_char c \<ge> (128 :: nat)) str"
    using ok(2-4) by (auto simp: list_ex_iff)
  ultimately show ?thesis by (simp add: PyFloat_def PyFloatAscii_def)
qed

lemma plain_digits: "dec_digits ds \<Longrightarrow> list_all plain ds"
  by (auto simp: list_all_iff plain_def dest: dec_digits_all)

lemma plain_chars: "list_all plain ''.''" "list_all plain ''0''" "list_all plain ''e-''" "list_all plain ''e+''" "list_all plain ''-''"
  by (simp_all add: plain_def)

lemma plain_repr_layout: "leading D \<Longrightarrow> list_all plain (repr_layout D p)"
proof -
  assume "leading D"
  then obtain c cs where D: "D = c # cs" "dec_digits (c # cs)" by (cases D) (auto simp: leading_def)
  have "list_all plain (replicate k (CHR ''0''))" for k by (induction k) (simp_all add: plain_def)
  moreover have "list_all plain (dec_nat k)" for k by (rule plain_digits [OF dec_digits_dec_nat])
  moreover have "list_all plain (take k D)" "list_all plain (drop k D)" "list_all plain D" "plain c" "list_all plain cs" for k
    using plain_digits [OF dec_digits_parts(1), of D k] plain_digits [OF dec_digits_parts(2), of D k] plain_digits [OF D(2)] D by auto
  ultimately show ?thesis using plain_chars by (auto simp: repr_layout_def Let_def D(1))
qed

text \<open>C22. \<^verbatim>\<open>float(repr(x))\<close> is \<^verbatim>\<open>x\<close> for every double, signed zeros, subnormal numbers, infinities and NaN
  included: the shortest digits \<^verbatim>\<open>PyReprFloat\<close> prints, in fixed or exponent notation, are read back
  by \<^verbatim>\<open>PyFloat\<close> as the same double.\<close>

theorem float_repr_round_trip:
  assumes "case x of Finite neg m \<Rightarrow> 0 \<le> m \<and> m < 2 ^ 1024 \<and> is_double m | _ \<Rightarrow> True"
  shows "PyFloat (PyReprFloat x) = Inr (Some x)"
proof (cases x)
  case (Finite neg m)
  show ?thesis
  proof (cases "m = 0")
    case True
    have "PyReprFloat x = sign_text neg @ ''0'' @ ''.'' @ ''0''" by (simp add: PyReprFloat_def Finite True sign_text_def)
    moreover have "ParseBody (sign_text neg @ ''0'' @ ''.'' @ ''0'') = Some (nearest neg 0)"
      by (subst ParseBody_point) (simp_all add: DecimalToDouble_nearest digits_value_def of_char_def)
    moreover have "list_all plain (sign_text neg @ ''0'' @ ''.'' @ ''0'')" using plain_chars by (simp add: sign_text_def)
    ultimately show ?thesis using PyFloat_plain by (simp add: Finite True nearest_0)
  next
    case False
    obtain D p where D: "ShortestDigits m = (D, p)" by fastforce
    have m: "0 < m" "m < pow2 1024" "is_double m"
      using assms False pow2_int [of 1024] by (simp_all only: Finite flt.case of_nat_power of_nat_numeral order.not_eq_order_implies_strict not_False_eq_True eq_commute)
    have r: "rounds_to m D p" by (rule ShortestDigits_rounds_to [OF m(1,3,2) D])
    then have lead: "leading D" and fl: "nearest neg (dec_val D p) = Finite neg m"
      by (auto simp: rounds_to_def nearest_def split: if_splits)
    have t: "PyReprFloat x = sign_text neg @ repr_layout D p" using False by (simp add: PyReprFloat_def Finite D sign_text_def)
    have "list_all plain (sign_text neg @ repr_layout D p)" using plain_repr_layout [OF lead] plain_chars by (simp add: sign_text_def)
    moreover have "sign_text neg @ repr_layout D p \<noteq> []" using lead by (auto simp: repr_layout_def Let_def leading_def)
    moreover have "ParseBody (sign_text neg @ repr_layout D p) = Some (Finite neg m)"
      using repr_layout_parses [OF lead] rounds_to_magnitude [OF r m(1)] fl by simp
    ultimately show ?thesis using PyFloat_plain t by (simp add: Finite)
  qed
next
  case (Infinity neg)
  have "list_all plain (PyReprFloat x)" "PyReprFloat x \<noteq> []" by (simp_all add: PyReprFloat_def Infinity plain_def)
  moreover have "ParseBody (PyReprFloat x) = Some x" by (cases neg) (simp_all add: PyReprFloat_def Infinity, code_simp+)
  ultimately show ?thesis by (simp add: PyFloat_plain)
next
  case NotANumber
  have "list_all plain (PyReprFloat x)" "PyReprFloat x \<noteq> []" by (simp_all add: PyReprFloat_def NotANumber plain_def)
  moreover have "ParseBody (PyReprFloat x) = Some x" by (simp add: PyReprFloat_def NotANumber) code_simp
  ultimately show ?thesis by (simp add: PyFloat_plain)
qed

theorem float_repr_witness: "PyFloat (PyReprFloat (Finite True (3 / 8))) = Inr (Some (Finite True (3 / 8)))"
proof (rule float_repr_round_trip)
  have "is_double (of_int 3 * pow2 (- 3))" unfolding is_double_def by (intro exI [of _ 3] exI [of _ "- 3"]) simp
  then have "is_double (3 / 8)" by (simp add: pow2_def)
  moreover have "(3 / 8 :: rat) < 2 ^ 1024" by (rule less_le_trans [of _ 1]) simp_all
  ultimately show "case Finite True (3 / 8) of Finite neg m \<Rightarrow> 0 \<le> m \<and> m < 2 ^ 1024 \<and> is_double m | _ \<Rightarrow> True" by simp
qed

end
