(* ===== verification/Json.thy ===== *)
theory Json
  imports FloatText Utf8
begin

text \<open>
  \<^verbatim>\<open>src/diff/Json.cpp\<close>: the JSON document type of the snapshot and trace formats, its accessors, the
  recursive descent parser and the writer. The parser is shown to return on every input with an error
  inside the text or a well-formed document, and to read back what the writer prints.

  The position of the parser is the part of the text that is left: \<^verbatim>\<open>Pos_\<close> is the length of the text
  minus the length of that part. The nesting depth is counted down: the argument \<open>k\<close> of \<open>ParseValue\<close> is
  \<^verbatim>\<open>kMaxJsonDepth - Depth\<close>. The two loops over the elements of an array and of an object carry a number of
  steps, the length of the text that is left plus one; that it is never used up is part of the
  theorems below.
\<close>

section \<open>Values and accessors\<close>

datatype JsonValue =
    JNull
  | JBool bool
  | JNumber string
  | JString string
  | JArray "JsonValue list"
  | JObject "(string \<times> JsonValue) list"

text \<open>\<^verbatim>\<open>JsonError\<close>: the message and the offset; \<^verbatim>\<open>kNoOffset\<close> is \<^term>\<open>None\<close>.\<close>

datatype JsonError = JsonError string "nat option"

type_synonym 'a json = "JsonError + 'a"

definition KindError :: "string \<Rightarrow> 'a json" where
  "KindError wanted = Inl (JsonError (''JSON value is not '' @ wanted) None)"

text \<open>\<^verbatim>\<open>JsonValue::Int\<close> and \<^verbatim>\<open>JsonValue::UInt\<close>\<close>

definition JInt :: "64 word \<Rightarrow> JsonValue" where
  "JInt value = JNumber (dec_int (sint value))"

definition JUInt :: "64 word \<Rightarrow> JsonValue" where
  "JUInt value = JNumber (dec_nat (unat value))"

definition digit_at :: "string \<Rightarrow> bool" where
  "digit_at s \<longleftrightarrow> s \<noteq> [] \<and> IsAsciiDigit (hd s)"

definition IsJsonNumberText :: "string \<Rightarrow> bool" where
  "IsJsonNumberText text =
     (let s = (case text of c # cs \<Rightarrow> if c = CHR ''-'' then cs else text | [] \<Rightarrow> [])
      in if \<not> digit_at s then False
         else
           (let s = (if hd s = CHR ''0'' then tl s else dropWhile IsAsciiDigit s);
                frac = s \<noteq> [] \<and> hd s = CHR ''.''
            in if frac \<and> \<not> digit_at (tl s) then False
               else
                 (let s = (if frac then dropWhile IsAsciiDigit (tl s) else s);
                      ex = s \<noteq> [] \<and> (hd s = CHR ''e'' \<or> hd s = CHR ''E'');
                      r = snd (take_sign (tl s))
                  in if ex then digit_at r \<and> dropWhile IsAsciiDigit r = [] else s = [])))"

definition AsBool :: "JsonValue \<Rightarrow> bool json" where
  "AsBool v = (case v of JBool b \<Rightarrow> Inr b | _ \<Rightarrow> KindError ''a boolean'')"

definition NumberText :: "JsonValue \<Rightarrow> string json" where
  "NumberText v = (case v of JNumber s \<Rightarrow> Inr s | _ \<Rightarrow> KindError ''a number'')"

definition IsIntegerText :: "JsonValue \<Rightarrow> bool" where
  "IsIntegerText v = (case v of JNumber s \<Rightarrow> s \<noteq> [] \<and> list_all (\<lambda>c. c \<notin> set ''.eENI'') s | _ \<Rightarrow> False)"

text \<open>\<^verbatim>\<open>std::from_chars\<close> of an integer type: an optional minus sign (signed types only), then the longest run of
  digits; \<^term>\<open>None\<close> is the error code, for no digits or a value out of range.\<close>

definition from_chars :: "bool \<Rightarrow> int \<Rightarrow> int \<Rightarrow> string \<Rightarrow> (int \<times> string) option" where
  "from_chars minus_ok lo hi s =
     (let neg = minus_ok \<and> s \<noteq> [] \<and> hd s = CHR ''-''; r = (if neg then tl s else s);
          ds = takeWhile IsAsciiDigit r; v = (if neg then - int (digits_value ds) else int (digits_value ds))
      in if ds = [] \<or> v < lo \<or> v > hi then None else Some (v, dropWhile IsAsciiDigit r))"

definition AsInt64 :: "JsonValue \<Rightarrow> 64 word json" where
  "AsInt64 v =
     (if \<not> IsIntegerText v then KindError ''an integer''
      else case v of
          JNumber s \<Rightarrow>
            (case from_chars True (- (2 ^ 63)) (2 ^ 63 - 1) s of
               Some (i, r) \<Rightarrow> if r = [] then Inr (of_int i) else Inl (JsonError (''integer out of int64 range: '' @ s) None)
             | None \<Rightarrow> Inl (JsonError (''integer out of int64 range: '' @ s) None))
        | _ \<Rightarrow> KindError ''an integer'')"

definition AsUInt64 :: "JsonValue \<Rightarrow> 64 word json" where
  "AsUInt64 v =
     (case v of
        JNumber s \<Rightarrow>
          if \<not> IsIntegerText v \<or> hd s = CHR ''-'' then KindError ''a non-negative integer''
          else
            (case from_chars False 0 (2 ^ 64 - 1) s of
               Some (i, r) \<Rightarrow> if r = [] then Inr (of_int i) else Inl (JsonError (''integer out of uint64 range: '' @ s) None)
             | None \<Rightarrow> Inl (JsonError (''integer out of uint64 range: '' @ s) None))
      | _ \<Rightarrow> KindError ''a non-negative integer'')"

text \<open>\<^verbatim>\<open>PyFloat\<close> raises on non-ASCII text only, which the number grammar excludes before it is called.\<close>

definition AsDouble :: "JsonValue \<Rightarrow> flt json" where
  "AsDouble v =
     (case v of
        JNumber s \<Rightarrow>
          if s = ''NaN'' then Inr NotANumber
          else if s = ''Infinity'' then Inr (Infinity False)
          else if s = ''-Infinity'' then Inr (Infinity True)
          else if \<not> IsJsonNumberText s then Inl (JsonError (''bad number: '' @ s) None)
          else (case PyFloat s of
                  Inr (Some x) \<Rightarrow> Inr x
                | _ \<Rightarrow> Inl (JsonError (''bad number: '' @ s) None))
      | _ \<Rightarrow> KindError ''a number'')"

definition AsString :: "JsonValue \<Rightarrow> string json" where
  "AsString v = (case v of JString s \<Rightarrow> Inr s | _ \<Rightarrow> KindError ''a string'')"

definition Items :: "JsonValue \<Rightarrow> JsonValue list json" where
  "Items v = (case v of JArray xs \<Rightarrow> Inr xs | _ \<Rightarrow> KindError ''an array'')"

definition Members :: "JsonValue \<Rightarrow> (string \<times> JsonValue) list json" where
  "Members v = (case v of JObject ms \<Rightarrow> Inr ms | _ \<Rightarrow> KindError ''an object'')"

definition Json_Find :: "JsonValue \<Rightarrow> string \<Rightarrow> JsonValue option" where
  "Json_Find v key = (case v of JObject ms \<Rightarrow> map_of ms key | _ \<Rightarrow> None)"

definition Json_At :: "JsonValue \<Rightarrow> string \<Rightarrow> JsonValue json" where
  "Json_At v key =
     (case Json_Find v key of
        Some x \<Rightarrow> Inr x
      | None \<Rightarrow> Inl (JsonError (''missing member '' @ [CHR 0x22] @ key @ [CHR 0x22]) None))"

text \<open>\<^term>\<open>AList.update\<close> replaces the value of the first member with the key in place, or appends.\<close>

definition Json_Set :: "JsonValue \<Rightarrow> string \<Rightarrow> JsonValue \<Rightarrow> JsonValue json" where
  "Json_Set v key val = (case v of JObject ms \<Rightarrow> Inr (JObject (AList.update key val ms)) | _ \<Rightarrow> KindError ''an object'')"

definition Json_Push :: "JsonValue \<Rightarrow> JsonValue \<Rightarrow> JsonValue json" where
  "Json_Push v val = (case v of JArray xs \<Rightarrow> Inr (JArray (xs @ [val])) | _ \<Rightarrow> KindError ''an array'')"

section \<open>The parser\<close>

text \<open>A failure carries the message and the text that was left; a loop that ran out of its steps is
  \<open>OutOfFuel\<close>.\<close>

datatype json_fail = Fail string string | OutOfFuel

type_synonym 'a parse = "json_fail + 'a \<times> string"

record JsonParseOptions =
  PythonCompat :: bool
  StrictControlChars :: bool

definition kMaxJsonDepth :: nat where "kMaxJsonDepth = 512"

definition AppendUtf8 :: "nat \<Rightarrow> string" where
  "AppendUtf8 cp =
     (if cp < 0x80 then [char_of cp]
      else if cp < 0x800 then [char_of (0xC0 OR drop_bit 6 cp), char_of (0x80 OR (cp AND 0x3F))]
      else if cp < 0x10000
      then [char_of (0xE0 OR drop_bit 12 cp), char_of (0x80 OR (drop_bit 6 cp AND 0x3F)), char_of (0x80 OR (cp AND 0x3F))]
      else [char_of (0xF0 OR drop_bit 18 cp), char_of (0x80 OR (drop_bit 12 cp AND 0x3F)),
            char_of (0x80 OR (drop_bit 6 cp AND 0x3F)), char_of (0x80 OR (cp AND 0x3F))])"

definition json_space :: "char \<Rightarrow> bool" where
  "json_space c \<longleftrightarrow> c = CHR '' '' \<or> c = CHR 0x09 \<or> c = CHR 0x0A \<or> c = CHR 0x0D"

definition SkipWhitespace :: "string \<Rightarrow> string" where
  "SkipWhitespace s = dropWhile json_space s"

definition Consume :: "string \<Rightarrow> string \<Rightarrow> string option" where
  "Consume lit s = (if take (length lit) s = lit then Some (drop (length lit) s) else None)"

definition take_fraction :: "string \<Rightarrow> string \<times> string" where
  "take_fraction s =
     (if s \<noteq> [] \<and> hd s = CHR ''.'' \<and> digit_at (tl s)
      then (CHR ''.'' # takeWhile IsAsciiDigit (tl s), dropWhile IsAsciiDigit (tl s)) else ([], s))"

definition sign_split :: "string \<Rightarrow> string \<times> string" where
  "sign_split s = (if s \<noteq> [] \<and> (hd s = CHR ''+'' \<or> hd s = CHR ''-'') then ([hd s], tl s) else ([], s))"

definition take_exponent :: "string \<Rightarrow> string \<times> string" where
  "take_exponent s =
     (if s \<noteq> [] \<and> (hd s = CHR ''e'' \<or> hd s = CHR ''E'')
      then (case sign_split (tl s) of (sg, r) \<Rightarrow>
              if digit_at r then (hd s # sg @ takeWhile IsAsciiDigit r, dropWhile IsAsciiDigit r) else ([], s))
      else ([], s))"

definition ParseNumber :: "string \<Rightarrow> JsonValue parse" where
  "ParseNumber s =
     (let (sg, s1) = (if s \<noteq> [] \<and> hd s = CHR ''-'' then ([hd s], tl s) else ([], s))
      in if s1 = [] then Inl (Fail ''Expecting value'' s1)
         else if \<not> IsAsciiDigit (hd s1) then Inl (Fail ''Expecting value'' s1)
         else
           (let (ip, s2) = (if hd s1 = CHR ''0'' then ([hd s1], tl s1) else (takeWhile IsAsciiDigit s1, dropWhile IsAsciiDigit s1));
                (fp, s3) = take_fraction s2;
                (ep, s4) = take_exponent s3
            in Inr (JNumber (sg @ ip @ fp @ ep), s4)))"

definition hex_digit :: "char \<Rightarrow> nat option" where
  "hex_digit c =
     (let b = of_char c :: nat
      in if 48 \<le> b \<and> b \<le> 57 then Some (b - 48)
         else if 97 \<le> b \<and> b \<le> 102 then Some (b - 97 + 10)
         else if 65 \<le> b \<and> b \<le> 70 then Some (b - 65 + 10)
         else None)"

definition kBadHex :: string where
  "kBadHex = ''Invalid '' @ [CHR 0x5C] @ ''uXXXX escape''"

primrec hex_loop :: "nat \<Rightarrow> nat \<Rightarrow> string \<Rightarrow> nat parse" where
  "hex_loop 0 v s = Inr (v, s)"
| "hex_loop (Suc n) v s =
     (case s of [] \<Rightarrow> Inl (Fail kBadHex [])
      | c # cs \<Rightarrow> (case hex_digit c of Some d \<Rightarrow> hex_loop n (16 * v + d) cs | None \<Rightarrow> Inl (Fail kBadHex cs)))"

definition ParseHex4 :: "string \<Rightarrow> nat parse" where
  "ParseHex4 s = (if length s < 4 then Inl (Fail kBadHex s) else hex_loop 4 0 s)"

definition simple_escape :: "char \<Rightarrow> char option" where
  "simple_escape c =
     map_of [(CHR 0x22, CHR 0x22), (CHR 0x5C, CHR 0x5C), (CHR ''/'', CHR ''/''), (CHR ''b'', CHR 0x08), (CHR ''f'', CHR 0x0C),
             (CHR ''n'', CHR 0x0A), (CHR ''r'', CHR 0x0D), (CHR ''t'', CHR 0x09)] c"

text \<open>After \<^verbatim>\<open>\u\<close>: one code unit, and a second one when the two are a surrogate pair. \<open>need\<close> is the bound on
  the text left at which the second one is looked for.\<close>

definition unicode_escape :: "nat \<Rightarrow> string \<Rightarrow> nat parse" where
  "unicode_escape need s =
     (case ParseHex4 s of
        Inl e \<Rightarrow> Inl e
      | Inr (cu, r) \<Rightarrow>
          if 0xD800 \<le> cu \<and> cu \<le> 0xDBFF \<and> need \<le> length r \<and> hd r = CHR 0x5C \<and> r ! 1 = CHR ''u''
          then (case ParseHex4 (drop 2 r) of
                  Inl e \<Rightarrow> Inl e
                | Inr (low, r2) \<Rightarrow>
                    if 0xDC00 \<le> low \<and> low \<le> 0xDFFF then Inr (0x10000 + (cu - 0xD800) * 2 ^ 10 + (low - 0xDC00), r2)
                    else Inr (cu, r))
          else Inr (cu, r))"

lemma hex_loop_length: "hex_loop n v s = Inr (w, r) \<Longrightarrow> length r + n = length s"
  by (induction n arbitrary: v s) (auto split: list.splits option.splits)

lemma ParseHex4_length: "ParseHex4 s = Inr (w, r) \<Longrightarrow> length r + 4 = length s"
  by (auto simp: ParseHex4_def dest: hex_loop_length split: if_splits)

lemma unicode_escape_length: "unicode_escape need s = Inr (w, r) \<Longrightarrow> length r < length s"
  by (fastforce simp: unicode_escape_def dest: ParseHex4_length split: sum.splits if_splits prod.splits)

definition emit :: "string \<Rightarrow> string parse \<Rightarrow> string parse" where
  "emit out p = (case p of Inl e \<Rightarrow> Inl e | Inr (s, r) \<Rightarrow> Inr (out @ s, r))"

text \<open>The loop of \<^verbatim>\<open>ParseString\<close>, after the opening quote.\<close>

function string_loop :: "bool \<Rightarrow> string \<Rightarrow> string parse" where
  "string_loop strict [] = Inl (Fail ''Unterminated string'' [])"
| "string_loop strict (c # cs) =
     (if c = CHR 0x22 then Inr ([], cs)
      else if c = CHR 0x5C
      then (case cs of
              [] \<Rightarrow> Inl (Fail ''Unterminated string'' [])
            | d # ds \<Rightarrow>
                if d = CHR ''u''
                then (case unicode_escape 6 ds of
                        Inl e \<Rightarrow> Inl e
                      | Inr (cp, r) \<Rightarrow> emit (AppendUtf8 cp) (string_loop strict r))
                else (case simple_escape d of
                        Some x \<Rightarrow> emit [x] (string_loop strict ds)
                      | None \<Rightarrow> Inl (Fail (''Invalid '' @ [CHR 0x5C] @ ''escape'') ds)))
      else if of_char c < (32 :: nat) \<and> strict then Inl (Fail ''Invalid control character'' (c # cs))
      else emit [c] (string_loop strict cs))"
  by pat_completeness auto
termination
  by (relation "measure (\<lambda>(_, s). length s)") (auto dest: unicode_escape_length)

definition ParseString :: "bool \<Rightarrow> string \<Rightarrow> string parse" where
  "ParseString strict s = string_loop strict (tl s)"

text \<open>The values that are not containers.\<close>

definition ParseScalar :: "JsonParseOptions \<Rightarrow> string \<Rightarrow> JsonValue parse" where
  "ParseScalar opts s =
     (if hd s = CHR 0x22
      then (case ParseString (StrictControlChars opts) s of Inl e \<Rightarrow> Inl e | Inr (str, r) \<Rightarrow> Inr (JString str, r))
      else case Consume ''null'' s of Some r \<Rightarrow> Inr (JNull, r) | None \<Rightarrow>
           case Consume ''true'' s of Some r \<Rightarrow> Inr (JBool True, r) | None \<Rightarrow>
           case Consume ''false'' s of Some r \<Rightarrow> Inr (JBool False, r) | None \<Rightarrow>
           case (if PythonCompat opts then Consume ''NaN'' s else None) of Some r \<Rightarrow> Inr (JNumber ''NaN'', r) | None \<Rightarrow>
           case (if PythonCompat opts then Consume ''Infinity'' s else None) of Some r \<Rightarrow> Inr (JNumber ''Infinity'', r) | None \<Rightarrow>
           case (if PythonCompat opts then Consume ''-Infinity'' s else None) of Some r \<Rightarrow> Inr (JNumber ''-Infinity'', r) | None \<Rightarrow>
           if hd s = CHR ''-'' \<or> IsAsciiDigit (hd s) then ParseNumber s
           else Inl (Fail ''Expecting value'' s))"

definition kExpectingComma :: string where
  "kExpectingComma = ''Expecting '' @ quote @ '','' @ quote @ '' delimiter''"

definition kExpectingColon :: string where
  "kExpectingColon = ''Expecting '' @ quote @ '':'' @ quote @ '' delimiter''"

definition kExpectingName :: string where
  "kExpectingName = ''Expecting property name enclosed in double quotes''"

definition kTooDeep :: string where
  "kTooDeep = ''nesting too deep (more than '' @ dec_nat kMaxJsonDepth @ '' levels)''"

primrec array_loop :: "nat \<Rightarrow> (string \<Rightarrow> JsonValue parse) \<Rightarrow> JsonValue list \<Rightarrow> string \<Rightarrow> JsonValue parse" where
  "array_loop 0 p items s = Inl OutOfFuel"
| "array_loop (Suc n) p items s =
     (case p (SkipWhitespace s) of
        Inl e \<Rightarrow> Inl e
      | Inr (v, r) \<Rightarrow>
          (case SkipWhitespace r of
             [] \<Rightarrow> Inl (Fail kExpectingComma [])
           | c # cs \<Rightarrow>
               if c = CHR '','' then array_loop n p (items @ [v]) cs
               else if c = CHR '']'' then Inr (JArray (items @ [v]), cs)
               else Inl (Fail kExpectingComma (c # cs))))"

definition ParseArray :: "(string \<Rightarrow> JsonValue parse) \<Rightarrow> string \<Rightarrow> JsonValue parse" where
  "ParseArray p s =
     (let s1 = SkipWhitespace (tl s)
      in if s1 \<noteq> [] \<and> hd s1 = CHR '']'' then Inr (JArray [], tl s1)
         else array_loop (Suc (length s1)) p [] s1)"

primrec object_loop :: "nat \<Rightarrow> bool \<Rightarrow> (string \<Rightarrow> JsonValue parse) \<Rightarrow> (string \<times> JsonValue) list \<Rightarrow> string \<Rightarrow> JsonValue parse" where
  "object_loop 0 strict p members s = Inl OutOfFuel"
| "object_loop (Suc n) strict p members s =
     (let s1 = SkipWhitespace s
      in if s1 = [] \<or> hd s1 \<noteq> CHR 0x22 then Inl (Fail kExpectingName s1)
         else case ParseString strict s1 of
             Inl e \<Rightarrow> Inl e
           | Inr (key, r) \<Rightarrow>
               (let r1 = SkipWhitespace r
                in if r1 = [] \<or> hd r1 \<noteq> CHR '':'' then Inl (Fail kExpectingColon r1)
                   else case p (SkipWhitespace (tl r1)) of
                       Inl e \<Rightarrow> Inl e
                     | Inr (v, r2) \<Rightarrow>
                         (case SkipWhitespace r2 of
                            [] \<Rightarrow> Inl (Fail kExpectingComma [])
                          | c # cs \<Rightarrow>
                              if c = CHR '','' then object_loop n strict p (AList.update key v members) cs
                              else if c = CHR ''}'' then Inr (JObject (AList.update key v members), cs)
                              else Inl (Fail kExpectingComma (c # cs)))))"

definition ParseObject :: "bool \<Rightarrow> (string \<Rightarrow> JsonValue parse) \<Rightarrow> string \<Rightarrow> JsonValue parse" where
  "ParseObject strict p s =
     (let s1 = SkipWhitespace (tl s)
      in if s1 \<noteq> [] \<and> hd s1 = CHR ''}'' then Inr (JObject [], tl s1)
         else object_loop (Suc (length s1)) strict p [] s1)"

primrec ParseValue :: "JsonParseOptions \<Rightarrow> nat \<Rightarrow> string \<Rightarrow> JsonValue parse" where
  "ParseValue opts 0 s =
     (if s = [] then Inl (Fail ''Expecting value'' s)
      else if hd s = CHR ''{'' \<or> hd s = CHR ''['' then Inl (Fail kTooDeep s)
      else ParseScalar opts s)"
| "ParseValue opts (Suc k) s =
     (if s = [] then Inl (Fail ''Expecting value'' s)
      else if hd s = CHR ''{'' then ParseObject (StrictControlChars opts) (ParseValue opts k) s
      else if hd s = CHR ''['' then ParseArray (ParseValue opts k) s
      else ParseScalar opts s)"

definition ParseDocument :: "JsonParseOptions \<Rightarrow> string \<Rightarrow> json_fail + JsonValue" where
  "ParseDocument opts text =
     (case ParseValue opts kMaxJsonDepth (SkipWhitespace text) of
        Inl e \<Rightarrow> Inl e
      | Inr (v, r) \<Rightarrow> (let r1 = SkipWhitespace r in if r1 = [] then Inr v else Inl (Fail ''Extra data'' r1)))"

text \<open>The result is \<^term>\<open>None\<close> when a loop ran out of steps.\<close>

definition JsonParse :: "JsonParseOptions \<Rightarrow> string \<Rightarrow> JsonValue json option" where
  "JsonParse opts text =
     (case ParseDocument opts text of
        Inr v \<Rightarrow> Some (Inr v)
      | Inl (Fail msg rest) \<Rightarrow> Some (Inl (JsonError msg (Some (length text - length rest))))
      | Inl OutOfFuel \<Rightarrow> None)"

section \<open>The writer\<close>

definition hex_char :: "nat \<Rightarrow> char" where
  "hex_char d = char_of (if d < 10 then 48 + d else 87 + d)"

definition quote_char :: "char \<Rightarrow> string" where
  "quote_char c =
     (if c = CHR 0x22 then [CHR 0x5C, CHR 0x22]
      else if c = CHR 0x5C then [CHR 0x5C, CHR 0x5C]
      else if c = CHR 0x0A then [CHR 0x5C, CHR ''n'']
      else if c = CHR 0x0D then [CHR 0x5C, CHR ''r'']
      else if c = CHR 0x09 then [CHR 0x5C, CHR ''t'']
      else if c = CHR 0x08 then [CHR 0x5C, CHR ''b'']
      else if c = CHR 0x0C then [CHR 0x5C, CHR ''f'']
      else if of_char c < (32 :: nat)
      then [CHR 0x5C, CHR ''u'', CHR ''0'', CHR ''0'', hex_char (of_char c div 16), hex_char (of_char c mod 16)]
      else [c])"

definition JsonQuote :: "string \<Rightarrow> string" where
  "JsonQuote str = [CHR 0x22] @ concat (map quote_char str) @ [CHR 0x22]"

definition NewLine :: "bool \<Rightarrow> nat \<Rightarrow> string" where
  "NewLine pretty level = (if pretty then CHR 0x0A # replicate (2 * level) (CHR '' '') else [])"

primrec commas :: "string list \<Rightarrow> string" where
  "commas [] = []"
| "commas (x # xs) = x @ concat (map ((#) (CHR '','')) xs)"

fun Write :: "bool \<Rightarrow> nat \<Rightarrow> JsonValue \<Rightarrow> string" where
  "Write pretty indent JNull = ''null''"
| "Write pretty indent (JBool b) = (if b then ''true'' else ''false'')"
| "Write pretty indent (JNumber s) = s"
| "Write pretty indent (JString s) = JsonQuote s"
| "Write pretty indent (JArray xs) =
     ''['' @ commas (map (\<lambda>v. NewLine pretty (indent + 1) @ Write pretty (indent + 1) v) xs)
     @ (if xs = [] then [] else NewLine pretty indent) @ '']''"
| "Write pretty indent (JObject ms) =
     ''{'' @ commas (map (\<lambda>(k, v). NewLine pretty (indent + 1) @ JsonQuote k @ (if pretty then '': '' else '':'')
                                    @ Write pretty (indent + 1) v) ms)
     @ (if ms = [] then [] else NewLine pretty indent) @ ''}''"

definition JsonWrite :: "bool \<Rightarrow> JsonValue \<Rightarrow> string" where
  "JsonWrite pretty v = Write pretty 0 v"

section \<open>Numbers\<close>

text \<open>Python's \<^verbatim>\<open>NUMBER_RE\<close>, \<^verbatim>\<open>-?(0|[1-9][0-9]*)(\.[0-9]+)?([eE][-+]?[0-9]+)?\<close>, by its four groups.\<close>

definition digits1 :: "string \<Rightarrow> bool" where
  "digits1 ds \<longleftrightarrow> ds \<noteq> [] \<and> list_all IsAsciiDigit ds"

definition int_part :: "string \<Rightarrow> bool" where
  "int_part ip \<longleftrightarrow> ip = ''0'' \<or> (digits1 ip \<and> hd ip \<noteq> CHR ''0'')"

definition frac_part :: "string \<Rightarrow> bool" where
  "frac_part fp \<longleftrightarrow> fp = [] \<or> (hd fp = CHR ''.'' \<and> fp \<noteq> [] \<and> digits1 (tl fp))"

definition exp_part :: "string \<Rightarrow> bool" where
  "exp_part ep \<longleftrightarrow> ep = [] \<or>
     (\<exists>e sg ds. ep = e # sg @ ds \<and> (e = CHR ''e'' \<or> e = CHR ''E'') \<and> (sg = [] \<or> sg = ''+'' \<or> sg = ''-'') \<and> digits1 ds)"

definition number_re :: "string \<Rightarrow> bool" where
  "number_re s \<longleftrightarrow>
     (\<exists>sg ip fp ep. s = sg @ ip @ fp @ ep \<and> (sg = [] \<or> sg = ''-'') \<and> int_part ip \<and> frac_part fp \<and> exp_part ep)"

text \<open>A text that cannot continue a number.\<close>

definition number_stop :: "string \<Rightarrow> bool" where
  "number_stop r \<longleftrightarrow> r = [] \<or> (\<not> IsAsciiDigit (hd r) \<and> hd r \<noteq> CHR ''.'' \<and> hd r \<noteq> CHR ''e'' \<and> hd r \<noteq> CHR ''E'')"

lemma digits_take:
  assumes "list_all IsAsciiDigit ds" and "\<not> digit_at r"
  shows "takeWhile IsAsciiDigit (ds @ r) = ds" "dropWhile IsAsciiDigit (ds @ r) = r"
proof -
  have "takeWhile IsAsciiDigit r = []" "dropWhile IsAsciiDigit r = r"
    using assms(2) by (cases r; simp add: digit_at_def)+
  then show "takeWhile IsAsciiDigit (ds @ r) = ds" "dropWhile IsAsciiDigit (ds @ r) = r"
    using assms(1) by (simp_all add: list_all_iff takeWhile_append2 dropWhile_append2)
qed

lemma digits1_takeWhile: "digit_at s \<Longrightarrow> digits1 (takeWhile IsAsciiDigit s)"
  by (cases s) (auto simp: digit_at_def digits1_def list_all_iff dest: set_takeWhileD)

lemma digit_at_append: "digits1 ds \<Longrightarrow> digit_at (ds @ r)"
  by (cases ds) (auto simp: digits1_def digit_at_def)

lemma digit_chars:
  "\<not> IsAsciiDigit (CHR ''-'')" "\<not> IsAsciiDigit (CHR ''+'')" "\<not> IsAsciiDigit (CHR ''.'')" "\<not> IsAsciiDigit (CHR ''e'')"
  "\<not> IsAsciiDigit (CHR ''E'')" "IsAsciiDigit (CHR ''0'')" "\<not> IsAsciiDigit (CHR '','')" "\<not> IsAsciiDigit (CHR '']'')" "\<not> IsAsciiDigit (CHR ''}'')"
  "\<not> IsAsciiDigit (CHR '' '')" "\<not> IsAsciiDigit (CHR 0x0A)" "\<not> IsAsciiDigit (CHR 0x22)" "\<not> IsAsciiDigit (CHR ''N'')" "\<not> IsAsciiDigit (CHR ''I'')"
  by (simp_all add: IsAsciiDigit_def)

lemma take_fraction_split: "take_fraction s = (fp, r) \<Longrightarrow> s = fp @ r \<and> frac_part fp"
  by (cases s) (auto simp: take_fraction_def frac_part_def digits1_takeWhile split: if_splits)

lemma take_exponent_split: "take_exponent s = (ep, r) \<Longrightarrow> s = ep @ r \<and> exp_part ep"
proof -
  assume *: "take_exponent s = (ep, r)"
  show ?thesis
  proof (cases "ep = []")
    case True
    with * show ?thesis by (auto simp: take_exponent_def exp_part_def split: if_splits prod.splits)
  next
    case False
    obtain e cs where s: "s = e # cs" "e = CHR ''e'' \<or> e = CHR ''E''"
      using * False by (cases s) (auto simp: take_exponent_def split: if_splits)
    obtain sg t where t: "sign_split cs = (sg, t)" by fastforce
    then have cs: "cs = sg @ t" "sg = [] \<or> sg = ''+'' \<or> sg = ''-''" by (cases cs; auto simp: sign_split_def split: if_splits)+
    have "digit_at t" "ep = e # sg @ takeWhile IsAsciiDigit t" "r = dropWhile IsAsciiDigit t"
      using * False s t by (auto simp: take_exponent_def split: if_splits)
    then show ?thesis using s cs digits1_takeWhile by (auto simp: exp_part_def)
  qed
qed

lemma ParseNumber_split:
  assumes "ParseNumber s = Inr (v, r)"
  obtains t where "v = JNumber t" and "s = t @ r" and "number_re t"
proof -
  define sg where "sg = (if s \<noteq> [] \<and> hd s = CHR ''-'' then [hd s] else [])"
  define s1 where "s1 = (if s \<noteq> [] \<and> hd s = CHR ''-'' then tl s else s)"
  define ip where "ip = (if hd s1 = CHR ''0'' then [hd s1] else takeWhile IsAsciiDigit s1)"
  define s2 where "s2 = (if hd s1 = CHR ''0'' then tl s1 else dropWhile IsAsciiDigit s1)"
  obtain fp s3 where f: "take_fraction s2 = (fp, s3)" by fastforce
  obtain ep s4 where e: "take_exponent s3 = (ep, s4)" by fastforce
  have sg: "s = sg @ s1" "sg = [] \<or> sg = ''-''" by (cases s; simp add: sg_def s1_def)+
  have s1: "s1 \<noteq> []" "IsAsciiDigit (hd s1)" and v: "v = JNumber (sg @ ip @ fp @ ep)" "r = s4"
    using assms f e by (auto simp: ParseNumber_def Let_def sg_def s1_def ip_def s2_def split: if_splits)
  then have ip: "s1 = ip @ s2" "int_part ip"
    using digits1_takeWhile [of s1] by (cases s1; auto simp: ip_def s2_def int_part_def digit_at_def)+
  have "number_re (sg @ ip @ fp @ ep)"
    using sg(2) ip(2) take_fraction_split [OF f] take_exponent_split [OF e] unfolding number_re_def by blast
  moreover have "s = (sg @ ip @ fp @ ep) @ r"
    using sg(1) ip(1) take_fraction_split [OF f] take_exponent_split [OF e] v(2) by simp
  ultimately show thesis using that v(1) by blast
qed

lemma number_stop_not_digit: "number_stop r \<Longrightarrow> \<not> digit_at r"
  by (auto simp: number_stop_def digit_at_def)

lemma exp_part_not_digit: "exp_part ep \<Longrightarrow> number_stop r \<Longrightarrow> \<not> digit_at (ep @ r) \<and> (ep @ r \<noteq> [] \<longrightarrow> hd (ep @ r) \<noteq> CHR ''.'')"
  by (auto simp: exp_part_def digit_at_def digit_chars number_stop_def)

lemma take_fraction_append:
  assumes "frac_part fp" and "\<not> digit_at s" and "s \<noteq> [] \<longrightarrow> hd s \<noteq> CHR ''.''"
  shows "take_fraction (fp @ s) = (fp, s)"
proof (cases "fp = []")
  case False
  then obtain ds where fp: "fp = CHR ''.'' # ds" "digits1 ds" using assms(1) by (cases fp) (auto simp: frac_part_def)
  then have "list_all IsAsciiDigit ds" by (simp add: digits1_def)
  note this [THEN digits_take(1), OF assms(2)] this [THEN digits_take(2), OF assms(2)]
  then show ?thesis using fp digit_at_append by (simp add: take_fraction_def)
qed (use assms(3) in \<open>auto simp: take_fraction_def\<close>)

lemma sign_split_append: "sg = [] \<or> sg = ''+'' \<or> sg = ''-'' \<Longrightarrow> digits1 ds \<Longrightarrow> sign_split (sg @ ds @ r) = (sg, ds @ r)"
  by (cases ds) (auto simp: sign_split_def digits1_def digit_chars)

lemma take_exponent_append:
  assumes "exp_part ep" and "number_stop r" shows "take_exponent (ep @ r) = (ep, r)"
proof (cases "ep = []")
  case False
  then obtain e sg ds where ep: "ep = e # sg @ ds" "e = CHR ''e'' \<or> e = CHR ''E''" "sg = [] \<or> sg = ''+'' \<or> sg = ''-''" "digits1 ds"
    using assms(1) by (auto simp: exp_part_def)
  moreover have "list_all IsAsciiDigit ds" using ep(4) by (simp add: digits1_def)
  note this [THEN digits_take(1), OF number_stop_not_digit [OF assms(2)]] this [THEN digits_take(2), OF number_stop_not_digit [OF assms(2)]]
  ultimately show ?thesis using sign_split_append [OF ep(3,4)] digit_at_append by (auto simp: take_exponent_def)
qed (use assms(2) in \<open>auto simp: take_exponent_def number_stop_def\<close>)

lemma int_part_first: "int_part ip \<Longrightarrow> ip \<noteq> [] \<and> IsAsciiDigit (hd ip)"
  by (cases ip) (auto simp: int_part_def digits1_def digit_chars)

lemma int_part_scan:
  assumes "int_part ip" and "\<not> digit_at s"
  shows "(if hd (ip @ s) = CHR ''0'' then ([hd (ip @ s)], tl (ip @ s)) else (takeWhile IsAsciiDigit (ip @ s), dropWhile IsAsciiDigit (ip @ s))) = (ip, s)"
  using assms digits_take [OF _ assms(2), of ip] by (cases ip) (auto simp: int_part_def digits1_def)

lemma ParseNumber_append:
  assumes "number_re t" and "number_stop r" shows "ParseNumber (t @ r) = Inr (JNumber t, r)"
proof -
  obtain sg ip fp ep where t: "t = sg @ ip @ fp @ ep" and sg: "sg = [] \<or> sg = ''-''"
    and parts: "int_part ip" "frac_part fp" "exp_part ep"
    using assms(1) by (auto simp: number_re_def)
  have ip: "ip \<noteq> []" "IsAsciiDigit (hd ip)" using int_part_first [OF parts(1)] by blast+
  then have neg: "hd ip \<noteq> CHR ''-''" using digit_chars(1) by metis
  have e: "\<not> digit_at (ep @ r)" "ep @ r \<noteq> [] \<longrightarrow> hd (ep @ r) \<noteq> CHR ''.''" using exp_part_not_digit [OF parts(3) assms(2)] by blast+
  have f: "\<not> digit_at (fp @ ep @ r)" using parts(2) e(1) by (cases fp) (auto simp: frac_part_def digit_at_def digit_chars)
  have "(if t @ r \<noteq> [] \<and> hd (t @ r) = CHR ''-'' then ([hd (t @ r)], tl (t @ r)) else ([], t @ r)) = (sg, ip @ fp @ ep @ r)"
    using sg ip neg by (auto simp: t)
  moreover have "ip @ fp @ ep @ r \<noteq> []" "IsAsciiDigit (hd (ip @ fp @ ep @ r))" using ip by simp_all
  ultimately show ?thesis
    by (simp only: ParseNumber_def Let_def prod.case int_part_scan [OF parts(1) f] take_fraction_append [OF parts(2) e]
        take_exponent_append [OF parts(3) assms(2)] if_False not_True_eq_False t)
qed

lemma IsJsonNumberText_ParseNumber: "IsJsonNumberText t \<longleftrightarrow> (case ParseNumber t of Inr (v, r) \<Rightarrow> r = [] | Inl e \<Rightarrow> False)"
proof -
  define s where "s = (if t \<noteq> [] \<and> hd t = CHR ''-'' then tl t else t)"
  define s2 where "s2 = (if hd s = CHR ''0'' then tl s else dropWhile IsAsciiDigit s)"
  have e: "snd (take_exponent u) = [] \<longleftrightarrow>
      (if u \<noteq> [] \<and> (hd u = CHR ''e'' \<or> hd u = CHR ''E'')
       then digit_at (snd (take_sign (tl u))) \<and> dropWhile IsAsciiDigit (snd (take_sign (tl u))) = [] else u = [])" for u
  proof -
    have "snd (take_sign w) = snd (sign_split w)" for w by (cases w) (auto simp: take_sign_def sign_split_def)
    then show ?thesis by (auto simp: take_exponent_def split: prod.splits)
  qed
  have f: "snd (take_fraction u) = (if u \<noteq> [] \<and> hd u = CHR ''.'' \<and> digit_at (tl u) then dropWhile IsAsciiDigit (tl u) else u)" for u
    by (simp add: take_fraction_def)
  have 1: "IsJsonNumberText t \<longleftrightarrow> digit_at s \<and> \<not> (s2 \<noteq> [] \<and> hd s2 = CHR ''.'' \<and> \<not> digit_at (tl s2)) \<and> snd (take_exponent (snd (take_fraction s2))) = []"
  proof -
    have "(case t of c # cs \<Rightarrow> if c = CHR ''-'' then cs else t | [] \<Rightarrow> []) = s" by (cases t) (simp_all add: s_def)
    then show ?thesis unfolding IsJsonNumberText_def e f by (simp add: Let_def s2_def [symmetric]) blast
  qed
  have 2: "(case ParseNumber t of Inr (v, r) \<Rightarrow> r = [] | Inl e \<Rightarrow> False) \<longleftrightarrow> digit_at s \<and> snd (take_exponent (snd (take_fraction s2))) = []"
  proof -
    obtain sg where sg: "(if t \<noteq> [] \<and> hd t = CHR ''-'' then ([hd t], tl t) else ([], t)) = (sg, s)" by (cases "t \<noteq> [] \<and> hd t = CHR ''-''") (auto simp: s_def)
    obtain ip where ip: "(if hd s = CHR ''0'' then ([hd s], tl s) else (takeWhile IsAsciiDigit s, dropWhile IsAsciiDigit s)) = (ip, s2)"
      by (cases "hd s = CHR ''0''") (auto simp: s2_def)
    show ?thesis unfolding ParseNumber_def Let_def digit_at_def sg prod.case ip by (auto split: prod.splits)
  qed
  have "snd (take_exponent (snd (take_fraction s2))) \<noteq> []" if "s2 \<noteq> []" "hd s2 = CHR ''.''" "\<not> digit_at (tl s2)"
    using that by (simp add: take_fraction_def take_exponent_def)
  then show ?thesis unfolding 1 2 by blast
qed

lemma IsJsonNumberText_number_re: "IsJsonNumberText t \<longleftrightarrow> number_re t"
proof
  assume "IsJsonNumberText t"
  then obtain v where "ParseNumber t = Inr (v, [])" by (auto simp: IsJsonNumberText_ParseNumber split: sum.splits)
  then show "number_re t" by (metis ParseNumber_split append_Nil2)
next
  assume "number_re t"
  then show "IsJsonNumberText t" using ParseNumber_append [of t "[]"] by (simp add: IsJsonNumberText_ParseNumber number_stop_def)
qed

section \<open>Well-formed documents\<close>

text \<open>What the parser may return: at most \<open>k\<close> levels of containers, number texts of the grammar (or one of
  Python's three constants), no repeated member name.\<close>

definition number_ok :: "bool \<Rightarrow> string \<Rightarrow> bool" where
  "number_ok py s \<longleftrightarrow> IsJsonNumberText s \<or> (py \<and> (s = ''NaN'' \<or> s = ''Infinity'' \<or> s = ''-Infinity''))"

fun json_ok :: "bool \<Rightarrow> nat \<Rightarrow> JsonValue \<Rightarrow> bool" where
  "json_ok py k JNull = True"
| "json_ok py k (JBool b) = True"
| "json_ok py k (JNumber s) = number_ok py s"
| "json_ok py k (JString s) = True"
| "json_ok py k (JArray xs) = (0 < k \<and> (\<forall>x \<in> set xs. json_ok py (k - 1) x))"
| "json_ok py k (JObject ms) = (0 < k \<and> distinct (map fst ms) \<and> (\<forall>m \<in> set ms. json_ok py (k - 1) (snd m)))"

text \<open>The contract of a parser: it always comes to an end, it consumes input when it succeeds, it fails
  inside the text, and its result satisfies \<open>ok\<close>.\<close>

locale json_parser =
  fixes p :: "string \<Rightarrow> 'a parse" and ok :: "'a \<Rightarrow> bool"
  assumes consumes: "p s = Inr (v, r) \<Longrightarrow> strict_suffix r s"
    and sound: "p s = Inr (v, r) \<Longrightarrow> ok v"
    and fails: "p s = Inl e \<Longrightarrow> \<exists>msg r. e = Fail msg r \<and> suffix r s"

lemma suffix_SkipWhitespace: "suffix (SkipWhitespace s) s"
  by (simp add: SkipWhitespace_def suffix_dropWhile)

lemma SkipWhitespace_Cons: "SkipWhitespace s = c # cs \<Longrightarrow> strict_suffix cs s"
proof -
  assume "SkipWhitespace s = c # cs"
  then obtain zs where "s = zs @ c # cs" using suffix_SkipWhitespace [of s] by (auto simp: suffix_def)
  then show ?thesis by (auto simp: strict_suffix_def suffix_def)
qed

lemma strict_suffix_length: "strict_suffix r s \<Longrightarrow> length r < length s"
  by (auto simp: strict_suffix_def suffix_def)

lemmas suffix_rules = suffix_order.order_trans suffix_order.le_less_trans suffix_order.less_le_trans
  suffix_order.less_imp_le suffix_SkipWhitespace

text \<open>A parse that ends inside the text \<open>s\<close>.\<close>

definition inside :: "string \<Rightarrow> 'a parse \<Rightarrow> bool" where
  "inside s p \<longleftrightarrow> (case p of Inr (v, r) \<Rightarrow> suffix r s | Inl e \<Rightarrow> (\<exists>msg r. e = Fail msg r \<and> suffix r s))"

lemma inside_simps [simp]:
  "inside s (Inr (v, r)) \<longleftrightarrow> suffix r s" "inside s (Inl (Fail msg r)) \<longleftrightarrow> suffix r s" "\<not> inside s (Inl OutOfFuel)"
  by (simp_all add: inside_def)

lemma inside_Inl: "inside s (Inl e) \<longleftrightarrow> (\<exists>msg r. e = Fail msg r \<and> suffix r s)"
  by (simp add: inside_def)

lemma inside_mono: "inside s p \<Longrightarrow> suffix s u \<Longrightarrow> inside u p"
  by (auto simp: inside_def split: sum.splits dest: suffix_rules(1))

lemma inside_emit: "inside s p \<Longrightarrow> suffix s u \<Longrightarrow> inside u (emit out p)"
  by (auto simp: inside_def emit_def split: sum.splits dest: suffix_rules(1))

lemma hex_loop_suffix: "inside s (hex_loop n v s)"
proof (induction n arbitrary: v s)
  case (Suc n)
  show ?case
  proof (cases s)
    case (Cons c cs)
    show ?thesis
    proof (cases "hex_digit c")
      case (Some d)
      then show ?thesis using inside_mono [OF Suc] by (simp add: Cons suffix_Cons)
    qed (simp add: Cons suffix_Cons)
  qed simp
qed simp

lemma ParseHex4_suffix: "inside s (ParseHex4 s)"
  using hex_loop_suffix [of s 4 0] by (simp add: ParseHex4_def)

lemma unicode_escape_suffix:
  "inside s (unicode_escape need s)"
proof (cases "ParseHex4 s")
  case (Inl e)
  then show ?thesis using ParseHex4_suffix [of s] by (simp add: unicode_escape_def)
next
  case (Inr vr)
  then obtain cu r where r: "ParseHex4 s = Inr (cu, r)" "suffix r s" using ParseHex4_suffix [of s] by (cases vr) auto
  have "suffix (drop 2 r) s" using r(2) suffix_drop suffix_rules(1) by blast
  then have "inside s (ParseHex4 (drop 2 r))" by (rule inside_mono [OF ParseHex4_suffix])
  then show ?thesis using r by (auto simp: unicode_escape_def split: sum.splits)
qed

lemma string_loop_suffix:
  "inside s (string_loop strict s)"
proof (induction strict s rule: string_loop.induct)
  case (2 strict c cs)
  show ?case
  proof (cases "c = CHR 0x5C")
    case False
    then show ?thesis using inside_emit [OF "2.IH"(3), of "c # cs" "[c]"] by (simp add: suffix_Cons)
  next
    case True
    show ?thesis
    proof (cases cs)
      case (Cons d ds)
      have cs: "suffix ds (c # cs)" by (simp add: Cons suffix_Cons)
      show ?thesis
      proof (cases "d = CHR ''u''")
        case False
        show ?thesis
        proof (cases "simple_escape d")
          case (Some x)
          then show ?thesis using inside_emit [OF "2.IH"(2) [OF _ True Cons False Some] cs] True Cons False by simp
        qed (use True False cs Cons in simp)
      next
        case u: True
        show ?thesis
        proof (cases "unicode_escape 6 ds")
          case (Inl e)
          then show ?thesis using inside_mono [OF unicode_escape_suffix [of ds 6] cs] True u Cons by (simp add: inside_Inl)
        next
          case (Inr vr)
          obtain cp r where r: "unicode_escape 6 ds = Inr (cp, r)" using Inr by (cases vr) auto
          then have "suffix r (c # cs)" using inside_mono [OF unicode_escape_suffix [of ds 6] cs] by simp
          then show ?thesis using inside_emit [OF "2.IH"(1) [OF _ True Cons u r]] True Cons u r by simp
        qed
      qed
    qed (simp add: True)
  qed
qed simp

lemma ParseString_inside: "s \<noteq> [] \<Longrightarrow> inside s (ParseString strict s)"
  using inside_mono [OF string_loop_suffix suffix_tl] by (simp add: ParseString_def)

text \<open>The parser of the elements of a container, or of the members.\<close>

locale value_parser = json_parser p ok for p :: "string \<Rightarrow> JsonValue parse" and ok
begin

lemma element:
  assumes "p (SkipWhitespace s) = Inr (v, r)" and "SkipWhitespace r = c # cs"
  shows "strict_suffix cs s" "suffix (c # cs) s" "ok v"
  using consumes [OF assms(1)] sound [OF assms(1)] SkipWhitespace_Cons [OF assms(2)] suffix_SkipWhitespace [of r] suffix_SkipWhitespace [of s] assms(2)
  by (metis suffix_rules(1-4))+

lemma element_fails: "p (SkipWhitespace s) = Inl e \<Longrightarrow> inside s (Inl e)"
  using fails [of "SkipWhitespace s" e] suffix_SkipWhitespace [of s] suffix_rules(1) by (auto simp: inside_Inl)

lemma array_loop_contract:
  assumes "length s < n" and "list_all ok items"
  shows "inside s (array_loop n p items s) \<and>
         (\<forall>v r. array_loop n p items s = Inr (v, r) \<longrightarrow> strict_suffix r s \<and> (\<exists>xs. v = JArray xs \<and> list_all ok xs))"
  using assms
proof (induction n arbitrary: items s)
  case (Suc n)
  show ?case
  proof (cases "p (SkipWhitespace s)")
    case (Inl e)
    then show ?thesis using element_fails [OF Inl] by (simp add: inside_Inl)
  next
    case (Inr vr)
    obtain v r where p: "p (SkipWhitespace s) = Inr (v, r)" using Inr by (cases vr) auto
    show ?thesis
    proof (cases "SkipWhitespace r")
      case (Cons c cs)
      note e = element [OF p Cons]
      have "length cs < n" using strict_suffix_length [OF e(1)] Suc.prems(1) by simp
      from Suc.IH [OF this, of "items @ [v]"] Suc.prems(2) e show ?thesis
        by (auto simp: p Cons dest: suffix_rules(1-4) inside_mono)
    qed (simp add: p)
  qed
qed simp

lemma ParseArray_contract:
  "inside s (ParseArray p s) \<and> (\<forall>v r. ParseArray p s = Inr (v, r) \<longrightarrow> suffix r (tl s) \<and> (\<exists>xs. v = JArray xs \<and> list_all ok xs))"
proof -
  let ?s = "SkipWhitespace (tl s)"
  have sub: "suffix ?s (tl s)" "suffix (tl s) s" "suffix (tl ?s) ?s" by (simp_all add: suffix_SkipWhitespace suffix_tl)
  have t: "suffix (tl ?s) (tl s)" "suffix (tl ?s) s" using sub suffix_rules(1) by blast+
  have c: "inside ?s (array_loop (Suc (length ?s)) p [] ?s) \<and>
      (\<forall>v r. array_loop (Suc (length ?s)) p [] ?s = Inr (v, r) \<longrightarrow> strict_suffix r ?s \<and> (\<exists>xs. v = JArray xs \<and> list_all ok xs))"
    by (rule array_loop_contract) simp_all
  have "inside s (array_loop (Suc (length ?s)) p [] ?s)" using c sub by (blast intro: inside_mono suffix_rules(1))
  then show ?thesis using c sub t
    by (auto simp: ParseArray_def Let_def simp del: array_loop.simps dest: suffix_rules(4) intro: suffix_rules(1))
qed

lemma object_loop_contract:
  assumes "length s < n" and "list_all (\<lambda>m. ok (snd m)) members" and "distinct (keys members)"
  shows "inside s (object_loop n strict p members s) \<and>
         (\<forall>v r. object_loop n strict p members s = Inr (v, r) \<longrightarrow>
            strict_suffix r s \<and> (\<exists>ms. v = JObject ms \<and> list_all (\<lambda>m. ok (snd m)) ms \<and> distinct (keys ms)))"
  using assms
proof (induction n arbitrary: members s)
  case (Suc n)
  let ?s = "SkipWhitespace s"
  have sub: "suffix ?s s" by (rule suffix_SkipWhitespace)
  show ?case
  proof (cases "?s = [] \<or> hd ?s \<noteq> CHR 0x22")
    case True
    then show ?thesis using sub by (auto simp: Let_def)
  next
    case start: False
    show ?thesis
    proof (cases "ParseString strict ?s")
      case (Inl e)
      have "inside s (Inl e :: string parse)" using inside_mono [OF ParseString_inside sub, of strict] Inl start by (simp add: inside_Inl)
      then show ?thesis using start Inl by (simp add: Let_def inside_Inl)
    next
      case (Inr kr)
      obtain key r where k: "ParseString strict ?s = Inr (key, r)" using Inr by (cases kr) auto
      let ?r = "SkipWhitespace r"
      have r: "suffix r s" using inside_mono [OF ParseString_inside sub, of strict] k start by simp
      then have r1: "suffix ?r s" using suffix_SkipWhitespace suffix_rules(1) by blast
      show ?thesis
      proof (cases "?r = [] \<or> hd ?r \<noteq> CHR '':''")
        case True
        then show ?thesis using start k r1 by (auto simp: Let_def)
      next
        case colon: False
        have r2: "suffix (tl ?r) s" using r1 suffix_tl suffix_rules(1) by blast
        show ?thesis
        proof (cases "p (SkipWhitespace (tl ?r))")
          case (Inl e)
          then show ?thesis using element_fails [OF Inl] inside_mono [OF _ r2, of "Inl e"] start k colon by (auto simp: Let_def inside_Inl)
        next
          case (Inr vr)
          obtain v t where v: "p (SkipWhitespace (tl ?r)) = Inr (v, t)" using Inr by (cases vr) auto
          show ?thesis
          proof (cases "SkipWhitespace t")
            case (Cons c cs)
            note e = element [OF v Cons]
            have cs: "strict_suffix cs s" "suffix (c # cs) s" using e(1,2) r2 by (blast intro: suffix_rules)+
            have "length cs < n" using strict_suffix_length [OF cs(1)] Suc.prems(1) by simp
            moreover have "list_all (\<lambda>m. ok (snd m)) (AList.update key v members)"
              using Suc.prems(2) e(3) by (induction members) auto
            ultimately have "inside cs (object_loop n strict p (AList.update key v members) cs) \<and>
                (\<forall>w r. object_loop n strict p (AList.update key v members) cs = Inr (w, r) \<longrightarrow>
                  strict_suffix r cs \<and> (\<exists>ms. w = JObject ms \<and> list_all (\<lambda>m. ok (snd m)) ms \<and> distinct (keys ms)))"
              using Suc.prems(3) by (intro Suc.IH) simp_all
            moreover note \<open>list_all (\<lambda>m. ok (snd m)) (AList.update key v members)\<close>
            ultimately show ?thesis using Suc.prems(3) cs start k colon v Cons
              by (auto simp: Let_def dest: suffix_rules(2-4) inside_mono)
          qed (use start k colon v in \<open>auto simp: Let_def\<close>)
        qed
      qed
    qed
  qed
qed simp

lemma ParseObject_contract:
  "inside s (ParseObject strict p s) \<and>
   (\<forall>v r. ParseObject strict p s = Inr (v, r) \<longrightarrow> suffix r (tl s) \<and> (\<exists>ms. v = JObject ms \<and> list_all (\<lambda>m. ok (snd m)) ms \<and> distinct (keys ms)))"
proof -
  let ?s = "SkipWhitespace (tl s)"
  have sub: "suffix ?s (tl s)" "suffix (tl s) s" "suffix (tl ?s) ?s" by (simp_all add: suffix_SkipWhitespace suffix_tl)
  have t: "suffix (tl ?s) (tl s)" "suffix (tl ?s) s" using sub suffix_rules(1) by blast+
  have c: "inside ?s (object_loop (Suc (length ?s)) strict p [] ?s) \<and>
      (\<forall>v r. object_loop (Suc (length ?s)) strict p [] ?s = Inr (v, r) \<longrightarrow>
         strict_suffix r ?s \<and> (\<exists>ms. v = JObject ms \<and> list_all (\<lambda>m. ok (snd m)) ms \<and> distinct (keys ms)))"
    by (rule object_loop_contract) simp_all
  have "inside s (object_loop (Suc (length ?s)) strict p [] ?s)" using c sub by (blast intro: inside_mono suffix_rules(1))
  then show ?thesis using c sub t
    by (auto simp: ParseObject_def Let_def simp del: object_loop.simps dest: suffix_rules(4) intro: suffix_rules(1))
qed

end

lemma Consume_Some: "Consume lit s = Some r \<longleftrightarrow> s = lit @ r"
  by (auto simp: Consume_def) (metis append_take_drop_id)

lemma Consume_None: "Consume lit s = None \<longleftrightarrow> \<not> prefix lit s"
  by (auto simp: Consume_def prefix_def) (metis append_take_drop_id)

lemma ParseNumber_inside: "inside s (ParseNumber s) \<and> (\<forall>v r. ParseNumber s = Inr (v, r) \<longrightarrow> strict_suffix r s \<and> json_ok py k v)"
proof (cases "ParseNumber s")
  case (Inl e)
  then have "\<exists>msg. e = Fail msg (if s \<noteq> [] \<and> hd s = CHR ''-'' then tl s else s)"
    by (auto simp: ParseNumber_def Let_def split: if_splits prod.splits)
  then show ?thesis using suffix_tl [of s] by (auto simp: Inl)
next
  case (Inr vr)
  then obtain v r where p: "ParseNumber s = Inr (v, r)" by (cases vr) auto
  then obtain t where t: "v = JNumber t" "s = t @ r" "number_re t" by (rule ParseNumber_split)
  have "t \<noteq> []" using t(3) int_part_first by (auto simp: number_re_def)
  then show ?thesis using p t by (auto simp: strict_suffix_def suffix_def number_ok_def IsJsonNumberText_number_re)
qed

lemma ParseScalar_inside:
  assumes "s \<noteq> []"
  shows "inside s (ParseScalar opts s) \<and> (\<forall>v r. ParseScalar opts s = Inr (v, r) \<longrightarrow> strict_suffix r s \<and> json_ok (PythonCompat opts) k v)"
proof (cases "hd s = CHR 0x22")
  case True
  have "strict_suffix r s" if "ParseString strict s = Inr (v, r)" for strict v r
    using that string_loop_suffix [of "tl s" strict] assms by (cases s) (auto simp: ParseString_def strict_suffix_def suffix_def)
  then show ?thesis using ParseString_inside [OF assms, of "StrictControlChars opts"] True
    by (auto simp: ParseScalar_def inside_Inl split: sum.splits)
next
  case False
  have lit: "suffix r s" "lit \<noteq> [] \<Longrightarrow> strict_suffix r s" if "Consume lit s = Some r" for lit r
    using that by (auto simp: Consume_Some strict_suffix_def suffix_def)
  show ?thesis using False ParseNumber_inside [of s "PythonCompat opts" k] lit
    by (auto simp: ParseScalar_def number_ok_def split: option.splits if_splits)
qed

lemma value_parser_ParseValue: "value_parser (ParseValue opts k) (json_ok (PythonCompat opts) k)"
proof (induction k)
  case 0
  show ?case
  proof
    fix s r v e
    show "strict_suffix r s" if "ParseValue opts 0 s = Inr (v, r)"
      using that ParseScalar_inside [of s opts 0] by (auto split: if_splits)
    show "json_ok (PythonCompat opts) 0 v" if "ParseValue opts 0 s = Inr (v, r)"
      using that ParseScalar_inside [of s opts 0] by (auto split: if_splits)
    show "\<exists>msg r. e = Fail msg r \<and> suffix r s" if "ParseValue opts 0 s = Inl e"
      using that ParseScalar_inside [of s opts 0] by (auto simp: inside_Inl split: if_splits)
  qed
next
  case (Suc k)
  note a = value_parser.ParseArray_contract [OF Suc] and o = value_parser.ParseObject_contract [OF Suc]
  have tl: "strict_suffix r s" if "suffix r (tl s)" "s \<noteq> []" for r s :: string
    using that by (cases s) (auto simp: strict_suffix_def suffix_def)
  have contract: "inside s (ParseValue opts (Suc k) s) \<and>
      (\<forall>v r. ParseValue opts (Suc k) s = Inr (v, r) \<longrightarrow> strict_suffix r s \<and> json_ok (PythonCompat opts) (Suc k) v)" if "s \<noteq> []" for s
  proof -
    have ja: "json_ok py (Suc k) (JArray xs)" if "list_all (json_ok py k) xs" for py xs using that by (simp add: list_all_iff)
    have jo: "json_ok py (Suc k) (JObject ms)" if "list_all (\<lambda>m. json_ok py k (snd m)) ms" "distinct (keys ms)" for py ms
      using that by (simp add: list_all_iff)
    consider "hd s = CHR ''{''" | "hd s = CHR ''[''" | "hd s \<noteq> CHR ''{''" "hd s \<noteq> CHR ''[''" by blast
    then show ?thesis
    proof cases
      case 1
      then have "ParseValue opts (Suc k) s = ParseObject (StrictControlChars opts) (ParseValue opts k) s" using that by simp
      then show ?thesis using o [of s "StrictControlChars opts"] tl [OF _ that] jo by auto
    next
      case 2
      then have "ParseValue opts (Suc k) s = ParseArray (ParseValue opts k) s" using that by simp
      then show ?thesis using a [of s] tl [OF _ that] ja by auto
    next
      case 3
      then have "ParseValue opts (Suc k) s = ParseScalar opts s" using that by simp
      then show ?thesis using ParseScalar_inside [OF that, of opts "Suc k"] by simp
    qed
  qed
  show ?case
  proof
    fix s r v e
    show "strict_suffix r s" if "ParseValue opts (Suc k) s = Inr (v, r)"
      using that contract [of s] by (cases "s = []") auto
    show "json_ok (PythonCompat opts) (Suc k) v" if "ParseValue opts (Suc k) s = Inr (v, r)"
      using that contract [of s] by (cases "s = []") auto
    show "\<exists>msg r. e = Fail msg r \<and> suffix r s" if "ParseValue opts (Suc k) s = Inl e"
      using that contract [of s] by (cases "s = []") (auto simp: inside_Inl)
  qed
qed

interpretation doc: value_parser "ParseValue opts k" "json_ok (PythonCompat opts) k"
  by (rule value_parser_ParseValue)

text \<open>C26. \<^verbatim>\<open>JsonParse\<close> returns on every text: either a document of at most \<^verbatim>\<open>kMaxJsonDepth\<close> levels of nesting, whose
  numbers match the number grammar (or are the constants of the compatible mode) and whose objects have no repeated
  key, or an error whose offset lies within the text.\<close>

theorem json_parse_total:
  "case JsonParse opts text of
     Some (Inr v) \<Rightarrow> json_ok (PythonCompat opts) kMaxJsonDepth v
   | Some (Inl (JsonError msg pos)) \<Rightarrow> (\<exists>n \<le> length text. pos = Some n)
   | None \<Rightarrow> False"
proof (cases "ParseValue opts kMaxJsonDepth (SkipWhitespace text)")
  case (Inl e)
  then show ?thesis using doc.fails [OF Inl] by (auto simp: JsonParse_def ParseDocument_def)
next
  case (Inr vr)
  obtain v r where p: "ParseValue opts kMaxJsonDepth (SkipWhitespace text) = Inr (v, r)" using Inr by (cases vr) auto
  then show ?thesis using doc.sound [OF p] by (auto simp: JsonParse_def ParseDocument_def Let_def)
qed

section \<open>Reading back what was written\<close>

lemma hex_digit_char: "d < 16 \<Longrightarrow> hex_digit (hex_char d) = Some d"
  by (cases "d < 10") (simp_all add: hex_digit_def hex_char_def Let_def)

lemma ParseHex4_byte: "a < 16 \<Longrightarrow> b < 16 \<Longrightarrow> ParseHex4 (CHR ''0'' # CHR ''0'' # hex_char a # hex_char b # t) = Inr (16 * a + b, t)"
proof -
  assume *: "a < 16" "b < 16"
  have z: "hex_digit (CHR ''0'') = Some 0" by (simp add: hex_digit_def)
  have "hex_loop (Suc (Suc (Suc (Suc 0)))) 0 (CHR ''0'' # CHR ''0'' # hex_char a # hex_char b # t) = Inr (16 * a + b, t)"
    using * by (simp add: z hex_digit_char)
  moreover have "(4 :: nat) = Suc (Suc (Suc (Suc 0)))" by simp
  ultimately have "hex_loop 4 0 (CHR ''0'' # CHR ''0'' # hex_char a # hex_char b # t) = Inr (16 * a + b, t)" by metis
  then show ?thesis by (simp add: ParseHex4_def)
qed

lemma string_loop_quote_char: "string_loop strict (quote_char c @ t) = emit [c] (string_loop strict t)"
proof (cases "c \<in> {CHR 0x22, CHR 0x5C, CHR 0x0A, CHR 0x0D, CHR 0x09, CHR 0x08, CHR 0x0C}")
  case True
  then show ?thesis by (auto simp: quote_char_def simple_escape_def)
next
  case False
  show ?thesis
  proof (cases "of_char c < (32 :: nat)")
    case True
    let ?n = "of_char c :: nat"
    have "?n div 16 < 16" "?n mod 16 < 16" using True by auto
    then have "unicode_escape 6 (CHR ''0'' # CHR ''0'' # hex_char (?n div 16) # hex_char (?n mod 16) # t) = Inr (?n, t)"
      using True by (simp add: unicode_escape_def ParseHex4_byte)
    moreover have "AppendUtf8 ?n = [c]" using True by (simp add: AppendUtf8_def)
    ultimately show ?thesis using False True by (simp add: quote_char_def)
  next
    case big: False
    then show ?thesis using False by (simp add: quote_char_def)
  qed
qed

lemma string_loop_quoted: "string_loop strict (concat (map quote_char str) @ CHR 0x22 # r) = Inr (str, r)"
  by (induction str) (simp_all add: string_loop_quote_char emit_def)

lemma ParseString_quote: "ParseString strict (JsonQuote str @ r) = Inr (str, r)"
  using string_loop_quoted [of strict str r] by (simp add: ParseString_def JsonQuote_def)

text \<open>What follows a value in a written document.\<close>

definition value_stop :: "string \<Rightarrow> bool" where
  "value_stop r \<longleftrightarrow> r = [] \<or> hd r \<in> {CHR '','', CHR '']'', CHR ''}'', CHR 0x0A}"

lemma value_stop_number: "value_stop r \<Longrightarrow> number_stop r"
  by (auto simp: value_stop_def number_stop_def digit_chars)

lemma SkipWhitespace_NewLine: "SkipWhitespace (NewLine pretty n @ s) = SkipWhitespace s"
proof -
  have "dropWhile json_space (replicate k (CHR '' '') @ s) = dropWhile json_space s" for k
    by (induction k) (simp_all add: json_space_def)
  then show ?thesis by (simp add: NewLine_def SkipWhitespace_def json_space_def)
qed

lemma value_stop_NewLine: "value_stop (NewLine pretty n @ CHR '']'' # r)" "value_stop (NewLine pretty n @ CHR ''}'' # r)"
  by (simp_all add: value_stop_def NewLine_def)

lemma SkipWhitespace_close: "SkipWhitespace (CHR '']'' # r) = CHR '']'' # r" "SkipWhitespace (CHR ''}'' # r) = CHR ''}'' # r"
    "SkipWhitespace (CHR '','' # r) = CHR '','' # r" "SkipWhitespace (CHR '':'' # r) = CHR '':'' # r" "SkipWhitespace (CHR 0x22 # r) = CHR 0x22 # r"
    "SkipWhitespace (CHR '' '' # r) = SkipWhitespace r" "SkipWhitespace [] = []"
  by (simp_all add: SkipWhitespace_def json_space_def)

lemma commas_Cons2: "commas (x # y # xs) = x @ CHR '','' # commas (y # xs)"
  by simp

lemma length_commas: "length xs \<le> Suc (length (commas xs))"
proof (cases xs)
  case (Cons y ys)
  have "length ys \<le> length (concat (map ((#) (CHR '','')) ys))" by (induction ys) simp_all
  then show ?thesis by (simp add: Cons)
qed simp

lemma array_loop_written:
  assumes "\<And>x t. x \<in> set xs \<Longrightarrow> value_stop t \<Longrightarrow> p (SkipWhitespace (f x @ t)) = Inr (x, t)"
    and "xs \<noteq> []" and "length xs \<le> n"
  shows "array_loop n p items (commas (map f xs) @ NewLine pretty ind @ CHR '']'' # r) = Inr (JArray (items @ xs), r)"
  using assms
proof (induction xs arbitrary: items n)
  case (Cons x xs)
  obtain m where n: "n = Suc m" using Cons.prems(3) by (cases n) auto
  show ?case
  proof (cases xs)
    case Nil
    then show ?thesis using Cons.prems(1) [of x, OF _ value_stop_NewLine(1)]
      by (simp add: n SkipWhitespace_NewLine SkipWhitespace_close)
  next
    case ys: (Cons y ys)
    have "p (SkipWhitespace (f x @ CHR '','' # t)) = Inr (x, CHR '','' # t)" for t
      by (rule Cons.prems(1)) (simp_all add: value_stop_def)
    then show ?thesis using Cons.IH [of m "items @ [x]"] Cons.prems ys
      by (simp add: n SkipWhitespace_close)
  qed
qed simp

lemma update_append: "k \<notin> set (keys ms) \<Longrightarrow> AList.update k v ms = ms @ [(k, v)]"
  by (induction ms) auto

lemma object_loop_written:
  assumes "\<And>k v t. (k, v) \<in> set ms \<Longrightarrow> value_stop t \<Longrightarrow> p (SkipWhitespace (sep @ f v @ t)) = Inr (v, t)"
    and "ms \<noteq> []" and "length ms \<le> n" and "distinct (keys (members @ ms))"
  shows "object_loop n strict p members
           (commas (map (\<lambda>(k, v). NewLine pretty ind' @ JsonQuote k @ (CHR '':'' # sep) @ f v) ms) @ NewLine pretty ind @ CHR ''}'' # r)
         = Inr (JObject (members @ ms), r)"
  using assms
proof (induction ms arbitrary: members n)
  case (Cons m ms)
  obtain key v where m: "m = (key, v)" by fastforce
  obtain n' where n: "n = Suc n'" using Cons.prems(3) by (cases n) auto
  have q: "JsonQuote key @ t \<noteq> []" "hd (JsonQuote key @ t) = CHR 0x22" "SkipWhitespace (JsonQuote key @ t) = JsonQuote key @ t" for t
    by (simp_all add: JsonQuote_def SkipWhitespace_close)
  have u: "AList.update key v members = members @ [(key, v)]" using Cons.prems(4) by (intro update_append) (auto simp: m)
  show ?case
  proof (cases ms)
    case Nil
    then show ?thesis using Cons.prems(1) [of key v, OF _ value_stop_NewLine(2)]
      by (simp add: n m SkipWhitespace_NewLine SkipWhitespace_close q ParseString_quote u)
  next
    case ys: (Cons y ys)
    have "p (SkipWhitespace (sep @ f v @ CHR '','' # t)) = Inr (v, CHR '','' # t)" for t
      by (rule Cons.prems(1) [of key]) (simp_all add: value_stop_def m)
    moreover have "object_loop n' strict p (members @ [(key, v)])
        (commas (map (\<lambda>(k, v). NewLine pretty ind' @ JsonQuote k @ (CHR '':'' # sep) @ f v) ms) @ NewLine pretty ind @ CHR ''}'' # r)
      = Inr (JObject ((members @ [(key, v)]) @ ms), r)"
    proof (rule Cons.IH)
      show "p (SkipWhitespace (sep @ f v' @ t)) = Inr (v', t)" if "(k, v') \<in> set ms" "value_stop t" for k v' t
        using that by (intro Cons.prems(1) [of k]) simp_all
    qed (use Cons.prems ys n m in auto)
    ultimately show ?thesis using ys
      by (simp add: n m SkipWhitespace_NewLine SkipWhitespace_close q ParseString_quote u)
  qed
qed simp

lemma Consume_differs: "a \<noteq> c \<Longrightarrow> Consume (a # lit) (c # s) = None"
  by (simp add: Consume_def)

lemma number_text_first: "number_re t \<Longrightarrow> t \<noteq> [] \<and> (hd t = CHR ''-'' \<and> tl t \<noteq> [] \<and> IsAsciiDigit (hd (tl t)) \<or> IsAsciiDigit (hd t))"
  using int_part_first by (auto simp: number_re_def)

lemma ParseScalar_number:
  assumes "number_ok (PythonCompat opts) t" and "number_stop r"
  shows "ParseScalar opts (t @ r) = Inr (JNumber t, r)" "t \<noteq> []" "hd t \<notin> {CHR ''{'', CHR ''['', CHR '' '', CHR 0x09, CHR 0x0A, CHR 0x0D, CHR '']''}"
proof -
  have "ParseScalar opts (t @ r) = Inr (JNumber t, r) \<and> t \<noteq> [] \<and> hd t \<notin> {CHR ''{'', CHR ''['', CHR '' '', CHR 0x09, CHR 0x0A, CHR 0x0D, CHR '']''}"
  proof (cases "IsJsonNumberText t")
    case True
    then have re: "number_re t" by (simp add: IsJsonNumberText_number_re)
    obtain c cs where t: "t = c # cs" using number_text_first [OF re] by (cases t) auto
    have c: "c = CHR ''-'' \<and> cs \<noteq> [] \<and> IsAsciiDigit (hd cs) \<or> IsAsciiDigit c" using number_text_first [OF re] by (simp add: t)
    have no: "c \<notin> {CHR 0x22, CHR ''n'', CHR ''t'', CHR ''f'', CHR ''N'', CHR ''I'', CHR ''{'', CHR ''['', CHR '' '', CHR 0x09, CHR 0x0A, CHR 0x0D, CHR '']''}"
      using c by (auto simp: IsAsciiDigit_def)
    have "\<not> prefix ''-Infinity'' (t @ r)" using c by (cases cs) (auto simp: t IsAsciiDigit_def)
    then have "Consume ''-Infinity'' (c # cs @ r) = None" by (simp add: Consume_None t)
    moreover have "Consume ''null'' (c # cs @ r) = None" "Consume ''true'' (c # cs @ r) = None" "Consume ''false'' (c # cs @ r) = None"
      "Consume ''NaN'' (c # cs @ r) = None" "Consume ''Infinity'' (c # cs @ r) = None"
      using no by (auto intro!: Consume_differs)
    moreover have "c = CHR ''-'' \<or> IsAsciiDigit c" using c by blast
    ultimately show ?thesis using ParseNumber_append [OF re assms(2)] no by (auto simp: ParseScalar_def t)
  next
    case False
    then have py: "PythonCompat opts" and "t = ''NaN'' \<or> t = ''Infinity'' \<or> t = ''-Infinity''"
      using assms(1) unfolding number_ok_def by blast+
    then consider "t = ''NaN''" | "t = ''Infinity''" | "t = ''-Infinity''" by blast
    then show ?thesis by cases (simp_all add: py ParseScalar_def Consume_def)
  qed
  then show "ParseScalar opts (t @ r) = Inr (JNumber t, r)" "t \<noteq> []" "hd t \<notin> {CHR ''{'', CHR ''['', CHR '' '', CHR 0x09, CHR 0x0A, CHR 0x0D, CHR '']''}"
    by blast+
qed

lemma Write_first:
  "json_ok py k v \<Longrightarrow> Write pretty ind v \<noteq> [] \<and> hd (Write pretty ind v) \<noteq> CHR '']'' \<and>
     SkipWhitespace (Write pretty ind v @ r) = Write pretty ind v @ r"
proof (cases v)
  case (JNumber t)
  assume "json_ok py k v"
  then have "number_ok (PythonCompat \<lparr>PythonCompat = py, StrictControlChars = True\<rparr>) t" by (simp add: JNumber)
  from ParseScalar_number(2,3) [OF this, of "[]"] show ?thesis
    by (cases t) (auto simp: JNumber SkipWhitespace_def json_space_def number_stop_def)
qed (auto simp: SkipWhitespace_def json_space_def JsonQuote_def)

lemma loops_skip_whitespace:
  "array_loop n p items (SkipWhitespace s) = array_loop n p items s"
  "object_loop n strict p members (SkipWhitespace s) = object_loop n strict p members s"
  by (cases n; simp add: SkipWhitespace_def dropWhile_idem)+

lemma length_separated: "length xs \<le> length (concat (map ((#) (CHR '','')) xs))"
  by (induction xs) simp_all

lemma ParseValue_scalar: "s \<noteq> [] \<Longrightarrow> hd s \<noteq> CHR ''{'' \<Longrightarrow> hd s \<noteq> CHR ''['' \<Longrightarrow> ParseValue opts k s = ParseScalar opts s"
  by (cases k) simp_all

lemma ParseValue_Write:
  assumes "json_ok (PythonCompat opts) k v" and "value_stop r"
  shows "ParseValue opts k (Write pretty ind v @ r) = Inr (v, r)"
  using assms
proof (induction v arbitrary: k ind r)
  case JNull
  then show ?case by (subst ParseValue_scalar) (simp_all add: ParseScalar_def Consume_def)
next
  case (JBool b)
  then show ?case by (subst ParseValue_scalar) (simp_all add: ParseScalar_def Consume_def)
next
  case (JNumber t)
  then show ?case using ParseScalar_number [of opts t r] value_stop_number by (subst ParseValue_scalar) simp_all
next
  case (JString str)
  have "hd (JsonQuote str @ r) = CHR 0x22" "JsonQuote str @ r \<noteq> []" by (simp_all add: JsonQuote_def)
  then show ?case by (subst ParseValue_scalar) (simp_all add: ParseScalar_def ParseString_quote)
next
  case (JArray xs)
  obtain k' where k: "k = Suc k'" using JArray.prems by (cases k) auto
  let ?f = "\<lambda>v. NewLine pretty (ind + 1) @ Write pretty (ind + 1) v"
  show ?case
  proof (cases "xs = []")
    case True
    then show ?thesis by (simp add: k ParseArray_def SkipWhitespace_close)
  next
    case False
    then obtain x ys where xs: "xs = x # ys" by (cases xs) auto
    have w: "Write pretty (ind + 1) y \<noteq> [] \<and> hd (Write pretty (ind + 1) y) \<noteq> CHR '']'' \<and> SkipWhitespace (Write pretty (ind + 1) y @ t) = Write pretty (ind + 1) y @ t"
      if "y \<in> set xs" for y t
      using JArray.prems(1) that by (intro Write_first [of "PythonCompat opts" k']) (simp add: k)
    have el: "ParseValue opts k' (SkipWhitespace (?f y @ t)) = Inr (y, t)" if "y \<in> set xs" "value_stop t" for y t
      using JArray.IH [OF that(1) _ that(2), of k' "ind + 1"] JArray.prems(1) that(1) w [OF that(1), of t]
      by (simp add: k SkipWhitespace_NewLine)
    let ?s = "commas (map ?f xs) @ NewLine pretty ind @ CHR '']'' # r"
    have s1: "SkipWhitespace ?s = Write pretty (ind + 1) x @ concat (map ((#) (CHR '','')) (map ?f ys)) @ NewLine pretty ind @ CHR '']'' # r"
      using w [of x] by (simp add: xs SkipWhitespace_NewLine)
    have "length xs \<le> Suc (length (SkipWhitespace ?s))"
      unfolding s1 using length_separated [of "map ?f ys"] by (simp add: xs)
    with el False have "array_loop (Suc (length (SkipWhitespace ?s))) (ParseValue opts k') [] ?s = Inr (JArray ([] @ xs), r)"
      by (intro array_loop_written) simp_all
    moreover have "SkipWhitespace ?s \<noteq> []" "hd (SkipWhitespace ?s) \<noteq> CHR '']''" unfolding s1 using w [of x] by (simp_all add: xs)
    ultimately have "ParseArray (ParseValue opts k') (CHR ''['' # ?s) = Inr (JArray xs, r)"
      by (simp add: ParseArray_def Let_def loops_skip_whitespace del: array_loop.simps commas.simps)
    moreover have "Write pretty ind (JArray xs) @ r = CHR ''['' # ?s" using False by simp
    ultimately show ?thesis by (simp only: k ParseValue.simps) simp
  qed
next
  case (JObject ms)
  obtain k' where k: "k = Suc k'" using JObject.prems by (cases k) auto
  let ?sep = "if pretty then '' '' else []"
  let ?g = "\<lambda>(k, v). NewLine pretty (ind + 1) @ JsonQuote k @ (CHR '':'' # ?sep) @ Write pretty (ind + 1) v"
  show ?case
  proof (cases "ms = []")
    case True
    then show ?thesis by (simp add: k ParseObject_def SkipWhitespace_close)
  next
    case False
    then obtain key v ns where ms: "ms = (key, v) # ns" by (cases ms) auto
    have el: "ParseValue opts k' (SkipWhitespace (?sep @ Write pretty (ind + 1) w @ t)) = Inr (w, t)" if "(n, w) \<in> set ms" "value_stop t" for n w t
    proof -
      have ok: "json_ok (PythonCompat opts) k' w" using JObject.prems(1) that(1) by (auto simp: k)
      have "ParseValue opts k' (Write pretty (ind + 1) w @ t) = Inr (w, t)"
        by (rule JObject.IH [OF that(1) _ ok that(2)]) simp
      then show ?thesis using Write_first [OF ok, of pretty "ind + 1" t] by (cases pretty) (simp_all add: SkipWhitespace_close)
    qed
    let ?s = "commas (map ?g ms) @ NewLine pretty ind @ CHR ''}'' # r"
    have s1: "SkipWhitespace ?s = JsonQuote key @ (CHR '':'' # ?sep) @ Write pretty (ind + 1) v @ concat (map ((#) (CHR '','')) (map ?g ns)) @ NewLine pretty ind @ CHR ''}'' # r"
      by (simp add: ms SkipWhitespace_NewLine JsonQuote_def SkipWhitespace_close)
    have "length ms \<le> Suc (length (SkipWhitespace ?s))"
      unfolding s1 using length_separated [of "map ?g ns"] by (simp add: ms)
    with el False JObject.prems(1) have "object_loop (Suc (length (SkipWhitespace ?s))) (StrictControlChars opts) (ParseValue opts k') [] ?s = Inr (JObject ([] @ ms), r)"
      by (intro object_loop_written) simp_all
    moreover have "SkipWhitespace ?s \<noteq> []" "hd (SkipWhitespace ?s) \<noteq> CHR ''}''" unfolding s1 by (simp_all add: JsonQuote_def)
    ultimately have "ParseObject (StrictControlChars opts) (ParseValue opts k') (CHR ''{'' # ?s) = Inr (JObject ms, r)"
      by (simp add: ParseObject_def Let_def loops_skip_whitespace del: object_loop.simps commas.simps)
    moreover have "Write pretty ind (JObject ms) @ r = CHR ''{'' # ?s" using False by (cases pretty) simp_all
    ultimately show ?thesis by (simp only: k ParseValue.simps) simp
  qed
qed

text \<open>C25. Any well-formed document is read back unchanged from its written text, compact or indented: \<^verbatim>\<open>JsonParse\<close> is a
  left inverse of \<^verbatim>\<open>JsonWrite\<close>, whatever bytes the strings hold.\<close>

theorem json_round_trip:
  assumes "json_ok (PythonCompat opts) kMaxJsonDepth v"
  shows "JsonParse opts (JsonWrite pretty v) = Some (Inr v)"
  using ParseValue_Write [OF assms, of "[]" pretty 0] Write_first [OF assms, of pretty 0 "[]"]
  by (simp add: JsonParse_def ParseDocument_def JsonWrite_def value_stop_def SkipWhitespace_close)

theorem json_round_trip_witness:
  "JsonParse \<lparr>PythonCompat = False, StrictControlChars = True\<rparr>
     (JsonWrite True (JObject [(''a'', JArray [JNumber ''-1.5e3'', JNull]), ([CHR 0x0A, CHR 0x22], JString [CHR 0x01, CHR 0xE9])]))
   = Some (Inr (JObject [(''a'', JArray [JNumber ''-1.5e3'', JNull]), ([CHR 0x0A, CHR 0x22], JString [CHR 0x01, CHR 0xE9])]))"
proof (rule json_round_trip)
  have "IsJsonNumberText ''-1.5e3''" by code_simp
  then show "json_ok (PythonCompat \<lparr>PythonCompat = False, StrictControlChars = True\<rparr>) kMaxJsonDepth
      (JObject [(''a'', JArray [JNumber ''-1.5e3'', JNull]), ([CHR 0x0A, CHR 0x22], JString [CHR 0x01, CHR 0xE9])])"
    by (simp add: kMaxJsonDepth_def number_ok_def)
qed

section \<open>Numbers in documents\<close>

lemma all_digits_dec_nat: "list_all IsAsciiDigit (dec_nat n)"
  using dec_digits_all [OF dec_digits_dec_nat] by (simp add: list_all_iff)

lemma int_part_dec_nat: "int_part (dec_nat n)"
proof (cases "n = 0")
  case True
  then show ?thesis by (simp add: int_part_def dec_nat.simps [of 0] digit_char_0)
next
  case False
  then show ?thesis using hd_dec_nat [of n] all_digits_dec_nat [of n] by (simp add: int_part_def digits1_def)
qed

lemma number_re_dec: "number_re (dec_nat n)" "number_re (CHR ''-'' # dec_nat n)"
  unfolding number_re_def using int_part_dec_nat [of n]
  by (rule_tac x = "[]" in exI, rule_tac x = "dec_nat n" in exI, simp add: frac_part_def exp_part_def)
     (rule_tac x = "''-''" in exI, rule_tac x = "dec_nat n" in exI, simp add: frac_part_def exp_part_def int_part_dec_nat)

lemma dec_nat_chars: "c \<in> set (dec_nat n) \<Longrightarrow> c \<notin> set ''.eENI-''"
  using all_digits_dec_nat [of n] by (auto simp: list_all_iff IsAsciiDigit_def)

lemma from_chars_dec_nat: "int n \<le> hi \<Longrightarrow> 0 \<ge> lo \<Longrightarrow> from_chars b lo hi (dec_nat n) = Some (int n, [])"
proof -
  assume "int n \<le> hi" "0 \<ge> lo"
  moreover have "hd (dec_nat n) \<noteq> CHR ''-''" using dec_nat_chars [of "hd (dec_nat n)" n] by auto
  moreover have "takeWhile IsAsciiDigit (dec_nat n) = dec_nat n" "dropWhile IsAsciiDigit (dec_nat n) = []"
    using all_digits_dec_nat [of n] by (auto simp: list_all_iff)
  ultimately show ?thesis by (simp add: from_chars_def Let_def digits_value_dec_nat del: takeWhile_eq_all_conv dropWhile_eq_Nil_conv)
qed

lemma from_chars_neg: "lo \<le> - int n \<Longrightarrow> 0 \<le> hi \<Longrightarrow> from_chars True lo hi (CHR ''-'' # dec_nat n) = Some (- int n, [])"
proof -
  assume "lo \<le> - int n" "0 \<le> hi"
  moreover have "takeWhile IsAsciiDigit (dec_nat n) = dec_nat n" "dropWhile IsAsciiDigit (dec_nat n) = []"
    using all_digits_dec_nat [of n] by (auto simp: list_all_iff)
  ultimately show ?thesis by (simp add: from_chars_def Let_def digits_value_dec_nat del: takeWhile_eq_all_conv dropWhile_eq_Nil_conv)
qed

lemma IsIntegerText_dec: "IsIntegerText (JNumber (dec_nat n))" "IsIntegerText (JNumber (CHR ''-'' # dec_nat n))"
  using dec_nat_chars [of _ n] by (auto simp: IsIntegerText_def list_all_iff)

text \<open>C32. 64-bit integers survive a document: the number made from a signed or unsigned 64-bit value is well formed
  and reads back as that value, at the ends of the range too.\<close>

theorem json_int_round_trip:
  "json_ok py k (JInt w) \<and> AsInt64 (JInt w) = Inr w \<and> json_ok py k (JUInt w) \<and> AsUInt64 (JUInt w) = Inr w"
proof -
  have range: "- (2 ^ 63) \<le> sint w" "sint w \<le> 2 ^ 63 - 1" using sint_range_size [of w] by (simp_all add: word_size)
  have u: "int (unat w) \<le> 2 ^ 64 - 1" using uint_lt2p [of w] by simp
  have i: "AsInt64 (JInt w) = Inr w \<and> number_re (dec_int (sint w))"
  proof (cases "sint w < 0")
    case True
    let ?n = "nat (- sint w)"
    have "from_chars True (- (2 ^ 63)) (2 ^ 63 - 1) (CHR ''-'' # dec_nat ?n) = Some (- int ?n, [])"
      using range True by (intro from_chars_neg) simp_all
    then show ?thesis using IsIntegerText_dec(2) [of ?n] number_re_dec(2) [of ?n] True by (simp add: AsInt64_def JInt_def dec_int_def)
  next
    case False
    let ?n = "nat (sint w)"
    have "from_chars True (- (2 ^ 63)) (2 ^ 63 - 1) (dec_nat ?n) = Some (int ?n, [])"
      using range False by (intro from_chars_dec_nat) simp_all
    then show ?thesis using IsIntegerText_dec(1) [of ?n] number_re_dec(1) [of ?n] False by (simp add: AsInt64_def JInt_def dec_int_def)
  qed
  have "from_chars False 0 (2 ^ 64 - 1) (dec_nat (unat w)) = Some (int (unat w), [])"
    using u by (intro from_chars_dec_nat) simp_all
  moreover have "hd (dec_nat (unat w)) \<noteq> CHR ''-''" using dec_nat_chars [of "hd (dec_nat (unat w))" "unat w"] by auto
  ultimately have "AsUInt64 (JUInt w) = Inr w" using IsIntegerText_dec(1) by (simp add: AsUInt64_def JUInt_def)
  then show ?thesis using i number_re_dec(1) by (simp add: JInt_def JUInt_def number_ok_def IsJsonNumberText_number_re)
qed

text \<open>C33. \<^verbatim>\<open>IsJsonNumberText\<close> decides Python's \<^verbatim>\<open>NUMBER_RE\<close>, and \<^verbatim>\<open>ParseNumber\<close> takes such a prefix of its input and
  nothing else; before a character that cannot continue a number it takes all of it.\<close>

theorem json_number_grammar:
  "(IsJsonNumberText t \<longleftrightarrow> number_re t) \<and>
   (ParseNumber s = Inr (v, r) \<longrightarrow> (\<exists>n. v = JNumber n \<and> s = n @ r \<and> number_re n)) \<and>
   (number_re t \<and> number_stop r \<longrightarrow> ParseNumber (t @ r) = Inr (JNumber t, r))"
  using IsJsonNumberText_number_re ParseNumber_append by (auto elim: ParseNumber_split)

theorem json_number_grammar_witness:
  "ParseNumber (''-0.5e+3'' @ '',1'') = Inr (JNumber ''-0.5e+3'', '',1'')"
proof -
  have "IsJsonNumberText ''-0.5e+3''" "number_stop '',1''" by code_simp+
  then show ?thesis using json_number_grammar [of "''-0.5e+3''" "[]" JNull "'',1''"] by blast
qed

end
