(* ===== verification/PyJson.thy ===== *)
theory PyJson
  imports Json
begin

text \<open>
  The \<^verbatim>\<open>json.loads\<close> port of \<^verbatim>\<open>src/diff/PyValue.cpp\<close> (class \<^verbatim>\<open>PyJsonParser\<close>), which decodes the cells of the
  exported databases to Python values, and its agreement with the other JSON parser of the program,
  \<^verbatim>\<open>JsonParse\<close>: the two accept the same texts and return the same values.

  A \<^verbatim>\<open>dict\<close> holds its keys and values in insertion order; the keys of a JSON object are strings, so the
  pair of the vectors \<^verbatim>\<open>Items\<close> and \<^verbatim>\<open>DictValues\<close> is one list of pairs. As in \<^verbatim>\<open>Json\<close>, the position is the text that
  is left, the depth is counted down from \<^verbatim>\<open>kMaxJsonDepth\<close>, and the element loops carry their number of steps.
\<close>

section \<open>Values\<close>

datatype PyValue =
    VNone
  | VBool bool
  | VInt string
  | VFloat flt
  | VStr string
  | VList "PyValue list"
  | VDict "(string \<times> PyValue) list"

definition Hashable :: "PyValue \<Rightarrow> bool" where
  "Hashable v = (case v of VList _ \<Rightarrow> False | VDict _ \<Rightarrow> False | _ \<Rightarrow> True)"

definition KindName :: "PyValue \<Rightarrow> string" where
  "KindName v =
     (case v of VNone \<Rightarrow> ''NoneType'' | VBool _ \<Rightarrow> ''bool'' | VInt _ \<Rightarrow> ''int'' | VFloat _ \<Rightarrow> ''float''
      | VStr _ \<Rightarrow> ''str'' | VList _ \<Rightarrow> ''list'' | VDict _ \<Rightarrow> ''dict'')"

section \<open>The parser\<close>

text \<open>\<open>JsonDepthExceeded\<close> is the exception of that name, which never leaves the file.\<close>

datatype py_fail = PyFail string string | JsonDepthExceeded | PyOutOfFuel

type_synonym 'a pyparse = "py_fail + 'a \<times> string"

text \<open>\<^verbatim>\<open>SkipWs\<close>, \<^verbatim>\<open>Literal\<close>, \<^verbatim>\<open>Hex4\<close> and \<^verbatim>\<open>AppendCodePoint\<close> have the bodies of \<^verbatim>\<open>SkipWhitespace\<close>, \<^verbatim>\<open>Consume\<close>, \<^verbatim>\<open>ParseHex4\<close> and
  \<^verbatim>\<open>AppendUtf8\<close> in \<^verbatim>\<open>Json.cpp\<close>.\<close>

definition SkipWs :: "string \<Rightarrow> string" where
  "SkipWs s = dropWhile json_space s"

definition Literal :: "string \<Rightarrow> string \<Rightarrow> string option" where
  "Literal word s = (if take (length word) s = word then Some (drop (length word) s) else None)"

primrec hex4_loop :: "nat \<Rightarrow> nat \<Rightarrow> string \<Rightarrow> nat pyparse" where
  "hex4_loop 0 v s = Inr (v, s)"
| "hex4_loop (Suc n) v s =
     (case s of [] \<Rightarrow> Inl (PyFail kBadHex [])
      | c # cs \<Rightarrow> (case hex_digit c of Some d \<Rightarrow> hex4_loop n (16 * v + d) cs | None \<Rightarrow> Inl (PyFail kBadHex cs)))"

definition Hex4 :: "string \<Rightarrow> nat pyparse" where
  "Hex4 s = (if length s < 4 then Inl (PyFail kBadHex s) else hex4_loop 4 0 s)"

definition AppendCodePoint :: "nat \<Rightarrow> string" where
  "AppendCodePoint cp =
     (if cp < 0x80 then [char_of cp]
      else if cp < 0x800 then [char_of (0xC0 OR drop_bit 6 cp), char_of (0x80 OR (cp AND 0x3F))]
      else if cp < 0x10000
      then [char_of (0xE0 OR drop_bit 12 cp), char_of (0x80 OR (drop_bit 6 cp AND 0x3F)), char_of (0x80 OR (cp AND 0x3F))]
      else [char_of (0xF0 OR drop_bit 18 cp), char_of (0x80 OR (drop_bit 12 cp AND 0x3F)),
            char_of (0x80 OR (drop_bit 6 cp AND 0x3F)), char_of (0x80 OR (cp AND 0x3F))])"

definition unicode_unit :: "string \<Rightarrow> nat pyparse" where
  "unicode_unit s =
     (case Hex4 s of
        Inl e \<Rightarrow> Inl e
      | Inr (cu, r) \<Rightarrow>
          if 0xD800 \<le> cu \<and> cu \<le> 0xDBFF \<and> 6 < length r \<and> hd r = CHR 0x5C \<and> r ! 1 = CHR ''u''
          then (case Hex4 (drop 2 r) of
                  Inl e \<Rightarrow> Inl e
                | Inr (low, r2) \<Rightarrow>
                    if 0xDC00 \<le> low \<and> low \<le> 0xDFFF then Inr (0x10000 + (cu - 0xD800) * 2 ^ 10 + (low - 0xDC00), r2)
                    else Inr (cu, r))
          else Inr (cu, r))"

lemma hex4_loop_length: "hex4_loop n v s = Inr (w, r) \<Longrightarrow> length r + n = length s"
  by (induction n arbitrary: v s) (auto split: list.splits option.splits)

lemma Hex4_length: "Hex4 s = Inr (w, r) \<Longrightarrow> length r + 4 = length s"
  by (auto simp: Hex4_def dest: hex4_loop_length split: if_splits)

lemma unicode_unit_length: "unicode_unit s = Inr (w, r) \<Longrightarrow> length r < length s"
  by (fastforce simp: unicode_unit_def dest: Hex4_length split: sum.splits if_splits prod.splits)

definition py_emit :: "string \<Rightarrow> string pyparse \<Rightarrow> string pyparse" where
  "py_emit out p = (case p of Inl e \<Rightarrow> Inl e | Inr (s, r) \<Rightarrow> Inr (out @ s, r))"

text \<open>The loop of \<^verbatim>\<open>ParseString\<close>, after the opening quote.\<close>

function py_string_loop :: "string \<Rightarrow> string pyparse" where
  "py_string_loop [] = Inl (PyFail ''Unterminated string starting at'' [])"
| "py_string_loop (c # cs) =
     (if c = CHR 0x22 then Inr ([], cs)
      else if of_char c < (32 :: nat) then Inl (PyFail ''Invalid control character at'' (c # cs))
      else if c \<noteq> CHR 0x5C then py_emit [c] (py_string_loop cs)
      else (case cs of
              [] \<Rightarrow> Inl (PyFail ''Unterminated string starting at'' [])
            | d # ds \<Rightarrow>
                if d = CHR ''u''
                then (case unicode_unit ds of
                        Inl e \<Rightarrow> Inl e
                      | Inr (cp, r) \<Rightarrow> py_emit (AppendCodePoint cp) (py_string_loop r))
                else (case simple_escape d of
                        Some x \<Rightarrow> py_emit [x] (py_string_loop ds)
                      | None \<Rightarrow> Inl (PyFail (''Invalid '' @ [CHR 0x5C] @ ''escape'') ds))))"
  by pat_completeness auto
termination
  by (relation "measure length") (auto dest: unicode_unit_length)

definition PyParseString :: "string \<Rightarrow> string pyparse" where
  "PyParseString s = py_string_loop (tl s)"

text \<open>The exponent: whether there is one, its value and what follows it.\<close>

definition py_exponent :: "string \<Rightarrow> bool \<times> int \<times> string" where
  "py_exponent s =
     (if 1 < length s \<and> (hd s = CHR ''e'' \<or> hd s = CHR ''E'')
      then
        (let probe = tl s; signed_exp = 1 < length probe \<and> (hd probe = CHR ''-'' \<or> hd probe = CHR ''+'');
             neg = signed_exp \<and> hd probe = CHR ''-'';
             r = (if signed_exp then tl probe else probe);
             ds = takeWhile IsAsciiDigit r; v = foldl exp_digit 0 ds;
             significant = length (dropWhile (\<lambda>c. c = CHR ''0'') ds);
             v1 = (if significant > 8 \<or> v > kMaxAbsExp then kMaxAbsExp else v)
         in if ds = [] then (False, 0, s) else (True, if neg then - v1 else v1, dropWhile IsAsciiDigit r))
      else (False, 0, s))"

definition PyParseNumber :: "string \<Rightarrow> PyValue pyparse" where
  "PyParseNumber s =
     (let neg = (hd s = CHR ''-''); s1 = (if neg then tl s else s)
      in if s1 = [] then Inl (PyFail ''Expecting value'' s1)
         else if \<not> IsAsciiDigit (hd s1) then Inl (PyFail ''Expecting value'' s1)
         else
           (let (ip, s2) = (if hd s1 = CHR ''0'' then ([hd s1], tl s1) else (takeWhile IsAsciiDigit s1, dropWhile IsAsciiDigit s1));
                frac = 1 < length s2 \<and> hd s2 = CHR ''.'' \<and> IsAsciiDigit (s2 ! 1);
                fp = (if frac then takeWhile IsAsciiDigit (tl s2) else []);
                s3 = (if frac then dropWhile IsAsciiDigit (tl s2) else s2);
                (has_exp, ex, s4) = py_exponent s3
            in if \<not> frac \<and> \<not> has_exp
               then Inr (VInt (if ip = ''0'' \<or> \<not> neg then ip else ''-'' @ ip), s4)
               else Inr (VFloat (DecimalToDouble neg (ip @ fp) (ex - int (length fp))), s4)))"

text \<open>\<^verbatim>\<open>ParseValue\<close> where it does not open a container: the switch on the first character.\<close>

definition PyParseScalar :: "string \<Rightarrow> PyValue pyparse" where
  "PyParseScalar s =
     (let expecting = Inl (PyFail ''Expecting value'' s); c = hd s;
          literal = (\<lambda>word v. case Literal word s of Some r \<Rightarrow> Inr (v, r) | None \<Rightarrow> expecting)
      in if c = CHR 0x22 then (case PyParseString s of Inl e \<Rightarrow> Inl e | Inr (str, r) \<Rightarrow> Inr (VStr str, r))
         else if c = CHR ''n'' then literal ''null'' VNone
         else if c = CHR ''t'' then literal ''true'' (VBool True)
         else if c = CHR ''f'' then literal ''false'' (VBool False)
         else if c = CHR ''N'' then literal ''NaN'' (VFloat NotANumber)
         else if c = CHR ''I'' then literal ''Infinity'' (VFloat (Infinity False))
         else if c = CHR ''-''
         then (case Literal ''-Infinity'' s of Some r \<Rightarrow> Inr (VFloat (Infinity True), r) | None \<Rightarrow> PyParseNumber s)
         else if IsAsciiDigit c then PyParseNumber s
         else expecting)"

definition at_char :: "char \<Rightarrow> string \<Rightarrow> bool" where
  "at_char c s \<longleftrightarrow> s \<noteq> [] \<and> hd s = c"

primrec py_array_loop :: "nat \<Rightarrow> (string \<Rightarrow> PyValue pyparse) \<Rightarrow> PyValue list \<Rightarrow> string \<Rightarrow> PyValue pyparse" where
  "py_array_loop 0 p items s = Inl PyOutOfFuel"
| "py_array_loop (Suc n) p items s =
     (case p s of
        Inl e \<Rightarrow> Inl e
      | Inr (v, r) \<Rightarrow>
          (let r1 = SkipWs r
           in if at_char (CHR '']'') r1 then Inr (VList (items @ [v]), tl r1)
              else if \<not> at_char (CHR '','') r1 then Inl (PyFail kExpectingComma r1)
              else (let r2 = SkipWs (tl r1)
                    in if at_char (CHR '']'') r2 then Inl (PyFail ''Illegal trailing comma before end of array'' r2)
                       else py_array_loop n p (items @ [v]) r2)))"

definition PyParseArray :: "(string \<Rightarrow> PyValue pyparse) \<Rightarrow> string \<Rightarrow> PyValue pyparse" where
  "PyParseArray p s =
     (let s1 = SkipWs (tl s)
      in if at_char (CHR '']'') s1 then Inr (VList [], tl s1) else py_array_loop (Suc (length s1)) p [] s1)"

primrec py_object_loop :: "nat \<Rightarrow> (string \<Rightarrow> PyValue pyparse) \<Rightarrow> (string \<times> PyValue) list \<Rightarrow> string \<Rightarrow> PyValue pyparse" where
  "py_object_loop 0 p members s = Inl PyOutOfFuel"
| "py_object_loop (Suc n) p members s =
     (if \<not> at_char (CHR 0x22) s then Inl (PyFail kExpectingName s)
      else case PyParseString s of
          Inl e \<Rightarrow> Inl e
        | Inr (key, r) \<Rightarrow>
            (let r1 = SkipWs r
             in if \<not> at_char (CHR '':'') r1 then Inl (PyFail kExpectingColon r1)
                else case p (SkipWs (tl r1)) of
                    Inl e \<Rightarrow> Inl e
                  | Inr (v, r2) \<Rightarrow>
                      (let members1 = AList.update key v members; r3 = SkipWs r2
                       in if at_char (CHR ''}'') r3 then Inr (VDict members1, tl r3)
                          else if \<not> at_char (CHR '','') r3 then Inl (PyFail kExpectingComma r3)
                          else (let r4 = SkipWs (tl r3)
                                in if at_char (CHR ''}'') r4 then Inl (PyFail ''Illegal trailing comma before end of object'' r4)
                                   else py_object_loop n p members1 r4))))"

definition PyParseObject :: "(string \<Rightarrow> PyValue pyparse) \<Rightarrow> string \<Rightarrow> PyValue pyparse" where
  "PyParseObject p s =
     (let s1 = SkipWs (tl s)
      in if at_char (CHR ''}'') s1 then Inr (VDict [], tl s1) else py_object_loop (Suc (length s1)) p [] s1)"

primrec PyParseValue :: "nat \<Rightarrow> string \<Rightarrow> PyValue pyparse" where
  "PyParseValue 0 s =
     (if s = [] then Inl (PyFail ''Expecting value'' s)
      else if hd s = CHR ''{'' \<or> hd s = CHR ''['' then Inl JsonDepthExceeded
      else PyParseScalar s)"
| "PyParseValue (Suc k) s =
     (if s = [] then Inl (PyFail ''Expecting value'' s)
      else if hd s = CHR ''{'' then PyParseObject (PyParseValue k) s
      else if hd s = CHR ''['' then PyParseArray (PyParseValue k) s
      else PyParseScalar s)"

definition Document :: "string \<Rightarrow> py_fail + PyValue" where
  "Document text =
     (case PyParseValue kMaxJsonDepth (SkipWs text) of
        Inl e \<Rightarrow> Inl e
      | Inr (v, r) \<Rightarrow> (let r1 = SkipWs r in if r1 = [] then Inr v else Inl (PyFail ''Extra data'' r1)))"

text \<open>The error \<^verbatim>\<open>Fail\<close> throws.\<close>

definition decode_error :: "string \<Rightarrow> string \<Rightarrow> string \<Rightarrow> diff_error" where
  "decode_error text msg rest =
     DiaphoraWouldRaise ''json.loads'' (''JSONDecodeError: '' @ msg @ '' (char '' @ dec_nat (length text - length rest) @ '')'')"

definition kDepthUnsupported :: diff_error where
  "kDepthUnsupported =
     UnsupportedInput (''json.loads: nesting deeper than '' @ dec_nat kMaxJsonDepth @
       '' (Python'' @ quote @ ''s RecursionError depth is NOT DETERMINED FROM SOURCE)'')"

definition PyJsonLoads :: "string \<Rightarrow> PyValue result option" where
  "PyJsonLoads text =
     (case Document text of
        Inr v \<Rightarrow> Some (Inr v)
      | Inl (PyFail msg rest) \<Rightarrow> Some (Inl (decode_error text msg rest))
      | Inl JsonDepthExceeded \<Rightarrow> Some (Inl kDepthUnsupported)
      | Inl PyOutOfFuel \<Rightarrow> None)"

definition lead_length :: "char \<Rightarrow> nat" where
  "lead_length c =
     (let lead = of_char c :: nat in if lead \<ge> 0xF0 then 4 else if lead \<ge> 0xE0 then 3 else if lead \<ge> 0xC0 then 2 else 1)"

function CodePoints :: "string \<Rightarrow> string list" where
  "CodePoints text =
     (case text of
        [] \<Rightarrow> []
      | c # cs \<Rightarrow> (let n = min (lead_length c) (length text) in take n text # CodePoints (drop n text)))"
  by pat_completeness auto
termination
  by (relation "measure length") (auto simp: lead_length_def Let_def)

declare CodePoints.simps [simp del]

definition PyJsonLoadsList :: "string \<Rightarrow> PyValue list result option" where
  "PyJsonLoadsList text =
     (case Document text of
        Inl (PyFail msg rest) \<Rightarrow> Some (Inl (decode_error text msg rest))
      | Inl JsonDepthExceeded \<Rightarrow>
          Some (Inl (if at_char (CHR ''['') (SkipWs text)
                     then DiaphoraWouldRaise ''set(json.loads)''
                            (''TypeError: unhashable type: '' @ quote @ ''list'' @ quote @ '' (nesting deeper than '' @ dec_nat kMaxJsonDepth @ '')'')
                     else kDepthUnsupported))
      | Inl PyOutOfFuel \<Rightarrow> None
      | Inr v \<Rightarrow>
          (case v of
             VList items \<Rightarrow> Some (Inr items)
           | VDict members \<Rightarrow> Some (Inr (map (\<lambda>m. VStr (fst m)) members))
           | VStr str \<Rightarrow> Some (Inr (map VStr (CodePoints str)))
           | _ \<Rightarrow> Some (Inl (DiaphoraWouldRaise ''set(json.loads)''
                               (''TypeError: '' @ quote @ KindName v @ quote @ '' object is not iterable'')))))"

section \<open>Agreement of the two parsers\<close>

text \<open>Both succeed, with corresponding values and the same text left, or both fail.\<close>

definition agree :: "('a \<Rightarrow> 'b) \<Rightarrow> 'a parse \<Rightarrow> 'b pyparse \<Rightarrow> bool" where
  "agree f a b \<longleftrightarrow>
     (case a of Inr (v, r) \<Rightarrow> b = Inr (f v, r) | Inl e \<Rightarrow> (\<exists>e'. b = Inl e' \<and> (e' = PyOutOfFuel \<longrightarrow> e = OutOfFuel)))"

lemma agree_Inr [simp]: "agree f (Inr (v, r)) b \<longleftrightarrow> b = Inr (f v, r)"
  by (simp add: agree_def)

lemma agree_Inl [simp]: "agree f (Inl e) b \<longleftrightarrow> (\<exists>e'. b = Inl e' \<and> (e' = PyOutOfFuel \<longrightarrow> e = OutOfFuel))"
  by (simp add: agree_def)

lemma agree_cases [consumes 1, case_names fail ok]:
  assumes "agree f a b"
  obtains e e' where "a = Inl e" "b = Inl e'" "e' = PyOutOfFuel \<longrightarrow> e = OutOfFuel"
        | v r where "a = Inr (v, r)" "b = Inr (f v, r)"
  using assms by (auto simp: agree_def split: sum.splits)

lemma AppendCodePoint_AppendUtf8: "AppendCodePoint = AppendUtf8"
  by (rule ext) (simp add: AppendCodePoint_def AppendUtf8_def)

lemma SkipWhitespace_idem: "SkipWhitespace (SkipWhitespace s) = SkipWhitespace s"
  by (simp add: SkipWhitespace_def dropWhile_idem)

lemma SkipWs_SkipWhitespace: "SkipWs = SkipWhitespace"
  by (rule ext) (simp add: SkipWs_def SkipWhitespace_def)

lemma Literal_Consume: "Literal = Consume"
  by (intro ext) (simp add: Literal_def Consume_def)

lemma agree_hex_loop: "agree (\<lambda>x. x) (hex_loop n v s) (hex4_loop n v s)"
  by (induction n arbitrary: v s) (auto split: list.splits option.splits)

lemma hex4_loop_fails: "hex4_loop n v s = Inl e \<Longrightarrow> \<exists>msg r. e = PyFail msg r"
  by (induction n arbitrary: v s) (auto split: list.splits option.splits)

lemma Hex4_fails: "Hex4 s = Inl e \<Longrightarrow> \<exists>msg r. e = PyFail msg r"
  using hex4_loop_fails [of 4 0 s] by (auto simp: Hex4_def split: if_splits)

lemma agree_Hex4: "agree (\<lambda>x. x) (ParseHex4 s) (Hex4 s)"
  using agree_hex_loop [of 4 0 s] by (auto simp: ParseHex4_def Hex4_def)

lemma agree_emit: "agree (\<lambda>x. x) a b \<Longrightarrow> agree (\<lambda>x. x) (emit out a) (py_emit out b)"
  by (erule agree_cases) (simp_all add: emit_def py_emit_def)

text \<open>A surrogate pair needs one more character in the second parser; a text that ends right after the
  escape is unterminated in both.\<close>

lemma string_loop_short:
  assumes "length s = 6" and "hd s = CHR 0x5C" and "s ! 1 = CHR ''u''"
  shows "(\<exists>msg r. string_loop strict s = Inl (Fail msg r)) \<and> (\<exists>msg r. py_string_loop s = Inl (PyFail msg r))"
proof -
  obtain ds where s: "s = CHR 0x5C # CHR ''u'' # ds" "length ds = 4"
    using assms by (cases s; cases "tl s") auto
  have "agree (\<lambda>x. x) (ParseHex4 ds) (Hex4 ds)" by (rule agree_Hex4)
  then show ?thesis
  proof (cases rule: agree_cases)
    case (fail e e')
    then have "(\<exists>msg r. e = Fail msg r) \<and> (\<exists>msg r. e' = PyFail msg r)"
      using ParseHex4_suffix [of ds] Hex4_fails [of ds] by (auto simp: inside_Inl)
    then show ?thesis using fail by (auto simp: s unicode_escape_def unicode_unit_def)
  next
    case (ok cu r)
    then have "r = []" using ParseHex4_length [of ds cu r] s by simp
    then show ?thesis using ok by (auto simp: s unicode_escape_def unicode_unit_def emit_def py_emit_def)
  qed
qed

lemma agree_string_loop: "agree (\<lambda>x. x) (string_loop True s) (py_string_loop s)"
proof (induction True s rule: string_loop.induct)
  case (2 c cs)
  show ?case
  proof (cases "c = CHR 0x5C")
    case False
    then show ?thesis using agree_emit [OF "2"(3), of "[c]"] by simp
  next
    case bs: True
    show ?thesis
    proof (cases cs)
      case (Cons d ds)
      show ?thesis
      proof (cases "d = CHR ''u''")
        case False
        then show ?thesis
          using agree_emit [OF "2"(2) [OF _ bs Cons False]] bs Cons by (cases "simple_escape d") auto
      next
        case u: True
        have "agree (\<lambda>x. x) (ParseHex4 ds) (Hex4 ds)" by (rule agree_Hex4)
        then show ?thesis
        proof (cases rule: agree_cases)
          case (fail e e')
          then show ?thesis using Hex4_fails [of ds] by (auto simp: bs Cons u unicode_escape_def unicode_unit_def)
        next
          case (ok cu r)
          show ?thesis
          proof (cases "length r = 6 \<and> hd r = CHR 0x5C \<and> r ! 1 = CHR ''u'' \<and> 0xD800 \<le> cu \<and> cu \<le> 0xDBFF")
            case True
            then have short: "\<exists>msg t. string_loop True r = Inl (Fail msg t)" "\<exists>msg t. py_string_loop r = Inl (PyFail msg t)"
              using string_loop_short [of r True] by blast+
            have "\<exists>e. string_loop True (c # cs) = Inl e"
              using ok True short(1) ParseHex4_length [of "drop 2 r"]
              by (cases "ParseHex4 (drop 2 r)") (auto simp: bs Cons u unicode_escape_def emit_def)
            moreover have "\<exists>msg t. py_string_loop (c # cs) = Inl (PyFail msg t)"
              using ok True short(2) by (auto simp: bs Cons u unicode_unit_def py_emit_def)
            ultimately show ?thesis by auto
          next
            case False
            then have six: "6 < length r" if "6 \<le> length r" "hd r = CHR 0x5C" "r ! Suc 0 = CHR ''u''" "0xD800 \<le> cu" "cu \<le> 0xDBFF"
              using that by (cases "length r = 6") auto
            have "agree (\<lambda>x. x) (ParseHex4 (drop 2 r)) (Hex4 (drop 2 r))" by (rule agree_Hex4)
            then have "agree (\<lambda>x. x) (unicode_escape 6 ds) (unicode_unit ds)"
              by (cases rule: agree_cases) (auto simp: unicode_escape_def unicode_unit_def ok intro: six)
            then show ?thesis
            proof (cases rule: agree_cases)
              case (ok cp t)
              then show ?thesis using agree_emit [OF "2"(1) [OF _ bs Cons u ok(1) refl]]
                by (simp add: bs Cons u AppendCodePoint_AppendUtf8)
            qed (simp add: bs Cons u)
          qed
        qed
      qed
    qed (simp add: bs)
  qed
qed simp

subsection \<open>Numbers\<close>

text \<open>The value of a JSON number: an exact integer, or the double \<^verbatim>\<open>AsDouble\<close> reads.\<close>

definition py_of_number :: "string \<Rightarrow> PyValue" where
  "py_of_number s =
     (if IsIntegerText (JNumber s) then VInt (if s = ''-0'' then ''0'' else s)
      else VFloat (case AsDouble (JNumber s) of Inr x \<Rightarrow> x | Inl e \<Rightarrow> NotANumber))"

lemma exp_digit_zeros: "foldl exp_digit 0 (dropWhile (\<lambda>c. c = CHR ''0'') ds) = foldl exp_digit 0 ds"
  by (induction ds) (simp_all add: exp_digit_def kMaxAbsExp_def)

lemma ParseExponent_parts:
  assumes "e = CHR ''e'' \<or> e = CHR ''E''" and "sg = [] \<or> sg = ''+'' \<or> sg = ''-''" and "digits1 ds"
  shows "ParseExponent (e # sg @ ds) =
    (let v = foldl exp_digit 0 ds; v1 = (if length (dropWhile (\<lambda>c. c = CHR ''0'') ds) > 8 \<or> v > kMaxAbsExp then kMaxAbsExp else v)
     in (if sg = ''-'' then - v1 else v1, []))"
proof -
  have d: "ds \<noteq> []" "list_all IsAsciiDigit ds" "IsAsciiDigit (hd ds)" using assms(3) by (cases ds; simp add: digits1_def)+
  have sign: "take_sign (sg @ ds) = (sg = ''-'', ds)"
    using assms(2) d(1,3) digit_chars(1,2) by (cases ds) (auto simp: take_sign_def)
  let ?z = "dropWhile (\<lambda>c. c = CHR ''0'') ds"
  have "list_all IsAsciiDigit ?z" using d(2) by (auto simp: list_all_iff dest: set_dropWhileD)
  then have "takeWhile IsAsciiDigit ?z = ?z" "dropWhile IsAsciiDigit ?z = []" by (auto simp: list_all_iff)
  then show ?thesis using assms(1) d sign
    by (auto simp: ParseExponent_def Let_def exp_digit_zeros simp del: takeWhile_eq_all_conv dropWhile_eq_Nil_conv)
qed

lemma ParseExponent_exp_part: "exp_part ep \<Longrightarrow> snd (ParseExponent ep) = []"
proof (cases "ep = []")
  case False
  assume "exp_part ep"
  with False obtain e sg ds where "ep = e # sg @ ds" "e = CHR ''e'' \<or> e = CHR ''E''" "sg = [] \<or> sg = ''+'' \<or> sg = ''-''" "digits1 ds"
    by (auto simp: exp_part_def)
  then show ?thesis by (simp only: ParseExponent_parts) (simp add: Let_def)
qed (simp add: ParseExponent_def)

lemma py_exponent_take:
  assumes "take_exponent s = (ep, r)"
  shows "py_exponent s = (ep \<noteq> [], fst (ParseExponent ep), r)"
proof (cases "ep = []")
  case True
  then have "s = r" using take_exponent_split [OF assms] by simp
  moreover have "py_exponent s = (False, 0, s)"
  proof (cases "1 < length s \<and> (hd s = CHR ''e'' \<or> hd s = CHR ''E'')")
    case e: True
    then have "\<not> digit_at (snd (sign_split (tl s)))"
      using assms True by (cases s) (auto simp: take_exponent_def split: prod.splits if_splits)
    then have "takeWhile IsAsciiDigit (if 1 < length (tl s) \<and> (hd (tl s) = CHR ''-'' \<or> hd (tl s) = CHR ''+'') then tl (tl s) else tl s) = []"
      using digit_chars(1,2) by (cases "tl s"; cases "tl (tl s)") (auto simp: digit_at_def sign_split_def split: if_splits)
    then show ?thesis using e by (auto simp: py_exponent_def Let_def)
  next
    case False
    then show ?thesis unfolding py_exponent_def by (simp only: if_False)
  qed
  ultimately show ?thesis using True by (simp add: ParseExponent_def)
next
  case False
  obtain e sg ds where ep: "ep = e # sg @ ds" "e = CHR ''e'' \<or> e = CHR ''E''" "sg = [] \<or> sg = ''+'' \<or> sg = ''-''" "digits1 ds"
    using take_exponent_split [OF assms] False by (auto simp: exp_part_def)
  have s: "s = e # sg @ ds @ r" using take_exponent_split [OF assms] ep by simp
  have d: "ds \<noteq> []" "list_all IsAsciiDigit ds" "IsAsciiDigit (hd ds)" using ep(4) by (cases ds; simp add: digits1_def)+
  have stop: "\<not> digit_at r"
  proof -
    have "r = dropWhile IsAsciiDigit (ds @ r)" using assms sign_split_append [OF ep(3,4)] ep digit_at_append [OF ep(4)]
      by (auto simp: take_exponent_def s split: if_splits)
    then show ?thesis by (metis digit_at_def hd_dropWhile)
  qed
  let ?s = "1 < length (tl s) \<and> (hd (tl s) = CHR ''-'' \<or> hd (tl s) = CHR ''+'')"
  have "(if ?s then tl (tl s) else tl s) = ds @ r" "(?s \<and> hd (tl s) = CHR ''-'') = (sg = ''-'')"
    using ep(3) d(1,3) digit_chars(1,2) by (cases ds; auto simp: s)+
  moreover have "takeWhile IsAsciiDigit (ds @ r) = ds" "dropWhile IsAsciiDigit (ds @ r) = r" using digits_take [OF d(2) stop] .
  moreover have "1 < length s" "hd s = e" using d(1) by (auto simp: s Suc_lessI)
  ultimately show ?thesis using ep(2) d(1) ParseExponent_parts [OF ep(2-4)] ep(1)
    by (simp add: py_exponent_def Let_def)
qed

lemma number_parts_plain:
  assumes "sg = [] \<or> sg = ''-''" and "int_part ip" and "frac_part fp" and "exp_part ep"
  shows "list_all plain (sg @ ip @ fp @ ep)"
proof -
  have d: "list_all plain ds" if "list_all IsAsciiDigit ds" for ds using that by (simp add: list_all_iff plain_def)
  have "list_all plain sg" using assms(1) by (auto simp: plain_def)
  moreover have "list_all plain ip" using assms(2) d [of ip] by (auto simp: int_part_def digits1_def plain_def digit_chars)
  moreover have "list_all plain fp" using assms(3) d [of "tl fp"] by (cases fp) (auto simp: frac_part_def digits1_def plain_def)
  moreover have "list_all plain ep" using assms(4) d by (auto simp: exp_part_def digits1_def plain_def)
  ultimately show ?thesis by simp
qed

lemma PyFloat_number:
  assumes "sg = [] \<or> sg = ''-''" and "int_part ip" and "frac_part fp" and "exp_part ep"
  shows "PyFloat (sg @ ip @ fp @ ep) =
    Inr (Some (DecimalToDouble (sg = ''-'') (ip @ tl fp) (fst (ParseExponent ep) - int (length (tl fp)))))"
proof -
  have ip: "ip \<noteq> []" "list_all IsAsciiDigit ip" "hd ip \<noteq> CHR ''+''" "hd ip \<noteq> CHR ''-''"
    using assms(2) int_part_first [OF assms(2)] digit_chars(1,2) by (auto simp: int_part_def digits1_def digit_chars)
  have s: "take_sign (sg @ ip @ fp @ ep) = (sg = ''-'', ip @ fp @ ep)"
    using assms(1) ip(1,3,4) by (cases ip) (auto simp: take_sign_def)
  have e: "\<not> digit_at ep" "ep \<noteq> [] \<longrightarrow> hd ep \<noteq> CHR ''.''" using exp_part_not_digit [OF assms(4), of "[]"] by (simp_all add: number_stop_def)
  have f: "\<not> digit_at (fp @ ep)" using assms(3) e(1) by (cases fp) (auto simp: frac_part_def digit_at_def digit_chars)
  have r: "(case fp @ ep of c # cs \<Rightarrow> if c = CHR ''.'' then (takeWhile IsAsciiDigit cs, dropWhile IsAsciiDigit cs) else ([], fp @ ep) | [] \<Rightarrow> ([], [])) = (tl fp, ep)"
  proof (cases fp)
    case Nil
    then show ?thesis using e(2) by (cases ep) auto
  next
    case (Cons c cs)
    then have "c = CHR ''.''" "list_all IsAsciiDigit cs" using assms(3) by (auto simp: frac_part_def digits1_def)
    then show ?thesis using digits_take [OF _ e(1)] by (simp add: Cons)
  qed
  have "ParseBody (sg @ ip @ fp @ ep) = Some (DecimalToDouble (sg = ''-'') (ip @ tl fp) (fst (ParseExponent ep) - int (length (tl fp))))"
    unfolding ParseBody_def s prod.case digits_take [OF ip(2) f] Let_def r
    using ip(1) ParseExponent_exp_part [OF assms(4)] by (cases "ParseExponent ep") simp
  moreover have "sg @ ip @ fp @ ep \<noteq> []" using ip(1) by simp
  ultimately show ?thesis using PyFloat_plain [OF number_parts_plain [OF assms]] by simp
qed

lemma py_of_number_parts:
  assumes "sg = [] \<or> sg = ''-''" and "int_part ip" and "frac_part fp" and "exp_part ep"
  shows "py_of_number (sg @ ip @ fp @ ep) =
    (if fp = [] \<and> ep = [] then VInt (if ip = ''0'' \<or> sg \<noteq> ''-'' then ip else ''-'' @ ip)
     else VFloat (DecimalToDouble (sg = ''-'') (ip @ tl fp) (fst (ParseExponent ep) - int (length (tl fp)))))"
proof -
  let ?t = "sg @ ip @ fp @ ep"
  have ip: "ip \<noteq> []" "list_all IsAsciiDigit ip" using assms(2) by (auto simp: int_part_def digits1_def digit_chars)
  have chars: "c \<notin> set ''.eENI''" if "c \<in> set sg \<or> c \<in> set ip" for c
    using that assms(1) ip(2) by (auto simp: list_all_iff IsAsciiDigit_def)
  have "\<exists>c \<in> set fp. c \<in> set ''.eENI''" if "fp \<noteq> []" using that assms(3) by (cases fp) (auto simp: frac_part_def)
  moreover have "\<exists>c \<in> set ep. c \<in> set ''.eENI''" if "ep \<noteq> []"
  proof -
    obtain e u where "ep = e # u" "e = CHR ''e'' \<or> e = CHR ''E''" using \<open>ep \<noteq> []\<close> assms(4) unfolding exp_part_def by blast
    then show ?thesis by (intro bexI [of _ e]) auto
  qed
  ultimately have int: "IsIntegerText (JNumber ?t) \<longleftrightarrow> fp = [] \<and> ep = []"
    using ip(1) chars by (auto simp: IsIntegerText_def list_all_iff)
  have re: "number_re ?t" using assms unfolding number_re_def by blast
  have "\<not> number_re ''NaN''" "\<not> number_re ''Infinity''" "\<not> number_re ''-Infinity''"
    using number_text_first [of "''NaN''"] number_text_first [of "''Infinity''"] number_text_first [of "''-Infinity''"]
    by (auto simp: digit_chars)
  then have "?t \<noteq> ''NaN''" "?t \<noteq> ''Infinity''" "?t \<noteq> ''-Infinity''" using re by metis+
  then have "AsDouble (JNumber ?t) = Inr (DecimalToDouble (sg = ''-'') (ip @ tl fp) (fst (ParseExponent ep) - int (length (tl fp))))"
    using re PyFloat_number [OF assms] by (simp add: AsDouble_def IsJsonNumberText_number_re)
  moreover have "sg @ ip = ''-0'' \<longleftrightarrow> sg = ''-'' \<and> ip = ''0''"
    using assms(1) ip digit_chars(1) by (cases ip) auto
  ultimately show ?thesis using int assms(1) by (auto simp: py_of_number_def)
qed

lemma agree_number: "s \<noteq> [] \<Longrightarrow> agree (\<lambda>v. case v of JNumber t \<Rightarrow> py_of_number t | _ \<Rightarrow> VNone) (ParseNumber s) (PyParseNumber s)"
proof -
  assume ne: "s \<noteq> []"
  define sg where "sg = (if hd s = CHR ''-'' then [hd s] else [])"
  define s1 where "s1 = (if hd s = CHR ''-'' then tl s else s)"
  obtain ip s2 where ip: "(if hd s1 = CHR ''0'' then ([hd s1], tl s1) else (takeWhile IsAsciiDigit s1, dropWhile IsAsciiDigit s1)) = (ip, s2)" by fastforce
  obtain fp s3 where f: "take_fraction s2 = (fp, s3)" by fastforce
  obtain ep s4 where e: "take_exponent s3 = (ep, s4)" by fastforce
  have j: "ParseNumber s = (if s1 = [] \<or> \<not> IsAsciiDigit (hd s1) then Inl (Fail ''Expecting value'' s1) else Inr (JNumber (sg @ ip @ fp @ ep), s4))"
  proof -
    have "(if s \<noteq> [] \<and> hd s = CHR ''-'' then ([hd s], tl s) else ([], s)) = (sg, s1)" by (simp add: sg_def s1_def ne)
    then show ?thesis unfolding ParseNumber_def by (simp add: Let_def ip f e)
  qed
  let ?frac = "1 < length s2 \<and> hd s2 = CHR ''.'' \<and> IsAsciiDigit (s2 ! 1)"
  have fr: "?frac = (fp \<noteq> [])" "(if fp \<noteq> [] then takeWhile IsAsciiDigit (tl s2) else []) = tl fp" "(if fp \<noteq> [] then dropWhile IsAsciiDigit (tl s2) else s2) = s3"
    using f by (cases s2; cases "tl s2"; auto simp: take_fraction_def digit_at_def split: if_splits)+
  have p: "PyParseNumber s = (if s1 = [] \<or> \<not> IsAsciiDigit (hd s1) then Inl (PyFail ''Expecting value'' s1)
      else if fp = [] \<and> ep = [] then Inr (VInt (if ip = ''0'' \<or> hd s \<noteq> CHR ''-'' then ip else ''-'' @ ip), s4)
      else Inr (VFloat (DecimalToDouble (hd s = CHR ''-'') (ip @ tl fp) (fst (ParseExponent ep) - int (length (tl fp)))), s4))"
    unfolding PyParseNumber_def Let_def s1_def [symmetric] ip prod.case fr py_exponent_take [OF e] by auto
  have "py_of_number (sg @ ip @ fp @ ep) =
    (if fp = [] \<and> ep = [] then VInt (if ip = ''0'' \<or> sg \<noteq> ''-'' then ip else ''-'' @ ip)
     else VFloat (DecimalToDouble (sg = ''-'') (ip @ tl fp) (fst (ParseExponent ep) - int (length (tl fp)))))"
    if "s1 \<noteq> []" "IsAsciiDigit (hd s1)"
  proof (rule py_of_number_parts)
    show "sg = [] \<or> sg = ''-''" by (simp add: sg_def)
    show "int_part ip" using that ip digits1_takeWhile [of s1] by (cases s1) (auto simp: int_part_def digit_at_def split: if_splits)
    show "frac_part fp" "exp_part ep" using take_fraction_split [OF f] take_exponent_split [OF e] by blast+
  qed
  moreover have "sg = ''-'' \<longleftrightarrow> hd s = CHR ''-''" by (simp add: sg_def)
  ultimately show ?thesis by (auto simp: j p)
qed

subsection \<open>Documents\<close>

fun py_of :: "JsonValue \<Rightarrow> PyValue" where
  "py_of JNull = VNone"
| "py_of (JBool b) = VBool b"
| "py_of (JNumber t) = py_of_number t"
| "py_of (JString str) = VStr str"
| "py_of (JArray xs) = VList (map py_of xs)"
| "py_of (JObject ms) = VDict (map (\<lambda>(k, v). (k, py_of v)) ms)"

abbreviation compat :: JsonParseOptions where
  "compat \<equiv> \<lparr>PythonCompat = True, StrictControlChars = True\<rparr>"

lemma agree_mono: "agree f a b \<Longrightarrow> (\<And>v r. a = Inr (v, r) \<Longrightarrow> f v = g v) \<Longrightarrow> agree g a b"
  by (erule agree_cases) simp_all

lemma agree_number_value: "s \<noteq> [] \<Longrightarrow> agree py_of (ParseNumber s) (PyParseNumber s)"
  by (rule agree_mono [OF agree_number]) (auto elim: ParseNumber_split)

lemma py_of_constants:
  "py_of_number ''NaN'' = VFloat NotANumber" "py_of_number ''Infinity'' = VFloat (Infinity False)" "py_of_number ''-Infinity'' = VFloat (Infinity True)"
  by (simp_all add: py_of_number_def IsIntegerText_def AsDouble_def)

lemma agree_scalar:
  assumes "s \<noteq> []" shows "agree py_of (ParseScalar compat s) (PyParseScalar s)"
proof -
  obtain c cs where s: "s = c # cs" using assms by (cases s) auto
  have num: "agree py_of (ParseNumber s) (PyParseNumber s)" by (rule agree_number_value [OF assms])
  have no: "Consume (a # lit) s = None" if "a \<noteq> c" for a lit using that by (simp add: s Consume_differs)
  consider "c = CHR 0x22" | "c = CHR ''n''" | "c = CHR ''t''" | "c = CHR ''f''" | "c = CHR ''N''" | "c = CHR ''I''" | "c = CHR ''-''" | "IsAsciiDigit c"
    | "c \<notin> {CHR 0x22, CHR ''n'', CHR ''t'', CHR ''f'', CHR ''N'', CHR ''I'', CHR ''-''}" "\<not> IsAsciiDigit c" by blast
  then show ?thesis
  proof cases
    case 1
    have "agree (\<lambda>x. x) (string_loop True cs) (py_string_loop cs)" by (rule agree_string_loop)
    then show ?thesis by (cases rule: agree_cases) (simp_all add: 1 s ParseScalar_def PyParseScalar_def ParseString_def PyParseString_def)
  next
    case 8
    then have c: "c \<noteq> CHR 0x22" "c \<noteq> CHR ''n''" "c \<noteq> CHR ''t''" "c \<noteq> CHR ''f''" "c \<noteq> CHR ''N''" "c \<noteq> CHR ''I''" "c \<noteq> CHR ''-''"
      by (auto simp: IsAsciiDigit_def)
    have "Consume ''null'' s = None" "Consume ''true'' s = None" "Consume ''false'' s = None" "Consume ''NaN'' s = None" "Consume ''Infinity'' s = None"
      "Consume ''-Infinity'' s = None" using c by (auto intro!: no)
    then have "ParseScalar compat s = ParseNumber s" "PyParseScalar s = PyParseNumber s"
      using 8 c by (simp_all add: ParseScalar_def PyParseScalar_def s Let_def)
    then show ?thesis using num by simp
  next
    case 9
    have "Consume ''null'' s = None" "Consume ''true'' s = None" "Consume ''false'' s = None" "Consume ''NaN'' s = None" "Consume ''Infinity'' s = None"
      "Consume ''-Infinity'' s = None" using 9 by (auto intro!: no)
    then show ?thesis using 9 by (simp add: ParseScalar_def PyParseScalar_def s Let_def)
  next
    case 7
    then show ?thesis using num no [of "CHR ''n''"] no [of "CHR ''t''"] no [of "CHR ''f''"] no [of "CHR ''N''"] no [of "CHR ''I''"]
      by (cases "Consume ''-Infinity'' s") (simp_all add: ParseScalar_def PyParseScalar_def s Let_def Literal_Consume py_of_constants)
  next
    case 2
    show ?thesis by (cases "Consume ''null'' s") (simp_all add: 2 s ParseScalar_def PyParseScalar_def Let_def Literal_Consume digit_chars Consume_differs IsAsciiDigit_def)
  next
    case 3
    show ?thesis by (cases "Consume ''true'' s") (simp_all add: 3 s ParseScalar_def PyParseScalar_def Let_def Literal_Consume digit_chars Consume_differs IsAsciiDigit_def)
  next
    case 4
    show ?thesis by (cases "Consume ''false'' s") (simp_all add: 4 s ParseScalar_def PyParseScalar_def Let_def Literal_Consume digit_chars Consume_differs IsAsciiDigit_def)
  next
    case 5
    show ?thesis by (cases "Consume ''NaN'' s") (simp_all add: 5 s ParseScalar_def PyParseScalar_def Let_def Literal_Consume digit_chars Consume_differs IsAsciiDigit_def py_of_constants)
  next
    case 6
    show ?thesis by (cases "Consume ''Infinity'' s") (simp_all add: 6 s ParseScalar_def PyParseScalar_def Let_def Literal_Consume digit_chars Consume_differs IsAsciiDigit_def py_of_constants)
  qed
qed

text \<open>A pair of element parsers that agree, and refuse a closing bracket; the containers built on them
  agree.\<close>

locale agreeing_parsers =
  fixes p :: "string \<Rightarrow> JsonValue parse" and q :: "string \<Rightarrow> PyValue pyparse"
  assumes agrees: "agree py_of (p s) (q s)"
    and refuses: "\<exists>e. p (CHR '']'' # s) = Inl e"
begin

lemma agree_array_loop: "agree py_of (array_loop n p items s) (py_array_loop n q (map py_of items) (SkipWhitespace s))"
proof (induction n arbitrary: items s)
  case (Suc n)
  have "agree py_of (p (SkipWhitespace s)) (q (SkipWhitespace s))" by (rule agrees)
  then show ?case
  proof (cases rule: agree_cases)
    case (ok v r)
    show ?thesis
    proof (cases "SkipWhitespace r")
      case Nil
      then show ?thesis using ok by (simp add: SkipWs_SkipWhitespace at_char_def Let_def)
    next
      case (Cons c cs)
      show ?thesis
      proof (cases "c = CHR '','' \<and> at_char (CHR '']'') (SkipWhitespace cs)")
        case True
        then obtain t where t: "SkipWhitespace cs = CHR '']'' # t" by (cases "SkipWhitespace cs") (auto simp: at_char_def)
        then obtain e where "p (SkipWhitespace cs) = Inl e" using refuses by auto
        then have "\<exists>e. array_loop n p (items @ [v]) cs = Inl e" by (cases n) auto
        then show ?thesis using ok Cons True by (auto simp: SkipWs_SkipWhitespace at_char_def Let_def)
      next
        case False
        then show ?thesis using ok Cons Suc.IH [of "items @ [v]" cs]
          by (auto simp: SkipWs_SkipWhitespace at_char_def Let_def)
      qed
    qed
  qed simp
qed simp

lemma agree_array: "agree py_of (ParseArray p s) (PyParseArray q s)"
  using agree_array_loop [of "Suc (length (SkipWhitespace (tl s)))" "[]" "SkipWhitespace (tl s)", unfolded SkipWhitespace_idem list.map]
  by (cases "SkipWhitespace (tl s)")
     (simp_all add: ParseArray_def PyParseArray_def Let_def SkipWs_SkipWhitespace at_char_def SkipWhitespace_idem del: array_loop.simps py_array_loop.simps)

lemma agree_object_loop:
  "agree py_of (object_loop n True p members s) (py_object_loop n q (map (\<lambda>(k, v). (k, py_of v)) members) (SkipWhitespace s))"
proof (induction n arbitrary: members s)
  case (Suc n)
  show ?case
  proof (cases "at_char (CHR 0x22) (SkipWhitespace s)")
    case False
    then show ?thesis by (auto simp: at_char_def Let_def)
  next
    case start: True
    have "agree (\<lambda>x. x) (ParseString True (SkipWhitespace s)) (PyParseString (SkipWhitespace s))"
      by (simp add: ParseString_def PyParseString_def agree_string_loop)
    then show ?thesis
    proof (cases rule: agree_cases)
      case (fail e e')
      then show ?thesis using start by (auto simp: at_char_def Let_def)
    next
      case key: (ok key r)
      show ?thesis
      proof (cases "at_char (CHR '':'') (SkipWhitespace r)")
        case False
        then show ?thesis using start key by (auto simp: at_char_def Let_def SkipWs_SkipWhitespace)
      next
        case colon: True
        let ?u = "SkipWhitespace (tl (SkipWhitespace r))"
        have "agree py_of (p ?u) (q ?u)" by (rule agrees)
        then show ?thesis
        proof (cases rule: agree_cases)
          case (fail e e')
          then show ?thesis using start key colon by (auto simp: at_char_def Let_def SkipWs_SkipWhitespace)
        next
          case (ok v t)
          have up: "AList.update key (py_of v) (map (\<lambda>(k, v). (k, py_of v)) members) = map (\<lambda>(k, v). (k, py_of v)) (AList.update key v members)"
            by (induction members) auto
          show ?thesis
          proof (cases "SkipWhitespace t")
            case Nil
            then show ?thesis using start key colon ok by (simp add: at_char_def Let_def SkipWs_SkipWhitespace)
          next
            case (Cons c cs)
            show ?thesis
            proof (cases "c = CHR '','' \<and> at_char (CHR ''}'') (SkipWhitespace cs)")
              case True
              then have "\<exists>e. object_loop n True p (AList.update key v members) cs = Inl e" by (cases n) (auto simp: at_char_def Let_def)
              then show ?thesis using start key colon ok Cons True by (auto simp: at_char_def Let_def SkipWs_SkipWhitespace)
            next
              case False
              then show ?thesis using start key colon ok Cons Suc.IH [of "AList.update key v members" cs] up
                by (auto simp: at_char_def Let_def SkipWs_SkipWhitespace)
            qed
          qed
        qed
      qed
    qed
  qed
qed simp

lemma agree_object: "agree py_of (ParseObject True p s) (PyParseObject q s)"
  using agree_object_loop [of "Suc (length (SkipWhitespace (tl s)))" "[]" "SkipWhitespace (tl s)", unfolded SkipWhitespace_idem list.map]
  by (cases "SkipWhitespace (tl s)")
     (simp_all add: ParseObject_def PyParseObject_def Let_def SkipWs_SkipWhitespace at_char_def SkipWhitespace_idem del: object_loop.simps py_object_loop.simps)

end

lemma ParseValue_refuses: "\<exists>e. ParseValue compat k (CHR '']'' # s) = Inl e"
  by (cases k) (simp_all add: ParseScalar_def Consume_differs digit_chars)

lemma agreeing_ParseValue: "agreeing_parsers (ParseValue compat k) (PyParseValue k)"
proof (induction k)
  case 0
  show ?case
  proof
    show "agree py_of (ParseValue compat 0 s) (PyParseValue 0 s)" for s using agree_scalar [of s] by simp
  qed (rule ParseValue_refuses)
next
  case (Suc k)
  show ?case
  proof
    fix s
    show "agree py_of (ParseValue compat (Suc k) s) (PyParseValue (Suc k) s)"
      using agreeing_parsers.agree_array [OF Suc, of s] agreeing_parsers.agree_object [OF Suc, of s] agree_scalar [of s] by simp
  qed (rule ParseValue_refuses)
qed

interpretation loads: agreeing_parsers "ParseValue compat k" "PyParseValue k"
  by (rule agreeing_ParseValue)

text \<open>C27. The two JSON parsers of the program agree: \<^verbatim>\<open>json.loads\<close> and \<^verbatim>\<open>JsonParse\<close> in its Python compatible mode accept
  the same texts, and where they accept, the Python value is the image of the document, its integers exact and its
  floats the doubles \<^verbatim>\<open>AsDouble\<close> reads; where one fails the other fails, and both always return.\<close>

theorem json_decoders_agree:
  "case JsonParse compat text of
     Some (Inr v) \<Rightarrow> PyJsonLoads text = Some (Inr (py_of v))
   | Some (Inl e) \<Rightarrow> (\<exists>e'. PyJsonLoads text = Some (Inl e'))
   | None \<Rightarrow> False"
  using loads.agrees [of kMaxJsonDepth "SkipWhitespace text"]
proof (cases rule: agree_cases)
  case (fail e e')
  then obtain msg r where e: "e = Fail msg r" using doc.fails [OF fail(1)] by blast
  then have "e' \<noteq> PyOutOfFuel" using fail by auto
  then show ?thesis using fail e
    by (cases e') (simp_all add: JsonParse_def ParseDocument_def PyJsonLoads_def Document_def SkipWs_SkipWhitespace)
next
  case (ok v r)
  then show ?thesis
    by (simp add: JsonParse_def ParseDocument_def PyJsonLoads_def Document_def SkipWs_SkipWhitespace Let_def)
qed

end
