(* ===== verification/PySets.thy ===== *)
theory PySets
  imports PyJson
begin

text \<open>
  Python equality, hashing and sets of \<^verbatim>\<open>src/diff/PyValue.cpp\<close>. Equality is shown to be an equivalence relation
  that compares numbers of different types by value, the hash to respect it, and the hash set to be the
  set of the classes of its elements, in order of first insertion.
\<close>

section \<open>Numbers\<close>

text \<open>\<^verbatim>\<open>IntegralDoubleDigits\<close> of an integral finite double: sign and magnitude.\<close>

definition IntegralDoubleDigits :: "bool \<Rightarrow> rat \<Rightarrow> string" where
  "IntegralDoubleDigits neg m =
     (if m = 0 then ''0''
      else
        (let digits = (if m < 9007199254740992 then dec_nat (nat \<lfloor>m\<rfloor>)
                       else (case ExactDecimal m of (ds, decpt) \<Rightarrow> ds @ replicate (nat (decpt - int (length ds))) (CHR ''0'')))
         in if neg then ''-'' @ digits else digits))"

definition IsIntegralFinite :: "flt \<Rightarrow> bool" where
  "IsIntegralFinite x = (case x of Finite neg m \<Rightarrow> of_int \<lfloor>m\<rfloor> = m | _ \<Rightarrow> False)"

definition IntegralDigits :: "PyValue \<Rightarrow> string option" where
  "IntegralDigits v =
     (case v of
        VBool b \<Rightarrow> Some (if b then ''1'' else ''0'')
      | VInt ds \<Rightarrow> Some ds
      | VFloat x \<Rightarrow> (case x of
            Finite neg m \<Rightarrow> if IsIntegralFinite x then Some (IntegralDoubleDigits neg m) else None
          | _ \<Rightarrow> None)
      | _ \<Rightarrow> None)"

definition IsNumeric :: "PyValue \<Rightarrow> bool" where
  "IsNumeric v = (case v of VBool _ \<Rightarrow> True | VInt _ \<Rightarrow> True | VFloat _ \<Rightarrow> True | _ \<Rightarrow> False)"

text \<open>FNV-1a on 64-bit words.\<close>

definition HashBytes :: "string \<Rightarrow> 64 word \<Rightarrow> 64 word" where
  "HashBytes bytes seed =
     (let h = foldl (\<lambda>h c. (h XOR of_char c) * 1099511628211) (1469598103934665603 XOR seed) bytes
      in h XOR drop_bit 29 h)"

section \<open>Equality and hash\<close>

definition is_float :: "PyValue \<Rightarrow> bool" where
  "is_float v = (case v of VFloat _ \<Rightarrow> True | _ \<Rightarrow> False)"

text \<open>The numeric branch of \<^verbatim>\<open>PyEquals\<close>.\<close>

definition numeric_equals :: "PyValue \<Rightarrow> PyValue \<Rightarrow> bool" where
  "numeric_equals a b =
     (case (a, b) of
        (VFloat x, VFloat y) \<Rightarrow> if x = NotANumber \<and> y = NotANumber then True else flt_eq x y
      | _ \<Rightarrow>
          if is_float a \<or> is_float b
          then (let f = (if is_float a then a else b); i = (if is_float a then b else a)
                in IntegralDigits f \<noteq> None \<and> IntegralDigits f = IntegralDigits i)
          else IntegralDigits a = IntegralDigits b)"

function (sequential) PyEquals :: "PyValue \<Rightarrow> PyValue \<Rightarrow> bool" where
  "PyEquals VNone VNone = True"
| "PyEquals (VStr s) (VStr t) = (s = t)"
| "PyEquals (VList xs) (VList ys) = (length xs = length ys \<and> (\<forall>(x, y) \<in> set (zip xs ys). PyEquals x y))"
| "PyEquals (VDict ms) (VDict ns) =
     (length ms = length ns \<and> (\<forall>m \<in> set ms. case map_of ns (fst m) of Some w \<Rightarrow> PyEquals (snd m) w | None \<Rightarrow> False))"
| "PyEquals a b = (if IsNumeric a \<and> IsNumeric b then numeric_equals a b else False)"
  by pat_completeness auto
termination
proof (relation "measure (\<lambda>(a, b). size a)", goal_cases)
  case (2 xs ys z x y)
  then have "x \<in> set xs" by (auto dest: set_zip_leftD)
  then have "size x \<le> size_list size xs" by (rule size_list_estimation') simp
  then show ?case by simp
next
  case (3 ms ns m w)
  have "size (snd m) \<le> size_prod (\<lambda>_. 0) size m" by (cases m) simp
  moreover have "size_prod (\<lambda>_. 0) size m \<le> size_list (size_prod (\<lambda>_. 0) size) ms" using 3 by (auto intro: size_list_estimation')
  ultimately show ?case by simp
qed simp

text \<open>The representation of a finite double that is not an integer, and of the infinities: sign bit, biased exponent,
  fraction; \<^verbatim>\<open>memcpy\<close> reads its bytes in little-endian order.\<close>

definition double_bits :: "flt \<Rightarrow> 64 word" where
  "double_bits x =
     (case x of
        NotANumber \<Rightarrow> 0x7FF8000000000000
      | Infinity neg \<Rightarrow> if neg then 0xFFF0000000000000 else 0x7FF0000000000000
      | Finite neg m \<Rightarrow>
          (if neg then 0x8000000000000000 else 0) +
          (if m = 0 then 0
           else if exponent m \<ge> - 1022
           then of_int ((exponent m + 1023) * 2 ^ 52 + (\<lfloor>m / pow2 (exponent m - 52)\<rfloor> - 2 ^ 52))
           else of_int \<lfloor>m / pow2 (- 1074)\<rfloor>))"

definition word_bytes :: "64 word \<Rightarrow> string" where
  "word_bytes w = map (\<lambda>i. char_of (unat (drop_bit (8 * i) w AND 0xFF))) [0..<8]"

definition PyHash :: "PyValue \<Rightarrow> 64 word result" where
  "PyHash v =
     (case v of
        VNone \<Rightarrow> Inr 0x9e3779b97f4a7c15
      | VStr s \<Rightarrow> Inr (HashBytes s 0x53)
      | VList _ \<Rightarrow> Inl (DiaphoraWouldRaise ''hash'' (''TypeError: unhashable type: '' @ quote @ KindName v @ quote))
      | VDict _ \<Rightarrow> Inl (DiaphoraWouldRaise ''hash'' (''TypeError: unhashable type: '' @ quote @ KindName v @ quote))
      | VFloat NotANumber \<Rightarrow> Inr 0x7ff8
      | _ \<Rightarrow>
          (case IntegralDigits v of
             Some ds \<Rightarrow> Inr (HashBytes ds 0x49)
           | None \<Rightarrow> (case v of VFloat x \<Rightarrow> Inr (HashBytes (word_bytes (double_bits x)) 0x46) | _ \<Rightarrow> Inr 0)))"

section \<open>Sets\<close>

record PySet =
  Set_Items :: "PyValue list"
  Set_Index :: "(64 word \<times> 32 word) list"

definition empty_PySet :: PySet where
  "empty_PySet = \<lparr>Set_Items = [], Set_Index = []\<rparr>"

definition unhashable :: "PyValue \<Rightarrow> diff_error" where
  "unhashable v = DiaphoraWouldRaise ''set'' (''TypeError: unhashable type: '' @ quote @ KindName v @ quote)"

text \<open>The elements of the bucket: \<^verbatim>\<open>equal_range\<close>.\<close>

definition bucket_has :: "PySet \<Rightarrow> 64 word \<Rightarrow> PyValue \<Rightarrow> bool" where
  "bucket_has s h v \<longleftrightarrow> list_ex (\<lambda>(h', i). h' = h \<and> PyEquals (Set_Items s ! unat i) v) (Set_Index s)"

definition Set_Insert :: "PySet \<Rightarrow> PyValue \<Rightarrow> (PySet \<times> bool) result" where
  "Set_Insert s v =
     (if \<not> Hashable v then Inl (unhashable v)
      else bindE (PyHash v) (\<lambda>h.
        if bucket_has s h v then Inr (s, False)
        else Inr (s\<lparr>Set_Index := Set_Index s @ [(h, of_nat (length (Set_Items s)))], Set_Items := Set_Items s @ [v]\<rparr>, True)))"

definition Set_Contains :: "PySet \<Rightarrow> PyValue \<Rightarrow> bool result" where
  "Set_Contains s v =
     (if \<not> Hashable v then Inl (unhashable v) else bindE (PyHash v) (\<lambda>h. Inr (bucket_has s h v)))"

primrec from_list_loop :: "PySet \<Rightarrow> PyValue list \<Rightarrow> PySet result" where
  "from_list_loop s [] = Inr s"
| "from_list_loop s (x # xs) = bindE (Set_Insert s x) (\<lambda>(s', _). from_list_loop s' xs)"

definition PySetFromList :: "PyValue list \<Rightarrow> PySet result" where
  "PySetFromList items = from_list_loop empty_PySet items"

primrec intersection_loop :: "bool \<Rightarrow> PySet \<Rightarrow> PyValue list \<Rightarrow> PyValue list result" where
  "intersection_loop from_diff d [] = Inr []"
| "intersection_loop from_diff d (x # xs) =
     bindE (Set_Contains d x) (\<lambda>has.
       if \<not> has then intersection_loop from_diff d xs
       else bindE (intersection_loop from_diff d xs) (\<lambda>rest.
         Inr ((if from_diff \<and> (case x of VStr _ \<Rightarrow> False | VNone \<Rightarrow> False | _ \<Rightarrow> True)
               then (case List.find (\<lambda>y. PyEquals y x) (Set_Items d) of Some y \<Rightarrow> [y] | None \<Rightarrow> [])
               else [x]) @ rest)))"

definition PySetIntersection :: "PySet \<Rightarrow> PySet \<Rightarrow> PyValue list result" where
  "PySetIntersection main d = intersection_loop (length (Set_Items d) \<le> length (Set_Items main)) d (Set_Items main)"

primrec count_loop :: "PySet \<Rightarrow> nat \<Rightarrow> PyValue list \<Rightarrow> nat result" where
  "count_loop large count [] = Inr count"
| "count_loop large count (x # xs) = bindE (Set_Contains large x) (\<lambda>has. count_loop large (if has then count + 1 else count) xs)"

definition PySetIntersectionSize :: "PySet \<Rightarrow> PySet \<Rightarrow> nat result" where
  "PySetIntersectionSize a b =
     (if length (Set_Items a) \<le> length (Set_Items b) then count_loop b 0 (Set_Items a) else count_loop a 0 (Set_Items b))"

definition PyStr :: "PyValue \<Rightarrow> string result" where
  "PyStr v =
     (case v of
        VNone \<Rightarrow> Inr ''None''
      | VBool b \<Rightarrow> Inr (if b then ''True'' else ''False'')
      | VInt ds \<Rightarrow> Inr ds
      | VFloat x \<Rightarrow> Inr (PyReprFloat x)
      | VStr s \<Rightarrow> Inr s
      | _ \<Rightarrow> Inl (UnsupportedInput (''PyStr: str() of a '' @ KindName v @ '' is not ported'')))"

section \<open>Integral doubles\<close>

lemma leading_snoc: "leading (ds @ [d]) \<Longrightarrow> ds \<noteq> [] \<Longrightarrow> leading ds \<and> IsAsciiDigit d"
  by (auto simp: leading_def dec_digits_append)

lemma leading_dec_nat_unique: "leading ds \<Longrightarrow> ds = dec_nat (digits_value ds)"
proof (induction ds rule: rev_induct)
  case (snoc d ds)
  have d: "IsAsciiDigit d" using snoc.prems by (cases ds) (auto simp: leading_def dec_digits_append)
  then have v: "48 \<le> (of_char d :: nat)" "of_char d - 48 < (10 :: nat)" "digit_char (of_char d - 48) = d"
    by (auto simp: IsAsciiDigit_def digit_char_def)
  show ?case
  proof (cases "ds = []")
    case True
    then show ?thesis using v by (simp add: digits_value_snoc [of "[]", simplified] digits_value_def dec_nat.simps)
  next
    case False
    have l: "leading ds" using leading_snoc [OF snoc.prems False] by blast
    then obtain c cs where "ds = c # cs" "c \<noteq> CHR ''0''" "IsAsciiDigit c" by (cases ds) (auto simp: leading_def)
    then have "0 < digits_value ds" using digits_value_ge [of c cs] l by (auto simp: leading_def intro: less_le_trans [rotated])
    moreover define x where "x = (of_char d - 48 :: nat)"
    ultimately have "digits_value (ds @ [d]) = 10 * digits_value ds + x" "0 < digits_value ds" "x < 10" "digit_char x = d"
      using v by (simp_all add: digits_value_snoc)
    then show ?thesis using snoc.IH [OF l] by (subst dec_nat.simps) simp
  qed
qed (simp add: leading_def)

lemma strip_trailing_last: "strip_trailing_zeros ds \<noteq> [] \<Longrightarrow> last (strip_trailing_zeros ds) \<noteq> CHR ''0''"
  using hd_dropWhile [of "\<lambda>c. c = CHR ''0''" "rev ds"] by (simp add: strip_trailing_zeros_def last_rev)

lemma ExactDecimal_stripped: "ExactDecimal v = (D, p) \<Longrightarrow> \<exists>ds. D = strip_trailing_zeros ds"
  by (auto simp: ExactDecimal_def Let_def split: prod.splits if_splits)

lemma exact_integer:
  assumes "0 < n" and "is_double (of_nat n)" and "ExactDecimal (of_nat n) = (D, p)"
  shows "D @ replicate (nat (p - int (length D))) (CHR ''0'') = dec_nat n"
proof -
  have D: "leading D" "dec_val D p = of_nat n" using ExactDecimal_value [of "of_nat n" D p] assms by simp_all
  obtain ds where ds: "D = strip_trailing_zeros ds" using ExactDecimal_stripped [OF assms(3)] by blast
  have le: "int (length D) \<le> p"
  proof (rule ccontr)
    assume "\<not> ?thesis"
    then have k: "0 < nat (int (length D) - p)" by simp
    let ?k = "nat (int (length D) - p)"
    have "pow10 (p - int (length D)) * pow10 (int ?k) = 1" using k by (simp add: pow10_add [symmetric]) (simp add: pow10_def)
    then have "of_nat (digits_value D) = of_nat n * pow10 (int ?k)"
      using D(2) [unfolded dec_val_def] by (metis mult.assoc mult.right_neutral)
    also have "\<dots> = of_nat (n * 10 ^ ?k)" by (simp only: pow10_nat of_nat_mult)
    finally have "digits_value D = n * 10 ^ ?k" by (simp only: of_nat_eq_iff)
    then have "digits_value D mod 10 = 0" using k by (cases ?k) auto
    moreover obtain e d where e: "D = e @ [d]" using D(1) by (cases D rule: rev_cases) (auto simp: leading_def)
    moreover have "48 \<le> (of_char d :: nat)" "of_char d \<le> (57 :: nat)" using D(1) e by (auto simp: leading_def dec_digits_append IsAsciiDigit_def)
    moreover define x where "x = (of_char d - 48 :: nat)"
    ultimately have "(10 * digits_value e + x) mod 10 = 0" "x < 10" "of_char d = 48 + x" by (simp_all add: digits_value_snoc)
    then have "of_char d = (48 :: nat)" by simp
    then have "digit_char 0 = d" unfolding digit_char_def by (metis add.right_neutral char_of_char)
    then have "d = CHR ''0''" by (simp add: digit_char_0)
    then show False using strip_trailing_last [of ds] D(1) e by (auto simp: ds leading_def)
  qed
  let ?z = "nat (p - int (length D))"
  have "pow10 (p - int (length D)) = of_nat (10 ^ ?z)" using le pow10_nat [of ?z] by simp
  then have "of_nat (digits_value D * 10 ^ ?z) = (of_nat n :: rat)" using D(2) by (simp add: dec_val_def)
  then have "digits_value (D @ replicate ?z (CHR ''0'')) = n"
    by (simp only: of_nat_eq_iff) (simp add: digits_value_append digits_value_zeros)
  moreover have "leading (D @ replicate ?z (CHR ''0''))"
    using D(1) by (auto simp: leading_def dec_digits_append dec_digits_def list_all_iff)
  ultimately show ?thesis using leading_dec_nat_unique by metis
qed

lemma IntegralDoubleDigits_value:
  assumes "is_double (of_nat n)"
  shows "IntegralDoubleDigits neg (of_nat n) = dec_int (if neg then - int n else int n)"
proof (cases "n = 0")
  case True
  then show ?thesis by (simp add: IntegralDoubleDigits_def dec_int_def dec_nat.simps [of 0] digit_char_0)
next
  case False
  then have "(case ExactDecimal (of_nat n) of (ds, decpt) \<Rightarrow> ds @ replicate (nat (decpt - int (length ds))) (CHR ''0'')) = dec_nat n"
    using exact_integer [of n] assms by (cases "ExactDecimal (of_nat n)") simp
  moreover have "nat \<lfloor>of_nat n :: rat\<rfloor> = n" by (simp add: floor_of_nat)
  ultimately show ?thesis using False by (simp add: IntegralDoubleDigits_def dec_int_def Let_def)
qed

section \<open>Equality is an equivalence\<close>

text \<open>Values as \<^verbatim>\<open>json.loads\<close> makes them: integers in canonical decimal, doubles, dictionaries without a repeated key.\<close>

fun py_wf :: "PyValue \<Rightarrow> bool" where
  "py_wf (VInt ds) = (\<exists>i. ds = dec_int i)"
| "py_wf (VFloat (Finite neg m)) = (0 \<le> m \<and> is_double m)"
| "py_wf (VList xs) = (\<forall>x \<in> set xs. py_wf x)"
| "py_wf (VDict ms) = (distinct (keys ms) \<and> (\<forall>m \<in> set ms. py_wf (snd m)))"
| "py_wf _ = True"

text \<open>What identifies a number: its digits when it is an integer, itself otherwise.\<close>

definition num_key :: "PyValue \<Rightarrow> string + flt" where
  "num_key v = (case IntegralDigits v of Some ds \<Rightarrow> Inl ds | None \<Rightarrow> (case v of VFloat x \<Rightarrow> Inr x | _ \<Rightarrow> Inl []))"

lemma dec_int_inj: "dec_int i = dec_int j \<longleftrightarrow> i = j"
proof
  have hd: "hd (dec_nat n) \<noteq> CHR ''-''" for n using dec_nat_chars [of "hd (dec_nat n)" n] by auto
  have ne: "CHR ''-'' # xs \<noteq> dec_nat n" for xs n using hd [of n] by (metis list.sel(1))
  assume "dec_int i = dec_int j"
  then show "i = j" using ne by (auto simp: dec_int_def dec_nat_inj split: if_splits dest: sym)
qed simp

lemma integral_nat: "0 \<le> m \<Longrightarrow> of_int \<lfloor>m\<rfloor> = (m :: rat) \<Longrightarrow> \<exists>n. m = of_nat n"
  by (metis of_int_of_nat_eq zero_le_floor nonneg_int_cases)

lemma integral_digits_float:
  assumes "py_wf (VFloat (Finite neg m))" and "IsIntegralFinite (Finite neg m)"
  shows "IntegralDoubleDigits neg m = dec_int \<lfloor>flt_value neg m\<rfloor>" "of_int \<lfloor>flt_value neg m\<rfloor> = flt_value neg m"
proof -
  obtain n where n: "m = of_nat n" using integral_nat [of m] assms by (auto simp: IsIntegralFinite_def)
  have "\<lfloor>- rat_of_nat n\<rfloor> = - int n" by (metis floor_of_int of_int_minus of_int_of_nat_eq)
  then show "IntegralDoubleDigits neg m = dec_int \<lfloor>flt_value neg m\<rfloor>" "of_int \<lfloor>flt_value neg m\<rfloor> = flt_value neg m"
    using IntegralDoubleDigits_value [of n neg] assms(1) by (auto simp: n flt_value_def)
qed

lemma flt_value_eq: "0 < m \<Longrightarrow> 0 < m' \<Longrightarrow> flt_value neg m = flt_value neg' m' \<longleftrightarrow> neg = neg' \<and> m = m'"
  by (auto simp: flt_value_def split: if_splits)

lemma integral_neg: "of_int \<lfloor>flt_value neg m\<rfloor> = flt_value neg m \<longleftrightarrow> of_int \<lfloor>m\<rfloor> = m"
proof (cases neg)
  case True
  have "(of_int \<lfloor>- m\<rfloor> = - m) = (of_int \<lfloor>m\<rfloor> = m)" by (metis floor_of_int minus_minus of_int_minus)
  then show ?thesis using True by (simp add: flt_value_def)
qed (simp add: flt_value_def)

lemma float_equals_key:
  assumes "py_wf (VFloat x)" and "py_wf (VFloat y)"
  shows "numeric_equals (VFloat x) (VFloat y) \<longleftrightarrow> num_key (VFloat x) = num_key (VFloat y)"
proof (cases "\<exists>neg m neg' m'. x = Finite neg m \<and> y = Finite neg' m'")
  case True
  then obtain neg m neg' m' where xy: "x = Finite neg m" "y = Finite neg' m'" by blast
  let ?i = "IsIntegralFinite x" and ?j = "IsIntegralFinite y"
  consider "?i" "?j" | "?i \<noteq> ?j" | "\<not> ?i" "\<not> ?j" by blast
  then show ?thesis
  proof cases
    case 1
    then have "num_key (VFloat x) = Inl (dec_int \<lfloor>flt_value neg m\<rfloor>)" "num_key (VFloat y) = Inl (dec_int \<lfloor>flt_value neg' m'\<rfloor>)"
      using integral_digits_float assms by (simp_all add: num_key_def IntegralDigits_def xy)
    moreover have "flt_value neg m = flt_value neg' m' \<longleftrightarrow> \<lfloor>flt_value neg m\<rfloor> = \<lfloor>flt_value neg' m'\<rfloor>"
      using integral_digits_float(2) [of neg m] integral_digits_float(2) [of neg' m'] 1 assms by (metis xy)
    ultimately show ?thesis by (simp add: numeric_equals_def xy dec_int_inj)
  next
    case 2
    have "?i \<longleftrightarrow> of_int \<lfloor>flt_value neg m\<rfloor> = flt_value neg m" "?j \<longleftrightarrow> of_int \<lfloor>flt_value neg' m'\<rfloor> = flt_value neg' m'"
      by (simp_all only: xy IsIntegralFinite_def flt.case integral_neg)
    then have "flt_value neg m \<noteq> flt_value neg' m'" using 2 by argo
    then show ?thesis using 2 by (auto simp: numeric_equals_def num_key_def IntegralDigits_def xy)
  next
    case 3
    then have "m \<noteq> 0" "m' \<noteq> 0" by (auto simp: IsIntegralFinite_def xy)
    then have "0 < m" "0 < m'" using assms by (auto simp: xy)
    then show ?thesis using 3 by (simp add: numeric_equals_def num_key_def IntegralDigits_def xy flt_value_eq)
  qed
next
  case False
  then show ?thesis by (cases x; cases y) (auto simp: numeric_equals_def num_key_def IntegralDigits_def IsIntegralFinite_def split: if_splits)
qed

lemma numeric_equals_key:
  assumes "IsNumeric a" and "IsNumeric b" and "py_wf a" and "py_wf b"
  shows "numeric_equals a b \<longleftrightarrow> num_key a = num_key b"
proof (cases "is_float a \<and> is_float b")
  case True
  then show ?thesis using assms(3,4) float_equals_key by (auto simp: is_float_def split: PyValue.splits)
next
  case False
  then show ?thesis using assms(1,2)
    by (cases a; cases b) (auto simp: IsNumeric_def is_float_def numeric_equals_def num_key_def IntegralDigits_def Let_def split: option.splits flt.splits)
qed

lemma PyEquals_numeric: "IsNumeric a \<Longrightarrow> PyEquals a b \<longleftrightarrow> IsNumeric b \<and> numeric_equals a b"
  by (cases a; cases b) (simp_all add: IsNumeric_def)

lemma IsNumeric_simps [simp]:
  "IsNumeric (VBool b)" "IsNumeric (VInt ds)" "IsNumeric (VFloat x)" "\<not> IsNumeric VNone" "\<not> IsNumeric (VStr s)"
  "\<not> IsNumeric (VList xs)" "\<not> IsNumeric (VDict ms)"
  by (simp_all add: IsNumeric_def)

lemma PyEquals_key: "IsNumeric a \<Longrightarrow> py_wf a \<Longrightarrow> py_wf b \<Longrightarrow> PyEquals a b \<longleftrightarrow> IsNumeric b \<and> num_key a = num_key b"
  using PyEquals_numeric [of a b] numeric_equals_key [of a b] by blast

lemma PyEquals_other:
  "PyEquals VNone b \<longleftrightarrow> b = VNone" "PyEquals (VStr s) b \<longleftrightarrow> b = VStr s"
  "PyEquals (VList xs) b \<longleftrightarrow> (\<exists>ys. b = VList ys \<and> length xs = length ys \<and> (\<forall>(x, y) \<in> set (zip xs ys). PyEquals x y))"
  "PyEquals (VDict ms) b \<longleftrightarrow>
     (\<exists>ns. b = VDict ns \<and> length ms = length ns \<and> (\<forall>m \<in> set ms. case map_of ns (fst m) of Some w \<Rightarrow> PyEquals (snd m) w | None \<Rightarrow> False))"
  by (cases b; auto simp: IsNumeric_def)+

lemma numeric_cases: "IsNumeric a \<or> a = VNone \<or> (\<exists>s. a = VStr s) \<or> (\<exists>xs. a = VList xs) \<or> (\<exists>ms. a = VDict ms)"
  by (cases a) (simp_all add: IsNumeric_def)

lemma dict_equals_keys:
  assumes "length ms = length ns" and "distinct (keys ms)" and "distinct (keys ns)"
    and "\<forall>m \<in> set ms. map_of ns (fst m) \<noteq> None"
  shows "set (keys ms) = set (keys ns)"
proof (rule card_subset_eq)
  show "set (keys ms) \<subseteq> set (keys ns)" using assms(4) by (auto simp: map_of_eq_None_iff)
  show "card (set (keys ms)) = card (set (keys ns))" using assms(1-3) by (metis distinct_card length_map)
qed simp

lemma zip_ball: "length xs = length ys \<Longrightarrow> (\<forall>(x, y) \<in> set (zip xs ys). P x y) \<longleftrightarrow> (\<forall>i < length xs. P (xs ! i) (ys ! i))"
  by (auto simp: set_zip)

lemma PyEquals_refl: "py_wf a \<Longrightarrow> PyEquals a a"
proof (induction a)
  case (VList xs)
  then show ?case by (auto simp: set_zip)
next
  case (VDict ms)
  have "PyEquals (snd m) (snd m)" if "m \<in> set ms" for m using VDict.IH [OF that, of "snd m"] VDict.prems that by (cases m) auto
  moreover have "map_of ms (fst m) = Some (snd m)" if "m \<in> set ms" for m using VDict.prems that by (simp add: map_of_is_SomeI)
  ultimately show ?case by simp
next
  case (VFloat x)
  then show ?case by (cases x) (simp_all add: PyEquals_numeric numeric_equals_def)
qed (simp_all add: PyEquals_numeric numeric_equals_def IntegralDigits_def is_float_def)

lemma PyEquals_sym: "py_wf a \<Longrightarrow> py_wf b \<Longrightarrow> PyEquals a b \<Longrightarrow> PyEquals b a"
proof (induction a arbitrary: b)
  case (VList xs)
  then obtain ys where ys: "b = VList ys" "length xs = length ys" "\<forall>(x, y) \<in> set (zip xs ys). PyEquals x y" by (auto simp: PyEquals_other)
  have "PyEquals (ys ! i) (xs ! i)" if "i < length xs" for i
    using VList.IH [of "xs ! i" "ys ! i"] VList.prems that ys by (simp add: zip_ball)
  then show ?case using ys by (simp add: zip_ball)
next
  case (VDict ms)
  then obtain ns where ns: "b = VDict ns" "length ms = length ns"
      "\<forall>m \<in> set ms. case map_of ns (fst m) of Some w \<Rightarrow> PyEquals (snd m) w | None \<Rightarrow> False" by (auto simp: PyEquals_other)
  have d: "distinct (keys ms)" "distinct (keys ns)" using VDict.prems ns(1) by simp_all
  have "set (keys ms) = set (keys ns)" using ns(3) d by (intro dict_equals_keys [OF ns(2)]) (auto split: option.splits)
  then have "case map_of ms (fst n) of Some w \<Rightarrow> PyEquals (snd n) w | None \<Rightarrow> False" if n: "n \<in> set ns" for n
  proof -
    obtain w where w: "(fst n, w) \<in> set ms" using \<open>set (keys ms) = set (keys ns)\<close> n by (metis (no_types, opaque_lifting) image_iff list.set_map prod.collapse)
    moreover have "map_of ns (fst n) = Some (snd n)" using d(2) n by (simp add: map_of_is_SomeI)
    ultimately have "PyEquals w (snd n)" using ns(3) by fastforce
    moreover have "py_wf w" "py_wf (snd n)" using VDict.prems w n ns(1) by auto
    ultimately have "PyEquals (snd n) w" using VDict.IH [OF w, of w "snd n"] by simp
    then show ?thesis using d(1) w by simp
  qed
  then show ?case using ns(1,2) by simp
qed (auto simp: PyEquals_other PyEquals_key simp del: py_wf.simps PyEquals.simps)

lemma PyEquals_trans: "py_wf a \<Longrightarrow> py_wf b \<Longrightarrow> py_wf c \<Longrightarrow> PyEquals a b \<Longrightarrow> PyEquals b c \<Longrightarrow> PyEquals a c"
proof (induction a arbitrary: b c)
  case (VList xs)
  then obtain ys zs where e: "b = VList ys" "length xs = length ys" "c = VList zs" "length ys = length zs"
      "\<forall>i < length xs. PyEquals (xs ! i) (ys ! i)" "\<forall>i < length ys. PyEquals (ys ! i) (zs ! i)"
    by (auto simp: PyEquals_other zip_ball)
  have "PyEquals (xs ! i) (zs ! i)" if "i < length xs" for i
    using VList.IH [of "xs ! i" "ys ! i" "zs ! i"] VList.prems(1-3) that e by simp
  then show ?case using e by (simp add: zip_ball)
next
  case (VDict ms)
  from VDict.prems(4) obtain ns where ns: "b = VDict ns" "length ms = length ns"
      "\<forall>m \<in> set ms. case map_of ns (fst m) of Some w \<Rightarrow> PyEquals (snd m) w | None \<Rightarrow> False" by (auto simp: PyEquals_other)
  from VDict.prems(5) ns(1) obtain os where os: "c = VDict os" "length ns = length os"
      "\<forall>n \<in> set ns. case map_of os (fst n) of Some w \<Rightarrow> PyEquals (snd n) w | None \<Rightarrow> False" by (auto simp: PyEquals_other)
  have "case map_of os (fst m) of Some w \<Rightarrow> PyEquals (snd m) w | None \<Rightarrow> False" if m: "m \<in> set ms" for m
  proof -
    obtain w where w: "map_of ns (fst m) = Some w" "PyEquals (snd m) w" using ns(3) m by (fastforce split: option.splits)
    have w': "(fst m, w) \<in> set ns" using map_of_SomeD [OF w(1)] .
    then obtain u where u: "map_of os (fst m) = Some u" "PyEquals w u" using os(3) by (fastforce split: option.splits)
    have "(fst m, u) \<in> set os" using map_of_SomeD [OF u(1)] .
    then have "py_wf (snd m)" "py_wf w" "py_wf u" using VDict.prems(1-3) m w' ns(1) os(1) by auto
    then have "PyEquals (snd m) u" using VDict.IH [of m "snd m" w u] m w(2) u(2) by (cases m) simp
    then show ?thesis by (simp add: u)
  qed
  then show ?case using ns os by simp
qed (auto simp: PyEquals_other PyEquals_key simp del: py_wf.simps PyEquals.simps)

text \<open>The hash respects equality.\<close>

lemma PyHash_key: "IsNumeric a \<Longrightarrow> PyHash a =
    (case num_key a of Inl ds \<Rightarrow> Inr (HashBytes ds 0x49) | Inr NotANumber \<Rightarrow> Inr 0x7ff8 | Inr x \<Rightarrow> Inr (HashBytes (word_bytes (double_bits x)) 0x46))"
  by (cases a) (auto simp: IsNumeric_def PyHash_def num_key_def IntegralDigits_def IsIntegralFinite_def split: flt.splits option.splits)

lemma PyHash_equal: "py_wf a \<Longrightarrow> py_wf b \<Longrightarrow> Hashable a \<Longrightarrow> PyEquals a b \<Longrightarrow> PyHash a = PyHash b"
  using numeric_cases [of a]
  by (auto simp: PyEquals_other PyEquals_key PyHash_key Hashable_def simp del: py_wf.simps PyEquals.simps)

lemma Hashable_equal: "PyEquals a b \<Longrightarrow> Hashable a \<longleftrightarrow> Hashable b"
  using numeric_cases [of a] by (cases b) (auto simp: PyEquals_other PyEquals_numeric Hashable_def IsNumeric_def split: PyValue.splits)

lemma PyHash_total: "Hashable v \<Longrightarrow> \<exists>h. PyHash v = Inr h"
  by (cases v) (auto simp: Hashable_def PyHash_def split: option.splits flt.splits)

text \<open>The number a value stands for.\<close>

definition num_value :: "PyValue \<Rightarrow> rat option" where
  "num_value v =
     (case v of
        VBool b \<Rightarrow> Some (if b then 1 else 0)
      | VInt ds \<Rightarrow> Some (of_int (if hd ds = CHR ''-'' then - int (digits_value (tl ds)) else int (digits_value ds)))
      | VFloat (Finite neg m) \<Rightarrow> Some (flt_value neg m)
      | _ \<Rightarrow> None)"

definition value_key :: "rat \<Rightarrow> string + flt" where
  "value_key q = (if of_int \<lfloor>q\<rfloor> = q then Inl (dec_int \<lfloor>q\<rfloor>) else Inr (Finite (q < 0) \<bar>q\<bar>))"

lemma value_key_inj: "value_key p = value_key q \<longleftrightarrow> p = q"
proof
  assume *: "value_key p = value_key q"
  show "p = q"
  proof (cases "of_int \<lfloor>p\<rfloor> = p")
    case True
    then have "of_int \<lfloor>q\<rfloor> = q" "\<lfloor>p\<rfloor> = \<lfloor>q\<rfloor>" using * by (auto simp: value_key_def dec_int_inj split: if_splits)
    then show ?thesis using True by metis
  next
    case False
    then show ?thesis using * by (auto simp: value_key_def abs_if split: if_splits)
  qed
qed simp

lemma dec_int_0_1: "dec_int 0 = ''0''" "dec_int 1 = ''1''"
  by code_simp+

lemma num_value_dec_int: "num_value (VInt (dec_int i)) = Some (of_int i)"
proof -
  have "hd (dec_nat n) \<noteq> CHR ''-''" for n using dec_nat_chars [of "hd (dec_nat n)" n] by auto
  then show ?thesis by (simp add: num_value_def dec_int_def digits_value_dec_nat)
qed

lemma num_key_value: "py_wf v \<Longrightarrow> num_value v = Some q \<Longrightarrow> IsNumeric v \<and> num_key v = value_key q"
proof (cases v)
  case (VInt ds)
  assume "py_wf v" "num_value v = Some q"
  then obtain i where "ds = dec_int i" "q = of_int i" using num_value_dec_int by (auto simp: VInt)
  then show ?thesis by (simp add: VInt num_key_def IntegralDigits_def value_key_def)
next
  case (VFloat x)
  assume wf: "py_wf v" and q: "num_value v = Some q"
  then obtain neg m where x: "x = Finite neg m" "q = flt_value neg m" by (cases x) (auto simp: VFloat num_value_def)
  show ?thesis
  proof (cases "IsIntegralFinite x")
    case True
    then show ?thesis using integral_digits_float [of neg m] wf by (simp add: VFloat x num_key_def IntegralDigits_def value_key_def)
  next
    case False
    then have "m \<noteq> 0" "of_int \<lfloor>flt_value neg m\<rfloor> \<noteq> flt_value neg m" using integral_neg [of neg m] by (auto simp: IsIntegralFinite_def x)
    moreover have "0 \<le> m" using wf by (simp add: VFloat x)
    ultimately show ?thesis using False by (auto simp: VFloat x num_key_def IntegralDigits_def value_key_def flt_value_def)
  qed
qed (auto simp: num_value_def num_key_def IntegralDigits_def value_key_def dec_int_0_1)

lemma PyEquals_value:
  assumes "py_wf a" and "py_wf b" and "num_value a = Some p" and "num_value b = Some q"
  shows "PyEquals a b \<longleftrightarrow> p = q"
  using num_key_value [OF assms(1,3)] num_key_value [OF assms(2,4)] PyEquals_key [OF _ assms(1,2)] value_key_inj by metis

text \<open>C29. Python equality of decoded values: \<^verbatim>\<open>PyEquals\<close> is an equivalence relation, \<^verbatim>\<open>PyHash\<close> is constant on its classes,
  and numbers of whatever type (\<^verbatim>\<open>True\<close>, \<^verbatim>\<open>1\<close>, \<^verbatim>\<open>1.0\<close>) are equal exactly when they have the same value, however large
  the integers are.\<close>

theorem py_equals_equivalence:
  assumes "py_wf a" and "py_wf b" and "py_wf c"
  shows "PyEquals a a \<and> (PyEquals a b \<longleftrightarrow> PyEquals b a) \<and> (PyEquals a b \<and> PyEquals b c \<longrightarrow> PyEquals a c)
    \<and> (Hashable a \<and> PyEquals a b \<longrightarrow> PyHash a = PyHash b)
    \<and> (num_value a = Some p \<and> num_value b = Some q \<longrightarrow> (PyEquals a b \<longleftrightarrow> p = q))"
  using assms PyEquals_refl PyEquals_sym PyEquals_trans PyHash_equal PyEquals_value by metis

theorem py_equals_witness: "PyEquals (VInt ''1'') (VFloat (Finite False 1)) \<and> PyHash (VInt ''1'') = PyHash (VFloat (Finite False 1))"
proof -
  have "py_wf (VInt ''1'')" using dec_int_0_1(2) by (metis py_wf.simps(1))
  moreover have "is_double (of_int 1 * pow2 0)" unfolding is_double_def by (intro exI [of _ 1] exI [of _ 0]) simp
  then have "py_wf (VFloat (Finite False 1))" by simp
  moreover have "num_value (VInt ''1'') = Some 1" "num_value (VFloat (Finite False 1)) = Some 1"
    using num_value_dec_int [of 1] by (simp_all add: dec_int_0_1 num_value_def flt_value_def)
  moreover have "Hashable (VInt ''1'')" by (simp add: Hashable_def)
  ultimately show ?thesis using py_equals_equivalence by blast
qed

section \<open>The hash set\<close>

text \<open>An equality that is an equivalence on the values in use. Of two lists without repetition, as many
  elements of the first have an equal in the second as the other way round.\<close>

locale value_equality =
  fixes eq :: "'a \<Rightarrow> 'a \<Rightarrow> bool" and ok :: "'a \<Rightarrow> bool"
  assumes eq_refl: "ok a \<Longrightarrow> eq a a"
    and eq_sym: "ok a \<Longrightarrow> ok b \<Longrightarrow> eq a b \<Longrightarrow> eq b a"
    and eq_trans: "ok a \<Longrightarrow> ok b \<Longrightarrow> ok c \<Longrightarrow> eq a b \<Longrightarrow> eq b c \<Longrightarrow> eq a c"
begin

lemma no_repetition: "sorted_wrt (\<lambda>a b. \<not> eq a b) xs \<Longrightarrow> \<forall>x \<in> set xs. ok x \<Longrightarrow> distinct xs"
  using eq_refl by (induction xs) auto

lemma no_repetition_eq:
  assumes "sorted_wrt (\<lambda>a b. \<not> eq a b) xs" and "\<forall>x \<in> set xs. ok x" and "x \<in> set xs" and "y \<in> set xs" and "eq x y"
  shows "x = y"
proof -
  obtain i j where ij: "x = xs ! i" "y = xs ! j" "i < length xs" "j < length xs" using assms(3,4) by (auto simp: in_set_conv_nth)
  have "\<not> eq (xs ! k) (xs ! l)" if "k < l" "l < length xs" for k l using assms(1) that by (simp add: sorted_wrt_iff_nth_less)
  then show ?thesis using ij assms(2-5) eq_sym by (metis linorder_neqE_nat)
qed

lemma matched_le:
  assumes "\<forall>x \<in> X \<union> Y. ok x" and "finite Y" and "\<And>x x'. x \<in> X \<Longrightarrow> x' \<in> X \<Longrightarrow> eq x x' \<Longrightarrow> x = x'"
  shows "card {x \<in> X. \<exists>y \<in> Y. eq y x} \<le> card {y \<in> Y. \<exists>x \<in> X. eq x y}"
proof -
  define f where "f x = (SOME y. y \<in> Y \<and> eq y x)" for x
  have f: "f x \<in> Y \<and> eq (f x) x" if "\<exists>y \<in> Y. eq y x" for x
    unfolding f_def using that by (intro someI_ex [of "\<lambda>y. y \<in> Y \<and> eq y x"]) blast
  show ?thesis
  proof (rule card_inj_on_le [of f])
    show "inj_on f {x \<in> X. \<exists>y \<in> Y. eq y x}"
    proof (rule inj_onI)
      fix x x' assume *: "x \<in> {x \<in> X. \<exists>y \<in> Y. eq y x}" "x' \<in> {x \<in> X. \<exists>y \<in> Y. eq y x}" "f x = f x'"
      then have "f x \<in> Y" "eq (f x) x" "eq (f x) x'" using f [of x] f [of x'] by auto
      moreover have "x \<in> X" "x' \<in> X" using * by auto
      ultimately show "x = x'" using assms(1,3) eq_sym eq_trans by (metis UnI1 UnI2)
    qed
    show "f ` {x \<in> X. \<exists>y \<in> Y. eq y x} \<subseteq> {y \<in> Y. \<exists>x \<in> X. eq x y}"
      using f assms(1) eq_sym by (auto; metis UnI1 UnI2)
    show "finite {y \<in> Y. \<exists>x \<in> X. eq x y}" using assms(2) by simp
  qed
qed

lemma matched_symmetric:
  assumes "sorted_wrt (\<lambda>a b. \<not> eq a b) xs" and "sorted_wrt (\<lambda>a b. \<not> eq a b) ys" and "\<forall>x \<in> set xs \<union> set ys. ok x"
  shows "length (filter (\<lambda>x. \<exists>y \<in> set ys. eq y x) xs) = length (filter (\<lambda>y. \<exists>x \<in> set xs. eq x y) ys)"
proof -
  have d: "distinct xs" "distinct ys" using no_repetition assms by auto
  have "length (filter P zs) = card {x \<in> set zs. P x}" if "distinct zs" for P and zs :: "'a list"
    using distinct_card [of "filter P zs"] that by simp
  moreover have "card {x \<in> set xs. \<exists>y \<in> set ys. eq y x} \<le> card {y \<in> set ys. \<exists>x \<in> set xs. eq x y}"
    using assms no_repetition_eq by (intro matched_le) auto
  moreover have "card {y \<in> set ys. \<exists>x \<in> set xs. eq x y} \<le> card {x \<in> set xs. \<exists>y \<in> set ys. eq y x}"
    using assms no_repetition_eq by (intro matched_le) auto
  ultimately show ?thesis using d by simp
qed

end

interpretation py_eq: value_equality PyEquals py_wf
  by unfold_locales (blast intro: PyEquals_refl PyEquals_sym PyEquals_trans)+

text \<open>The invariant: hashable elements without repetition, each indexed under its hash.\<close>

definition set_wf :: "PySet \<Rightarrow> bool" where
  "set_wf s \<longleftrightarrow>
     (\<forall>x \<in> set (Set_Items s). Hashable x \<and> py_wf x) \<and> sorted_wrt (\<lambda>a b. \<not> PyEquals a b) (Set_Items s) \<and>
     length (Set_Items s) \<le> 2 ^ 32 \<and>
     length (Set_Index s) = length (Set_Items s) \<and>
     (\<forall>i < length (Set_Items s). PyHash (Set_Items s ! i) = Inr (fst (Set_Index s ! i)) \<and> snd (Set_Index s ! i) = of_nat i)"

abbreviation set_has :: "PySet \<Rightarrow> PyValue \<Rightarrow> bool" where
  "set_has s v \<equiv> \<exists>x \<in> set (Set_Items s). PyEquals x v"

lemma unat_index: "i < 2 ^ 32 \<Longrightarrow> unat (of_nat i :: 32 word) = i"
  by (simp add: unat_of_nat)

lemma bucket_has_iff:
  assumes "set_wf s" and "py_wf v" and "Hashable v" and "PyHash v = Inr h"
  shows "bucket_has s h v \<longleftrightarrow> set_has s v"
proof -
  let ?xs = "Set_Items s"
  have len: "length ?xs \<le> 2 ^ 32" "length (Set_Index s) = length ?xs" using assms(1) by (simp_all add: set_wf_def)
  have ix: "PyHash (?xs ! i) = Inr (fst (Set_Index s ! i))" "snd (Set_Index s ! i) = of_nat i" if "i < length ?xs" for i
    using assms(1) that by (auto simp: set_wf_def)
  have eq: "PyHash x = PyHash v" if "x \<in> set ?xs" "PyEquals x v" for x
    using PyHash_equal [of x v] assms(1,2) that by (auto simp: set_wf_def)
  have "bucket_has s h v \<longleftrightarrow> (\<exists>i < length ?xs. fst (Set_Index s ! i) = h \<and> PyEquals (?xs ! unat (snd (Set_Index s ! i))) v)"
    by (auto simp: bucket_has_def list_ex_length len case_prod_beta)
  also have "\<dots> \<longleftrightarrow> (\<exists>i < length ?xs. fst (Set_Index s ! i) = h \<and> PyEquals (?xs ! i) v)"
    using ix(2) len(1) unat_index by (metis (no_types, lifting) order.strict_trans2)
  also have "\<dots> \<longleftrightarrow> (\<exists>i < length ?xs. PyEquals (?xs ! i) v)"
    using ix(1) eq assms(4) nth_mem by (metis sum.inject(2))
  finally show ?thesis by (metis in_set_conv_nth)
qed

lemma Set_Contains_spec: "set_wf s \<Longrightarrow> py_wf v \<Longrightarrow> Hashable v \<Longrightarrow> Set_Contains s v = Inr (set_has s v)"
  using PyHash_total [of v] bucket_has_iff [of s v] by (auto simp: Set_Contains_def)

lemma Set_Insert_spec:
  assumes "set_wf s" and "py_wf v" and "Hashable v" and "length (Set_Items s) < 2 ^ 32"
  shows "\<exists>s'. Set_Insert s v = Inr (s', \<not> set_has s v) \<and> set_wf s' \<and>
    Set_Items s' = (if set_has s v then Set_Items s else Set_Items s @ [v])"
proof -
  obtain h where h: "PyHash v = Inr h" using PyHash_total [OF assms(3)] by blast
  show ?thesis
  proof (cases "set_has s v")
    case True
    then show ?thesis using bucket_has_iff [OF assms(1-3) h] assms(1,3) h by (simp add: Set_Insert_def)
  next
    case False
    let ?s = "s\<lparr>Set_Index := Set_Index s @ [(h, of_nat (length (Set_Items s)))], Set_Items := Set_Items s @ [v]\<rparr>"
    have "set_wf ?s"
      using assms h False unfolding set_wf_def by (auto simp: sorted_wrt_append nth_append less_Suc_eq)
    then show ?thesis using bucket_has_iff [OF assms(1-3) h] assms(3) h False by (simp add: Set_Insert_def)
  qed
qed

text \<open>The first element of each class, in order.\<close>

definition keep_first :: "PyValue list \<Rightarrow> PyValue \<Rightarrow> PyValue list" where
  "keep_first acc x = (if \<exists>y \<in> set acc. PyEquals y x then acc else acc @ [x])"

lemma keep_first_has:
  assumes "\<forall>x \<in> set acc \<union> set xs. py_wf x" and "py_wf v"
  shows "(\<exists>y \<in> set (foldl keep_first acc xs). PyEquals y v) \<longleftrightarrow> (\<exists>y \<in> set acc \<union> set xs. PyEquals y v)"
  using assms(1)
proof (induction xs arbitrary: acc)
  case (Cons x xs)
  have "(\<exists>y \<in> set (keep_first acc x) \<union> set xs. PyEquals y v) \<longleftrightarrow> (\<exists>y \<in> set acc \<union> set (x # xs). PyEquals y v)"
    using Cons.prems assms(2) PyEquals_trans [of _ x v] by (auto simp: keep_first_def)
  moreover have "\<forall>y \<in> set (keep_first acc x) \<union> set xs. py_wf y" using Cons.prems by (auto simp: keep_first_def)
  ultimately show ?case using Cons.IH [of "keep_first acc x"] by simp
qed simp

lemma from_list_loop_spec:
  assumes "set_wf s" and "\<forall>x \<in> set xs. py_wf x" and "length (Set_Items s) + length xs < 2 ^ 32"
  shows "case from_list_loop s xs of
      Inr s' \<Rightarrow> (\<forall>x \<in> set xs. Hashable x) \<and> set_wf s' \<and> Set_Items s' = foldl keep_first (Set_Items s) xs
    | Inl e \<Rightarrow> (\<exists>x \<in> set xs. \<not> Hashable x \<and> e = unhashable x)"
  using assms
proof (induction xs arbitrary: s)
  case (Cons x xs)
  show ?case
  proof (cases "Hashable x")
    case False
    then show ?thesis by (simp add: Set_Insert_def)
  next
    case True
    obtain s' b where s': "Set_Insert s x = Inr (s', b)" "set_wf s'" "Set_Items s' = keep_first (Set_Items s) x"
      using Set_Insert_spec [OF Cons.prems(1) _ True] Cons.prems(2,3) by (auto simp: keep_first_def)
    moreover have "length (Set_Items s') \<le> length (Set_Items s) + 1" by (simp add: s'(3) keep_first_def)
    ultimately show ?thesis using Cons.IH [OF s'(2)] Cons.prems(2,3) True by (auto split: sum.splits)
  qed
qed simp

lemma set_wf_empty: "set_wf empty_PySet"
  by (simp add: set_wf_def empty_PySet_def)

text \<open>C30. \<^verbatim>\<open>set(list)\<close>: \<^verbatim>\<open>PySetFromList\<close> raises the unhashable type error exactly when the list has a list or a dictionary in
  it; otherwise it keeps the first element of each class of equal values, in order, with a consistent hash
  index, and \<^verbatim>\<open>Contains\<close> answers whether the list has an equal element.\<close>

theorem py_set_from_list:
  assumes "\<forall>x \<in> set xs. py_wf x" and "length xs < 2 ^ 32"
  shows "case PySetFromList xs of
      Inr s \<Rightarrow> (\<forall>x \<in> set xs. Hashable x) \<and> set_wf s \<and> Set_Items s = foldl keep_first [] xs \<and>
        (\<forall>v. py_wf v \<and> Hashable v \<longrightarrow> Set_Contains s v = Inr (\<exists>x \<in> set xs. PyEquals x v))
    | Inl e \<Rightarrow> (\<exists>x \<in> set xs. \<not> Hashable x \<and> e = unhashable x)"
proof -
  have *: "case from_list_loop empty_PySet xs of
      Inr s \<Rightarrow> (\<forall>x \<in> set xs. Hashable x) \<and> set_wf s \<and> Set_Items s = foldl keep_first (Set_Items empty_PySet) xs
    | Inl e \<Rightarrow> (\<exists>x \<in> set xs. \<not> Hashable x \<and> e = unhashable x)"
    using assms by (intro from_list_loop_spec set_wf_empty) (simp_all add: empty_PySet_def)
  have "Set_Contains s v = Inr (\<exists>x \<in> set xs. PyEquals x v)"
    if "set_wf s" "Set_Items s = foldl keep_first [] xs" "py_wf v" "Hashable v" for s v
    using Set_Contains_spec [OF that(1,3,4)] keep_first_has [of "[]" xs v] that(2,3) assms(1) by simp
  then show ?thesis using * by (simp add: PySetFromList_def empty_PySet_def split: sum.splits)
qed

theorem py_set_witness:
  "\<exists>s. PySetFromList [VInt ''1'', VStr ''a'', VBool True] = Inr s \<and> Set_Contains s (VBool True) = Inr True"
proof -
  let ?xs = "[VInt ''1'', VStr ''a'', VBool True]"
  have "py_wf (VInt ''1'')" using dec_int_0_1(2) by (metis py_wf.simps(1))
  then have "\<forall>x \<in> set ?xs. py_wf x" "length ?xs < 2 ^ 32" by simp_all
  note * = py_set_from_list [OF this]
  have h: "\<forall>x \<in> set ?xs. Hashable x" by (simp add: Hashable_def)
  then obtain s where s: "PySetFromList ?xs = Inr s" using * by (cases "PySetFromList ?xs") auto
  have "PyEquals (VBool True) (VBool True)" by (rule PyEquals_refl) simp
  then have "Set_Contains s (VBool True) = Inr True" using * by (auto simp: s Hashable_def simp del: PyEquals.simps)
  then show ?thesis using s by blast
qed

text \<open>Intersections.\<close>

lemma intersection_loop_spec:
  assumes "set_wf d" and "\<forall>x \<in> set xs. py_wf x \<and> Hashable x"
  shows "\<exists>ys. intersection_loop fd d xs = Inr ys \<and> list_all2 PyEquals ys (filter (\<lambda>x. set_has d x) xs)"
  using assms(2)
proof (induction xs)
  case (Cons x xs)
  then obtain ys where ys: "intersection_loop fd d xs = Inr ys" "list_all2 PyEquals ys (filter (\<lambda>x. set_has d x) xs)" by auto
  have c: "Set_Contains d x = Inr (set_has d x)" using Set_Contains_spec [OF assms(1)] Cons.prems by simp
  show ?case
  proof (cases "set_has d x")
    case True
    then obtain y where y: "List.find (\<lambda>y. PyEquals y x) (Set_Items d) = Some y"
      by (cases "List.find (\<lambda>y. PyEquals y x) (Set_Items d)") (auto simp: find_None_iff)
    then have "PyEquals y x" by (auto simp: find_Some_iff)
    moreover have "PyEquals x x" using PyEquals_refl Cons.prems by simp
    ultimately show ?thesis using ys c True y by auto
  qed (use ys c in simp)
qed simp

lemma count_loop_spec:
  assumes "set_wf d" and "\<forall>x \<in> set xs. py_wf x \<and> Hashable x"
  shows "count_loop d n xs = Inr (n + length (filter (\<lambda>x. set_has d x) xs))"
  using assms(2)
proof (induction xs arbitrary: n)
  case (Cons x xs)
  have "Set_Contains d x = Inr (set_has d x)" using Set_Contains_spec [OF assms(1)] Cons.prems by simp
  then show ?case using Cons by simp
qed simp

text \<open>C31. Intersections of sets: \<^verbatim>\<open>PySetIntersection\<close> yields, in the order of the first set, one element equal to each
  element that has an equal in the second, and \<^verbatim>\<open>PySetIntersectionSize\<close> is their number, the same whichever set is
  walked; neither raises.\<close>

theorem py_set_intersection:
  assumes "set_wf a" and "set_wf b"
  shows "\<exists>xs n. PySetIntersection a b = Inr xs \<and> PySetIntersectionSize a b = Inr n \<and> PySetIntersectionSize b a = Inr n \<and>
    n = length xs \<and> list_all2 PyEquals xs (filter (\<lambda>x. set_has b x) (Set_Items a))"
proof -
  have a: "\<forall>x \<in> set (Set_Items a). py_wf x \<and> Hashable x" and b: "\<forall>x \<in> set (Set_Items b). py_wf x \<and> Hashable x"
    using assms by (auto simp: set_wf_def)
  obtain xs where xs: "PySetIntersection a b = Inr xs" "list_all2 PyEquals xs (filter (\<lambda>x. set_has b x) (Set_Items a))"
    using intersection_loop_spec [OF assms(2) a] unfolding PySetIntersection_def by blast
  let ?n = "length (filter (\<lambda>x. set_has b x) (Set_Items a))"
  have "length (filter (\<lambda>x. set_has a x) (Set_Items b)) = ?n"
    using assms by (intro py_eq.matched_symmetric [symmetric]) (auto simp: set_wf_def)
  then have "PySetIntersectionSize a b = Inr ?n" "PySetIntersectionSize b a = Inr ?n"
    using count_loop_spec [OF assms(2) a, of 0] count_loop_spec [OF assms(1) b, of 0] by (auto simp: PySetIntersectionSize_def)
  moreover have "length xs = ?n" using xs(2) by (rule list_all2_lengthD)
  ultimately show ?thesis using xs by auto
qed

theorem py_set_intersection_witness:
  "\<exists>xs n. PySetIntersection \<lparr>Set_Items = [VStr ''a''], Set_Index = [(HashBytes ''a'' 0x53, 0)]\<rparr>
      \<lparr>Set_Items = [VNone, VStr ''a''], Set_Index = [(0x9e3779b97f4a7c15, 0), (HashBytes ''a'' 0x53, 1)]\<rparr> = Inr xs \<and> PySetIntersectionSize \<lparr>Set_Items = [VStr ''a''], Set_Index = [(HashBytes ''a'' 0x53, 0)]\<rparr>
      \<lparr>Set_Items = [VNone, VStr ''a''], Set_Index = [(0x9e3779b97f4a7c15, 0), (HashBytes ''a'' 0x53, 1)]\<rparr> = Inr n \<and> PySetIntersectionSize \<lparr>Set_Items = [VNone, VStr ''a''], Set_Index = [(0x9e3779b97f4a7c15, 0), (HashBytes ''a'' 0x53, 1)]\<rparr>
      \<lparr>Set_Items = [VStr ''a''], Set_Index = [(HashBytes ''a'' 0x53, 0)]\<rparr> = Inr n \<and>
    n = length xs \<and> list_all2 PyEquals xs (filter (\<lambda>x. set_has \<lparr>Set_Items = [VNone, VStr ''a''], Set_Index = [(0x9e3779b97f4a7c15, 0), (HashBytes ''a'' 0x53, 1)]\<rparr> x) (Set_Items \<lparr>Set_Items = [VStr ''a''], Set_Index = [(HashBytes ''a'' 0x53, 0)]\<rparr>))"
proof (rule py_set_intersection)
  show "set_wf \<lparr>Set_Items = [VStr ''a''], Set_Index = [(HashBytes ''a'' 0x53, 0)]\<rparr>" by (simp add: set_wf_def Hashable_def PyHash_def)
  show "set_wf \<lparr>Set_Items = [VNone, VStr ''a''], Set_Index = [(0x9e3779b97f4a7c15, 0), (HashBytes ''a'' 0x53, 1)]\<rparr>" by (auto simp: set_wf_def Hashable_def PyHash_def less_Suc_eq)
qed

section \<open>Decoded values are well formed\<close>

lemma int_part_canonical: "int_part ip \<Longrightarrow> ip = dec_nat (digits_value ip)"
proof (cases "ip = ''0''")
  case True
  then show ?thesis using dec_int_0_1(1) by (simp add: dec_int_def digits_value_def of_char_def)
next
  case False
  assume "int_part ip"
  with False have "leading ip" by (auto simp: int_part_def digits1_def leading_def dec_digits_def IsAsciiDigit_def list_all_iff)
  then show ?thesis by (rule leading_dec_nat_unique)
qed

lemma fl_nonneg: "0 \<le> x \<Longrightarrow> 0 \<le> fl x"
  using fl_mono [of 0 x] by (simp add: fl_def)

lemma float_wf: "dec_digits ds \<Longrightarrow> py_wf (VFloat (DecimalToDouble neg ds e))"
  using fl_is_double [of "of_nat (digits_value ds) * pow10 e"] fl_nonneg [of "of_nat (digits_value ds) * pow10 e"]
  by (simp add: DecimalToDouble_nearest nearest_def less_imp_le)

lemma py_of_number_wf: "number_ok True t \<Longrightarrow> py_wf (py_of_number t)"
proof (cases "IsJsonNumberText t")
  case True
  then obtain sg ip fp ep where t: "t = sg @ ip @ fp @ ep" and parts: "sg = [] \<or> sg = ''-''" "int_part ip" "frac_part fp" "exp_part ep"
    by (auto simp: IsJsonNumberText_number_re number_re_def)
  have "dec_digits (ip @ tl fp)" using parts(2,3)
    by (cases fp) (auto simp: int_part_def frac_part_def digits1_def dec_digits_append dec_digits_def IsAsciiDigit_def list_all_iff)
  moreover have "\<exists>i. (if ip = ''0'' \<or> sg \<noteq> ''-'' then ip else ''-'' @ ip) = dec_int i"
  proof (cases "ip = ''0'' \<or> sg \<noteq> ''-''")
    case True
    then show ?thesis using int_part_canonical [OF parts(2)] by (intro exI [of _ "int (digits_value ip)"]) (simp add: dec_int_def)
  next
    case False
    then have "digits_value ip \<noteq> 0" using int_part_canonical [OF parts(2)] dec_int_0_1(1) by (metis dec_int_def less_irrefl nat_zero_as_int of_nat_0)
    then show ?thesis using False int_part_canonical [OF parts(2)] by (intro exI [of _ "- int (digits_value ip)"]) (simp add: dec_int_def)
  qed
  ultimately show ?thesis unfolding t py_of_number_parts [OF parts] using float_wf by auto
next
  case False
  assume "number_ok True t"
  then have "t = ''NaN'' \<or> t = ''Infinity'' \<or> t = ''-Infinity''" using False unfolding number_ok_def by blast
  then show ?thesis using py_of_constants by auto
qed

lemma py_of_wf: "json_ok True k v \<Longrightarrow> py_wf (py_of v)"
proof (induction v arbitrary: k)
  case (JNumber t)
  then show ?case by (simp add: py_of_number_wf)
next
  case (JArray xs)
  then show ?case by auto
next
  case (JObject ms)
  have k: "fst \<circ> (\<lambda>(k, v). (k, py_of v)) = (fst :: string \<times> JsonValue \<Rightarrow> string)" by (simp add: fun_eq_iff case_prod_beta)
  have "py_wf (py_of w)" if "(n, w) \<in> set ms" for n w using JObject.IH [OF that, of w "k - 1"] JObject.prems that by auto
  then show ?case using JObject.prems by (auto simp: k)
qed simp_all

text \<open>C28. \<^verbatim>\<open>json.loads\<close> returns on every text, and what it returns is well formed at every depth: canonical integers,
  finite numbers that are doubles, no repeated key; an error otherwise.\<close>

theorem json_loads_wf:
  "case PyJsonLoads text of Some (Inr v) \<Rightarrow> py_wf v | Some (Inl e) \<Rightarrow> True | None \<Rightarrow> False"
  using loads.agrees [of kMaxJsonDepth "SkipWhitespace text"]
proof (cases rule: agree_cases)
  case (fail e e')
  then show ?thesis using doc.fails [OF fail(1)]
    by (cases e') (auto simp: PyJsonLoads_def Document_def SkipWs_SkipWhitespace)
next
  case (ok v r)
  then show ?thesis using doc.sound [OF ok(1)] py_of_wf [of kMaxJsonDepth v]
    by (simp add: PyJsonLoads_def Document_def SkipWs_SkipWhitespace Let_def)
qed

end
