(* ===== verification/Rounding.thy ===== *)
theory Rounding
  imports PySets
begin

text \<open>
  The 7-decimal rounding of \<^verbatim>\<open>src/diff/Ratio.cpp\<close>: Python's
  \<^verbatim>\<open>float("{0:.7f}".format(v))\<close> computed on the bits of the double with a portable 128-bit
  integer. The integer is two 64-bit words; \<open>u128\<close> is its value.
\<close>

unbundle bit_operations_syntax

section \<open>128-bit integers\<close>

record U128 =
  Hi :: "64 word"
  Lo :: "64 word"

definition Mul64 :: "64 word \<Rightarrow> 64 word \<Rightarrow> U128" where
  "Mul64 a b =
     (let alo = a AND 0xFFFFFFFF; ahi = drop_bit 32 a; blo = b AND 0xFFFFFFFF; bhi = drop_bit 32 b;
          lolo = alo * blo; hilo = ahi * blo; lohi = alo * bhi; hihi = ahi * bhi;
          cross = drop_bit 32 lolo + (hilo AND 0xFFFFFFFF) + lohi
      in \<lparr>Hi = hihi + drop_bit 32 hilo + drop_bit 32 cross, Lo = push_bit 32 cross OR (lolo AND 0xFFFFFFFF)\<rparr>)"

definition U128_ShiftRight :: "U128 \<Rightarrow> nat \<Rightarrow> U128" where
  "U128_ShiftRight v s =
     (if s = 0 then v
      else if s \<ge> 64 then \<lparr>Hi = 0, Lo = drop_bit (s - 64) (Hi v)\<rparr>
      else \<lparr>Hi = drop_bit s (Hi v), Lo = drop_bit s (Lo v) OR push_bit (64 - s) (Hi v)\<rparr>)"

definition U128_ShiftLeft :: "U128 \<Rightarrow> nat \<Rightarrow> U128" where
  "U128_ShiftLeft v s =
     (if s = 0 then v
      else if s \<ge> 64 then \<lparr>Hi = push_bit (s - 64) (Lo v), Lo = 0\<rparr>
      else \<lparr>Hi = push_bit s (Hi v) OR drop_bit (64 - s) (Lo v), Lo = push_bit s (Lo v)\<rparr>)"

definition U128_Subtract :: "U128 \<Rightarrow> U128 \<Rightarrow> U128" where
  "U128_Subtract a b = \<lparr>Hi = Hi a - Hi b - (if Lo a < Lo b then 1 else 0), Lo = Lo a - Lo b\<rparr>"

definition U128_Compare :: "U128 \<Rightarrow> U128 \<Rightarrow> int" where
  "U128_Compare a b =
     (if Hi a \<noteq> Hi b then (if Hi a < Hi b then - 1 else 1)
      else if Lo a \<noteq> Lo b then (if Lo a < Lo b then - 1 else 1) else 0)"

text \<open>Long division by 10 over the limbs, most significant first.\<close>

primrec div10_limbs :: "64 word \<Rightarrow> 32 word list \<Rightarrow> 32 word list \<times> 64 word" where
  "div10_limbs remainder [] = ([], remainder)"
| "div10_limbs remainder (limb # limbs) =
     (let current = push_bit 32 remainder OR ucast limb;
          (rest, r) = div10_limbs (current mod 10) limbs
      in (ucast (current div 10) # rest, r))"

primrec be :: "32 word list \<Rightarrow> nat" where
  "be [] = 0"
| "be (l # ls) = unat l * 2 ^ (32 * length ls) + be ls"

text \<open>Bitwise \<open>OR\<close> of disjoint parts adds them.\<close>

lemma or_parts: "(b :: nat) < 2 ^ k \<Longrightarrow> (a * 2 ^ k) OR b = a * 2 ^ k + b"
proof -
  assume b: "b < 2 ^ k"
  have "push_bit k a OR b = push_bit k a + b"
  proof (rule disjunctive_add [symmetric])
    fix n
    show "\<not> bit (push_bit k a) n \<or> \<not> bit b n"
    proof (cases "k \<le> n")
      case True
      then have "(2 :: nat) ^ k \<le> 2 ^ n" by simp
      with b have "b div 2 ^ n = 0" by (intro div_less) linarith
      then show ?thesis by (simp add: bit_iff_odd [of b])
    qed (simp add: bit_push_bit_iff)
  qed
  then show ?thesis by (simp add: push_bit_eq_mult)
qed

lemma unat_or_push32:
  assumes "unat r < 2 ^ 32" shows "unat (push_bit 32 r OR ucast (l :: 32 word) :: 64 word) = unat r * 2 ^ 32 + unat l"
proof -
  have "unat (push_bit 32 r) = unat r * 2 ^ 32" using assms by (simp add: unat_push)
  then show ?thesis using or_parts [of "unat l" 32 "unat r"] unat_bound32 [of l]
    by (simp add: unsigned_or_eq unat_ucast64)
qed

lemma div10_limbs_value:
  assumes "unat r < 10" and "div10_limbs r ls = (q, r')"
  shows "be q = (unat r * 2 ^ (32 * length ls) + be ls) div 10 \<and> unat r' = (unat r * 2 ^ (32 * length ls) + be ls) mod 10 \<and>
         length q = length ls"
  using assms
proof (induction ls arbitrary: r q)
  case (Cons l ls)
  let ?c = "push_bit 32 r OR ucast l :: 64 word"
  obtain rest where d: "div10_limbs (?c mod 10) ls = (rest, r')" and q: "q = ucast (?c div 10) # rest"
    using Cons.prems(2) by (auto simp: Let_def split: prod.splits)
  have c: "unat ?c = unat r * 2 ^ 32 + unat l" using Cons.prems(1) by (intro unat_or_push32) simp
  have r10: "unat (?c mod 10) = unat ?c mod 10" by (simp add: unat_mod_distrib)
  with Cons.IH [OF _ d] have ih: "be rest = (unat ?c mod 10 * 2 ^ (32 * length ls) + be ls) div 10"
      "unat r' = (unat ?c mod 10 * 2 ^ (32 * length ls) + be ls) mod 10" "length rest = length ls" by simp_all
  have "unat ?c div 10 < 2 ^ 32" using c Cons.prems(1) unat_bound32 [of l] by simp
  then have h: "unat (ucast (?c div 10) :: 32 word) = unat ?c div 10"
    by (simp add: unat_ucast32 unat_div_distrib)
  let ?B = "2 ^ (32 * length ls) :: nat"
  have split: "unat ?c * ?B + be ls = unat ?c div 10 * 10 * ?B + (unat ?c mod 10 * ?B + be ls)"
  proof -
    have "unat ?c = unat ?c div 10 * 10 + unat ?c mod 10" by (rule div_mult_mod_eq [symmetric])
    then have "unat ?c * ?B = (unat ?c div 10 * 10 + unat ?c mod 10) * ?B" by (rule arg_cong)
    then show ?thesis by (simp only: distrib_right add.assoc)
  qed
  have e: "unat r * 2 ^ (32 * length (l # ls)) + be (l # ls) = 10 * (unat ?c div 10 * ?B) + (unat ?c mod 10 * ?B + be ls)"
  proof -
    have "unat r * 2 ^ (32 * length (l # ls)) + be (l # ls) = (unat r * 2 ^ 32 + unat l) * ?B + be ls"
      by (simp only: length_Cons mult_Suc_right power_add be.simps distrib_right mult.assoc add.assoc)
    also have "\<dots> = unat ?c * ?B + be ls" by (simp only: c)
    finally show ?thesis using split by (simp only: mult.assoc mult.left_commute)
  qed
  have h2: "be q = unat ?c div 10 * ?B + be rest" using h ih(3) by (simp add: q)
  show ?case unfolding e h2 using ih by (simp add: q div_mult_self4 mod_mult_self4)
qed simp

lemma be_eq_0: "be ls = 0 \<longleftrightarrow> list_all (\<lambda>l. l = 0) ls"
  by (induction ls) (auto simp: unsigned_eq_0_iff)

lemma div10_limbs_0:
  "div10_limbs 0 limbs = (q, r) \<Longrightarrow> be q = be limbs div 10 \<and> unat r = be limbs mod 10 \<and> length q = length limbs"
  using div10_limbs_value [of 0 limbs q r] by simp

function U128_ToDecimal_loop :: "32 word list \<Rightarrow> string \<Rightarrow> string" where
  "U128_ToDecimal_loop limbs reversed =
     (if list_all (\<lambda>l. l = 0) limbs then reversed
      else (case div10_limbs 0 limbs of (q, r) \<Rightarrow> U128_ToDecimal_loop q (reversed @ [digit_char (unat r)])))"
  by pat_completeness auto
termination
  by (relation "measure (\<lambda>(limbs, _). be limbs)") (auto simp: be_eq_0 [symmetric] dest!: div10_limbs_0 sym [of "(_, _)"])

definition U128_ToDecimal :: "U128 \<Rightarrow> string" where
  "U128_ToDecimal v =
     (if Hi v = 0 then dec_nat (unat (Lo v))
      else rev (U128_ToDecimal_loop [ucast (drop_bit 32 (Hi v)), ucast (Hi v), ucast (drop_bit 32 (Lo v)), ucast (Lo v)] []))"

section \<open>Values\<close>

definition u128 :: "U128 \<Rightarrow> nat" where
  "u128 v = unat (Hi v) * 2 ^ 64 + unat (Lo v)"

lemma u128_bound: "u128 v < 2 ^ 128"
  using unat_bound64 [of "Hi v"] unat_bound64 [of "Lo v"] by (simp add: u128_def)

lemma unat_low32: "unat (w AND 0xFFFFFFFF :: 64 word) = unat w mod 2 ^ 32"
proof -
  have "w AND 0xFFFFFFFF = take_bit 32 w" by (simp add: take_bit_eq_mask mask_eq_exp_minus_1)
  then have "unat (w AND 0xFFFFFFFF) = take_bit 32 (unat w)" by (simp only: unsigned_take_bit_eq)
  then show ?thesis by (simp only: take_bit_eq_mod)
qed

lemma unat_times: "unat x * unat y < 2 ^ 64 \<Longrightarrow> unat (x * y :: 64 word) = unat x * unat y"
  by (simp add: unat_word_ariths)

lemma unat_plus: "unat x + unat y < 2 ^ 64 \<Longrightarrow> unat (x + y :: 64 word) = unat x + unat y"
  by (simp add: unat_word_ariths)


text \<open>Schoolbook multiplication of two 64-bit numbers in 32-bit halves, without any overflow.\<close>

lemma half_parts:
  assumes "(x :: nat) \<le> h" "y \<le> h" shows "x * y \<le> h * h"
  using assms by (intro mult_le_mono)

lemma pow32: "(2 :: nat) ^ 32 = 4294967296" and pow64: "(2 :: nat) ^ 64 = 18446744073709551616"
  by simp_all

lemma schoolbook:
  assumes "(c :: nat) = l1 + h0 + lh" "c = c1 * 4294967296 + c0" "hl = h1 * 4294967296 + h0" "ll = l1 * 4294967296 + l0"
  shows "(hh + h1 + c1) * 18446744073709551616 + (c0 * 4294967296 + l0) = hh * 18446744073709551616 + (hl + lh) * 4294967296 + ll"
  using assms by simp

lemma Mul64_value: "u128 (Mul64 a b) = unat a * unat b"
proof -
  define al ah bl bh where "al = unat (a AND 0xFFFFFFFF)" and "ah = unat (drop_bit 32 a)"
    and "bl = unat (b AND 0xFFFFFFFF)" and "bh = unat (drop_bit 32 b)"
  let ?h = "4294967295 :: nat"
  have le: "al \<le> ?h" "bl \<le> ?h" "ah \<le> ?h" "bh \<le> ?h"
    using unat_bound64 [of a] unat_bound64 [of b] by (simp_all add: al_def ah_def bl_def bh_def unat_low32 unat_drop)
  have ab: "unat a = ah * 2 ^ 32 + al" "unat b = bh * 2 ^ 32 + bl"
    by (simp_all add: al_def ah_def bl_def bh_def unat_low32 unat_drop)
  note prods = half_parts [OF le(1) le(2)] half_parts [OF le(3) le(2)] half_parts [OF le(1) le(4)] half_parts [OF le(3) le(4)]
  define lolo hilo lohi hihi where "lolo = (a AND 0xFFFFFFFF) * (b AND 0xFFFFFFFF)" and "hilo = drop_bit 32 a * (b AND 0xFFFFFFFF)"
    and "lohi = (a AND 0xFFFFFFFF) * drop_bit 32 b" and "hihi = drop_bit 32 a * drop_bit 32 b"
  have p: "unat lolo = al * bl" "unat hilo = ah * bl" "unat lohi = al * bh" "unat hihi = ah * bh"
    using prods by (simp_all add: lolo_def hilo_def lohi_def hihi_def unat_times al_def ah_def bl_def bh_def)
  define cross where "cross = drop_bit 32 lolo + (hilo AND 0xFFFFFFFF) + lohi"
  have lo32: "unat (drop_bit 32 lolo) \<le> ?h" "unat (hilo AND 0xFFFFFFFF) \<le> ?h"
    using unat_bound64 [of lolo] by (simp_all add: unat_drop unat_low32)
  have c: "unat cross = unat lolo div 2 ^ 32 + unat hilo mod 2 ^ 32 + unat lohi"
  proof -
    have "unat (drop_bit 32 lolo + (hilo AND 0xFFFFFFFF)) = unat (drop_bit 32 lolo) + unat (hilo AND 0xFFFFFFFF)"
      using lo32 by (intro unat_plus) simp
    moreover have "unat (drop_bit 32 lolo) + unat (hilo AND 0xFFFFFFFF) + unat lohi < 2 ^ 64"
      using lo32 prods(3) p(3) by simp
    ultimately show ?thesis unfolding cross_def by (simp only: unat_plus unat_drop unat_low32)
  qed
  have m: "Mul64 a b = \<lparr>Hi = hihi + drop_bit 32 hilo + drop_bit 32 cross, Lo = push_bit 32 cross OR (lolo AND 0xFFFFFFFF)\<rparr>"
    by (simp only: Mul64_def Let_def lolo_def hilo_def lohi_def hihi_def cross_def)
  have lo: "unat (push_bit 32 cross OR (lolo AND 0xFFFFFFFF)) = unat cross mod 2 ^ 32 * 2 ^ 32 + unat lolo mod 2 ^ 32"
  proof -
    have "unat (push_bit 32 cross) = unat cross mod 2 ^ 32 * 2 ^ 32"
      using mult_mod_left [of "unat cross" "2 ^ 32" "2 ^ 32"] by (simp add: unat_push)
    then show ?thesis using or_parts [of "unat lolo mod 2 ^ 32" 32 "unat cross mod 2 ^ 32"]
      by (simp add: unsigned_or_eq unat_low32)
  qed
  have total: "unat a * unat b = ah * bh * 2 ^ 64 + (ah * bl + al * bh) * 2 ^ 32 + al * bl"
    by (simp add: ab algebra_simps)
  note dm = div_mult_mod_eq [symmetric, of "unat hilo" "2 ^ 32"] div_mult_mod_eq [symmetric, of "unat lolo" "2 ^ 32"]
    div_mult_mod_eq [symmetric, of "unat cross" "2 ^ 32"]
  have sum: "(unat hihi + unat hilo div 2 ^ 32 + unat cross div 2 ^ 32) * 2 ^ 64 + (unat cross mod 2 ^ 32 * 2 ^ 32 + unat lolo mod 2 ^ 32)
      = unat a * unat b"
    unfolding total p [symmetric]
    by (rule schoolbook [folded pow32 pow64, OF c dm(3) dm(1) dm(2)])
  have "unat a * unat b < 2 ^ 64 * 2 ^ 64" by (rule mult_strict_mono) (use unat_bound64 [of a] unat_bound64 [of b] in simp_all)
  moreover have "(unat hihi + unat hilo div 2 ^ 32 + unat cross div 2 ^ 32) * 2 ^ 64 \<le> unat a * unat b"
    by (simp only: sum [symmetric] le_add1)
  ultimately have "(unat hihi + unat hilo div 2 ^ 32 + unat cross div 2 ^ 32) * 2 ^ 64 < 2 ^ 64 * 2 ^ 64" by (rule order.strict_trans1 [rotated])
  then have fits: "unat hihi + unat hilo div 2 ^ 32 + unat cross div 2 ^ 32 < 2 ^ 64" by (simp only: mult_less_cancel2)
  then have "unat (hihi + drop_bit 32 hilo + drop_bit 32 cross) = unat hihi + unat hilo div 2 ^ 32 + unat cross div 2 ^ 32"
    by (simp add: unat_plus unat_drop)
  with lo sum show ?thesis by (simp only: u128_def m U128.select_convs)
qed

lemma split_high: "s \<le> 64 \<Longrightarrow> (2 :: nat) ^ 64 = 2 ^ (64 - s) * 2 ^ s"
  by (simp add: power_add [symmetric])

lemma high_shift: "64 \<le> s \<Longrightarrow> (2 :: nat) ^ s = 2 ^ 64 * 2 ^ (s - 64)"
  by (simp only: power_add [symmetric] le_add_diff_inverse)

lemma U128_ShiftRight_value:
  assumes "s < 128" shows "u128 (U128_ShiftRight v s) = u128 v div 2 ^ s"
proof -
  consider "s = 0" | "64 \<le> s" | "0 < s" "s < 64" by linarith
  then show ?thesis
  proof cases
    case 2
    have "u128 v div 2 ^ s = u128 v div 2 ^ 64 div 2 ^ (s - 64)" by (simp only: div_mult2_eq [symmetric] high_shift [OF 2])
    also have "u128 v div 2 ^ 64 = unat (Hi v)" using unat_bound64 [of "Lo v"] by (simp add: u128_def)
    finally show ?thesis using 2 by (simp add: U128_ShiftRight_def u128_def [of "\<lparr>Hi = 0, Lo = _\<rparr>"] unat_drop)
  next
    case 3
    let ?h = "unat (Hi v)" and ?l = "unat (Lo v)"
    have "?l < 2 ^ (64 - s) * 2 ^ s" using unat_bound [of "Lo v"] split_high [of s] 3 by simp
    then have l: "?l div 2 ^ s < 2 ^ (64 - s)" by (simp add: less_mult_imp_div_less)
    have "unat (push_bit (64 - s) (Hi v)) = ?h mod 2 ^ s * 2 ^ (64 - s)"
      using 3 split_high [of s] by (simp add: unat_push mult_mod_left mult.commute)
    then have lo: "unat (drop_bit s (Lo v) OR push_bit (64 - s) (Hi v)) = ?h mod 2 ^ s * 2 ^ (64 - s) + ?l div 2 ^ s"
      using or_parts [OF l, of "?h mod 2 ^ s"] by (simp add: unsigned_or_eq unat_drop or.commute)
    have "u128 v = (?h * 2 ^ (64 - s)) * 2 ^ s + ?l" unfolding u128_def using split_high [of s] 3 by simp
    then have "u128 v div 2 ^ s = ?h * 2 ^ (64 - s) + ?l div 2 ^ s" by simp
    also have "?h * 2 ^ (64 - s) = (?h div 2 ^ s * 2 ^ s + ?h mod 2 ^ s) * 2 ^ (64 - s)" by (simp only: div_mult_mod_eq)
    also have "\<dots> = ?h div 2 ^ s * 2 ^ 64 + ?h mod 2 ^ s * 2 ^ (64 - s)"
      using split_high [of s] 3 by (simp only: distrib_right mult.assoc mult.commute [of "2 ^ s"])
    finally show ?thesis using 3 lo by (simp add: U128_ShiftRight_def u128_def unat_drop)
  qed (simp add: U128_ShiftRight_def)
qed

lemma U128_ShiftLeft_value:
  assumes "s < 128" and "u128 v * 2 ^ s < 2 ^ 128" shows "u128 (U128_ShiftLeft v s) = u128 v * 2 ^ s"
proof -
  let ?h = "unat (Hi v)" and ?l = "unat (Lo v)"
  consider "s = 0" | "64 \<le> s" | "0 < s" "s < 64" by linarith
  then show ?thesis
  proof cases
    case 2
    note p = high_shift [OF 2]
    have "2 ^ 64 * (u128 v * 2 ^ (s - 64)) < 2 ^ 64 * 2 ^ 64" using assms(2) unfolding p by simp
    then have small: "u128 v * 2 ^ (s - 64) < 2 ^ 64" by (simp only: mult_less_cancel1)
    then have "u128 v < 2 ^ 64" by (rule order.strict_trans1 [rotated]) simp
    then have "?h = 0" by (simp add: u128_def)
    with small have "unat (push_bit (s - 64) (Lo v)) = ?l * 2 ^ (s - 64)" "u128 v = ?l" by (simp_all add: unat_push u128_def)
    with 2 p show ?thesis by (simp add: U128_ShiftLeft_def u128_def [of "\<lparr>Hi = _, Lo = 0\<rparr>"])
  next
    case 3
    have "?h * 2 ^ s * 2 ^ 64 \<le> u128 v * 2 ^ s" by (simp add: u128_def)
    from order.strict_trans1 [OF this assms(2)] have "?h * 2 ^ s * 2 ^ 64 < 2 ^ 64 * 2 ^ 64" by (simp only: power_add [symmetric]) simp
    then have "?h * 2 ^ s < 2 ^ 64" by (simp only: mult_less_cancel2)
    then have h: "unat (push_bit s (Hi v)) = ?h * 2 ^ s" by (simp add: unat_push)
    have "?l < 2 ^ s * 2 ^ (64 - s)" using unat_bound [of "Lo v"] split_high [of s] 3 by (simp add: mult.commute)
    then have l: "?l div 2 ^ (64 - s) < 2 ^ s" by (simp add: less_mult_imp_div_less)
    have hi: "unat (push_bit s (Hi v) OR drop_bit (64 - s) (Lo v)) = ?h * 2 ^ s + ?l div 2 ^ (64 - s)"
      using or_parts [OF l, of ?h] h by (simp add: unsigned_or_eq unat_drop)
    have lo: "unat (push_bit s (Lo v)) = ?l mod 2 ^ (64 - s) * 2 ^ s"
      using 3 split_high [of s] by (simp add: unat_push mult_mod_left)
    have "?l * 2 ^ s = (?l div 2 ^ (64 - s) * 2 ^ (64 - s) + ?l mod 2 ^ (64 - s)) * 2 ^ s" by (simp only: div_mult_mod_eq)
    also have "\<dots> = ?l div 2 ^ (64 - s) * 2 ^ 64 + ?l mod 2 ^ (64 - s) * 2 ^ s"
      using split_high [of s] 3 by (simp only: distrib_right mult.assoc)
    finally have "u128 v * 2 ^ s = (?h * 2 ^ s + ?l div 2 ^ (64 - s)) * 2 ^ 64 + ?l mod 2 ^ (64 - s) * 2 ^ s"
      unfolding u128_def by (simp only: distrib_right mult.assoc mult.commute [of "2 ^ 64"])
    with 3 hi lo show ?thesis by (simp add: U128_ShiftLeft_def u128_def [of "\<lparr>Hi = _, Lo = _\<rparr>"])
  qed (simp add: U128_ShiftLeft_def)
qed

lemma U128_Subtract_value:
  assumes "u128 b \<le> u128 a" shows "u128 (U128_Subtract a b) = u128 a - u128 b"
proof -
  note bounds = unat_bound64 [of "Lo a"] unat_bound64 [of "Lo b"]
  have m: "unat (x - y) = (if unat y \<le> unat x then unat x - unat y else unat x + 2 ^ 64 - unat y)" for x y :: "64 word"
    using unat_bound64 [of y] by (simp add: unat_sub_if_size word_size)
  show ?thesis
  proof (cases "Lo a < Lo b")
    case True
    with assms bounds have h: "unat (Hi b) < unat (Hi a)" by (simp add: u128_def word_less_nat_alt)
    then have "unat (Hi a - Hi b) = unat (Hi a) - unat (Hi b)" by (simp add: m)
    moreover from this h have "unat (Hi a - Hi b - 1) = unat (Hi a) - unat (Hi b) - 1" by (subst m) simp
    ultimately show ?thesis using True h bounds by (simp add: U128_Subtract_def u128_def m word_less_nat_alt)
  next
    case False
    with assms bounds have h: "unat (Hi b) \<le> unat (Hi a)" by (simp add: u128_def word_less_nat_alt)
    with False show ?thesis by (simp add: U128_Subtract_def u128_def m word_less_nat_alt)
  qed
qed

lemma u128_less_iff: "u128 a < u128 b \<longleftrightarrow> Hi a < Hi b \<or> Hi a = Hi b \<and> Lo a < Lo b"
  using unat_bound64 [of "Lo a"] unat_bound64 [of "Lo b"]
  by (auto simp: u128_def word_less_nat_alt word_unat_eq_iff)

lemma U128_Compare_value:
  "U128_Compare a b = (if u128 a < u128 b then - 1 else if u128 b < u128 a then 1 else 0)"
  unfolding u128_less_iff by (auto simp: U128_Compare_def)

declare U128_ToDecimal_loop.simps [simp del]

lemma U128_ToDecimal_loop_value: "rev (U128_ToDecimal_loop ls acc) = (if be ls = 0 then [] else dec_nat (be ls)) @ rev acc"
proof (induction ls acc rule: U128_ToDecimal_loop.induct)
  case (1 ls acc)
  show ?case
  proof (cases "be ls = 0")
    case False
    obtain q r where d: "div10_limbs 0 ls = (q, r)" by fastforce
    have small: "be ls div 10 = 0 \<longleftrightarrow> be ls < 10" by linarith
    from d div10_limbs_0 [OF d] 1 [OF False [unfolded be_eq_0] d [symmetric]] False show ?thesis
      by (subst U128_ToDecimal_loop.simps) (auto simp: be_eq_0 [symmetric] dec_nat.simps [of "be ls"] small split: if_splits)
  qed (simp add: be_eq_0 U128_ToDecimal_loop.simps)
qed

lemma U128_ToDecimal_value: "U128_ToDecimal v = dec_nat (u128 v)"
proof (cases "Hi v = 0")
  case False
  have "be [ucast (drop_bit 32 (Hi v)), ucast (Hi v), ucast (drop_bit 32 (Lo v)), ucast (Lo v)] = u128 v"
  proof -
    have parts: "unat (drop_bit 32 w) mod 4294967296 = unat w div 4294967296" "unat (ucast w :: 32 word) = unat w mod 4294967296"
      for w :: "64 word"
      using unat_bound64 [of w] by (simp_all add: unat_ucast32 unat_drop)
    have high: "h div 4294967296 * 79228162514264337593543950336 + h mod 4294967296 * 18446744073709551616 = h * 18446744073709551616" for h :: nat
      using div_mult_mod_eq [of h 4294967296] by linarith
    show ?thesis using high [of "unat (Hi v)"] by (simp add: u128_def parts unat_ucast32)
  qed
  moreover have "u128 v \<noteq> 0" using False by (simp add: u128_def unsigned_eq_0_iff)
  ultimately show ?thesis using False by (simp add: U128_ToDecimal_def U128_ToDecimal_loop_value del: be.simps)
qed (simp add: U128_ToDecimal_def u128_def)

section \<open>The rounding\<close>

fun flt_neg :: "flt \<Rightarrow> flt" where
  "flt_neg (Finite neg m) = Finite (\<not> neg) m"
| "flt_neg (Infinity neg) = Infinity (\<not> neg)"
| "flt_neg NotANumber = NotANumber"

definition kScale :: "64 word" where "kScale = 10000000"

text \<open>The mantissa and the exponent of a finite magnitude, read from its bits.\<close>

definition mantissa_exp2 :: "rat \<Rightarrow> 64 word \<times> int" where
  "mantissa_exp2 m =
     (let bits = double_bits (Finite False m);
          biased = uint (drop_bit 52 bits AND 0x7FF);
          fraction = bits AND (push_bit 52 1 - 1)
      in if biased \<noteq> 0 then (fraction OR push_bit 52 1, biased - 1075) else (fraction, - 1074))"

definition round_shifted :: "U128 \<Rightarrow> nat \<Rightarrow> U128" where
  "round_shifted numerator s =
     (let quotient = U128_ShiftRight numerator s;
          remainder = U128_Subtract numerator (U128_ShiftLeft quotient s);
          half = U128_ShiftLeft \<lparr>Hi = 0, Lo = 1\<rparr> (s - 1);
          cmp = U128_Compare remainder half;
          up = (cmp > 0 \<or> (cmp = 0 \<and> Lo quotient AND 1 \<noteq> 0))
      in if up
         then (let lo = Lo quotient + 1 in \<lparr>Hi = (if lo = 0 then Hi quotient + 1 else Hi quotient), Lo = lo\<rparr>)
         else quotient)"

text \<open>Dereferencing an empty \<^verbatim>\<open>std::optional\<close> is the exception; the correctness theorem shows that
  this never happens.\<close>

definition RoundDecimal7 :: "flt \<Rightarrow> flt result" where
  "RoundDecimal7 v =
     (case v of
        Finite neg m \<Rightarrow>
          if m = 0 then Inr v
          else
            (let (mantissa, exp2) = mantissa_exp2 m
             in if exp2 \<ge> 0 then Inr v
                else
                  (let shift = nat (- exp2);
                       numerator = Mul64 mantissa kScale;
                       quotient = (if shift < 128 then round_shifted numerator shift else \<lparr>Hi = 0, Lo = 0\<rparr>)
                   in if Hi quotient = 0 \<and> Lo quotient < push_bit 53 1
                      then Inr (Finite neg (dbl_div (dbl_of_size (unat (Lo quotient))) (dbl_of_size (unat kScale))))
                      else bindE (PyFloat (U128_ToDecimal quotient @ ''e-7''))
                             (\<lambda>r. case r of None \<Rightarrow> Inl (StdException ''bad_optional_access'')
                                  | Some x \<Rightarrow> Inr (if neg then flt_neg x else x))))
      | _ \<Rightarrow> Inr v)"

lemma unat_fraction: "unat (w AND (push_bit 52 1 - 1) :: 64 word) = unat w mod 2 ^ 52"
proof -
  have "w AND (push_bit 52 1 - 1) = take_bit 52 w" by (simp add: take_bit_eq_mask mask_eq_exp_minus_1)
  then have "unat (w AND (push_bit 52 1 - 1)) = take_bit 52 (unat w)" by (simp only: unsigned_take_bit_eq)
  then show ?thesis by (simp only: take_bit_eq_mod)
qed

lemma uint_biased: "uint (drop_bit 52 w AND 0x7FF :: 64 word) = int (unat w div 2 ^ 52 mod 2 ^ 11)"
proof -
  have "drop_bit 52 w AND 0x7FF = take_bit 11 (drop_bit 52 w)" by (simp add: take_bit_eq_mask mask_eq_exp_minus_1)
  then have "unat (drop_bit 52 w AND 0x7FF) = take_bit 11 (unat (drop_bit 52 w))" by (simp only: unsigned_take_bit_eq)
  then have "unat (drop_bit 52 w AND 0x7FF) = unat w div 2 ^ 52 mod 2 ^ 11" by (simp only: take_bit_eq_mod unat_drop)
  then show ?thesis by (simp only: uint_nat)
qed

lemma unat_of_int64: "0 \<le> i \<Longrightarrow> i < 2 ^ 64 \<Longrightarrow> unat (of_int i :: 64 word) = nat i"
  by (simp add: unsigned_of_int take_bit_int_eq_self)

lemma mantissa_exp2_value:
  assumes "0 < m" and "is_double m" and "m < pow2 1024"
  shows "case mantissa_exp2 m of (k, e) \<Rightarrow> m = of_nat (unat k) * pow2 e \<and> unat k < 2 ^ 53 \<and> - 1074 \<le> e"
proof (cases "exponent m \<ge> - 1022")
  case True
  obtain k where k: "m / pow2 (exponent m - 52) = of_nat k" "k < 2 ^ 53" using mantissa_exact [OF assms(1,2)] by blast
  then have m: "m = of_nat k * pow2 (exponent m - 52)" by (simp add: nonzero_divide_eq_eq)
  have "pow2 52 * pow2 (exponent m - 52) \<le> of_nat k * pow2 (exponent m - 52)"
    using exponent_bounds(1) [OF assms(1)] unfolding m [symmetric] pow2_add [symmetric] by simp
  then have "pow2 52 \<le> of_nat k" by simp
  then have k52: "2 ^ 52 \<le> k" unfolding pow2_52 by (simp flip: of_nat_le_iff)
  have "pow2 (exponent m) < pow2 1024" using exponent_bounds(1) [OF assms(1)] assms(3) by linarith
  then have e: "exponent m \<le> 1023" by (simp add: pow2_less_iff)
  define B where "B = nat (exponent m + 1023)"
  have B: "0 < B" "B < 2 ^ 11" "int B = exponent m + 1023" using e True by (simp_all add: B_def)
  define w where "w = double_bits (Finite False m)"
  have "w = of_int (int B * 2 ^ 52 + (int k - 2 ^ 52))"
    using assms(1) True by (simp add: w_def double_bits_def k(1) B(3))
  moreover have "int B * 2 ^ 52 + (int k - 2 ^ 52) = int (B * 2 ^ 52 + (k - 2 ^ 52))" using k52 by simp
  ultimately have wi: "w = of_int (int (B * 2 ^ 52 + (k - 2 ^ 52)))" by (simp only:)
  have "B * 2 ^ 52 + (k - 2 ^ 52) < 2 ^ 64" using B(2) k(2) by simp
  then have "int (B * 2 ^ 52 + (k - 2 ^ 52)) < 2 ^ 64" by (simp only: of_nat_less_iff [symmetric, where 'a = int] of_nat_power of_nat_numeral)
  then have w: "unat w = B * 2 ^ 52 + (k - 2 ^ 52)" unfolding wi by (subst unat_of_int64) (simp_all only: of_nat_0_le_iff nat_int)
  have k': "k - 2 ^ 52 < 2 ^ 52" using k(2) by simp
  have biased: "uint (drop_bit 52 w AND 0x7FF) = int B"
    unfolding uint_biased w using B(2) k' by simp
  have frac: "unat (w AND (push_bit 52 1 - 1)) = k - 2 ^ 52"
    unfolding unat_fraction w using k' by simp
  have "unat (push_bit 52 1 :: 64 word) = 1 * 2 ^ 52" by (simp add: unat_push)
  then have "unat ((w AND (push_bit 52 1 - 1)) OR push_bit 52 1) = 1 * 2 ^ 52 + (k - 2 ^ 52)"
    using or_parts [OF k', of 1] frac by (simp only: unsigned_or_eq or.commute)
  then have "unat ((w AND (push_bit 52 1 - 1)) OR push_bit 52 1) = k" using k52 by simp
  then have "mantissa_exp2 m = ((w AND (push_bit 52 1 - 1)) OR push_bit 52 1, exponent m - 52)"
      "unat ((w AND (push_bit 52 1 - 1)) OR push_bit 52 1) = k"
    using B(1,3) biased by (simp_all only: mantissa_exp2_def Let_def w_def [symmetric] of_nat_eq_0_iff) simp_all
  with m k(2) True show ?thesis by (simp only: prod.case) simp
next
  case False
  obtain i e where ie: "m = of_int i * pow2 e" "- 1074 \<le> e" using assms(2) unfolding is_double_def by blast
  have "pow2 e = of_int (2 ^ nat (e + 1074)) * pow2 (- 1074)"
    using ie(2) pow2_add [of "e + 1074" "- 1074"] by (simp add: pow2_def [of "e + 1074"])
  then have "m = of_int (i * 2 ^ nat (e + 1074)) * pow2 (- 1074)" using ie(1) by (simp only: of_int_mult mult.assoc)
  then obtain j where j: "m = of_int j * pow2 (- 1074)" by blast
  then have q: "m / pow2 (- 1074) = of_int j" by (simp only: nonzero_divide_eq_eq [OF pow2_nonzero])
  have "0 < j" using assms(1) j by (simp add: zero_less_mult_iff less_not_sym [OF pow2_pos])
  have "m < pow2 (exponent m + 1)" using exponent_bounds(2) [OF assms(1)] .
  also have "\<dots> \<le> pow2 (52 + (- 1074))" using False by (intro pow2_mono) simp
  finally have "of_int j * pow2 (- 1074) < pow2 52 * pow2 (- 1074)" unfolding j pow2_add .
  then have "of_int j < pow2 52" by (simp add: mult_less_cancel_right_pos)
  then have j52: "j < 2 ^ 52" unfolding pow2_52 of_int_less_iff .
  define w where "w = double_bits (Finite False m)"
  have "w = of_int j" using assms(1) False by (simp add: w_def double_bits_def q)
  then have w: "unat w = nat j" using unat_of_int64 [of j] \<open>0 < j\<close> j52 by simp
  have nj: "nat j < 2 ^ 52" using j52 \<open>0 < j\<close> by (simp add: nat_less_iff)
  have "uint (drop_bit 52 w AND 0x7FF) = 0" "unat (w AND (push_bit 52 1 - 1)) = nat j"
    unfolding uint_biased unat_fraction w using nj by simp_all
  then have "mantissa_exp2 m = (w AND (push_bit 52 1 - 1), - 1074)" "unat (w AND (push_bit 52 1 - 1)) = nat j"
    by (simp_all only: mantissa_exp2_def Let_def w_def [symmetric]) simp_all
  note parts = this
  have "m = of_nat (nat j) * pow2 (- 1074)" using j \<open>0 < j\<close> by simp
  moreover have "nat j < 2 ^ 53" using nj by simp
  ultimately show ?thesis unfolding parts prod.case by simp
qed

lemma round_shifted_value:
  assumes "0 < s" and "s < 128" and "u128 n < 2 ^ 127"
  shows "int (u128 (round_shifted n s)) = round_even (of_nat (u128 n) / 2 ^ s)"
proof -
  define q where "q = U128_ShiftRight n s"
  have q: "u128 q = u128 n div 2 ^ s" using assms(2) by (simp add: q_def U128_ShiftRight_value)
  have qn: "u128 q * 2 ^ s \<le> u128 n" unfolding q by (rule div_times_less_eq_dividend)
  then have sb: "u128 (U128_ShiftLeft q s) = u128 q * 2 ^ s"
    using assms(2) u128_bound [of n] by (intro U128_ShiftLeft_value) linarith+
  have r: "u128 (U128_Subtract n (U128_ShiftLeft q s)) = u128 n mod 2 ^ s"
    using qn by (simp add: U128_Subtract_value sb) (simp add: q minus_div_mult_eq_mod)
  have "(2 :: nat) ^ (s - 1) < 2 ^ 128" using assms(2) by (intro power_strict_increasing) simp_all
  then have half: "u128 (U128_ShiftLeft \<lparr>Hi = 0, Lo = 1\<rparr> (s - 1)) = 2 ^ (s - 1)"
    using assms(2) U128_ShiftLeft_value [of "s - 1" "\<lparr>Hi = 0, Lo = 1\<rparr>"] by (simp add: u128_def)
  have parity: "even (u128 q) \<longleftrightarrow> even (unat (Lo q))" by (simp add: u128_def)
  have odd: "Lo q AND 1 \<noteq> 0 \<longleftrightarrow> odd (u128 q)"
  proof -
    have "unat (Lo q AND 1) = unat (Lo q) mod 2" by (simp add: and_one_eq unat_mod_distrib)
    moreover have "Lo q AND 1 \<noteq> 0 \<longleftrightarrow> unat (Lo q AND 1) \<noteq> 0" by (simp only: unsigned_eq_0_iff)
    ultimately have "Lo q AND 1 \<noteq> 0 \<longleftrightarrow> odd (unat (Lo q))" by (simp only: odd_iff_mod_2_eq_one even_iff_mod_2_eq_zero)
    with parity show ?thesis by blast
  qed
  define up where "up \<longleftrightarrow> u128 n mod 2 ^ s > 2 ^ (s - 1) \<or> (u128 n mod 2 ^ s = 2 ^ (s - 1) \<and> odd (u128 q))"
  let ?inc = "\<lparr>Hi = (if Lo q + 1 = 0 then Hi q + 1 else Hi q), Lo = Lo q + 1\<rparr>"
  have d: "round_shifted n s = (if up then ?inc else q)"
    unfolding round_shifted_def Let_def q_def [symmetric] odd U128_Compare_value r half up_def by (auto split: if_splits)
  have "2 ^ 1 \<le> (2 :: nat) ^ s" using assms(1) by (intro power_increasing) simp_all
  then have "u128 q * 2 \<le> u128 q * 2 ^ s" by (intro mult_le_mono) simp_all
  from order.strict_trans1 [OF order_trans [OF this qn] assms(3)] have "u128 q < 2 ^ 126" by simp
  then have hq: "unat (Hi q) < 2 ^ 63" by (simp add: u128_def)
  have inc: "u128 ?inc = u128 q + 1"
  proof (cases "Lo q + 1 = 0")
    case True
    then have "Lo q = - 1" by (simp add: eq_neg_iff_add_eq_0)
    then have "unat (Lo q) = 2 ^ 64 - 1" by (simp add: unsigned_minus_1_eq_mask mask_eq_exp_minus_1)
    moreover have "unat (Hi q + 1) = unat (Hi q) + 1" using hq unat_plus [of "Hi q" 1] by simp
    ultimately show ?thesis using True by (simp add: u128_def)
  next
    case False
    then have "unat (Lo q + 1) = unat (Lo q) + 1" by (metis Suc_eq_plus1 add.commute unatSuc)
    with False show ?thesis by (simp add: u128_def)
  qed
  have "round_even ((of_nat (u128 n) + 0) / 2 ^ s) = int (if up then u128 q + 1 else u128 q)"
    unfolding up_def q by (subst round_even_scaled) (use assms(1) in simp_all)
  then show ?thesis using inc by (simp add: d)
qed

lemma PyFloat_scaled:
  assumes "dec_digits ds" and "ds \<noteq> []"
  shows "PyFloat (ds @ ''e-7'') = Inr (Some (DecimalToDouble False ds (- 7)))"
proof -
  have "list_all plain (ds @ ''e-7'')" using plain_digits [OF assms(1)] by (simp add: plain_def IsAsciiDigit_def of_char_def)
  then have "PyFloat (ds @ ''e-7'') = Inr (ParseBody (ds @ ''e-7''))" by (rule PyFloat_plain) simp
  moreover have "take_sign (ds @ ''e-7'') = (False, ds @ ''e-7'')"
    using assms take_sign_digits [of "hd ds" False "tl ds @ ''e-7''"] by (cases ds) (simp_all add: sign_text_def)
  moreover have "takeWhile IsAsciiDigit (ds @ ''e-7'') = ds" "dropWhile IsAsciiDigit (ds @ ''e-7'') = ''e-7''"
    using takeWhile_digits [OF assms(1), of "''e-7''"] by simp_all
  moreover have "ParseExponent ''e-7'' = (- 7, [])"
    using ParseExponent_text [of "''7''" True] by (simp add: digits_value_def of_char_def IsAsciiDigit_def)
  ultimately show ?thesis using assms(2) by (simp add: ParseBody_def)
qed

lemma round_even_small: "0 \<le> x \<Longrightarrow> x < 1 / 2 \<Longrightarrow> round_even x = 0"
  using floor_unique [of 0 x] by (simp add: round_even_def)

lemma round7_integer:
  assumes "m = of_int i" shows "of_int (round_even (m * 10 ^ 7)) / 10 ^ 7 = (m :: rat)"
proof -
  have "m * 10 ^ 7 = of_int (i * 10 ^ 7)" by (simp add: assms)
  then show ?thesis by (simp only: round_even_of_int) (simp add: assms)
qed

lemma round7_finite:
  assumes "is_double m" and "0 \<le> m" and "m < pow2 1024"
  shows "\<not> pow2 1024 \<le> fl (of_int (round_even (m * 10 ^ 7)) / 10 ^ 7)"
proof (cases "m < of_int (2 ^ 53)")
  case True
  then have "m * 10 ^ 7 \<le> of_int (2 ^ 53 * 10 ^ 7)" by simp
  then have "round_even (m * 10 ^ 7) \<le> 2 ^ 53 * 10 ^ 7" using round_even_mono [of "m * 10 ^ 7"] by (metis round_even_of_int)
  then have "of_int (round_even (m * 10 ^ 7)) \<le> (of_int (2 ^ 53 * 10 ^ 7) :: rat)" by (simp only: of_int_le_iff)
  then have "of_int (round_even (m * 10 ^ 7)) / 10 ^ 7 \<le> pow2 53" by (simp add: pow2_53)
  then have "fl (of_int (round_even (m * 10 ^ 7)) / 10 ^ 7) \<le> pow2 53" using fl_mono fl_double [OF is_double_pow2 [of 53]] by fastforce
  moreover have "pow2 53 < pow2 1024" by (simp add: pow2_less_iff)
  ultimately show ?thesis by simp
next
  case False
  then have m0: "0 < m" by (simp add: order.strict_trans2 [rotated])
  obtain k e where "mantissa_exp2 m = (k, e)" by fastforce
  with mantissa_exp2_value [OF m0 assms(1,3)] have m: "m = of_nat (unat k) * pow2 e" and k: "unat k < 2 ^ 53" by simp_all
  have "0 \<le> e"
  proof (rule ccontr)
    assume "\<not> 0 \<le> e"
    then have "pow2 e \<le> 1" using pow2_mono [of e 0] by simp
    then have "m \<le> of_nat (unat k)" unfolding m by (intro mult_left_le of_nat_0_le_iff)
    also have "\<dots> < of_nat (2 ^ 53)" using k by (simp only: of_nat_less_iff)
    finally show False using False by simp
  qed
  then have "m = of_int (int (unat k * 2 ^ nat e))" using m by (simp add: pow2_def)
  from round7_integer [OF this] show ?thesis using fl_double [OF assms(1)] assms(3) by simp
qed

lemma RoundDecimal7_value:
  assumes "is_double m" and "0 \<le> m" and "m < pow2 1024"
  shows "RoundDecimal7 (Finite neg m) = Inr (Finite neg (fl (of_int (round_even (m * 10 ^ 7)) / 10 ^ 7)))"
proof (cases "m = 0")
  case True
  then show ?thesis using round_even_of_int [of 0] by (simp add: RoundDecimal7_def)
next
  case False
  with assms(2) have m0: "0 < m" by simp
  obtain k e where ke: "mantissa_exp2 m = (k, e)" by fastforce
  with mantissa_exp2_value [OF m0 assms(1,3)] have m: "m = of_nat (unat k) * pow2 e" and k: "unat k < 2 ^ 53" by simp_all
  show ?thesis
  proof (cases "e \<ge> 0")
    case True
    then have "m = of_int (int (unat k * 2 ^ nat e))" using m by (simp add: pow2_def)
    then have "of_int (round_even (m * 10 ^ 7)) / 10 ^ 7 = m" by (rule round7_integer)
    then show ?thesis using False True fl_double [OF assms(1)] by (simp add: RoundDecimal7_def ke)
  next
    case neg_e: False
    define s where "s = nat (- e)"
    have s: "0 < s" "pow2 e = 1 / 2 ^ s" using neg_e by (simp_all add: s_def pow2_def)
    define n where "n = Mul64 k kScale"
    have n: "u128 n = unat k * 10 ^ 7" by (simp add: n_def Mul64_value kScale_def)
    have n77: "u128 n < 2 ^ 77" using k by (simp add: n)
    have mn: "m * 10 ^ 7 = of_nat (u128 n) / 2 ^ s" by (simp add: m s n)
    define q where "q = (if s < 128 then round_shifted n s else \<lparr>Hi = 0, Lo = 0\<rparr>)"
    have q: "int (u128 q) = round_even (m * 10 ^ 7)"
    proof (cases "s < 128")
      case True
      have "u128 n < 2 ^ 127" using n77 by simp
      from round_shifted_value [OF s(1) True this] show ?thesis unfolding mn using True by (simp add: q_def)
    next
      case big: False
      have "(of_nat (u128 n) :: rat) < of_nat (2 ^ 77)" using n77 by (simp only: of_nat_less_iff)
      moreover have "(2 :: rat) ^ 128 \<le> 2 ^ s" using big by (intro power_increasing) simp_all
      ultimately have "of_nat (u128 n) / (2 :: rat) ^ s < 1 / 2" by (simp add: pos_divide_less_eq)
      then have "round_even (of_nat (u128 n) / 2 ^ s) = 0" by (intro round_even_small) simp_all
      with big show ?thesis unfolding mn by (simp add: q_def u128_def)
    qed
    have rounded: "of_int (round_even (m * 10 ^ 7)) = (of_nat (u128 q) :: rat)" unfolding q [symmetric] by simp
    have def: "RoundDecimal7 (Finite neg m) =
        (if Hi q = 0 \<and> Lo q < push_bit 53 1
         then Inr (Finite neg (dbl_div (dbl_of_size (unat (Lo q))) (dbl_of_size (unat kScale))))
         else bindE (PyFloat (U128_ToDecimal q @ ''e-7''))
                (\<lambda>r. case r of None \<Rightarrow> Inl (StdException ''bad_optional_access'') | Some x \<Rightarrow> Inr (if neg then flt_neg x else x)))"
      using False neg_e by (simp only: RoundDecimal7_def flt.case ke prod.case Let_def q_def [symmetric] n_def [symmetric] s_def [symmetric] if_False)
    show ?thesis
    proof (cases "Hi q = 0 \<and> Lo q < push_bit 53 1")
      case True
      then have "unat (Lo q) \<le> 2 ^ 53" "u128 q = unat (Lo q)" by (simp_all add: word_less_nat_alt u128_def)
      moreover have "dbl_of_size (unat kScale) = 10 ^ 7" using fl_nat [of "10 ^ 7"] by (simp add: dbl_of_size_def kScale_def)
      ultimately show ?thesis unfolding def rounded using True
        by (simp add: dbl_div_def dbl_of_size_def fl_nat del: of_nat_unat)
    next
      case big: False
      have "\<not> pow2 1024 \<le> fl (of_nat (u128 q) / 10 ^ 7)" using round7_finite [OF assms] unfolding rounded .
      then have "DecimalToDouble False (dec_nat (u128 q)) (- 7) = Finite False (fl (of_nat (u128 q) / 10 ^ 7))"
        by (simp add: DecimalToDouble_nearest [OF dec_digits_dec_nat] digits_value_dec_nat nearest_def pow10_neg)
      with PyFloat_scaled [OF dec_digits_dec_nat dec_nat_ne, of "u128 q"] big show ?thesis
        unfolding def rounded by (simp only: if_not_P [OF big] U128_ToDecimal_value) simp
    qed
  qed
qed

text \<open>Python's \<^verbatim>\<open>"{0:.7f}".format(v)\<close>: the exact value rounded to seven decimals, ties to even, with all
  seven of them written.\<close>

definition format_7f :: "bool \<Rightarrow> rat \<Rightarrow> string" where
  "format_7f neg m =
     (let q = nat (round_even (m * 10 ^ 7)); fraction = dec_nat (q mod 10 ^ 7)
      in sign_text neg @ dec_nat (q div 10 ^ 7) @ ''.'' @ replicate (7 - length fraction) (CHR ''0'') @ fraction)"

lemma length_dec_nat: "0 < k \<Longrightarrow> n < 10 ^ k \<Longrightarrow> length (dec_nat n) \<le> k"
proof (induction k arbitrary: n)
  case (Suc k)
  show ?case
  proof (cases "n < 10")
    case False
    then have "0 < k" using Suc.prems by (cases k) auto
    moreover have "n div 10 < 10 ^ k" using Suc.prems by (simp add: div_less_iff_less_mult mult.commute)
    ultimately have "length (dec_nat (n div 10)) \<le> k" by (rule Suc.IH)
    then show ?thesis using False by (simp add: dec_nat.simps [of n])
  qed (simp add: dec_nat.simps)
qed simp

lemma dec_digits_zeros: "dec_digits (replicate n (CHR ''0''))"
  by (induction n) simp_all

lemma format_7f_parses:
  assumes "is_double m" and "0 \<le> m" and "m < pow2 1024"
  shows "PyFloat (format_7f neg m) = Inr (Some (Finite neg (fl (of_int (round_even (m * 10 ^ 7)) / 10 ^ 7))))"
proof -
  define q where "q = nat (round_even (m * 10 ^ 7))"
  have "0 \<le> round_even (m * 10 ^ 7)" using round_even_mono [of "of_int 0" "m * 10 ^ 7"] assms(2) unfolding round_even_of_int by simp
  then have q: "of_int (round_even (m * 10 ^ 7)) = (of_nat q :: rat)" by (simp add: q_def)
  define d1 d2 where "d1 = dec_nat (q div 10 ^ 7)"
    and "d2 = replicate (7 - length (dec_nat (q mod 10 ^ 7))) (CHR ''0'') @ dec_nat (q mod 10 ^ 7)"
  have len: "length (dec_nat (q mod 10 ^ 7)) \<le> 7" by (rule length_dec_nat) simp_all
  then have l7: "length d2 = 7" by (simp add: d2_def)
  have layout: "format_7f neg m = sign_text neg @ d1 @ ''.'' @ d2"
    by (simp only: format_7f_def Let_def q_def [symmetric] d1_def d2_def)
  have dig: "dec_digits d1" "d1 \<noteq> []" "dec_digits d2"
    using dec_digits_dec_nat dec_digits_zeros by (simp_all add: d1_def d2_def dec_digits_append)
  have "list_all plain (sign_text neg @ d1 @ ''.'' @ d2)"
    using plain_digits [OF dig(1)] plain_digits [OF dig(3)] plain_chars by (simp add: sign_text_def)
  then have "PyFloat (format_7f neg m) = Inr (Some (DecimalToDouble neg (d1 @ d2) (- 7)))"
    unfolding layout by (subst PyFloat_plain) (simp_all add: ParseBody_point [OF dig] l7 del: append.simps)
  moreover have "digits_value (d1 @ d2) = q"
  proof -
    have "digits_value d2 = q mod 10 ^ 7" by (simp add: d2_def digits_value_append digits_value_zeros digits_value_dec_nat)
    then show ?thesis by (simp add: digits_value_append l7 d1_def digits_value_dec_nat)
  qed
  then have "DecimalToDouble neg (d1 @ d2) (- 7) = Finite neg (fl (of_nat q / 10 ^ 7))"
    using dig round7_finite [OF assms] unfolding q
    by (simp add: DecimalToDouble_nearest dec_digits_append nearest_def pow10_neg)
  ultimately show ?thesis unfolding q by simp
qed

section \<open>Property of the rounding\<close>

text \<open>C40. The 7-decimal rounding is Python's: on every finite double, \<^verbatim>\<open>RoundDecimal7\<close> never fails and
  returns what \<^verbatim>\<open>float("{0:.7f}".format(v))\<close> returns, the double nearest to the value rounded to seven
  decimals with ties to even, sign kept; infinities and NaN are returned unchanged.\<close>

theorem round_decimal_7_python:
  assumes "is_double m" and "0 \<le> m" and "m < 2 ^ 1024"
  shows "RoundDecimal7 (Finite neg m) = Inr (Finite neg (fl (of_int (round_even (m * 10 ^ 7)) / 10 ^ 7))) \<and>
    PyFloat (format_7f neg m) = Inr (Some (Finite neg (fl (of_int (round_even (m * 10 ^ 7)) / 10 ^ 7)))) \<and>
    RoundDecimal7 (Infinity neg) = Inr (Infinity neg) \<and> RoundDecimal7 NotANumber = Inr NotANumber"
proof -
  have "pow2 1024 = 2 ^ 1024" using pow2_int [of 1024] by (simp only: of_nat_numeral of_nat_power)
  then have "m < pow2 1024" using assms(3) by (simp only:)
  with RoundDecimal7_value [OF assms(1,2)] format_7f_parses [OF assms(1,2)] show ?thesis
    by (simp add: RoundDecimal7_def [of "Infinity neg"] RoundDecimal7_def [of NotANumber])
qed

theorem round_decimal_7_witness:
  "RoundDecimal7 (Finite True (3 / 4)) = Inr (Finite True (fl (of_int (round_even (3 / 4 * 10 ^ 7)) / 10 ^ 7)))"
proof -
  have "is_double (3 / 4)" unfolding is_double_def by (intro exI [of _ 3] exI [of _ "- 2"]) (simp add: pow2_def)
  moreover have "(3 / 4 :: rat) < 2 ^ 1024" by (rule less_le_trans [of _ 1]) simp_all
  ultimately show ?thesis using round_decimal_7_python [of "3 / 4" True] by simp
qed

end
