(* ===== verification/Tables.thy ===== *)
theory Tables
  imports Consuming Utf8 FloatText
begin

text \<open>
  The in-memory \<^verbatim>\<open>functions\<close> table of an export (\<^verbatim>\<open>include/dsigmatcher/diff/Table.h\<close>) and
  its loading (\<^verbatim>\<open>src/diff/Ingest.cpp\<close>, \<^verbatim>\<open>src/diff/SideTables.cpp\<close>).

  SQLite is a parameter: preparing a statement gives its column names and the rows it steps through, and
  may throw; a cell carries the answers to the four reads \<^verbatim>\<open>Type\<close>, \<^verbatim>\<open>Int\<close>, \<^verbatim>\<open>Real\<close> and
  \<^verbatim>\<open>Text\<close>. What ingest relies on is \<open>statement_ok\<close>: \<^verbatim>\<open>select f.*, a, b\<close> yields the columns of the
  table, without repetition, then two more, and every row has one cell per column.

  The table has one member per column; a pointer to a member (\<^verbatim>\<open>IntColumn FunctionTable::*\<close>) is a value of
  an enumeration, and the members of one type are a function from it.
\<close>

section \<open>SQLite values\<close>

datatype SqlType = SqlNull | SqlInteger | SqlReal | SqlText | SqlBlob

record SqlCell =
  sc_Type :: SqlType
  sc_Int :: int
  sc_Real :: flt
  sc_Bytes :: string

datatype BindValue = BindNull | BindInteger int | BindDouble flt | BindStr string

text \<open>A prepared statement: its columns, the rows it will return, and the error that ends them, if any.\<close>

record Statement =
  st_Columns :: "string list"
  st_Rows :: "SqlCell list list"
  st_Error :: "diff_error option"

type_synonym Database = "string \<Rightarrow> BindValue list \<Rightarrow> Statement result"

text \<open>\<^verbatim>\<open>while (Stmt.Step())\<close>: all rows, or the error.\<close>

definition fetch_all :: "Statement \<Rightarrow> SqlCell list list result" where
  "fetch_all st = (case st_Error st of None \<Rightarrow> Inr (st_Rows st) | Some e \<Rightarrow> Inl e)"

text \<open>One \<^verbatim>\<open>Stmt.Step()\<close>.\<close>

definition Step :: "Statement \<Rightarrow> (SqlCell list option \<times> Statement) result" where
  "Step st =
     (case st_Rows st of
        row # rows \<Rightarrow> Inr (Some row, st\<lparr>st_Rows := rows\<rparr>)
      | [] \<Rightarrow> (case st_Error st of None \<Rightarrow> Inr (None, st) | Some e \<Rightarrow> Inl e))"

definition EqualsIgnoreCaseAscii :: "string \<Rightarrow> string \<Rightarrow> bool" where
  "EqualsIgnoreCaseAscii a b \<longleftrightarrow> length a = length b \<and> map ascii_lower a = map ascii_lower b"

section \<open>Columns\<close>

record TextColumn =
  tc_Pool :: string
  tc_Offset :: "nat list"
  tc_Length :: "32 word list"
  tc_IsNull :: "bool list"
  tc_IsBlob :: "bool list"

record IntColumn =
  ic_Value :: "int list"
  ic_IsNull :: "bool list"
  ic_NotInteger :: "bool list"

record RealColumn =
  rc_Value :: "flt list"
  rc_IsNull :: "bool list"
  rc_NotReal :: "bool list"

definition empty_TextColumn :: TextColumn where
  "empty_TextColumn = \<lparr>tc_Pool = [], tc_Offset = [], tc_Length = [], tc_IsNull = [], tc_IsBlob = []\<rparr>"

definition empty_IntColumn :: IntColumn where
  "empty_IntColumn = \<lparr>ic_Value = [], ic_IsNull = [], ic_NotInteger = []\<rparr>"

definition empty_RealColumn :: RealColumn where
  "empty_RealColumn = \<lparr>rc_Value = [], rc_IsNull = [], rc_NotReal = []\<rparr>"

definition Text_View :: "TextColumn \<Rightarrow> nat \<Rightarrow> string" where
  "Text_View c row = take (unat (tc_Length c ! row)) (drop (tc_Offset c ! row) (tc_Pool c))"

definition Text_Get :: "TextColumn \<Rightarrow> nat \<Rightarrow> string option" where
  "Text_Get c row = (if tc_IsNull c ! row then None else Some (Text_View c row))"

definition Text_Append :: "TextColumn \<Rightarrow> string \<Rightarrow> bool \<Rightarrow> TextColumn" where
  "Text_Append c bytes blob =
     \<lparr>tc_Pool = tc_Pool c @ bytes, tc_Offset = tc_Offset c @ [length (tc_Pool c)],
      tc_Length = tc_Length c @ [of_nat (length bytes)], tc_IsNull = tc_IsNull c @ [False], tc_IsBlob = tc_IsBlob c @ [blob]\<rparr>"

definition Text_AppendNull :: "TextColumn \<Rightarrow> TextColumn" where
  "Text_AppendNull c =
     c\<lparr>tc_Offset := tc_Offset c @ [length (tc_Pool c)], tc_Length := tc_Length c @ [0],
       tc_IsNull := tc_IsNull c @ [True], tc_IsBlob := tc_IsBlob c @ [False]\<rparr>"

section \<open>The table\<close>

datatype IntMember =
    IdCol | NodesCol | EdgesCol | IndegreeCol | OutdegreeCol | SizeCol | InstructionsCol
    | CyclomaticComplexityCol | PseudocodeLinesCol | FunctionFlagsCol | StronglyConnectedCol | LoopsCol
    | BytesSumCol | ConstantsCountCol

datatype TextMember =
    NameCol | AddressCol | MnemonicsCol | NamesCol | PrototypeCol | PrimesValueCol | CommentCol
    | MangledFunctionCol | BytesHashCol | PseudocodeCol | PseudocodeHash1Col | PseudocodePrimesCol
    | AssemblyCol | Prototype2Col | PseudocodeHash2Col | PseudocodeHash3Col | RvaCol
    | TarjanTopologicalSortCol | StronglyConnectedSppCol | CleanAssemblyCol | CleanPseudoCol | MnemonicsSppCol
    | SwitchesCol | FunctionHashCol | MdIndexCol | ConstantsCol | SegmentRvaCol | AssemblyAddrsCol
    | KghHashCol | SourceFileCol | UserdataCol | MicrocodeCol | CleanMicrocodeCol | MicrocodeSppCol

datatype RealMember = ExportTimeCol

datatype Member = IntM IntMember | TextM TextMember | RealM RealMember

datatype ColumnKind = IntegerKind | TextKind | RealKind

type_synonym ColumnDesc = "string \<times> Member \<times> bool"

abbreviation desc_Name :: "ColumnDesc \<Rightarrow> string" where "desc_Name d \<equiv> fst d"
abbreviation desc_Member :: "ColumnDesc \<Rightarrow> Member" where "desc_Member d \<equiv> fst (snd d)"
abbreviation desc_SelectField :: "ColumnDesc \<Rightarrow> bool" where "desc_SelectField d \<equiv> snd (snd d)"

definition desc_Kind :: "ColumnDesc \<Rightarrow> ColumnKind" where
  "desc_Kind d = (case desc_Member d of IntM _ \<Rightarrow> IntegerKind | TextM _ \<Rightarrow> TextKind | RealM _ \<Rightarrow> RealKind)"

definition kColumns :: "ColumnDesc list" where
  "kColumns =
    [(''id'', IntM IdCol, False), (''name'', TextM NameCol, True), (''address'', TextM AddressCol, True)
     , (''nodes'', IntM NodesCol, True), (''edges'', IntM EdgesCol, True)
     , (''indegree'', IntM IndegreeCol, True), (''outdegree'', IntM OutdegreeCol, True)
     , (''size'', IntM SizeCol, True), (''instructions'', IntM InstructionsCol, True)
     , (''mnemonics'', TextM MnemonicsCol, False), (''names'', TextM NamesCol, False)
     , (''prototype'', TextM PrototypeCol, False)
     , (''cyclomatic_complexity'', IntM CyclomaticComplexityCol, True)
     , (''primes_value'', TextM PrimesValueCol, False), (''comment'', TextM CommentCol, False)
     , (''mangled_function'', TextM MangledFunctionCol, True), (''bytes_hash'', TextM BytesHashCol, True)
     , (''pseudocode'', TextM PseudocodeCol, True), (''pseudocode_lines'', IntM PseudocodeLinesCol, False)
     , (''pseudocode_hash1'', TextM PseudocodeHash1Col, False)
     , (''pseudocode_primes'', TextM PseudocodePrimesCol, True)
     , (''function_flags'', IntM FunctionFlagsCol, False), (''assembly'', TextM AssemblyCol, True)
     , (''prototype2'', TextM Prototype2Col, False), (''pseudocode_hash2'', TextM PseudocodeHash2Col, False)
     , (''pseudocode_hash3'', TextM PseudocodeHash3Col, False)
     , (''strongly_connected'', IntM StronglyConnectedCol, True), (''loops'', IntM LoopsCol, True)
     , (''rva'', TextM RvaCol, False), (''tarjan_topological_sort'', TextM TarjanTopologicalSortCol, False)
     , (''strongly_connected_spp'', TextM StronglyConnectedSppCol, False)
     , (''clean_assembly'', TextM CleanAssemblyCol, True), (''clean_pseudo'', TextM CleanPseudoCol, True)
     , (''mnemonics_spp'', TextM MnemonicsSppCol, False), (''switches'', TextM SwitchesCol, False)
     , (''function_hash'', TextM FunctionHashCol, False), (''bytes_sum'', IntM BytesSumCol, False)
     , (''md_index'', TextM MdIndexCol, False), (''constants'', TextM ConstantsCol, False)
     , (''constants_count'', IntM ConstantsCountCol, True), (''segment_rva'', TextM SegmentRvaCol, False)
     , (''assembly_addrs'', TextM AssemblyAddrsCol, False), (''kgh_hash'', TextM KghHashCol, True)
     , (''source_file'', TextM SourceFileCol, False), (''userdata'', TextM UserdataCol, False)
     , (''microcode'', TextM MicrocodeCol, False), (''clean_microcode'', TextM CleanMicrocodeCol, True)
     , (''microcode_spp'', TextM MicrocodeSppCol, False), (''export_time'', RealM ExportTimeCol, False)]"

definition FindDesc :: "string \<Rightarrow> ColumnDesc option" where
  "FindDesc name = find (\<lambda>d. desc_Name d = name) kColumns"

record FunctionTable =
  ft_Int :: "IntMember \<Rightarrow> IntColumn"
  ft_Text :: "TextMember \<Rightarrow> TextColumn"
  ft_Real :: "RealMember \<Rightarrow> RealColumn"
  ft_MdSqlReal :: "flt list"
  ft_MdSqlNull :: "bool list"
  ft_AddressSqlReal :: "flt list"
  ft_AddressSqlNull :: "bool list"
  ft_SelectFieldsUtf8Bad :: "bool list"
  ft_AnyColumnUtf8Bad :: "bool list"
  ft_AddrIdOf :: "AddrId list"
  ft_NameIdOf :: "NameId list"
  ft_MangledIdOf :: "NameId list"
  ft_RowByAddr :: "(AddrId \<times> 32 word) list"
  ft_RowsByName :: "(NameId \<times> 32 word list) list"

definition empty_FunctionTable :: FunctionTable where
  "empty_FunctionTable =
     \<lparr>ft_Int = (\<lambda>_. empty_IntColumn), ft_Text = (\<lambda>_. empty_TextColumn), ft_Real = (\<lambda>_. empty_RealColumn),
      ft_MdSqlReal = [], ft_MdSqlNull = [], ft_AddressSqlReal = [], ft_AddressSqlNull = [],
      ft_SelectFieldsUtf8Bad = [], ft_AnyColumnUtf8Bad = [], ft_AddrIdOf = [], ft_NameIdOf = [], ft_MangledIdOf = [],
      ft_RowByAddr = [], ft_RowsByName = []\<rparr>"

definition Table_Count :: "FunctionTable \<Rightarrow> nat" where
  "Table_Count t = length (ic_IsNull (ft_Int t IdCol))"

definition FindRow :: "FunctionTable \<Rightarrow> AddrId \<Rightarrow> 32 word option" where
  "FindRow t ea = map_of (ft_RowByAddr t) ea"

definition RowsNamed :: "FunctionTable \<Rightarrow> NameId \<Rightarrow> 32 word list" where
  "RowsNamed t key = (case map_of (ft_RowsByName t) key of None \<Rightarrow> [] | Some rows \<Rightarrow> rows)"

definition ColumnNames :: "string list" where
  "ColumnNames = map desc_Name kColumns"

definition KindOf :: "string \<Rightarrow> ColumnKind option" where
  "KindOf name = map_option desc_Kind (FindDesc name)"

definition IntColumnNamed :: "FunctionTable \<Rightarrow> string \<Rightarrow> IntColumn option" where
  "IntColumnNamed t name = (case FindDesc name of Some (_, IntM m, _) \<Rightarrow> Some (ft_Int t m) | _ \<Rightarrow> None)"

definition TextColumnNamed :: "FunctionTable \<Rightarrow> string \<Rightarrow> TextColumn option" where
  "TextColumnNamed t name = (case FindDesc name of Some (_, TextM m, _) \<Rightarrow> Some (ft_Text t m) | _ \<Rightarrow> None)"

definition RealColumnNamed :: "FunctionTable \<Rightarrow> string \<Rightarrow> RealColumn option" where
  "RealColumnNamed t name = (case FindDesc name of Some (_, RealM m, _) \<Rightarrow> Some (ft_Real t m) | _ \<Rightarrow> None)"

section \<open>Side tables\<close>

record TableInfo =
  ti_Name :: string
  ti_Present :: bool
  ti_Rows :: int
  ti_Columns :: "string list"

record ProgramRow =
  pr_Id :: SqlCell
  pr_CallgraphPrimes :: SqlCell
  pr_CallgraphAllPrimes :: SqlCell
  pr_Processor :: SqlCell
  pr_Md5sum :: SqlCell

record SideTables =
  sd_Tables :: "TableInfo list"
  sd_Program :: "ProgramRow list"
  sd_Version :: "SqlCell list"
  sd_IndexCount :: "32 word"
  sd_HasStat1 :: bool

definition SchemaName :: "Side \<Rightarrow> string" where
  "SchemaName which = (if which = Main_Side then ''main'' else ''diff'')"

definition SideTableNames :: "string list" where
  "SideTableNames =
     [''functions'', ''program'', ''program_data'', ''version'', ''instructions'', ''basic_blocks'', ''bb_relations'',
      ''bb_instructions'', ''function_bblocks'', ''callgraph'', ''constants'', ''compilation_units'',
      ''compilation_unit_functions'', ''sqlite_stat1'']"

definition Side_Find :: "TableInfo list \<Rightarrow> string \<Rightarrow> TableInfo option" where
  "Side_Find tables name = find (\<lambda>info. ti_Name info = name) tables"

definition Side_Has :: "TableInfo list \<Rightarrow> string \<Rightarrow> bool" where
  "Side_Has tables name = (case Side_Find tables name of None \<Rightarrow> False | Some info \<Rightarrow> ti_Present info)"

definition Side_Rows :: "TableInfo list \<Rightarrow> string \<Rightarrow> int" where
  "Side_Rows tables name =
     (case Side_Find tables name of None \<Rightarrow> 0 | Some info \<Rightarrow> if ti_Present info then ti_Rows info else 0)"

text \<open>\<^verbatim>\<open>Statement::Cell\<close>: only the field of the storage class is filled in.\<close>

definition Statement_Cell :: "SqlCell \<Rightarrow> SqlCell" where
  "Statement_Cell c =
     (let none = \<lparr>sc_Type = sc_Type c, sc_Int = 0, sc_Real = Finite False 0, sc_Bytes = []\<rparr>
      in case sc_Type c of
           SqlInteger \<Rightarrow> none\<lparr>sc_Int := sc_Int c\<rparr>
         | SqlReal \<Rightarrow> none\<lparr>sc_Real := sc_Real c\<rparr>
         | SqlText \<Rightarrow> none\<lparr>sc_Bytes := sc_Bytes c\<rparr>
         | SqlBlob \<Rightarrow> none\<lparr>sc_Bytes := sc_Bytes c\<rparr>
         | SqlNull \<Rightarrow> none)"

definition TableExists :: "Database \<Rightarrow> string \<Rightarrow> string \<Rightarrow> bool result" where
  "TableExists db schema name =
     bindE (db (''select 1 from '' @ schema @ ''.sqlite_master where type = '' @ quote @ ''table'' @ quote @ '' and name = ?'')
              [BindStr name])
       (\<lambda>st. bindE (Step st) (\<lambda>(row, _). Inr (row \<noteq> None)))"

text \<open>The first cell of the first row, as an integer; 0 when there is no row.\<close>

definition query_count :: "Database \<Rightarrow> string \<Rightarrow> int result" where
  "query_count db sql =
     bindE (db sql []) (\<lambda>st. bindE (Step st) (\<lambda>(row, _). Inr (case row of None \<Rightarrow> 0 | Some cells \<Rightarrow> sc_Int (cells ! 0))))"

definition load_table_info :: "Database \<Rightarrow> string \<Rightarrow> string \<Rightarrow> TableInfo result" where
  "load_table_info db schema name =
     bindE (TableExists db schema name) (\<lambda>present.
       if present
       then bindE (query_count db (''select count(*) from '' @ schema @ ''.'' @ name)) (\<lambda>rows.
              bindE (db (''pragma '' @ schema @ ''.table_info('' @ name @ '')'') []) (\<lambda>st.
                bindE (fetch_all st) (\<lambda>columns.
                  Inr \<lparr>ti_Name = name, ti_Present = True, ti_Rows = rows,
                       ti_Columns = map (\<lambda>cells. sc_Bytes (cells ! 1)) columns\<rparr>)))
       else Inr \<lparr>ti_Name = name, ti_Present = False, ti_Rows = 0, ti_Columns = []\<rparr>)"

primrec load_table_infos :: "Database \<Rightarrow> string \<Rightarrow> string list \<Rightarrow> TableInfo list result" where
  "load_table_infos db schema [] = Inr []"
| "load_table_infos db schema (name # names) =
     bindE (load_table_info db schema name) (\<lambda>info.
       bindE (load_table_infos db schema names) (\<lambda>infos. Inr (info # infos)))"

definition comma_join :: "string list \<Rightarrow> string" where
  "comma_join items = foldl (\<lambda>acc item. acc @ (if acc = [] then [] else '', '') @ item) [] items"

definition load_program :: "Database \<Rightarrow> string \<Rightarrow> TableInfo list \<Rightarrow> ProgramRow list result" where
  "load_program db schema tables =
     (case Side_Find tables ''program'' of
        None \<Rightarrow> Inr []
      | Some info \<Rightarrow>
          if ti_Present info
          then (let columns = map (\<lambda>c. if c \<in> set (ti_Columns info) then c else ''null'')
                      [''id'', ''callgraph_primes'', ''callgraph_all_primes'', ''processor'', ''md5sum'']
                in bindE (db (''select '' @ comma_join columns @ '' from '' @ schema @ ''.program'' @
                              (if ''id'' \<in> set (ti_Columns info) then '' order by id'' else [])) [])
                     (\<lambda>st. bindE (fetch_all st) (\<lambda>rows.
                        Inr (map (\<lambda>cells. \<lparr>pr_Id = Statement_Cell (cells ! 0), pr_CallgraphPrimes = Statement_Cell (cells ! 1),
                                    pr_CallgraphAllPrimes = Statement_Cell (cells ! 2), pr_Processor = Statement_Cell (cells ! 3),
                                    pr_Md5sum = Statement_Cell (cells ! 4)\<rparr>) rows))))
          else Inr [])"

definition load_version :: "Database \<Rightarrow> string \<Rightarrow> TableInfo list \<Rightarrow> SqlCell list result" where
  "load_version db schema tables =
     (case Side_Find tables ''version'' of
        None \<Rightarrow> Inr []
      | Some info \<Rightarrow>
          if ti_Present info \<and> ''value'' \<in> set (ti_Columns info)
          then bindE (db (''select value from '' @ schema @ ''.version'') [])
                 (\<lambda>st. bindE (fetch_all st) (\<lambda>rows. Inr (map (\<lambda>cells. Statement_Cell (cells ! 0)) rows)))
          else Inr [])"

definition LoadSideTables :: "Database \<Rightarrow> Side \<Rightarrow> SideTables result" where
  "LoadSideTables db which =
     (let schema = SchemaName which
      in bindE (load_table_infos db schema SideTableNames) (\<lambda>tables.
           bindE (query_count db (''select count(*) from '' @ schema @ ''.sqlite_master where type = '' @ quote @ ''index'' @ quote @
                    '' and name like '' @ quote @ ''idx'' @ [CHR 0x5C] @ ''_%'' @ quote @ '' escape '' @ quote @ [CHR 0x5C] @ quote)) (\<lambda>indices.
             bindE (load_program db schema tables) (\<lambda>program.
               bindE (load_version db schema tables) (\<lambda>version.
                 Inr \<lparr>sd_Tables = tables, sd_Program = program, sd_Version = version, sd_IndexCount = of_int indices,
                      sd_HasStat1 = Side_Has tables ''sqlite_stat1''\<rparr>)))))"

section \<open>Ingest\<close>

record ExportData =
  ed_Which :: Side
  ed_Functions :: FunctionTable
  ed_Tables :: SideTables
  ed_Problems :: "string list"

definition kRequired :: "(string \<times> string) list" where
  "kRequired =
     [(''program'', ''check_callgraph D:1294-1296, same_processor_both_databases D:2957-2960''),
      (''instructions'', ''H39 (H:888-934), H40 (H:936-979)''),
      (''bb_instructions'', ''H40 (H:936-979)''),
      (''constants'', ''H15 (H:417-434), H20 (H:546-564), H21 (H:567-585), find_related_constants D:3375-3387''),
      (''compilation_units'', ''H12-H14 (H:325-412), find_related_compilation_unit D:3419-3433''),
      (''compilation_unit_functions'', ''H12-H14 (H:325-412), find_related_compilation_unit D:3419-3433'')]"

definition FindColumn :: "string list \<Rightarrow> string \<Rightarrow> nat option" where
  "FindColumn columns alias = find (\<lambda>i. EqualsIgnoreCaseAscii (columns ! i) alias) [0..<length columns]"

definition RowLabel :: "string list \<Rightarrow> SqlCell list \<Rightarrow> nat \<Rightarrow> string" where
  "RowLabel columns cells ordinal =
     (case FindColumn columns ''id'' of
        Some i \<Rightarrow> if sc_Type (cells ! i) = SqlInteger then ''row with id '' @ dec_int (sc_Int (cells ! i))
                  else ''result row '' @ dec_nat ordinal
      | None \<Rightarrow> ''result row '' @ dec_nat ordinal)"

text \<open>What one cell pushes into its column, and whether it is text that Python cannot decode.\<close>

definition Int_push :: "IntColumn \<Rightarrow> SqlCell \<Rightarrow> IntColumn" where
  "Int_push c cell =
     (if sc_Type cell = SqlNull
      then \<lparr>ic_Value = ic_Value c @ [0], ic_IsNull = ic_IsNull c @ [True], ic_NotInteger = ic_NotInteger c @ [False]\<rparr>
      else \<lparr>ic_Value = ic_Value c @ [sc_Int cell], ic_IsNull = ic_IsNull c @ [False],
            ic_NotInteger = ic_NotInteger c @ [sc_Type cell \<noteq> SqlInteger]\<rparr>)"

definition Text_push :: "TextColumn \<Rightarrow> SqlCell \<Rightarrow> TextColumn" where
  "Text_push c cell =
     (case sc_Type cell of
        SqlNull \<Rightarrow> Text_AppendNull c
      | SqlBlob \<Rightarrow> Text_Append c (sc_Bytes cell) True
      | _ \<Rightarrow> Text_Append c (sc_Bytes cell) False)"

definition Real_push :: "RealColumn \<Rightarrow> SqlCell \<Rightarrow> RealColumn" where
  "Real_push c cell =
     (if sc_Type cell = SqlNull
      then \<lparr>rc_Value = rc_Value c @ [Finite False 0], rc_IsNull = rc_IsNull c @ [True], rc_NotReal = rc_NotReal c @ [False]\<rparr>
      else \<lparr>rc_Value = rc_Value c @ [sc_Real cell], rc_IsNull = rc_IsNull c @ [False],
            rc_NotReal = rc_NotReal c @ [\<not> (sc_Type cell = SqlReal \<or> sc_Type cell = SqlInteger)]\<rparr>)"

definition bad_utf8 :: "SqlCell \<Rightarrow> bool" where
  "bad_utf8 cell \<longleftrightarrow> sc_Type cell = SqlText \<and> \<not> IsValidUtf8 (sc_Bytes cell)"

record IngestRow =
  ir_Table :: FunctionTable
  ir_Problems :: "string list"
  ir_SelectBad :: bool
  ir_AnyBad :: bool

definition ingest_cell :: "string \<Rightarrow> string \<Rightarrow> ColumnDesc option \<times> SqlCell \<Rightarrow> IngestRow \<Rightarrow> IngestRow" where
  "ingest_cell schema label dc s =
     (let t = ir_Table s; cell = snd dc
      in case fst dc of
           None \<Rightarrow> s
         | Some (name, IntM m, sel) \<Rightarrow>
             s\<lparr>ir_Table := t\<lparr>ft_Int := (ft_Int t)(m := Int_push (ft_Int t m) cell)\<rparr>,
               ir_AnyBad := ir_AnyBad s \<or> bad_utf8 cell, ir_SelectBad := ir_SelectBad s \<or> (bad_utf8 cell \<and> sel)\<rparr>
         | Some (name, TextM m, sel) \<Rightarrow>
             s\<lparr>ir_Table := t\<lparr>ft_Text := (ft_Text t)(m := Text_push (ft_Text t m) cell)\<rparr>,
               ir_AnyBad := ir_AnyBad s \<or> bad_utf8 cell, ir_SelectBad := ir_SelectBad s \<or> (bad_utf8 cell \<and> sel),
               ir_Problems := ir_Problems s @
                 (if sc_Type cell = SqlInteger \<or> sc_Type cell = SqlReal
                  then [schema @ ''.functions.'' @ name @ '' '' @ label @ '' holds a number in a TEXT column''] else [])\<rparr>
         | Some (name, RealM m, sel) \<Rightarrow>
             s\<lparr>ir_Table := t\<lparr>ft_Real := (ft_Real t)(m := Real_push (ft_Real t m) cell)\<rparr>,
               ir_AnyBad := ir_AnyBad s \<or> bad_utf8 cell\<rparr>)"

definition ingest_row :: "string \<Rightarrow> string list \<Rightarrow> nat \<Rightarrow> SqlCell list \<Rightarrow> FunctionTable \<times> string list \<Rightarrow> FunctionTable \<times> string list" where
  "ingest_row schema columns ordinal cells tp =
     (let n = length columns - 2; label = RowLabel columns cells ordinal;
          s = fold (ingest_cell schema label) (zip (map FindDesc (take n columns)) cells)
                \<lparr>ir_Table = fst tp, ir_Problems = snd tp, ir_SelectBad = False, ir_AnyBad = False\<rparr>;
          t = ir_Table s; md = cells ! n; address = cells ! (n + 1)
      in (t\<lparr>ft_MdSqlReal := ft_MdSqlReal t @ [if sc_Type md = SqlNull then Finite False 0 else sc_Real md],
            ft_MdSqlNull := ft_MdSqlNull t @ [sc_Type md = SqlNull],
            ft_AddressSqlReal := ft_AddressSqlReal t @ [if sc_Type address = SqlNull then Finite False 0 else sc_Real address],
            ft_AddressSqlNull := ft_AddressSqlNull t @ [sc_Type address = SqlNull],
            ft_SelectFieldsUtf8Bad := ft_SelectFieldsUtf8Bad t @ [ir_SelectBad s],
            ft_AnyColumnUtf8Bad := ft_AnyColumnUtf8Bad t @ [ir_AnyBad s]\<rparr>, ir_Problems s))"

primrec ingest_rows :: "string \<Rightarrow> string list \<Rightarrow> nat \<Rightarrow> SqlCell list list \<Rightarrow> FunctionTable \<times> string list \<Rightarrow> FunctionTable \<times> string list" where
  "ingest_rows schema columns ordinal [] tp = tp"
| "ingest_rows schema columns ordinal (cells # rows) tp =
     ingest_rows schema columns (Suc ordinal) rows (ingest_row schema columns ordinal cells tp)"

text \<open>The interned ids and the lookups of one row.\<close>

definition index_row :: "string \<Rightarrow> nat \<Rightarrow> FunctionTable \<times> Interners \<times> string list \<Rightarrow> FunctionTable \<times> Interners \<times> string list" where
  "index_row schema i s =
     (case s of (t, ids, problems) \<Rightarrow>
        let (ea, ids1) = (if tc_IsNull (ft_Text t AddressCol) ! i then (kNoneAddr, ids) else AddrOf ids (Text_View (ft_Text t AddressCol) i));
            (name, ids2) = NameOpt ids1 (Text_Get (ft_Text t NameCol) i);
            (mangled, ids3) = NameOpt ids2 (Text_Get (ft_Text t MangledFunctionCol) i);
            repeated = (ea \<noteq> kNoneAddr \<and> ea \<in> set (keys (ft_RowByAddr t)))
        in (t\<lparr>ft_AddrIdOf := (ft_AddrIdOf t)[i := ea], ft_NameIdOf := (ft_NameIdOf t)[i := name],
              ft_MangledIdOf := (ft_MangledIdOf t)[i := mangled],
              ft_RowByAddr := (if ea \<noteq> kNoneAddr \<and> \<not> repeated then AList.update ea (of_nat i) (ft_RowByAddr t) else ft_RowByAddr t),
              ft_RowsByName := (if name \<noteq> kNoneName then AList.update name (RowsNamed t name @ [of_nat i]) (ft_RowsByName t)
                                else ft_RowsByName t)\<rparr>, ids3,
            problems @ (if repeated then [schema @ ''.functions: duplicate address '' @ Text_View (ft_Text t AddressCol) i] else [])))"

definition index_rows :: "string \<Rightarrow> FunctionTable \<Rightarrow> Interners \<Rightarrow> string list \<Rightarrow> FunctionTable \<times> Interners \<times> string list" where
  "index_rows schema t ids problems =
     (let n = Table_Count t
      in fold (index_row schema) [0..<n]
           (t\<lparr>ft_AddrIdOf := replicate n kNoneAddr, ft_NameIdOf := replicate n kNoneName,
              ft_MangledIdOf := replicate n kNoneName\<rparr>, ids, problems))"

definition functions_sql :: "string \<Rightarrow> string" where
  "functions_sql schema = ''select f.*, cast(f.md_index as real), cast(f.address as real) from '' @ schema @ ''.functions f order by f.id''"

definition IngestExport :: "Database \<Rightarrow> Side \<Rightarrow> Interners \<Rightarrow> (ExportData \<times> Interners) result" where
  "IngestExport db which ids =
     bindE (LoadSideTables db which) (\<lambda>side.
       let schema = SchemaName which; tables = sd_Tables side;
           absent = map (\<lambda>(name, readby). schema @ ''.'' @ name @ '': table is missing (read by the default diff: '' @ readby @ '')'')
                      (filter (\<lambda>(name, _). \<not> Side_Has tables name) kRequired);
           export = \<lparr>ed_Which = which, ed_Functions = empty_FunctionTable, ed_Tables = side, ed_Problems = absent\<rparr>
       in case Side_Find tables ''functions'' of
            None \<Rightarrow> Inr (export\<lparr>ed_Problems := absent @ [schema @ ''.functions: table is missing'']\<rparr>, ids)
          | Some info \<Rightarrow>
              if \<not> ti_Present info then Inr (export\<lparr>ed_Problems := absent @ [schema @ ''.functions: table is missing'']\<rparr>, ids)
              else
                (let missing = filter (\<lambda>c. c \<notin> set (ti_Columns info)) ColumnNames
                 in if missing \<noteq> []
                    then Inr (export\<lparr>ed_Problems := absent @ [schema @ ''.functions: missing columns '' @ comma_join missing]\<rparr>, ids)
                    else
                      bindE (db (functions_sql schema) []) (\<lambda>st.
                        bindE (fetch_all st) (\<lambda>rows.
                          let (t, problems) = ingest_rows schema (st_Columns st) 0 rows (empty_FunctionTable, absent);
                              (t', ids', problems') = index_rows schema t ids problems
                          in Inr (export\<lparr>ed_Functions := t', ed_Problems := problems'\<rparr>, ids')))))"

section \<open>Text columns hold the cells appended to them\<close>

definition tc_wf :: "TextColumn \<Rightarrow> bool" where
  "tc_wf c \<longleftrightarrow>
     (let n = length (tc_IsNull c)
      in length (tc_IsBlob c) = n \<and> length (tc_Offset c) = n \<and> length (tc_Length c) = n \<and>
         (\<forall>i<n. tc_Offset c ! i + unat (tc_Length c ! i) \<le> length (tc_Pool c)))"

definition text_cell :: "TextColumn \<Rightarrow> nat \<Rightarrow> (bool \<times> string) option" where
  "text_cell c i = (if tc_IsNull c ! i then None else Some (tc_IsBlob c ! i, Text_View c i))"

definition text_cells :: "TextColumn \<Rightarrow> (bool \<times> string) option list" where
  "text_cells c = map (text_cell c) [0..<length (tc_IsNull c)]"

definition stored_text :: "SqlCell \<Rightarrow> (bool \<times> string) option" where
  "stored_text cell = (if sc_Type cell = SqlNull then None else Some (sc_Type cell = SqlBlob, sc_Bytes cell))"

lemma tc_wf_empty [simp]: "tc_wf empty_TextColumn" and text_cells_empty [simp]: "text_cells empty_TextColumn = []"
  by (simp_all add: tc_wf_def empty_TextColumn_def text_cells_def)

lemma length_text_cells [simp]: "length (text_cells c) = length (tc_IsNull c)"
  by (simp add: text_cells_def)

lemma text_cells_nth: "i < length (tc_IsNull c) \<Longrightarrow> text_cells c ! i = text_cell c i"
  by (simp add: text_cells_def)

text \<open>Appending keeps every earlier cell: pools only grow at the end.\<close>

lemma text_cell_grows:
  assumes "tc_wf c" and "i < length (tc_IsNull c)"
  shows "text_cell (Text_Append c bytes blob) i = text_cell c i" and "text_cell (Text_AppendNull c) i = text_cell c i"
  using assms by (auto simp: tc_wf_def text_cell_def Text_Append_def Text_AppendNull_def Text_View_def nth_append Let_def)

lemma Text_Append_wf: "tc_wf c \<Longrightarrow> length bytes < 2 ^ 32 \<Longrightarrow> tc_wf (Text_Append c bytes blob)"
  by (auto simp: tc_wf_def Text_Append_def Let_def nth_append less_Suc_eq unat_of_nat_views trans_le_add1)

lemma Text_AppendNull_wf: "tc_wf c \<Longrightarrow> tc_wf (Text_AppendNull c)"
  by (auto simp: tc_wf_def Text_AppendNull_def Let_def nth_append less_Suc_eq)

lemma text_cells_Append:
  assumes "tc_wf c" and "length bytes < 2 ^ 32"
  shows "text_cells (Text_Append c bytes blob) = text_cells c @ [Some (blob, bytes)]"
proof -
  have "length (tc_IsNull (Text_Append c bytes blob)) = Suc (length (tc_IsNull c))" by (simp add: Text_Append_def)
  moreover have "text_cell (Text_Append c bytes blob) (length (tc_IsNull c)) = Some (blob, bytes)"
    using assms by (simp add: text_cell_def Text_Append_def Text_View_def tc_wf_def Let_def nth_append unat_of_nat_views)
  ultimately show ?thesis using text_cell_grows(1) [OF assms(1)] by (simp add: text_cells_def)
qed

lemma text_cells_AppendNull:
  assumes "tc_wf c" shows "text_cells (Text_AppendNull c) = text_cells c @ [None]"
proof -
  have "length (tc_IsNull (Text_AppendNull c)) = Suc (length (tc_IsNull c))" by (simp add: Text_AppendNull_def)
  moreover have "text_cell (Text_AppendNull c) (length (tc_IsNull c)) = None"
    by (simp add: text_cell_def Text_AppendNull_def nth_append)
  ultimately show ?thesis using text_cell_grows(2) [OF assms(1)] by (simp add: text_cells_def)
qed

lemma Text_push_cell:
  assumes "tc_wf c" and "length (sc_Bytes cell) < 2 ^ 32"
  shows "tc_wf (Text_push c cell)" and "text_cells (Text_push c cell) = text_cells c @ [stored_text cell]"
  using assms Text_Append_wf [OF assms] Text_AppendNull_wf text_cells_Append [OF assms] text_cells_AppendNull
  by (simp_all add: Text_push_def stored_text_def split: SqlType.splits)

text \<open>The rows of an integer column.\<close>

definition ic_wf :: "IntColumn \<Rightarrow> bool" where
  "ic_wf c \<longleftrightarrow> length (ic_Value c) = length (ic_IsNull c) \<and> length (ic_NotInteger c) = length (ic_IsNull c)"

definition int_cells :: "IntColumn \<Rightarrow> (int \<times> bool \<times> bool) list" where
  "int_cells c = zip (ic_Value c) (zip (ic_IsNull c) (ic_NotInteger c))"

definition stored_int :: "SqlCell \<Rightarrow> int \<times> bool \<times> bool" where
  "stored_int cell = (if sc_Type cell = SqlNull then (0, True, False) else (sc_Int cell, False, sc_Type cell \<noteq> SqlInteger))"

lemma Int_push_cell:
  "ic_wf c \<Longrightarrow> ic_wf (Int_push c cell) \<and> int_cells (Int_push c cell) = int_cells c @ [stored_int cell]"
  by (simp add: ic_wf_def Int_push_def int_cells_def stored_int_def)

text \<open>The rows of a real column.\<close>

definition rc_wf :: "RealColumn \<Rightarrow> bool" where
  "rc_wf c \<longleftrightarrow> length (rc_Value c) = length (rc_IsNull c) \<and> length (rc_NotReal c) = length (rc_IsNull c)"

definition real_cells :: "RealColumn \<Rightarrow> (flt \<times> bool \<times> bool) list" where
  "real_cells c = zip (rc_Value c) (zip (rc_IsNull c) (rc_NotReal c))"

definition stored_real :: "SqlCell \<Rightarrow> flt \<times> bool \<times> bool" where
  "stored_real cell =
     (if sc_Type cell = SqlNull then (Finite False 0, True, False) else (sc_Real cell, False, sc_Type cell \<notin> {SqlReal, SqlInteger}))"

lemma Real_push_cell:
  "rc_wf c \<Longrightarrow> rc_wf (Real_push c cell) \<and> real_cells (Real_push c cell) = real_cells c @ [stored_real cell]"
  by (simp add: rc_wf_def Real_push_def real_cells_def stored_real_def)

lemma rc_wf_empty [simp]: "rc_wf empty_RealColumn" and real_cells_empty [simp]: "real_cells empty_RealColumn = []"
  by (simp_all add: rc_wf_def empty_RealColumn_def real_cells_def)

lemma ic_wf_empty [simp]: "ic_wf empty_IntColumn" and int_cells_empty [simp]: "int_cells empty_IntColumn = []"
  by (simp_all add: ic_wf_def empty_IntColumn_def int_cells_def)

lemma length_int_cells: "ic_wf c \<Longrightarrow> length (int_cells c) = length (ic_IsNull c)"
  by (simp add: ic_wf_def int_cells_def)

section \<open>One row\<close>

definition cells_for :: "Member \<Rightarrow> (ColumnDesc option \<times> SqlCell) list \<Rightarrow> SqlCell list" where
  "cells_for m dcs = map snd (filter (\<lambda>dc. map_option desc_Member (fst dc) = Some m) dcs)"

lemma cells_for_simps [simp]:
  "cells_for m [] = []"
  "cells_for m (dc # dcs) = (if map_option desc_Member (fst dc) = Some m then [snd dc] else []) @ cells_for m dcs"
  by (simp_all add: cells_for_def)

lemma fold_ingest_text:
  "ft_Text (ir_Table (fold (ingest_cell schema label) dcs s)) m = foldl Text_push (ft_Text (ir_Table s) m) (cells_for (TextM m) dcs)"
  by (induction dcs arbitrary: s) (auto simp: ingest_cell_def Let_def split: option.splits Member.splits)

lemma fold_ingest_int:
  "ft_Int (ir_Table (fold (ingest_cell schema label) dcs s)) m = foldl Int_push (ft_Int (ir_Table s) m) (cells_for (IntM m) dcs)"
  by (induction dcs arbitrary: s) (auto simp: ingest_cell_def Let_def split: option.splits Member.splits)

lemma fold_ingest_real:
  "ft_Real (ir_Table (fold (ingest_cell schema label) dcs s)) m = foldl Real_push (ft_Real (ir_Table s) m) (cells_for (RealM m) dcs)"
  by (induction dcs arbitrary: s) (auto simp: ingest_cell_def Let_def split: option.splits Member.splits)

text \<open>The fields no cell touches.\<close>

definition row_lists :: "FunctionTable \<Rightarrow> flt list \<times> bool list \<times> flt list \<times> bool list \<times> bool list \<times> bool list" where
  "row_lists t = (ft_MdSqlReal t, ft_MdSqlNull t, ft_AddressSqlReal t, ft_AddressSqlNull t, ft_SelectFieldsUtf8Bad t, ft_AnyColumnUtf8Bad t)"

lemma fold_ingest_lists:
  "row_lists (ir_Table (fold (ingest_cell schema label) dcs s)) = row_lists (ir_Table s) \<and>
   ft_RowByAddr (ir_Table (fold (ingest_cell schema label) dcs s)) = ft_RowByAddr (ir_Table s)"
  by (induction dcs arbitrary: s) (auto simp: ingest_cell_def Let_def row_lists_def split: option.splits Member.splits)

lemma distinct_kColumns: "distinct (map desc_Name kColumns)" "distinct (map desc_Member kColumns)"
  by (simp_all add: kColumns_def)

lemma find_key: "distinct (map f xs) \<Longrightarrow> find (\<lambda>d. f d = x) xs = Some d \<longleftrightarrow> d \<in> set xs \<and> f d = x"
  by (induction xs) auto

lemma FindDesc_iff: "FindDesc x = Some d \<longleftrightarrow> d \<in> set kColumns \<and> desc_Name d = x"
  unfolding FindDesc_def by (rule find_key [OF distinct_kColumns(1)])

lemma desc_unique: "d \<in> set kColumns \<Longrightarrow> d' \<in> set kColumns \<Longrightarrow> desc_Member d = desc_Member d' \<Longrightarrow> d = d'"
  using distinct_kColumns(2) unfolding distinct_map inj_on_def by blast

text \<open>What SQLite gives for \<^verbatim>\<open>select f.*, a, b\<close>: the columns of the table, then two, and rows of that width. The
  length of a value is below \<open>2 ^ 31\<close>.\<close>

definition select_star_ok :: "string list \<Rightarrow> Statement \<Rightarrow> bool" where
  "select_star_ok columns st \<longleftrightarrow>
     distinct columns \<and> take (length columns) (st_Columns st) = columns \<and> length (st_Columns st) = length columns + 2 \<and>
     list_all (\<lambda>cells. length cells = length columns + 2 \<and> list_all (\<lambda>c. length (sc_Bytes c) < 2 ^ 31) cells) (st_Rows st)"

text \<open>The cell of a row under a column name.\<close>

definition column_cell :: "string list \<Rightarrow> string \<Rightarrow> SqlCell list \<Rightarrow> SqlCell" where
  "column_cell columns name cells = the (map_of (zip columns cells) name)"

lemma filter_one:
  assumes "i < length xs" and "\<And>j. j < length xs \<Longrightarrow> P (xs ! j) \<longleftrightarrow> j = i"
  shows "filter P xs = [xs ! i]"
proof -
  have "xs = take i xs @ xs ! i # drop (Suc i) xs" using assms(1) by (rule id_take_nth_drop)
  moreover have "filter P (take i xs) = []" using assms by (auto simp: filter_empty_conv in_set_conv_nth)
  moreover have "filter P (drop (Suc i) xs) = []" by (auto simp: filter_empty_conv in_set_conv_nth assms)
  ultimately show ?thesis using assms by (metis append_self_conv2 filter.simps(2) filter_append)
qed

lemma cells_for_column:
  assumes "distinct columns" and "d \<in> set kColumns" and "desc_Name d \<in> set columns" and "length columns \<le> length cells"
  shows "cells_for (desc_Member d) (zip (map FindDesc columns) cells) = [column_cell columns (desc_Name d) cells]"
proof -
  obtain i where i: "i < length columns" "columns ! i = desc_Name d" using assms(3) by (auto simp: in_set_conv_nth)
  let ?z = "zip (map FindDesc columns) cells"
  have "filter (\<lambda>dc. map_option desc_Member (fst dc) = Some (desc_Member d)) ?z = [?z ! i]"
  proof (rule filter_one)
    show "i < length ?z" using i assms(4) by simp
    fix j assume "j < length ?z"
    then have j: "j < length columns" "?z ! j = (FindDesc (columns ! j), cells ! j)" using assms(4) by simp_all
    have "map_option desc_Member (FindDesc (columns ! j)) = Some (desc_Member d) \<longleftrightarrow> columns ! j = desc_Name d"
    proof
      assume "map_option desc_Member (FindDesc (columns ! j)) = Some (desc_Member d)"
      then obtain d' where "FindDesc (columns ! j) = Some d'" "desc_Member d' = desc_Member d" by auto
      then show "columns ! j = desc_Name d" using assms(2) desc_unique [of d' d] by (auto simp: FindDesc_iff)
    next
      assume "columns ! j = desc_Name d"
      then have "FindDesc (columns ! j) = Some d" using assms(2) by (simp add: FindDesc_iff)
      then show "map_option desc_Member (FindDesc (columns ! j)) = Some (desc_Member d)" by simp
    qed
    also have "\<dots> \<longleftrightarrow> j = i" using i j assms(1) by (metis nth_eq_iff_index_eq)
    finally show "map_option desc_Member (fst (?z ! j)) = Some (desc_Member d) \<longleftrightarrow> j = i" by (simp add: j)
  qed
  moreover have "?z ! i = (FindDesc (columns ! i), cells ! i)" using i assms(4) by simp
  moreover have "column_cell columns (desc_Name d) cells = cells ! i"
  proof -
    have "distinct (map fst (zip columns cells))" using assms(1) by (simp add: map_fst_zip_take)
    moreover have "(columns ! i, cells ! i) \<in> set (zip columns cells)" using i(1) assms(4) by (auto simp: set_zip)
    ultimately have "map_of (zip columns cells) (columns ! i) = Some (cells ! i)" by (rule map_of_is_SomeI)
    then show ?thesis by (simp add: column_cell_def i(2))
  qed
  ultimately show ?thesis by (simp add: cells_for_def)
qed

text \<open>A row of good width adds its cell to every column.\<close>

lemma ingest_row_columns:
  assumes "distinct columns" and "set ColumnNames \<subseteq> set columns" and "take (length columns) names = columns"
    and "length names = length columns + 2" and "length cells = length columns + 2" and "d \<in> set kColumns"
  shows "desc_Member d = TextM tm \<Longrightarrow>
           ft_Text (fst (ingest_row schema names k cells tp)) tm = Text_push (ft_Text (fst tp) tm) (column_cell columns (desc_Name d) cells)"
    and "desc_Member d = IntM im \<Longrightarrow>
           ft_Int (fst (ingest_row schema names k cells tp)) im = Int_push (ft_Int (fst tp) im) (column_cell columns (desc_Name d) cells)"
    and "desc_Member d = RealM rm \<Longrightarrow>
           ft_Real (fst (ingest_row schema names k cells tp)) rm = Real_push (ft_Real (fst tp) rm) (column_cell columns (desc_Name d) cells)"
proof -
  have "desc_Name d \<in> set columns" using assms(2,6) by (auto simp: ColumnNames_def)
  from cells_for_column [OF assms(1,6) this, of cells] assms(5)
  have c: "cells_for (desc_Member d) (zip (map FindDesc columns) cells) = [column_cell columns (desc_Name d) cells]" by simp
  have n: "take (length names - 2) names = columns" using assms(3,4) by simp
  show "desc_Member d = TextM tm \<Longrightarrow>
      ft_Text (fst (ingest_row schema names k cells tp)) tm = Text_push (ft_Text (fst tp) tm) (column_cell columns (desc_Name d) cells)"
    using c by (simp add: ingest_row_def Let_def n fold_ingest_text)
  show "desc_Member d = IntM im \<Longrightarrow>
      ft_Int (fst (ingest_row schema names k cells tp)) im = Int_push (ft_Int (fst tp) im) (column_cell columns (desc_Name d) cells)"
    using c by (simp add: ingest_row_def Let_def n fold_ingest_int)
  show "desc_Member d = RealM rm \<Longrightarrow>
      ft_Real (fst (ingest_row schema names k cells tp)) rm = Real_push (ft_Real (fst tp) rm) (column_cell columns (desc_Name d) cells)"
    using c by (simp add: ingest_row_def Let_def n fold_ingest_real)
qed

section \<open>All rows\<close>

lemma zip_desc:
  assumes "distinct columns" and "set ColumnNames \<subseteq> set columns" and "length columns \<le> length cells"
  shows "(Some d, c) \<in> set (zip (map FindDesc columns) cells) \<longleftrightarrow> d \<in> set kColumns \<and> c = column_cell columns (desc_Name d) cells"
proof -
  let ?z = "zip (map FindDesc columns) cells"
  have known: "d' \<in> set kColumns" if "(Some d', c') \<in> set ?z" for d' c'
  proof -
    from that have "Some d' \<in> set (map FindDesc columns)" by (rule set_zip_leftD)
    then obtain x where "FindDesc x = Some d'" by (metis (no_types, lifting) imageE set_map)
    then show ?thesis by (simp add: FindDesc_iff)
  qed
  have one: "cells_for (desc_Member d') ?z = [column_cell columns (desc_Name d') cells]" if "d' \<in> set kColumns" for d'
  proof -
    have "desc_Name d' \<in> set columns" using that assms(2) by (auto simp: ColumnNames_def)
    from cells_for_column [OF assms(1) that this assms(3)] show ?thesis .
  qed
  show ?thesis
  proof
    assume z: "(Some d, c) \<in> set ?z"
    have "c \<in> set (cells_for (desc_Member d) ?z)"
      unfolding cells_for_def set_map by (rule image_eqI [of _ snd "(Some d, c)"]) (use z in \<open>cases d; simp\<close>)+
    with one [OF known [OF z]] known [OF z] show "d \<in> set kColumns \<and> c = column_cell columns (desc_Name d) cells" by simp
  next
    assume d: "d \<in> set kColumns \<and> c = column_cell columns (desc_Name d) cells"
    with one have "c \<in> set (cells_for (desc_Member d) ?z)" by simp
    then obtain d' where d': "(Some d', c) \<in> set ?z" "desc_Member d' = desc_Member d" by (auto simp: cells_for_def)
    with desc_unique [OF known [OF d'(1)]] d show "(Some d, c) \<in> set ?z" by metis
  qed
qed

lemma fold_ingest_bad:
  "ir_AnyBad (fold (ingest_cell schema label) dcs s) \<longleftrightarrow>
     ir_AnyBad s \<or> list_ex (\<lambda>(d, c). bad_utf8 c \<and> (case d of None \<Rightarrow> False | Some d' \<Rightarrow> True)) dcs"
  "ir_SelectBad (fold (ingest_cell schema label) dcs s) \<longleftrightarrow>
     ir_SelectBad s \<or> list_ex (\<lambda>(d, c). bad_utf8 c \<and>
       (case d of None \<Rightarrow> False | Some d' \<Rightarrow> desc_SelectField d' \<and> desc_Kind d' \<noteq> RealKind)) dcs"
  by (induction dcs arbitrary: s)
     (auto simp: ingest_cell_def Let_def desc_Kind_def split: option.splits Member.splits)

lemma row_flag:
  assumes "distinct columns" and "set ColumnNames \<subseteq> set columns" and "length columns \<le> length cells"
  shows "list_ex (\<lambda>(d, c). P c \<and> (case d of None \<Rightarrow> False | Some d' \<Rightarrow> Q d')) (zip (map FindDesc columns) cells) \<longleftrightarrow>
    (\<exists>d\<in>set kColumns. P (column_cell columns (desc_Name d) cells) \<and> Q d)"
proof -
  have "list_ex (\<lambda>(d, c). P c \<and> (case d of None \<Rightarrow> False | Some d' \<Rightarrow> Q d')) z \<longleftrightarrow> (\<exists>d c. (Some d, c) \<in> set z \<and> P c \<and> Q d)" for z
    unfolding list_ex_iff by (force split: option.splits)
  then show ?thesis by (simp only: zip_desc [OF assms]) blast
qed

text \<open>The contents of a table after the rows were read: every column holds the cells of its name, the two lists of casts
  hold the two cells after them, and the flags say which rows Python cannot decode.\<close>

definition loaded :: "string list \<Rightarrow> SqlCell list list \<Rightarrow> FunctionTable \<Rightarrow> bool" where
  "loaded columns rows t \<longleftrightarrow>
     (\<forall>d\<in>set kColumns.
        (case desc_Member d of
           TextM m \<Rightarrow> tc_wf (ft_Text t m) \<and> text_cells (ft_Text t m) = map (\<lambda>cells. stored_text (column_cell columns (desc_Name d) cells)) rows
         | IntM m \<Rightarrow> ic_wf (ft_Int t m) \<and> int_cells (ft_Int t m) = map (\<lambda>cells. stored_int (column_cell columns (desc_Name d) cells)) rows
         | RealM m \<Rightarrow> rc_wf (ft_Real t m) \<and> real_cells (ft_Real t m) = map (\<lambda>cells. stored_real (column_cell columns (desc_Name d) cells)) rows)) \<and>
     ft_MdSqlNull t = map (\<lambda>cells. sc_Type (cells ! length columns) = SqlNull) rows \<and>
     ft_MdSqlReal t = map (\<lambda>cells. let c = cells ! length columns in if sc_Type c = SqlNull then Finite False 0 else sc_Real c) rows \<and>
     ft_AddressSqlNull t = map (\<lambda>cells. sc_Type (cells ! Suc (length columns)) = SqlNull) rows \<and>
     ft_AddressSqlReal t =
       map (\<lambda>cells. let c = cells ! Suc (length columns) in if sc_Type c = SqlNull then Finite False 0 else sc_Real c) rows \<and>
     ft_AnyColumnUtf8Bad t = map (\<lambda>cells. \<exists>d\<in>set kColumns. bad_utf8 (column_cell columns (desc_Name d) cells)) rows \<and>
     ft_SelectFieldsUtf8Bad t =
       map (\<lambda>cells. \<exists>d\<in>set kColumns. bad_utf8 (column_cell columns (desc_Name d) cells) \<and> desc_SelectField d \<and> desc_Kind d \<noteq> RealKind) rows"

lemma loaded_empty: "loaded columns [] empty_FunctionTable"
  by (auto simp: loaded_def empty_FunctionTable_def split: Member.splits)

lemma column_cell_in:
  assumes "set ColumnNames \<subseteq> set columns" and "distinct columns" and "length columns \<le> length cells" and "d \<in> set kColumns"
  shows "column_cell columns (desc_Name d) cells \<in> set cells"
proof -
  have "(Some d, column_cell columns (desc_Name d) cells) \<in> set (zip (map FindDesc columns) cells)"
    using zip_desc [OF assms(2,1,3)] assms(4) by blast
  then show ?thesis by (rule set_zip_rightD)
qed

lemma ingest_row_loaded:
  assumes ok: "distinct columns" "set ColumnNames \<subseteq> set columns" "take (length columns) names = columns"
      "length names = length columns + 2" "length cells = length columns + 2"
    and small: "list_all (\<lambda>c. length (sc_Bytes c) < 2 ^ 31) cells" and t: "loaded columns rows (fst tp)"
  shows "loaded columns (rows @ [cells]) (fst (ingest_row schema names k cells tp))"
proof -
  have le: "length columns \<le> length cells" using ok(5) by simp
  have n: "take (length names - 2) names = columns" "length names - 2 = length columns" using ok(3,4) by simp_all
  have "case desc_Member d of
        TextM m \<Rightarrow> tc_wf (ft_Text (fst (ingest_row schema names k cells tp)) m) \<and>
          text_cells (ft_Text (fst (ingest_row schema names k cells tp)) m) =
            map (\<lambda>cells. stored_text (column_cell columns (desc_Name d) cells)) (rows @ [cells])
      | IntM m \<Rightarrow> ic_wf (ft_Int (fst (ingest_row schema names k cells tp)) m) \<and>
          int_cells (ft_Int (fst (ingest_row schema names k cells tp)) m) =
            map (\<lambda>cells. stored_int (column_cell columns (desc_Name d) cells)) (rows @ [cells])
      | RealM m \<Rightarrow> rc_wf (ft_Real (fst (ingest_row schema names k cells tp)) m) \<and>
          real_cells (ft_Real (fst (ingest_row schema names k cells tp)) m) =
            map (\<lambda>cells. stored_real (column_cell columns (desc_Name d) cells)) (rows @ [cells])" if d: "d \<in> set kColumns" for d
  proof -
    have td: "case desc_Member d of
        TextM m \<Rightarrow> tc_wf (ft_Text (fst tp) m) \<and> text_cells (ft_Text (fst tp) m) = map (\<lambda>cells. stored_text (column_cell columns (desc_Name d) cells)) rows
      | IntM m \<Rightarrow> ic_wf (ft_Int (fst tp) m) \<and> int_cells (ft_Int (fst tp) m) = map (\<lambda>cells. stored_int (column_cell columns (desc_Name d) cells)) rows
      | RealM m \<Rightarrow> rc_wf (ft_Real (fst tp) m) \<and> real_cells (ft_Real (fst tp) m) = map (\<lambda>cells. stored_real (column_cell columns (desc_Name d) cells)) rows"
      using t d unfolding loaded_def by blast
    have "length (sc_Bytes (column_cell columns (desc_Name d) cells)) < 2 ^ 32"
      using column_cell_in [OF ok(2,1) le d] small by (fastforce simp: list_all_iff)
    with td ingest_row_columns [OF ok d] show ?thesis
      by (cases "desc_Member d") (simp_all add: Text_push_cell Int_push_cell Real_push_cell)
  qed
  moreover have "row_lists (fst (ingest_row schema names k cells tp)) =
      (let md = cells ! length columns; address = cells ! Suc (length columns)
       in (ft_MdSqlReal (fst tp) @ [if sc_Type md = SqlNull then Finite False 0 else sc_Real md],
           ft_MdSqlNull (fst tp) @ [sc_Type md = SqlNull],
           ft_AddressSqlReal (fst tp) @ [if sc_Type address = SqlNull then Finite False 0 else sc_Real address],
           ft_AddressSqlNull (fst tp) @ [sc_Type address = SqlNull],
           ft_SelectFieldsUtf8Bad (fst tp) @ [\<exists>d\<in>set kColumns. bad_utf8 (column_cell columns (desc_Name d) cells) \<and> desc_SelectField d \<and> desc_Kind d \<noteq> RealKind],
           ft_AnyColumnUtf8Bad (fst tp) @ [\<exists>d\<in>set kColumns. bad_utf8 (column_cell columns (desc_Name d) cells)]))"
    using fold_ingest_lists [of schema "RowLabel names cells k" "zip (map FindDesc columns) cells"]
    unfolding ingest_row_def Let_def n(2) ok(3) fold_ingest_bad row_flag [OF ok(1,2) le] by (simp add: row_lists_def)
  ultimately show ?thesis using t unfolding loaded_def row_lists_def Let_def by simp
qed

lemma ingest_rows_loaded:
  assumes "distinct columns" and "set ColumnNames \<subseteq> set columns" and "take (length columns) names = columns"
    and "length names = length columns + 2"
    and "list_all (\<lambda>cells. length cells = length columns + 2 \<and> list_all (\<lambda>c. length (sc_Bytes c) < 2 ^ 31) cells) more_rows"
    and "loaded columns rows (fst tp)"
  shows "loaded columns (rows @ more_rows) (fst (ingest_rows schema names k more_rows tp))"
  using assms(5,6)
proof (induction more_rows arbitrary: rows k tp)
  case (Cons cells more_rows)
  then have "loaded columns (rows @ [cells]) (fst (ingest_row schema names k cells tp))"
    by (intro ingest_row_loaded [OF assms(1-4)]) simp_all
  from Cons.IH [OF _ this] Cons.prems(1) show ?case by simp
qed simp

lemma ingest_rows_RowByAddr: "ft_RowByAddr (fst (ingest_rows schema names k rows tp)) = ft_RowByAddr (fst tp) \<and>
   ft_RowsByName (fst (ingest_rows schema names k rows tp)) = ft_RowsByName (fst tp)"
proof -
  have cells: "ft_RowsByName (ir_Table (fold (ingest_cell schema label) dcs s)) = ft_RowsByName (ir_Table s)" for label dcs s
    by (induction dcs arbitrary: s) (auto simp: ingest_cell_def Let_def split: option.splits Member.splits)
  show ?thesis using fold_ingest_lists cells by (induction rows arbitrary: k tp) (simp_all add: ingest_row_def Let_def)
qed

section \<open>Ids and lookups\<close>

text \<open>The state of the indexing loop before row \<open>k\<close>: the columns are untouched, the first \<open>k\<close> ids read back as the
  texts of their rows, and the two lookups know exactly these rows.\<close>

definition index_inv :: "FunctionTable \<Rightarrow> nat \<Rightarrow> FunctionTable \<times> Interners \<times> string list \<Rightarrow> bool" where
  "index_inv t0 k s \<longleftrightarrow>
     (case s of (t, ids, problems) \<Rightarrow>
        let n = Table_Count t0
        in ft_Int t = ft_Int t0 \<and> ft_Text t = ft_Text t0 \<and> ft_Real t = ft_Real t0 \<and> row_lists t = row_lists t0 \<and>
           length (ft_AddrIdOf t) = n \<and> length (ft_NameIdOf t) = n \<and> length (ft_MangledIdOf t) = n \<and>
           addrs_wf ids \<and> addrs_room ids (n - k) \<and> names_wf ids \<and> names_room ids (2 * (n - k)) \<and>
           (\<forall>j<k. AddrOrNone ids (ft_AddrIdOf t ! j) = Inr (Text_Get (ft_Text t0 AddressCol) j)) \<and>
           (\<forall>j<k. NameOrNone ids (ft_NameIdOf t ! j) = Inr (Text_Get (ft_Text t0 NameCol) j)) \<and>
           (\<forall>j<k. NameOrNone ids (ft_MangledIdOf t ! j) = Inr (Text_Get (ft_Text t0 MangledFunctionCol) j)) \<and>
           (\<forall>ea r. map_of (ft_RowByAddr t) ea = Some r \<longrightarrow> ea \<noteq> kNoneAddr \<and> unat r < k \<and> ft_AddrIdOf t ! unat r = ea) \<and>
           (problems = [] \<longrightarrow> (\<forall>j<k. ft_AddrIdOf t ! j \<noteq> kNoneAddr \<longrightarrow> map_of (ft_RowByAddr t) (ft_AddrIdOf t ! j) = Some (of_nat j))) \<and>
           (\<forall>nm. nm \<noteq> kNoneName \<longrightarrow> RowsNamed t nm = map of_nat (filter (\<lambda>j. ft_NameIdOf t ! j = nm) [0..<k])))"

lemma AddrOpt_Names [simp]: "Names (snd (AddrOpt ids x)) = Names ids" and NameOpt_Addrs [simp]: "Addrs (snd (NameOpt ids y)) = Addrs ids"
  by (simp_all add: AddrOpt_def AddrOf_def NameOpt_def NameOf_def split: option.splits prod.splits)

lemma Addrs_only:
  assumes "Addrs ids' = Addrs ids"
  shows "addrs_wf ids' = addrs_wf ids" "addrs_room ids' n = addrs_room ids n" "AddrOrNone ids' i = AddrOrNone ids i"
  using assms by (simp_all add: addrs_wf_def addrs_room_def AddrOrNone_def)

lemma Names_wf_only:
  assumes "Names ids' = Names ids"
  shows "names_wf ids' = names_wf ids" "names_room ids' n = names_room ids n" "NameOrNone ids' i = NameOrNone ids i"
  using assms by (simp_all add: names_wf_def names_room_def NameOrNone_def)

lemma index_row_step:
  "index_row schema i (t, ids, problems) =
     (let (ea, ids1) = AddrOpt ids (Text_Get (ft_Text t AddressCol) i);
          (name, ids2) = NameOpt ids1 (Text_Get (ft_Text t NameCol) i);
          (mangled, ids3) = NameOpt ids2 (Text_Get (ft_Text t MangledFunctionCol) i);
          repeated = (ea \<noteq> kNoneAddr \<and> ea \<in> set (keys (ft_RowByAddr t)))
      in (t\<lparr>ft_AddrIdOf := (ft_AddrIdOf t)[i := ea], ft_NameIdOf := (ft_NameIdOf t)[i := name],
            ft_MangledIdOf := (ft_MangledIdOf t)[i := mangled],
            ft_RowByAddr := (if ea \<noteq> kNoneAddr \<and> \<not> repeated then AList.update ea (of_nat i) (ft_RowByAddr t) else ft_RowByAddr t),
            ft_RowsByName := (if name \<noteq> kNoneName then AList.update name (RowsNamed t name @ [of_nat i]) (ft_RowsByName t)
                              else ft_RowsByName t)\<rparr>, ids3,
          problems @ (if repeated then [schema @ ''.functions: duplicate address '' @ Text_View (ft_Text t AddressCol) i] else [])))"
  by (simp add: index_row_def AddrOpt_def Text_Get_def split: option.splits)

lemma index_row_ids:
  assumes "addrs_wf ids" "addrs_room ids (Suc a)" "names_wf ids" "names_room ids (Suc (Suc b))"
    and ea: "AddrOpt ids x = (ea, ids1)" and nm: "NameOpt ids1 y = (name, ids2)" and mg: "NameOpt ids2 z = (mangled, ids3)"
  shows "addrs_wf ids3" "addrs_room ids3 a" "names_wf ids3" "names_room ids3 b"
    "AddrOrNone ids3 ea = Inr x" "NameOrNone ids3 name = Inr y"
    "\<And>i u. AddrOrNone ids i = Inr u \<Longrightarrow> AddrOrNone ids3 i = Inr u" "\<And>i u. NameOrNone ids i = Inr u \<Longrightarrow> NameOrNone ids3 i = Inr u"
    "NameOrNone ids3 mangled = Inr z"
proof -
  have n1: "Names ids1 = Names ids" using AddrOpt_Names [of ids x] ea by simp
  have a3: "Addrs ids3 = Addrs ids1" using NameOpt_Addrs [of ids1 y] NameOpt_Addrs [of ids2 z] nm mg by simp
  have w1: "addrs_wf ids1" "addrs_room ids1 a" using addrs.intern_invar [OF assms(1,2)] addrs.intern_room [OF assms(1,2)] ea by (metis snd_conv)+
  then show "addrs_wf ids3" "addrs_room ids3 a" by (simp_all add: Addrs_only [OF a3])
  have r1: "names_wf ids1" "names_room ids1 (Suc (Suc b))" using assms(3,4) by (simp_all add: Names_wf_only [OF n1])
  then have r2: "names_wf ids2" "names_room ids2 (Suc b)" using names.intern_invar [OF r1] names.intern_room [OF r1] nm by (metis snd_conv)+
  then show "names_wf ids3" "names_room ids3 b" using names.intern_invar [OF r2] names.intern_room [OF r2] mg by (metis snd_conv)+
  have "AddrOrNone ids1 ea = Inr x" using addrs.intern_text [OF assms(1,2), of x] ea by simp
  then show "AddrOrNone ids3 ea = Inr x" by (simp add: Addrs_only [OF a3])
  have "NameOrNone ids2 name = Inr y" using names.intern_text [OF r1, of y] nm by simp
  from names.intern_stable [OF r2(1) this, of z] show "NameOrNone ids3 name = Inr y" using mg by simp
  show "NameOrNone ids3 mangled = Inr z" using names.intern_text [OF r2, of z] mg by simp
  fix i u
  show "AddrOrNone ids3 i = Inr u" if "AddrOrNone ids i = Inr u"
    using addrs.intern_stable [OF assms(1) that, of x] ea by (simp add: Addrs_only [OF a3])
  show "NameOrNone ids3 i = Inr u" if "NameOrNone ids i = Inr u"
  proof -
    have "NameOrNone ids1 i = Inr u" using that by (simp add: Names_wf_only [OF n1])
    from names.intern_stable [OF r1(1) this, of y] have "NameOrNone ids2 i = Inr u" by (simp add: nm)
    from names.intern_stable [OF r2(1) this, of z] show ?thesis by (simp add: mg)
  qed
qed

lemma unat_of_row: "i < n \<Longrightarrow> n < 2 ^ 32 \<Longrightarrow> unat (of_nat i :: 32 word) = i"
  by (rule unat_of_nat_views) simp

lemma RowsNamed_push:
  "ft_RowsByName t' = (if name \<noteq> kNoneName then AList.update name (RowsNamed t name @ [r]) (ft_RowsByName t) else ft_RowsByName t) \<Longrightarrow>
   q \<noteq> kNoneName \<Longrightarrow> RowsNamed t' q = RowsNamed t q @ (if name = q then [r] else [])"
  by (auto simp: RowsNamed_def)

lemma index_inv_step:
  assumes inv: "index_inv t0 i s" and i: "i < Table_Count t0" "Table_Count t0 < 2 ^ 32"
  shows "index_inv t0 (Suc i) (index_row schema i s)"
proof -
  obtain t ids problems where s: "s = (t, ids, problems)" by (cases s) auto
  define n where "n = Table_Count t0"
  note I = inv [unfolded index_inv_def s prod.case Let_def n_def [symmetric]]
  obtain ea ids1 where ea: "AddrOpt ids (Text_Get (ft_Text t AddressCol) i) = (ea, ids1)" by fastforce
  obtain name ids2 where nm: "NameOpt ids1 (Text_Get (ft_Text t NameCol) i) = (name, ids2)" by fastforce
  obtain mangled ids3 where mg: "NameOpt ids2 (Text_Get (ft_Text t MangledFunctionCol) i) = (mangled, ids3)" by fastforce
  have "n - i = Suc (n - Suc i)" "2 * (n - i) = Suc (Suc (2 * (n - Suc i)))" using i by (simp_all add: n_def)
  with I have "addrs_wf ids" "addrs_room ids (Suc (n - Suc i))" "names_wf ids" "names_room ids (Suc (Suc (2 * (n - Suc i))))" by simp_all
  note ids = index_row_ids [OF this ea nm mg]
  have u: "unat (of_nat i :: 32 word) = i" using i by (rule unat_of_row)
  let ?rep = "ea \<noteq> kNoneAddr \<and> ea \<in> set (keys (ft_RowByAddr t))"
  let ?rba = "if ea \<noteq> kNoneAddr \<and> \<not> ?rep then AList.update ea (of_nat i) (ft_RowByAddr t) else ft_RowByAddr t"
  let ?A = "(ft_AddrIdOf t)[i := ea]" and ?N = "(ft_NameIdOf t)[i := name]"
  have in_range: "i < length (ft_AddrIdOf t)" "i < length (ft_NameIdOf t)" "i < length (ft_MangledIdOf t)" using I i by (simp_all add: n_def)
  have addr: "\<forall>j<Suc i. AddrOrNone ids3 (?A ! j) = Inr (Text_Get (ft_Text t0 AddressCol) j)"
    using I ids(5,7) in_range by (auto simp: less_Suc_eq nth_list_update)
  have nam: "\<forall>j<Suc i. NameOrNone ids3 (?N ! j) = Inr (Text_Get (ft_Text t0 NameCol) j)"
    using I ids(6,8) in_range by (auto simp: less_Suc_eq nth_list_update)
  have mang: "\<forall>j<Suc i. NameOrNone ids3 ((ft_MangledIdOf t)[i := mangled] ! j) = Inr (Text_Get (ft_Text t0 MangledFunctionCol) j)"
    using I ids(8,9) in_range by (auto simp: less_Suc_eq nth_list_update)
  have lookup: "\<forall>e r. map_of ?rba e = Some r \<longrightarrow> e \<noteq> kNoneAddr \<and> unat r < Suc i \<and> ?A ! unat r = e"
  proof (intro allI impI)
    fix e r assume m: "map_of ?rba e = Some r"
    show "e \<noteq> kNoneAddr \<and> unat r < Suc i \<and> ?A ! unat r = e"
    proof (cases "ea \<noteq> kNoneAddr \<and> \<not> ?rep \<and> e = ea")
      case True
      with m u in_range show ?thesis by auto
    next
      case False
      with m have "map_of (ft_RowByAddr t) e = Some r" by (auto split: if_splits)
      with I have "e \<noteq> kNoneAddr" "unat r < i" "ft_AddrIdOf t ! unat r = e" by blast+
      then show ?thesis by simp
    qed
  qed
  have complete: "problems = [] \<and> \<not> ?rep \<longrightarrow> (\<forall>j<Suc i. ?A ! j \<noteq> kNoneAddr \<longrightarrow> map_of ?rba (?A ! j) = Some (of_nat j))"
  proof (intro impI allI)
    fix j assume p: "problems = [] \<and> \<not> ?rep" and j: "j < Suc i" "?A ! j \<noteq> kNoneAddr"
    show "map_of ?rba (?A ! j) = Some (of_nat j)"
    proof (cases "j = i")
      case True
      with p j in_range show ?thesis by simp
    next
      case False
      with j have same: "?A ! j = ft_AddrIdOf t ! j" and "j < i" by simp_all
      from I p have "\<forall>j<i. ft_AddrIdOf t ! j \<noteq> kNoneAddr \<longrightarrow> map_of (ft_RowByAddr t) (ft_AddrIdOf t ! j) = Some (of_nat j)" by blast
      with \<open>j < i\<close> j(2) have known: "map_of (ft_RowByAddr t) (?A ! j) = Some (of_nat j)" unfolding same by blast
      then have "?A ! j \<in> set (keys (ft_RowByAddr t))" by (metis map_of_eq_None_keys option.distinct(1))
      with p j(2) have "?A ! j \<noteq> ea" by metis
      with known show ?thesis by simp
    qed
  qed
  let ?t' = "t\<lparr>ft_AddrIdOf := ?A, ft_NameIdOf := ?N, ft_MangledIdOf := (ft_MangledIdOf t)[i := mangled], ft_RowByAddr := ?rba,
      ft_RowsByName := (if name \<noteq> kNoneName then AList.update name (RowsNamed t name @ [of_nat i]) (ft_RowsByName t) else ft_RowsByName t)\<rparr>"
  have named: "RowsNamed ?t' q = map of_nat (filter (\<lambda>j. ?N ! j = q) [0..<Suc i])" if q: "q \<noteq> kNoneName" for q
  proof -
    have "filter (\<lambda>j. ?N ! j = q) [0..<i] = filter (\<lambda>j. ft_NameIdOf t ! j = q) [0..<i]" by (rule filter_cong) simp_all
    moreover have "?N ! i = name" using in_range by simp
    moreover have "RowsNamed t q = map of_nat (filter (\<lambda>j. ft_NameIdOf t ! j = q) [0..<i])" using I q by blast
    moreover have "ft_RowsByName ?t' = (if name \<noteq> kNoneName then AList.update name (RowsNamed t name @ [of_nat i]) (ft_RowsByName t)
        else ft_RowsByName t)" by simp
    note RowsNamed_push [OF this q]
    ultimately show ?thesis by simp
  qed
  have step: "index_row schema i s = (?t', ids3,
      problems @ (if ?rep then [schema @ ''.functions: duplicate address '' @ Text_View (ft_Text t AddressCol) i] else []))"
    by (simp only: s index_row_step ea nm mg Let_def prod.case)
  have rep: "problems @ (if ?rep then [schema @ ''.functions: duplicate address '' @ Text_View (ft_Text t AddressCol) i] else []) = [] \<longleftrightarrow>
      problems = [] \<and> \<not> ?rep" by simp
  have keep: "ft_Int ?t' = ft_Int t" "ft_Text ?t' = ft_Text t" "ft_Real ?t' = ft_Real t" "row_lists ?t' = row_lists t"
    "ft_AddrIdOf ?t' = ?A" "ft_NameIdOf ?t' = ?N" "ft_MangledIdOf ?t' = (ft_MangledIdOf t)[i := mangled]" "ft_RowByAddr ?t' = ?rba"
    by (simp_all add: row_lists_def)
  have names: "\<forall>q. q \<noteq> kNoneName \<longrightarrow> RowsNamed ?t' q = map of_nat (filter (\<lambda>j. ?N ! j = q) [0..<Suc i])" using named by blast
  from I have old: "ft_Int t = ft_Int t0" "ft_Text t = ft_Text t0" "ft_Real t = ft_Real t0" "row_lists t = row_lists t0"
    "length ?A = n" "length ?N = n" "length ((ft_MangledIdOf t)[i := mangled]) = n" by (simp_all only: length_list_update)
  show ?thesis unfolding step index_inv_def prod.case Let_def n_def [symmetric] rep keep
    by (intro conjI old ids(1-4) addr nam mang lookup complete names)
qed

lemma index_rows_inv:
  assumes "Table_Count t < 2 ^ 32" and "addrs_wf ids" "addrs_room ids (Table_Count t)" "names_wf ids" "names_room ids (2 * Table_Count t)"
    and "ft_RowByAddr t = []" "ft_RowsByName t = []"
  shows "index_inv t (Table_Count t) (index_rows schema t ids problems)"
proof -
  let ?s0 = "(t\<lparr>ft_AddrIdOf := replicate (Table_Count t) kNoneAddr, ft_NameIdOf := replicate (Table_Count t) kNoneName,
      ft_MangledIdOf := replicate (Table_Count t) kNoneName\<rparr>, ids, problems)"
  have "index_inv t k (fold (index_row schema) [0..<k] ?s0)" if "k \<le> Table_Count t" for k
    using that
  proof (induction k)
    case 0
    then show ?case using assms(2-) by (simp add: index_inv_def row_lists_def RowsNamed_def)
  next
    case (Suc k)
    then show ?case using index_inv_step [of t k] assms(1) by simp
  qed
  then show ?thesis by (simp add: index_rows_def Let_def)
qed

text \<open>What the diff relies on: every column has one cell per row and the address lookup agrees with the id column.\<close>

definition table_wf :: "FunctionTable \<Rightarrow> bool" where
  "table_wf t \<longleftrightarrow>
     (\<forall>m. tc_wf (ft_Text t m) \<and> length (tc_IsNull (ft_Text t m)) = Table_Count t) \<and>
     (\<forall>m. ic_wf (ft_Int t m) \<and> length (ic_IsNull (ft_Int t m)) = Table_Count t) \<and>
     length (ft_MdSqlReal t) = Table_Count t \<and> length (ft_MdSqlNull t) = Table_Count t \<and>
     length (ft_SelectFieldsUtf8Bad t) = Table_Count t \<and> length (ft_AnyColumnUtf8Bad t) = Table_Count t \<and>
     length (ft_AddrIdOf t) = Table_Count t \<and>
     (\<forall>ea r. FindRow t ea = Some r \<longrightarrow> ea \<noteq> kNoneAddr \<and> unat r < Table_Count t \<and> ft_AddrIdOf t ! unat r = ea)"

lemma every_member: "TextM m \<in> set (map desc_Member kColumns)" "IntM i \<in> set (map desc_Member kColumns)"
proof -
  have "TextM m \<in> set ms" if "ms = map desc_Member kColumns" for ms
    using that by (simp only: kColumns_def list.map fst_conv snd_conv) (cases m; simp)
  then show "TextM m \<in> set (map desc_Member kColumns)" by blast
  have "IntM i \<in> set ms" if "ms = map desc_Member kColumns" for ms
    using that by (simp only: kColumns_def list.map fst_conv snd_conv) (cases i; simp)
  then show "IntM i \<in> set (map desc_Member kColumns)" by blast
qed

lemma loaded_lengths:
  assumes "loaded columns rows t"
  shows "tc_wf (ft_Text t m) \<and> length (tc_IsNull (ft_Text t m)) = length rows"
    and "ic_wf (ft_Int t i) \<and> length (ic_IsNull (ft_Int t i)) = length rows"
    and "Table_Count t = length rows"
proof -
  have d: "case desc_Member d of
           TextM m \<Rightarrow> tc_wf (ft_Text t m) \<and> text_cells (ft_Text t m) = map (\<lambda>cells. stored_text (column_cell columns (desc_Name d) cells)) rows
         | IntM m \<Rightarrow> ic_wf (ft_Int t m) \<and> int_cells (ft_Int t m) = map (\<lambda>cells. stored_int (column_cell columns (desc_Name d) cells)) rows
         | RealM m \<Rightarrow> rc_wf (ft_Real t m) \<and> real_cells (ft_Real t m) = map (\<lambda>cells. stored_real (column_cell columns (desc_Name d) cells)) rows"
    if "d \<in> set kColumns" for d using assms that unfolding loaded_def by blast
  obtain e where e: "e \<in> set kColumns" "TextM m = desc_Member e" using every_member(1) [of m, unfolded set_map] by (rule imageE)
  from d [OF e(1)] show "tc_wf (ft_Text t m) \<and> length (tc_IsNull (ft_Text t m)) = length rows"
    unfolding e(2) [symmetric] by simp (metis length_map length_text_cells)
  have int: "ic_wf (ft_Int t i) \<and> length (ic_IsNull (ft_Int t i)) = length rows" for i
  proof -
    obtain e where e: "e \<in> set kColumns" "IntM i = desc_Member e" using every_member(2) [of i, unfolded set_map] by (rule imageE)
    from d [OF e(1)] show ?thesis unfolding e(2) [symmetric] by simp (metis length_map length_int_cells)
  qed
  show "ic_wf (ft_Int t i) \<and> length (ic_IsNull (ft_Int t i)) = length rows" by (rule int)
  show "Table_Count t = length rows" using int by (simp add: Table_Count_def)
qed

lemma loaded_fields:
  assumes "ft_Int t' = ft_Int t" and "ft_Text t' = ft_Text t" and "ft_Real t' = ft_Real t" and "row_lists t' = row_lists t"
  shows "loaded columns rows t' = loaded columns rows t"
proof -
  from assms(4) have lists: "ft_MdSqlReal t' = ft_MdSqlReal t" "ft_MdSqlNull t' = ft_MdSqlNull t"
    "ft_AddressSqlReal t' = ft_AddressSqlReal t" "ft_AddressSqlNull t' = ft_AddressSqlNull t"
    "ft_SelectFieldsUtf8Bad t' = ft_SelectFieldsUtf8Bad t" "ft_AnyColumnUtf8Bad t' = ft_AnyColumnUtf8Bad t" by (simp_all add: row_lists_def)
  show ?thesis by (simp only: loaded_def assms(1-3) lists)
qed

text \<open>Problems are only ever added.\<close>

lemma fold_prefix: "(\<And>x s. prefix (f s) (f (g x s))) \<Longrightarrow> prefix (f s) (f (fold g xs s))"
  by (induction xs arbitrary: s) (auto intro: prefix_order.trans)

lemma ingest_rows_problems: "prefix (snd tp) (snd (ingest_rows schema names k rows tp))"
proof (induction rows arbitrary: k tp)
  case (Cons cells rows)
  have "prefix (ir_Problems s) (ir_Problems (ingest_cell schema label dc s))" for label dc s
    by (auto simp: ingest_cell_def Let_def split: option.splits Member.splits)
  then have "prefix (snd tp) (snd (ingest_row schema names k cells tp))"
    using fold_prefix [of ir_Problems "ingest_cell schema (RowLabel names cells k)"
      "\<lparr>ir_Table = fst tp, ir_Problems = snd tp, ir_SelectBad = False, ir_AnyBad = False\<rparr>"]
    by (simp add: ingest_row_def Let_def)
  from prefix_order.trans [OF this Cons.IH [of "ingest_row schema names k cells tp" "Suc k"]] show ?case by simp
qed simp

lemma index_rows_problems: "prefix problems (snd (snd (index_rows schema t ids problems)))"
proof -
  have "prefix (snd (snd s)) (snd (snd (index_row schema j s)))" for j s
    by (auto simp: index_row_def Let_def split: prod.splits)
  then show ?thesis using fold_prefix [of "\<lambda>s. snd (snd s)" "index_row schema" "(_, ids, problems)"]
    by (simp add: index_rows_def Let_def)
qed

lemma IngestExport_loads:
  assumes "IngestExport db which ids = Inr (export, ids')" and "ed_Problems export = []"
    and "Side_Find (sd_Tables (ed_Tables export)) ''functions'' = Some info" and "db (functions_sql (SchemaName which)) [] = Inr st"
  shows "set ColumnNames \<subseteq> set (ti_Columns info) \<and>
    (ed_Functions export, ids', []) =
      index_rows (SchemaName which) (fst (ingest_rows (SchemaName which) (st_Columns st) 0 (st_Rows st) (empty_FunctionTable, [])))
        ids []"
proof -
  from assms(1) obtain side where side: "LoadSideTables db which = Inr side" by (auto simp: IngestExport_def bindE_eq_Inr)
  define absent where "absent = map (\<lambda>(name, readby). SchemaName which @ ''.'' @ name @ '': table is missing (read by the default diff: '' @ readby @ '')'')
      (filter (\<lambda>(name, _). \<not> Side_Has (sd_Tables side) name) kRequired)"
  note run = assms(1) [unfolded IngestExport_def side bindE_Inr Let_def absent_def [symmetric]]
  have tables: "ed_Tables export = side" using run
    by (auto simp: bindE_eq_Inr split_beta split: option.splits if_splits)
  then have f: "Side_Find (sd_Tables side) ''functions'' = Some info" using assms(3) by simp
  let ?missing = "filter (\<lambda>c. c \<notin> set (ti_Columns info)) ColumnNames"
  have present: "ti_Present info" "?missing = []"
    using run assms(2) by (auto simp: f split: if_splits)
  obtain t problems where t: "ingest_rows (SchemaName which) (st_Columns st) 0 (st_Rows st) (empty_FunctionTable, absent) = (t, problems)"
    by fastforce
  obtain t' ids2 problems' where t': "index_rows (SchemaName which) t ids problems = (t', ids2, problems')" by (metis prod_cases3)
  have "fetch_all st = Inr (st_Rows st)" "export = \<lparr>ed_Which = which, ed_Functions = t', ed_Tables = side, ed_Problems = problems'\<rparr>" "ids2 = ids'"
    using run by (simp_all add: f present assms(4) bindE_eq_Inr fetch_all_def t t' del: filter_empty_conv split: option.splits)
  then have e: "export = \<lparr>ed_Which = which, ed_Functions = t', ed_Tables = side, ed_Problems = []\<rparr>" "problems' = []" "ids2 = ids'"
    using assms(2) by simp_all
  have "prefix problems problems'" using index_rows_problems [of problems "SchemaName which" t ids] t' by simp
  then have "problems = []" using e(2) by simp
  moreover from this have "absent = []"
    using ingest_rows_problems [of "(empty_FunctionTable, absent)" "SchemaName which" "st_Columns st" 0 "st_Rows st"] t by simp
  ultimately show ?thesis using t t' e present(2) by (auto simp: filter_empty_conv)
qed

section \<open>Property of ingest\<close>

text \<open>The text of a row in a text column, in terms of the cell SQLite gave.\<close>

definition cell_text :: "SqlCell \<Rightarrow> string option" where
  "cell_text cell = (if sc_Type cell = SqlNull then None else Some (sc_Bytes cell))"

lemma loaded_text:
  assumes "loaded columns rows t" and "i < length rows" and "d \<in> set kColumns" and "desc_Member d = TextM m"
  shows "Text_Get (ft_Text t m) i = cell_text (column_cell columns (desc_Name d) (rows ! i))"
proof -
  have "text_cells (ft_Text t m) = map (\<lambda>cells. stored_text (column_cell columns (desc_Name d) cells)) rows"
    using assms(1,3,4) unfolding loaded_def by fastforce
  then have "text_cell (ft_Text t m) i = stored_text (column_cell columns (desc_Name d) (rows ! i))"
    using assms(2) loaded_lengths(1) [OF assms(1), of m] by (metis length_text_cells nth_map text_cells_nth)
  then show ?thesis by (auto simp: text_cell_def stored_text_def cell_text_def Text_Get_def split: if_splits)
qed

lemma text_descs: "(''address'', TextM AddressCol, True) \<in> set kColumns" "(''name'', TextM NameCol, True) \<in> set kColumns"
  "(''mangled_function'', TextM MangledFunctionCol, True) \<in> set kColumns"
  by (simp_all add: kColumns_def)

text \<open>C37. An export without problems is loaded as it is: every column of the table, text, integer or real, has one cell
  per row, with the type, the bytes and the value SQLite gave, the two lists of casts (of \<^verbatim>\<open>md_index\<close> and \<^verbatim>\<open>address\<close>)
  hold what SQLite gave for them, and the flags say exactly which rows Python cannot decode. The address id of a row reads
  back as the text of its \<^verbatim>\<open>address\<close> cell, its name id as that of its \<^verbatim>\<open>name\<close> cell and its mangled id as that of its
  \<^verbatim>\<open>mangled_function\<close> cell; \<^verbatim>\<open>FindRow\<close> finds every row by its address, and \<^verbatim>\<open>RowsNamed\<close> lists, in
  order, the rows that hold a name id, which are those whose \<^verbatim>\<open>name\<close> cell is the text of the id.\<close>

theorem ingest_stores_every_cell:
  assumes "IngestExport db which ids = Inr (export, ids')" and "ed_Problems export = []"
    and "Side_Find (sd_Tables (ed_Tables export)) ''functions'' = Some info"
    and "db (functions_sql (SchemaName which)) [] = Inr st" and "select_star_ok (ti_Columns info) st" and "length (st_Rows st) < 2 ^ 32"
    and "addrs_wf ids" and "addrs_room ids (length (st_Rows st))" and "names_wf ids" and "names_room ids (2 * length (st_Rows st))"
  shows "table_wf (ed_Functions export) \<and> loaded (ti_Columns info) (st_Rows st) (ed_Functions export) \<and>
    (\<forall>i < length (st_Rows st).
       AddrOrNone ids' (ft_AddrIdOf (ed_Functions export) ! i) = Inr (cell_text (column_cell (ti_Columns info) ''address'' (st_Rows st ! i))) \<and>
       NameOrNone ids' (ft_NameIdOf (ed_Functions export) ! i) = Inr (cell_text (column_cell (ti_Columns info) ''name'' (st_Rows st ! i))) \<and>
       NameOrNone ids' (ft_MangledIdOf (ed_Functions export) ! i) =
         Inr (cell_text (column_cell (ti_Columns info) ''mangled_function'' (st_Rows st ! i))) \<and>
       (ft_AddrIdOf (ed_Functions export) ! i \<noteq> kNoneAddr \<longrightarrow>
          FindRow (ed_Functions export) (ft_AddrIdOf (ed_Functions export) ! i) = Some (of_nat i))) \<and>
    (\<forall>name. name \<noteq> kNoneName \<longrightarrow> RowsNamed (ed_Functions export) name =
       map of_nat (filter (\<lambda>i. ft_NameIdOf (ed_Functions export) ! i = name) [0..<length (st_Rows st)])) \<and>
    (\<forall>name u. NameOrNone ids' name = Inr (Some u) \<longrightarrow> RowsNamed (ed_Functions export) name =
       map of_nat (filter (\<lambda>i. cell_text (column_cell (ti_Columns info) ''name'' (st_Rows st ! i)) = Some u) [0..<length (st_Rows st)]))"
proof -
  let ?cols = "ti_Columns info" and ?rows = "st_Rows st" and ?T = "ed_Functions export"
  define t where "t = fst (ingest_rows (SchemaName which) (st_Columns st) 0 ?rows (empty_FunctionTable, []))"
  have names: "set ColumnNames \<subseteq> set ?cols" and run: "index_rows (SchemaName which) t ids [] = (?T, ids', [])"
    using IngestExport_loads [OF assms(1-4)] by (simp_all add: t_def)
  have ok: "distinct ?cols" "take (length ?cols) (st_Columns st) = ?cols" "length (st_Columns st) = length ?cols + 2"
    "list_all (\<lambda>cells. length cells = length ?cols + 2 \<and> list_all (\<lambda>c. length (sc_Bytes c) < 2 ^ 31) cells) ?rows"
    using assms(5) unfolding select_star_ok_def by blast+
  have "loaded ?cols ([] @ ?rows) t" unfolding t_def
    by (rule ingest_rows_loaded [OF ok(1) names ok(2-4)]) (simp add: loaded_empty)
  then have t: "loaded ?cols ?rows t" by simp
  note n = loaded_lengths(3) [OF t]
  have "ft_RowByAddr t = []" "ft_RowsByName t = []" unfolding t_def by (simp_all add: ingest_rows_RowByAddr empty_FunctionTable_def)
  then have "index_inv t (length ?rows) (?T, ids', [])"
    using index_rows_inv [of t ids "SchemaName which" "[]"] assms(6-10) by (simp add: n run)
  note I = this [unfolded index_inv_def prod.case Let_def n]
  from I have same: "ft_Int ?T = ft_Int t" "ft_Text ?T = ft_Text t" "ft_Real ?T = ft_Real t" "row_lists ?T = row_lists t" by blast+
  have T: "loaded ?cols ?rows ?T" using t by (simp only: loaded_fields [OF same])
  note lens = loaded_lengths [OF T]
  from T [unfolded loaded_def, THEN conjunct2] have md: "length (ft_MdSqlReal ?T) = length ?rows" "length (ft_MdSqlNull ?T) = length ?rows"
    "length (ft_SelectFieldsUtf8Bad ?T) = length ?rows" "length (ft_AnyColumnUtf8Bad ?T) = length ?rows"
    by simp_all
  from I have len: "length (ft_AddrIdOf ?T) = length ?rows" and wf: "names_wf ids'"
    and reads: "\<forall>i<length ?rows. AddrOrNone ids' (ft_AddrIdOf ?T ! i) = Inr (Text_Get (ft_Text t AddressCol) i)"
    and reads_name: "\<forall>i<length ?rows. NameOrNone ids' (ft_NameIdOf ?T ! i) = Inr (Text_Get (ft_Text t NameCol) i)"
    and reads_mangled: "\<forall>i<length ?rows. NameOrNone ids' (ft_MangledIdOf ?T ! i) = Inr (Text_Get (ft_Text t MangledFunctionCol) i)"
    and lookup: "\<forall>ea r. map_of (ft_RowByAddr ?T) ea = Some r \<longrightarrow> ea \<noteq> kNoneAddr \<and> unat r < length ?rows \<and> ft_AddrIdOf ?T ! unat r = ea"
    and found: "\<forall>i<length ?rows. ft_AddrIdOf ?T ! i \<noteq> kNoneAddr \<longrightarrow> map_of (ft_RowByAddr ?T) (ft_AddrIdOf ?T ! i) = Some (of_nat i)"
    and named: "\<forall>nm. nm \<noteq> kNoneName \<longrightarrow> RowsNamed ?T nm = map of_nat (filter (\<lambda>j. ft_NameIdOf ?T ! j = nm) [0..<length ?rows])"
    by blast+
  have "table_wf ?T" unfolding table_wf_def lens(3) FindRow_def
    by (intro conjI allI lens(1,2) md len) (use lookup in blast)+
  moreover have cells: "Text_Get (ft_Text t AddressCol) i = cell_text (column_cell ?cols ''address'' (?rows ! i))"
      "Text_Get (ft_Text t NameCol) i = cell_text (column_cell ?cols ''name'' (?rows ! i))"
      "Text_Get (ft_Text t MangledFunctionCol) i = cell_text (column_cell ?cols ''mangled_function'' (?rows ! i))"
    if "i < length ?rows" for i
    using loaded_text [OF t that text_descs(1)] loaded_text [OF t that text_descs(2)] loaded_text [OF t that text_descs(3)] by simp_all
  moreover have "RowsNamed ?T nm = map of_nat (filter (\<lambda>i. cell_text (column_cell ?cols ''name'' (?rows ! i)) = Some u) [0..<length ?rows])"
    if nm: "NameOrNone ids' nm = Inr (Some u)" for nm u
  proof -
    have "ft_NameIdOf ?T ! i = nm \<longleftrightarrow> cell_text (column_cell ?cols ''name'' (?rows ! i)) = Some u" if "i < length ?rows" for i
      using that reads_name nm names.text_inj [OF wf] by (metis Inr_inject cells(2))
    then have "filter (\<lambda>i. ft_NameIdOf ?T ! i = nm) [0..<length ?rows] =
        filter (\<lambda>i. cell_text (column_cell ?cols ''name'' (?rows ! i)) = Some u) [0..<length ?rows]" by (intro filter_cong) simp_all
    moreover have "nm \<noteq> kNoneName" using nm by (auto simp: NameOrNone_def)
    ultimately show ?thesis using named by metis
  qed
  ultimately show ?thesis using T named reads reads_name reads_mangled found by (simp add: FindRow_def cells)
qed

text \<open>A small export: one function, every cell of it the name of its column.\<close>

definition example_cell :: "string \<Rightarrow> SqlCell" where
  "example_cell text = \<lparr>sc_Type = SqlText, sc_Int = 1, sc_Real = Finite False 1, sc_Bytes = text\<rparr>"

definition example_functions :: Statement where
  "example_functions =
     \<lparr>st_Columns = ColumnNames @ [''md'', ''ea''], st_Rows = [map example_cell (ColumnNames @ [''md'', ''ea''])], st_Error = None\<rparr>"

definition example_db :: Database where
  "example_db sql binds =
     Inr (if sql = functions_sql ''main'' then example_functions
          else if starts_with sql ''pragma''
          then \<lparr>st_Columns = [], st_Rows = map (\<lambda>name. [example_cell name, example_cell name]) ColumnNames, st_Error = None\<rparr>
          else \<lparr>st_Columns = [], st_Rows = [replicate 5 (example_cell ''x'')], st_Error = None\<rparr>)"

definition example_info :: "string \<Rightarrow> TableInfo" where
  "example_info name = \<lparr>ti_Name = name, ti_Present = True, ti_Rows = 1, ti_Columns = ColumnNames\<rparr>"

lemma example_infos: "load_table_infos example_db ''main'' names = Inr (map example_info names)"
proof (induction names)
  case (Cons name names)
  have "load_table_info example_db ''main'' name = Inr (example_info name)"
    by (simp add: load_table_info_def TableExists_def query_count_def example_db_def functions_sql_def starts_with_def Step_def
        fetch_all_def example_cell_def comp_def example_info_def)
  with Cons show ?case by simp
qed simp

lemma example_find: "name \<in> set names \<Longrightarrow> Side_Find (map example_info names) name = Some (example_info name)"
  by (induction names) (auto simp: Side_Find_def example_info_def)

lemma example_side: "\<exists>side. LoadSideTables example_db Main_Side = Inr side \<and> sd_Tables side = map example_info SideTableNames"
proof -
  let ?tables = "map example_info SideTableNames"
  have f: "Side_Find ?tables ''program'' = Some (example_info ''program'')" "Side_Find ?tables ''version'' = Some (example_info ''version'')"
    by (rule example_find, simp add: SideTableNames_def)+
  obtain p where "load_program example_db ''main'' ?tables = Inr p"
    by (simp add: load_program_def f example_info_def example_db_def functions_sql_def starts_with_def fetch_all_def ColumnNames_def kColumns_def comma_join_def)
  moreover have "load_version example_db ''main'' ?tables = Inr []"
    by (simp add: load_version_def f example_info_def ColumnNames_def kColumns_def)
  moreover obtain k where "query_count example_db (''select count(*) from '' @ ''main'' @ ''.sqlite_master where type = '' @ quote @ ''index'' @ quote @
       '' and name like '' @ quote @ ''idx'' @ [CHR 0x5C] @ ''_%'' @ quote @ '' escape '' @ quote @ [CHR 0x5C] @ quote) = Inr k"
    by (simp add: query_count_def example_db_def functions_sql_def starts_with_def Step_def)
  ultimately show ?thesis by (simp only: LoadSideTables_def Let_def SchemaName_def example_infos bindE_Inr simp_thms if_True) simp
qed

lemma ingest_text_problems:
  "list_all (\<lambda>(d, c). sc_Type c = SqlText) dcs \<Longrightarrow> ir_Problems (fold (ingest_cell schema label) dcs s) = ir_Problems s"
  by (induction dcs arbitrary: s) (auto simp: ingest_cell_def Let_def split: option.splits Member.splits)

lemma example_ok: "select_star_ok ColumnNames example_functions"
proof -
  have "list_all (\<lambda>name. length name < 2 ^ 31) ColumnNames" by (simp add: ColumnNames_def kColumns_def)
  then have "list_all (\<lambda>c. length (sc_Bytes c) < 2 ^ 31) (map example_cell (ColumnNames @ [''md'', ''ea'']))"
    by (simp add: list_all_iff example_cell_def)
  then show ?thesis using distinct_kColumns(1) by (simp add: select_star_ok_def example_functions_def ColumnNames_def)
qed

lemma example_run:
  "\<exists>export ids. IngestExport example_db Main_Side empty_Interners = Inr (export, ids) \<and> ed_Problems export = [] \<and>
     Side_Find (sd_Tables (ed_Tables export)) ''functions'' = Some (example_info ''functions'')"
proof -
  obtain side where side: "LoadSideTables example_db Main_Side = Inr side" "sd_Tables side = map example_info SideTableNames"
    using example_side by blast
  have has: "Side_Find (sd_Tables side) name = Some (example_info name)" if "name \<in> set SideTableNames" for name
    unfolding side(2) using that by (rule example_find)
  have absent: "filter (\<lambda>(name, _). \<not> Side_Has (sd_Tables side) name) kRequired = []"
    by (simp add: kRequired_def Side_Has_def has SideTableNames_def example_info_def)
  have f: "Side_Find (sd_Tables side) ''functions'' = Some (example_info ''functions'')" by (rule has) (simp add: SideTableNames_def)
  let ?names = "ColumnNames @ [''md'', ''ea'']"
  let ?r = "ingest_rows ''main'' ?names 0 [map example_cell ?names] (empty_FunctionTable, [])"
  have "list_all (\<lambda>(d, c). sc_Type c = SqlText) (zip ds (map example_cell cs))" for ds :: "ColumnDesc option list" and cs
    by (auto simp: list_all_iff set_zip example_cell_def)
  note texts = ingest_text_problems [OF this]
  have "snd ?r = []" by (simp add: ingest_row_def Let_def texts del: map_append list.map)
  then obtain t where t: "?r = (t, [])" by (metis prod.collapse)
  have ok: "distinct ColumnNames" "take (length ColumnNames) ?names = ColumnNames" "length ?names = length ColumnNames + 2"
    "list_all (\<lambda>cells. length cells = length ColumnNames + 2 \<and> list_all (\<lambda>c. length (sc_Bytes c) < 2 ^ 31) cells) [map example_cell ?names]"
    using example_ok by (simp_all add: select_star_ok_def example_functions_def)
  have "loaded ColumnNames ([] @ [map example_cell ?names]) t"
    using ingest_rows_loaded [OF ok(1) subset_refl ok(2-4), of "[]" "(empty_FunctionTable, [])" "''main''" 0] unfolding t by (simp add: loaded_empty)
  then have "Table_Count t = 1" using loaded_lengths(3) by fastforce
  moreover have "ft_RowByAddr t = []"
    using ingest_rows_RowByAddr [of "''main''" ?names 0 "[map example_cell ?names]" "(empty_FunctionTable, [])"] t
    by (simp add: empty_FunctionTable_def)
  ultimately have "snd (snd (index_rows ''main'' t empty_Interners [])) = []"
    by (simp add: index_rows_def Let_def index_row_def split: prod.splits)
  then obtain t' ids where t': "index_rows ''main'' t empty_Interners [] = (t', ids, [])" by (metis prod.collapse)
  have none: "filter (\<lambda>c. c \<notin> set (ti_Columns (example_info ''functions''))) ColumnNames = []" by (simp add: example_info_def)
  have fetched: "example_db (functions_sql ''main'') [] = Inr example_functions" "fetch_all example_functions = Inr [map example_cell ?names]"
    "st_Columns example_functions = ?names" "ti_Present (example_info ''functions'')"
    by (simp_all only: example_db_def simp_thms if_True) (simp_all add: example_functions_def fetch_all_def example_info_def)
  have "IngestExport example_db Main_Side empty_Interners =
      Inr (\<lparr>ed_Which = Main_Side, ed_Functions = t', ed_Tables = side, ed_Problems = []\<rparr>, ids)"
    unfolding IngestExport_def side(1) bindE_Inr Let_def SchemaName_def absent f none
    by (simp only: option.case none fetched bindE_Inr simp_thms if_True if_False list.map t t' prod.case) simp
  then show ?thesis using f by simp
qed

theorem ingest_witness:
  "\<exists>export ids. IngestExport example_db Main_Side empty_Interners = Inr (export, ids) \<and> table_wf (ed_Functions export) \<and>
     loaded ColumnNames (st_Rows example_functions) (ed_Functions export)"
proof -
  obtain export ids where run: "IngestExport example_db Main_Side empty_Interners = Inr (export, ids)" "ed_Problems export = []"
      "Side_Find (sd_Tables (ed_Tables export)) ''functions'' = Some (example_info ''functions'')"
    using example_run by blast
  have "example_db (functions_sql (SchemaName Main_Side)) [] = Inr example_functions" by (simp add: example_db_def SchemaName_def)
  moreover have "select_star_ok (ti_Columns (example_info ''functions'')) example_functions" using example_ok by (simp add: example_info_def)
  moreover have "length (st_Rows example_functions) < 2 ^ 32" by (simp add: example_functions_def)
  moreover have "addrs_wf empty_Interners" "addrs_room empty_Interners (length (st_Rows example_functions))"
      "names_wf empty_Interners" "names_room empty_Interners (2 * length (st_Rows example_functions))"
    by (simp_all add: addrs_wf_def names_wf_def addrs_room_def names_room_def interner_room_def empty_Interners_def empty_Interner_def
        interner_wf_def example_functions_def)
  ultimately show ?thesis using ingest_stores_every_cell [OF run] run(1) by (simp add: example_info_def)
qed

end
