(* ===== verification/QuickRatio.thy ===== *)
theory QuickRatio
  imports Tables TextScan "HOL-Library.Multiset"
begin

text \<open>
  Line similarity (\<^verbatim>\<open>src/diff/Ratio.cpp\<close>): \<^verbatim>\<open>RatioEngine::QuickRatio\<close>, the literal port of
  \<^verbatim>\<open>SequenceMatcher.quick_ratio\<close> on \<^verbatim>\<open>split("\n")\<close>, and the prepared form the engine uses, where the lines
  of both exports are interned once and a row is a sorted list of (line id, count) runs. The theorem of this theory says
  that the two are the same function.

  Line ids, run counts and positions are 32-bit words; the number of lines of both columns together has to be below
  \<open>2 ^ 32\<close> for them not to wrap, which is the hypothesis \<open>lines_fit\<close>.
\<close>

section \<open>Lines\<close>

function SplitPieces :: "string \<Rightarrow> string list" where
  "SplitPieces text =
     (case dropWhile (\<lambda>c. c \<noteq> newline) text of
        [] \<Rightarrow> [text]
      | _ # rest \<Rightarrow> takeWhile (\<lambda>c. c \<noteq> newline) text # SplitPieces rest)"
  by auto
termination
proof (relation "measure length", simp, goal_cases)
  case (1 s c rest)
  then show ?case using length_dropWhile_le [of "\<lambda>c. c \<noteq> newline" s] by simp
qed

declare SplitPieces.simps [simp del]

lemma SplitPieces_python: "SplitPieces s = PySplitNewline s"
proof (induction s rule: SplitPieces.induct)
  case (1 s)
  show ?case
  proof (cases "dropWhile (\<lambda>c. c \<noteq> newline) s")
    case Nil
    then show ?thesis by (simp only: SplitPieces.simps [of s] PySplitNewline_last list.case)
  next
    case (Cons c rest)
    from 1 [OF Cons] show ?thesis by (simp only: SplitPieces.simps [of s] PySplitNewline_more [OF Cons] Cons list.case)
  qed
qed

lemma SplitPieces_ne [simp]: "SplitPieces text \<noteq> []"
  by (subst SplitPieces.simps) (simp split: list.splits)

definition calculate_ratio :: "nat \<Rightarrow> nat \<Rightarrow> double" where
  "calculate_ratio matches n = dbl_div (dbl_mul 2 (dbl_of_size matches)) (dbl_of_size n)"

section \<open>\<open>QuickRatio\<close>\<close>

definition line_count :: "(string \<times> int) list \<Rightarrow> string \<Rightarrow> int" where
  "line_count m p = (case map_of m p of None \<Rightarrow> 0 | Some k \<Rightarrow> k)"

primrec available :: "(string \<times> int) list \<Rightarrow> string list \<Rightarrow> (string \<times> int) list" where
  "available m [] = m"
| "available m (p # ps) = available (AList.update p (line_count m p + 1) m) ps"

primrec count_matches :: "(string \<times> int) list \<Rightarrow> nat \<Rightarrow> string list \<Rightarrow> nat" where
  "count_matches m k [] = k"
| "count_matches m k (p # ps) =
     (case map_of m p of
        Some a \<Rightarrow> if a > 0 then count_matches (AList.update p (a - 1) m) (Suc k) ps else count_matches m k ps
      | None \<Rightarrow> count_matches m k ps)"

definition RatioEngine_QuickRatio :: "string option \<Rightarrow> string option \<Rightarrow> double" where
  "RatioEngine_QuickRatio a b =
     (case (a, b) of
        (Some x, Some y) \<Rightarrow>
          if x = [] \<or> y = [] then 0
          else (let pa = SplitPieces x; pb = SplitPieces y
                in calculate_ratio (count_matches (available [] pb) 0 pa) (length pa + length pb))
      | _ \<Rightarrow> 0)"

section \<open>Prepared columns\<close>

datatype CellState = NullCell | EmptyStrCell | BlobCell | TextCell

record PreparedText =
  pt_State :: CellState
  pt_Begin :: "32 word"
  pt_Count :: "32 word"
  pt_Pieces :: nat

type_synonym runs = "(32 word \<times> 32 word) list"
type_synonym line_ids = "(string \<times> 32 word) list"

record PreparedColumn =
  pc_Rows :: "Side \<Rightarrow> PreparedText list"
  pc_Runs :: "Side \<Rightarrow> runs"
  pc_LineIds :: line_ids

definition empty_PreparedText :: PreparedText where
  "empty_PreparedText = \<lparr>pt_State = NullCell, pt_Begin = 0, pt_Count = 0, pt_Pieces = 0\<rparr>"

definition empty_PreparedColumn :: PreparedColumn where
  "empty_PreparedColumn = \<lparr>pc_Rows = (\<lambda>_. []), pc_Runs = (\<lambda>_. []), pc_LineIds = []\<rparr>"

definition emplace_line :: "line_ids \<Rightarrow> string \<Rightarrow> 32 word \<times> line_ids" where
  "emplace_line lids p =
     (case map_of lids p of Some i \<Rightarrow> (i, lids) | None \<Rightarrow> (of_nat (length lids), lids @ [(p, of_nat (length lids))]))"

primrec intern_pieces :: "line_ids \<Rightarrow> string list \<Rightarrow> 32 word list \<times> line_ids" where
  "intern_pieces lids [] = ([], lids)"
| "intern_pieces lids (p # ps) =
     (let (i, lids1) = emplace_line lids p; (is, lids2) = intern_pieces lids1 ps in (i # is, lids2))"

text \<open>The runs of a sorted list of ids.\<close>

function runs_of :: "32 word list \<Rightarrow> runs" where
  "runs_of [] = []"
| "runs_of (i # is) =
     (i, of_nat (Suc (length (takeWhile (\<lambda>j. j = i) is)))) # runs_of (dropWhile (\<lambda>j. j = i) is)"
  by pat_completeness auto
termination
  by (relation "measure length") (simp_all add: le_imp_less_Suc length_dropWhile_le)

definition prepare_row :: "TextColumn \<Rightarrow> nat \<Rightarrow> PreparedText list \<times> runs \<times> line_ids \<Rightarrow> PreparedText list \<times> runs \<times> line_ids" where
  "prepare_row c row s =
     (case s of (rows, runs, lids) \<Rightarrow>
        if tc_IsNull c ! row then (rows[row := (rows ! row)\<lparr>pt_State := NullCell\<rparr>], runs, lids)
        else if tc_IsBlob c ! row then (rows[row := (rows ! row)\<lparr>pt_State := BlobCell\<rparr>], runs, lids)
        else if Text_View c row = [] then (rows[row := (rows ! row)\<lparr>pt_State := EmptyStrCell\<rparr>], runs, lids)
        else
          (let pieces = SplitPieces (Text_View c row);
               (ids, lids1) = intern_pieces lids pieces;
               runs1 = runs @ runs_of (sort ids)
           in (rows[row := \<lparr>pt_State = TextCell, pt_Begin = of_nat (length runs),
                            pt_Count = of_nat (length runs1) - of_nat (length runs), pt_Pieces = length pieces\<rparr>], runs1, lids1)))"

definition prepare_side :: "TextColumn \<Rightarrow> line_ids \<Rightarrow> PreparedText list \<times> runs \<times> line_ids" where
  "prepare_side c lids =
     fold (prepare_row c) [0..<length (tc_IsNull c)] (replicate (length (tc_IsNull c)) empty_PreparedText, [], lids)"

definition PrepareColumn :: "TextColumn \<Rightarrow> TextColumn \<Rightarrow> PreparedColumn" where
  "PrepareColumn main diff =
     (let (rows0, runs0, lids0) = prepare_side main []; (rows1, runs1, lids1) = prepare_side diff lids0
      in \<lparr>pc_Rows = (\<lambda>side. if side = Main_Side then rows0 else rows1),
          pc_Runs = (\<lambda>side. if side = Main_Side then runs0 else runs1), pc_LineIds = lids1\<rparr>)"

fun merge_runs :: "nat \<Rightarrow> runs \<Rightarrow> runs \<Rightarrow> nat" where
  "merge_runs matches ((a, c) # as) ((b, d) # bs) =
     (if a < b then merge_runs matches as ((b, d) # bs)
      else if b < a then merge_runs matches ((a, c) # as) bs
      else merge_runs (matches + unat (min c d)) as bs)"
| "merge_runs matches _ _ = matches"

definition row_runs :: "PreparedColumn \<Rightarrow> Side \<Rightarrow> PreparedText \<Rightarrow> runs" where
  "row_runs column side t = take (unat (pt_Count t)) (drop (unat (pt_Begin t)) (pc_Runs column side))"

definition QuickPrepared :: "PreparedColumn \<Rightarrow> Side \<Rightarrow> nat \<Rightarrow> Side \<Rightarrow> nat \<Rightarrow> string \<Rightarrow> double result" where
  "QuickPrepared column side_a row_a side_b row_b name =
     (let a = pc_Rows column side_a ! row_a; b = pc_Rows column side_b ! row_b
      in if pt_State a = NullCell \<or> pt_State b = NullCell then Inr 0
         else if pt_State a = EmptyStrCell \<or> pt_State b = EmptyStrCell then Inr 0
         else if pt_State a = BlobCell \<or> pt_State b = BlobCell
         then Inl (DiaphoraWouldRaise ''D:163 quick_ratio''
                (''TypeError: a bytes-like object is required, not '' @ quote @ ''str'' @ quote @ '' (BLOB in '' @ name @ '')''))
         else Inr (calculate_ratio (merge_runs 0 (row_runs column side_a a) (row_runs column side_b b)) (pt_Pieces a + pt_Pieces b)))"

section \<open>Counting common lines\<close>

abbreviation common :: "'a list \<Rightarrow> 'a list \<Rightarrow> nat" where
  "common xs ys \<equiv> size (mset xs \<inter># mset ys)"

lemma common_Cons_in: "x \<in># B \<Longrightarrow> size (add_mset x A \<inter># B) = Suc (size (A \<inter># (B - {#x#})))"
  by (simp add: inter_add_left2)

lemma common_Cons_out: "x \<notin># B \<Longrightarrow> size (add_mset x A \<inter># B) = size (A \<inter># B)"
  by (simp add: inter_add_left1)

lemma line_count_available: "line_count (available m ps) p = line_count m p + int (count (mset ps) p)"
  by (induction ps arbitrary: m) (auto simp: line_count_def split: option.splits)

text \<open>\<open>m\<close> holds the multiset \<open>B\<close> of lines that are still available.\<close>

lemma count_matches_common:
  assumes "\<And>p. line_count m p = int (count B p)"
  shows "count_matches m k ps = k + size (mset ps \<inter># B)"
  using assms
proof (induction ps arbitrary: m k B)
  case (Cons p ps)
  show ?case
  proof (cases "p \<in># B")
    case True
    then have pos: "0 < count B p" by (simp add: count_greater_zero_iff)
    then obtain a where a: "map_of m p = Some a" "a = int (count B p)"
      using Cons.prems [of p] pos by (auto simp: line_count_def simp del: count_greater_zero_iff split: option.splits)
    have "line_count (AList.update p (a - 1) m) q = int (count (B - {#p#}) q)" for q
      using Cons.prems [of q] pos a by (auto simp: line_count_def of_nat_diff split: option.splits)
    from Cons.IH [OF this] show ?thesis using a pos True by (simp add: common_Cons_in)
  next
    case False
    then have "count B p = 0" by (simp add: not_in_iff)
    with Cons.prems [of p] have "map_of m p = None \<or> map_of m p = Some 0" by (auto simp: line_count_def split: option.splits)
    then show ?thesis using Cons.IH [OF Cons.prems] False by (auto simp: common_Cons_out)
  qed
qed simp

lemma QuickRatio_common:
  assumes "x \<noteq> []" and "y \<noteq> []"
  shows "RatioEngine_QuickRatio (Some x) (Some y) =
    calculate_ratio (common (SplitPieces x) (SplitPieces y)) (length (SplitPieces x) + length (SplitPieces y))"
proof -
  have "line_count (available [] (SplitPieces y)) p = int (count (mset (SplitPieces y)) p)" for p
    by (simp add: line_count_available) (simp add: line_count_def)
  from count_matches_common [OF this, of 0] show ?thesis using assms by (simp add: RatioEngine_QuickRatio_def Let_def)
qed

text \<open>Renaming the lines injectively keeps the number of common lines.\<close>

lemma common_image:
  assumes "inj_on f (set_mset A \<union> set_mset B)"
  shows "size (image_mset f A \<inter># image_mset f B) = size (A \<inter># B)"
  using assms
proof (induction A arbitrary: B)
  case (add x A)
  show ?case
  proof (cases "x \<in># B")
    case True
    then have "image_mset f B - {#f x#} = image_mset f (B - {#x#})" by (simp add: image_mset_Diff)
    moreover have "inj_on f (set_mset A \<union> set_mset (B - {#x#}))"
      by (rule inj_on_subset [OF add.prems]) (auto dest: in_diffD)
    ultimately show ?thesis using True add.IH [of "B - {#x#}"] by (simp add: common_Cons_in)
  next
    case False
    then have "f x \<notin># image_mset f B" using add.prems by (auto simp: inj_on_def)
    moreover have "inj_on f (set_mset A \<union> set_mset B)" by (rule inj_on_subset [OF add.prems]) auto
    ultimately show ?thesis using False add.IH [of B] by (simp add: common_Cons_out)
  qed
qed simp

section \<open>Runs\<close>

primrec mset_runs :: "runs \<Rightarrow> 32 word multiset" where
  "mset_runs [] = {#}"
| "mset_runs (r # rs) = replicate_mset (unat (snd r)) (fst r) + mset_runs rs"

abbreviation increasing :: "runs \<Rightarrow> bool" where
  "increasing rs \<equiv> sorted_wrt (<) (map fst rs)"

lemma mset_runs_elems: "x \<in># mset_runs rs \<Longrightarrow> x \<in> fst ` set rs"
  by (induction rs) (auto split: if_splits)

lemma runs_inter_skip: "a \<notin># B \<Longrightarrow> (replicate_mset c a + A) \<inter># B = A \<inter># B"
  by (induction c) (simp_all add: inter_add_left1)

lemma runs_inter_same:
  assumes "a \<notin># A" and "a \<notin># B"
  shows "(replicate_mset c a + A) \<inter># (replicate_mset d a + B) = replicate_mset (min c d) a + A \<inter># B"
  using assms by (intro multiset_eqI) (auto simp: not_in_iff)

lemma merge_runs_common:
  assumes "increasing as" and "increasing bs"
  shows "merge_runs k as bs = k + size (mset_runs as \<inter># mset_runs bs)"
  using assms
proof (induction k as bs rule: merge_runs.induct)
  case (1 k a c as b d bs)
  have above: "a \<notin># mset_runs as" "b \<notin># mset_runs bs" using 1(4,5) by (auto dest: mset_runs_elems)
  consider "a < b" | "b < a" | "a = b" by (rule linorder_cases)
  then show ?case
  proof cases
    case 1
    then have "a \<notin># mset_runs ((b, d) # bs)" using "1.prems"(2) by (auto dest!: mset_runs_elems split: if_splits)
    then have "mset_runs ((a, c) # as) \<inter># mset_runs ((b, d) # bs) = mset_runs as \<inter># mset_runs ((b, d) # bs)"
      unfolding mset_runs.simps fst_conv snd_conv by (rule runs_inter_skip)
    with 1 "1.IH"(1) "1.prems" show ?thesis by simp
  next
    case 2
    then have "b \<notin># mset_runs ((a, c) # as)" using "1.prems"(1) by (auto dest!: mset_runs_elems split: if_splits)
    then have "mset_runs ((b, d) # bs) \<inter># mset_runs ((a, c) # as) = mset_runs bs \<inter># mset_runs ((a, c) # as)"
      unfolding mset_runs.simps fst_conv snd_conv by (rule runs_inter_skip)
    then have "mset_runs ((a, c) # as) \<inter># mset_runs ((b, d) # bs) = mset_runs ((a, c) # as) \<inter># mset_runs bs"
      by (simp only: subset_mset.inf.commute)
    moreover have "\<not> a < b" using 2 by simp
    ultimately show ?thesis using 2 "1.IH"(2) "1.prems" by simp
  next
    case 3
    have "unat (min c d) = min (unat c) (unat d)" by (simp add: min_def word_le_nat_alt)
    with 3 above "1.IH"(3) "1.prems" show ?thesis by (simp add: runs_inter_same)
  qed
qed simp_all

lemma runs_of_value:
  assumes "sorted is" and "length is < 2 ^ 32"
  shows "mset_runs (runs_of is) = mset is \<and> increasing (runs_of is) \<and> fst ` set (runs_of is) = set is \<and> length (runs_of is) \<le> length is"
  using assms
proof (induction "is" rule: runs_of.induct)
  case (2 i "is")
  let ?t = "takeWhile (\<lambda>j. j = i) is" and ?d = "dropWhile (\<lambda>j. j = i) is"
  have parts: "is = ?t @ ?d" by simp
  have t: "?t = replicate (length ?t) i" by (metis (mono_tags) replicate_length_same set_takeWhileD)
  have len: "length ?t + length ?d = length is" by (metis length_append parts)
  have d: "sorted ?d" using 2(2) by (simp add: sorted_dropWhile)
  have ih: "mset_runs (runs_of ?d) = mset ?d \<and> increasing (runs_of ?d) \<and> fst ` set (runs_of ?d) = set ?d \<and> length (runs_of ?d) \<le> length ?d"
    using 2(1) [OF d] 2(3) len by simp
  have count: "unat (of_nat (Suc (length ?t)) :: 32 word) = Suc (length ?t)" using 2(3) len by (intro unat_of_nat_views) simp
  have above: "\<forall>j\<in>set ?d. i < j"
  proof
    fix j assume j: "j \<in> set ?d"
    have "i \<le> j" using 2(2) set_dropWhileD [OF j] by auto
    moreover have "i \<noteq> j"
    proof
      assume "i = j"
      have "length ?d > 0" using j by (rule length_pos_if_in_set)
      then obtain h rest where h: "?d = h # rest" unfolding length_greater_0_conv neq_Nil_conv by blast
      have "h \<noteq> i" using hd_dropWhile [of "\<lambda>j. j = i" "is"] unfolding h by simp
      moreover have "h \<in> set ?d" unfolding h by simp
      then have "i \<le> h" using 2(2) set_dropWhileD [of h] by simp
      moreover have "h \<le> j" using d j unfolding h by auto
      ultimately show False using \<open>i = j\<close> by simp
    qed
    ultimately show "i < j" by simp
  qed
  have "mset is = mset ?t + mset ?d" using arg_cong [OF parts, of mset] by (simp only: mset_append)
  also have "mset ?t = replicate_mset (length ?t) i" using arg_cong [OF t, of mset] by (simp only: mset_replicate)
  finally have m: "mset is = replicate_mset (length ?t) i + mset ?d" .
  have s: "insert i (set is) = insert i (set ?d)"
  proof
    have u: "set is = set ?t \<union> set ?d" using arg_cong [OF parts, of set] by (simp only: set_append)
    have "set ?t \<subseteq> {i}" using set_takeWhileD [of _ "\<lambda>j. j = i" "is"] by blast
    then show "insert i (set is) \<subseteq> insert i (set ?d)" using u by blast
    show "insert i (set ?d) \<subseteq> insert i (set is)" using set_dropWhileD by fastforce
  qed
  have r: "runs_of (i # is) = (i, of_nat (Suc (length ?t))) # runs_of ?d" by simp
  have "increasing (runs_of (i # is))" unfolding r using ih above by auto
  moreover have "mset_runs (runs_of (i # is)) = mset (i # is)" unfolding r using ih count m by (simp del: of_nat_Suc)
  moreover have "fst ` set (runs_of (i # is)) = set (i # is)" unfolding r using ih s by simp
  moreover have "length (runs_of (i # is)) \<le> length (i # is)" unfolding r using ih len by simp
  ultimately show ?case by blast
qed simp

section \<open>Line ids\<close>

definition lids_wf :: "line_ids \<Rightarrow> bool" where
  "lids_wf lids \<longleftrightarrow> distinct (keys lids) \<and> map snd lids = map of_nat [0..<length lids] \<and> length lids \<le> 2 ^ 32"

definition id_of :: "line_ids \<Rightarrow> string \<Rightarrow> 32 word" where
  "id_of lids p = the (map_of lids p)"

lemma lids_wf_Nil [simp]: "lids_wf []"
  by (simp add: lids_wf_def)

lemma id_of_inj:
  assumes "lids_wf lids" shows "inj_on (id_of lids) (set (keys lids))"
proof (rule inj_onI)
  fix p q assume pq: "p \<in> set (keys lids)" "q \<in> set (keys lids)" "id_of lids p = id_of lids q"
  have inj: "inj_on (of_nat :: nat \<Rightarrow> 32 word) {..<length lids}"
  proof (rule inj_onI)
    fix x y assume xy: "x \<in> {..<length lids}" "y \<in> {..<length lids}" "(of_nat x :: 32 word) = of_nat y"
    then have "x < 2 ^ 32" "y < 2 ^ 32" using assms by (simp_all add: lids_wf_def)
    then show "x = y" using arg_cong [OF xy(3), of unat] by (simp only: unat_of_nat_views)
  qed
  have at: "id_of lids (fst (lids ! i)) = of_nat i" if "i < length lids" for i
  proof -
    have "map_of lids (fst (lids ! i)) = Some (snd (lids ! i))"
      using assms that by (intro map_of_is_SomeI) (simp_all add: lids_wf_def)
    moreover have "map snd lids ! i = of_nat i" using assms that by (simp add: lids_wf_def)
    ultimately show ?thesis using that by (simp add: id_of_def)
  qed
  obtain i j where ij: "i < length lids" "p = fst (lids ! i)" "j < length lids" "q = fst (lids ! j)"
    using pq(1,2) unfolding in_set_conv_nth by (auto simp only: length_map nth_map)
  with pq(3) at have "(of_nat i :: 32 word) = of_nat j" by simp
  then have "i = j" using inj ij(1,3) by (simp add: inj_on_def)
  with ij show "p = q" by simp
qed

lemma emplace_line_spec:
  assumes "lids_wf lids" and "length lids < 2 ^ 32" and "emplace_line lids p = (i, lids')"
  shows "lids_wf lids'" "length lids' \<le> Suc (length lids)" "map_of lids' p = Some i" "map_of lids \<subseteq>\<^sub>m map_of lids'"
proof -
  show "lids_wf lids'" using assms
    by (auto simp: emplace_line_def lids_wf_def map_of_eq_None_iff split: option.splits)
  show "length lids' \<le> Suc (length lids)" "map_of lids' p = Some i" "map_of lids \<subseteq>\<^sub>m map_of lids'"
    using assms(3) by (auto simp: emplace_line_def map_le_def map_add_def dom_def split: option.splits)
qed

lemma intern_lines_spec:
  assumes "lids_wf lids" and "length lids + length ps \<le> 2 ^ 32" and "intern_pieces lids ps = (is, lids')"
  shows "lids_wf lids' \<and> length lids' \<le> length lids + length ps \<and> map_of lids \<subseteq>\<^sub>m map_of lids' \<and>
    set ps \<subseteq> set (keys lids') \<and> is = map (id_of lids') ps"
  using assms
proof (induction ps arbitrary: lids "is")
  case (Cons p ps)
  obtain i l1 where e: "emplace_line lids p = (i, l1)" by fastforce
  obtain is2 where rest: "intern_pieces l1 ps = (is2, lids')" and "is": "is = i # is2"
    using Cons.prems(3) e by (auto simp: Let_def split: prod.splits)
  have small: "length lids < 2 ^ 32" using Cons.prems(2) by simp
  note e1 = emplace_line_spec [OF Cons.prems(1) small e]
  have "length l1 + length ps \<le> 2 ^ 32" using e1(2) Cons.prems(2) by simp
  from Cons.IH [OF e1(1) this rest] have ih: "lids_wf lids'" "length lids' \<le> length l1 + length ps" "map_of l1 \<subseteq>\<^sub>m map_of lids'"
      "set ps \<subseteq> set (keys lids')" "is2 = map (id_of lids') ps" by blast+
  have p: "map_of lids' p = Some i" using e1(3) ih(3) by (metis domI map_le_def)
  then have "p \<in> set (keys lids')" by (metis map_of_eq_None_keys option.distinct(1))
  moreover have "map_of lids \<subseteq>\<^sub>m map_of lids'" using e1(4) ih(3) by (rule map_le_trans)
  ultimately show ?case using ih e1(2) p by (simp add: "is" id_of_def)
qed simp

section \<open>Rows\<close>

definition cell_lines :: "(bool \<times> string) option \<Rightarrow> string list" where
  "cell_lines cell = (case cell of Some (False, t) \<Rightarrow> if t = [] then [] else SplitPieces t | _ \<Rightarrow> [])"

definition column_lines :: "TextColumn \<Rightarrow> nat \<Rightarrow> nat" where
  "column_lines c k = sum_list (map (\<lambda>i. length (cell_lines (text_cell c i))) [0..<k])"

definition lines_fit :: "TextColumn \<Rightarrow> TextColumn \<Rightarrow> bool" where
  "lines_fit main diff \<longleftrightarrow> column_lines main (length (tc_IsNull main)) + column_lines diff (length (tc_IsNull diff)) < 2 ^ 32"

definition cell_state :: "(bool \<times> string) option \<Rightarrow> CellState" where
  "cell_state cell = (case cell of None \<Rightarrow> NullCell | Some (True, _) \<Rightarrow> BlobCell | Some (False, t) \<Rightarrow> if t = [] then EmptyStrCell else TextCell)"

definition row_ok :: "line_ids \<Rightarrow> runs \<Rightarrow> PreparedText \<Rightarrow> (bool \<times> string) option \<Rightarrow> bool" where
  "row_ok lids runs r cell \<longleftrightarrow>
     pt_State r = cell_state cell \<and>
     (cell_state cell = TextCell \<longrightarrow>
        pt_Pieces r = length (cell_lines cell) \<and> set (cell_lines cell) \<subseteq> set (keys lids) \<and>
        unat (pt_Begin r) + unat (pt_Count r) \<le> length runs \<and>
        take (unat (pt_Count r)) (drop (unat (pt_Begin r)) runs) = runs_of (sort (map (id_of lids) (cell_lines cell))))"

lemma row_ok_grows:
  assumes "row_ok lids runs r cell" and "map_of lids \<subseteq>\<^sub>m map_of lids'"
  shows "row_ok lids' (runs @ more_runs) r cell"
proof -
  have sub: "set (keys lids) \<subseteq> set (keys lids')" using assms(2)
    by (metis dom_map_of_conv_image_fst list.set_map map_le_implies_dom_le)
  have same: "map (id_of lids') (cell_lines cell) = map (id_of lids) (cell_lines cell)" if "set (cell_lines cell) \<subseteq> set (keys lids)"
  proof (rule map_cong [OF refl])
    fix p assume "p \<in> set (cell_lines cell)"
    with that have "p \<in> dom (map_of lids)" by (metis dom_map_of_conv_image_fst list.set_map subsetD)
    then show "id_of lids' p = id_of lids p" using assms(2) by (simp add: id_of_def map_le_def)
  qed
  show ?thesis
  proof (cases "cell_state cell = TextCell")
    case True
    with assms(1) have known: "set (cell_lines cell) \<subseteq> set (keys lids)" by (simp add: row_ok_def)
    with assms(1) sub show ?thesis unfolding row_ok_def same [OF known] by auto
  qed (use assms(1) in \<open>simp add: row_ok_def\<close>)
qed

definition prep_inv :: "TextColumn \<Rightarrow> nat \<Rightarrow> nat \<Rightarrow> PreparedText list \<times> runs \<times> line_ids \<Rightarrow> bool" where
  "prep_inv c base k s \<longleftrightarrow>
     (case s of (rows, runs, lids) \<Rightarrow>
        length rows = length (tc_IsNull c) \<and> lids_wf lids \<and> length lids \<le> base + column_lines c k \<and>
        length runs \<le> column_lines c k \<and> (\<forall>i<k. row_ok lids runs (rows ! i) (text_cell c i)))"

lemma column_lines_Suc: "column_lines c (Suc k) = column_lines c k + length (cell_lines (text_cell c k))"
  by (simp add: column_lines_def)

lemma column_lines_mono: "k \<le> n \<Longrightarrow> column_lines c k \<le> column_lines c n"
  by (induction n) (auto simp: column_lines_Suc le_Suc_eq)


lemma prepare_row_inv:
  assumes inv: "prep_inv c base k s" and k: "k < length (tc_IsNull c)" and fit: "base + column_lines c (Suc k) < 2 ^ 32"
  shows "prep_inv c base (Suc k) (prepare_row c k s) \<and> map_of (snd (snd s)) \<subseteq>\<^sub>m map_of (snd (snd (prepare_row c k s)))"
proof -
  obtain rows runs lids where s: "s = (rows, runs, lids)" by (cases s) auto
  note I = inv [unfolded prep_inv_def s prod.case]
  from I have len: "length rows = length (tc_IsNull c)" "k < length rows" using k by simp_all
  have update: "\<forall>i<Suc k. row_ok lids' (runs @ more_runs) (rows[k := r] ! i) (text_cell c i)"
    if "row_ok lids' (runs @ more_runs) r (text_cell c k)" and "map_of lids \<subseteq>\<^sub>m map_of lids'" for r lids' more_runs
    using I that len by (auto simp: less_Suc_eq intro: row_ok_grows)
  show ?thesis
  proof (cases "cell_state (text_cell c k) = TextCell")
    case False
    then have c: "cell_lines (text_cell c k) = []" by (auto simp: cell_state_def cell_lines_def split: option.splits bool.splits if_splits)
    define r where "r = (rows ! k)\<lparr>pt_State := cell_state (text_cell c k)\<rparr>"
    have r: "prepare_row c k s = (rows[k := r], runs, lids)" "pt_State r = cell_state (text_cell c k)"
      using False by (cases "tc_IsNull c ! k"; cases "tc_IsBlob c ! k"; simp add: s r_def prepare_row_def text_cell_def cell_state_def split: if_splits)+
    then have "row_ok lids (runs @ []) r (text_cell c k)" using False by (simp add: row_ok_def)
    from update [OF this] I c show ?thesis unfolding r(1) by (simp add: s prep_inv_def column_lines_Suc)
  next
    case True
    then obtain t where t: "text_cell c k = Some (False, t)" "t \<noteq> []" by (auto simp: cell_state_def split: option.splits bool.splits if_splits)
    then have view: "\<not> tc_IsNull c ! k" "\<not> tc_IsBlob c ! k" "Text_View c k = t" by (auto simp: text_cell_def split: if_splits)
    let ?p = "SplitPieces t"
    have lines: "cell_lines (text_cell c k) = ?p" using t by (simp add: cell_lines_def)
    obtain ids lids' where ids: "intern_pieces lids ?p = (ids, lids')" by fastforce
    have total: "base + column_lines c k + length ?p < 2 ^ 32" using fit by (simp add: column_lines_Suc lines)
    with I have "length lids + length ?p \<le> 2 ^ 32" by linarith
    from intern_lines_spec [OF _ this ids] I have L: "lids_wf lids'" "length lids' \<le> length lids + length ?p" "map_of lids \<subseteq>\<^sub>m map_of lids'"
        "set ?p \<subseteq> set (keys lids')" "ids = map (id_of lids') ?p" by blast+
    let ?new = "runs_of (sort ids)"
    have "length (sort ids) < 2 ^ 32" using total L(5) by simp
    from runs_of_value [OF sorted_sort this] have new: "length ?new \<le> length ?p" using L(5) by simp
    define r where "r = \<lparr>pt_State = TextCell, pt_Begin = of_nat (length runs),
        pt_Count = of_nat (length (runs @ ?new)) - of_nat (length runs), pt_Pieces = length ?p\<rparr>"
    have run: "prepare_row c k s = (rows[k := r], runs @ ?new, lids')"
      by (simp add: s prepare_row_def view t(2) ids Let_def r_def)
    from I have "length runs \<le> column_lines c k" by blast
    then have small: "length runs < 2 ^ 32" "length ?new < 2 ^ 32" using total new by linarith+
    have "(of_nat (length (runs @ ?new)) :: 32 word) - of_nat (length runs) = of_nat (length ?new)" by simp
    then have "unat (pt_Begin r) = length runs" "unat (pt_Count r) = length ?new"
      using small by (simp_all only: r_def PreparedText.select_convs unat_of_nat_views)
    then have "row_ok lids' (runs @ ?new) r (text_cell c k)"
      using True L(4,5) by (simp add: row_ok_def lines) (simp add: r_def)
    from update [OF this L(3)] I L new show ?thesis unfolding run by (simp add: s prep_inv_def column_lines_Suc lines)
  qed
qed


lemma prepare_side_inv:
  assumes "lids_wf lids" and "length lids + column_lines c (length (tc_IsNull c)) < 2 ^ 32"
  shows "prep_inv c (length lids) (length (tc_IsNull c)) (prepare_side c lids) \<and> map_of lids \<subseteq>\<^sub>m map_of (snd (snd (prepare_side c lids)))"
proof -
  let ?n = "length (tc_IsNull c)"
  let ?s = "\<lambda>k. fold (prepare_row c) [0..<k] (replicate ?n empty_PreparedText, [], lids)"
  have "prep_inv c (length lids) k (?s k) \<and> map_of lids \<subseteq>\<^sub>m map_of (snd (snd (?s k)))" if "k \<le> ?n" for k
    using that
  proof (induction k)
    case 0
    then show ?case using assms(1) by (simp add: prep_inv_def column_lines_def)
  next
    case (Suc k)
    have "length lids + column_lines c (Suc k) < 2 ^ 32" using column_lines_mono [OF Suc.prems, of c] assms(2) by simp
    with Suc prepare_row_inv [of c "length lids" k "?s k"] show ?case by (auto intro: map_le_trans)
  qed
  then show ?thesis by (simp add: prepare_side_def)
qed

definition prepared_ok :: "PreparedColumn \<Rightarrow> TextColumn \<Rightarrow> TextColumn \<Rightarrow> bool" where
  "prepared_ok p main diff \<longleftrightarrow>
     lids_wf (pc_LineIds p) \<and>
     (\<forall>i<length (tc_IsNull main). row_ok (pc_LineIds p) (pc_Runs p Main_Side) (pc_Rows p Main_Side ! i) (text_cell main i)) \<and>
     (\<forall>i<length (tc_IsNull diff). row_ok (pc_LineIds p) (pc_Runs p Diff_Side) (pc_Rows p Diff_Side ! i) (text_cell diff i))"

lemma PrepareColumn_ok:
  assumes "lines_fit main diff" shows "prepared_ok (PrepareColumn main diff) main diff"
proof -
  obtain rows0 runs0 lids0 where m: "prepare_side main [] = (rows0, runs0, lids0)" by (metis prod_cases3)
  obtain rows1 runs1 lids1 where d: "prepare_side diff lids0 = (rows1, runs1, lids1)" by (metis prod_cases3)
  have fit: "column_lines main (length (tc_IsNull main)) + column_lines diff (length (tc_IsNull diff)) < 2 ^ 32"
    using assms by (simp add: lines_fit_def)
  then have M: "prep_inv main 0 (length (tc_IsNull main)) (rows0, runs0, lids0)" using prepare_side_inv [of "[]" main] by (simp add: m)
  then have l0: "lids_wf lids0" "length lids0 \<le> column_lines main (length (tc_IsNull main))" by (simp_all add: prep_inv_def)
  with fit have "length lids0 + column_lines diff (length (tc_IsNull diff)) < 2 ^ 32" by linarith
  from prepare_side_inv [OF l0(1) this] have D: "prep_inv diff (length lids0) (length (tc_IsNull diff)) (rows1, runs1, lids1)"
    "map_of lids0 \<subseteq>\<^sub>m map_of lids1" by (simp_all add: d)
  have "row_ok lids1 runs0 (rows0 ! i) (text_cell main i)" if "i < length (tc_IsNull main)" for i
    using M that row_ok_grows [OF _ D(2), of runs0 "rows0 ! i" "text_cell main i" "[]"] by (simp add: prep_inv_def)
  then show ?thesis using D(1) by (simp add: prepared_ok_def PrepareColumn_def m d prep_inv_def)
qed

text \<open>The column of a side.\<close>

definition side_of :: "'a \<Rightarrow> 'a \<Rightarrow> Side \<Rightarrow> 'a" where
  "side_of main diff side = (if side = Main_Side then main else diff)"

lemma prepared_row:
  assumes "prepared_ok p main diff" and "i < length (tc_IsNull (side_of main diff side))"
  shows "row_ok (pc_LineIds p) (pc_Runs p side) (pc_Rows p side ! i) (text_cell (side_of main diff side) i)"
  using assms by (cases side) (simp_all add: prepared_ok_def side_of_def)

definition text_or_none :: "(bool \<times> string) option \<Rightarrow> string option" where
  "text_or_none cell = map_option snd cell"

lemma side_lines_le:
  assumes "lines_fit main diff" and "i < length (tc_IsNull (side_of main diff side))"
  shows "length (cell_lines (text_cell (side_of main diff side) i)) < 2 ^ 32"
proof -
  have "length (cell_lines (text_cell (side_of main diff side) i)) \<le> column_lines (side_of main diff side) (Suc i)"
    by (simp add: column_lines_Suc)
  also have "\<dots> \<le> column_lines (side_of main diff side) (length (tc_IsNull (side_of main diff side)))"
    using assms(2) by (intro column_lines_mono) simp
  also have "\<dots> < 2 ^ 32" using assms(1) by (cases side) (simp_all add: lines_fit_def side_of_def)
  finally show ?thesis .
qed

lemma QuickPrepared_quick:
  assumes p: "prepared_ok p main diff" and fit: "lines_fit main diff"
    and a: "ra < length (tc_IsNull (side_of main diff sa))" and b: "rb < length (tc_IsNull (side_of main diff sb))"
  defines "ca \<equiv> text_cell (side_of main diff sa) ra" and "cb \<equiv> text_cell (side_of main diff sb) rb"
  assumes blob: "cell_state ca \<noteq> BlobCell" "cell_state cb \<noteq> BlobCell"
  shows "QuickPrepared p sa ra sb rb name = Inr (RatioEngine_QuickRatio (text_or_none ca) (text_or_none cb))"
proof -
  let ?A = "pc_Rows p sa ! ra" and ?B = "pc_Rows p sb ! rb" and ?l = "pc_LineIds p"
  have ok: "row_ok ?l (pc_Runs p sa) ?A ca" "row_ok ?l (pc_Runs p sb) ?B cb"
    using prepared_row [OF p a] prepared_row [OF p b] by (simp_all add: ca_def cb_def)
  show ?thesis
  proof (cases "cell_state ca = TextCell \<and> cell_state cb = TextCell")
    case False
    have "RatioEngine_QuickRatio (text_or_none ca) (text_or_none cb) = 0"
      using False blob by (auto simp: cell_state_def text_or_none_def RatioEngine_QuickRatio_def split: option.splits bool.splits if_splits)
    moreover have "pt_State ?A = cell_state ca" "pt_State ?B = cell_state cb" using ok by (simp_all add: row_ok_def)
    ultimately show ?thesis using False blob by (cases "cell_state ca"; cases "cell_state cb") (simp_all add: QuickPrepared_def)
  next
    case True
    then obtain x y where xy: "ca = Some (False, x)" "x \<noteq> []" "cb = Some (False, y)" "y \<noteq> []"
      by (auto simp: cell_state_def split: option.splits bool.splits if_splits)
    let ?x = "SplitPieces x" and ?y = "SplitPieces y"
    have lines: "cell_lines ca = ?x" "cell_lines cb = ?y" using xy by (simp_all add: cell_lines_def)
    have small: "length ?x < 2 ^ 32" "length ?y < 2 ^ 32" using side_lines_le [OF fit a] side_lines_le [OF fit b] lines by (simp_all add: ca_def cb_def)
    have known: "set ?x \<subseteq> set (keys ?l)" "set ?y \<subseteq> set (keys ?l)" using ok True lines by (simp_all add: row_ok_def)
    have runs: "row_runs p sa ?A = runs_of (sort (map (id_of ?l) ?x))" "row_runs p sb ?B = runs_of (sort (map (id_of ?l) ?y))"
      using ok True lines by (simp_all add: row_ok_def row_runs_def)
    have rv: "mset_runs (runs_of (sort (map (id_of ?l) ps))) = image_mset (id_of ?l) (mset ps) \<and> increasing (runs_of (sort (map (id_of ?l) ps)))"
      if "length ps < 2 ^ 32" for ps
      using runs_of_value [OF sorted_sort, of "map (id_of ?l) ps"] that by simp
    have "inj_on (id_of ?l) (set_mset (mset ?x) \<union> set_mset (mset ?y))"
    proof (rule inj_on_subset [OF id_of_inj])
      show "lids_wf ?l" using p by (simp add: prepared_ok_def)
      show "set_mset (mset ?x) \<union> set_mset (mset ?y) \<subseteq> set (keys ?l)" unfolding set_mset_mset using known by (rule Un_least)
    qed
    from common_image [OF this] have "merge_runs 0 (row_runs p sa ?A) (row_runs p sb ?B) = common ?x ?y"
      unfolding runs using rv [OF small(1)] rv [OF small(2)] by (simp add: merge_runs_common)
    then show ?thesis using ok True lines QuickRatio_common [OF xy(2,4)] xy
      by (simp add: QuickPrepared_def row_ok_def text_or_none_def)
  qed
qed

lemma calculate_ratio_exact:
  assumes "2 * m \<le> n" and "n \<le> 2 ^ 53"
  shows "calculate_ratio m n = fl (of_nat (2 * m) / of_nat n)" and "0 \<le> calculate_ratio m n" and "calculate_ratio m n \<le> 1"
proof -
  have f: "fl (of_nat m) = of_nat m" "fl (of_nat n) = of_nat n" "fl (of_nat (2 * m)) = of_nat (2 * m)"
    using assms by (intro fl_nat; linarith)+
  then show e: "calculate_ratio m n = fl (of_nat (2 * m) / of_nat n)"
    by (simp add: calculate_ratio_def dbl_ops)
  have "of_nat (2 * m) \<le> (of_nat n :: rat)" using assms(1) by (simp only: of_nat_le_iff)
  then have "of_nat (2 * m) / of_nat n \<le> (1 :: rat)" by (cases "n = 0") (simp_all add: divide_le_eq)
  then show "calculate_ratio m n \<le> 1" unfolding e by (rule fl_le_1)
  show "0 \<le> calculate_ratio m n" unfolding e by (rule Double.fl_nonneg) simp
qed

lemma common_le: "2 * common xs ys \<le> length xs + length ys"
proof -
  have "common xs ys \<le> size (mset xs)" "common xs ys \<le> size (mset ys)" by (intro size_mset_mono; simp)+
  then show ?thesis by simp
qed

lemma QuickRatio_bounds:
  assumes "length (SplitPieces x) + length (SplitPieces y) \<le> 2 ^ 53"
  shows "0 \<le> RatioEngine_QuickRatio (Some x) (Some y) \<and> RatioEngine_QuickRatio (Some x) (Some y) \<le> 1"
proof (cases "x = [] \<or> y = []")
  case False
  then show ?thesis using QuickRatio_common [of x y] calculate_ratio_exact [OF common_le assms] by simp
qed (auto simp: RatioEngine_QuickRatio_def)

lemma QuickPrepared_bounds:
  assumes p: "prepared_ok p main diff" and fit: "lines_fit main diff"
    and a: "ra < length (tc_IsNull (side_of main diff sa))" and b: "rb < length (tc_IsNull (side_of main diff sb))"
    and q: "QuickPrepared p sa ra sb rb name = Inr q"
  shows "0 \<le> q \<and> q \<le> 1"
proof -
  let ?ca = "text_cell (side_of main diff sa) ra" and ?cb = "text_cell (side_of main diff sb) rb"
  have st: "pt_State (pc_Rows p sa ! ra) = cell_state ?ca" "pt_State (pc_Rows p sb ! rb) = cell_state ?cb"
    using prepared_row [OF p a] prepared_row [OF p b] by (simp_all add: row_ok_def)
  show ?thesis
  proof (cases "cell_state ?ca = TextCell \<and> cell_state ?cb = TextCell")
    case False
    then show ?thesis using q st by (cases "cell_state ?ca"; cases "cell_state ?cb") (auto simp: QuickPrepared_def)
  next
    case True
    then obtain x y where xy: "?ca = Some (False, x)" "x \<noteq> []" "?cb = Some (False, y)" "y \<noteq> []"
      by (auto simp: cell_state_def split: option.splits bool.splits if_splits)
    have "length (SplitPieces x) < 2 ^ 32" "length (SplitPieces y) < 2 ^ 32"
      using side_lines_le [OF fit a] side_lines_le [OF fit b] xy by (simp_all add: cell_lines_def)
    then have "length (SplitPieces x) + length (SplitPieces y) \<le> 2 ^ 53" by simp
    from QuickRatio_bounds [OF this] QuickPrepared_quick [OF p fit a b, of name] q True xy show ?thesis
      by (simp add: text_or_none_def)
  qed
qed

section \<open>Property of the prepared columns\<close>

text \<open>C39. The prepared comparison is the direct one: on the columns prepared for two exports,
  \<^verbatim>\<open>QuickPrepared\<close> of any two rows gives 0 when a cell is NULL or empty, raises Python's \<^verbatim>\<open>TypeError\<close> when
  one is a BLOB, and otherwise returns what \<^verbatim>\<open>RatioEngine::QuickRatio\<close> computes from the two texts: twice the number
  of common lines, as multisets, over the number of lines, a value between 0 and 1.\<close>

theorem quick_prepared_is_quick_ratio:
  assumes "lines_fit main diff" and "ra < length (tc_IsNull (side_of main diff sa))" and "rb < length (tc_IsNull (side_of main diff sb))"
  shows "QuickPrepared (PrepareColumn main diff) sa ra sb rb name =
    (case (text_cell (side_of main diff sa) ra, text_cell (side_of main diff sb) rb) of
       (Some (blob_a, x), Some (blob_b, y)) \<Rightarrow>
         if \<not> blob_a \<and> x = [] \<or> \<not> blob_b \<and> y = [] then Inr 0
         else if blob_a \<or> blob_b
         then Inl (DiaphoraWouldRaise ''D:163 quick_ratio''
                (''TypeError: a bytes-like object is required, not '' @ quote @ ''str'' @ quote @ '' (BLOB in '' @ name @ '')''))
         else Inr (RatioEngine_QuickRatio (Some x) (Some y))
     | _ \<Rightarrow> Inr 0) \<and>
    (\<forall>x y. x \<noteq> [] \<and> y \<noteq> [] \<longrightarrow> RatioEngine_QuickRatio (Some x) (Some y) =
       calculate_ratio (size (mset (SplitPieces x) \<inter># mset (SplitPieces y))) (length (SplitPieces x) + length (SplitPieces y))) \<and>
    (\<forall>q. QuickPrepared (PrepareColumn main diff) sa ra sb rb name = Inr q \<longrightarrow> 0 \<le> q \<and> q \<le> 1)"
proof (intro conjI allI impI)
  let ?p = "PrepareColumn main diff"
  let ?ca = "text_cell (side_of main diff sa) ra" and ?cb = "text_cell (side_of main diff sb) rb"
  note p = PrepareColumn_ok [OF assms(1)]
  have st: "pt_State (pc_Rows ?p sa ! ra) = cell_state ?ca" "pt_State (pc_Rows ?p sb ! rb) = cell_state ?cb"
    using prepared_row [OF p assms(2)] prepared_row [OF p assms(3)] by (simp_all add: row_ok_def)
  show "QuickPrepared ?p sa ra sb rb name =
    (case (?ca, ?cb) of
       (Some (blob_a, x), Some (blob_b, y)) \<Rightarrow>
         if \<not> blob_a \<and> x = [] \<or> \<not> blob_b \<and> y = [] then Inr 0
         else if blob_a \<or> blob_b
         then Inl (DiaphoraWouldRaise ''D:163 quick_ratio''
                (''TypeError: a bytes-like object is required, not '' @ quote @ ''str'' @ quote @ '' (BLOB in '' @ name @ '')''))
         else Inr (RatioEngine_QuickRatio (Some x) (Some y))
     | _ \<Rightarrow> Inr 0)"
  proof (cases "cell_state ?ca = BlobCell \<or> cell_state ?cb = BlobCell")
    case True
    then show ?thesis using st
      by (auto simp: QuickPrepared_def cell_state_def split: option.splits bool.splits if_splits)
  next
    case False
    then have "QuickPrepared ?p sa ra sb rb name = Inr (RatioEngine_QuickRatio (text_or_none ?ca) (text_or_none ?cb))"
      by (intro QuickPrepared_quick [OF p assms]) simp_all
    then show ?thesis using False
      by (auto simp: text_or_none_def cell_state_def RatioEngine_QuickRatio_def split: option.splits bool.splits if_splits)
  qed
next
  fix x y :: string assume "x \<noteq> [] \<and> y \<noteq> []"
  then show "RatioEngine_QuickRatio (Some x) (Some y) =
       calculate_ratio (size (mset (SplitPieces x) \<inter># mset (SplitPieces y))) (length (SplitPieces x) + length (SplitPieces y))"
    using QuickRatio_common by blast
next
  fix q assume "QuickPrepared (PrepareColumn main diff) sa ra sb rb name = Inr q"
  then show "0 \<le> q" "q \<le> 1" using QuickPrepared_bounds [OF PrepareColumn_ok [OF assms(1)] assms] by blast+
qed

theorem quick_prepared_witness:
  "QuickPrepared (PrepareColumn (Text_Append empty_TextColumn ''ab'' False) (Text_Append empty_TextColumn ''cd'' False)) Main_Side 0 Diff_Side 0 ''x'' =
     Inr (RatioEngine_QuickRatio (Some ''ab'') (Some ''cd''))"
proof -
  let ?c = "Text_Append empty_TextColumn ''ab'' False" and ?d = "Text_Append empty_TextColumn ''cd'' False"
  have cells: "text_cell ?c 0 = Some (False, ''ab'')" "text_cell ?d 0 = Some (False, ''cd'')" "length (tc_IsNull ?c) = 1" "length (tc_IsNull ?d) = 1"
    by (simp_all add: text_cell_def Text_Append_def Text_View_def empty_TextColumn_def)
  have "SplitPieces ''ab'' = [''ab'']" "SplitPieces ''cd'' = [''cd'']" by (simp_all add: SplitPieces.simps)
  then have "lines_fit ?c ?d" by (simp add: lines_fit_def column_lines_def cells cell_lines_def)
  from quick_prepared_is_quick_ratio [OF this, of 0 Main_Side 0 Diff_Side "''x''"] show ?thesis by (simp add: side_of_def cells)
qed

end
