(* ===== verification/RatioCache.thy ===== *)
theory RatioCache
  imports Interning BigUInt
begin

text \<open>
  The ratio cache of \<^verbatim>\<open>src/diff/Ratio.cpp\<close>. Python keys \<^verbatim>\<open>ratios_cache\<close> by the text
  \<^verbatim>\<open>f"{ea1}-{ea2}"\<close>; the engine keys a pair of plain addresses by their ids and every other pair by the text. The
  theory shows that the two maps together are Python's dictionary: same hits, same insertion order, first writer wins.

  \<^verbatim>\<open>SimpleById\<close>, which remembers per address whether it is plain, is part of the state; \<^verbatim>\<open>Find\<close>
  updates it although it is \<^verbatim>\<open>const\<close>.
\<close>

unbundle bit_operations_syntax

section \<open>The cache\<close>

record CacheEntry =
  ce_Ea1 :: AddrId
  ce_Ea2 :: AddrId
  ce_Ratio :: double

record Cache =
  ch_ById :: "(64 word \<times> 32 word) list"
  ch_ByText :: "(string \<times> 32 word) list"
  ch_Entries :: "CacheEntry list"
  ch_SimpleById :: "int list"

definition empty_Cache :: Cache where
  "empty_Cache = \<lparr>ch_ById = [], ch_ByText = [], ch_Entries = [], ch_SimpleById = []\<rparr>"

definition ClearCache :: "Cache \<Rightarrow> Cache" where
  "ClearCache c = c\<lparr>ch_ById := [], ch_ByText := [], ch_Entries := []\<rparr>"

definition SimpleAddr :: "Interners \<Rightarrow> Cache \<Rightarrow> AddrId \<Rightarrow> bool result \<times> Cache" where
  "SimpleAddr ids c i =
     (if i = kNoneAddr then (Inr False, c)
      else
        (let index = unat i;
             memo = (if index \<ge> length (ch_SimpleById c)
                     then ch_SimpleById c @ replicate (index + 1024 - length (ch_SimpleById c)) (- 1) else ch_SimpleById c)
         in if memo ! index < 0
            then (case AddrText ids i of
                    Inl e \<Rightarrow> (Inl e, c\<lparr>ch_SimpleById := memo\<rparr>)
                  | Inr t \<Rightarrow>
                      (let v = (if t \<noteq> ''None'' \<and> CHR ''-'' \<notin> set t then 1 else 0)
                       in (Inr (v = 1), c\<lparr>ch_SimpleById := memo[index := v]\<rparr>)))
            else (Inr (memo ! index = 1), c\<lparr>ch_SimpleById := memo\<rparr>)))"

text \<open>\<^verbatim>\<open>SimpleAddr(Ea1) && SimpleAddr(Ea2)\<close>\<close>

definition both_simple :: "Interners \<Rightarrow> Cache \<Rightarrow> AddrId \<Rightarrow> AddrId \<Rightarrow> bool result \<times> Cache" where
  "both_simple ids c a b =
     (case SimpleAddr ids c a of
        (Inl e, c1) \<Rightarrow> (Inl e, c1)
      | (Inr s, c1) \<Rightarrow> if s then SimpleAddr ids c1 b else (Inr False, c1))"

definition IdKey :: "AddrId \<Rightarrow> AddrId \<Rightarrow> 64 word" where
  "IdKey a b = push_bit 32 (ucast a) OR ucast b"

definition TextKey :: "Interners \<Rightarrow> AddrId \<Rightarrow> AddrId \<Rightarrow> string result" where
  "TextKey ids a b =
     bindE (AddrKeyText ids a) (\<lambda>s. bindE (AddrKeyText ids b) (\<lambda>t. Inr (s @ ''-'' @ t)))"

definition Cache_Find :: "Interners \<Rightarrow> Cache \<Rightarrow> AddrId \<Rightarrow> AddrId \<Rightarrow> double option result \<times> Cache" where
  "Cache_Find ids c a b =
     (case both_simple ids c a b of
        (Inl e, c1) \<Rightarrow> (Inl e, c1)
      | (Inr s, c1) \<Rightarrow>
          if s then (Inr (map_option (\<lambda>i. ce_Ratio (ch_Entries c1 ! unat i)) (map_of (ch_ById c1) (IdKey a b))), c1)
          else (bindE (TextKey ids a b)
                  (\<lambda>k. Inr (map_option (\<lambda>i. ce_Ratio (ch_Entries c1 ! unat i)) (map_of (ch_ByText c1) k))), c1))"

text \<open>\<^verbatim>\<open>emplace\<close>: inserts only a new key.\<close>

definition emplace :: "'k \<Rightarrow> 'v \<Rightarrow> ('k \<times> 'v) list \<Rightarrow> ('k \<times> 'v) list \<times> bool" where
  "emplace k v m = (case map_of m k of None \<Rightarrow> (m @ [(k, v)], True) | Some _ \<Rightarrow> (m, False))"

definition Cache_Store :: "Interners \<Rightarrow> Cache \<Rightarrow> AddrId \<Rightarrow> AddrId \<Rightarrow> double \<Rightarrow> unit result \<times> Cache" where
  "Cache_Store ids c a b ratio =
     (let index = of_nat (length (ch_Entries c)); entry = \<lparr>ce_Ea1 = a, ce_Ea2 = b, ce_Ratio = ratio\<rparr>
      in case both_simple ids c a b of
           (Inl e, c1) \<Rightarrow> (Inl e, c1)
         | (Inr s, c1) \<Rightarrow>
             if s
             then (let (m, inserted) = emplace (IdKey a b) index (ch_ById c1)
                   in (Inr (), c1\<lparr>ch_ById := m, ch_Entries := ch_Entries c1 @ (if inserted then [entry] else [])\<rparr>))
             else (case TextKey ids a b of
                     Inl e \<Rightarrow> (Inl e, c1)
                   | Inr k \<Rightarrow>
                       (let (m, inserted) = emplace k index (ch_ByText c1)
                        in (Inr (), c1\<lparr>ch_ByText := m, ch_Entries := ch_Entries c1 @ (if inserted then [entry] else [])\<rparr>))))"

section \<open>Keys\<close>

definition plain_addr :: "Interners \<Rightarrow> AddrId \<Rightarrow> bool" where
  "plain_addr ids a \<longleftrightarrow> a \<noteq> kNoneAddr \<and> (case AddrText ids a of Inr t \<Rightarrow> t \<noteq> ''None'' \<and> CHR ''-'' \<notin> set t | Inl _ \<Rightarrow> False)"

definition plain_pair :: "Interners \<Rightarrow> AddrId \<Rightarrow> AddrId \<Rightarrow> bool" where
  "plain_pair ids a b \<longleftrightarrow> plain_addr ids a \<and> plain_addr ids b"

definition py_key :: "Interners \<Rightarrow> AddrId \<Rightarrow> AddrId \<Rightarrow> string" where
  "py_key ids a b = (case TextKey ids a b of Inr k \<Rightarrow> k | Inl _ \<Rightarrow> [])"

definition known_pair :: "Interners \<Rightarrow> AddrId \<Rightarrow> AddrId \<Rightarrow> bool" where
  "known_pair ids a b \<longleftrightarrow> known_addr ids a \<and> known_addr ids b"

lemma TextKey_known: "known_pair ids a b \<Longrightarrow> TextKey ids a b = Inr (py_key ids a b)"
  by (auto simp: known_pair_def known_addr_iff py_key_def TextKey_def)

lemma dash_split:
  assumes "s @ ''-'' @ t = s' @ ''-'' @ t'" and "CHR ''-'' \<notin> set s" and "CHR ''-'' \<notin> set t"
  shows "s = s' \<and> t = t'"
proof -
  have "count_list (s @ ''-'' @ t) (CHR ''-'') = 1" using assms(2,3) by (simp add: count_list_0_iff)
  then have "count_list (s' @ ''-'' @ t') (CHR ''-'') = 1" unfolding assms(1) .
  then have s': "CHR ''-'' \<notin> set s'" by (simp add: count_list_0_iff)
  have "takeWhile (\<lambda>c. c \<noteq> CHR ''-'') (u @ ''-'' @ v) = u" if "CHR ''-'' \<notin> set u" for u v
    using that by (induction u) auto
  with assms(1,2) s' have "s = s'" by metis
  with assms(1) show ?thesis by simp
qed

text \<open>A pair of plain addresses shares its text with no other pair.\<close>

lemma plain_key_unique:
  assumes wf: "addrs_wf ids" and p: "plain_pair ids a b" and k: "known_pair ids c d" and eq: "py_key ids a b = py_key ids c d"
  shows "a = c \<and> b = d"
proof -
  obtain s t where st: "AddrText ids a = Inr s" "AddrText ids b = Inr t" "s \<noteq> ''None''" "t \<noteq> ''None''"
      "CHR ''-'' \<notin> set s" "CHR ''-'' \<notin> set t" and ab: "a \<noteq> kNoneAddr" "b \<noteq> kNoneAddr"
    using p by (auto simp: plain_pair_def plain_addr_def split: sum.splits)
  then have key: "AddrKeyText ids a = Inr s" "AddrKeyText ids b = Inr t" by (simp_all add: AddrText_def AddrKeyText_def)
  obtain s' t' where key': "AddrKeyText ids c = Inr s'" "AddrKeyText ids d = Inr t'"
    using k by (auto simp: known_pair_def known_addr_iff)
  have "s @ ''-'' @ t = s' @ ''-'' @ t'" using eq key key' by (simp add: py_key_def TextKey_def)
  from dash_split [OF this st(5,6)] have same: "s' = s" "t' = t" by simp_all
  have "c \<noteq> kNoneAddr" "d \<noteq> kNoneAddr" using same key' st(3,4) by (auto simp: AddrKeyText_def)
  then have "AddrOrNone ids c = Inr (Some s)" "AddrOrNone ids d = Inr (Some t)" "AddrOrNone ids a = Inr (Some s)" "AddrOrNone ids b = Inr (Some t)"
    using key key' same ab by (simp_all add: AddrOrNone_def AddrKeyText_def)
  then show ?thesis using addrs.text_inj [OF wf] by metis
qed

lemma IdKey_inj: "IdKey a b = IdKey c d \<longleftrightarrow> a = c \<and> b = d"
proof
  assume eq: "IdKey a b = IdKey c d"
  have "take_bit 32 (IdKey x y) = ucast y" "drop_bit 32 (IdKey x y) = ucast x" for x y :: AddrId
    unfolding IdKey_def by (rule bit_word_eqI, auto simp: bit_simps dest: bit_imp_le_length)+
  then have "(ucast a :: 64 word) = ucast c" "(ucast b :: 64 word) = ucast d" using eq by metis+
  then have "unat a = unat c" "unat b = unat d" by (metis unat_ucast64)+
  then show "a = c \<and> b = d" by (simp add: word_unat_eq_iff)
qed simp

section \<open>The dictionary\<close>

definition cache_dict :: "Interners \<Rightarrow> Cache \<Rightarrow> (string \<times> double) list" where
  "cache_dict ids c = map (\<lambda>e. (py_key ids (ce_Ea1 e) (ce_Ea2 e), ce_Ratio e)) (ch_Entries c)"

definition entry_at :: "Cache \<Rightarrow> nat \<Rightarrow> AddrId \<Rightarrow> AddrId \<Rightarrow> bool" where
  "entry_at c i a b \<longleftrightarrow> i < length (ch_Entries c) \<and> ce_Ea1 (ch_Entries c ! i) = a \<and> ce_Ea2 (ch_Entries c ! i) = b"

definition memo_ok :: "Interners \<Rightarrow> int list \<Rightarrow> bool" where
  "memo_ok ids memo \<longleftrightarrow>
     (\<forall>i<length memo. memo ! i < 0 \<or> memo ! i = (if plain_addr ids (of_nat i) then 1 else 0) \<and> known_addr ids (of_nat i))"

definition cache_wf :: "Interners \<Rightarrow> Cache \<Rightarrow> bool" where
  "cache_wf ids c \<longleftrightarrow>
     addrs_wf ids \<and> memo_ok ids (ch_SimpleById c) \<and> length (ch_Entries c) \<le> 2 ^ 32 \<and>
     (\<forall>e\<in>set (ch_Entries c). known_pair ids (ce_Ea1 e) (ce_Ea2 e)) \<and> distinct (keys (cache_dict ids c)) \<and>
     (\<forall>a b r. map_of (ch_ById c) (IdKey a b) = Some r \<longleftrightarrow> plain_pair ids a b \<and> entry_at c (unat r) a b) \<and>
     (\<forall>k r. map_of (ch_ByText c) k = Some r \<longleftrightarrow>
        (\<exists>a b. entry_at c (unat r) a b \<and> \<not> plain_pair ids a b \<and> py_key ids a b = k))"

lemma cache_wf_empty: "addrs_wf ids \<Longrightarrow> cache_wf ids empty_Cache"
  by (simp add: cache_wf_def empty_Cache_def memo_ok_def cache_dict_def entry_at_def)

lemma SimpleAddr_spec:
  assumes "memo_ok ids (ch_SimpleById c)" and "known_addr ids a"
  shows "\<exists>memo. SimpleAddr ids c a = (Inr (plain_addr ids a), c\<lparr>ch_SimpleById := memo\<rparr>) \<and> memo_ok ids memo"
proof (cases "a = kNoneAddr")
  case True
  then show ?thesis using assms(1) by (intro exI [of _ "ch_SimpleById c"]) (simp add: SimpleAddr_def plain_addr_def)
next
  case False
  let ?i = "unat a" and ?old = "ch_SimpleById c"
  define memo where "memo = (if ?i \<ge> length ?old then ?old @ replicate (?i + 1024 - length ?old) (- 1) else ?old)"
  have ok: "memo_ok ids memo" using assms(1) by (auto simp: memo_ok_def memo_def nth_append)
  have i: "?i < length memo" by (simp add: memo_def)
  have same: "of_nat ?i = a" by simp
  obtain t where t: "AddrText ids a = Inr t" using assms(2) False by (auto simp: known_addr_iff AddrText_def AddrKeyText_def)
  have plain: "plain_addr ids a \<longleftrightarrow> t \<noteq> ''None'' \<and> CHR ''-'' \<notin> set t" using False t by (simp add: plain_addr_def)
  show ?thesis
  proof (cases "memo ! ?i < 0")
    case True
    let ?v = "if t \<noteq> ''None'' \<and> CHR ''-'' \<notin> set t then 1 else 0 :: int"
    have "memo_ok ids (memo[?i := ?v])" using ok assms(2) i plain by (auto simp: memo_ok_def nth_list_update)
    moreover have "SimpleAddr ids c a = (Inr (plain_addr ids a), c\<lparr>ch_SimpleById := memo[?i := ?v]\<rparr>)"
      using True False t plain by (simp add: SimpleAddr_def Let_def memo_def [symmetric])
    ultimately show ?thesis by blast
  next
    case seen: False
    then have "memo ! ?i = (if plain_addr ids a then 1 else 0)" using ok i same by (auto simp: memo_ok_def)
    then have "SimpleAddr ids c a = (Inr (plain_addr ids a), c\<lparr>ch_SimpleById := memo\<rparr>)"
      using False seen by (simp add: SimpleAddr_def Let_def memo_def [symmetric])
    then show ?thesis using ok by blast
  qed
qed

lemma both_simple_spec:
  assumes "memo_ok ids (ch_SimpleById c)" and "known_pair ids a b"
  shows "\<exists>memo. both_simple ids c a b = (Inr (plain_pair ids a b), c\<lparr>ch_SimpleById := memo\<rparr>) \<and> memo_ok ids memo"
proof -
  obtain m1 where m1: "SimpleAddr ids c a = (Inr (plain_addr ids a), c\<lparr>ch_SimpleById := m1\<rparr>)" "memo_ok ids m1"
    using SimpleAddr_spec [OF assms(1), of a] assms(2) by (auto simp: known_pair_def)
  obtain m2 where "SimpleAddr ids (c\<lparr>ch_SimpleById := m1\<rparr>) b = (Inr (plain_addr ids b), c\<lparr>ch_SimpleById := m2\<rparr>)" "memo_ok ids m2"
    using SimpleAddr_spec [of ids "c\<lparr>ch_SimpleById := m1\<rparr>" b] m1 assms by (auto simp: known_pair_def)
  with m1 show ?thesis by (cases "plain_addr ids a") (auto simp: both_simple_def plain_pair_def)
qed

lemma cache_wf_memo: "cache_wf ids c \<Longrightarrow> memo_ok ids memo \<Longrightarrow> cache_wf ids (c\<lparr>ch_SimpleById := memo\<rparr>)"
  by (simp add: cache_wf_def cache_dict_def entry_at_def)

lemma cache_dict_memo [simp]: "cache_dict ids (c\<lparr>ch_SimpleById := memo\<rparr>) = cache_dict ids c"
  by (simp add: cache_dict_def)

lemma dict_lookup:
  assumes "cache_wf ids c" and "entry_at c i a b"
  shows "map_of (cache_dict ids c) (py_key ids a b) = Some (ce_Ratio (ch_Entries c ! i))"
proof (rule map_of_is_SomeI)
  show "distinct (keys (cache_dict ids c))" using assms(1) by (simp add: cache_wf_def)
  show "(py_key ids a b, ce_Ratio (ch_Entries c ! i)) \<in> set (cache_dict ids c)"
    using assms(2) by (auto simp: cache_dict_def entry_at_def)
qed

lemma dict_missing:
  assumes "map_of (cache_dict ids c) k \<noteq> None"
  shows "\<exists>i a b. entry_at c i a b \<and> py_key ids a b = k"
proof -
  from assms obtain e where "e \<in> set (ch_Entries c)" "py_key ids (ce_Ea1 e) (ce_Ea2 e) = k"
    by (auto simp: cache_dict_def map_of_eq_None_iff)
  then show ?thesis by (auto simp: entry_at_def in_set_conv_nth)
qed

text \<open>Both maps answer with Python's dictionary.\<close>

definition slot_of :: "Interners \<Rightarrow> Cache \<Rightarrow> AddrId \<Rightarrow> AddrId \<Rightarrow> 32 word option" where
  "slot_of ids c a b = (if plain_pair ids a b then map_of (ch_ById c) (IdKey a b) else map_of (ch_ByText c) (py_key ids a b))"

lemma slot_of_Some:
  assumes "cache_wf ids c" and "slot_of ids c a b = Some r"
  shows "\<exists>a' b'. entry_at c (unat r) a' b' \<and> py_key ids a' b' = py_key ids a b"
proof (cases "plain_pair ids a b")
  case True
  with assms have "entry_at c (unat r) a b" unfolding cache_wf_def slot_of_def by auto
  then show ?thesis by blast
next
  case False
  with assms have "map_of (ch_ByText c) (py_key ids a b) = Some r" by (simp only: slot_of_def if_False)
  with assms(1) show ?thesis unfolding cache_wf_def by blast
qed

lemma slot_of_None:
  assumes wf: "cache_wf ids c" and k: "known_pair ids a b" and none: "slot_of ids c a b = None"
  shows "map_of (cache_dict ids c) (py_key ids a b) = None"
proof (rule ccontr)
  assume "map_of (cache_dict ids c) (py_key ids a b) \<noteq> None"
  then obtain i a' b' where e: "entry_at c i a' b'" "py_key ids a' b' = py_key ids a b" using dict_missing by blast
  have i: "i < 2 ^ 32" using e(1) wf by (simp add: entry_at_def cache_wf_def)
  then have u: "unat (of_nat i :: 32 word) = i" by (rule unat_of_nat_views)
  have k': "known_pair ids a' b'" using e(1) wf by (auto simp: entry_at_def cache_wf_def)
  have aw: "addrs_wf ids" using wf by (simp add: cache_wf_def)
  show False
  proof (cases "plain_pair ids a b")
    case True
    with plain_key_unique [OF aw True k'] e(2) have "a' = a" "b' = b" by simp_all
    with e(1) u have "entry_at c (unat (of_nat i :: 32 word)) a b" by simp
    with wf True have "map_of (ch_ById c) (IdKey a b) = Some (of_nat i)" unfolding cache_wf_def by blast
    with none True show False by (simp add: slot_of_def)
  next
    case False
    have "\<not> plain_pair ids a' b'"
    proof
      assume p: "plain_pair ids a' b'"
      from plain_key_unique [OF aw p k e(2)] False p show False by simp
    qed
    with e u have "entry_at c (unat (of_nat i :: 32 word)) a' b' \<and> \<not> plain_pair ids a' b' \<and> py_key ids a' b' = py_key ids a b" by simp
    with wf have "map_of (ch_ByText c) (py_key ids a b) = Some (of_nat i)" unfolding cache_wf_def by blast
    with none False show False by (simp only: slot_of_def if_False) simp
  qed
qed

lemma slot_lookup:
  assumes "cache_wf ids c" and "known_pair ids a b"
  shows "map_option (\<lambda>i. ce_Ratio (ch_Entries c ! unat i)) (slot_of ids c a b) = map_of (cache_dict ids c) (py_key ids a b)"
proof (cases "slot_of ids c a b")
  case None
  then show ?thesis using slot_of_None [OF assms] by simp
next
  case (Some r)
  from slot_of_Some [OF assms(1) this] obtain a' b' where "entry_at c (unat r) a' b'" "py_key ids a' b' = py_key ids a b" by blast
  with dict_lookup [OF assms(1) this(1)] Some show ?thesis by simp
qed

lemma Cache_Find_spec:
  assumes wf: "cache_wf ids c" and k: "known_pair ids a b"
  shows "fst (Cache_Find ids c a b) = Inr (map_of (cache_dict ids c) (py_key ids a b)) \<and>
    cache_wf ids (snd (Cache_Find ids c a b)) \<and> cache_dict ids (snd (Cache_Find ids c a b)) = cache_dict ids c"
proof -
  have "memo_ok ids (ch_SimpleById c)" using wf by (simp add: cache_wf_def)
  from both_simple_spec [OF this k] obtain memo where m: "both_simple ids c a b = (Inr (plain_pair ids a b), c\<lparr>ch_SimpleById := memo\<rparr>)"
      "memo_ok ids memo" by blast
  have "Cache_Find ids c a b = (Inr (map_option (\<lambda>i. ce_Ratio (ch_Entries c ! unat i)) (slot_of ids c a b)), c\<lparr>ch_SimpleById := memo\<rparr>)"
    by (simp only: Cache_Find_def m(1) prod.case sum.case slot_of_def TextKey_known [OF k] bindE_Inr split: if_split) simp
  then show ?thesis using slot_lookup [OF wf k] cache_wf_memo [OF wf m(2)] by simp
qed

section \<open>Storing\<close>

definition add_entry :: "Interners \<Rightarrow> Cache \<Rightarrow> AddrId \<Rightarrow> AddrId \<Rightarrow> double \<Rightarrow> Cache" where
  "add_entry ids c a b ratio =
     (let i = of_nat (length (ch_Entries c)); c1 = c\<lparr>ch_Entries := ch_Entries c @ [\<lparr>ce_Ea1 = a, ce_Ea2 = b, ce_Ratio = ratio\<rparr>]\<rparr>
      in if plain_pair ids a b then c1\<lparr>ch_ById := ch_ById c @ [(IdKey a b, i)]\<rparr>
         else c1\<lparr>ch_ByText := ch_ByText c @ [(py_key ids a b, i)]\<rparr>)"

lemma entry_at_add:
  "entry_at (add_entry ids c a b ratio) i x y \<longleftrightarrow> entry_at c i x y \<or> i = length (ch_Entries c) \<and> x = a \<and> y = b"
  by (auto simp: add_entry_def Let_def entry_at_def nth_append less_Suc_eq)

lemma map_of_snoc: "map_of (m @ [(k, v)]) q = (case map_of m q of Some x \<Rightarrow> Some x | None \<Rightarrow> if q = k then Some v else None)"
  by (simp add: map_add_def split: option.splits)

lemma add_entry_wf:
  assumes wf: "cache_wf ids c" and k: "known_pair ids a b" and none: "slot_of ids c a b = None" and room: "length (ch_Entries c) < 2 ^ 32"
  shows "cache_wf ids (add_entry ids c a b ratio) \<and>
    cache_dict ids (add_entry ids c a b ratio) = cache_dict ids c @ [(py_key ids a b, ratio)]"
proof -
  let ?c = "add_entry ids c a b ratio" and ?i = "of_nat (length (ch_Entries c)) :: 32 word"
  have u: "unat r = length (ch_Entries c) \<longleftrightarrow> r = ?i" for r :: "32 word"
    using unat_of_nat_views [OF room] by (auto simp: word_unat_eq_iff)
  have dict: "cache_dict ids ?c = cache_dict ids c @ [(py_key ids a b, ratio)]" by (simp add: add_entry_def Let_def cache_dict_def)
  have fresh: "py_key ids a b \<notin> set (keys (cache_dict ids c))" using slot_of_None [OF wf k none] by (simp add: map_of_eq_None_iff)
  have old: "\<not> entry_at c i x y" if "py_key ids x y = py_key ids a b" for i x y
    using dict_lookup [OF wf, of i x y] slot_of_None [OF wf k none] that by auto
  have byid: "map_of (ch_ById ?c) (IdKey x y) = Some r \<longleftrightarrow> plain_pair ids x y \<and> entry_at ?c (unat r) x y" for x y r
  proof -
    have o: "map_of (ch_ById c) (IdKey x y) = Some r' \<longleftrightarrow> plain_pair ids x y \<and> entry_at c (unat r') x y" for r'
      using wf unfolding cache_wf_def by blast
    show ?thesis
    proof (cases "plain_pair ids a b \<and> x = a \<and> y = b")
      case True
      then have "map_of (ch_ById c) (IdKey x y) = None" using none by (simp add: slot_of_def)
      moreover have "ch_ById ?c = ch_ById c @ [(IdKey a b, ?i)]" using True by (simp add: add_entry_def Let_def)
      ultimately show ?thesis using True old [of a b] by (auto simp: entry_at_add u map_of_snoc simp del: map_of_append)
    next
      case False
      then have "map_of (ch_ById ?c) (IdKey x y) = map_of (ch_ById c) (IdKey x y)"
        by (auto simp: add_entry_def Let_def map_of_snoc IdKey_inj simp del: map_of_append split: option.splits)
      then show ?thesis using o False by (auto simp: entry_at_add)
    qed
  qed
  have bytext: "map_of (ch_ByText ?c) q = Some r \<longleftrightarrow>
      (\<exists>x y. entry_at ?c (unat r) x y \<and> \<not> plain_pair ids x y \<and> py_key ids x y = q)" for q r
  proof -
    have o: "map_of (ch_ByText c) q = Some r' \<longleftrightarrow>
        (\<exists>x y. entry_at c (unat r') x y \<and> \<not> plain_pair ids x y \<and> py_key ids x y = q)" for r' using wf unfolding cache_wf_def by blast
    show ?thesis
    proof (cases "plain_pair ids a b")
      case True
      then have "ch_ByText ?c = ch_ByText c" by (simp add: add_entry_def Let_def)
      then show ?thesis unfolding o entry_at_add using True o by auto
    next
      case False
      then have m: "ch_ByText ?c = ch_ByText c @ [(py_key ids a b, ?i)]" by (auto simp: add_entry_def Let_def)
      have n: "map_of (ch_ByText c) (py_key ids a b) = None" using none False by (simp only: slot_of_def if_False)
      show ?thesis
      proof (cases "q = py_key ids a b")
        case True
        then show ?thesis using False n u old by (auto simp: m map_of_snoc entry_at_add simp del: map_of_append)
      next
        case other: False
        then have "map_of (ch_ByText ?c) q = map_of (ch_ByText c) q" by (simp add: m map_of_snoc del: map_of_append split: option.splits)
        then show ?thesis using o other by (auto simp: entry_at_add)
      qed
    qed
  qed
  have rest: "ch_SimpleById ?c = ch_SimpleById c" "ch_Entries ?c = ch_Entries c @ [\<lparr>ce_Ea1 = a, ce_Ea2 = b, ce_Ratio = ratio\<rparr>]"
    by (simp_all add: add_entry_def Let_def)
  have "distinct (keys (cache_dict ids ?c))" using wf fresh unfolding dict cache_wf_def by simp
  moreover have "\<forall>e\<in>set (ch_Entries ?c). known_pair ids (ce_Ea1 e) (ce_Ea2 e)" using wf k unfolding rest cache_wf_def by simp
  moreover have "length (ch_Entries ?c) \<le> 2 ^ 32" "memo_ok ids (ch_SimpleById ?c)" "addrs_wf ids" using wf room unfolding rest cache_wf_def by simp_all
  ultimately show ?thesis using byid bytext dict unfolding cache_wf_def by blast
qed

lemma Cache_Store_spec:
  assumes wf: "cache_wf ids c" and k: "known_pair ids a b" and room: "length (ch_Entries c) < 2 ^ 32"
  shows "fst (Cache_Store ids c a b ratio) = Inr () \<and> cache_wf ids (snd (Cache_Store ids c a b ratio)) \<and>
    cache_dict ids (snd (Cache_Store ids c a b ratio)) =
      (if py_key ids a b \<in> set (keys (cache_dict ids c)) then cache_dict ids c else cache_dict ids c @ [(py_key ids a b, ratio)])"
proof -
  have "memo_ok ids (ch_SimpleById c)" using wf by (simp add: cache_wf_def)
  from both_simple_spec [OF this k] obtain memo where m: "both_simple ids c a b = (Inr (plain_pair ids a b), c\<lparr>ch_SimpleById := memo\<rparr>)"
      "memo_ok ids memo" by blast
  let ?c = "c\<lparr>ch_SimpleById := memo\<rparr>"
  have wf': "cache_wf ids ?c" using cache_wf_memo [OF wf m(2)] .
  have slot: "slot_of ids ?c a b = slot_of ids c a b" by (simp add: slot_of_def)
  show ?thesis
  proof (cases "slot_of ids c a b")
    case None
    then have "Cache_Store ids c a b ratio = (Inr (), add_entry ids ?c a b ratio)"
      by (cases "plain_pair ids a b")
         (simp_all add: Cache_Store_def m(1) Let_def slot_of_def emplace_def add_entry_def TextKey_known [OF k] split: if_splits)
    moreover have "py_key ids a b \<notin> set (keys (cache_dict ids c))"
      using slot_of_None [OF wf k None] by (simp add: map_of_eq_None_iff)
    moreover have "length (ch_Entries ?c) < 2 ^ 32" using room by simp
    ultimately show ?thesis using add_entry_wf [OF wf' k, of ratio] None slot by simp
  next
    case (Some r)
    then have "Cache_Store ids c a b ratio = (Inr (), ?c)"
      by (cases "plain_pair ids a b")
         (simp_all add: Cache_Store_def m(1) Let_def slot_of_def emplace_def TextKey_known [OF k] split: if_splits)
    moreover have "py_key ids a b \<in> set (keys (cache_dict ids c))"
      using slot_lookup [OF wf k] Some by (metis map_of_eq_None_keys option.simps(9) option.distinct(1))
    ultimately show ?thesis using wf' by simp
  qed
qed

section \<open>The interface of the cache\<close>

text \<open>What \<^verbatim>\<open>check_ratio\<close> needs: a dictionary that keeps the first value written under a key. \<open>key\<close> is the
  dictionary key of a query, \<open>ok\<close> the queries the client makes.\<close>

locale first_writer_dict =
  fixes find :: "'s \<Rightarrow> 'q \<Rightarrow> 'v option result \<times> 's" and store :: "'s \<Rightarrow> 'q \<Rightarrow> 'v \<Rightarrow> unit result \<times> 's"
    and invar :: "'s \<Rightarrow> bool" and room :: "'s \<Rightarrow> bool" and dict :: "'s \<Rightarrow> ('k \<times> 'v) list" and key :: "'q \<Rightarrow> 'k" and ok :: "'q \<Rightarrow> bool"
  assumes find_laws: "invar s \<Longrightarrow> ok q \<Longrightarrow> fst (find s q) = Inr (map_of (dict s) (key q)) \<and> invar (snd (find s q)) \<and> dict (snd (find s q)) = dict s"
    and store_laws: "invar s \<Longrightarrow> ok q \<Longrightarrow> room s \<Longrightarrow> fst (store s q v) = Inr () \<and> invar (snd (store s q v)) \<and>
      dict (snd (store s q v)) = (if key q \<in> set (keys (dict s)) then dict s else dict s @ [(key q, v)])"
begin

lemma dict_store:
  assumes "invar s" and "ok q" and "room s"
  shows "map_of (dict (snd (store s q v))) k =
    (if k = key q \<and> map_of (dict s) k = None then Some v else map_of (dict s) k)"
proof -
  have "map_of (dict s) (key q) = None \<longleftrightarrow> key q \<notin> set (keys (dict s))" by (rule map_of_eq_None_keys)
  then show ?thesis using store_laws [OF assms, of v] by (auto simp: map_of_snoc simp del: map_of_append split: option.splits)
qed

lemma find_store:
  assumes "invar s" and "ok q" and "ok q'" and "room s"
  shows "fst (find (snd (store s q v)) q') =
    Inr (if key q' = key q \<and> map_of (dict s) (key q') = None then Some v else map_of (dict s) (key q'))"
  using find_laws [of "snd (store s q v)" q'] store_laws [OF assms(1,2,4), of v] assms dict_store [OF assms(1,2,4), of v "key q'"] by simp

lemma first_writer_wins:
  assumes "invar s" and "ok q" and "ok q'" and "room s" and "key q' = key q" and "fst (find s q) = Inr (Some v)"
  shows "fst (find (snd (store s q' w)) q) = Inr (Some v)"
proof -
  have "map_of (dict s) (key q) = Some v" using find_laws [OF assms(1,2)] assms(6) by (metis Inr_inject)
  then show ?thesis using find_store [OF assms(1,3,2,4), of w] by simp
qed

lemma stored_values:
  assumes "invar s" and "ok q" and "room s"
  shows "snd ` set (dict (snd (store s q v))) \<subseteq> insert v (snd ` set (dict s))"
  using store_laws [OF assms, of v] by auto

end

interpretation ratios: first_writer_dict
  "\<lambda>c (a, b). Cache_Find ids c a b" "\<lambda>c (a, b). Cache_Store ids c a b" "cache_wf ids" "\<lambda>c. length (ch_Entries c) < 2 ^ 32"
  "cache_dict ids" "\<lambda>(a, b). py_key ids a b" "\<lambda>(a, b). known_pair ids a b" for ids
  by unfold_locales (auto simp: split_beta Cache_Find_spec Cache_Store_spec)

text \<open>The cache stays valid while more addresses are interned, and after a reset.\<close>

lemma addr_texts_stable:
  assumes "\<And>i t. AddrOrNone ids i = Inr t \<Longrightarrow> AddrOrNone ids' i = Inr t" and "known_addr ids a"
  shows "AddrText ids' a = AddrText ids a" and "AddrKeyText ids' a = AddrKeyText ids a" and "known_addr ids' a"
proof -
  obtain t where t: "AddrKeyText ids a = Inr t" using assms(2) by (auto simp: known_addr_iff)
  show k: "AddrKeyText ids' a = AddrKeyText ids a"
    using t assms(1) [of a "Some t"] by (auto simp: AddrKeyText_def AddrOrNone_def bindE_eq_Inr split: if_splits)
  then show "known_addr ids' a" using t by (auto simp: known_addr_iff)
  show "AddrText ids' a = AddrText ids a" using k by (simp add: AddrText_def AddrKeyText_def split: if_splits)
qed

lemma cache_wf_grows:
  assumes wf: "cache_wf ids c" and st: "\<And>i t. AddrOrNone ids i = Inr t \<Longrightarrow> AddrOrNone ids' i = Inr t" and wf': "addrs_wf ids'"
  shows "cache_wf ids' c" and "cache_dict ids' c = cache_dict ids c"
proof -
  have same: "AddrText ids' a = AddrText ids a" "AddrKeyText ids' a = AddrKeyText ids a" "known_addr ids' a" if "known_addr ids a" for a
    using addr_texts_stable [OF st that] by blast+
  have plain: "plain_addr ids' a = plain_addr ids a" if "known_addr ids a" for a using same [OF that] by (simp add: plain_addr_def)
  have pair: "plain_pair ids' a b = plain_pair ids a b" "py_key ids' a b = py_key ids a b" "known_pair ids' a b" if "known_pair ids a b" for a b
    using that same plain by (simp_all add: known_pair_def plain_pair_def py_key_def TextKey_def)
  have at: "known_pair ids a b" if "entry_at c i a b" for i a b using wf that by (auto simp: cache_wf_def entry_at_def)
  show dict: "cache_dict ids' c = cache_dict ids c" using wf pair(2) by (auto simp: cache_dict_def cache_wf_def)
  have "memo_ok ids' (ch_SimpleById c)" using wf plain same(3) by (fastforce simp: cache_wf_def memo_ok_def)
  moreover have "\<forall>a b r. map_of (ch_ById c) (IdKey a b) = Some r \<longleftrightarrow> plain_pair ids' a b \<and> entry_at c (unat r) a b"
    using wf pair(1) at unfolding cache_wf_def by blast
  moreover have "\<forall>k r. map_of (ch_ByText c) k = Some r \<longleftrightarrow> (\<exists>a b. entry_at c (unat r) a b \<and> \<not> plain_pair ids' a b \<and> py_key ids' a b = k)"
    using wf pair(1,2) at unfolding cache_wf_def by metis
  moreover have "\<forall>e\<in>set (ch_Entries c). known_pair ids' (ce_Ea1 e) (ce_Ea2 e)" using wf pair(3) unfolding cache_wf_def by blast
  ultimately show "cache_wf ids' c" using wf wf' unfolding cache_wf_def dict by blast
qed

lemma ClearCache_wf: "cache_wf ids c \<Longrightarrow> cache_wf ids (ClearCache c) \<and> cache_dict ids (ClearCache c) = []"
  by (simp add: cache_wf_def ClearCache_def cache_dict_def entry_at_def)

section \<open>Property of the cache\<close>

text \<open>C38. The ratio cache is Python's dictionary keyed by the text \<^verbatim>\<open>f"{ea1}-{ea2}"\<close>: a lookup returns what the
  dictionary holds under the text of the pair, although plain pairs are keyed by id; storing adds a new key at the end
  of the insertion order and never replaces a value; two pairs with the same text share their value and pairs with
  different texts never do.\<close>

theorem ratio_cache_is_dict:
  assumes "cache_wf ids c" and "known_pair ids a b" and "known_pair ids x y" and "length (ch_Entries c) < 2 ^ 32"
  shows "fst (Cache_Find ids c a b) = Inr (map_of (cache_dict ids c) (py_key ids a b)) \<and>
    cache_wf ids (snd (Cache_Store ids c a b r)) \<and>
    cache_dict ids (snd (Cache_Store ids c a b r)) =
      (if py_key ids a b \<in> set (keys (cache_dict ids c)) then cache_dict ids c else cache_dict ids c @ [(py_key ids a b, r)]) \<and>
    fst (Cache_Find ids (snd (Cache_Store ids c a b r)) x y) =
      Inr (if py_key ids x y = py_key ids a b \<and> map_of (cache_dict ids c) (py_key ids x y) = None then Some r
           else map_of (cache_dict ids c) (py_key ids x y))"
proof -
  have "fst (Cache_Find ids (snd (Cache_Store ids c a b r)) x y) =
      Inr (if py_key ids x y = py_key ids a b \<and> map_of (cache_dict ids c) (py_key ids x y) = None then Some r
           else map_of (cache_dict ids c) (py_key ids x y))"
    using ratios.find_store [OF assms(1), of "(a, b)" "(x, y)" r] assms(2-4) unfolding prod.case by blast
  then show ?thesis using Cache_Find_spec [OF assms(1,2)] Cache_Store_spec [OF assms(1,2,4), of r] by (intro conjI) blast+
qed

theorem ratio_cache_witness:
  "fst (Cache_Find empty_Interners (snd (Cache_Store empty_Interners empty_Cache kNoneAddr kNoneAddr (1 / 2))) kNoneAddr kNoneAddr) = Inr (Some (1 / 2))"
proof -
  have "addrs_wf empty_Interners" by (simp add: addrs_wf_def empty_Interners_def empty_Interner_def interner_wf_def)
  then have wf: "cache_wf empty_Interners empty_Cache" by (rule cache_wf_empty)
  have "known_pair empty_Interners kNoneAddr kNoneAddr" by (simp add: known_pair_def known_addr_iff AddrKeyText_def)
  from ratio_cache_is_dict [OF wf this this, of "1 / 2"] show ?thesis by (simp add: empty_Cache_def cache_dict_def)
qed

end
