(* ===== verification/Ratio.thy ===== *)
theory Ratio
  imports Rounding QuickRatio RatioCache PySets
begin

text \<open>
  The ratio engine of \<^verbatim>\<open>src/diff/Ratio.cpp\<close>: \<^verbatim>\<open>check_ratio\<close>, \<^verbatim>\<open>deep_ratio\<close> and
  \<^verbatim>\<open>compare_function_rows\<close>, over the prepared line columns, the ratio cache and the per-row values that are computed
  once. The two function tables and the processor flag, which the engine reads through the session, are fields of its
  state; the mutation mask of the test suite is 0, its value in the program.

  The engine is compared with the direct definition: \<open>py_check_ratio\<close> recomputes every value from the cells of the
  two rows, as Python does. The memoised engine returns the same value or the same error.
\<close>

section \<open>Cells with Python semantics\<close>

type_synonym TextCellOf = "(bool \<times> string) option"

definition CellOf :: "TextColumn \<Rightarrow> 32 word \<Rightarrow> TextCellOf" where
  "CellOf column row = (if tc_IsNull column ! unat row then None else Some (tc_IsBlob column ! unat row, Text_View column (unat row)))"

definition PyEq :: "TextCellOf \<Rightarrow> TextCellOf \<Rightarrow> bool" where
  "PyEq a b \<longleftrightarrow>
     (case (a, b) of
        (Some (blob_a, x), Some (blob_b, y)) \<Rightarrow> blob_a = blob_b \<and> x = y
      | _ \<Rightarrow> a = None \<and> b = None)"

definition PyNe :: "TextCellOf \<Rightarrow> string \<Rightarrow> bool" where
  "PyNe a literal \<longleftrightarrow> (case a of None \<Rightarrow> True | Some (blob, x) \<Rightarrow> blob \<or> x \<noteq> literal)"

definition IsEmptyStr :: "TextCellOf \<Rightarrow> bool" where
  "IsEmptyStr a \<longleftrightarrow> (case a of None \<Rightarrow> False | Some (blob, x) \<Rightarrow> \<not> blob \<and> x = [])"

definition RequireInteger :: "IntColumn \<Rightarrow> 32 word \<Rightarrow> string \<Rightarrow> unit result" where
  "RequireInteger column row name =
     (if \<not> ic_IsNull column ! unat row \<and> ic_NotInteger column ! unat row
      then Inl (UnsupportedInput (''functions.'' @ name @
             '' holds a non-INTEGER value (Python float/str comparison semantics not ported)''))
      else Inr ())"

definition PyEqInt :: "IntColumn \<Rightarrow> 32 word \<Rightarrow> IntColumn \<Rightarrow> 32 word \<Rightarrow> string \<Rightarrow> bool result" where
  "PyEqInt a row_a b row_b name =
     bindE (RequireInteger a row_a name) (\<lambda>_.
     bindE (RequireInteger b row_b name) (\<lambda>_.
     Inr (let null_a = ic_IsNull a ! unat row_a; null_b = ic_IsNull b ! unat row_b
          in if null_a \<or> null_b then null_a \<and> null_b else ic_Value a ! unat row_a = ic_Value b ! unat row_b)))"

definition PyNeZero :: "IntColumn \<Rightarrow> 32 word \<Rightarrow> bool" where
  "PyNeZero a row \<longleftrightarrow> ic_IsNull a ! unat row \<or> ic_Value a ! unat row \<noteq> 0"

section \<open>The engine\<close>

text \<open>A value computed on first use: \<^verbatim>\<open>MdValue\<close> and \<^verbatim>\<open>ConstSet\<close> with their
  \<^verbatim>\<open>State\<close> 0, 1, 2.\<close>

datatype 'a slot = NotComputed | Computed 'a | Failed diff_error

record RatioEngine =
  re_Main :: FunctionTable
  re_Diff :: FunctionTable
  re_IsSameProcessor :: bool
  re_Cache :: Cache
  re_Prepared :: bool
  re_PreparedMain :: nat
  re_PreparedDiff :: nat
  re_CleanPseudo :: PreparedColumn
  re_CleanAssembly :: PreparedColumn
  re_CleanMicrocode :: PreparedColumn
  re_MdPy :: "Side \<Rightarrow> flt slot list"
  re_Consts :: "Side \<Rightarrow> PySet slot list"

definition new_RatioEngine :: "FunctionTable \<Rightarrow> FunctionTable \<Rightarrow> bool \<Rightarrow> RatioEngine" where
  "new_RatioEngine main diff same_cpu =
     \<lparr>re_Main = main, re_Diff = diff, re_IsSameProcessor = same_cpu, re_Cache = empty_Cache, re_Prepared = False,
      re_PreparedMain = 0, re_PreparedDiff = 0, re_CleanPseudo = empty_PreparedColumn,
      re_CleanAssembly = empty_PreparedColumn, re_CleanMicrocode = empty_PreparedColumn,
      re_MdPy = (\<lambda>_. []), re_Consts = (\<lambda>_. [])\<rparr>"

definition Table :: "RatioEngine \<Rightarrow> Side \<Rightarrow> FunctionTable" where
  "Table e side = (if side = Main_Side then re_Main e else re_Diff e)"

definition kNoRow :: "32 word" where "kNoRow = 0xFFFFFFFF"

definition kIncreaseRatioPerConstantMatchSameCpu :: double where
  "kIncreaseRatioPerConstantMatchSameCpu = fl (6 / 1000)"

definition kIncreaseRatioPerConstantMatch :: double where
  "kIncreaseRatioPerConstantMatch = fl (8 / 1000)"

definition PrepareAll :: "RatioEngine \<Rightarrow> RatioEngine" where
  "PrepareAll e =
     (let main = re_Main e; diff = re_Diff e;
          prepare = (\<lambda>member. PrepareColumn (ft_Text main member) (ft_Text diff member));
          counts = (\<lambda>side. Table_Count (Table e side))
      in e\<lparr>re_CleanPseudo := prepare CleanPseudoCol, re_CleanAssembly := prepare CleanAssemblyCol,
           re_CleanMicrocode := prepare CleanMicrocodeCol,
           re_MdPy := (\<lambda>side. replicate (counts side) NotComputed), re_Consts := (\<lambda>side. replicate (counts side) NotComputed),
           re_PreparedMain := Table_Count main, re_PreparedDiff := Table_Count diff, re_Prepared := True\<rparr>)"

definition EnsurePrepared :: "(RatioEngine, unit) action" where
  "EnsurePrepared =
     modS (\<lambda>e. if \<not> re_Prepared e \<or> re_PreparedMain e \<noteq> Table_Count (re_Main e) \<or> re_PreparedDiff e \<noteq> Table_Count (re_Diff e)
               then PrepareAll e else e)"

subsection \<open>\<open>md_index\<close>\<close>

text \<open>What \<^verbatim>\<open>MdPython\<close> computes for a row whose slot is empty.\<close>

definition md_python :: "FunctionTable \<Rightarrow> 32 word \<Rightarrow> flt result" where
  "md_python t row =
     (case CellOf (ft_Text t MdIndexCol) row of
        None \<Rightarrow> Inl (DiaphoraWouldRaise ''D:1672 float(md_index)''
                 (''TypeError: float() argument must be a string or a real number, not '' @ quote @ ''NoneType'' @ quote))
      | Some (blob, bytes) \<Rightarrow>
          bindE (if blob \<and> \<not> list_all (\<lambda>ch. (of_char ch :: nat) < 0x80) bytes then Inr None else PyFloat bytes) (\<lambda>value.
            case value of
              Some x \<Rightarrow> Inr x
            | None \<Rightarrow> Inl (DiaphoraWouldRaise ''D:1672 float(md_index)''
                        (''ValueError: could not convert string to float: '' @ quote @ bytes @ quote))))"

text \<open>The slot that a computation leaves: an exception the code does not catch leaves the empty
  \<^verbatim>\<open>Failure\<close>.\<close>

definition slot_after :: "'a result \<Rightarrow> 'a slot" where
  "slot_after r =
     (case r of
        Inr x \<Rightarrow> Computed x
      | Inl e \<Rightarrow> Failed (case e of DiaphoraWouldRaise _ _ \<Rightarrow> e | UnsupportedInput _ \<Rightarrow> e | _ \<Rightarrow> DiaphoraWouldRaise [] []))"

definition MdPython :: "Side \<Rightarrow> 32 word \<Rightarrow> (RatioEngine, flt) action" where
  "MdPython side row e =
     (case re_MdPy e side ! unat row of
        Computed x \<Rightarrow> (Inr x, e)
      | Failed err \<Rightarrow> (Inl err, e)
      | NotComputed \<Rightarrow>
          (let r = md_python (Table e side) row
           in (r, e\<lparr>re_MdPy := (re_MdPy e)(side := (re_MdPy e side)[unat row := slot_after r])\<rparr>)))"

definition MdSqlOf :: "flt option \<Rightarrow> flt result" where
  "MdSqlOf v =
     (case v of
        None \<Rightarrow> Inl (DiaphoraWouldRaise ''D:1672 float(md)''
                 (''TypeError: float() argument must be a string or a real number, not '' @ quote @ ''NoneType'' @ quote))
      | Some x \<Rightarrow> Inr x)"

subsection \<open>Constants\<close>

definition constants_of :: "FunctionTable \<Rightarrow> 32 word \<Rightarrow> PySet result" where
  "constants_of t row =
     (case CellOf (ft_Text t ConstantsCol) row of
        None \<Rightarrow> Inl (DiaphoraWouldRaise ''D:2813 json.loads(constants)''
                 ''TypeError: the JSON object must be str, bytes or bytearray, not NoneType'')
      | Some (True, _) \<Rightarrow> Inl (UnsupportedInput ''functions.constants is a BLOB (json.loads(bytes) encoding detection not ported)'')
      | Some (False, bytes) \<Rightarrow>
          (case PyJsonLoadsList bytes of
             Some items \<Rightarrow> bindE items PySetFromList
           | None \<Rightarrow> Inl (StdException ''json.loads does not return'')))"

definition ConstantsOf :: "Side \<Rightarrow> 32 word \<Rightarrow> (RatioEngine, PySet) action" where
  "ConstantsOf side row e =
     (case re_Consts e side ! unat row of
        Computed s \<Rightarrow> (Inr s, e)
      | Failed err \<Rightarrow> (Inl err, e)
      | NotComputed \<Rightarrow>
          (let r = constants_of (Table e side) row
           in (r, e\<lparr>re_Consts := (re_Consts e)(side := (re_Consts e side)[unat row := slot_after r])\<rparr>)))"

subsection \<open>\<open>deep_ratio\<close>\<close>

definition add_if :: "bool \<Rightarrow> double \<Rightarrow> double \<Rightarrow> double" where
  "add_if hit amount score = (if hit then dbl_add score amount else score)"

text \<open>The additions up to \<^verbatim>\<open>cyclomatic_complexity\<close>.\<close>

definition field_score :: "FunctionTable \<Rightarrow> FunctionTable \<Rightarrow> 32 word \<Rightarrow> 32 word \<Rightarrow> double result" where
  "field_score M D main_row diff_row =
     (let tcell = (\<lambda>member. (CellOf (ft_Text M member) main_row, CellOf (ft_Text D member) diff_row));
          same_int = (\<lambda>member name. bindE (PyEqInt (ft_Int M member) main_row (ft_Int D member) diff_row name)
                        (\<lambda>eq. Inr (eq \<and> PyNeZero (ft_Int M member) main_row)));
          (source1, source2) = tcell SourceFileCol;
          (primes1, primes2) = tcell PseudocodePrimesCol;
          (switches1, switches2) = tcell SwitchesCol;
          s1 = add_if (source1 \<noteq> None \<and> source2 \<noteq> None \<and> PyEq source1 source2 \<and> PyNe source1 []) (fl (1 / 1000)) 0;
          s2 = add_if (primes1 \<noteq> None \<and> primes2 \<noteq> None \<and> PyEq primes1 primes2 \<and> PyNe primes1 []) (fl (1 / 1000)) s1
      in bindE (same_int IndegreeCol ''indegree'') (\<lambda>hit3.
         let s3 = add_if hit3 (fl (1 / 1000)) s2
         in bindE (same_int OutdegreeCol ''outdegree'') (\<lambda>hit4.
            let s4 = add_if hit4 (fl (1 / 1000)) s3;
                s5 = add_if (PyEq switches1 switches2 \<and> PyNe switches1 ''[]'') (fl (3 / 1000)) s4
            in bindE (same_int CyclomaticComplexityCol ''cyclomatic_complexity'') (\<lambda>hit6.
               Inr (add_if hit6 (fl (1 / 1000)) s5)))))"

text \<open>The addition for the constants in common.\<close>

definition constants_score :: "bool \<Rightarrow> nat \<Rightarrow> double \<Rightarrow> double" where
  "constants_score same_cpu common_constants score =
     (let tmp = (if same_cpu then kIncreaseRatioPerConstantMatchSameCpu else kIncreaseRatioPerConstantMatch)
      in add_if (common_constants > 0) (dbl_mul (dbl_of_size common_constants) tmp) score)"

definition DeepScore :: "32 word \<Rightarrow> 32 word \<Rightarrow> (RatioEngine, double) action" where
  "DeepScore main_row diff_row =
     bindS EnsurePrepared (\<lambda>_.
     bindS (getS (\<lambda>e. field_score (re_Main e) (re_Diff e) main_row diff_row)) (\<lambda>score.
     bindS (getS (\<lambda>e. Inr (PyNe (CellOf (ft_Text (re_Main e) ConstantsCol) main_row) ''[]''))) (\<lambda>has_constants.
     if \<not> has_constants then retS score
     else
       bindS (ConstantsOf Main_Side main_row) (\<lambda>set1.
       bindS (ConstantsOf Diff_Side diff_row) (\<lambda>set2.
       bindS (getS (\<lambda>_. PySetIntersectionSize set1 set2)) (\<lambda>n.
       getS (\<lambda>e. Inr (constants_score (re_IsSameProcessor e) n score))))))))"

definition CanonicalAddress :: "Interners \<Rightarrow> AddrId \<Rightarrow> string \<Rightarrow> string result" where
  "CanonicalAddress ids ea site =
     (if ea = kNoneAddr
      then Inl (DiaphoraWouldRaise site
             (''TypeError: int() argument must be a string, a bytes-like object or a real number, not '' @ quote @ ''NoneType'' @ quote))
      else bindE (AddrText ids ea) (\<lambda>txt_ea.
           bindE (PyIntCanonical txt_ea) (\<lambda>canonical.
             case canonical of
               None \<Rightarrow> Inl (DiaphoraWouldRaise site (''ValueError: invalid literal for int() with base 10: '' @ quote @ txt_ea @ quote))
             | Some c \<Rightarrow> Inr c)))"

definition FetchRowByAddress :: "Interners \<Rightarrow> FunctionTable \<Rightarrow> string \<Rightarrow> string \<Rightarrow> 32 word result" where
  "FetchRowByAddress ids t canonical site =
     (let row = Option.bind (FindAddr ids canonical) (FindRow t);
          row = Option.bind row (\<lambda>r. if tc_IsBlob (ft_Text t AddressCol) ! unat r then None else Some r)
      in case row of
           None \<Rightarrow> Inr kNoRow
         | Some r \<Rightarrow>
             if ft_AnyColumnUtf8Bad t ! unat r
             then Inl (DiaphoraWouldRaise site ''OperationalError: Could not decode to UTF-8 a functions column'')
             else Inr r)"

text \<open>The rows that \<^verbatim>\<open>DeepRatioByAddress\<close> compares.\<close>

definition deep_rows :: "Interners \<Rightarrow> FunctionTable \<Rightarrow> FunctionTable \<Rightarrow> AddrId \<Rightarrow> AddrId \<Rightarrow> (32 word \<times> 32 word) result" where
  "deep_rows ids main diff ea1 ea2 =
     bindE (CanonicalAddress ids ea1 ''D:2763 deep_ratio int(ea1)'') (\<lambda>address1.
     bindE (CanonicalAddress ids ea2 ''D:2764 deep_ratio int(ea2)'') (\<lambda>address2.
     bindE (FetchRowByAddress ids main address1 ''D:2775 deep_ratio fetchone (main)'') (\<lambda>main_row.
     bindE (FetchRowByAddress ids diff address2 ''D:2778 deep_ratio fetchone (diff)'') (\<lambda>diff_row.
     if main_row = kNoRow
     then Inl (DiaphoraWouldRaise ''D:2780 deep_ratio''
            (''TypeError: '' @ quote @ ''NoneType'' @ quote @ '' object is not subscriptable (main row)''))
     else if diff_row = kNoRow
     then Inl (DiaphoraWouldRaise ''D:2781 deep_ratio''
            (''TypeError: '' @ quote @ ''NoneType'' @ quote @ '' object is not subscriptable (diff row)''))
     else Inr (main_row, diff_row)))))"

definition DeepRatioByAddress :: "Interners \<Rightarrow> AddrId \<Rightarrow> AddrId \<Rightarrow> (RatioEngine, double) action" where
  "DeepRatioByAddress ids ea1 ea2 =
     bindS (getS (\<lambda>e. deep_rows ids (re_Main e) (re_Diff e) ea1 ea2)) (\<lambda>(main_row, diff_row). DeepScore main_row diff_row)"

subsection \<open>\<open>check_ratio\<close>\<close>

definition flt_positive :: "flt \<Rightarrow> bool" where
  "flt_positive x \<longleftrightarrow> (case x of Finite neg m \<Rightarrow> flt_value neg m > 0 | Infinity neg \<Rightarrow> \<not> neg | NotANumber \<Rightarrow> False)"

definition Round7 :: "double \<Rightarrow> double result" where
  "Round7 v =
     bindE (RoundDecimal7 (Finite (v < 0) \<bar>v\<bar>)) (\<lambda>x.
       case x of Finite neg m \<Rightarrow> Inr (flt_value neg m) | _ \<Rightarrow> Inl (StdException ''not a finite double''))"

text \<open>\<^verbatim>\<open>V4\<close>\<close>

definition md_score :: "flt \<Rightarrow> flt \<Rightarrow> double \<Rightarrow> double \<Rightarrow> double" where
  "md_score md1 md2 v1 v2 =
     (if flt_eq md1 md2 \<and> flt_positive md1
      then (let x = dbl_div (dbl_add (dbl_add (dbl_add v1 v2) 0) 3) 5 in if 1 < x then 1 else x)
      else 0)"

text \<open>The maximum of the values and the fallback when the MD indices differ.\<close>

definition best_value :: "flt \<Rightarrow> flt \<Rightarrow> double list \<Rightarrow> double" where
  "best_value md1 md2 vals =
     (let r = foldl (\<lambda>r v. if v > r then v else r) (hd vals) vals
      in if r = 1 \<and> \<not> flt_eq md1 md2 then foldl (\<lambda>r v. if v \<noteq> 1 \<and> v > r then v else r) 0 vals else r)"

definition clamp_score :: "double \<Rightarrow> double \<Rightarrow> double" where
  "clamp_score r score = (if dbl_add r score < 1 then dbl_add r score else fl (99 / 100))"

definition Compute ::
  "Interners \<Rightarrow> AddrId \<Rightarrow> AddrId \<Rightarrow> Side \<Rightarrow> 32 word \<Rightarrow> Side \<Rightarrow> 32 word \<Rightarrow> MdSource \<Rightarrow> flt option \<Rightarrow> flt option
     \<Rightarrow> (RatioEngine, double) action" where
  "Compute ids ea1 ea2 side1 row1 side2 row2 src sql_md1 sql_md2 =
     bindS (if src = Python then MdPython side1 row1 else getS (\<lambda>_. MdSqlOf sql_md1)) (\<lambda>md1.
     bindS (if src = Python then MdPython side2 row2 else getS (\<lambda>_. MdSqlOf sql_md2)) (\<lambda>md2.
     bindS (getS (\<lambda>e. Inr (Table e side1, Table e side2))) (\<lambda>(t1, t2).
     let cells = (\<lambda>member. (CellOf (ft_Text t1 member) row1, CellOf (ft_Text t2 member) row2));
         quick = (\<lambda>column name e. bindE (QuickPrepared (column e) side1 (unat row1) side2 (unat row2) name) Round7);
         (hash1, hash2) = cells BytesHashCol; (pseudo1, pseudo2) = cells PseudocodeCol;
         (clean1, clean2) = cells CleanPseudoCol; (micro1, micro2) = cells CleanMicrocodeCol
     in if PyEq hash1 hash2 then retS 1
        else
          bindS (if pseudo1 \<noteq> None \<and> pseudo2 \<noteq> None \<and> PyNe pseudo1 [] \<and> PyNe pseudo2 []
                 then (if IsEmptyStr clean1 \<or> IsEmptyStr clean2 then retS 0 else getS (quick re_CleanPseudo ''clean_pseudo''))
                 else retS 0) (\<lambda>v1.
          bindS (getS (quick re_CleanAssembly ''clean_assembly'')) (\<lambda>v2.
          let v4 = md_score md1 md2 v1 v2
          in bindS (if micro1 \<noteq> None \<and> micro2 \<noteq> None then getS (quick re_CleanMicrocode ''clean_microcode'') else retS 0) (\<lambda>v5.
             if micro1 \<noteq> None \<and> micro2 \<noteq> None \<and> v5 = 1 then retS 1
             else
               (let r = best_value md1 md2 [v1, v2, 0, v4, v5]
                in if r < 1
                   then bindS (DeepRatioByAddress ids ea1 ea2) (\<lambda>score. retS (clamp_score r score))
                   else retS r)))))))"

text \<open>\<^verbatim>\<open>Find\<close> and \<^verbatim>\<open>Store\<close> on the cache of the engine.\<close>

definition Find :: "Interners \<Rightarrow> AddrId \<Rightarrow> AddrId \<Rightarrow> (RatioEngine, double option) action" where
  "Find ids ea1 ea2 e = (case Cache_Find ids (re_Cache e) ea1 ea2 of (r, c) \<Rightarrow> (r, e\<lparr>re_Cache := c\<rparr>))"

definition Store :: "Interners \<Rightarrow> AddrId \<Rightarrow> AddrId \<Rightarrow> double \<Rightarrow> (RatioEngine, unit) action" where
  "Store ids ea1 ea2 ratio e = (case Cache_Store ids (re_Cache e) ea1 ea2 ratio of (r, c) \<Rightarrow> (r, e\<lparr>re_Cache := c\<rparr>))"

definition Impl_CheckRatio ::
  "Interners \<Rightarrow> AddrId \<Rightarrow> AddrId \<Rightarrow> Side \<Rightarrow> 32 word \<Rightarrow> Side \<Rightarrow> 32 word \<Rightarrow> MdSource \<Rightarrow> flt option \<Rightarrow> flt option
     \<Rightarrow> (RatioEngine, double) action" where
  "Impl_CheckRatio ids ea1 ea2 side1 row1 side2 row2 src sql_md1 sql_md2 =
     bindS (Find ids ea1 ea2) (\<lambda>hit.
     case hit of
       Some r \<Rightarrow> retS r
     | None \<Rightarrow>
         bindS EnsurePrepared (\<lambda>_.
         bindS (getS (\<lambda>e. if row1 = kNoRow \<or> row2 = kNoRow \<or> unat row1 \<ge> Table_Count (Table e side1) \<or> unat row2 \<ge> Table_Count (Table e side2)
                          then Inl (UnsupportedInput ''check_ratio: an address of the pair has no function row'') else Inr ())) (\<lambda>_.
         bindS (Compute ids ea1 ea2 side1 row1 side2 row2 src sql_md1 sql_md2) (\<lambda>ratio.
         bindS (Store ids ea1 ea2 ratio) (\<lambda>_. retS ratio)))))"

section \<open>The public operations\<close>

definition CheckRatio :: "RatioEngine provider" where
  "CheckRatio ids e row src =
     Impl_CheckRatio ids (hr_Ea1 row) (hr_Ea2 row) (hr_Side1 row) (hr_Row1 row) (hr_Side2 row) (hr_Row2 row) src (hr_Md1 row) (hr_Md2 row) e"

definition CompareFunctionRows :: "Interners \<Rightarrow> 32 word \<Rightarrow> 32 word \<Rightarrow> (RatioEngine, double) action" where
  "CompareFunctionRows ids main_row diff_row e =
     (let main = re_Main e; diff = re_Diff e
      in if unat main_row \<ge> Table_Count main \<or> unat diff_row \<ge> Table_Count diff
         then (Inl (UnsupportedInput ''compare_function_rows: row out of range''), e)
         else if tc_IsBlob (ft_Text main AddressCol) ! unat main_row \<or> tc_IsBlob (ft_Text diff AddressCol) ! unat diff_row
         then (Inl (UnsupportedInput ''compare_function_rows: a BLOB address (bytes in the cache key) is not ported''), e)
         else Impl_CheckRatio ids (ft_AddrIdOf main ! unat main_row) (ft_AddrIdOf diff ! unat diff_row)
                Main_Side main_row Diff_Side diff_row Python None None e)"

definition Engine_ClearCache :: "(RatioEngine, unit) action" where
  "Engine_ClearCache = modS (\<lambda>e. e\<lparr>re_Cache := ClearCache (re_Cache e)\<rparr>)"

definition SeedCache :: "Interners \<Rightarrow> AddrId \<Rightarrow> AddrId \<Rightarrow> double \<Rightarrow> (RatioEngine, unit) action" where
  "SeedCache = Store"

definition Cached :: "Interners \<Rightarrow> AddrId \<Rightarrow> AddrId \<Rightarrow> (RatioEngine, double option) action" where
  "Cached = Find"

definition DeepRatio :: "32 word \<Rightarrow> 32 word \<Rightarrow> (RatioEngine, double) action" where
  "DeepRatio main_row diff_row e =
     (if unat main_row \<ge> Table_Count (re_Main e) \<or> unat diff_row \<ge> Table_Count (re_Diff e)
      then (Inl (UnsupportedInput ''deep_ratio: row out of range''), e)
      else DeepScore main_row diff_row e)"


section \<open>Memoised computations and their values\<close>

text \<open>\<open>computes I r m\<close>: from every state with \<open>I\<close> the action returns \<open>r\<close>, a value or an error, and keeps \<open>I\<close>.\<close>

definition computes :: "('s \<Rightarrow> bool) \<Rightarrow> 'a result \<Rightarrow> ('s, 'a) action \<Rightarrow> bool" where
  "computes I r m \<longleftrightarrow> (\<forall>s. I s \<longrightarrow> fst (m s) = r \<and> I (snd (m s)))"

named_theorems computing \<open>rules for computed values\<close>

lemma computes_bind [computing]:
  assumes "computes I r m" and "\<And>x. r = Inr x \<Longrightarrow> computes I (g x) (f x)"
  shows "computes I (bindE r g) (bindS m f)"
  unfolding computes_def
proof (intro allI impI)
  fix s assume "I s"
  then have m: "fst (m s) = r" "I (snd (m s))" using assms(1) by (simp_all add: computes_def)
  show "fst (bindS m f s) = bindE r g \<and> I (snd (bindS m f s))"
  proof (cases r)
    case (Inr x)
    then show ?thesis using m assms(2) [OF Inr] by (cases "m s") (simp add: bindS_def computes_def)
  qed (use m in \<open>cases "m s", simp add: bindS_def\<close>)
qed

lemma computes_ret [computing]: "computes I (Inr x) (retS x)"
  by (simp add: computes_def retS_def)

lemma computes_get [computing]: "(\<And>s. I s \<Longrightarrow> f s = r) \<Longrightarrow> computes I r (getS f)"
  by (simp add: computes_def getS_def)

lemma computes_if [computing]:
  "(b \<Longrightarrow> computes I r m) \<Longrightarrow> (\<not> b \<Longrightarrow> computes I r' m') \<Longrightarrow> computes I (if b then r else r') (if b then m else m')"
  by simp

lemma computesD: "computes I r m \<Longrightarrow> I s \<Longrightarrow> fst (m s) = r \<and> I (snd (m s))"
  by (simp add: computes_def)

section \<open>The direct definition\<close>

text \<open>Python's \<^verbatim>\<open>quick_ratio\<close> on two cells, \<^verbatim>\<open>deep_ratio\<close> on two rows and \<^verbatim>\<open>check_ratio\<close>,
  each value computed where it is used.\<close>

definition py_quick :: "TextCellOf \<Rightarrow> TextCellOf \<Rightarrow> string \<Rightarrow> double result" where
  "py_quick a b name =
     (case (a, b) of
        (Some (blob_a, x), Some (blob_b, y)) \<Rightarrow>
          if \<not> blob_a \<and> x = [] \<or> \<not> blob_b \<and> y = [] then Inr 0
          else if blob_a \<or> blob_b
          then Inl (DiaphoraWouldRaise ''D:163 quick_ratio''
                 (''TypeError: a bytes-like object is required, not '' @ quote @ ''str'' @ quote @ '' (BLOB in '' @ name @ '')''))
          else Inr (RatioEngine_QuickRatio (Some x) (Some y))
      | _ \<Rightarrow> Inr 0)"

definition py_deep_ratio :: "FunctionTable \<Rightarrow> FunctionTable \<Rightarrow> bool \<Rightarrow> 32 word \<Rightarrow> 32 word \<Rightarrow> double result" where
  "py_deep_ratio M D same_cpu main_row diff_row =
     bindE (field_score M D main_row diff_row) (\<lambda>score.
     if \<not> PyNe (CellOf (ft_Text M ConstantsCol) main_row) ''[]'' then Inr score
     else
       bindE (constants_of M main_row) (\<lambda>set1.
       bindE (constants_of D diff_row) (\<lambda>set2.
       bindE (PySetIntersectionSize set1 set2) (\<lambda>n.
       Inr (constants_score same_cpu n score)))))"

definition py_check_ratio ::
  "Interners \<Rightarrow> FunctionTable \<Rightarrow> FunctionTable \<Rightarrow> bool \<Rightarrow> AddrId \<Rightarrow> AddrId \<Rightarrow> Side \<Rightarrow> 32 word \<Rightarrow> Side \<Rightarrow> 32 word \<Rightarrow> MdSource
     \<Rightarrow> flt option \<Rightarrow> flt option \<Rightarrow> double result" where
  "py_check_ratio ids M D same_cpu ea1 ea2 side1 row1 side2 row2 src sql_md1 sql_md2 =
     (let t1 = side_of M D side1; t2 = side_of M D side2;
          cell1 = (\<lambda>member. CellOf (ft_Text t1 member) row1); cell2 = (\<lambda>member. CellOf (ft_Text t2 member) row2);
          quick = (\<lambda>member name. bindE (py_quick (cell1 member) (cell2 member) name) Round7)
      in bindE (if src = Python then md_python t1 row1 else MdSqlOf sql_md1) (\<lambda>md1.
         bindE (if src = Python then md_python t2 row2 else MdSqlOf sql_md2) (\<lambda>md2.
         if PyEq (cell1 BytesHashCol) (cell2 BytesHashCol) then Inr 1
         else
           bindE (if cell1 PseudocodeCol \<noteq> None \<and> cell2 PseudocodeCol \<noteq> None \<and> PyNe (cell1 PseudocodeCol) [] \<and> PyNe (cell2 PseudocodeCol) []
                  then (if IsEmptyStr (cell1 CleanPseudoCol) \<or> IsEmptyStr (cell2 CleanPseudoCol) then Inr 0 else quick CleanPseudoCol ''clean_pseudo'')
                  else Inr 0) (\<lambda>v1.
           bindE (quick CleanAssemblyCol ''clean_assembly'') (\<lambda>v2.
           bindE (if cell1 CleanMicrocodeCol \<noteq> None \<and> cell2 CleanMicrocodeCol \<noteq> None
                  then quick CleanMicrocodeCol ''clean_microcode'' else Inr 0) (\<lambda>v5.
           if cell1 CleanMicrocodeCol \<noteq> None \<and> cell2 CleanMicrocodeCol \<noteq> None \<and> v5 = 1 then Inr 1
           else
             (let r = best_value md1 md2 [v1, v2, 0, md_score md1 md2 v1 v2, v5]
              in if r < 1
                 then bindE (bindE (deep_rows ids M D ea1 ea2) (\<lambda>(main_row, diff_row). py_deep_ratio M D same_cpu main_row diff_row))
                        (\<lambda>score. Inr (clamp_score r score))
                 else Inr r)))))))"

section \<open>The invariant of the engine\<close>

definition caught :: "diff_error \<Rightarrow> bool" where
  "caught e \<longleftrightarrow> (case e of DiaphoraWouldRaise _ _ \<Rightarrow> True | UnsupportedInput _ \<Rightarrow> True | _ \<Rightarrow> False)"

lemma Document_returns: "Document str \<noteq> Inl PyOutOfFuel"
  using loads.agrees [of kMaxJsonDepth "SkipWhitespace str"]
proof (cases rule: agree_cases)
  case (fail e e')
  then obtain msg r where e: "e = Fail msg r" using doc.fails [OF fail(1)] by blast
  then have "e' \<noteq> PyOutOfFuel" using fail by auto
  then show ?thesis using fail by (simp add: Document_def SkipWs_SkipWhitespace)
qed (simp add: Document_def SkipWs_SkipWhitespace Let_def)

lemma loads_list_caught: "PyJsonLoadsList str \<noteq> None" "PyJsonLoadsList str = Some (Inl e) \<Longrightarrow> caught e"
  using Document_returns [of str]
  by (auto simp: PyJsonLoadsList_def decode_error_def kDepthUnsupported_def caught_def
      split: sum.splits py_fail.splits PyValue.splits if_splits)

lemma from_list_caught: "from_list_loop s xs = Inl e \<Longrightarrow> caught e"
proof (induction xs arbitrary: s)
  case (Cons x xs)
  have "caught e" if "Set_Insert s x = Inl e"
    using that PyHash_total [of x] by (auto simp: Set_Insert_def unhashable_def caught_def bindE_eq_Inl split: if_splits)
  with Cons show ?case by (auto simp: bindE_eq_Inl split: prod.splits)
qed simp

lemma constants_of_caught: "constants_of t row = Inl e \<Longrightarrow> caught e"
proof -
  assume e: "constants_of t row = Inl e"
  have "caught e" if "CellOf (ft_Text t ConstantsCol) row = Some (False, bytes)" for bytes
  proof -
    obtain items where "PyJsonLoadsList bytes = Some items" using loads_list_caught(1) [of bytes] by blast
    with e that show ?thesis using loads_list_caught(2) [of bytes] from_list_caught
      by (auto simp: constants_of_def bindE_eq_Inl PySetFromList_def)
  qed
  with e show ?thesis by (auto simp: constants_of_def caught_def split: option.splits bool.splits)
qed

lemma md_python_caught: "md_python t row = Inl e \<Longrightarrow> caught e"
  by (auto simp: md_python_def bindE_eq_Inl PyFloat_def caught_def split: option.splits prod.splits if_splits)

lemma slot_after_caught: "(\<And>e. r = Inl e \<Longrightarrow> caught e) \<Longrightarrow> slot_after r = (case r of Inr x \<Rightarrow> Computed x | Inl e \<Rightarrow> Failed e)"
  by (auto simp: slot_after_def caught_def split: sum.splits diff_error.splits)

text \<open>A slot is empty or holds the value of its row.\<close>

definition slots_ok :: "(32 word \<Rightarrow> 'a result) \<Rightarrow> nat \<Rightarrow> 'a slot list \<Rightarrow> bool" where
  "slots_ok f n slots \<longleftrightarrow>
     length slots = n \<and> (\<forall>row. unat row < n \<longrightarrow> slots ! unat row = NotComputed \<or> slots ! unat row = slot_after (f row))"

lemma slots_ok_replicate: "slots_ok f n (replicate n NotComputed)"
  by (simp add: slots_ok_def)

lemma slots_ok_fill: "slots_ok f n slots \<Longrightarrow> slots_ok f n (slots[unat row := slot_after (f row)])"
  unfolding slots_ok_def
proof (intro conjI allI impI; elim conjE)
  fix row' :: "32 word"
  assume ok: "\<forall>row. unat row < n \<longrightarrow> slots ! unat row = NotComputed \<or> slots ! unat row = slot_after (f row)"
    and n: "length slots = n" "unat row' < n"
  show "slots[unat row := slot_after (f row)] ! unat row' = NotComputed \<or> slots[unat row := slot_after (f row)] ! unat row' = slot_after (f row')"
    using ok n by (cases "row' = row") (simp, simp add: nth_list_update word_unat_eq_iff)
qed simp

definition columns_prepared :: "RatioEngine \<Rightarrow> bool" where
  "columns_prepared e \<longleftrightarrow>
     prepared_ok (re_CleanPseudo e) (ft_Text (re_Main e) CleanPseudoCol) (ft_Text (re_Diff e) CleanPseudoCol) \<and>
     prepared_ok (re_CleanAssembly e) (ft_Text (re_Main e) CleanAssemblyCol) (ft_Text (re_Diff e) CleanAssemblyCol) \<and>
     prepared_ok (re_CleanMicrocode e) (ft_Text (re_Main e) CleanMicrocodeCol) (ft_Text (re_Diff e) CleanMicrocodeCol)"

definition memo_slots_ok :: "RatioEngine \<Rightarrow> bool" where
  "memo_slots_ok e \<longleftrightarrow>
     (\<forall>side. slots_ok (md_python (Table e side)) (Table_Count (Table e side)) (re_MdPy e side) \<and>
             slots_ok (constants_of (Table e side)) (Table_Count (Table e side)) (re_Consts e side))"

text \<open>What the tables promise: they were ingested, and the three cleaned columns have fewer than \<open>2 ^ 32\<close> lines, so that
  the line ids of the prepared columns are unique.\<close>

definition tables_ok :: "FunctionTable \<Rightarrow> FunctionTable \<Rightarrow> bool" where
  "tables_ok M D \<longleftrightarrow> table_wf M \<and> table_wf D \<and>
     (\<forall>member\<in>{CleanPseudoCol, CleanAssemblyCol, CleanMicrocodeCol}. lines_fit (ft_Text M member) (ft_Text D member))"

definition prepared_now :: "RatioEngine \<Rightarrow> bool" where
  "prepared_now e \<longleftrightarrow> re_Prepared e \<and> re_PreparedMain e = Table_Count (re_Main e) \<and> re_PreparedDiff e = Table_Count (re_Diff e)"

definition engine_ok :: "RatioEngine \<Rightarrow> bool" where
  "engine_ok e \<longleftrightarrow> tables_ok (re_Main e) (re_Diff e) \<and> (prepared_now e \<longrightarrow> columns_prepared e \<and> memo_slots_ok e)"

text \<open>A prepared engine on given tables, with a given cache.\<close>

definition ready :: "FunctionTable \<Rightarrow> FunctionTable \<Rightarrow> bool \<Rightarrow> Cache \<Rightarrow> RatioEngine \<Rightarrow> bool" where
  "ready M D same_cpu c e \<longleftrightarrow>
     re_Main e = M \<and> re_Diff e = D \<and> re_IsSameProcessor e = same_cpu \<and> re_Cache e = c \<and> prepared_now e \<and> engine_ok e"

lemma Table_side_of: "Table e side = side_of (re_Main e) (re_Diff e) side"
  by (simp add: Table_def side_of_def)

lemma new_engine_ok: "tables_ok M D \<Longrightarrow> engine_ok (new_RatioEngine M D same_cpu)"
  by (simp add: engine_ok_def new_RatioEngine_def prepared_now_def)

lemma PrepareAll_ready:
  assumes "tables_ok (re_Main e) (re_Diff e)"
  shows "ready (re_Main e) (re_Diff e) (re_IsSameProcessor e) (re_Cache e) (PrepareAll e)"
proof -
  have "columns_prepared (PrepareAll e)"
    using assms PrepareColumn_ok by (simp add: columns_prepared_def PrepareAll_def Let_def tables_ok_def)
  moreover have "memo_slots_ok (PrepareAll e)"
    by (simp add: memo_slots_ok_def PrepareAll_def Let_def Table_def slots_ok_replicate)
  ultimately show ?thesis using assms
    by (simp add: ready_def engine_ok_def prepared_now_def) (simp add: PrepareAll_def Let_def)
qed

lemma EnsurePrepared_ready:
  assumes "engine_ok e"
  shows "\<exists>e'. EnsurePrepared e = (Inr (), e') \<and> ready (re_Main e) (re_Diff e) (re_IsSameProcessor e) (re_Cache e) e'"
proof (cases "prepared_now e")
  case True
  then show ?thesis using assms by (simp add: EnsurePrepared_def modS_def prepared_now_def ready_def)
next
  case False
  then have "EnsurePrepared e = (Inr (), PrepareAll e)" by (auto simp: EnsurePrepared_def modS_def prepared_now_def)
  then show ?thesis using PrepareAll_ready assms by (simp add: engine_ok_def)
qed

lemma computes_EnsurePrepared [computing]: "computes (ready M D cpu c) (Inr ()) EnsurePrepared"
  unfolding computes_def
proof (intro allI impI)
  fix e assume "ready M D cpu c e"
  then show "fst (EnsurePrepared e) = Inr () \<and> ready M D cpu c (snd (EnsurePrepared e))"
    using EnsurePrepared_ready [of e] by (auto simp: ready_def)
qed

lemma Table_fields [simp]: "Table (e\<lparr>re_MdPy := x\<rparr>) = Table e" "Table (e\<lparr>re_Consts := y\<rparr>) = Table e" "Table (e\<lparr>re_Cache := c\<rparr>) = Table e"
  by (simp_all add: Table_def fun_eq_iff)

lemma ready_MdPy: "ready M D cpu c e \<Longrightarrow> slots_ok (md_python (Table e side)) (Table_Count (Table e side)) slots \<Longrightarrow>
    ready M D cpu c (e\<lparr>re_MdPy := (re_MdPy e)(side := slots)\<rparr>)"
  by (auto simp: ready_def engine_ok_def prepared_now_def columns_prepared_def memo_slots_ok_def)

lemma ready_Consts: "ready M D cpu c e \<Longrightarrow> slots_ok (constants_of (Table e side)) (Table_Count (Table e side)) slots \<Longrightarrow>
    ready M D cpu c (e\<lparr>re_Consts := (re_Consts e)(side := slots)\<rparr>)"
  by (auto simp: ready_def engine_ok_def prepared_now_def columns_prepared_def memo_slots_ok_def)

lemma ready_slots:
  assumes "ready M D cpu c e"
  shows "slots_ok (md_python (side_of M D side)) (Table_Count (side_of M D side)) (re_MdPy e side)"
    and "slots_ok (constants_of (side_of M D side)) (Table_Count (side_of M D side)) (re_Consts e side)"
    and "Table e side = side_of M D side"
  using assms by (auto simp: ready_def engine_ok_def memo_slots_ok_def Table_side_of)

lemma slot_cases:
  assumes "slots_ok f n slots" and "unat row < n" and "\<And>e. f row = Inl e \<Longrightarrow> caught e"
  obtains (empty) "slots ! unat row = NotComputed" | (stored) x where "f row = Inr x" "slots ! unat row = Computed x"
    | (error) e where "f row = Inl e" "slots ! unat row = Failed e"
  using assms slot_after_caught [of "f row"] by (cases "f row") (auto simp: slots_ok_def)

lemma computes_MdPython [computing]:
  assumes "unat row < Table_Count (side_of M D side)"
  shows "computes (ready M D cpu c) (md_python (side_of M D side) row) (MdPython side row)"
  unfolding computes_def
proof (intro allI impI)
  fix e assume e: "ready M D cpu c e"
  note slots = ready_slots(1) [OF e, of side]
  show "fst (MdPython side row e) = md_python (side_of M D side) row \<and> ready M D cpu c (snd (MdPython side row e))"
  proof (rule slot_cases [OF slots assms])
    show "re_MdPy e side ! unat row = NotComputed \<Longrightarrow> ?thesis"
      using ready_MdPy [OF e, of side] slots_ok_fill [OF slots] by (simp add: MdPython_def Let_def ready_slots(3) [OF e])
  qed (use e md_python_caught in \<open>auto simp: MdPython_def\<close>)
qed

lemma computes_ConstantsOf [computing]:
  assumes "unat row < Table_Count (side_of M D side)"
  shows "computes (ready M D cpu c) (constants_of (side_of M D side) row) (ConstantsOf side row)"
  unfolding computes_def
proof (intro allI impI)
  fix e assume e: "ready M D cpu c e"
  note slots = ready_slots(2) [OF e, of side]
  show "fst (ConstantsOf side row e) = constants_of (side_of M D side) row \<and> ready M D cpu c (snd (ConstantsOf side row e))"
  proof (rule slot_cases [OF slots assms])
    show "re_Consts e side ! unat row = NotComputed \<Longrightarrow> ?thesis"
      using ready_Consts [OF e, of side] slots_ok_fill [OF slots] by (simp add: ConstantsOf_def Let_def ready_slots(3) [OF e])
  qed (use e constants_of_caught in \<open>auto simp: ConstantsOf_def\<close>)
qed

lemma sides [simp]: "side_of M D Main_Side = M" "side_of M D Diff_Side = D"
  by (simp_all add: side_of_def)

lemma computes_DeepScore [computing]:
  assumes "unat main_row < Table_Count M" and "unat diff_row < Table_Count D"
  shows "computes (ready M D cpu c) (py_deep_ratio M D cpu main_row diff_row) (DeepScore main_row diff_row)"
proof -
  have c: "computes (ready M D cpu c) (constants_of M main_row) (ConstantsOf Main_Side main_row)"
    "computes (ready M D cpu c) (constants_of D diff_row) (ConstantsOf Diff_Side diff_row)"
    using computes_ConstantsOf [of main_row M D Main_Side] computes_ConstantsOf [of diff_row M D Diff_Side] assms by simp_all
  have "computes (ready M D cpu c) (bindE (Inr ()) (\<lambda>_. bindE (field_score M D main_row diff_row) (\<lambda>score.
      bindE (Inr (PyNe (CellOf (ft_Text M ConstantsCol) main_row) ''[]'')) (\<lambda>has_constants.
      if \<not> has_constants then Inr score
      else bindE (constants_of M main_row) (\<lambda>set1. bindE (constants_of D diff_row) (\<lambda>set2.
           bindE (PySetIntersectionSize set1 set2) (\<lambda>n. Inr (constants_score cpu n score)))))))) (DeepScore main_row diff_row)"
    unfolding DeepScore_def by (intro computing c) (simp_all add: ready_def)
  then show ?thesis by (simp add: py_deep_ratio_def)
qed

lemma deep_rows_range:
  assumes "deep_rows ids M D ea1 ea2 = Inr (main_row, diff_row)" and "table_wf M" and "table_wf D"
  shows "unat main_row < Table_Count M \<and> unat diff_row < Table_Count D"
proof -
  have fetch: "unat r < Table_Count t" if "FetchRowByAddress ids t canonical site = Inr r" "r \<noteq> kNoRow" "table_wf t" for t canonical site r
  proof -
    from that(1,2) obtain ea where "FindRow t ea = Some r"
      by (auto simp: FetchRowByAddress_def Let_def bind_eq_Some_conv split: option.splits if_splits)
    then show ?thesis using that(3) by (simp add: table_wf_def)
  qed
  show ?thesis using assms by (auto simp: deep_rows_def bindE_eq_Inr split: if_splits intro: fetch)
qed

lemma computes_DeepRatioByAddress [computing]:
  assumes "tables_ok M D"
  shows "computes (ready M D cpu c)
     (bindE (deep_rows ids M D ea1 ea2) (\<lambda>(main_row, diff_row). py_deep_ratio M D cpu main_row diff_row)) (DeepRatioByAddress ids ea1 ea2)"
  unfolding DeepRatioByAddress_def
proof (intro computes_bind)
  show "computes (ready M D cpu c) (deep_rows ids M D ea1 ea2) (getS (\<lambda>e. deep_rows ids (re_Main e) (re_Diff e) ea1 ea2))"
    by (intro computing) (simp add: ready_def)
  fix rows assume "deep_rows ids M D ea1 ea2 = Inr rows"
  then show "computes (ready M D cpu c) (case rows of (main_row, diff_row) \<Rightarrow> py_deep_ratio M D cpu main_row diff_row)
      (case rows of (main_row, diff_row) \<Rightarrow> DeepScore main_row diff_row)"
    using deep_rows_range [of ids M D ea1 ea2] assms by (cases rows) (auto simp: tables_ok_def intro: computing)
qed

lemma CellOf_text_cell: "CellOf c row = text_cell c (unat row)"
  by (simp add: CellOf_def text_cell_def)

lemma QuickPrepared_py:
  assumes "prepared_ok p main diff" and "lines_fit main diff"
    and "unat ra < length (tc_IsNull (side_of main diff sa))" and "unat rb < length (tc_IsNull (side_of main diff sb))"
  shows "QuickPrepared p sa (unat ra) sb (unat rb) name = py_quick (CellOf (side_of main diff sa) ra) (CellOf (side_of main diff sb) rb) name"
proof -
  let ?ca = "CellOf (side_of main diff sa) ra" and ?cb = "CellOf (side_of main diff sb) rb"
  have st: "pt_State (pc_Rows p sa ! unat ra) = cell_state ?ca" "pt_State (pc_Rows p sb ! unat rb) = cell_state ?cb"
    using prepared_row [OF assms(1,3)] prepared_row [OF assms(1,4)] by (simp_all add: row_ok_def CellOf_text_cell)
  show ?thesis
  proof (cases "cell_state ?ca = BlobCell \<or> cell_state ?cb = BlobCell")
    case True
    then show ?thesis using st
      by (auto simp: QuickPrepared_def py_quick_def cell_state_def split: option.splits bool.splits if_splits)
  next
    case False
    then have "QuickPrepared p sa (unat ra) sb (unat rb) name = Inr (RatioEngine_QuickRatio (text_or_none ?ca) (text_or_none ?cb))"
      unfolding CellOf_text_cell by (intro QuickPrepared_quick [OF assms]) simp_all
    then show ?thesis using False
      by (auto simp: text_or_none_def py_quick_def cell_state_def RatioEngine_QuickRatio_def split: option.splits bool.splits if_splits)
  qed
qed

lemma side_of_text: "side_of (ft_Text M member) (ft_Text D member) side = ft_Text (side_of M D side) member"
  by (simp add: side_of_def)

lemma tables_ok_rows:
  assumes "tables_ok M D"
  shows "length (tc_IsNull (ft_Text (side_of M D side) member)) = Table_Count (side_of M D side)"
  using assms by (cases side) (simp_all add: tables_ok_def table_wf_def)

lemma computes_get_bind: "(\<And>s. I s \<Longrightarrow> f s = Inr x) \<Longrightarrow> computes I r (g x) \<Longrightarrow> computes I r (bindS (getS f) g)"
  by (simp add: computes_def bindS_def getS_def)

lemma computes_Compute:
  assumes "tables_ok M D" and "unat row1 < Table_Count (side_of M D side1)" and "unat row2 < Table_Count (side_of M D side2)"
  shows "computes (ready M D cpu c) (py_check_ratio ids M D cpu ea1 ea2 side1 row1 side2 row2 src sql_md1 sql_md2)
     (Compute ids ea1 ea2 side1 row1 side2 row2 src sql_md1 sql_md2)"
proof -
  let ?t1 = "side_of M D side1" and ?t2 = "side_of M D side2"
  let ?quick = "\<lambda>member name. bindE (py_quick (CellOf (ft_Text ?t1 member) row1) (CellOf (ft_Text ?t2 member) row2) name) Round7"
  let ?get = "\<lambda>column name. getS (\<lambda>e. bindE (QuickPrepared (column e) side1 (unat row1) side2 (unat row2) name) Round7)"
  have md: "computes (ready M D cpu c) (if src = Python then md_python (side_of M D side) row else MdSqlOf md)
      (if src = Python then MdPython side row else getS (\<lambda>_. MdSqlOf md))" if "unat row < Table_Count (side_of M D side)" for side row md
    by (intro computing that) simp
  have fit: "lines_fit (ft_Text M member) (ft_Text D member)"
    if "member \<in> {CleanPseudoCol, CleanAssemblyCol, CleanMicrocodeCol}" for member using assms(1) that unfolding tables_ok_def by blast
  have q: "QuickPrepared p side1 (unat row1) side2 (unat row2) name = py_quick (CellOf (ft_Text ?t1 member) row1) (CellOf (ft_Text ?t2 member) row2) name"
    if "prepared_ok p (ft_Text M member) (ft_Text D member)" "member \<in> {CleanPseudoCol, CleanAssemblyCol, CleanMicrocodeCol}" for p member name
    using QuickPrepared_py [OF that(1) fit [OF that(2)], of row1 side1 row2 side2] assms by (simp add: side_of_text tables_ok_rows)
  have prepared: "prepared_ok (re_CleanPseudo e) (ft_Text M CleanPseudoCol) (ft_Text D CleanPseudoCol)"
    "prepared_ok (re_CleanAssembly e) (ft_Text M CleanAssemblyCol) (ft_Text D CleanAssemblyCol)"
    "prepared_ok (re_CleanMicrocode e) (ft_Text M CleanMicrocodeCol) (ft_Text D CleanMicrocodeCol)" if "ready M D cpu c e" for e
    using that by (auto simp: ready_def engine_ok_def columns_prepared_def)
  have quick: "computes (ready M D cpu c) (?quick CleanPseudoCol name) (?get re_CleanPseudo name)"
    "computes (ready M D cpu c) (?quick CleanAssemblyCol name) (?get re_CleanAssembly name)"
    "computes (ready M D cpu c) (?quick CleanMicrocodeCol name) (?get re_CleanMicrocode name)" for name
    using q [OF prepared(1)] q [OF prepared(2)] q [OF prepared(3)] by (simp_all add: computes_def getS_def)
  have tables: "Table e side = side_of M D side" if "ready M D cpu c e" for e side using ready_slots(3) [OF that] .
  show ?thesis unfolding Compute_def py_check_ratio_def Let_def prod.case
    by (intro computes_bind [OF md] computes_get_bind [where x = "(?t1, ?t2)"] assms(2,3))
       (simp add: tables, simp only: prod.case, intro computing quick assms(1))
qed

section \<open>Every ratio lies between 0 and 1\<close>

abbreviation unit_ratio :: "double \<Rightarrow> bool" where
  "unit_ratio r \<equiv> 0 \<le> r \<and> r \<le> 1"

lemma Round7_unit:
  assumes "is_double v" and "unit_ratio v"
  shows "\<exists>r. Round7 v = Inr r \<and> unit_ratio r"
proof -
  have "v < pow2 1024" using assms(2) pow2_less_iff [of 0 1024] by simp
  then have r: "Round7 v = Inr (fl (of_int (round_even (v * 10 ^ 7)) / 10 ^ 7))"
    using RoundDecimal7_value [OF assms(1)] assms(2) by (simp add: Round7_def flt_value_def)
  have "0 \<le> round_even (v * 10 ^ 7)" using round_even_mono [of "of_int 0" "v * 10 ^ 7"] assms(2) unfolding round_even_of_int by simp
  moreover have "round_even (v * 10 ^ 7) \<le> 10 ^ 7" using round_even_mono [of "v * 10 ^ 7" "of_int (10 ^ 7)"] assms(2)
    unfolding round_even_of_int by simp
  then have "of_int (round_even (v * 10 ^ 7)) \<le> (of_int (10 ^ 7) :: rat)" by (simp only: of_int_le_iff)
  ultimately show ?thesis unfolding r using fl_le_1 [of "of_int (round_even (v * 10 ^ 7)) / 10 ^ 7"] Double.fl_nonneg [of "of_int (round_even (v * 10 ^ 7)) / 10 ^ 7"]
    by simp
qed

lemma py_quick_unit:
  assumes "length (cell_lines a) + length (cell_lines b) \<le> 2 ^ 53" and "py_quick a b name = Inr q"
  shows "is_double q \<and> unit_ratio q"
proof (cases "q = 0")
  case False
  then obtain x y where xy: "a = Some (False, x)" "x \<noteq> []" "b = Some (False, y)" "y \<noteq> []" and q: "q = RatioEngine_QuickRatio (Some x) (Some y)"
    using assms(2) by (auto simp: py_quick_def split: option.splits if_splits)
  have "length (SplitPieces x) + length (SplitPieces y) \<le> 2 ^ 53" using assms(1) xy by (simp add: cell_lines_def)
  from QuickRatio_bounds [OF this] show ?thesis unfolding q
    using QuickRatio_common [OF xy(2,4)] fl_is_double by (simp add: calculate_ratio_def dbl_div_def)
qed (use is_double_int [of 0] in simp)

lemma add_if_nonneg: "0 \<le> amount \<Longrightarrow> 0 \<le> score \<Longrightarrow> 0 \<le> add_if hit amount score"
  by (simp add: add_if_def dbl_add_def Double.fl_nonneg)

lemma field_score_nonneg: "field_score M D main_row diff_row = Inr score \<Longrightarrow> 0 \<le> score"
  unfolding field_score_def Let_def prod.case
  by (auto simp: bindE_eq_Inr Double.fl_nonneg intro!: add_if_nonneg)

lemma py_deep_ratio_nonneg: "py_deep_ratio M D cpu main_row diff_row = Inr score \<Longrightarrow> 0 \<le> score"
  by (auto simp: py_deep_ratio_def bindE_eq_Inr constants_score_def Let_def dbl_mul_def dbl_of_size_def
      kIncreaseRatioPerConstantMatchSameCpu_def kIncreaseRatioPerConstantMatch_def Double.fl_nonneg
      intro!: add_if_nonneg dest: field_score_nonneg split: if_splits)

lemma md_score_unit: "0 \<le> v1 \<Longrightarrow> 0 \<le> v2 \<Longrightarrow> unit_ratio (md_score md1 md2 v1 v2)"
  using Double.fl_nonneg [of "v1 + v2"] by (auto simp: md_score_def Let_def dbl_div_def dbl_add_def intro!: Double.fl_nonneg add_nonneg_nonneg)

lemma foldl_choice: "foldl (\<lambda>r v. if Q r v then v else r) z vs \<in> insert z {v \<in> set vs. \<exists>r. Q r v}"
proof (induction vs arbitrary: z)
  case (Cons v vs)
  from Cons [of v] Cons [of z] show ?case by auto
qed simp

lemma best_value_unit:
  assumes "vals \<noteq> []" and "\<forall>v\<in>set vals. unit_ratio v"
  shows "unit_ratio (best_value md1 md2 vals) \<and> (best_value md1 md2 vals = 1 \<longrightarrow> flt_eq md1 md2)"
proof -
  let ?r = "foldl (\<lambda>r v. if v > r then v else r) (hd vals) vals" and ?s = "foldl (\<lambda>r v. if v \<noteq> 1 \<and> v > r then v else r) 0 vals"
  have "?r \<in> set vals" using foldl_choice [of "\<lambda>r v. v > r" "hd vals" vals] assms(1) by auto
  moreover have "?s = 0 \<or> ?s \<in> set vals \<and> ?s \<noteq> 1" using foldl_choice [of "\<lambda>r v. v \<noteq> 1 \<and> v > r" 0 vals] by auto
  ultimately show ?thesis using assms(2) by (auto simp: best_value_def Let_def)
qed

lemma clamp_score_less: "0 \<le> r \<Longrightarrow> 0 \<le> score \<Longrightarrow> 0 \<le> clamp_score r score \<and> clamp_score r score < 1"
proof -
  have "is_double (127 / 128)" unfolding is_double_def by (intro exI [of _ 127] exI [of _ "- 7"]) (simp add: pow2_def)
  then have "fl (99 / 100) \<le> 127 / 128" using fl_mono [of "99 / 100" "127 / 128"] fl_double by simp
  then show "0 \<le> r \<Longrightarrow> 0 \<le> score \<Longrightarrow> 0 \<le> clamp_score r score \<and> clamp_score r score < 1"
    by (auto simp: clamp_score_def dbl_add_def intro!: Double.fl_nonneg)
qed

text \<open>The two MD indices that a comparison reads, and the rounded \<^verbatim>\<open>quick_ratio\<close> of a column.\<close>

definition md_of :: "FunctionTable \<Rightarrow> 32 word \<Rightarrow> MdSource \<Rightarrow> flt option \<Rightarrow> flt result" where
  "md_of t row src sql_md = (if src = Python then md_python t row else MdSqlOf sql_md)"

definition column_ratio :: "FunctionTable \<Rightarrow> 32 word \<Rightarrow> FunctionTable \<Rightarrow> 32 word \<Rightarrow> TextMember \<Rightarrow> string \<Rightarrow> double result" where
  "column_ratio t1 row1 t2 row2 member name = bindE (py_quick (CellOf (ft_Text t1 member) row1) (CellOf (ft_Text t2 member) row2) name) Round7"

lemma column_ratio_unit:
  assumes "tables_ok M D" and "unat row1 < Table_Count (side_of M D side1)" and "unat row2 < Table_Count (side_of M D side2)"
    and "member \<in> {CleanPseudoCol, CleanAssemblyCol, CleanMicrocodeCol}"
    and v: "column_ratio (side_of M D side1) row1 (side_of M D side2) row2 member name = Inr v"
  shows "unit_ratio v"
proof -
  from v obtain q where q: "py_quick (CellOf (ft_Text (side_of M D side1) member) row1) (CellOf (ft_Text (side_of M D side2) member) row2) name = Inr q"
    "Round7 q = Inr v" by (auto simp: column_ratio_def bindE_eq_Inr)
  have fit: "lines_fit (ft_Text M member) (ft_Text D member)" using assms(1,4) unfolding tables_ok_def by blast
  have "length (cell_lines (CellOf (ft_Text (side_of M D side) member) row)) < 2 ^ 32" if "unat row < Table_Count (side_of M D side)" for side row
    using side_lines_le [OF fit, of "unat row" side] that assms(1) by (simp add: side_of_text tables_ok_rows CellOf_text_cell)
  from this [OF assms(2)] this [OF assms(3)]
  have "length (cell_lines (CellOf (ft_Text (side_of M D side1) member) row1)) + length (cell_lines (CellOf (ft_Text (side_of M D side2) member) row2)) \<le> 2 ^ 53"
    by simp
  from py_quick_unit [OF this q(1)] Round7_unit [of q] q(2) show ?thesis by auto
qed

lemma py_check_ratio_unit:
  assumes ok: "tables_ok M D" and rows: "unat row1 < Table_Count (side_of M D side1)" "unat row2 < Table_Count (side_of M D side2)"
    and run: "py_check_ratio ids M D cpu ea1 ea2 side1 row1 side2 row2 src sql_md1 sql_md2 = Inr r"
  defines "t1 \<equiv> side_of M D side1" and "t2 \<equiv> side_of M D side2"
  shows "unit_ratio r \<and>
    (if PyEq (CellOf (ft_Text t1 BytesHashCol) row1) (CellOf (ft_Text t2 BytesHashCol) row2) then r = 1
     else r = 1 \<longrightarrow> column_ratio t1 row1 t2 row2 CleanMicrocodeCol ''clean_microcode'' = Inr 1 \<or>
       (\<exists>md1 md2. md_of t1 row1 src sql_md1 = Inr md1 \<and> md_of t2 row2 src sql_md2 = Inr md2 \<and> flt_eq md1 md2))"
proof -
  note run = run [unfolded py_check_ratio_def Let_def, folded md_of_def column_ratio_def t1_def t2_def]
  note unit = column_ratio_unit [OF ok rows, folded t1_def t2_def]
  from run obtain md1 md2 where md: "md_of t1 row1 src sql_md1 = Inr md1" "md_of t2 row2 src sql_md2 = Inr md2"
    by (auto simp: bindE_eq_Inr)
  note run = run [unfolded md bindE_Inr]
  show ?thesis
  proof (cases "PyEq (CellOf (ft_Text t1 BytesHashCol) row1) (CellOf (ft_Text t2 BytesHashCol) row2)")
    case True
    then show ?thesis using run by simp
  next
    case False
    let ?pseudo = "column_ratio t1 row1 t2 row2 CleanPseudoCol ''clean_pseudo''"
    let ?micro = "column_ratio t1 row1 t2 row2 CleanMicrocodeCol ''clean_microcode''"
    let ?both = "CellOf (ft_Text t1 CleanMicrocodeCol) row1 \<noteq> None \<and> CellOf (ft_Text t2 CleanMicrocodeCol) row2 \<noteq> None"
    let ?finish = "\<lambda>v1 v2 v5.
      if CellOf (ft_Text t1 CleanMicrocodeCol) row1 \<noteq> None \<and> CellOf (ft_Text t2 CleanMicrocodeCol) row2 \<noteq> None \<and> v5 = 1 then Inr 1
      else if best_value md1 md2 [v1, v2, 0, md_score md1 md2 v1 v2, v5] < 1
      then bindE (bindE (deep_rows ids M D ea1 ea2) (\<lambda>(main_row, diff_row). py_deep_ratio M D cpu main_row diff_row))
             (\<lambda>score. Inr (clamp_score (best_value md1 md2 [v1, v2, 0, md_score md1 md2 v1 v2, v5]) score))
      else Inr (best_value md1 md2 [v1, v2, 0, md_score md1 md2 v1 v2, v5])"
    note run = run [unfolded if_not_P [OF False]]
    obtain v1 where v1: "?pseudo = Inr v1 \<or> v1 = 0" and run: "bindE (column_ratio t1 row1 t2 row2 CleanAssemblyCol ''clean_assembly'') (\<lambda>v2.
        bindE (if ?both then ?micro else Inr 0) (?finish v1 v2)) = Inr r"
      using bindE_eq_Inr [THEN iffD1, OF run] by (elim exE conjE) (fastforce split: if_splits)
    obtain v2 v5 where v2: "column_ratio t1 row1 t2 row2 CleanAssemblyCol ''clean_assembly'' = Inr v2"
      and v5: "(if ?both then ?micro else Inr 0) = Inr v5" and run: "?finish v1 v2 v5 = Inr r"
      using run unfolding bindE_eq_Inr by blast
    have v5': "?micro = Inr v5 \<or> v5 = 0" using v5 by (auto split: if_splits)
    let ?b = "best_value md1 md2 [v1, v2, 0, md_score md1 md2 v1 v2, v5]"
    have rest: "?micro = Inr 1 \<and> r = 1 \<or> ?b < 1 \<and> (\<exists>score \<ge> 0. r = clamp_score ?b score) \<or> r = ?b"
    proof (cases "?both \<and> v5 = 1")
      case True
      then show ?thesis using run v5 by simp
    next
      case no: False
      show ?thesis
      proof (cases "?b < 1")
        case True
        then have "bindE (bindE (deep_rows ids M D ea1 ea2) (\<lambda>(main_row, diff_row). py_deep_ratio M D cpu main_row diff_row))
            (\<lambda>score. Inr (clamp_score ?b score)) = Inr r" using run no by (simp only: conj_assoc) simp
        then obtain rows score where "(case rows of (m, d) \<Rightarrow> py_deep_ratio M D cpu m d) = Inr score" "r = clamp_score ?b score"
          unfolding bindE_eq_Inr by blast
        moreover from this(1) have "0 \<le> score" by (cases rows) (auto dest: py_deep_ratio_nonneg)
        ultimately show ?thesis using True by blast
      qed (use run no in auto)
    qed
    have "unit_ratio v1" "unit_ratio v2" "unit_ratio v5" using v1 v2 v5' unit by auto
    then have b: "unit_ratio (best_value md1 md2 [v1, v2, 0, md_score md1 md2 v1 v2, v5]) \<and>
        (best_value md1 md2 [v1, v2, 0, md_score md1 md2 v1 v2, v5] = 1 \<longrightarrow> flt_eq md1 md2)"
      by (intro best_value_unit) (simp_all add: md_score_unit)
    have unit_r: "unit_ratio r \<and> (r = 1 \<longrightarrow> ?micro = Inr 1 \<or> flt_eq md1 md2)"
      using rest
    proof (elim disjE conjE exE)
      fix score assume "0 \<le> score" "r = clamp_score ?b score"
      then show ?thesis using b clamp_score_less [of ?b score] by linarith
    qed (use b in simp_all)
    then show ?thesis using md False by (simp only: if_False) blast
  qed
qed

section \<open>Runs of \<open>check_ratio\<close>\<close>

text \<open>The ratio of two rows: an error when one of them is not a row of its table.\<close>

definition rows_ratio ::
  "Interners \<Rightarrow> FunctionTable \<Rightarrow> FunctionTable \<Rightarrow> bool \<Rightarrow> AddrId \<Rightarrow> AddrId \<Rightarrow> Side \<Rightarrow> 32 word \<Rightarrow> Side \<Rightarrow> 32 word \<Rightarrow> MdSource
     \<Rightarrow> flt option \<Rightarrow> flt option \<Rightarrow> double result" where
  "rows_ratio ids M D same_cpu ea1 ea2 side1 row1 side2 row2 src sql_md1 sql_md2 =
     (if row1 = kNoRow \<or> row2 = kNoRow \<or> unat row1 \<ge> Table_Count (side_of M D side1) \<or> unat row2 \<ge> Table_Count (side_of M D side2)
      then Inl (UnsupportedInput ''check_ratio: an address of the pair has no function row'')
      else py_check_ratio ids M D same_cpu ea1 ea2 side1 row1 side2 row2 src sql_md1 sql_md2)"

text \<open>Python's \<^verbatim>\<open>check_ratio\<close> with its \<^verbatim>\<open>ratios_cache\<close>: the dictionary under the key of the pair, or the
  computed value, which is stored when the computation does not raise.\<close>

definition py_cached_ratio :: "(string \<times> double) list \<Rightarrow> string \<Rightarrow> double result \<Rightarrow> double result \<times> (string \<times> double) list" where
  "py_cached_ratio dict k r =
     (case map_of dict k of
        Some v \<Rightarrow> (Inr v, dict)
      | None \<Rightarrow> (r, case r of Inr v \<Rightarrow> dict @ [(k, v)] | Inl _ \<Rightarrow> dict))"

lemma bindS_assoc: "bindS (bindS m g) h = bindS m (\<lambda>x. bindS (g x) h)"
  by (auto simp: bindS_def fun_eq_iff split: prod.splits sum.splits)

lemma engine_ok_cache [simp]: "engine_ok (e\<lparr>re_Cache := c\<rparr>) = engine_ok e"
  by (simp add: engine_ok_def prepared_now_def columns_prepared_def memo_slots_ok_def)

lemma Impl_CheckRatio_run:
  assumes "engine_ok e" and find: "Cache_Find ids (re_Cache e) ea1 ea2 = (f, c)"
    and r_def: "r = rows_ratio ids (re_Main e) (re_Diff e) (re_IsSameProcessor e) ea1 ea2 side1 row1 side2 row2 src sql_md1 sql_md2"
  shows "\<exists>e1. ready (re_Main e) (re_Diff e) (re_IsSameProcessor e) c e1 \<and>
    Impl_CheckRatio ids ea1 ea2 side1 row1 side2 row2 src sql_md1 sql_md2 e =
      (case f of
         Inl err \<Rightarrow> (Inl err, e\<lparr>re_Cache := c\<rparr>)
       | Inr (Some v) \<Rightarrow> (Inr v, e\<lparr>re_Cache := c\<rparr>)
       | Inr None \<Rightarrow>
           (case r of
              Inl err \<Rightarrow> (Inl err, e1)
            | Inr v \<Rightarrow> (case Cache_Store ids c ea1 ea2 v of
                          (Inl err, c') \<Rightarrow> (Inl err, e1\<lparr>re_Cache := c'\<rparr>)
                        | (Inr _, c') \<Rightarrow> (Inr v, e1\<lparr>re_Cache := c'\<rparr>))))"
proof -
  let ?M = "re_Main e" and ?D = "re_Diff e" and ?cpu = "re_IsSameProcessor e"
  let ?guard = "getS (\<lambda>e. if row1 = kNoRow \<or> row2 = kNoRow \<or> unat row1 \<ge> Table_Count (Table e side1) \<or> unat row2 \<ge> Table_Count (Table e side2)
      then Inl (UnsupportedInput ''check_ratio: an address of the pair has no function row'') else Inr ())"
  let ?body = "bindS EnsurePrepared (\<lambda>_. bindS ?guard (\<lambda>_. Compute ids ea1 ea2 side1 row1 side2 row2 src sql_md1 sql_md2))"
  let ?e = "e\<lparr>re_Cache := c\<rparr>"
  obtain e0 where e0: "EnsurePrepared ?e = (Inr (), e0)" "ready ?M ?D ?cpu c e0"
    using EnsurePrepared_ready [of ?e] assms(1) by auto
  have tables: "tables_ok ?M ?D" using assms(1) by (simp add: engine_ok_def)
  define ok where "ok \<longleftrightarrow> \<not> (row1 = kNoRow \<or> row2 = kNoRow \<or> unat row1 \<ge> Table_Count (side_of ?M ?D side1) \<or> unat row2 \<ge> Table_Count (side_of ?M ?D side2))"
  have guard: "?guard e0 = (if ok then Inr () else Inl (UnsupportedInput ''check_ratio: an address of the pair has no function row''), e0)"
    using ready_slots(3) [OF e0(2)] by (simp add: getS_def ok_def)
  obtain e1 where e1: "?body ?e = (r, e1)" "ready ?M ?D ?cpu c e1"
  proof (cases ok)
    case True
    then have "computes (ready ?M ?D ?cpu c) (py_check_ratio ids ?M ?D ?cpu ea1 ea2 side1 row1 side2 row2 src sql_md1 sql_md2)
        (Compute ids ea1 ea2 side1 row1 side2 row2 src sql_md1 sql_md2)"
      by (intro computes_Compute tables) (simp_all add: ok_def)
    from computesD [OF this e0(2)] True obtain e1 where "Compute ids ea1 ea2 side1 row1 side2 row2 src sql_md1 sql_md2 e0 = (r, e1)"
        "ready ?M ?D ?cpu c e1"
      by (auto simp: r_def rows_ratio_def ok_def prod_eq_iff)
    then show ?thesis using guard True e0(1) that [of e1] by (simp add: bindS_def)
  next
    case False
    then show ?thesis using guard e0 that [of e0] by (auto simp: bindS_def r_def rows_ratio_def ok_def)
  qed
  have store: "Impl_CheckRatio ids ea1 ea2 side1 row1 side2 row2 src sql_md1 sql_md2 e =
      (case f of Inl err \<Rightarrow> (Inl err, ?e) | Inr (Some v) \<Rightarrow> (Inr v, ?e)
       | Inr None \<Rightarrow> bindS ?body (\<lambda>ratio. bindS (Store ids ea1 ea2 ratio) (\<lambda>_. retS ratio)) ?e)"
    by (auto simp: Impl_CheckRatio_def bindS_def [of "Find ids ea1 ea2"] Find_def find retS_def bindS_assoc split: sum.splits option.splits prod.splits)
  have "re_Cache e1 = c" using e1(2) by (simp add: ready_def)
  with e1 store show ?thesis
    by (intro exI [of _ e1]) (auto simp: bindS_def [of ?body] bindS_def [of "Store ids ea1 ea2 v" for v] Store_def retS_def split: sum.splits option.splits prod.splits)
qed

lemma dict_length: "length (cache_dict ids c) = length (ch_Entries c)"
  by (simp add: cache_dict_def)

lemma check_ratio_refines_dict:
  assumes e: "engine_ok e" and wf: "cache_wf ids (re_Cache e)" and k: "known_pair ids ea1 ea2" and room: "length (ch_Entries (re_Cache e)) < 2 ^ 32"
    and run: "Impl_CheckRatio ids ea1 ea2 side1 row1 side2 row2 src sql_md1 sql_md2 e = (res, e')"
  shows "engine_ok e' \<and> cache_wf ids (re_Cache e') \<and> re_Main e' = re_Main e \<and> re_Diff e' = re_Diff e \<and>
    (res, cache_dict ids (re_Cache e')) = py_cached_ratio (cache_dict ids (re_Cache e)) (py_key ids ea1 ea2)
       (rows_ratio ids (re_Main e) (re_Diff e) (re_IsSameProcessor e) ea1 ea2 side1 row1 side2 row2 src sql_md1 sql_md2)"
proof -
  obtain f c where find: "Cache_Find ids (re_Cache e) ea1 ea2 = (f, c)" by fastforce
  from Cache_Find_spec [OF wf k] have f: "f = Inr (map_of (cache_dict ids (re_Cache e)) (py_key ids ea1 ea2))"
    and c: "cache_wf ids c" and dict: "cache_dict ids c = cache_dict ids (re_Cache e)" by (simp_all add: find)
  have room': "length (ch_Entries c) < 2 ^ 32" using room dict dict_length by metis
  define r where "r = rows_ratio ids (re_Main e) (re_Diff e) (re_IsSameProcessor e) ea1 ea2 side1 row1 side2 row2 src sql_md1 sql_md2"
  obtain e1 where e1: "ready (re_Main e) (re_Diff e) (re_IsSameProcessor e) c e1"
    and split: "(res, e') = (case f of
         Inl err \<Rightarrow> (Inl err, e\<lparr>re_Cache := c\<rparr>)
       | Inr (Some v) \<Rightarrow> (Inr v, e\<lparr>re_Cache := c\<rparr>)
       | Inr None \<Rightarrow>
           (case r of
              Inl err \<Rightarrow> (Inl err, e1)
            | Inr v \<Rightarrow> (case Cache_Store ids c ea1 ea2 v of
                          (Inl err, c') \<Rightarrow> (Inl err, e1\<lparr>re_Cache := c'\<rparr>)
                        | (Inr _, c') \<Rightarrow> (Inr v, e1\<lparr>re_Cache := c'\<rparr>))))"
    using Impl_CheckRatio_run [OF e find r_def] run by auto
  have e1': "engine_ok e1" "re_Main e1 = re_Main e" "re_Diff e1 = re_Diff e" "re_Cache e1 = c" using e1 by (simp_all add: ready_def)
  have "engine_ok e' \<and> cache_wf ids (re_Cache e') \<and> re_Main e' = re_Main e \<and> re_Diff e' = re_Diff e \<and>
      (res, cache_dict ids (re_Cache e')) = py_cached_ratio (cache_dict ids (re_Cache e)) (py_key ids ea1 ea2) r"
  proof (cases "map_of (cache_dict ids (re_Cache e)) (py_key ids ea1 ea2)")
    case (Some v)
    then show ?thesis using split f e c dict by (simp add: py_cached_ratio_def)
  next
    case None
    then have new: "py_key ids ea1 ea2 \<notin> set (keys (cache_dict ids c))" by (simp add: map_of_eq_None_keys dict)
    show ?thesis
    proof (cases r)
      case (Inl err)
      then show ?thesis using split None f e1' c dict by (simp add: py_cached_ratio_def)
    next
      case (Inr v)
      obtain c' where "Cache_Store ids c ea1 ea2 v = (Inr (), c')" "cache_wf ids c'" "cache_dict ids c' = cache_dict ids c @ [(py_key ids ea1 ea2, v)]"
        using Cache_Store_spec [OF c k room', of v] new by (cases "Cache_Store ids c ea1 ea2 v") auto
      then show ?thesis using split None f e1' dict Inr by (simp add: py_cached_ratio_def)
    qed
  qed
  then show ?thesis by (simp only: r_def)
qed

section \<open>The engine is a ratio provider\<close>

text \<open>The values in the cache are ratios, and its indices are entries.\<close>

definition cache_unit :: "Cache \<Rightarrow> bool" where
  "cache_unit c \<longleftrightarrow>
     (\<forall>en\<in>set (ch_Entries c). unit_ratio (ce_Ratio en)) \<and>
     (\<forall>i\<in>snd ` set (ch_ById c) \<union> snd ` set (ch_ByText c). unat i < length (ch_Entries c))"

definition provider_ok :: "RatioEngine \<Rightarrow> bool" where
  "provider_ok e \<longleftrightarrow> engine_ok e \<and> cache_unit (re_Cache e)"

lemma new_provider_ok: "tables_ok M D \<Longrightarrow> provider_ok (new_RatioEngine M D same_cpu)"
  by (simp add: provider_ok_def new_engine_ok) (simp add: cache_unit_def new_RatioEngine_def empty_Cache_def)

lemma cache_unit_memo [simp]: "cache_unit (c\<lparr>ch_SimpleById := memo\<rparr>) = cache_unit c"
  by (simp add: cache_unit_def)

lemma SimpleAddr_memo: "\<exists>memo. snd (SimpleAddr ids c a) = c\<lparr>ch_SimpleById := memo\<rparr>"
proof -
  have "\<exists>memo. c = c\<lparr>ch_SimpleById := memo\<rparr>" by (rule exI [of _ "ch_SimpleById c"]) simp
  then show ?thesis by (auto simp: SimpleAddr_def Let_def split: sum.splits)
qed

lemma both_simple_memo: "\<exists>memo. snd (both_simple ids c a b) = c\<lparr>ch_SimpleById := memo\<rparr>"
proof -
  obtain s m1 where 1: "SimpleAddr ids c a = (s, c\<lparr>ch_SimpleById := m1\<rparr>)" using SimpleAddr_memo [of ids c a] by (cases "SimpleAddr ids c a") auto
  obtain m2 where "snd (SimpleAddr ids (c\<lparr>ch_SimpleById := m1\<rparr>) b) = c\<lparr>ch_SimpleById := m2\<rparr>"
    using SimpleAddr_memo [of ids "c\<lparr>ch_SimpleById := m1\<rparr>" b] by auto
  then show ?thesis using 1 by (auto simp: both_simple_def split: sum.splits)
qed

lemma cache_unit_lookup:
  assumes "cache_unit c"
  shows "map_of (ch_ById c) k = Some i \<Longrightarrow> unit_ratio (ce_Ratio (ch_Entries c ! unat i))"
    and "map_of (ch_ByText c) t = Some i \<Longrightarrow> unit_ratio (ce_Ratio (ch_Entries c ! unat i))"
  using assms by (force simp: cache_unit_def dest!: map_of_SomeD)+

lemma Cache_Find_unit:
  assumes "cache_unit c" and "Cache_Find ids c a b = (f, c')"
  shows "cache_unit c' \<and> (f = Inr (Some v) \<longrightarrow> unit_ratio v)"
proof -
  obtain s memo where s: "both_simple ids c a b = (s, c\<lparr>ch_SimpleById := memo\<rparr>)" using both_simple_memo [of ids c a b] by (cases "both_simple ids c a b") auto
  then show ?thesis using assms cache_unit_lookup [OF assms(1)]
    by (auto simp: Cache_Find_def bindE_eq_Inr split: sum.splits if_splits)
qed

lemma Cache_Store_unit:
  assumes "cache_unit c" and "unit_ratio v"
  shows "cache_unit (snd (Cache_Store ids c a b v))"
proof -
  obtain s memo where s: "both_simple ids c a b = (s, c\<lparr>ch_SimpleById := memo\<rparr>)" using both_simple_memo [of ids c a b] by (cases "both_simple ids c a b") auto
  have index: "unat (of_nat n :: 32 word) < Suc n" for n by (simp add: unat_of_nat le_imp_less_Suc)
  have "cache_unit (c\<lparr>ch_SimpleById := memo, ch_ById := fst (emplace k (of_nat (length (ch_Entries c))) (ch_ById c)),
      ch_Entries := ch_Entries c @ (if snd (emplace k (of_nat (length (ch_Entries c))) (ch_ById c)) then [\<lparr>ce_Ea1 = a, ce_Ea2 = b, ce_Ratio = v\<rparr>] else [])\<rparr>)"
    "cache_unit (c\<lparr>ch_SimpleById := memo, ch_ByText := fst (emplace t (of_nat (length (ch_Entries c))) (ch_ByText c)),
      ch_Entries := ch_Entries c @ (if snd (emplace t (of_nat (length (ch_Entries c))) (ch_ByText c)) then [\<lparr>ce_Ea1 = a, ce_Ea2 = b, ce_Ratio = v\<rparr>] else [])\<rparr>)"
    for k t
    using assms index by (auto simp: cache_unit_def emplace_def less_SucI split: option.splits)
  then show ?thesis using assms(1)
    by (simp add: Cache_Store_def Let_def s split_beta split: sum.splits)
qed

lemma Impl_CheckRatio_unit:
  assumes "provider_ok e" and "Impl_CheckRatio ids ea1 ea2 side1 row1 side2 row2 src sql_md1 sql_md2 e = (res, e')"
  shows "provider_ok e' \<and> (\<forall>v. res = Inr v \<longrightarrow> unit_ratio v)"
proof -
  have e: "engine_ok e" "cache_unit (re_Cache e)" using assms(1) by (simp_all add: provider_ok_def)
  obtain f c where find: "Cache_Find ids (re_Cache e) ea1 ea2 = (f, c)" by fastforce
  note c = Cache_Find_unit [OF e(2) find]
  define r where "r = rows_ratio ids (re_Main e) (re_Diff e) (re_IsSameProcessor e) ea1 ea2 side1 row1 side2 row2 src sql_md1 sql_md2"
  have unit: "unit_ratio v" if "r = Inr v" for v
    using that py_check_ratio_unit [of "re_Main e" "re_Diff e" row1 side1 row2 side2] e(1)
    by (auto simp: r_def rows_ratio_def engine_ok_def not_le split: if_splits)
  from Impl_CheckRatio_run [OF e(1) find r_def] assms(2) obtain e1 where "ready (re_Main e) (re_Diff e) (re_IsSameProcessor e) c e1"
    and split: "(res, e') = (case f of
         Inl err \<Rightarrow> (Inl err, e\<lparr>re_Cache := c\<rparr>)
       | Inr (Some v) \<Rightarrow> (Inr v, e\<lparr>re_Cache := c\<rparr>)
       | Inr None \<Rightarrow>
           (case r of
              Inl err \<Rightarrow> (Inl err, e1)
            | Inr v \<Rightarrow> (case Cache_Store ids c ea1 ea2 v of
                          (Inl err, c') \<Rightarrow> (Inl err, e1\<lparr>re_Cache := c'\<rparr>)
                        | (Inr _, c') \<Rightarrow> (Inr v, e1\<lparr>re_Cache := c'\<rparr>))))"
    by auto
  then have e1: "engine_ok e1" "re_Cache e1 = c" by (simp_all add: ready_def)
  have store: "cache_unit c'" if "r = Inr v" "Cache_Store ids c ea1 ea2 v = (x, c')" for v x c'
    using Cache_Store_unit [of c v ids ea1 ea2] c unit [OF that(1)] that(2) by simp
  show ?thesis using split e1 e(1) c unit store
    by (auto simp: provider_ok_def split: sum.splits option.splits prod.splits)
qed

interpretation engine: ratio_provider CheckRatio provider_ok
proof
  fix ids e row src x assume e: "provider_ok e"
  obtain res e' where run: "CheckRatio ids e row src = (res, e')" by fastforce
  note Impl_CheckRatio_unit [OF e run [unfolded CheckRatio_def]]
  then show "provider_ok (snd (CheckRatio ids e row src))" and "fst (CheckRatio ids e row src) = Inr x \<Longrightarrow> x \<le> 1" by (simp_all add: run)
qed

section \<open>Properties of the engine\<close>

text \<open>A table with one row of NULLs, and a row that compares it with itself.\<close>

definition one_null_row :: FunctionTable where
  "one_null_row = empty_FunctionTable\<lparr>ft_Int := (\<lambda>_. \<lparr>ic_Value = [0], ic_IsNull = [True], ic_NotInteger = [False]\<rparr>),
     ft_Text := (\<lambda>_. Text_AppendNull empty_TextColumn), ft_MdSqlReal := [Finite False 0], ft_MdSqlNull := [True],
     ft_SelectFieldsUtf8Bad := [False], ft_AnyColumnUtf8Bad := [False], ft_AddrIdOf := [kNoneAddr]\<rparr>"

definition null_row_pair :: HeuristicRow where
  "null_row_pair = \<lparr>hr_Ea1 = kNoneAddr, hr_Ea2 = kNoneAddr, hr_Row1 = 0, hr_Row2 = 0, hr_Side1 = Main_Side, hr_Side2 = Diff_Side,
     hr_Name1 = kNoneName, hr_Name2 = kNoneName, hr_Desc = 0, hr_Nodes1 = None, hr_Nodes2 = None,
     hr_Md1 = Some (Finite False 1), hr_Md2 = Some (Finite False 2)\<rparr>"

lemma one_null_row_ok: "tables_ok one_null_row one_null_row"
  by (simp add: tables_ok_def table_wf_def one_null_row_def Table_Count_def tc_wf_def ic_wf_def FindRow_def empty_FunctionTable_def
      Text_AppendNull_def empty_TextColumn_def lines_fit_def column_lines_def cell_lines_def text_cell_def)

lemma null_row_equal: "rows_ratio ids one_null_row one_null_row cpu ea1 ea2 Main_Side 0 Diff_Side 0 Sql (Some x) (Some y) = Inr 1"
  by (simp add: rows_ratio_def py_check_ratio_def kNoRow_def Table_Count_def one_null_row_def MdSqlOf_def CellOf_def
      Text_AppendNull_def empty_TextColumn_def PyEq_def)

text \<open>C34. The engine computes Python's \<^verbatim>\<open>check_ratio\<close>: with prepared line columns, values computed once per row and a
  cache keyed by ids, \<^verbatim>\<open>CheckRatio\<close> returns what the direct definition returns from the cells of the two rows and
  the dictionary \<^verbatim>\<open>ratios_cache\<close>, value or error; it stores exactly the new values; and it keeps its invariant.\<close>

theorem check_ratio_is_python:
  assumes "engine_ok e" and "cache_wf ids (re_Cache e)" and "known_pair ids (hr_Ea1 row) (hr_Ea2 row)"
    and "length (ch_Entries (re_Cache e)) < 2 ^ 32" and "CheckRatio ids e row src = (res, e')"
  shows "(res, cache_dict ids (re_Cache e')) =
      py_cached_ratio (cache_dict ids (re_Cache e)) (py_key ids (hr_Ea1 row) (hr_Ea2 row))
        (rows_ratio ids (re_Main e) (re_Diff e) (re_IsSameProcessor e) (hr_Ea1 row) (hr_Ea2 row) (hr_Side1 row) (hr_Row1 row)
           (hr_Side2 row) (hr_Row2 row) src (hr_Md1 row) (hr_Md2 row)) \<and>
    engine_ok e' \<and> cache_wf ids (re_Cache e') \<and> re_Main e' = re_Main e \<and> re_Diff e' = re_Diff e"
  using check_ratio_refines_dict [OF assms(1-4) assms(5) [unfolded CheckRatio_def]] by blast

theorem check_ratio_is_python_witness:
  "fst (CheckRatio empty_Interners (new_RatioEngine one_null_row one_null_row True) null_row_pair Sql) = Inr 1"
proof -
  let ?e = "new_RatioEngine one_null_row one_null_row True"
  obtain res e' where run: "CheckRatio empty_Interners ?e null_row_pair Sql = (res, e')" by fastforce
  have "addrs_wf empty_Interners" by (simp add: addrs_wf_def empty_Interners_def empty_Interner_def interner_wf_def)
  then have wf: "cache_wf empty_Interners (re_Cache ?e)" using cache_wf_empty by (simp add: new_RatioEngine_def)
  have k: "known_pair empty_Interners (hr_Ea1 null_row_pair) (hr_Ea2 null_row_pair)"
    by (simp add: known_pair_def known_addr_iff AddrKeyText_def null_row_pair_def)
  have "length (ch_Entries (re_Cache ?e)) < 2 ^ 32" by (simp add: new_RatioEngine_def empty_Cache_def)
  from check_ratio_is_python [OF new_engine_ok [OF one_null_row_ok] wf k this run]
  have "(res, cache_dict empty_Interners (re_Cache e')) = py_cached_ratio (cache_dict empty_Interners (re_Cache ?e)) (py_key empty_Interners kNoneAddr kNoneAddr) (Inr 1)"
    by (simp add: null_row_pair_def new_RatioEngine_def null_row_equal)
  then have "res = Inr 1" by (simp add: py_cached_ratio_def new_RatioEngine_def cache_dict_def empty_Cache_def)
  then show ?thesis by (simp add: run)
qed

text \<open>C36. Bounds of the ratio: a computed ratio lies between 0 and 1; equal (or both missing) byte hashes give 1; and 1 is
  given otherwise only when the microcode texts have the rounded ratio 1 or the two MD indices are equal, so a pair with
  different MD indices is never declared identical by its texts alone.\<close>

theorem compute_ratio_bounds:
  assumes "engine_ok e" and "prepared_now e" and "unat row1 < Table_Count (Table e side1)" and "unat row2 < Table_Count (Table e side2)"
    and "fst (Compute ids ea1 ea2 side1 row1 side2 row2 src sql_md1 sql_md2 e) = Inr r"
  shows "0 \<le> r \<and> r \<le> 1 \<and>
    (if PyEq (CellOf (ft_Text (Table e side1) BytesHashCol) row1) (CellOf (ft_Text (Table e side2) BytesHashCol) row2) then r = 1
     else r = 1 \<longrightarrow> column_ratio (Table e side1) row1 (Table e side2) row2 CleanMicrocodeCol ''clean_microcode'' = Inr 1 \<or>
       (\<exists>md1 md2. md_of (Table e side1) row1 src sql_md1 = Inr md1 \<and> md_of (Table e side2) row2 src sql_md2 = Inr md2 \<and> flt_eq md1 md2))"
proof -
  have tables: "tables_ok (re_Main e) (re_Diff e)" using assms(1) by (simp add: engine_ok_def)
  note rows = assms(3,4) [unfolded Table_side_of]
  have "ready (re_Main e) (re_Diff e) (re_IsSameProcessor e) (re_Cache e) e" using assms(1,2) by (simp add: ready_def)
  from computesD [OF computes_Compute [OF tables rows] this]
  have "py_check_ratio ids (re_Main e) (re_Diff e) (re_IsSameProcessor e) ea1 ea2 side1 row1 side2 row2 src sql_md1 sql_md2 = Inr r"
    using assms(5) by simp
  from py_check_ratio_unit [OF tables rows this] show ?thesis unfolding Table_side_of by blast
qed

theorem compute_ratio_bounds_witness:
  "(0 :: double) \<le> 1 \<and>
   fst (Compute empty_Interners kNoneAddr kNoneAddr Main_Side 0 Diff_Side 0 Sql (Some (Finite False 1)) (Some (Finite False 2))
     (PrepareAll (new_RatioEngine one_null_row one_null_row True))) = Inr 1"
proof -
  let ?e = "PrepareAll (new_RatioEngine one_null_row one_null_row True)"
  have r: "ready one_null_row one_null_row True empty_Cache ?e"
    using PrepareAll_ready [of "new_RatioEngine one_null_row one_null_row True"] one_null_row_ok by (simp add: new_RatioEngine_def)
  then have t: "Table ?e Main_Side = one_null_row" "Table ?e Diff_Side = one_null_row" using ready_slots(3) [OF r] by simp_all
  have n: "Table_Count one_null_row = 1" by (simp add: Table_Count_def one_null_row_def)
  have run: "fst (Compute empty_Interners kNoneAddr kNoneAddr Main_Side 0 Diff_Side 0 Sql (Some (Finite False 1)) (Some (Finite False 2)) ?e) = Inr 1"
    using computesD [OF computes_Compute [OF one_null_row_ok, of 0 Main_Side 0 Diff_Side] r] null_row_equal [of empty_Interners True kNoneAddr kNoneAddr]
    by (simp add: n rows_ratio_def kNoRow_def)
  have "engine_ok ?e" "prepared_now ?e" using r by (simp_all add: ready_def)
  from compute_ratio_bounds [OF this _ _ run] run n t show ?thesis by simp
qed

end
