(* ===== verification/RowSources.thy ===== *)
theory RowSources
  imports Ratio
begin

text \<open>
  The row sources of \<^verbatim>\<open>include/dsigmatcher/diff/Candidates.h\<close>: \<^verbatim>\<open>SqlRowSource\<close> and
  \<^verbatim>\<open>FetchFunctionRows\<close> of \<^verbatim>\<open>src/diff/Database.cpp\<close>, \<^verbatim>\<open>CuReplaySource\<close> of
  \<^verbatim>\<open>stages/RelatedCompilationUnit.cpp\<close> and the \<^verbatim>\<open>ResultIter\<close> of \<^verbatim>\<open>stages/SmallDifferences.cpp\<close>.

  SQLite is a parameter (\<open>Database\<close>): a query and its binds give a statement or an error. The SQL texts and the
  heuristic registry are generated files (\<^verbatim>\<open>StageSql.inc\<close>, \<^verbatim>\<open>RegistrySql.inc\<close>); they are fields of the
  inputs of a diff, like the two function tables and the configuration, none of which a stage changes. The counters a
  source keeps for reports (\<^verbatim>\<open>Fetched\<close>) are not modelled.
\<close>

section \<open>The inputs of a diff\<close>

record DiffConfig =
  dc_Unreliable :: bool
  dc_RelaxedRatio :: bool
  dc_Experimental :: bool
  dc_SlowHeuristics :: bool
  dc_UseTrainedModel :: bool
  dc_IgnoreSubNames :: bool
  dc_IgnoreAllNames :: bool
  dc_IgnoreSmallFunctions :: bool
  dc_CpuCount :: int
  dc_MaxProcessedRows :: int

definition kSqlDefaultPostfix :: string where
  "kSqlDefaultPostfix = '' and f.instructions > 5 and df.instructions > 5 ''"

definition Postfix :: "DiffConfig \<Rightarrow> string" where
  "Postfix cfg = (if dc_IgnoreSmallFunctions cfg then kSqlDefaultPostfix else [])"

definition kSqlMaxProcessedRows :: int where "kSqlMaxProcessedRows = 1000000"

definition Supported :: "DiffConfig \<Rightarrow> bool" where
  "Supported cfg \<longleftrightarrow>
     \<not> dc_Unreliable cfg \<and> \<not> dc_RelaxedRatio cfg \<and> dc_Experimental cfg \<and> dc_SlowHeuristics cfg \<and> \<not> dc_UseTrainedModel cfg \<and>
     dc_IgnoreSubNames cfg \<and> \<not> dc_IgnoreAllNames cfg \<and> dc_CpuCount cfg = 1 \<and> dc_MaxProcessedRows cfg = kSqlMaxProcessedRows"

datatype HeurType = NoFps | HeurRatio | RatioMax | RatioMaxTrusted

datatype HeurCategory = CatBest | CatPartial | CatUnreliable | CatExperimental

record HeuristicSpec =
  hs_Id :: int
  hs_Name :: string
  hs_Category :: HeurCategory
  hs_RatioType :: HeurType
  hs_Min :: double
  hs_HasMin :: bool
  hs_FlagUnreliable :: bool
  hs_FlagSlow :: bool
  hs_FlagSameCpu :: bool
  hs_Sql :: string

record PlanRow =
  pl_Id :: int
  pl_Parent :: int
  pl_Detail :: string

record Inputs =
  in_Db :: Database
  in_Plan :: "string \<Rightarrow> PlanRow list result"
  in_StageSql :: "(string \<times> string) list"
  in_Heuristics :: "HeuristicSpec list"
  in_Main :: FunctionTable
  in_Diff :: FunctionTable
  in_Config :: DiffConfig
  in_CuNative :: bool
  in_Problems :: "string list"
  in_Reorder :: "(string \<Rightarrow> string \<Rightarrow> string list \<Rightarrow> string list) option"

definition Functions :: "Inputs \<Rightarrow> Side \<Rightarrow> FunctionTable" where
  "Functions E side = (if side = Main_Side then in_Main E else in_Diff E)"

definition LookupStageSql :: "(string \<times> string) list \<Rightarrow> string \<Rightarrow> string" where
  "LookupStageSql table name = (case find (\<lambda>spec. fst spec = name) table of Some spec \<Rightarrow> snd spec | None \<Rightarrow> [])"

abbreviation stage_sql :: "Inputs \<Rightarrow> string \<Rightarrow> string" where
  "stage_sql E name \<equiv> LookupStageSql (in_StageSql E) name"

section \<open>\<open>SqlRowSource\<close>\<close>

definition select_fields_main :: "string list" where
  "select_fields_main = [''ea'', ''name1'', ''pseudo1'', ''asm1'', ''pseudo_primes1'', ''nodes1'', ''md1'', ''clean_assembly1'',
     ''clean_pseudo1'', ''mangled1'', ''clean_micro1'', ''bytes_hash1'', ''edges1'', ''indegree1'', ''outdegree1'', ''instructions1'',
     ''cc1'', ''strongly_connected1'', ''loops1'', ''constants_count1'', ''size1'', ''kgh_hash1'']"

definition select_fields_diff :: "string list" where
  "select_fields_diff = [''ea2'', ''name2'', ''pseudo2'', ''asm2'', ''pseudo_primes2'', ''nodes2'', ''md2'', ''clean_assembly2'',
     ''clean_pseudo2'', ''mangled2'', ''clean_micro2'', ''bytes_hash2'', ''edges2'', ''indegree2'', ''outdegree2'', ''instructions2'',
     ''cc2'', ''strongly_connected2'', ''loops2'', ''constants_count2'', ''size2'', ''kgh_hash2'']"

definition CoveredBySelectFields :: "string \<Rightarrow> bool" where
  "CoveredBySelectFields alias \<longleftrightarrow>
     list_ex (EqualsIgnoreCaseAscii alias) select_fields_main \<or> list_ex (EqualsIgnoreCaseAscii alias) select_fields_diff"

definition ReadNodes :: "SqlCell list \<Rightarrow> nat option \<Rightarrow> string \<Rightarrow> int option result" where
  "ReadNodes cells column alias =
     (case column of
        None \<Rightarrow> Inr None
      | Some i \<Rightarrow>
          (case sc_Type (cells ! i) of
             SqlNull \<Rightarrow> Inr None
           | SqlInteger \<Rightarrow> Inr (Some (sc_Int (cells ! i)))
           | _ \<Rightarrow> Inl (UnsupportedInput (''row alias '' @ quote @ alias @ quote @
                     '' is not INTEGER or NULL (int() semantics not emulated)''))))"

definition ReadMd :: "SqlCell list \<Rightarrow> nat option \<Rightarrow> string \<Rightarrow> flt option result" where
  "ReadMd cells column alias =
     (case column of
        None \<Rightarrow> Inr None
      | Some i \<Rightarrow>
          (case sc_Type (cells ! i) of
             SqlNull \<Rightarrow> Inr None
           | SqlReal \<Rightarrow> Inr (Some (sc_Real (cells ! i)))
           | SqlInteger \<Rightarrow> Inr (Some (nearest (sc_Int (cells ! i) < 0) (of_int \<bar>sc_Int (cells ! i)\<bar>)))
           | _ \<Rightarrow> Inl (UnsupportedInput (''row alias '' @ quote @ alias @ quote @ '' is not REAL or NULL''))))"

text \<open>The columns found by \<^verbatim>\<open>Start\<close>, once the statement is prepared.\<close>

record RowColumns =
  rw_Ea :: nat
  rw_Name1 :: nat
  rw_Ea2 :: nat
  rw_Name2 :: nat
  rw_Desc :: nat
  rw_Nodes1 :: "nat option"
  rw_Nodes2 :: "nat option"
  rw_Md1 :: "nat option"
  rw_Md2 :: "nat option"
  rw_DirectUtf8 :: "nat list"

definition Start :: "Database \<Rightarrow> string \<Rightarrow> BindValue list \<Rightarrow> (Statement \<times> RowColumns) result" where
  "Start db sql binds =
     bindE (db sql binds) (\<lambda>st.
       let find_col = FindColumn (st_Columns st)
       in case (find_col ''ea'', find_col ''name1'', find_col ''ea2'', find_col ''name2'', find_col ''description'') of
            (Some ea, Some name1, Some ea2, Some name2, Some desc) \<Rightarrow>
              Inr (st, \<lparr>rw_Ea = ea, rw_Name1 = name1, rw_Ea2 = ea2, rw_Name2 = name2, rw_Desc = desc,
                        rw_Nodes1 = find_col ''nodes1'', rw_Nodes2 = find_col ''nodes2'',
                        rw_Md1 = find_col ''md1'', rw_Md2 = find_col ''md2'',
                        rw_DirectUtf8 = filter (\<lambda>i. \<not> CoveredBySelectFields (st_Columns st ! i)) [0..<length (st_Columns st)]\<rparr>)
          | _ \<Rightarrow> Inl (UnsupportedInput
                    ''SqlRowSource: the query does not select SELECT_FIELDS (ea, name1, ea2, name2, description)''))"

definition MapAddress :: "SqlCell \<Rightarrow> string \<Rightarrow> (Interners, AddrId) action" where
  "MapAddress cell alias ids =
     (if sc_Type cell \<noteq> SqlText
      then (Inl (UnsupportedInput (''row alias '' @ quote @ alias @ quote @ '' is '' @
              (if sc_Type cell = SqlNull then ''NULL'' else ''not TEXT'') @ '' (input quirk not emulated)'')), ids)
      else (case AddrOf ids (sc_Bytes cell) of (ea, ids') \<Rightarrow> (Inr ea, ids')))"

definition MapName :: "SqlCell \<Rightarrow> string \<Rightarrow> (Interners, NameId) action" where
  "MapName cell alias ids =
     (if sc_Type cell = SqlNull then (Inr kNoneName, ids)
      else if sc_Type cell \<noteq> SqlText
      then (Inl (UnsupportedInput (''row alias '' @ quote @ alias @ quote @ '' is not TEXT or NULL'')), ids)
      else (case NameOf ids (sc_Bytes cell) of (name, ids') \<Rightarrow> (Inr name, ids')))"

definition MapDesc :: "SqlCell \<Rightarrow> (Interners, DescId) action" where
  "MapDesc cell ids =
     (if sc_Type cell \<noteq> SqlText then (Inl (UnsupportedInput (''row alias '' @ quote @ ''description'' @ quote @ '' is not TEXT'')), ids)
      else (case DescOf ids (sc_Bytes cell) of (desc, ids') \<Rightarrow> (Inr desc, ids')))"

text \<open>The row of the function table at the address of a cell.\<close>

definition row_at :: "FunctionTable \<Rightarrow> Interners \<Rightarrow> SqlCell \<Rightarrow> 32 word" where
  "row_at t ids cell =
     (if sc_Type cell = SqlText
      then (case FindAddr ids (sc_Bytes cell) of
              Some ea \<Rightarrow> (case FindRow t ea of Some row \<Rightarrow> row | None \<Rightarrow> kNoRow)
            | None \<Rightarrow> kNoRow)
      else kNoRow)"

text \<open>Python decodes every TEXT column when it fetches the row.\<close>

definition decode_row :: "Inputs \<Rightarrow> string list \<Rightarrow> RowColumns \<Rightarrow> SqlCell list \<Rightarrow> 32 word \<Rightarrow> 32 word \<Rightarrow> unit result" where
  "decode_row E columns cols cells row1 row2 =
     (let where_at = '' of the row ea '' @ sc_Bytes (cells ! rw_Ea cols) @ '', ea2 '' @ sc_Bytes (cells ! rw_Ea2 cols)
      in if (row1 \<noteq> kNoRow \<and> ft_SelectFieldsUtf8Bad (in_Main E) ! unat row1) \<or>
            (row2 \<noteq> kNoRow \<and> ft_SelectFieldsUtf8Bad (in_Diff E) ! unat row2)
         then Inl (DiaphoraWouldRaise ''fetch''
                (''Could not decode to UTF-8 a SELECT_FIELDS column (invalid UTF-8)'' @ where_at))
         else (case find (\<lambda>i. bad_utf8 (cells ! i)) (rw_DirectUtf8 cols) of
                 Some i \<Rightarrow> Inl (DiaphoraWouldRaise ''fetch''
                   (''Could not decode to UTF-8 column '' @ quote @ columns ! i @ quote @ where_at))
               | None \<Rightarrow> Inr ()))"

text \<open>\<^verbatim>\<open>SqlRowSource::Next\<close> after a step that has a row.\<close>

definition SqlRow :: "Inputs \<Rightarrow> string list \<Rightarrow> RowColumns \<Rightarrow> SqlCell list \<Rightarrow> fetch" where
  "SqlRow E columns cols cells =
     bindS (getS (\<lambda>ids. Inr (row_at (in_Main E) ids (cells ! rw_Ea cols), row_at (in_Diff E) ids (cells ! rw_Ea2 cols)))) (\<lambda>(row1, row2).
     bindS (getS (\<lambda>ids. decode_row E columns cols cells row1 row2)) (\<lambda>_.
     bindS (MapAddress (cells ! rw_Ea cols) ''ea'') (\<lambda>ea1.
     bindS (MapAddress (cells ! rw_Ea2 cols) ''ea2'') (\<lambda>ea2.
     bindS (MapName (cells ! rw_Name1 cols) ''name1'') (\<lambda>name1.
     bindS (MapName (cells ! rw_Name2 cols) ''name2'') (\<lambda>name2.
     bindS (MapDesc (cells ! rw_Desc cols)) (\<lambda>desc.
     bindS (getS (\<lambda>ids. ReadNodes cells (rw_Nodes1 cols) ''nodes1'')) (\<lambda>nodes1.
     bindS (getS (\<lambda>ids. ReadNodes cells (rw_Nodes2 cols) ''nodes2'')) (\<lambda>nodes2.
     bindS (getS (\<lambda>ids. ReadMd cells (rw_Md1 cols) ''md1'')) (\<lambda>md1.
     bindS (getS (\<lambda>ids. ReadMd cells (rw_Md2 cols) ''md2'')) (\<lambda>md2.
     retS \<lparr>hr_Ea1 = ea1, hr_Ea2 = ea2, hr_Row1 = row1, hr_Row2 = row2, hr_Side1 = Main_Side, hr_Side2 = Diff_Side,
           hr_Name1 = name1, hr_Name2 = name2, hr_Desc = desc, hr_Nodes1 = nodes1, hr_Nodes2 = nodes2,
           hr_Md1 = md1, hr_Md2 = md2\<rparr>)))))))))))"

text \<open>The calls of \<^verbatim>\<open>Next\<close> that do not report the end, in order: each with the columns and the cells that
  \<^verbatim>\<open>Current()\<close> shows afterwards. A failing \<^verbatim>\<open>Start\<close> is the first call, a failing step the last one.\<close>

definition failing :: "diff_error \<Rightarrow> fetch" where
  "failing e ids = (Inl e, ids)"

definition SqlCursor :: "Inputs \<Rightarrow> string \<Rightarrow> BindValue list \<Rightarrow> (fetch \<times> string list \<times> SqlCell list) list" where
  "SqlCursor E sql binds =
     (case Start (in_Db E) sql binds of
        Inl e \<Rightarrow> [(failing e, [], [])]
      | Inr (st, cols) \<Rightarrow>
          map (\<lambda>cells. (SqlRow E (st_Columns st) cols cells, st_Columns st, cells)) (st_Rows st) @
          (case st_Error st of None \<Rightarrow> [] | Some e \<Rightarrow> [(failing e, st_Columns st, [])]))"

definition SqlRows :: "Inputs \<Rightarrow> string \<Rightarrow> BindValue list \<Rightarrow> rows" where
  "SqlRows E sql binds = map fst (SqlCursor E sql binds)"

section \<open>\<open>FetchFunctionRows\<close>\<close>

record FunctionRowRef =
  fr_Which :: Side
  fr_Row :: "32 word"

definition function_row_ref :: "Inputs \<Rightarrow> Interners \<Rightarrow> nat \<Rightarrow> nat option \<Rightarrow> Side \<Rightarrow> SqlCell list \<Rightarrow> FunctionRowRef result" where
  "function_row_ref E ids col_address col_db default_side cells =
     (let which = (case col_db of
                     None \<Rightarrow> default_side
                   | Some i \<Rightarrow> if sc_Bytes (cells ! i) = ''diff'' then Diff_Side else Main_Side);
          t = Functions E which; row = row_at t ids (cells ! col_address)
      in if row \<noteq> kNoRow \<and> ft_AnyColumnUtf8Bad t ! unat row
         then Inl (DiaphoraWouldRaise ''fetch''
                (''Could not decode to UTF-8 a functions column (invalid UTF-8) of the function at address '' @ sc_Bytes (cells ! col_address)))
         else Inr \<lparr>fr_Which = which, fr_Row = row\<rparr>)"

text \<open>The outcomes of the steps of a statement.\<close>

definition steps :: "Statement \<Rightarrow> (diff_error + SqlCell list) list" where
  "steps st = map Inr (st_Rows st) @ (case st_Error st of None \<Rightarrow> [] | Some e \<Rightarrow> [Inl e])"

fun collect :: "('a \<Rightarrow> 'b result) \<Rightarrow> (diff_error + 'a) list \<Rightarrow> 'b list result" where
  "collect f [] = Inr []"
| "collect f (Inl e # rest) = Inl e"
| "collect f (Inr x # rest) = bindE (f x) (\<lambda>y. bindE (collect f rest) (\<lambda>ys. Inr (y # ys)))"

text \<open>\<^verbatim>\<open>Limit\<close> is \<open>None\<close> for its default \<^verbatim>\<open>SIZE_MAX\<close>.\<close>

definition FetchFunctionRows ::
  "Inputs \<Rightarrow> Interners \<Rightarrow> string \<Rightarrow> BindValue list \<Rightarrow> Side \<Rightarrow> nat option \<Rightarrow> FunctionRowRef list result" where
  "FetchFunctionRows E ids sql binds default_side limit =
     (if limit = Some 0 then Inr []
      else bindE (in_Db E sql binds) (\<lambda>st.
        case FindColumn (st_Columns st) ''address'' of
          None \<Rightarrow> Inl (UnsupportedInput ''FetchFunctionRows: the query does not select `address`'')
        | Some col_address \<Rightarrow>
            collect (function_row_ref E ids col_address (FindColumn (st_Columns st) ''db_name'') default_side)
              (case limit of None \<Rightarrow> steps st | Some n \<Rightarrow> take n (steps st))))"

section \<open>\<open>CuReplaySource\<close>\<close>

text \<open>IEEE \<^verbatim>\<open><=\<close>: false when a side is not a number.\<close>

fun flt_le :: "flt \<Rightarrow> flt \<Rightarrow> bool" where
  "flt_le (Finite n m) (Finite n' m') \<longleftrightarrow> flt_value n m \<le> flt_value n' m'"
| "flt_le (Infinity n) (Infinity n') \<longleftrightarrow> n \<or> \<not> n'"
| "flt_le (Infinity n) (Finite _ _) \<longleftrightarrow> n"
| "flt_le (Finite _ _) (Infinity n') \<longleftrightarrow> \<not> n'"
| "flt_le _ _ \<longleftrightarrow> False"

definition RowsInRange :: "FunctionTable \<Rightarrow> flt \<Rightarrow> flt \<Rightarrow> 32 word list" where
  "RowsInRange t lo hi =
     map of_nat (filter (\<lambda>row. \<not> ft_AddressSqlNull t ! row \<and> flt_le lo (ft_AddressSqlReal t ! row) \<and> flt_le (ft_AddressSqlReal t ! row) hi)
       [0..<Table_Count t])"

record CuReplay =
  cu_Rows1 :: "32 word list"
  cu_Rows2 :: "32 word list"
  cu_Outer :: nat
  cu_Inner :: nat

definition CuReplaySource :: "Inputs \<Rightarrow> flt \<Rightarrow> flt \<Rightarrow> flt \<Rightarrow> flt \<Rightarrow> CuReplay" where
  "CuReplaySource E lo1 hi1 lo2 hi2 =
     \<lparr>cu_Rows1 = RowsInRange (in_Main E) lo1 hi1, cu_Rows2 = RowsInRange (in_Diff E) lo2 hi2, cu_Outer = 0, cu_Inner = 0\<rparr>"

text \<open>The conversions of \<^verbatim>\<open>Fill\<close>, on the cells of the tables.\<close>

definition CuNodes :: "IntColumn \<Rightarrow> 32 word \<Rightarrow> string \<Rightarrow> int option result" where
  "CuNodes column row alias =
     (if ic_IsNull column ! unat row then Inr None
      else if ic_NotInteger column ! unat row
      then Inl (UnsupportedInput (''row alias '' @ quote @ alias @ quote @ '' is not INTEGER or NULL (int() semantics not emulated)''))
      else Inr (Some (ic_Value column ! unat row)))"

definition CuMd :: "FunctionTable \<Rightarrow> 32 word \<Rightarrow> flt option" where
  "CuMd t row = (if ft_MdSqlNull t ! unat row then None else Some (ft_MdSqlReal t ! unat row))"

definition Fill :: "Inputs \<Rightarrow> DescId \<Rightarrow> 32 word \<Rightarrow> 32 word \<Rightarrow> HeuristicRow result" where
  "Fill E desc r1 r2 =
     (let M = in_Main E; D = in_Diff E;
          blob1 = tc_IsBlob (ft_Text M AddressCol) ! unat r1; blob2 = tc_IsBlob (ft_Text D AddressCol) ! unat r2;
          refuse = (\<lambda>alias why. Inl (UnsupportedInput (''row alias '' @ quote @ alias @ quote @ why)))
      in if (\<not> blob1 \<and> ft_SelectFieldsUtf8Bad M ! unat r1) \<or> (\<not> blob2 \<and> ft_SelectFieldsUtf8Bad D ! unat r2)
         then Inl (DiaphoraWouldRaise ''fetch'' ''Could not decode to UTF-8 a SELECT_FIELDS column (invalid UTF-8)'')
         else if blob1 then refuse ''ea'' '' is not TEXT (input quirk not emulated)''
         else if blob2 then refuse ''ea2'' '' is not TEXT (input quirk not emulated)''
         else if tc_IsBlob (ft_Text M NameCol) ! unat r1 then refuse ''name1'' '' is not TEXT or NULL''
         else if tc_IsBlob (ft_Text D NameCol) ! unat r2 then refuse ''name2'' '' is not TEXT or NULL''
         else
           bindE (CuNodes (ft_Int M NodesCol) r1 ''nodes1'') (\<lambda>nodes1.
           bindE (CuNodes (ft_Int D NodesCol) r2 ''nodes2'') (\<lambda>nodes2.
           Inr \<lparr>hr_Ea1 = ft_AddrIdOf M ! unat r1, hr_Ea2 = ft_AddrIdOf D ! unat r2, hr_Row1 = r1, hr_Row2 = r2,
                hr_Side1 = Main_Side, hr_Side2 = Diff_Side, hr_Name1 = ft_NameIdOf M ! unat r1, hr_Name2 = ft_NameIdOf D ! unat r2,
                hr_Desc = desc, hr_Nodes1 = nodes1, hr_Nodes2 = nodes2, hr_Md1 = CuMd M r1, hr_Md2 = CuMd D r2\<rparr>)))"

text \<open>\<^verbatim>\<open>CuReplaySource::Next\<close>: the pair of rows it fills in, and the cursor moved on.\<close>

definition CuNext :: "CuReplay \<Rightarrow> ((32 word \<times> 32 word) \<times> CuReplay) option" where
  "CuNext c =
     (if cu_Rows2 c = [] \<or> cu_Outer c \<ge> length (cu_Rows1 c) then None
      else Some ((cu_Rows1 c ! cu_Outer c, cu_Rows2 c ! cu_Inner c),
                 if Suc (cu_Inner c) = length (cu_Rows2 c) then c\<lparr>cu_Inner := 0, cu_Outer := Suc (cu_Outer c)\<rparr>
                 else c\<lparr>cu_Inner := Suc (cu_Inner c)\<rparr>))"

fun cu_pairs :: "nat \<Rightarrow> CuReplay \<Rightarrow> (32 word \<times> 32 word) list" where
  "cu_pairs 0 c = []"
| "cu_pairs (Suc fuel) c = (case CuNext c of None \<Rightarrow> [] | Some (p, c') \<Rightarrow> p # cu_pairs fuel c')"

text \<open>The rows a consumer reads: there are at most \<open>length Rows1 * length Rows2\<close> calls with a row.\<close>

definition CuRows :: "Inputs \<Rightarrow> DescId \<Rightarrow> CuReplay \<Rightarrow> rows" where
  "CuRows E desc c =
     map (\<lambda>(r1, r2) ids. (Fill E desc r1 r2, ids)) (cu_pairs (Suc (length (cu_Rows1 c) * length (cu_Rows2 c))) c)"

section \<open>\<open>ResultIter\<close>\<close>

record SmallRow =
  sr_Row :: HeuristicRow
  sr_FNames :: "string option"
  sr_DfNames :: "string option"

record ResultIter =
  ri_Source :: "(fetch \<times> string list \<times> SqlCell list) list"
  ri_Batch :: "SmallRow list"
  ri_Pos :: nat
  ri_Ahead :: "SmallRow option"
  ri_Deferred :: "diff_error option"
  ri_Exhausted :: bool

definition kArraySize :: nat where "kArraySize = 1000"

definition new_ResultIter :: "Inputs \<Rightarrow> string \<Rightarrow> ResultIter" where
  "new_ResultIter E sql =
     \<lparr>ri_Source = SqlCursor E sql [], ri_Batch = [], ri_Pos = 0, ri_Ahead = None, ri_Deferred = None, ri_Exhausted = False\<rparr>"

text \<open>\<^verbatim>\<open>ResultIter::Names\<close>.\<close>

definition NamesCell :: "SqlCell \<Rightarrow> string \<Rightarrow> string option result" where
  "NamesCell cell alias =
     (case sc_Type cell of
        SqlNull \<Rightarrow> Inr None
      | SqlText \<Rightarrow> Inr (Some (sc_Bytes cell))
      | SqlBlob \<Rightarrow> Inl (UnsupportedInput (''search_small_differences: '' @ alias @ '' is a BLOB (json.loads(bytes) not ported)''))
      | _ \<Rightarrow> Inl (DiaphoraWouldRaise ''D:2119-2120 TypeError''
                (''the JSON object must be str, bytes or bytearray ('' @ alias @ '')'')))"

text \<open>What one fetch makes of a step that has a row: the conversion by \<open>SqlRowSource\<close>, then the two extra columns.\<close>

definition small_row :: "fetch \<times> string list \<times> SqlCell list \<Rightarrow> (Interners, SmallRow) action" where
  "small_row = (\<lambda>(fetched, columns, cells).
     bindS fetched (\<lambda>row.
       case (FindColumn columns ''f_names'', FindColumn columns ''df_names'') of
         (Some i, Some j) \<Rightarrow>
           bindS (getS (\<lambda>ids. NamesCell (cells ! i) ''f_names'')) (\<lambda>f_names.
           bindS (getS (\<lambda>ids. NamesCell (cells ! j) ''df_names'')) (\<lambda>df_names.
           retS \<lparr>sr_Row = row, sr_FNames = f_names, sr_DfNames = df_names\<rparr>))
       | _ \<Rightarrow> getS (\<lambda>ids. Inl (UnsupportedInput ''search_small_differences: the query lacks f_names / df_names''))))"

definition Fetch :: "(Interners \<times> ResultIter, SmallRow option) action" where
  "Fetch s =
     (case ri_Source (snd s) of
        [] \<Rightarrow> (Inr None, s)
      | step # rest \<Rightarrow>
          (case small_row step (fst s) of
             (Inl e, ids) \<Rightarrow> (Inl e, ids, (snd s)\<lparr>ri_Source := rest\<rparr>)
           | (Inr row, ids) \<Rightarrow> (Inr (Some row), ids, (snd s)\<lparr>ri_Source := rest\<rparr>)))"

text \<open>The loop of \<^verbatim>\<open>Fill\<close>. Its fuel is the number of calls with a row that the source has left, and one for the
  call that reports the end.\<close>

fun fill_batch :: "nat \<Rightarrow> (Interners \<times> ResultIter, unit) action" where
  "fill_batch 0 = retS ()"
| "fill_batch (Suc fuel) =
     bindS (getS (\<lambda>s. Inr (\<not> ri_Exhausted (snd s) \<and> length (ri_Batch (snd s)) < kArraySize))) (\<lambda>more_rows.
       if \<not> more_rows then retS ()
       else bindS Fetch (\<lambda>fetched.
         case fetched of
           None \<Rightarrow> modS (\<lambda>(ids, it). (ids, it\<lparr>ri_Exhausted := True\<rparr>))
         | Some row \<Rightarrow> bindS (modS (\<lambda>(ids, it). (ids, it\<lparr>ri_Batch := ri_Batch it @ [row]\<rparr>))) (\<lambda>_. fill_batch fuel)))"

text \<open>The step to the row behind a full batch, with its three handlers.\<close>

definition look_ahead :: "(Interners \<times> ResultIter, unit) action" where
  "look_ahead s =
     (case Fetch s of
        (Inr (Some row), ids, it) \<Rightarrow> (Inr (), ids, it\<lparr>ri_Ahead := Some row\<rparr>)
      | (Inr None, ids, it) \<Rightarrow> (Inr (), ids, it\<lparr>ri_Exhausted := True\<rparr>)
      | (Inl e, ids, it) \<Rightarrow>
          (case e of
             DiaphoraWouldRaise site detail \<Rightarrow>
               if site = ''sqlite3_step'' then (Inl e, ids, it\<lparr>ri_Batch := []\<rparr>) else (Inr (), ids, it\<lparr>ri_Deferred := Some e\<rparr>)
           | IoFailure _ \<Rightarrow> (Inl e, ids, it\<lparr>ri_Batch := []\<rparr>)
           | SqliteEnvironmentFailure _ _ \<Rightarrow> (Inl e, ids, it\<lparr>ri_Batch := []\<rparr>)
           | _ \<Rightarrow> (Inr (), ids, it\<lparr>ri_Deferred := Some e\<rparr>)))"

definition FillBatch :: "(Interners \<times> ResultIter, unit) action" where
  "FillBatch s =
     (let ids = fst s; it = (snd s)\<lparr>ri_Batch := [], ri_Pos := 0\<rparr>
      in case ri_Deferred it of
           Some e \<Rightarrow> (Inl e, ids, it\<lparr>ri_Deferred := None, ri_Exhausted := True\<rparr>)
         | None \<Rightarrow>
             (let it1 = (case ri_Ahead it of
                           Some row \<Rightarrow> it\<lparr>ri_Batch := [row], ri_Ahead := None\<rparr>
                         | None \<Rightarrow> it)
              in bindS (fill_batch (Suc (length (ri_Source it1)))) (\<lambda>_.
                 bindS (getS (\<lambda>s. Inr (\<not> ri_Exhausted (snd s) \<and> length (ri_Batch (snd s)) = kArraySize))) (\<lambda>full.
                 if full then look_ahead else retS ())) (ids, it1)))"

definition IterNext :: "(Interners \<times> ResultIter, SmallRow option) action" where
  "IterNext =
     bindS (getS (\<lambda>s. Inr (ri_Pos (snd s) \<ge> length (ri_Batch (snd s))))) (\<lambda>used_up.
     bindS (getS (\<lambda>s. Inr (used_up \<and> ri_Exhausted (snd s) \<and> ri_Deferred (snd s) = None \<and> ri_Ahead (snd s) = None))) (\<lambda>finished.
     if finished then retS None
     else
       bindS (if used_up then FillBatch else retS ()) (\<lambda>_.
       bindS (getS (\<lambda>s. Inr (used_up \<and> ri_Batch (snd s) = []))) (\<lambda>nothing.
       if nothing then retS None
       else
         bindS (getS (\<lambda>s. Inr (ri_Batch (snd s) ! ri_Pos (snd s)))) (\<lambda>row.
         bindS (modS (\<lambda>(ids, it). (ids, it\<lparr>ri_Pos := Suc (ri_Pos it)\<rparr>))) (\<lambda>_.
         retS (Some row)))))))"

section \<open>Fetches only intern\<close>

lemma names_le_refl [simp]: "names_le ids ids"
  by (simp add: names_le_def)

lemma names_le_trans: "names_le a b \<Longrightarrow> names_le b c \<Longrightarrow> names_le a c"
  by (simp add: names_le_def)

lemma Intern_keeps_text: "Interner_Text I i = Inr t \<Longrightarrow> Interner_Text (snd (Intern I text)) i = Inr t"
  by (auto simp: Interner_Text_def Intern_def Let_def nth_append split: option.splits if_splits)

lemma names_le_NameOf: "names_le ids (snd (NameOf ids t))" and names_le_AddrOf: "names_le ids (snd (AddrOf ids t))"
  and names_le_DescOf: "names_le ids (snd (DescOf ids t))"
  by (simp_all add: names_le_def NameOf_def AddrOf_def DescOf_def split_beta Intern_keeps_text)

text \<open>An action on the id tables that keeps the texts of known names.\<close>

definition interning :: "(Interners, 'a) action \<Rightarrow> bool" where
  "interning m \<longleftrightarrow> (\<forall>ids. names_le ids (snd (m ids)))"

lemma interning_interns: "interning m = interns m" for m :: fetch
  by (simp add: interning_def interns_def)

lemma interning_bindS: "interning m \<Longrightarrow> (\<And>x. interning (f x)) \<Longrightarrow> interning (bindS m f)"
  unfolding interning_def bindS_def by (auto split: prod.splits sum.splits) (metis names_le_trans snd_conv)+

lemma interning_steps: "interning (retS x)" "interning (getS g)" "interning (MapAddress cell alias)" "interning (MapName cell alias)" "interning (MapDesc cell)"
  using names_le_NameOf names_le_AddrOf names_le_DescOf
  by (auto simp: interning_def retS_def getS_def MapAddress_def MapName_def MapDesc_def split_beta)

lemmas interning_intros = interning_bindS interning_steps

lemma SqlRow_interns: "interns (SqlRow E columns cols cells)"
  unfolding interning_interns [symmetric] SqlRow_def by (intro interning_intros) (auto intro!: interning_intros simp: split_beta)

lemma failing_interns: "interns (failing e)"
  by (simp add: interns_def failing_def)

lemma SqlCursor_interns: "(fetched, columns, cells) \<in> set (SqlCursor E sql binds) \<Longrightarrow> interns fetched"
  by (auto simp: SqlCursor_def SqlRow_interns failing_interns split: sum.splits option.splits)

lemma SqlRows_intern: "list_all interns (SqlRows E sql binds)"
  using SqlCursor_interns by (fastforce simp: SqlRows_def list_all_iff)

lemma CuRows_intern: "list_all interns (CuRows E desc c)"
  by (auto simp: CuRows_def list_all_iff interns_def)

section \<open>The replay enumerates the product\<close>

lemma cu_pairs_from:
  assumes "cu_Inner c < length (cu_Rows2 c)" and "(length (cu_Rows1 c) - cu_Outer c) * length (cu_Rows2 c) < fuel + cu_Inner c"
  shows "cu_pairs fuel c =
    (if cu_Outer c < length (cu_Rows1 c)
     then map (Pair (cu_Rows1 c ! cu_Outer c)) (drop (cu_Inner c) (cu_Rows2 c)) @
          List.product (drop (Suc (cu_Outer c)) (cu_Rows1 c)) (cu_Rows2 c)
     else [])"
  using assms
proof (induction fuel arbitrary: c)
  case 0
  then have "(length (cu_Rows1 c) - cu_Outer c) * length (cu_Rows2 c) < length (cu_Rows2 c)" by linarith
  then have "length (cu_Rows1 c) - cu_Outer c = 0" by (cases "length (cu_Rows1 c) - cu_Outer c") auto
  then show ?case by simp
next
  case (Suc fuel)
  have r2: "cu_Rows2 c \<noteq> []" using Suc.prems(1) by auto
  show ?case
  proof (cases "cu_Outer c < length (cu_Rows1 c)")
    case True
    then obtain n where n: "length (cu_Rows1 c) - cu_Outer c = Suc n" by (metis Suc_diff_Suc)
    show ?thesis
    proof (cases "Suc (cu_Inner c) = length (cu_Rows2 c)")
      case wrap: True
      let ?c = "c\<lparr>cu_Inner := 0, cu_Outer := Suc (cu_Outer c)\<rparr>"
      have "length (cu_Rows1 c) - Suc (cu_Outer c) = n" using n by simp
      then have "(length (cu_Rows1 ?c) - cu_Outer ?c) * length (cu_Rows2 ?c) < fuel + cu_Inner ?c"
        using Suc.prems(2) n wrap by simp
      then have "cu_pairs fuel ?c = (if Suc (cu_Outer c) < length (cu_Rows1 c)
          then map (Pair (cu_Rows1 c ! Suc (cu_Outer c))) (cu_Rows2 c) @ List.product (drop (Suc (Suc (cu_Outer c))) (cu_Rows1 c)) (cu_Rows2 c) else [])"
        using Suc.IH [of ?c] r2 by simp
      also have "\<dots> = List.product (drop (Suc (cu_Outer c)) (cu_Rows1 c)) (cu_Rows2 c)"
        by (auto simp: Cons_nth_drop_Suc [symmetric])
      moreover have "drop (cu_Inner c) (cu_Rows2 c) = [cu_Rows2 c ! cu_Inner c]"
        using Cons_nth_drop_Suc [OF Suc.prems(1)] wrap by simp
      ultimately show ?thesis using True r2 wrap by (simp add: CuNext_def)
    next
      case False
      let ?c = "c\<lparr>cu_Inner := Suc (cu_Inner c)\<rparr>"
      from False Suc.prems have "cu_pairs fuel ?c = map (Pair (cu_Rows1 c ! cu_Outer c)) (drop (Suc (cu_Inner c)) (cu_Rows2 c)) @
          List.product (drop (Suc (cu_Outer c)) (cu_Rows1 c)) (cu_Rows2 c)"
        using Suc.IH [of ?c] True by simp
      moreover have "drop (cu_Inner c) (cu_Rows2 c) = cu_Rows2 c ! cu_Inner c # drop (Suc (cu_Inner c)) (cu_Rows2 c)"
        using Cons_nth_drop_Suc [OF Suc.prems(1)] by simp
      ultimately show ?thesis using True False r2 by (simp add: CuNext_def)
    qed
  qed (simp add: CuNext_def)
qed

lemma cu_pairs_product:
  assumes "cu_Outer c = 0" and "cu_Inner c = 0"
  shows "cu_pairs (Suc (length (cu_Rows1 c) * length (cu_Rows2 c))) c = List.product (cu_Rows1 c) (cu_Rows2 c)"
proof (cases "cu_Rows2 c = [] \<or> cu_Rows1 c = []")
  case True
  then show ?thesis by (auto simp: CuNext_def assms product_concat_map)
next
  case False
  then show ?thesis using cu_pairs_from [of c] assms by (cases "cu_Rows1 c") (simp_all del: cu_pairs.simps)
qed

section \<open>Batches of rows\<close>

text \<open>The rows a source yields and the error that ends them, when nothing is read ahead.\<close>

fun outcomes :: "Interners \<Rightarrow> (fetch \<times> string list \<times> SqlCell list) list \<Rightarrow> SmallRow list \<times> diff_error option" where
  "outcomes ids [] = ([], None)"
| "outcomes ids (step # rest) =
     (case small_row step ids of
        (Inl e, ids') \<Rightarrow> ([], Some e)
      | (Inr row, ids') \<Rightarrow> (case outcomes ids' rest of (rows, e) \<Rightarrow> (row # rows, e)))"

text \<open>All calls of \<^verbatim>\<open>ResultIter::Next\<close> up to the end of the rows or the first exception.\<close>

fun drain :: "nat \<Rightarrow> Interners \<times> ResultIter \<Rightarrow> (SmallRow list \<times> diff_error option) option" where
  "drain 0 s = None"
| "drain (Suc n) s =
     (case IterNext s of
        (Inl e, s') \<Rightarrow> Some ([], Some e)
      | (Inr None, s') \<Rightarrow> Some ([], None)
      | (Inr (Some row), s') \<Rightarrow> map_option (\<lambda>(rows, e). (row # rows, e)) (drain n s'))"

definition raises_at_step :: "diff_error \<Rightarrow> bool" where
  "raises_at_step e \<longleftrightarrow>
     (case e of DiaphoraWouldRaise site _ \<Rightarrow> site = ''sqlite3_step'' | IoFailure _ \<Rightarrow> True | SqliteEnvironmentFailure _ _ \<Rightarrow> True | _ \<Rightarrow> False)"

text \<open>How many of the rows before an error reach the loop.\<close>

definition delivered :: "diff_error \<Rightarrow> nat \<Rightarrow> nat" where
  "delivered e k = kArraySize * ((if raises_at_step e then k - 1 else k) div kArraySize)"

definition delivery :: "SmallRow list \<Rightarrow> diff_error option \<Rightarrow> SmallRow list \<times> diff_error option" where
  "delivery rows err = (case err of None \<Rightarrow> (rows, None) | Some e \<Rightarrow> (take (delivered e (length rows)) rows, Some e))"

lemma kArraySize_pos [simp]: "0 < kArraySize"
  by (simp add: kArraySize_def)

lemma fill_batch_run:
  assumes "outcomes ids (ri_Source it) = (rows, err)" and "\<not> ri_Exhausted it" and "length (ri_Batch it) \<le> kArraySize"
    and "length (ri_Source it) < fuel" and m: "m = kArraySize - length (ri_Batch it)"
  shows "(m \<le> length rows \<longrightarrow> (\<exists>ids' src. fill_batch fuel (ids, it) = (Inr (), ids', it\<lparr>ri_Batch := ri_Batch it @ take m rows, ri_Source := src\<rparr>) \<and>
            outcomes ids' src = (drop m rows, err))) \<and>
         (length rows < m \<and> err = None \<longrightarrow> (\<exists>ids'. fill_batch fuel (ids, it) =
            (Inr (), ids', it\<lparr>ri_Batch := ri_Batch it @ rows, ri_Source := [], ri_Exhausted := True\<rparr>))) \<and>
         (\<forall>e. length rows < m \<and> err = Some e \<longrightarrow> fst (fill_batch fuel (ids, it)) = Inl e)"
  using assms
proof (induction fuel arbitrary: ids it rows m)
  case (Suc fuel)
  show ?case
  proof (cases "m = 0")
    case True
    with Suc.prems have "fill_batch (Suc fuel) (ids, it) = (Inr (), ids, it)" by (simp add: bindS_def getS_def retS_def)
    with True Suc.prems(1) show ?thesis by (auto intro!: exI [of _ ids] exI [of _ "ri_Source it"])
  next
    case False
    then have room: "length (ri_Batch it) < kArraySize" using Suc.prems by simp
    show ?thesis
    proof (cases "ri_Source it")
      case Nil
      then have "fill_batch (Suc fuel) (ids, it) = (Inr (), ids, it\<lparr>ri_Exhausted := True\<rparr>)"
        using Suc.prems room by (simp add: bindS_def getS_def retS_def modS_def Fetch_def)
      then show ?thesis using Nil Suc.prems(1) False by simp
    next
      case (Cons step rest)
      obtain res ids1 where step: "small_row step ids = (res, ids1)" by fastforce
      show ?thesis
      proof (cases res)
        case (Inl e)
        then have "fst (fill_batch (Suc fuel) (ids, it)) = Inl e"
          using Suc.prems room step Cons by (simp add: bindS_def getS_def retS_def modS_def Fetch_def)
        then show ?thesis using Suc.prems(1) Cons step Inl False by auto
      next
        case (Inr row)
        obtain rows1 where rows1: "outcomes ids1 rest = (rows1, err)" "rows = row # rows1"
          using Suc.prems(1) Cons step Inr by (auto split: prod.splits)
        let ?it = "it\<lparr>ri_Source := rest, ri_Batch := ri_Batch it @ [row]\<rparr>"
        have run: "fill_batch (Suc fuel) (ids, it) = fill_batch fuel (ids1, ?it)"
          using Suc.prems room step Cons Inr by (simp add: bindS_def getS_def retS_def modS_def Fetch_def)
        from False obtain m' where m': "m = Suc m'" by (cases m) auto
        have "m' = kArraySize - length (ri_Batch ?it)" using Suc.prems(5) m' by simp
        from Suc.IH [OF _ _ _ _ this, of ids1 rows1] rows1(1) Suc.prems(2,4) room Cons
        show ?thesis unfolding run m' rows1(2) by simp
      qed
    qed
  qed
qed simp

text \<open>The rows of the current batch are delivered one by one.\<close>

definition prepend :: "'a list \<Rightarrow> 'a list \<times> 'b \<Rightarrow> 'a list \<times> 'b" where
  "prepend xs p = (xs @ fst p, snd p)"

lemma drain_batch:
  assumes "ri_Pos it + k = length (ri_Batch it)"
  shows "drain (k + n) (ids, it) = map_option (prepend (drop (ri_Pos it) (ri_Batch it))) (drain n (ids, it\<lparr>ri_Pos := length (ri_Batch it)\<rparr>))"
  using assms
proof (induction k arbitrary: it)
  case 0
  then have same: "it\<lparr>ri_Pos := length (ri_Batch it)\<rparr> = it" and "drop (ri_Pos it) (ri_Batch it) = []" by simp_all
  then show ?case unfolding same by (cases "drain n (ids, it)") (simp_all add: prepend_def)
next
  case (Suc k)
  let ?it = "it\<lparr>ri_Pos := Suc (ri_Pos it)\<rparr>"
  have less: "ri_Pos it < length (ri_Batch it)" using Suc.prems by simp
  then have "IterNext (ids, it) = (Inr (Some (ri_Batch it ! ri_Pos it)), ids, ?it)"
    by (simp add: IterNext_def bindS_def getS_def retS_def modS_def)
  then have "drain (Suc k + n) (ids, it) = map_option (\<lambda>(rows, e). (ri_Batch it ! ri_Pos it # rows, e)) (drain (k + n) (ids, ?it))"
    by simp
  also have "drain (k + n) (ids, ?it) = map_option (prepend (drop (Suc (ri_Pos it)) (ri_Batch it))) (drain n (ids, it\<lparr>ri_Pos := length (ri_Batch it)\<rparr>))"
    using Suc.IH [of ?it] Suc.prems by simp
  finally show ?case
    using Cons_nth_drop_Suc [OF less]
    by (cases "drain n (ids, it\<lparr>ri_Pos := length (ri_Batch it)\<rparr>)") (auto simp: prepend_def split: prod.splits)
qed

lemma drain_end:
  assumes "ri_Pos it = length (ri_Batch it)"
  shows "ri_Exhausted it \<Longrightarrow> ri_Deferred it = None \<Longrightarrow> ri_Ahead it = None \<Longrightarrow> drain (Suc n) (ids, it) = Some ([], None)"
    and "ri_Deferred it = Some e \<Longrightarrow> drain (Suc n) (ids, it) = Some ([], Some e)"
  using assms by (simp_all add: IterNext_def bindS_def getS_def retS_def modS_def FillBatch_def)

text \<open>A call that fills a new batch and delivers its first row.\<close>

lemma drain_fill:
  assumes "ri_Pos it = length (ri_Batch it)" and "\<not> ri_Exhausted it" and "FillBatch (ids, it) = (res, ids1, it1)"
  shows "res = Inl e \<Longrightarrow> drain (Suc n) (ids, it) = Some ([], Some e)"
    and "res = Inr () \<Longrightarrow> ri_Batch it1 = [] \<Longrightarrow> drain (Suc n) (ids, it) = Some ([], None)"
    and "res = Inr () \<Longrightarrow> ri_Batch it1 \<noteq> [] \<Longrightarrow> ri_Pos it1 = 0 \<Longrightarrow> drain (length (ri_Batch it1) + n) (ids, it) =
      map_option (prepend (ri_Batch it1)) (drain n (ids1, it1\<lparr>ri_Pos := length (ri_Batch it1)\<rparr>))"
proof -
  note next_defs = IterNext_def bindS_def getS_def retS_def modS_def
  show "res = Inl e \<Longrightarrow> drain (Suc n) (ids, it) = Some ([], Some e)"
    and "res = Inr () \<Longrightarrow> ri_Batch it1 = [] \<Longrightarrow> drain (Suc n) (ids, it) = Some ([], None)"
    using assms by (simp_all add: next_defs)
  assume *: "res = Inr ()" "ri_Batch it1 \<noteq> []" "ri_Pos it1 = 0"
  then obtain k where k: "length (ri_Batch it1) = Suc k" by (cases "ri_Batch it1") auto
  have same: "IterNext (ids, it) = IterNext (ids1, it1)" using assms * by (simp add: next_defs)
  have "drain (length (ri_Batch it1) + n) (ids, it) = drain (length (ri_Batch it1) + n) (ids1, it1)" by (simp add: k same)
  also have "\<dots> = map_option (prepend (ri_Batch it1)) (drain n (ids1, it1\<lparr>ri_Pos := length (ri_Batch it1)\<rparr>))"
    using drain_batch [of it1 "length (ri_Batch it1)" n ids1] * by simp
  finally show "drain (length (ri_Batch it1) + n) (ids, it) =
      map_option (prepend (ri_Batch it1)) (drain n (ids1, it1\<lparr>ri_Pos := length (ri_Batch it1)\<rparr>))" .
qed

lemma delivered_step: "kArraySize < k \<Longrightarrow> delivered e k = kArraySize + delivered e (k - kArraySize)"
proof -
  assume "kArraySize < k"
  then have "k div kArraySize = Suc ((k - kArraySize) div kArraySize)" "(k - 1) div kArraySize = Suc ((k - kArraySize - 1) div kArraySize)"
    using div_add_self2 [of kArraySize "k - kArraySize"] div_add_self2 [of kArraySize "k - kArraySize - 1"] by (simp_all add: kArraySize_def)
  then show ?thesis by (simp add: delivered_def)
qed

lemma delivered_small: "k < kArraySize \<Longrightarrow> delivered e k = 0" and delivered_full: "delivered e kArraySize = (if raises_at_step e then 0 else kArraySize)"
  by (simp_all add: delivered_def)

lemma look_ahead_run:
  assumes "outcomes ids (ri_Source it) = (rows, err)"
  shows "(rows = row # rest \<longrightarrow> (\<exists>ids' src. look_ahead (ids, it) = (Inr (), ids', it\<lparr>ri_Source := src, ri_Ahead := Some row\<rparr>) \<and> outcomes ids' src = (rest, err))) \<and>
    (rows = [] \<and> err = None \<longrightarrow> look_ahead (ids, it) = (Inr (), ids, it\<lparr>ri_Exhausted := True\<rparr>)) \<and>
    (rows = [] \<and> err = Some e \<longrightarrow> (if raises_at_step e then fst (look_ahead (ids, it)) = Inl e
       else \<exists>ids' src. look_ahead (ids, it) = (Inr (), ids', it\<lparr>ri_Source := src, ri_Deferred := Some e\<rparr>)))"
proof (cases "ri_Source it")
  case Nil
  then show ?thesis using assms by (auto simp: look_ahead_def Fetch_def)
next
  case (Cons step src)
  obtain res ids1 where "small_row step ids = (res, ids1)" by fastforce
  with assms Cons show ?thesis
    by (cases res) (auto simp: look_ahead_def Fetch_def raises_at_step_def split: prod.splits diff_error.splits)
qed

text \<open>A state between two batches, with the rows it still has to deliver.\<close>

definition at_boundary :: "Interners \<Rightarrow> ResultIter \<Rightarrow> SmallRow list \<Rightarrow> diff_error option \<Rightarrow> bool" where
  "at_boundary ids it pending err \<longleftrightarrow>
     ri_Pos it = length (ri_Batch it) \<and> \<not> ri_Exhausted it \<and> ri_Deferred it = None \<and>
     (\<exists>rows. outcomes ids (ri_Source it) = (rows, err) \<and> pending = (case ri_Ahead it of None \<Rightarrow> [] | Some row \<Rightarrow> [row]) @ rows)"

definition fresh_batch :: "ResultIter \<Rightarrow> ResultIter" where
  "fresh_batch it = it\<lparr>ri_Pos := 0, ri_Batch := (case ri_Ahead it of None \<Rightarrow> [] | Some row \<Rightarrow> [row]), ri_Ahead := None\<rparr>"

lemma fresh_batch_fields [simp]:
  "ri_Source (fresh_batch it) = ri_Source it" "ri_Exhausted (fresh_batch it) = ri_Exhausted it" "ri_Deferred (fresh_batch it) = ri_Deferred it"
  "ri_Batch (fresh_batch it) = (case ri_Ahead it of None \<Rightarrow> [] | Some row \<Rightarrow> [row])" "ri_Pos (fresh_batch it) = 0" "ri_Ahead (fresh_batch it) = None"
  by (simp_all add: fresh_batch_def)

lemma FillBatch_unfold:
  assumes "ri_Deferred it = None"
  shows "FillBatch (ids, it) = bindS (fill_batch (Suc (length (ri_Source it)))) (\<lambda>_.
      bindS (getS (\<lambda>s. Inr (\<not> ri_Exhausted (snd s) \<and> length (ri_Batch (snd s)) = kArraySize))) (\<lambda>full. if full then look_ahead else retS ()))
        (ids, fresh_batch it)"
proof (cases "ri_Ahead it")
  case None
  then have same: "fresh_batch it = it\<lparr>ri_Batch := [], ri_Pos := 0\<rparr>" unfolding fresh_batch_def by (cases it) simp
  show ?thesis unfolding same using None assms by (simp add: FillBatch_def Let_def del: fill_batch.simps)
next
  case (Some row)
  then show ?thesis using assms by (simp add: FillBatch_def Let_def fresh_batch_def del: fill_batch.simps)
qed

lemma FillBatch_short:
  assumes "at_boundary ids it pending err" and short: "length pending < kArraySize"
  shows "err = None \<Longrightarrow> \<exists>ids1. FillBatch (ids, it) = (Inr (), ids1, (fresh_batch it)\<lparr>ri_Batch := pending, ri_Source := [], ri_Exhausted := True\<rparr>)"
    and "err = Some e \<Longrightarrow> fst (FillBatch (ids, it)) = Inl e"
proof -
  obtain rows where rows: "outcomes ids (ri_Source it) = (rows, err)" "pending = ri_Batch (fresh_batch it) @ rows" and it: "\<not> ri_Exhausted it" "ri_Deferred it = None"
    using assms(1) by (auto simp: at_boundary_def)
  let ?m = "kArraySize - length (ri_Batch (fresh_batch it))"
  have small: "length (ri_Batch (fresh_batch it)) \<le> kArraySize" "length rows < ?m" using short rows(2) by simp_all
  note run = fill_batch_run [of ids "fresh_batch it" rows err "Suc (length (ri_Source it))" ?m]
  show "\<exists>ids1. FillBatch (ids, it) = (Inr (), ids1, (fresh_batch it)\<lparr>ri_Batch := pending, ri_Source := [], ri_Exhausted := True\<rparr>)" if "err = None"
    using run that small rows it unfolding FillBatch_unfold [OF it(2)] rows(2)
    by (auto simp: bindS_def getS_def retS_def simp del: fresh_batch_fields(4) fill_batch.simps)
  show "fst (FillBatch (ids, it)) = Inl e" if "err = Some e"
    using run that small rows it unfolding FillBatch_unfold [OF it(2)]
    by (auto simp: bindS_def getS_def retS_def simp del: fresh_batch_fields(4) fill_batch.simps split: prod.splits)
qed

lemma FillBatch_full:
  assumes "at_boundary ids it pending err" and long: "kArraySize \<le> length pending"
  shows "\<exists>ids1 src. FillBatch (ids, it) = look_ahead (ids1, (fresh_batch it)\<lparr>ri_Batch := take kArraySize pending, ri_Source := src\<rparr>) \<and>
    outcomes ids1 src = (drop kArraySize pending, err)"
proof -
  obtain rows where rows: "outcomes ids (ri_Source it) = (rows, err)" "pending = ri_Batch (fresh_batch it) @ rows" and it: "\<not> ri_Exhausted it" "ri_Deferred it = None"
    using assms(1) by (auto simp: at_boundary_def)
  let ?m = "kArraySize - length (ri_Batch (fresh_batch it))"
  have small: "length (ri_Batch (fresh_batch it)) \<le> kArraySize" by (simp add: kArraySize_def split: option.splits)
  then have "take kArraySize pending = ri_Batch (fresh_batch it) @ take ?m rows" "drop kArraySize pending = drop ?m rows" "?m \<le> length rows"
    using long rows(2) by simp_all
  then show ?thesis
    using fill_batch_run [of ids "fresh_batch it" rows err "Suc (length (ri_Source it))" ?m] small rows(1) it long
    unfolding FillBatch_unfold [OF it(2)]
    by (fastforce simp: bindS_def getS_def retS_def simp del: fresh_batch_fields(4) fill_batch.simps)
qed

lemma drain_short:
  assumes at: "at_boundary ids it pending err" and short: "length pending < kArraySize" and n: "length pending < n"
  shows "drain n (ids, it) = Some (delivery pending err)"
proof -
  have it: "ri_Pos it = length (ri_Batch it)" "\<not> ri_Exhausted it" "ri_Deferred it = None" using at by (simp_all add: at_boundary_def)
  from n obtain n' where n': "n = Suc n'" by (cases n) auto
  show ?thesis
  proof (cases err)
    case None
    then obtain ids1 where fill: "FillBatch (ids, it) = (Inr (), ids1, (fresh_batch it)\<lparr>ri_Batch := pending, ri_Source := [], ri_Exhausted := True\<rparr>)"
      using FillBatch_short(1) [OF at short] by blast
    show ?thesis
    proof (cases "pending = []")
      case True
      then show ?thesis using drain_fill(2) [OF it(1,2) fill] n' None by (simp add: delivery_def del: drain.simps)
    next
      case False
      obtain k where "n = length pending + Suc k" using n by (metis add_Suc_right less_iff_Suc_add)
      then show ?thesis using drain_fill(3) [OF it(1,2) fill, of "Suc k"] False None it(3)
          drain_end(1) [of "(fresh_batch it)\<lparr>ri_Batch := pending, ri_Source := [], ri_Exhausted := True, ri_Pos := length pending\<rparr>" k ids1]
        by (simp add: delivery_def prepend_def del: drain.simps)
    qed
  next
    case (Some e)
    then obtain s1 where "FillBatch (ids, it) = (Inl e, s1)" using FillBatch_short(2) [OF at short] by (metis prod.collapse)
    then show ?thesis using drain_fill(1) [OF it(1,2)] n' Some short by (cases s1) (simp add: delivery_def delivered_small del: drain.simps)
  qed
qed

lemma drain_exact:
  assumes at: "at_boundary ids it pending err" and exact: "length pending = kArraySize" and n: "n = kArraySize + Suc k"
  shows "drain n (ids, it) = Some (delivery pending err)"
proof -
  have it: "ri_Pos it = length (ri_Batch it)" "\<not> ri_Exhausted it" "ri_Deferred it = None" using at by (simp_all add: at_boundary_def)
  obtain ids1 src where fill: "FillBatch (ids, it) = look_ahead (ids1, (fresh_batch it)\<lparr>ri_Batch := pending, ri_Source := src\<rparr>)" and src: "outcomes ids1 src = ([], err)"
    using FillBatch_full [OF at] exact by auto
  let ?full = "(fresh_batch it)\<lparr>ri_Batch := pending, ri_Source := src\<rparr>"
  have nonempty: "pending \<noteq> []" using exact by (auto simp: kArraySize_def)
  note ahead = look_ahead_run [of ids1 ?full "[]" err]
  show ?thesis
  proof (cases err)
    case None
    then have la: "look_ahead (ids1, ?full) = (Inr (), ids1, ?full\<lparr>ri_Exhausted := True\<rparr>)" using ahead src by auto
    show ?thesis using drain_fill(3) [OF it(1,2) fill [unfolded la], of "Suc k"] nonempty exact n None it(3)
        drain_end(1) [of "?full\<lparr>ri_Exhausted := True, ri_Pos := kArraySize\<rparr>" k ids1]
      by (simp add: delivery_def prepend_def del: drain.simps)
  next
    case (Some e)
    show ?thesis
    proof (cases "raises_at_step e")
      case True
      then obtain s1 where "look_ahead (ids1, ?full) = (Inl e, s1)" using ahead [of _ _ e] src Some by (cases "look_ahead (ids1, ?full)") auto
      then show ?thesis using drain_fill(1) [OF it(1,2)] fill n Some True exact by (cases s1) (simp add: delivery_def delivered_full del: drain.simps)
    next
      case False
      then obtain ids2 src2 where la: "look_ahead (ids1, ?full) = (Inr (), ids2, ?full\<lparr>ri_Source := src2, ri_Deferred := Some e\<rparr>)"
        using ahead [of _ _ e] src Some by auto
      show ?thesis using drain_fill(3) [OF it(1,2) fill [unfolded la], of "Suc k"] nonempty exact n Some False
          drain_end(2) [of "?full\<lparr>ri_Source := src2, ri_Deferred := Some e, ri_Pos := kArraySize\<rparr>" e k ids2]
        by (simp add: delivery_def prepend_def delivered_full del: drain.simps)
    qed
  qed
qed

lemma drain_rows:
  assumes "at_boundary ids it pending err" and "length pending < n"
  shows "drain n (ids, it) = Some (delivery pending err)"
  using assms
proof (induction "length pending" arbitrary: ids it pending n rule: less_induct)
  case less
  consider "length pending < kArraySize" | "length pending = kArraySize" | "kArraySize < length pending" by linarith
  then show ?case
  proof cases
    case 1
    then show ?thesis using less.prems by (intro drain_short)
  next
    case 2
    then obtain k where "n = kArraySize + Suc k" using less.prems(2) by (metis add_Suc_right less_iff_Suc_add)
    then show ?thesis using less.prems(1) 2 by (intro drain_exact)
  next
    case 3
    then obtain k where k: "n = kArraySize + Suc k" using less.prems(2) by (metis add_Suc_right less_iff_Suc_add less_trans)
    obtain row rest where next_rows: "drop kArraySize pending = row # rest" using 3 by (metis Cons_nth_drop_Suc)
    obtain ids1 src where fill: "FillBatch (ids, it) = look_ahead (ids1, (fresh_batch it)\<lparr>ri_Batch := take kArraySize pending, ri_Source := src\<rparr>)"
      and src: "outcomes ids1 src = (row # rest, err)"
      using FillBatch_full [OF less.prems(1)] 3 next_rows by auto
    let ?full = "(fresh_batch it)\<lparr>ri_Batch := take kArraySize pending, ri_Source := src\<rparr>"
    obtain ids2 src2 where ahead: "look_ahead (ids1, ?full) = (Inr (), ids2, ?full\<lparr>ri_Source := src2, ri_Ahead := Some row\<rparr>)" "outcomes ids2 src2 = (rest, err)"
      using look_ahead_run [of ids1 ?full "row # rest" err row rest] src by auto
    let ?next = "?full\<lparr>ri_Source := src2, ri_Ahead := Some row, ri_Pos := kArraySize\<rparr>"
    have it: "ri_Pos it = length (ri_Batch it)" "\<not> ri_Exhausted it" "ri_Deferred it = None" using less.prems(1) by (simp_all add: at_boundary_def)
    have "at_boundary ids2 ?next (drop kArraySize pending) err" using ahead(2) it 3 next_rows by (simp add: at_boundary_def)
    then have "drain (Suc k) (ids2, ?next) = Some (delivery (drop kArraySize pending) err)"
      using 3 k less.prems(2) by (intro less.hyps) (simp_all add: kArraySize_def)
    moreover have "pending \<noteq> []" using 3 by auto
    then have "drain n (ids, it) = map_option (prepend (take kArraySize pending)) (drain (Suc k) (ids2, ?next))"
      using drain_fill(3) [OF it(1,2) fill [unfolded ahead(1)], of "Suc k"] 3 k by (auto simp del: drain.simps)
    moreover have "prepend (take kArraySize pending) (delivery (drop kArraySize pending) err) = delivery pending err"
      using delivered_step [OF 3] by (auto simp: prepend_def delivery_def take_add split: option.splits)
    ultimately show ?thesis by simp
  qed
qed

text \<open>\<^verbatim>\<open>ResultIter\<close> delivers what \<^verbatim>\<open>cursor.fetchmany(1000)\<close> delivers. When no fetch fails, every row reaches the
  loop, in order. When the conversion of a row fails, the rows of the complete batches before it reach the loop; when the
  step to a row fails (or the environment), that step belongs to the batch of the row before it. Then the error is raised. Every call returns.\<close>

theorem result_iter_batches:
  assumes "outcomes ids (SqlCursor E sql []) = (rows, err)" and "length rows < n"
  shows "drain n (ids, new_ResultIter E sql) =
    Some (case err of
            None \<Rightarrow> (rows, None)
          | Some e \<Rightarrow> (take (1000 * ((if raises_at_step e then length rows - 1 else length rows) div 1000)) rows, Some e))"
proof -
  have "at_boundary ids (new_ResultIter E sql) rows err" using assms(1) by (simp add: at_boundary_def new_ResultIter_def)
  from drain_rows [OF this assms(2)] show ?thesis by (simp add: delivery_def delivered_def kArraySize_def split: option.splits)
qed

definition small_cell :: "string \<Rightarrow> SqlCell" where
  "small_cell str = \<lparr>sc_Type = SqlText, sc_Int = 0, sc_Real = Finite False 0, sc_Bytes = str\<rparr>"

definition small_db :: Database where
  "small_db sql binds = Inr \<lparr>st_Columns = [''ea'', ''name1'', ''ea2'', ''name2'', ''description'', ''f_names'', ''df_names''],
     st_Rows = [map small_cell [''4096'', ''main'', ''8192'', ''main'', ''Small names difference'', ''[]'', ''[]'']],
     st_Error = Some (DiaphoraWouldRaise ''sqlite3_step'' ''integer overflow'')\<rparr>"

definition small_inputs :: Inputs where
  "small_inputs = \<lparr>in_Db = small_db, in_Plan = (\<lambda>_. Inr []), in_StageSql = [], in_Heuristics = [],
     in_Main = empty_FunctionTable, in_Diff = empty_FunctionTable,
     in_Config = \<lparr>dc_Unreliable = False, dc_RelaxedRatio = False, dc_Experimental = True, dc_SlowHeuristics = True, dc_UseTrainedModel = False,
                  dc_IgnoreSubNames = True, dc_IgnoreAllNames = False, dc_IgnoreSmallFunctions = False, dc_CpuCount = 1,
                  dc_MaxProcessedRows = kSqlMaxProcessedRows\<rparr>,
     in_CuNative = True, in_Problems = [], in_Reorder = None\<rparr>"

lemma small_outcomes:
  "(case outcomes empty_Interners (SqlCursor small_inputs [] []) of (rows, err) \<Rightarrow>
      length rows = 1 \<and> err = Some (DiaphoraWouldRaise ''sqlite3_step'' ''integer overflow''))"
  by code_simp

theorem result_iter_batches_witness:
  "drain 2 (empty_Interners, new_ResultIter small_inputs []) = Some ([], Some (DiaphoraWouldRaise ''sqlite3_step'' ''integer overflow''))"
proof -
  obtain rows where "outcomes empty_Interners (SqlCursor small_inputs [] []) = (rows, Some (DiaphoraWouldRaise ''sqlite3_step'' ''integer overflow''))"
      "length rows = 1"
    using small_outcomes by (auto split: prod.splits)
  then show ?thesis using result_iter_batches [of empty_Interners small_inputs "[]" rows _ 2] by (simp add: raises_at_step_def)
qed

end
