(* ===== verification/PatchDiffHook.thy ===== *)
theory PatchDiffHook
  imports RowSources DiffCorrect TextScan
begin

text \<open>
  The default patch-diff hook, \<^verbatim>\<open>src/diff/stages/PatchDiffHook.cpp\<close>: what \<^verbatim>\<open>on_match\<close> does to an
  accepted pair in a patch-diff session. It never changes a ratio; it can raise. Its state is the set of analysed pairs
  (\<^verbatim>\<open>PatchDiffHookState::Dones\<close>); the counters for reports are not modelled.
\<close>

section \<open>Texts\<close>

definition ColumnValue :: "TextColumn \<Rightarrow> 32 word \<Rightarrow> TextCellOf result" where
  "ColumnValue column row =
     (if row = kNoRow \<or> unat row \<ge> length (tc_IsNull column)
      then Inl (UnsupportedInput (''patch_diff_vulns on_match: the row'' @ quote @ ''s function is not in the export''))
      else Inr (CellOf column row))"

text \<open>\<^verbatim>\<open>RequireStr\<close>: \<^verbatim>\<open>bytes.split(str)\<close> raises.\<close>

definition RequireStr :: "bool \<Rightarrow> string \<Rightarrow> unit result" where
  "RequireStr blob site =
     (if blob then Inl (DiaphoraWouldRaise (site @ '' TypeError'') (''a bytes-like object is required, not '' @ quote @ ''str'' @ quote))
      else Inr ())"

definition signed_unsigned_list :: "(string \<times> string) list" where
  "signed_unsigned_list =
     [(''jl'', ''jb''), (''jle'', ''jbe''), (''jg'', ''ja''), (''jge'', ''jae''),
      (''jb'', ''jl''), (''jbe'', ''jle''), (''ja'', ''jg''), (''jae'', ''jge'')]"

definition SignedUnsignedPartner :: "string \<Rightarrow> string option" where
  "SignedUnsignedPartner mnemonic = map_of signed_unsigned_list mnemonic"

definition FirstToken :: "string \<Rightarrow> string" where
  "FirstToken str = takeWhile (\<lambda>ch. ch \<noteq> CHR '' '') str"

definition RaiseIndexError :: "'a result" where
  "RaiseIndexError = Inl (DiaphoraWouldRaise ''scripts/patch_diff_vulns.py:162 IndexError'' ''string index out of range'')"

definition contains :: "string \<Rightarrow> string \<Rightarrow> bool" where
  "contains hay needle \<longleftrightarrow> list_ex (\<lambda>i. starts_with (drop i hay) needle) [0..<Suc (length hay)]"

section \<open>The assembly search\<close>

text \<open>The test of the mnemonics of the last added and the last removed line.\<close>

definition mnemonics_differ :: "string \<Rightarrow> string \<Rightarrow> bool result" where
  "mnemonics_differ lower1 lower2 =
     (case SignedUnsignedPartner lower1 of
        Some partner \<Rightarrow> Inr (partner = lower2)
      | None \<Rightarrow>
          if lower1 = [] then RaiseIndexError
          else if hd lower1 \<noteq> CHR ''b'' then Inr False
          else if lower2 = [] then RaiseIndexError
          else if hd lower2 \<noteq> CHR ''b'' then Inr False
          else Inr ((last lower1 = CHR ''s'' \<or> last lower2 = CHR ''s'') \<and> last lower1 \<noteq> last lower2))"

fun assembly_walk :: "string option \<Rightarrow> string option \<Rightarrow> string list \<Rightarrow> bool result" where
  "assembly_walk added removed [] = Inr False"
| "assembly_walk added removed (line # rest) =
     (let c = (if line = [] then CHR 0x00 else hd line); body = tl line;
          added' = (if c = CHR ''+'' then Some body else added);
          removed' = (if c = CHR ''-'' then Some body else removed)
      in if c \<noteq> CHR ''-'' \<and> c \<noteq> CHR ''+'' then assembly_walk added removed rest
         else if c = CHR ''-'' \<and> body \<noteq> [] \<and> last body = CHR '':'' then assembly_walk added removed rest
         else (case (added', removed') of
                 (Some a, Some r) \<Rightarrow>
                   bindE (mnemonics_differ (map ascii_lower (FirstToken a)) (map ascii_lower (FirstToken r))) (\<lambda>found.
                     if found then Inr True else assembly_walk added' removed' rest)
               | _ \<Rightarrow> assembly_walk added' removed' rest))"

definition FindVulnsUsingAssembly :: "TextCellOf \<Rightarrow> TextCellOf \<Rightarrow> bool result" where
  "FindVulnsUsingAssembly asm1 asm2 =
     (case (asm1, asm2) of
        (Some (blob1, text1), Some (blob2, text2)) \<Rightarrow>
          bindE (RequireStr blob1 ''scripts/patch_diff_vulns.py:137'') (\<lambda>_.
          bindE (RequireStr blob2 ''scripts/patch_diff_vulns.py:137'') (\<lambda>_.
          bindE (UnifiedDiff (PySplitNewline text1) (PySplitNewline text2) 3 [CHR 0x0A]) (assembly_walk None None)))
      | _ \<Rightarrow> Inr False)"

section \<open>The pseudo-code search\<close>

definition pseudo_patterns :: "string list" where
  "pseudo_patterns = [''cpy'', ''printf'', ''strcat'', ''strncat'', ''gets'', ''mem'', ''system'', ''scanf'', ''alloc'', ''free'', ''strto'',
     ''ShellExecute'', ''WinExec'', ''LoadLibrary'', ''CreateProcess'', ''ProbeForWrite'', ''ProbeForRead'', ''UNC'']"

definition SearchPseudoPatterns :: "string \<Rightarrow> bool" where
  "SearchPseudoPatterns line = list_ex (contains line) pseudo_patterns"

definition SearchForAddedSizeCheck :: "string \<Rightarrow> bool" where
  "SearchForAddedSizeCheck line \<longleftrightarrow>
     starts_with line ''if '' \<and>
     list_ex (\<lambda>pattern. contains line pattern \<and> \<not> contains line (pattern @ ''0 '')) ['' < '', '' > '', '' <= '', '' >= '']"

definition AfterTwoCharacters :: "string \<Rightarrow> string" where
  "AfterTwoCharacters line =
     (if length line \<le> 1 then []
      else dropWhile (\<lambda>ch. 0x80 \<le> (of_char ch :: nat) \<and> (of_char ch :: nat) < 0xC0) (drop 2 line))"

definition StripSpaces :: "string \<Rightarrow> string" where
  "StripSpaces str = rev (dropWhile (\<lambda>ch. ch = CHR '' '') (rev (dropWhile (\<lambda>ch. ch = CHR '' '') str)))"

definition pseudo_line_found :: "string \<Rightarrow> bool" where
  "pseudo_line_found line =
     (let c = (if line = [] then CHR 0x00 else hd line); source = StripSpaces (AfterTwoCharacters line)
      in (c = CHR ''-'' \<or> c = CHR ''+'') \<and>
         (SearchPseudoPatterns source \<or> (c = CHR ''+'' \<and> SearchForAddedSizeCheck source)))"

definition FindVulnsUsingPseudocode :: "TextCellOf \<Rightarrow> TextCellOf \<Rightarrow> bool result" where
  "FindVulnsUsingPseudocode pseudo1 pseudo2 =
     (case (pseudo1, pseudo2) of
        (Some (blob1, text1), Some (blob2, text2)) \<Rightarrow>
          bindE (RequireStr blob1 ''scripts/patch_diff_vulns.py:186'') (\<lambda>_.
          bindE (RequireStr blob2 ''scripts/patch_diff_vulns.py:186'') (\<lambda>_.
          bindE (UnifiedDiff (PySplitNewline text1) (PySplitNewline text2) 3 [CHR 0x0A]) (\<lambda>lines.
          Inr (list_ex pseudo_line_found lines))))
      | _ \<Rightarrow> Inr False)"

section \<open>\<open>on_match\<close>\<close>

type_synonym dones = "(NameId \<times> NameId) set"

definition hook_analysis :: "Inputs \<Rightarrow> Interners \<Rightarrow> HeuristicRow \<Rightarrow> unit result" where
  "hook_analysis E ids row =
     (let M = Functions E (hr_Side1 row); D = Functions E (hr_Side2 row);
          none_type = ''int() argument must be a string, a bytes-like object or a real number, not '' @ quote @ ''NoneType'' @ quote
      in bindE (ColumnValue (ft_Text M AssemblyCol) (hr_Row1 row)) (\<lambda>asm1.
         bindE (ColumnValue (ft_Text D AssemblyCol) (hr_Row2 row)) (\<lambda>asm2.
         bindE (FindVulnsUsingAssembly asm1 asm2) (\<lambda>in_assembly.
         bindE (if in_assembly then Inr True
                else bindE (ColumnValue (ft_Text M PseudocodeCol) (hr_Row1 row)) (\<lambda>pseudo1.
                     bindE (ColumnValue (ft_Text D PseudocodeCol) (hr_Row2 row)) (\<lambda>pseudo2.
                     FindVulnsUsingPseudocode pseudo1 pseudo2))) (\<lambda>found.
         if \<not> found then Inr ()
         else if hr_Nodes1 row = None then Inl (DiaphoraWouldRaise ''D:244 TypeError'' none_type)
         else if hr_Nodes2 row = None then Inl (DiaphoraWouldRaise ''D:245 TypeError'' none_type)
         else bindE (RequirePyInt ids (hr_Ea1 row) ''D:286'') (\<lambda>_. RequirePyInt ids (hr_Ea2 row) ''D:288''))))))"

definition PatchDiffHookOnMatch :: "Inputs \<Rightarrow> dones hook" where
  "PatchDiffHookOnMatch E ids analysed row ratio =
     (if \<not> ratio < 1 then (Inr (), analysed)
      else if (hr_Name1 row, hr_Name2 row) \<in> analysed then (Inr (), analysed)
      else (hook_analysis E ids row, insert (hr_Name1 row, hr_Name2 row) analysed))"

end
