(* ===== verification/EarlyStages.thy ===== *)
theory EarlyStages
  imports PatchDiffHook FinalPass
begin

text \<open>
  The stages before the convergence loop: \<^verbatim>\<open>find_equal_matches\<close> (\<^verbatim>\<open>stages/EqualMatches.cpp\<close>), the dirty
  heuristics (\<^verbatim>\<open>stages/DirtyHeuristics.cpp\<close>), \<^verbatim>\<open>find_same_name\<close> (\<^verbatim>\<open>stages/SameName.cpp\<close>),
  \<^verbatim>\<open>find_remaining_functions\<close> (\<^verbatim>\<open>stages/RemainingFunctions.cpp\<close>) and
  \<^verbatim>\<open>search_small_differences\<close> (\<^verbatim>\<open>stages/SmallDifferences.cpp\<close>).

  A stage is an action on the session with the ratio engine and the patch-diff hook. The session facts kept for reports
  (\<^verbatim>\<open>EarlyFacts\<close>) and the log lines are not modelled. A column that a query does not have reads as NULL.
\<close>

section \<open>Sessions and rows\<close>

type_synonym DiffSession = "(RatioEngine, dones) Session"

type_synonym 'a stage = "(DiffSession, 'a) action"

definition on_ids :: "(Interners, 'a) action \<Rightarrow> 'a stage" where
  "on_ids m s = (case m (ss_Ids s) of (r, ids) \<Rightarrow> (r, s\<lparr>ss_Ids := ids\<rparr>))"

definition session_Desc :: "string \<Rightarrow> DescId stage" where
  "session_Desc str = on_ids (\<lambda>ids. case DescOf ids str of (desc, ids') \<Rightarrow> (Inr desc, ids'))"

definition session_Name :: "string \<Rightarrow> NameId stage" where
  "session_Name str = on_ids (\<lambda>ids. case NameOf ids str of (name, ids') \<Rightarrow> (Inr name, ids'))"

abbreviation check_match :: "Inputs \<Rightarrow> HeuristicRow \<Rightarrow> double option stage" where
  "check_match E row \<equiv> CheckMatch CheckRatio (PatchDiffHookOnMatch E) row"

abbreviation add_internal :: "Inputs \<Rightarrow> rows \<Rightarrow> double option \<Rightarrow> unit stage" where
  "add_internal E rows val \<equiv> AddMatchesInternal CheckRatio (PatchDiffHookOnMatch E) rows Best (Some Partial) val"

definition null_cell :: SqlCell where
  "null_cell = \<lparr>sc_Type = SqlNull, sc_Int = 0, sc_Real = Finite False 0, sc_Bytes = []\<rparr>"

definition cell_at :: "SqlCell list \<Rightarrow> nat option \<Rightarrow> SqlCell" where
  "cell_at cells column = (case column of Some i \<Rightarrow> cells ! i | None \<Rightarrow> null_cell)"

text \<open>A loop over all steps of a statement that works on the id tables.\<close>

fun collect_ids :: "('a \<Rightarrow> (Interners, 'b) action) \<Rightarrow> (diff_error + 'a) list \<Rightarrow> (Interners, 'b list) action" where
  "collect_ids f [] = retS []"
| "collect_ids f (Inl e # rest) = getS (\<lambda>ids. Inl e)"
| "collect_ids f (Inr x # rest) = bindS (f x) (\<lambda>y. bindS (collect_ids f rest) (\<lambda>ys. retS (y # ys)))"

text \<open>A loop whose body throws or goes on.\<close>

fun for_each :: "('a \<Rightarrow> unit stage) \<Rightarrow> 'a list \<Rightarrow> unit stage" where
  "for_each f [] = retS ()"
| "for_each f (x # xs) = bindS (f x) (\<lambda>_. for_each f xs)"

definition none_type_error :: string where
  "none_type_error = ''int() argument must be a string, a bytes-like object or a real number, not '' @ quote @ ''NoneType'' @ quote"

section \<open>\<open>find_equal_matches\<close>\<close>

record EqualRow =
  er_Ea :: AddrId
  er_Name :: NameId
  er_NodesType :: SqlType
  er_Nodes :: int

definition RequireDecodable :: "string list \<Rightarrow> SqlCell list \<Rightarrow> unit result" where
  "RequireDecodable columns cells =
     (case find (\<lambda>i. bad_utf8 (cells ! i)) [0..<length columns] of
        Some i \<Rightarrow> Inl (DiaphoraWouldRaise ''fetch''
                    (''OperationalError: Could not decode to UTF-8 column '' @ quote @ columns ! i @ quote))
      | None \<Rightarrow> Inr ())"

definition EqualTotals :: "Inputs \<Rightarrow> (int \<times> int) result" where
  "EqualTotals E =
     bindE (in_Db E (stage_sql E ''kSqlTotals'') []) (\<lambda>st.
     bindE (collect (\<lambda>cells. if sc_Type (cell_at cells (Some 0)) \<noteq> SqlInteger
                             then Inl (UnsupportedInput ''find_equal_matches: a function count is not an INTEGER'')
                             else Inr (sc_Int (cells ! 0))) (steps st)) (\<lambda>totals.
     case totals of
       [total1, total2] \<Rightarrow> Inr (total1, total2)
     | _ \<Rightarrow> Inl (DiaphoraWouldRaise ''D:1419 Exception'' ''Malformed database!'')))"

definition EqualRowOf :: "string list \<Rightarrow> SqlCell list \<Rightarrow> (Interners, EqualRow) action" where
  "EqualRowOf columns cells =
     (let ea_cell = cell_at cells (FindColumn columns ''ea''); name_cell = cell_at cells (FindColumn columns ''mangled_function'');
          nodes = cell_at cells (FindColumn columns ''nodes'')
      in bindS (getS (\<lambda>ids. RequireDecodable columns cells)) (\<lambda>_.
         bindS (case sc_Type ea_cell of
                  SqlNull \<Rightarrow> retS kNoneAddr
                | SqlText \<Rightarrow> (\<lambda>ids. case AddrOf ids (sc_Bytes ea_cell) of (ea, ids') \<Rightarrow> (Inr ea, ids'))
                | _ \<Rightarrow> getS (\<lambda>ids. Inl (UnsupportedInput ''find_equal_matches: a non-TEXT address is not ported''))) (\<lambda>ea.
         bindS (case sc_Type name_cell of
                  SqlNull \<Rightarrow> retS kNoneName
                | SqlText \<Rightarrow> (\<lambda>ids. case NameOf ids (sc_Bytes name_cell) of (name, ids') \<Rightarrow> (Inr name, ids'))
                | _ \<Rightarrow> getS (\<lambda>ids. Inl (UnsupportedInput ''find_equal_matches: a non-TEXT mangled_function is not ported''))) (\<lambda>name.
         retS \<lparr>er_Ea = ea, er_Name = name, er_NodesType = sc_Type nodes,
               er_Nodes = (if sc_Type nodes = SqlInteger then sc_Int nodes else 0)\<rparr>))))"

definition add_equal_row :: "DescId \<Rightarrow> EqualRow \<Rightarrow> unit stage" where
  "add_equal_row desc row =
     (if er_NodesType row = SqlNull then getS (\<lambda>s. Inl (DiaphoraWouldRaise ''D:1437 TypeError'' none_type_error))
      else if er_NodesType row \<noteq> SqlInteger
      then getS (\<lambda>s. Inl (UnsupportedInput ''find_equal_matches: a non-INTEGER nodes value (int() of it is not ported)''))
      else SessionAddMatch (er_Name row) (er_Name row) 1
             \<lparr>it_Ea1 = er_Ea row, it_Name1 = er_Name row, it_Ea2 = er_Ea row, it_Name2 = er_Name row, it_Desc = desc,
              it_Ratio = 1, it_Nodes1 = er_Nodes row, it_Nodes2 = er_Nodes row\<rparr> (Some Best))"

definition StageFindEqualMatches :: "Inputs \<Rightarrow> unit stage" where
  "StageFindEqualMatches E =
     bindS (getS (\<lambda>s. EqualTotals E)) (\<lambda>(total1, total2).
     bindS (modS (\<lambda>s. s\<lparr>ss_State := SetTotals (ss_State s) total1 total2\<rparr>)) (\<lambda>_.
     bindS (getS (\<lambda>s. in_Db E (stage_sql E ''kSqlEqualMatches'') [])) (\<lambda>st.
     bindS (on_ids (collect_ids (EqualRowOf (st_Columns st)) (steps st))) (\<lambda>rows.
     bindS (session_Desc ''100% equal'') (\<lambda>desc.
     for_each (add_equal_row desc) rows)))))"

section \<open>The dirty heuristics\<close>

definition CountOf :: "Inputs \<Rightarrow> string \<Rightarrow> int result" where
  "CountOf E sql =
     bindE (in_Db E sql []) (\<lambda>st.
       case steps st of
         Inl e # _ \<Rightarrow> Inl e
       | Inr cells # rest \<Rightarrow>
           if sc_Type (cells ! 0) \<noteq> SqlInteger
           then Inl (UnsupportedInput ''apply_dirty_heuristics: the count query returned no INTEGER'')
           else (case rest of Inl e # _ \<Rightarrow> Inl e | _ \<Rightarrow> Inr (sc_Int (cells ! 0)))
       | [] \<Rightarrow> Inl (UnsupportedInput ''apply_dirty_heuristics: the count query returned no INTEGER''))"

definition PercentOf :: "int \<Rightarrow> int \<Rightarrow> string \<Rightarrow> double result" where
  "PercentOf matches total_count site =
     (if matches < 0 \<or> matches > 2 ^ 53 div 100
      then Inl (UnsupportedInput (site @ '': a match count above 2**53 / 100 is not ported''))
      else if total_count = 0
      then Inl (DiaphoraWouldRaise (site @ '' ZeroDivisionError'') ''division by zero (total_functions1 == 0)'')
      else if total_count > 2 ^ 53 \<or> total_count < - (2 ^ 53)
      then Inl (UnsupportedInput (site @ '': a function count above 2**53 is not ported''))
      else Inr (dbl_div (fl (of_int (matches * 100))) (fl (of_int total_count))))"

definition kSpeedupStrippedBinariesMinPercent :: double where "kSpeedupStrippedBinariesMinPercent = 99"
definition kSpeedupPatchDiffSymbolsMinPercent :: double where "kSpeedupPatchDiffSymbolsMinPercent = 90"

definition SearchJustStrippedBinaries :: "Inputs \<Rightarrow> bool stage" where
  "SearchJustStrippedBinaries E =
     bindS (getS (\<lambda>s. CountOf E (stage_sql E ''kSqlStrippedCount''))) (\<lambda>matches.
     bindS (getS (\<lambda>s. PercentOf matches (ms_Total1 (ss_State s)) ''D:2562'')) (\<lambda>percent.
     if \<not> percent \<ge> kSpeedupStrippedBinariesMinPercent then retS False
     else
       bindS (modS (\<lambda>s. s\<lparr>ss_IsSymbolsStripped := True\<rparr>)) (\<lambda>_.
       bindS (AddMatchesFromQueryRatio CheckRatio (PatchDiffHookOnMatch E) (SqlRows E (stage_sql E ''kSqlStrippedRows'') []) Best Partial) (\<lambda>_.
       retS True))))"

definition SearchPatchdiffWithSymbols :: "Inputs \<Rightarrow> bool stage" where
  "SearchPatchdiffWithSymbols E =
     bindS (getS (\<lambda>s. CountOf E (stage_sql E ''kSqlPatchCount''))) (\<lambda>matches.
     bindS (getS (\<lambda>s. PercentOf matches (ms_Total1 (ss_State s)) ''D:2609'')) (\<lambda>percent.
     if \<not> percent > kSpeedupPatchDiffSymbolsMinPercent then retS False
     else bindS (modS (\<lambda>s. s\<lparr>ss_IsPatchDiff := True, ss_HooksLoaded := True, ss_Hook := {}\<rparr>)) (\<lambda>_. retS True)))"

definition StageApplyDirtyHeuristics :: "Inputs \<Rightarrow> bool stage" where
  "StageApplyDirtyHeuristics E =
     bindS (SearchJustStrippedBinaries E) (\<lambda>stripped.
     if stripped then retS True
     else bindS (SearchPatchdiffWithSymbols E) (\<lambda>patch_diff. if patch_diff then retS True else retS False))"

section \<open>\<open>find_same_name\<close>\<close>

datatype MangledKind = MangledText | MangledNone | MangledBytes | MangledNumber

record SameNameRow =
  sn_Row :: HeuristicRow
  sn_Kind :: MangledKind
  sn_SubPrefix :: bool

definition same_name_entry :: "fetch \<times> string list \<times> SqlCell list \<Rightarrow> (Interners, SameNameRow) action" where
  "same_name_entry = (\<lambda>(fetched, columns, cells).
     bindS fetched (\<lambda>row.
       case FindColumn columns ''mangled1'' of
         None \<Rightarrow> getS (\<lambda>ids. Inl (UnsupportedInput ''find_same_name: the query does not select mangled1''))
       | Some i \<Rightarrow>
           retS \<lparr>sn_Row = row,
                 sn_Kind = (case sc_Type (cells ! i) of SqlText \<Rightarrow> MangledText | SqlNull \<Rightarrow> MangledNone | SqlBlob \<Rightarrow> MangledBytes
                            | _ \<Rightarrow> MangledNumber),
                 sn_SubPrefix = (sc_Type (cells ! i) = SqlText \<and> starts_with (sc_Bytes (cells ! i)) ''sub_'')\<rparr>))"

text \<open>\<^verbatim>\<open>name.startswith("sub_")\<close> of the mangled name: \<open>None\<close> when the row goes on.\<close>

definition mangled_error :: "SameNameRow \<Rightarrow> diff_error option" where
  "mangled_error entry =
     (case sn_Kind entry of
        MangledNone \<Rightarrow> Some (DiaphoraWouldRaise ''D:2179 AttributeError''
          (quote @ ''NoneType'' @ quote @ '' object has no attribute '' @ quote @ ''startswith'' @ quote))
      | MangledBytes \<Rightarrow> Some (DiaphoraWouldRaise ''D:2179 TypeError'' ''startswith first arg must be bytes or a tuple of bytes, not str'')
      | MangledNumber \<Rightarrow> Some (DiaphoraWouldRaise ''D:2179 AttributeError''
          (''the mangled1 value has no attribute '' @ quote @ ''startswith'' @ quote))
      | MangledText \<Rightarrow> None)"

definition kMatchesBonusRatio :: double where "kMatchesBonusRatio = fl (1 / 100)"

text \<open>The bonus of \<^verbatim>\<open>MATCHES_BONUS_RATIO\<close>, added only when the sum stays below 1.\<close>

definition with_bonus :: "double \<Rightarrow> double" where
  "with_bonus ratio = (if dbl_add ratio kMatchesBonusRatio < 1 then dbl_add ratio kMatchesBonusRatio else ratio)"

definition same_name_row :: "Inputs \<Rightarrow> SameNameRow \<Rightarrow> unit stage" where
  "same_name_row E entry =
     (let row = sn_Row entry; ignore = dc_IgnoreSubNames (in_Config E)
      in if ignore \<and> mangled_error entry \<noteq> None then getS (\<lambda>s. Inl (the (mangled_error entry)))
         else if ignore \<and> sn_SubPrefix entry then retS ()
         else
           bindS (check_match E row) (\<lambda>checked.
             case checked of
               None \<Rightarrow> retS ()
             | Some ratio \<Rightarrow>
                 (case (hr_Nodes1 row, hr_Nodes2 row) of
                    (None, _) \<Rightarrow> getS (\<lambda>s. Inl (DiaphoraWouldRaise ''D:2192 TypeError'' none_type_error))
                  | (Some _, None) \<Rightarrow> getS (\<lambda>s. Inl (DiaphoraWouldRaise ''D:2193 TypeError'' none_type_error))
                  | (Some nodes1, Some nodes2) \<Rightarrow>
                      (let stored = (if ratio = 1 then ratio else with_bonus ratio);
                           it = \<lparr>it_Ea1 = hr_Ea1 row, it_Name1 = hr_Name1 row, it_Ea2 = hr_Ea2 row, it_Name2 = hr_Name2 row,
                                 it_Desc = hr_Desc row, it_Ratio = (if ratio = 1 then 1 else stored),
                                 it_Nodes1 = nodes1, it_Nodes2 = nodes2\<rparr>
                       in SessionAddMatch (hr_Name1 row) (hr_Name2 row) stored it (Some (if ratio = 1 then Best else Partial))))))"

definition StageFindSameName :: "Inputs \<Rightarrow> unit stage" where
  "StageFindSameName E =
     bindS (on_ids (collect_ids same_name_entry (map Inr (SqlCursor E (stage_sql E ''kSqlSameName'') [])))) (\<lambda>rows.
     bindS (getS (\<lambda>s. Inr (rows = [] \<or> AllFunctionsMatched (ss_State s)))) (\<lambda>stop.
     if stop then retS () else for_each (same_name_row E) rows))"

section \<open>\<open>find_remaining_functions\<close>\<close>

record UnmatchedKey =
  uk_Ea :: AddrId
  uk_Name :: NameId

definition UnionTextCell :: "string list \<Rightarrow> SqlCell list \<Rightarrow> string \<Rightarrow> string option result" where
  "UnionTextCell columns cells alias =
     (let cell = cell_at cells (FindColumn columns alias);
          shown = (case FindColumn columns alias of Some i \<Rightarrow> columns ! i | None \<Rightarrow> [])
      in case sc_Type cell of
           SqlNull \<Rightarrow> Inr None
         | SqlText \<Rightarrow>
             if \<not> IsValidUtf8 (sc_Bytes cell)
             then Inl (DiaphoraWouldRaise ''fetch'' (''OperationalError: Could not decode to UTF-8 column '' @ quote @ shown @ quote))
             else Inr (Some (sc_Bytes cell))
         | _ \<Rightarrow> Inl (UnsupportedInput (''get_unmatched_functions: a non-TEXT value in column '' @ quote @ shown @ quote @ '' is not ported'')))"

definition union_row :: "string list \<Rightarrow> SqlCell list \<Rightarrow> (Interners, bool \<times> UnmatchedKey) action" where
  "union_row columns cells =
     bindS (getS (\<lambda>ids. UnionTextCell columns cells ''db_name'')) (\<lambda>db.
     bindS (getS (\<lambda>ids. UnionTextCell columns cells ''name'')) (\<lambda>name.
     bindS (\<lambda>ids. case NameOpt ids name of (i, ids') \<Rightarrow> (Inr i, ids')) (\<lambda>name_id.
     bindS (getS (\<lambda>ids. UnionTextCell columns cells ''address'')) (\<lambda>address.
     bindS (\<lambda>ids. case AddrOpt ids address of (i, ids') \<Rightarrow> (Inr i, ids')) (\<lambda>ea.
     retS (db = Some ''diff'', \<lparr>uk_Ea = ea, uk_Name = name_id\<rparr>))))))"

fun unmatched_keys :: "MatchState \<Rightarrow> (bool \<times> UnmatchedKey) list \<Rightarrow> UnmatchedKey list \<times> UnmatchedKey list \<Rightarrow> UnmatchedKey list \<times> UnmatchedKey list" where
  "unmatched_keys ms [] acc = acc"
| "unmatched_keys ms ((is_diff, key) # rest) (main, diff) =
     (if (if is_diff then MS_Secondary ms (uk_Name key) else MS_Primary ms (uk_Name key)) \<noteq> None
      then unmatched_keys ms rest (main, diff)
      else if key \<in> set (if is_diff then diff else main) then unmatched_keys ms rest (main, diff)
      else unmatched_keys ms rest (if is_diff then (main, diff @ [key]) else (main @ [key], diff)))"

definition GetUnmatchedFunctions :: "Inputs \<Rightarrow> (UnmatchedKey list \<times> UnmatchedKey list) stage" where
  "GetUnmatchedFunctions E =
     bindS (getS (\<lambda>s. in_Db E (stage_sql E ''kSqlUnmatchedUnion'') [])) (\<lambda>st.
     bindS (on_ids (collect_ids (union_row (st_Columns st)) (steps st))) (\<lambda>rows.
     getS (\<lambda>s. Inr (unmatched_keys (ss_State s) rows ([], [])))))"

definition BindOfAddress :: "Interners \<Rightarrow> AddrId \<Rightarrow> BindValue result" where
  "BindOfAddress ids ea = (if ea = kNoneAddr then Inr BindNull else bindE (AddrText ids ea) (\<lambda>str. Inr (BindStr str)))"

definition kSpeedupPatchDiffRenamedFunctionMinRatio :: double where
  "kSpeedupPatchDiffRenamedFunctionMinRatio = fl (6 / 10)"

definition remaining_pair :: "Inputs \<Rightarrow> string \<Rightarrow> UnmatchedKey \<Rightarrow> UnmatchedKey \<Rightarrow> unit stage" where
  "remaining_pair E heur main diff =
     bindS (getS (\<lambda>s. BindOfAddress (ss_Ids s) (uk_Ea main))) (\<lambda>ea1.
     bindS (getS (\<lambda>s. BindOfAddress (ss_Ids s) (uk_Ea diff))) (\<lambda>ea2.
     add_internal E (SqlRows E (stage_sql E ''kSqlRemainingPair'') [BindStr heur, ea1, ea2]) (Some kSpeedupPatchDiffRenamedFunctionMinRatio)))"

definition remaining_main :: "Inputs \<Rightarrow> UnmatchedKey list \<Rightarrow> string \<Rightarrow> UnmatchedKey \<Rightarrow> unit stage" where
  "remaining_main E diff_unmatched heur main =
     (if uk_Name main = kNoneName
      then getS (\<lambda>s. Inl (DiaphoraWouldRaise ''D:2691 AttributeError''
             (quote @ ''NoneType'' @ quote @ '' object has no attribute '' @ quote @ ''startswith'' @ quote)))
      else
        bindS (getS (\<lambda>s. NameText (ss_Ids s) (uk_Name main))) (\<lambda>name.
          if \<not> starts_with name ''sub_'' then retS () else for_each (remaining_pair E heur main) diff_unmatched))"

definition SearchRemainingFunctions :: "Inputs \<Rightarrow> UnmatchedKey list \<Rightarrow> UnmatchedKey list \<Rightarrow> string \<Rightarrow> unit stage" where
  "SearchRemainingFunctions E main_unmatched diff_unmatched heur = for_each (remaining_main E diff_unmatched heur) main_unmatched"

definition StageFindRemainingFunctions :: "Inputs \<Rightarrow> unit stage" where
  "StageFindRemainingFunctions E =
     bindS (GetUnmatchedFunctions E) (\<lambda>(main_unmatched, diff_unmatched).
     bindS (getS (\<lambda>s. Inr (ss_IsPatchDiff s))) (\<lambda>patch_diff.
     if \<not> patch_diff then retS ()
     else SearchRemainingFunctions E main_unmatched diff_unmatched ''Renamed or anonymous function match in patch diffing session''))"

section \<open>\<open>search_small_differences\<close>\<close>

definition NamesSet :: "string option \<Rightarrow> string \<Rightarrow> PySet result" where
  "NamesSet names site =
     (case names of
        None \<Rightarrow> Inl (DiaphoraWouldRaise (site @ '' TypeError'') ''the JSON object must be str, bytes or bytearray, not NoneType'')
      | Some str \<Rightarrow>
          (case PyJsonLoadsList str of
             Some items \<Rightarrow> bindE items PySetFromList
           | None \<Rightarrow> Inl (StdException ''json.loads does not return'')))"

definition SmallIntOfNodes :: "int option \<Rightarrow> string \<Rightarrow> int result" where
  "SmallIntOfNodes nodes site =
     (case nodes of None \<Rightarrow> Inl (DiaphoraWouldRaise (site @ '' TypeError'') none_type_error) | Some n \<Rightarrow> Inr n)"

definition names_ratio :: "PySet \<Rightarrow> PySet \<Rightarrow> double result" where
  "names_ratio s1 s2 =
     (let set_total = max (length (Set_Items s1)) (length (Set_Items s2))
      in bindE (PySetIntersectionSize s1 s2) (\<lambda>commons.
         if set_total = 0 then Inl (DiaphoraWouldRaise ''D:2123 ZeroDivisionError'' ''float division by zero'')
         else Inr (dbl_div (dbl_of_size commons) (dbl_of_size set_total))))"

definition small_difference :: "Inputs \<Rightarrow> SmallRow \<Rightarrow> unit stage" where
  "small_difference E small =
     (let row = sr_Row small
      in bindS (getS (\<lambda>s. SmallIntOfNodes (hr_Nodes1 row) ''D:2116'')) (\<lambda>nodes1.
         bindS (getS (\<lambda>s. SmallIntOfNodes (hr_Nodes2 row) ''D:2117'')) (\<lambda>nodes2.
         bindS (getS (\<lambda>s. NamesSet (sr_FNames small) ''D:2119'')) (\<lambda>s1.
         bindS (getS (\<lambda>s. NamesSet (sr_DfNames small) ''D:2120'')) (\<lambda>s2.
         bindS (getS (\<lambda>s. names_ratio s1 s2)) (\<lambda>shared.
         bindS (getS (\<lambda>s. HasBetterMatch (ss_Ids s) (ss_State s) (hr_Name1 row) (hr_Name2 row) shared)) (\<lambda>better.
         if better \<or> \<not> shared \<ge> kDefaultPartialRatio then retS ()
         else
           bindS (check_match E row) (\<lambda>checked.
             case checked of
               None \<Rightarrow> retS ()
             | Some ratio \<Rightarrow>
                 bindS (StrOfEa (hr_Ea1 row)) (\<lambda>ea.
                 SessionAddMatch (hr_Name1 row) (hr_Name2 row) ratio
                   \<lparr>it_Ea1 = ea, it_Name1 = hr_Name1 row, it_Ea2 = hr_Ea2 row, it_Name2 = hr_Name2 row, it_Desc = hr_Desc row,
                    it_Ratio = ratio, it_Nodes1 = nodes1, it_Nodes2 = nodes2\<rparr>
                   (Some (if ratio = 1 then Best else Partial)))))))))))"

text \<open>The loop over \<^verbatim>\<open>ResultIter\<close>. There are at most as many rows as calls with a row, so one more call reports the
  end.\<close>

fun small_loop :: "Inputs \<Rightarrow> nat \<Rightarrow> ResultIter \<Rightarrow> unit stage" where
  "small_loop E 0 it s = (Inr (), s)"
| "small_loop E (Suc fuel) it s =
     (case IterNext (ss_Ids s, it) of
        (Inl e, ids, it') \<Rightarrow> (Inl e, s\<lparr>ss_Ids := ids\<rparr>)
      | (Inr None, ids, it') \<Rightarrow> (Inr (), s\<lparr>ss_Ids := ids\<rparr>)
      | (Inr (Some row), ids, it') \<Rightarrow> bindS (small_difference E row) (\<lambda>_. small_loop E fuel it') (s\<lparr>ss_Ids := ids\<rparr>))"

definition StageSearchSmallDifferences :: "Inputs \<Rightarrow> unit stage" where
  "StageSearchSmallDifferences E =
     (let it = new_ResultIter E (stage_sql E ''kSqlSmallDifferences'')
      in small_loop E (Suc (length (ri_Source it))) it)"

subsection \<open>The fuel of the loop is enough\<close>

text \<open>Every call that returns a row leaves fewer rows to come.\<close>

definition rows_left :: "ResultIter \<Rightarrow> nat" where
  "rows_left it = length (ri_Source it) + (if ri_Ahead it = None then 0 else 1) + (length (ri_Batch it) - ri_Pos it)"

lemma Fetch_left: "Fetch (ids, it) = (r, ids', it') \<Longrightarrow>
   ri_Pos it' = ri_Pos it \<and> ri_Ahead it' = ri_Ahead it \<and> ri_Batch it' = ri_Batch it \<and>
   length (ri_Source it') + (case r of Inr (Some row) \<Rightarrow> 1 | _ \<Rightarrow> 0) \<le> length (ri_Source it)"
  by (auto simp: Fetch_def split: list.splits prod.splits sum.splits)

lemma fill_batch_left: "fill_batch fuel (ids, it) = (r, ids', it') \<Longrightarrow>
   ri_Pos it' = ri_Pos it \<and> ri_Ahead it' = ri_Ahead it \<and>
   length (ri_Source it') + length (ri_Batch it') \<le> length (ri_Source it) + length (ri_Batch it)"
proof (induction fuel arbitrary: ids it)
  case (Suc fuel)
  show ?case
  proof (cases "\<not> ri_Exhausted it \<and> length (ri_Batch it) < kArraySize")
    case True
    obtain f ids1 it1 where F: "Fetch (ids, it) = (f, ids1, it1)" by (metis prod_cases3)
    note left = Fetch_left [OF F]
    show ?thesis
    proof (cases "\<exists>row. f = Inr (Some row)")
      case True
      then obtain row where row: "f = Inr (Some row)" by blast
      have "fill_batch fuel (ids1, it1\<lparr>ri_Batch := ri_Batch it1 @ [row]\<rparr>) = (r, ids', it')"
        using Suc.prems \<open>\<not> ri_Exhausted it \<and> _\<close> by (simp add: bindS_def getS_def modS_def F row)
      from Suc.IH [OF this] left show ?thesis by (simp add: row)
    next
      case False
      with Suc.prems \<open>\<not> ri_Exhausted it \<and> _\<close> left show ?thesis
        by (auto simp: bindS_def getS_def modS_def retS_def F split: sum.splits option.splits)
    qed
  next
    case False
    with Suc.prems show ?thesis by (auto simp: bindS_def getS_def retS_def)
  qed
qed (auto simp: retS_def)

lemma look_ahead_left:
  assumes "look_ahead (ids, it) = (Inr (), ids', it')" and "ri_Ahead it = None"
  shows "ri_Pos it' = ri_Pos it \<and> rows_left it' \<le> rows_left it"
proof -
  obtain f ids1 it1 where F: "Fetch (ids, it) = (f, ids1, it1)" by (metis prod_cases3)
  show ?thesis using assms Fetch_left [OF F]
    by (auto simp: look_ahead_def F rows_left_def split: sum.splits option.splits diff_error.splits if_splits)
qed

lemma FillBatch_left:
  assumes run: "FillBatch (ids, it) = (Inr (), ids', it')"
  shows "ri_Pos it' = 0 \<and> rows_left it' \<le> length (ri_Source it) + (if ri_Ahead it = None then 0 else 1)"
proof -
  let ?it1 = "fresh_batch it"
  have d: "ri_Deferred it = None" using run by (auto simp: FillBatch_def Let_def split: option.splits)
  obtain r ids2 it2 where B: "fill_batch (Suc (length (ri_Source it))) (ids, ?it1) = (r, ids2, it2)" by (metis prod_cases3)
  note left = fill_batch_left [OF B]
  have "(if \<not> ri_Exhausted it2 \<and> length (ri_Batch it2) = kArraySize then look_ahead (ids2, it2) else (Inr (), ids2, it2)) = (Inr (), ids', it')"
    using run B unfolding FillBatch_unfold [OF d] by (cases r) (auto simp: bindS_def getS_def retS_def simp del: fill_batch.simps split: if_splits)
  moreover have "ri_Ahead it2 = None" "ri_Pos it2 = 0" using left by simp_all
  moreover have "rows_left it2 \<le> length (ri_Source it) + (if ri_Ahead it = None then 0 else 1)"
    using left by (auto simp: rows_left_def split: option.splits)
  ultimately show ?thesis using look_ahead_left [of ids2 it2 ids' it'] by (auto split: if_splits)
qed

lemma IterNext_left:
  assumes run: "IterNext (ids, it) = (Inr (Some row), ids', it')"
  shows "rows_left it' < rows_left it"
proof (cases "ri_Pos it \<ge> length (ri_Batch it)")
  case True
  obtain r ids1 it1 where F: "FillBatch (ids, it) = (r, ids1, it1)" by (metis prod_cases3)
  with run True have "r = Inr ()" "ri_Batch it1 \<noteq> []" "it' = it1\<lparr>ri_Pos := Suc (ri_Pos it1)\<rparr>"
    by (cases r; auto simp: IterNext_def bindS_def getS_def modS_def retS_def split: if_splits)+
  with FillBatch_left [of ids it ids1 it1] F True show ?thesis by (cases "ri_Batch it1") (auto simp: rows_left_def)
next
  case False
  with run have "it' = it\<lparr>ri_Pos := Suc (ri_Pos it)\<rparr>" by (simp add: IterNext_def bindS_def getS_def modS_def retS_def)
  with False show ?thesis by (simp add: rows_left_def)
qed

lemma small_loop_fuel: "rows_left it < fuel \<Longrightarrow> small_loop E (fuel + n) it s = small_loop E fuel it s"
proof (induction fuel arbitrary: it s)
  case (Suc fuel)
  have "small_loop E (fuel + n) it' s' = small_loop E fuel it' s'" if "IterNext (ss_Ids s, it) = (Inr (Some row), ids, it')" for row ids it' s'
    using Suc.IH [of it' s'] Suc.prems IterNext_left [OF that] by simp
  then show ?case by (auto simp: bindS_def split: prod.splits sum.splits option.splits)
qed simp

lemma small_differences_fuel:
  "StageSearchSmallDifferences E =
     (let it = new_ResultIter E (stage_sql E ''kSqlSmallDifferences'') in small_loop E (Suc (length (ri_Source it)) + n) it)"
  by (rule ext) (simp add: StageSearchSmallDifferences_def Let_def small_loop_fuel rows_left_def new_ResultIter_def
      del: small_loop.simps add_Suc add_Suc_right)

end
