(* ===== verification/Preflight.thy ===== *)
theory Preflight
  imports EarlyStages
begin

text \<open>
  The checks before any matching, \<^verbatim>\<open>src/diff/stages/Preflight.cpp\<close>: the version check, \<^verbatim>\<open>equal_db\<close>, the comparison
  of the call graphs with its arbitrary-precision arithmetic on decimal texts, and the processor test. The log lines are
  not modelled; what the checks return and where they raise is.
\<close>

section \<open>Decimal magnitudes\<close>

text \<open>A magnitude is a digit text without leading zeros; the empty text is zero.\<close>

definition mag_digit :: "char \<Rightarrow> nat" where
  "mag_digit ch = of_char ch - 48"

definition strip_zeros :: "string \<Rightarrow> string" where
  "strip_zeros str = dropWhile (\<lambda>ch. ch = CHR ''0'') str"

fun mag_compare :: "string \<Rightarrow> string \<Rightarrow> int" where
  "mag_compare [] [] = 0"
| "mag_compare [] (_ # _) = - 1"
| "mag_compare (_ # _) [] = 1"
| "mag_compare (a # as) (b # bs) =
     (if (of_char a :: nat) < of_char b then - 1 else if (of_char a :: nat) > of_char b then 1 else mag_compare as bs)"

definition CompareMag :: "string \<Rightarrow> string \<Rightarrow> int" where
  "CompareMag a b = (if length a \<noteq> length b then (if length a < length b then - 1 else 1) else mag_compare a b)"

text \<open>The loops run from the last digit; their texts are reversed.\<close>

function add_digits :: "string \<Rightarrow> string \<Rightarrow> nat \<Rightarrow> string" where
  "add_digits a b carry =
     (if a = [] \<and> b = [] \<and> carry = 0 then []
      else
        (let sum_digits = carry + (if a = [] then 0 else mag_digit (hd a)) + (if b = [] then 0 else mag_digit (hd b))
         in digit_char (sum_digits mod 10) # add_digits (tl a) (tl b) (sum_digits div 10)))"
  by pat_completeness auto
termination
  by (relation "measures [\<lambda>(a, b, carry). length a + length b, \<lambda>(a, b, carry). carry]")
     (auto simp: neq_Nil_conv)

declare add_digits.simps [simp del]

definition AddMag :: "string \<Rightarrow> string \<Rightarrow> string" where
  "AddMag a b = strip_zeros (rev (add_digits (rev a) (rev b) 0))"

fun sub_digits :: "string \<Rightarrow> string \<Rightarrow> int \<Rightarrow> string" where
  "sub_digits [] b borrow = []"
| "sub_digits (x # a) b borrow =
     (let digit = int (mag_digit x) - borrow - (if b = [] then 0 else int (mag_digit (hd b)));
          borrow' = (if digit < 0 then 1 else 0)
      in digit_char (nat (digit + borrow' * 10)) # sub_digits a (tl b) borrow')"

definition SubMag :: "string \<Rightarrow> string \<Rightarrow> string" where
  "SubMag a b = strip_zeros (rev (sub_digits (rev a) (rev b) 0))"

function carry_digits :: "nat \<Rightarrow> string" where
  "carry_digits carry = (if carry = 0 then [] else digit_char (carry mod 10) # carry_digits (carry div 10))"
  by pat_completeness auto
termination
  by (relation "measure id") auto

declare carry_digits.simps [simp del]

fun mul_digits :: "string \<Rightarrow> nat \<Rightarrow> nat \<Rightarrow> string" where
  "mul_digits [] factor carry = carry_digits carry"
| "mul_digits (x # a) factor carry =
     (let product = mag_digit x * factor + carry in digit_char (product mod 10) # mul_digits a factor (product div 10))"

definition MulMagSmall :: "string \<Rightarrow> nat \<Rightarrow> string" where
  "MulMagSmall a factor = (if a = [] \<or> factor = 0 then [] else rev (mul_digits (rev a) factor 0))"

definition MagOfU64 :: "nat \<Rightarrow> string" where
  "MagOfU64 v = (if v = 0 then [] else dec_nat v)"

record BigInt =
  bi_Negative :: bool
  bi_Mag :: string

definition BigAdd :: "BigInt \<Rightarrow> BigInt \<Rightarrow> BigInt" where
  "BigAdd a b =
     (if bi_Negative a = bi_Negative b then \<lparr>bi_Negative = bi_Negative a, bi_Mag = AddMag (bi_Mag a) (bi_Mag b)\<rparr>
      else
        (let cmp = CompareMag (bi_Mag a) (bi_Mag b)
         in if cmp = 0 then \<lparr>bi_Negative = False, bi_Mag = []\<rparr>
            else if cmp > 0 then \<lparr>bi_Negative = bi_Negative a, bi_Mag = SubMag (bi_Mag a) (bi_Mag b)\<rparr>
            else \<lparr>bi_Negative = bi_Negative b, bi_Mag = SubMag (bi_Mag b) (bi_Mag a)\<rparr>))"

definition BigAbsDiff :: "BigInt \<Rightarrow> BigInt \<Rightarrow> BigInt" where
  "BigAbsDiff a b = (BigAdd a (b\<lparr>bi_Negative := \<not> bi_Negative b \<and> bi_Mag b \<noteq> []\<rparr>))\<lparr>bi_Negative := False\<rparr>"

definition BigText :: "BigInt \<Rightarrow> string" where
  "BigText v = (if bi_Mag v = [] then ''0'' else (if bi_Negative v then ''-'' else []) @ bi_Mag v)"

definition FloatOverflowMag :: string where
  "FloatOverflowMag =
     (let p970 = ((\<lambda>m. MulMagSmall m 2) ^^ 970) ''1''; p1024 = ((\<lambda>m. MulMagSmall m 2) ^^ 54) p970 in SubMag p1024 p970)"

definition FloatOverflows :: "BigInt \<Rightarrow> bool" where
  "FloatOverflows v \<longleftrightarrow> CompareMag (bi_Mag v) FloatOverflowMag \<ge> 0"

definition BigToDouble :: "BigInt \<Rightarrow> flt result" where
  "BigToDouble v =
     bindE (PyFloat (BigText v)) (\<lambda>parsed.
       case parsed of
         Some x \<Rightarrow> Inr x
       | None \<Rightarrow> Inl (UnsupportedInput (''check_callgraph: cannot convert '' @ BigText v @ '' to float'')))"

section \<open>\<open>decimal.Decimal\<close>\<close>

datatype DecimalKind = DecFinite | DecInfinity | DecQuietNaN | DecSignalingNaN

record PyDecimal =
  pd_Type :: DecimalKind
  pd_Negative :: bool
  pd_Coefficient :: string
  pd_Exponent :: int

definition new_PyDecimal :: PyDecimal where
  "new_PyDecimal = \<lparr>pd_Type = DecFinite, pd_Negative = False, pd_Coefficient = [], pd_Exponent = 0\<rparr>"

text \<open>\<^verbatim>\<open>Normalise\<close>: no leading and no trailing zeros.\<close>

definition Normalise :: "PyDecimal \<Rightarrow> PyDecimal" where
  "Normalise d =
     (let coefficient = strip_zeros (pd_Coefficient d)
      in if coefficient = [] then d\<lparr>pd_Coefficient := [], pd_Exponent := 0\<rparr>
         else
           (let kept = rev (strip_zeros (rev coefficient))
            in d\<lparr>pd_Coefficient := kept, pd_Exponent := pd_Exponent d + int (length coefficient - length kept)\<rparr>))"

definition IsPyAsciiSpace :: "char \<Rightarrow> bool" where
  "IsPyAsciiSpace ch \<longleftrightarrow>
     ch = CHR 0x20 \<or> (0x09 \<le> (of_char ch :: nat) \<and> (of_char ch :: nat) \<le> 0x0D) \<or> (0x1C \<le> (of_char ch :: nat) \<and> (of_char ch :: nat) \<le> 0x1F)"

definition equals_word :: "string \<Rightarrow> string \<Rightarrow> bool" where
  "equals_word a b \<longleftrightarrow> map ascii_lower a = map ascii_lower b"

text \<open>The exponent of a numeral: nothing, a syntax error, or the value and the text behind it.\<close>

definition decimal_exponent :: "string \<Rightarrow> (int \<times> string) option result" where
  "decimal_exponent rest =
     (if rest = [] \<or> (hd rest \<noteq> CHR ''e'' \<and> hd rest \<noteq> CHR ''E'') then Inr (Some (0, rest))
      else
        (let r = tl rest; has_sign = (r \<noteq> [] \<and> (hd r = CHR ''+'' \<or> hd r = CHR ''-'')); negative = (has_sign \<and> hd r = CHR ''-'');
             r1 = (if has_sign then tl r else r); digits = takeWhile IsDigit r1;
             kept = (let stripped = strip_zeros digits in if stripped = [] then drop (length digits - 1) digits else stripped)
         in if digits = [] then Inr None
            else if length kept > 15
            then Inl (UnsupportedInput (''check_callgraph: a Decimal exponent of '' @ dec_nat (length kept) @
                   '' digits is not ported (libmpdec exponent limits)''))
            else Inr (Some (if negative then - int (digits_value kept) else int (digits_value kept), dropWhile IsDigit r1))))"

definition ParsePyDecimal :: "string \<Rightarrow> PyDecimal option result" where
  "ParsePyDecimal raw =
     (if \<not> list_all (\<lambda>ch. (of_char ch :: nat) < 0x80) raw
      then Inl (UnsupportedInput (''check_callgraph: a non-ASCII callgraph_primes text is not ported (Python'' @ quote @
             ''s Decimal accepts Unicode digits and spaces)''))
      else
        (let str = filter (\<lambda>ch. ch \<noteq> CHR ''_'') (dropWhile IsPyAsciiSpace (rev (dropWhile IsPyAsciiSpace (rev raw))));
             has_sign = (str \<noteq> [] \<and> (hd str = CHR ''+'' \<or> hd str = CHR ''-''));
             out = new_PyDecimal\<lparr>pd_Negative := has_sign \<and> hd str = CHR ''-''\<rparr>;
             rest = (if has_sign then tl str else str)
         in if equals_word rest ''inf'' \<or> equals_word rest ''infinity'' then Inr (Some (out\<lparr>pd_Type := DecInfinity\<rparr>))
            else if length rest \<ge> 3 \<and> equals_word (take 3 rest) ''nan'' \<and> list_all IsDigit (drop 3 rest)
            then Inr (Some (out\<lparr>pd_Type := DecQuietNaN\<rparr>))
            else if length rest \<ge> 4 \<and> equals_word (take 4 rest) ''snan'' \<and> list_all IsDigit (drop 4 rest)
            then Inr (Some (out\<lparr>pd_Type := DecSignalingNaN\<rparr>))
            else
              (let int_part = takeWhile IsDigit rest; r1 = dropWhile IsDigit rest; point = (r1 \<noteq> [] \<and> hd r1 = CHR ''.'');
                   frac_part = (if point then takeWhile IsDigit (tl r1) else []); r2 = (if point then dropWhile IsDigit (tl r1) else r1)
               in if int_part = [] \<and> frac_part = [] then Inr None
                  else
                    bindE (decimal_exponent r2) (\<lambda>parsed.
                      case parsed of
                        None \<Rightarrow> Inr None
                      | Some (ex, r3) \<Rightarrow>
                          if r3 \<noteq> [] then Inr None
                          else Inr (Some (Normalise (out\<lparr>pd_Coefficient := int_part @ frac_part,
                                                         pd_Exponent := ex - int (length frac_part)\<rparr>)))))))"

definition DecimalOfInt :: "int \<Rightarrow> PyDecimal" where
  "DecimalOfInt i = Normalise (new_PyDecimal\<lparr>pd_Negative := i < 0, pd_Coefficient := MagOfU64 (nat \<bar>i\<bar>)\<rparr>)"

text \<open>\<^verbatim>\<open>frexp\<close> and \<^verbatim>\<open>ldexp\<close>: the mantissa of 53 bits and its exponent.\<close>

definition mantissa_shift :: "rat \<Rightarrow> nat \<times> int" where
  "mantissa_shift m =
     (let exp2 = (if m = 0 then 0 else exponent m + 1) in (nat \<lfloor>m * pow2 (53 - exp2)\<rfloor>, exp2 - 53))"

definition DecimalOfDouble :: "flt \<Rightarrow> PyDecimal" where
  "DecimalOfDouble x =
     (case x of
        NotANumber \<Rightarrow> new_PyDecimal\<lparr>pd_Type := DecQuietNaN\<rparr>
      | Infinity neg \<Rightarrow> new_PyDecimal\<lparr>pd_Type := DecInfinity, pd_Negative := neg\<rparr>
      | Finite neg m \<Rightarrow>
          (case mantissa_shift m of (mantissa, shift) \<Rightarrow>
             if shift \<ge> 0
             then Normalise (new_PyDecimal\<lparr>pd_Negative := neg,
                    pd_Coefficient := ((\<lambda>c. MulMagSmall c 2) ^^ nat shift) (MagOfU64 mantissa)\<rparr>)
             else Normalise (new_PyDecimal\<lparr>pd_Negative := neg,
                    pd_Coefficient := ((\<lambda>c. MulMagSmall c 5) ^^ nat (- shift)) (MagOfU64 mantissa), pd_Exponent := shift\<rparr>)))"

definition DecimalOfCell :: "SqlCell \<Rightarrow> string \<Rightarrow> PyDecimal result" where
  "DecimalOfCell cell site =
     (case sc_Type cell of
        SqlNull \<Rightarrow> Inl (DiaphoraWouldRaise (site @ '' TypeError'') ''conversion from NoneType to Decimal is not supported'')
      | SqlBlob \<Rightarrow> Inl (DiaphoraWouldRaise (site @ '' TypeError'') ''conversion from bytes to Decimal is not supported'')
      | SqlInteger \<Rightarrow> Inr (DecimalOfInt (sc_Int cell))
      | SqlReal \<Rightarrow> Inr (DecimalOfDouble (sc_Real cell))
      | SqlText \<Rightarrow>
          bindE (ParsePyDecimal (sc_Bytes cell)) (\<lambda>parsed.
            case parsed of
              Some d \<Rightarrow> Inr d
            | None \<Rightarrow> Inl (DiaphoraWouldRaise (site @ '' decimal.InvalidOperation'')
                (''[<class '' @ quote @ ''decimal.ConversionSyntax'' @ quote @ ''>] for '' @ quote @ sc_Bytes cell @ quote))))"

definition DecimalEquals :: "PyDecimal \<Rightarrow> PyDecimal \<Rightarrow> bool result" where
  "DecimalEquals a b =
     (if pd_Type a = DecSignalingNaN \<or> pd_Type b = DecSignalingNaN
      then Inl (DiaphoraWouldRaise ''D:1305 decimal.InvalidOperation'' ''comparison with a signaling NaN'')
      else if pd_Type a = DecQuietNaN \<or> pd_Type b = DecQuietNaN then Inr False
      else if pd_Type a = DecInfinity \<or> pd_Type b = DecInfinity then Inr (pd_Type a = pd_Type b \<and> pd_Negative a = pd_Negative b)
      else if pd_Coefficient a = [] \<or> pd_Coefficient b = [] then Inr (pd_Coefficient a = [] \<and> pd_Coefficient b = [])
      else Inr (pd_Negative a = pd_Negative b \<and> pd_Coefficient a = pd_Coefficient b \<and> pd_Exponent a = pd_Exponent b))"

definition JsonOfCell :: "SqlCell \<Rightarrow> string \<Rightarrow> PyValue result" where
  "JsonOfCell cell site =
     (let refuse = (\<lambda>kind. Inl (DiaphoraWouldRaise (site @ '' TypeError'') (''the JSON object must be str, bytes or bytearray, not '' @ kind)))
      in case sc_Type cell of
           SqlText \<Rightarrow>
             (case PyJsonLoads (sc_Bytes cell) of
                Some (Inr v) \<Rightarrow> Inr v
              | Some (Inl (DiaphoraWouldRaise inner detail)) \<Rightarrow> Inl (DiaphoraWouldRaise (site @ '' '' @ inner) detail)
              | Some (Inl e) \<Rightarrow> Inl e
              | None \<Rightarrow> Inl (StdException ''json.loads does not return''))
         | SqlNull \<Rightarrow> refuse ''NoneType''
         | SqlInteger \<Rightarrow> refuse ''int''
         | SqlReal \<Rightarrow> refuse ''float''
         | SqlBlob \<Rightarrow> Inl (UnsupportedInput ''check_callgraph: a BLOB callgraph_all_primes is not ported (json.loads of bytes)''))"

section \<open>The numbers of the call graph difference\<close>

text \<open>IEEE arithmetic on floats with signs, infinities and not-a-numbers.\<close>

fun flt_add :: "flt \<Rightarrow> flt \<Rightarrow> flt" where
  "flt_add (Finite n m) (Finite n' m') =
     (let v = flt_value n m + flt_value n' m' in if v = 0 then Finite (n \<and> n') 0 else nearest (v < 0) \<bar>v\<bar>)"
| "flt_add (Infinity n) (Infinity n') = (if n = n' then Infinity n else NotANumber)"
| "flt_add (Infinity n) (Finite _ _) = Infinity n"
| "flt_add (Finite _ _) (Infinity n) = Infinity n"
| "flt_add _ _ = NotANumber"

fun flt_abs :: "flt \<Rightarrow> flt" where
  "flt_abs (Finite n m) = Finite False m"
| "flt_abs (Infinity n) = Infinity False"
| "flt_abs NotANumber = NotANumber"

fun flt_mul :: "flt \<Rightarrow> flt \<Rightarrow> flt" where
  "flt_mul (Finite n m) (Finite n' m') = nearest (n \<noteq> n') (m * m')"
| "flt_mul (Infinity n) (Infinity n') = Infinity (n \<noteq> n')"
| "flt_mul (Infinity n) (Finite n' m) = (if m = 0 then NotANumber else Infinity (n \<noteq> n'))"
| "flt_mul (Finite n m) (Infinity n') = (if m = 0 then NotANumber else Infinity (n \<noteq> n'))"
| "flt_mul _ _ = NotANumber"

fun flt_div :: "flt \<Rightarrow> flt \<Rightarrow> flt" where
  "flt_div (Finite n m) (Finite n' m') =
     (if m' = 0 then (if m = 0 then NotANumber else Infinity (n \<noteq> n')) else nearest (n \<noteq> n') (m / m'))"
| "flt_div (Infinity n) (Finite n' _) = Infinity (n \<noteq> n')"
| "flt_div (Finite n _) (Infinity n') = Finite (n \<noteq> n') 0"
| "flt_div _ _ = NotANumber"

datatype PyNumber = IntNumber BigInt | FloatNumber flt

definition AsNumber :: "PyValue \<Rightarrow> PyNumber option" where
  "AsNumber v =
     (case v of
        VBool b \<Rightarrow> Some (IntNumber \<lparr>bi_Negative = False, bi_Mag = (if b then ''1'' else [])\<rparr>)
      | VInt ds \<Rightarrow>
          (let negative = (ds \<noteq> [] \<and> hd ds = CHR ''-''); digits = (if negative then tl ds else ds);
               mag = (if digits = ''0'' then [] else digits)
           in Some (IntNumber \<lparr>bi_Negative = negative \<and> mag \<noteq> [], bi_Mag = mag\<rparr>))
      | VFloat x \<Rightarrow> Some (FloatNumber x)
      | _ \<Rightarrow> None)"

definition IntEqualsFloat :: "BigInt \<Rightarrow> flt \<Rightarrow> bool" where
  "IntEqualsFloat i x =
     (case x of
        Finite neg m \<Rightarrow>
          if m \<noteq> of_int \<lfloor>m\<rfloor> then False
          else
            (let d = DecimalOfDouble x
             in if pd_Coefficient d = [] then bi_Mag i = []
                else bi_Negative i = pd_Negative d \<and> bi_Mag i = pd_Coefficient d @ replicate (nat (pd_Exponent d)) CHR ''0'')
      | _ \<Rightarrow> False)"

definition PyNotEqual :: "PyValue \<Rightarrow> PyValue \<Rightarrow> bool" where
  "PyNotEqual a b =
     (case (AsNumber a, AsNumber b) of
        (Some (IntNumber x), Some (IntNumber y)) \<Rightarrow> bi_Negative x \<noteq> bi_Negative y \<or> bi_Mag x \<noteq> bi_Mag y
      | (Some (FloatNumber x), Some (FloatNumber y)) \<Rightarrow> \<not> flt_eq x y
      | (Some (FloatNumber x), Some (IntNumber y)) \<Rightarrow> \<not> IntEqualsFloat y x
      | (Some (IntNumber x), Some (FloatNumber y)) \<Rightarrow> \<not> IntEqualsFloat x y
      | _ \<Rightarrow> \<not> PyEquals a b)"

definition RaiseIntTooLarge :: "string \<Rightarrow> diff_error" where
  "RaiseIntTooLarge site = DiaphoraWouldRaise (site @ '' OverflowError'') ''int too large to convert to float''"

text \<open>The conversion of an operand to a double, raised past its range.\<close>

definition as_double :: "string \<Rightarrow> PyNumber \<Rightarrow> flt result" where
  "as_double site n =
     (case n of
        FloatNumber x \<Rightarrow> Inr x
      | IntNumber i \<Rightarrow> if FloatOverflows i then Inl (RaiseIntTooLarge site) else BigToDouble i)"

definition MaxMinusMin :: "PyValue \<Rightarrow> PyValue \<Rightarrow> PyNumber result" where
  "MaxMinusMin a b =
     (case (AsNumber a, AsNumber b) of
        (Some (IntNumber x), Some (IntNumber y)) \<Rightarrow> Inr (IntNumber (BigAbsDiff x y))
      | (Some x, Some y) \<Rightarrow>
          bindE (as_double ''jkutils/factor.py:222'' x) (\<lambda>fx.
          bindE (as_double ''jkutils/factor.py:222'' y) (\<lambda>fy. Inr (FloatNumber (flt_abs (flt_add fx (flt_neg fy))))))
      | _ \<Rightarrow> Inl (DiaphoraWouldRaise ''jkutils/factor.py:222 TypeError'' ''max()/min()/- of non-numeric JSON values''))"

fun sum_values :: "string \<Rightarrow> PyNumber \<Rightarrow> PyNumber list \<Rightarrow> PyNumber result" where
  "sum_values site acc [] = Inr acc"
| "sum_values site acc (v # vs) =
     bindE (case (acc, v) of
              (IntNumber x, IntNumber y) \<Rightarrow> Inr (IntNumber (BigAdd x y))
            | (IntNumber x, FloatNumber y) \<Rightarrow> bindE (as_double site acc) (\<lambda>fx. Inr (FloatNumber (flt_add fx y)))
            | (FloatNumber x, _) \<Rightarrow> bindE (as_double site v) (\<lambda>fy. Inr (FloatNumber (flt_add x fy))))
       (\<lambda>acc'. sum_values site acc' vs)"

definition SumValues :: "PyNumber list \<Rightarrow> string \<Rightarrow> PyNumber result" where
  "SumValues vs site = sum_values site (IntNumber \<lparr>bi_Negative = False, bi_Mag = []\<rparr>) vs"

fun NumbersOf :: "PyValue list \<Rightarrow> string \<Rightarrow> PyNumber list result" where
  "NumbersOf [] site = Inr []"
| "NumbersOf (v # vs) site =
     (case AsNumber v of
        None \<Rightarrow> Inl (DiaphoraWouldRaise (site @ '' TypeError'') ''unsupported operand type(s) for +'')
      | Some n \<Rightarrow> bindE (NumbersOf vs site) (\<lambda>ns. Inr (n # ns)))"

text \<open>The dict of differences, in insertion order: a reassigned key keeps its place. An entry is a difference or the value itself.\<close>

type_synonym diffs = "(string \<times> (PyNumber + PyValue)) list"

fun diff_keys ::
  "(string \<times> PyValue) list \<Rightarrow> (PyValue \<Rightarrow> PyValue \<Rightarrow> PyNumber result) \<Rightarrow> (string \<times> PyValue) list \<Rightarrow> diffs \<Rightarrow> diffs result" where
  "diff_keys other difference [] acc = Inr acc"
| "diff_keys other difference ((key, v) # rest) acc =
     (case map_of other key of
        None \<Rightarrow> diff_keys other difference rest (AList.update key (Inr v) acc)
      | Some w \<Rightarrow>
          if PyNotEqual v w
          then bindE (difference v w) (\<lambda>n. diff_keys other difference rest (AList.update key (Inl n) acc))
          else diff_keys other difference rest acc)"

fun diff_values :: "diffs \<Rightarrow> PyNumber list result" where
  "diff_values [] = Inr []"
| "diff_values ((_, entry) # rest) =
     bindE (case entry of
              Inl n \<Rightarrow> Inr n
            | Inr v \<Rightarrow>
                (case AsNumber v of
                   None \<Rightarrow> Inl (DiaphoraWouldRaise ''jkutils/factor.py:242 TypeError'' ''unsupported operand type(s) for +'')
                 | Some n \<Rightarrow> Inr n))
       (\<lambda>n. bindE (diff_values rest) (\<lambda>ns. Inr (n # ns)))"

record CallgraphOutcome =
  co_Equal :: bool
  co_Percent :: "flt option"

text \<open>The last part: the percent of a difference in a total.\<close>

definition callgraph_percent :: "PyNumber \<Rightarrow> PyNumber \<Rightarrow> flt option result" where
  "callgraph_percent diff total1 =
     (case (diff, total1) of
        (IntNumber d, IntNumber t) \<Rightarrow>
          if bi_Mag t = [] \<or> bi_Mag d = [] then Inr (Some (Finite False 0))
          else if FloatOverflows d \<or> FloatOverflows t then Inl (RaiseIntTooLarge ''D:1319'')
          else bindE (BigToDouble d) (\<lambda>fd. bindE (BigToDouble t) (\<lambda>ft.
                 Inr (Some (flt_div (flt_mul fd (Finite False 100)) ft))))
      | (IntNumber d, FloatNumber _) \<Rightarrow>
          if bi_Mag d = [] then Inr (Some (Finite False 0))
          else if FloatOverflows d
          then Inl (UnsupportedInput (''check_callgraph: NOT PORTED: a float sum() zero test (total == 0, D:1316) decides whether '' @
                 ''an int too large for a double is converted (D:1319)''))
          else Inr None
      | (FloatNumber _, IntNumber t) \<Rightarrow>
          if bi_Mag t = [] then Inr (Some (Finite False 0))
          else if FloatOverflows t
          then Inl (UnsupportedInput (''check_callgraph: NOT PORTED: a float sum() zero test (diff == 0, D:1316) decides whether '' @
                 ''an int too large for a double is converted (D:1319)''))
          else Inr None
      | (FloatNumber _, FloatNumber _) \<Rightarrow> Inr None)"

definition CallgraphDifference :: "PyDecimal \<Rightarrow> PyValue \<Rightarrow> PyDecimal \<Rightarrow> PyValue \<Rightarrow> CallgraphOutcome result" where
  "CallgraphDifference cg1 factors1 cg2 factors2 =
     bindE (DecimalEquals cg1 cg2) (\<lambda>equal.
       if equal then Inr \<lparr>co_Equal = True, co_Percent = Some (Finite False 0)\<rparr>
       else
         (case (factors1, factors2) of
            (VDict f1, VDict f2) \<Rightarrow>
              bindE (diff_keys f2 MaxMinusMin f1 []) (\<lambda>ds.
              bindE (diff_keys f1 (\<lambda>b a. MaxMinusMin a b) f2 ds) (\<lambda>ds'.
              bindE (diff_values ds') (\<lambda>ns.
              bindE (SumValues ns ''jkutils/factor.py:242'') (\<lambda>diff.
              bindE (NumbersOf (map snd f1) ''D:1315'') (\<lambda>ns1.
              bindE (SumValues ns1 ''D:1315'') (\<lambda>total1.
              bindE (callgraph_percent diff total1) (\<lambda>percent.
              Inr \<lparr>co_Equal = False, co_Percent = percent\<rparr>)))))))
          | (VDict f1, _) \<Rightarrow>
              Inl (DiaphoraWouldRaise (if f1 = [] then ''jkutils/factor.py:226 AttributeError'' else ''jkutils/factor.py:220 AttributeError'')
                ''the diff callgraph_all_primes JSON is not an object'')
          | _ \<Rightarrow>
              Inl (DiaphoraWouldRaise ''jkutils/factor.py:219 AttributeError'' ''the main callgraph_all_primes JSON is not an object'')))"

section \<open>The checks\<close>

definition StageCheckVersion :: "Inputs \<Rightarrow> bool result" where
  "StageCheckVersion E =
     (let invalid = (\<lambda>e. case e of DiaphoraWouldRaise _ _ \<Rightarrow> Inr False | _ \<Rightarrow> Inl e)
      in case in_Db E (stage_sql E ''kSqlVersion'') [] of
           Inl e \<Rightarrow> invalid e
         | Inr st \<Rightarrow>
             (case steps st of
                [] \<Rightarrow> Inr False
              | Inl e # _ \<Rightarrow> invalid e
              | Inr cells # rest \<Rightarrow>
                  bindE (RequireDecodable (take 1 (st_Columns st)) cells) (\<lambda>_.
                    case rest of Inl e # _ \<Rightarrow> Inl e | _ \<Rightarrow> Inr True)))"

definition CountValue :: "SqlCell \<Rightarrow> string \<Rightarrow> int result" where
  "CountValue cell site =
     (if sc_Type cell \<noteq> SqlInteger then Inl (UnsupportedInput (site @ '': the count is not an INTEGER'')) else Inr (sc_Int cell))"

definition first_count :: "Inputs \<Rightarrow> string \<Rightarrow> int result" where
  "first_count E sql =
     bindE (in_Db E sql []) (\<lambda>st.
       case steps st of
         Inl e # _ \<Rightarrow> Inl e
       | Inr cells # _ \<Rightarrow> CountValue (cells ! 0) ''equal_db''
       | [] \<Rightarrow> CountValue null_cell ''equal_db'')"

definition StageEqualDb :: "Inputs \<Rightarrow> bool result" where
  "StageEqualDb E =
     bindE (first_count E (stage_sql E ''kSqlEqualDbMd5'')) (\<lambda>same.
       if same = 1 then Inr True
       else bindE (first_count E (stage_sql E ''kSqlEqualDbExcept'')) (\<lambda>only_main. Inr (only_main = 0)))"

text \<open>The result is the line of the report, \<^verbatim>\<open>CallgraphLog\<close>.\<close>

definition callgraph_line :: "flt option \<Rightarrow> string option" where
  "callgraph_line percent =
     (case percent of
        None \<Rightarrow> None
      | Some p \<Rightarrow>
          Some (if flt_eq p (Finite False 0) then ''Call graphs are 100% equal''
                else if flt_le (Finite False 100) p then ''Call graphs are absolutely different''
                else ''Call graphs from both programs differ in '' @ PyReprFloat p @ ''%''))"

definition StageCheckCallgraph :: "Inputs \<Rightarrow> string option result" where
  "StageCheckCallgraph E =
     bindE (in_Db E (stage_sql E ''kSqlCallgraph'') []) (\<lambda>st.
       let primes = FindColumn (st_Columns st) ''callgraph_primes''; all_primes = FindColumn (st_Columns st) ''callgraph_all_primes''
       in bindE (collect (\<lambda>cells. bindE (RequireDecodable (st_Columns st) cells) (\<lambda>_. Inr (cell_at cells primes, cell_at cells all_primes)))
                   (steps st)) (\<lambda>rows.
          case rows of
            [(primes1, all1), (primes2, all2)] \<Rightarrow>
              bindE (DecimalOfCell primes1 ''D:1300'') (\<lambda>cg1.
              bindE (JsonOfCell all1 ''D:1301'') (\<lambda>factors1.
              bindE (DecimalOfCell primes2 ''D:1302'') (\<lambda>cg2.
              bindE (JsonOfCell all2 ''D:1303'') (\<lambda>factors2.
              bindE (CallgraphDifference cg1 factors1 cg2 factors2) (\<lambda>outcome. Inr (callgraph_line (co_Percent outcome)))))))
          | _ \<Rightarrow> Inl (DiaphoraWouldRaise ''D:1322 Exception''
                   (''Not enough rows in databases! Size is '' @ dec_nat (length rows)))))"

definition StageSameProcessor :: "Inputs \<Rightarrow> bool result" where
  "StageSameProcessor E =
     bindE (in_Db E (stage_sql E ''kSqlSameProcessor'') []) (\<lambda>st.
       case steps st of
         [] \<Rightarrow> Inr False
       | Inl e # _ \<Rightarrow> Inl e
       | Inr _ # Inl e # _ \<Rightarrow> Inl e
       | Inr _ # _ \<Rightarrow> Inr True)"

end
