(* ===== verification/LoopStages.thy ===== *)
theory LoopStages
  imports EarlyStages "HOL-Library.Product_Lexorder"
begin

text \<open>
  The stages of the convergence loop: \<^verbatim>\<open>find_matches_diffing\<close> (\<^verbatim>\<open>stages/CalleeDiffing.cpp\<close>),
  \<^verbatim>\<open>find_related_matches\<close> (\<^verbatim>\<open>stages/RelatedConstants.cpp\<close>), \<^verbatim>\<open>find_related_compilation_unit\<close>
  (\<^verbatim>\<open>stages/RelatedCompilationUnit.cpp\<close>) and \<^verbatim>\<open>find_locally_affine_functions\<close>
  (\<^verbatim>\<open>stages/LocalAffinity.cpp\<close>), with \<^verbatim>\<open>LogShowSummary\<close>.

  The query plan is computed once per connection by the code; it is a field of the inputs here, so recomputing it gives the
  same answer. The call counters for reports are not modelled.
\<close>

section \<open>Shared steps\<close>

definition SessionCompareRows :: "32 word \<Rightarrow> 32 word \<Rightarrow> double stage" where
  "SessionCompareRows main_row diff_row s =
     (case CompareFunctionRows (ss_Ids s) main_row diff_row (ss_Ratio s) of (r, e) \<Rightarrow> (r, s\<lparr>ss_Ratio := e\<rparr>))"

definition CallHook :: "Inputs \<Rightarrow> HeuristicRow \<Rightarrow> double \<Rightarrow> unit stage" where
  "CallHook E row ratio = PatchDiffHookCall (PatchDiffHookOnMatch E) row ratio"

definition kRelatedMatchesMinRatio :: double where "kRelatedMatchesMinRatio = fl (8 / 10)"
definition kDefaultTrustedPartialRatio :: double where "kDefaultTrustedPartialRatio = fl (3 / 10)"

definition LogShowSummary :: "unit stage" where
  "LogShowSummary =
     getS (\<lambda>s. if ms_Total1 (ss_State s) = 0
               then Inl (DiaphoraWouldRaise ''D:1631 ZeroDivisionError'' ''show_summary with total_functions1 == 0'')
               else Inr ())"

definition name_bind :: "Interners \<Rightarrow> NameId \<Rightarrow> BindValue result" where
  "name_bind ids name = (if name = kNoneName then Inr BindNull else bindE (NameText ids name) (\<lambda>str. Inr (BindStr str)))"

text \<open>\<^verbatim>\<open>get_function_row\<close>: an exception of Python is caught and gives no row. The two stages refuse a row without
  address with different texts.\<close>

definition function_row :: "string \<Rightarrow> Inputs \<Rightarrow> Interners \<Rightarrow> Side \<Rightarrow> NameId \<Rightarrow> 32 word option result" where
  "function_row refusal E ids which name =
     bindE (name_bind ids name) (\<lambda>bound.
       case FetchFunctionRows E ids (stage_sql E (if which = Main_Side then ''kSqlFunctionRowMain'' else ''kSqlFunctionRowDiff''))
              [bound] which (Some 1) of
         Inl (DiaphoraWouldRaise site detail) \<Rightarrow> Inr None
       | Inl e \<Rightarrow> Inl e
       | Inr [] \<Rightarrow> Inr None
       | Inr (ref # _) \<Rightarrow> if fr_Row ref = kNoRow then Inl (UnsupportedInput refusal) else Inr (Some (fr_Row ref)))"

section \<open>\<open>find_matches_diffing\<close>\<close>

fun pair_walk :: "string list \<Rightarrow> string list \<Rightarrow> string list \<Rightarrow> (string \<times> string) list" where
  "pair_walk removed added [] = []"
| "pair_walk removed added (row # rows) =
     (if row = [] then pair_walk removed added rows
      else if hd row = CHR ''-'' then pair_walk (removed @ [row]) added rows
      else if hd row = CHR ''+'' then pair_walk removed (added @ [row]) rows
      else if hd row = CHR '' '' \<and> removed \<noteq> [] \<and> added \<noteq> []
      then zip (CppNamesFindAll (join_newline removed)) (CppNamesFindAll (join_newline added)) @ pair_walk [] [] rows
      else pair_walk removed added rows)"

definition CalleeCandidatePairs :: "string \<Rightarrow> string \<Rightarrow> (string \<times> string) list result" where
  "CalleeCandidatePairs main_text diff_text =
     bindE (UnifiedDiff (PySplitLines main_text) (PySplitLines diff_text) 3 []) (\<lambda>rows. Inr (pair_walk [] [] rows))"

datatype Field = AssemblyField | PseudocodeField

definition FieldName :: "Field \<Rightarrow> string" where
  "FieldName which = (case which of AssemblyField \<Rightarrow> ''assembly'' | PseudocodeField \<Rightarrow> ''pseudocode'')"

definition FieldColumn :: "FunctionTable \<Rightarrow> Field \<Rightarrow> TextColumn" where
  "FieldColumn t which = ft_Text t (case which of AssemblyField \<Rightarrow> AssemblyCol | PseudocodeField \<Rightarrow> PseudocodeCol)"

definition kHeurAssembly :: string where "kHeurAssembly = ''Callee found diffing matches assembly''"
definition kHeurPseudo :: string where "kHeurPseudo = ''Callee found diffing matches pseudo-code''"

definition callee_refusal :: string where
  "callee_refusal = ''get_function_row: the row'' @ quote @ ''s address is not TEXT (input quirk not emulated)''"

definition PyNodes :: "FunctionTable \<Rightarrow> 32 word \<Rightarrow> int option result" where
  "PyNodes t row =
     (if ic_IsNull (ft_Int t NodesCol) ! unat row then Inr None
      else if ic_NotInteger (ft_Int t NodesCol) ! unat row
      then Inl (UnsupportedInput
             ''functions.nodes holds a non-INTEGER value (Python min/max/true-division over float or str is not ported)'')
      else Inr (Some (ic_Value (ft_Int t NodesCol) ! unat row)))"

definition kExactDoubleInt :: int where "kExactDoubleInt = 2 ^ 53"

definition type_name :: "int option \<Rightarrow> string" where
  "type_name value_opt = (if value_opt = None then ''NoneType'' else ''int'')"

text \<open>The node checks (D:3084-3099): the two counts when the candidate goes on.\<close>

definition node_checks :: "FunctionTable \<Rightarrow> 32 word \<Rightarrow> FunctionTable \<Rightarrow> 32 word \<Rightarrow> (int \<times> int) option result" where
  "node_checks M main_row D diff_row =
     bindE (PyNodes M main_row) (\<lambda>nodes1.
     bindE (PyNodes D diff_row) (\<lambda>nodes2.
       case (nodes1, nodes2) of
         (Some n1, Some n2) \<Rightarrow>
           (let low = min n1 n2; high = max n1 n2
            in if high = 0 then Inl (DiaphoraWouldRaise ''D:3089 ZeroDivisionError'' ''division by zero'')
               else if low > kExactDoubleInt div 100 \<or> low < - (kExactDoubleInt div 100) \<or> high > kExactDoubleInt \<or> high < - kExactDoubleInt
               then Inl (UnsupportedInput (''functions.nodes beyond 2^53 / 100: Python'' @ quote @ ''s exact int true division is not ported''))
               else if dbl_div (fl (of_int (low * 100))) (fl (of_int high)) < 25 then Inr None
               else if n1 < 3 then Inr None
               else if n2 < 3 then Inr None
               else Inr (Some (n1, n2)))
       | _ \<Rightarrow> Inl (DiaphoraWouldRaise ''D:3084 TypeError''
                (quote @ ''<'' @ quote @ '' not supported between instances of '' @ quote @ type_name nodes2 @ quote @ '' and '' @ quote @
                 type_name nodes1 @ quote))))"

definition hook_row :: "Inputs \<Rightarrow> 32 word \<Rightarrow> 32 word \<Rightarrow> DescId \<Rightarrow> int \<Rightarrow> int \<Rightarrow> HeuristicRow" where
  "hook_row E main_row diff_row desc nodes1 nodes2 =
     (let M = in_Main E; D = in_Diff E
      in \<lparr>hr_Ea1 = ft_AddrIdOf M ! unat main_row, hr_Ea2 = ft_AddrIdOf D ! unat diff_row, hr_Row1 = main_row, hr_Row2 = diff_row,
          hr_Side1 = Main_Side, hr_Side2 = Diff_Side, hr_Name1 = ft_NameIdOf M ! unat main_row, hr_Name2 = ft_NameIdOf M ! unat main_row,
          hr_Desc = desc, hr_Nodes1 = Some nodes1, hr_Nodes2 = Some nodes2, hr_Md1 = None, hr_Md2 = None\<rparr>)"

text \<open>The comparison of the two rows and the added match (D:3101-3129).\<close>

definition compare_candidate :: "Inputs \<Rightarrow> string \<Rightarrow> string \<Rightarrow> string \<Rightarrow> int \<Rightarrow> 32 word \<Rightarrow> 32 word \<Rightarrow> int \<Rightarrow> int \<Rightarrow> unit stage" where
  "compare_candidate E name1 name2 heur inner main_row diff_row nodes1 nodes2 =
     bindS (SessionCompareRows main_row diff_row) (\<lambda>ratio.
     if ratio \<noteq> 1 \<and> \<not> ratio > kDefaultTrustedPartialRatio then retS ()
     else
       (let category = (if ratio = 1 then Best else Partial); boosted = with_bonus ratio
        in bindS (getS (\<lambda>s. Inr (ss_HooksLoaded s))) (\<lambda>loaded.
           bindS (if loaded then bindS (session_Desc heur) (\<lambda>desc. CallHook E (hook_row E main_row diff_row desc nodes1 nodes2) boosted)
                  else retS ()) (\<lambda>_.
           bindS (session_Name name1) (\<lambda>id1.
           bindS (session_Name name2) (\<lambda>id2.
           bindS (session_Desc (heur @ '' (iteration #'' @ dec_int inner @ '')'')) (\<lambda>desc.
           SessionAddMatch id1 id2 boosted
             \<lparr>it_Ea1 = ft_AddrIdOf (in_Main E) ! unat main_row, it_Name1 = id1, it_Ea2 = ft_AddrIdOf (in_Diff E) ! unat diff_row,
              it_Name2 = id2, it_Desc = desc, it_Ratio = boosted, it_Nodes1 = nodes1, it_Nodes2 = nodes2\<rparr> (Some category))))))))"

definition ProcessCandidate :: "Inputs \<Rightarrow> string \<Rightarrow> string \<Rightarrow> string \<Rightarrow> int \<Rightarrow> unit stage" where
  "ProcessCandidate E name1 name2 heur inner =
     bindS (getS (\<lambda>s. FetchFunctionRows E (ss_Ids s) (stage_sql E ''kSqlFunctionsExists'') [BindStr name1, BindStr name2] Main_Side None)) (\<lambda>found.
       case found of
         [main, diff] \<Rightarrow>
           if fr_Row main = kNoRow \<or> fr_Row diff = kNoRow
           then getS (\<lambda>s. Inl (UnsupportedInput (''functions_exists: a fetched row'' @ quote @ ''s address is not TEXT (input quirk not emulated)'')))
           else
             bindS (getS (\<lambda>s. node_checks (Functions E (fr_Which main)) (fr_Row main) (Functions E (fr_Which diff)) (fr_Row diff))) (\<lambda>nodes.
               case nodes of
                 None \<Rightarrow> retS ()
               | Some (nodes1, nodes2) \<Rightarrow>
                   if fr_Which main \<noteq> Main_Side \<or> fr_Which diff \<noteq> Diff_Side
                   then getS (\<lambda>s. Inl (UnsupportedInput (''functions_exists('' @ quote @ name1 @ quote @ '', '' @ quote @ name2 @ quote @
                          '') returned two rows of the same database (duplicate function names; 06 '' @ [CHR 0xC2, CHR 0xA7] @ ''2.10)'')))
                   else compare_candidate E name1 name2 heur inner (fr_Row main) (fr_Row diff) nodes1 nodes2)
       | _ \<Rightarrow> retS ())"

fun process_pairs :: "Inputs \<Rightarrow> string \<Rightarrow> int \<Rightarrow> (string \<times> string) list \<Rightarrow> string set \<Rightarrow> string set stage" where
  "process_pairs E heur inner [] seen = retS seen"
| "process_pairs E heur inner ((name1, name2) # pairs) seen =
     (let key = name1 @ ''-'' @ name2
      in if key \<in> seen then process_pairs E heur inner pairs seen
         else if starts_with name1 ''nullsub'' \<or> starts_with name2 ''nullsub'' then process_pairs E heur inner pairs (insert key seen)
         else bindS (ProcessCandidate E name1 name2 heur inner) (\<lambda>_. process_pairs E heur inner pairs (insert key seen)))"

definition FindOneMatchDiffing :: "Inputs \<Rightarrow> 32 word \<Rightarrow> 32 word \<Rightarrow> Field \<Rightarrow> string \<Rightarrow> int \<Rightarrow> string set \<Rightarrow> string set stage" where
  "FindOneMatchDiffing E main_row diff_row which heur inner seen =
     (let main_column = FieldColumn (in_Main E) which; diff_column = FieldColumn (in_Diff E) which
      in if tc_IsBlob main_column ! unat main_row \<or> tc_IsBlob diff_column ! unat diff_row
         then getS (\<lambda>s. Inl (UnsupportedInput (''functions.'' @ FieldName which @ '' is a BLOB (Python bytes semantics of D:3040-3059 not ported)'')))
         else bindS (getS (\<lambda>s. CalleeCandidatePairs (Text_View main_column (unat main_row)) (Text_View diff_column (unat diff_row)))) (\<lambda>pairs.
              process_pairs E heur inner pairs seen))"

definition match_key :: "Interners \<Rightarrow> Item \<Rightarrow> string result" where
  "match_key ids it =
     bindE (NameKeyText ids (it_Name1 it)) (\<lambda>key1. bindE (NameKeyText ids (it_Name2 it)) (\<lambda>key2. Inr (key1 @ ''-'' @ key2)))"

fun diffing_items :: "Inputs \<Rightarrow> string \<Rightarrow> Field \<Rightarrow> int \<Rightarrow> Item list \<Rightarrow> string set \<Rightarrow> string set stage" where
  "diffing_items E heur which inner [] seen = retS seen"
| "diffing_items E heur which inner (it # items) seen =
     bindS (getS (\<lambda>s. match_key (ss_Ids s) it)) (\<lambda>key.
     if key \<in> seen then diffing_items E heur which inner items seen
     else
       bindS (getS (\<lambda>s. function_row callee_refusal E (ss_Ids s) Main_Side (it_Name1 it))) (\<lambda>main_row.
       bindS (getS (\<lambda>s. function_row callee_refusal E (ss_Ids s) Diff_Side (it_Name2 it))) (\<lambda>diff_row.
         case (main_row, diff_row) of
           (Some r1, Some r2) \<Rightarrow>
             if tc_IsNull (FieldColumn (in_Main E) which) ! unat r1 \<or> tc_IsNull (FieldColumn (in_Diff E) which) ! unat r2
             then diffing_items E heur which inner items (insert key seen)
             else bindS (FindOneMatchDiffing E r1 r2 which heur inner (insert key seen)) (\<lambda>seen'. diffing_items E heur which inner items seen')
         | _ \<Rightarrow> diffing_items E heur which inner items (insert key seen))))"

text \<open>The rounds of \<^verbatim>\<open>find_matches_diffing_internal\<close>, at most three.\<close>

fun diffing_rounds :: "nat \<Rightarrow> Inputs \<Rightarrow> string \<Rightarrow> Field \<Rightarrow> int \<Rightarrow> string set \<Rightarrow> unit stage" where
  "diffing_rounds 0 E heur which inner seen = retS ()"
| "diffing_rounds (Suc rounds) E heur which inner seen =
     bindS (getS (\<lambda>s. Inr (TotalMatchedFunctions (ss_State s)))) (\<lambda>old_total.
     bindS (getS (\<lambda>s. Inr (SortedResults (ss_State s) Best))) (\<lambda>best.
     bindS (diffing_items E heur which inner best seen) (\<lambda>seen1.
     bindS (getS (\<lambda>s. Inr (SortedResults (ss_State s) Partial))) (\<lambda>part.
     bindS (diffing_items E heur which inner part seen1) (\<lambda>seen2.
     bindS (SessionCleanup L3185) (\<lambda>_.
     bindS LogShowSummary (\<lambda>_.
     bindS (getS (\<lambda>s. Inr (TotalMatchedFunctions (ss_State s)))) (\<lambda>new_total.
     if new_total = old_total then retS () else diffing_rounds rounds E heur which (inner + 1) seen2))))))))"

definition FindMatchesDiffingInternal :: "Inputs \<Rightarrow> string \<Rightarrow> Field \<Rightarrow> unit stage" where
  "FindMatchesDiffingInternal E heur which = diffing_rounds 3 E heur which 1 {}"

definition StageFindMatchesDiffing :: "Inputs \<Rightarrow> unit stage" where
  "StageFindMatchesDiffing E =
     bindS (SessionCleanup L3217) (\<lambda>_.
     bindS (getS (\<lambda>s. Inr (re_IsSameProcessor (ss_Ratio s)))) (\<lambda>same_processor.
     bindS (if same_processor then FindMatchesDiffingInternal E kHeurAssembly AssemblyField else retS ()) (\<lambda>_.
     FindMatchesDiffingInternal E kHeurPseudo PseudocodeField)))"

section \<open>\<open>find_related_matches\<close>\<close>

definition related_refusal :: string where
  "related_refusal = ''get_function_row: the fetched row'' @ quote @ ''s address is not a TEXT address of the export''"

definition ConstantsCountPositive :: "FunctionTable \<Rightarrow> 32 word \<Rightarrow> string \<Rightarrow> bool result" where
  "ConstantsCountPositive t row site =
     (if ic_IsNull (ft_Int t ConstantsCountCol) ! unat row
      then Inl (DiaphoraWouldRaise site (''TypeError: '' @ quote @ ''>'' @ quote @ '' not supported between instances of '' @ quote @
             ''NoneType'' @ quote @ '' and '' @ quote @ ''int'' @ quote))
      else if ic_NotInteger (ft_Int t ConstantsCountCol) ! unat row
      then Inl (UnsupportedInput (site @ '': functions.constants_count is not INTEGER (not ported)''))
      else Inr (ic_Value (ft_Int t ConstantsCountCol) ! unat row > 0))"

definition ConstantsSet :: "FunctionTable \<Rightarrow> 32 word \<Rightarrow> string \<Rightarrow> PySet result" where
  "ConstantsSet t row site =
     (case CellOf (ft_Text t ConstantsCol) row of
        None \<Rightarrow> Inl (DiaphoraWouldRaise site ''TypeError: the JSON object must be str, bytes or bytearray, not NoneType'')
      | Some (True, _) \<Rightarrow> Inl (UnsupportedInput (site @ '': functions.constants is a BLOB (json.loads(bytes) not ported)''))
      | Some (False, bytes) \<Rightarrow>
          (case PyJsonLoadsList bytes of
             Some items \<Rightarrow> bindE items PySetFromList
           | None \<Rightarrow> Inl (StdException ''json.loads does not return'')))"

definition RequireBindableStr :: "string \<Rightarrow> string \<Rightarrow> unit result" where
  "RequireBindableStr str site =
     (if list_ex (\<lambda>i. (of_char (str ! i) :: nat) = 0xED \<and> 0xA0 \<le> (of_char (str ! Suc i) :: nat) \<and> (of_char (str ! Suc i) :: nat) \<le> 0xBF)
           [0..<length str - 1]
      then Inl (DiaphoraWouldRaise site (''UnicodeEncodeError: '' @ quote @ ''utf-8'' @ quote @ '' codec can'' @ quote @
             ''t encode a surrogate: surrogates not allowed''))
      else Inr ())"

definition constant_texts :: "PyValue list \<Rightarrow> string list result" where
  "constant_texts constants = collect PyStr (map Inr constants)"

text \<open>The installed order of one run, when there is one: a permutation of the documented order.\<close>

definition reorder_texts :: "Inputs \<Rightarrow> 32 word \<Rightarrow> 32 word \<Rightarrow> string list \<Rightarrow> string list result" where
  "reorder_texts E main_row diff_row texts =
     (case in_Reorder E of
        None \<Rightarrow> Inr texts
      | Some reorder \<Rightarrow>
          if length texts < 2 then Inr texts
          else
            (let reordered = reorder (Text_View (ft_Text (in_Main E) NameCol) (unat main_row))
                               (Text_View (ft_Text (in_Diff E) NameCol) (unat diff_row)) texts
             in if list_all (\<lambda>str. count_list texts str = count_list reordered str) (texts @ reordered) then Inr reordered
                else Inl (UnsupportedInput ''RelatedConstantOrder: the installed order is not a permutation of the intersection'')))"

definition related_constant :: "Inputs \<Rightarrow> string \<Rightarrow> unit stage" where
  "related_constant E str =
     bindS (getS (\<lambda>s. RequireBindableStr str ''D:3390 cur.execute(str(constant))'')) (\<lambda>_.
     add_internal E (SqlRows E (stage_sql E ''kSqlRelatedConstants'') [BindStr str]) None)"

definition FindRelatedConstants :: "Inputs \<Rightarrow> 32 word \<Rightarrow> 32 word \<Rightarrow> unit stage" where
  "FindRelatedConstants E main_row diff_row =
     bindS (getS (\<lambda>s. ConstantsSet (in_Main E) main_row ''D:3370 set(json.loads(main constants))'')) (\<lambda>main_consts.
     bindS (getS (\<lambda>s. ConstantsSet (in_Diff E) diff_row ''D:3371 set(json.loads(diff constants))'')) (\<lambda>diff_consts.
     bindS (getS (\<lambda>s. PySetIntersection main_consts diff_consts)) (\<lambda>inter_consts.
     if inter_consts = [] then retS ()
     else
       bindS (getS (\<lambda>s. constant_texts inter_consts)) (\<lambda>texts.
       bindS (getS (\<lambda>s. reorder_texts E main_row diff_row texts)) (\<lambda>ordered.
       for_each (related_constant E) ordered)))))"

fun related_items :: "Inputs \<Rightarrow> Item list \<Rightarrow> string set \<Rightarrow> string set stage" where
  "related_items E [] seen = retS seen"
| "related_items E (it # items) seen =
     bindS (getS (\<lambda>s. match_key (ss_Ids s) it)) (\<lambda>key.
     if key \<in> seen then related_items E items seen
     else if it_Ratio it < kRelatedMatchesMinRatio then retS (insert key seen)
     else
       bindS (getS (\<lambda>s. function_row related_refusal E (ss_Ids s) Main_Side (it_Name1 it))) (\<lambda>main_row.
       bindS (getS (\<lambda>s. function_row related_refusal E (ss_Ids s) Diff_Side (it_Name2 it))) (\<lambda>diff_row.
         case (main_row, diff_row) of
           (Some r1, Some r2) \<Rightarrow>
             bindS (getS (\<lambda>s. ConstantsCountPositive (in_Main E) r1 ''D:3493 main constants_count > 0'')) (\<lambda>positive1.
             bindS (if positive1 then getS (\<lambda>s. ConstantsCountPositive (in_Diff E) r2 ''D:3493 diff constants_count > 0'') else retS False) (\<lambda>positive2.
             bindS (if positive2 then FindRelatedConstants E r1 r2 else retS ()) (\<lambda>_.
             related_items E items (insert key seen))))
         | _ \<Rightarrow> related_items E items (insert key seen))))"

definition StageFindRelatedMatches :: "Inputs \<Rightarrow> unit stage" where
  "StageFindRelatedMatches E =
     bindS (SessionCleanup L3471) (\<lambda>_.
     bindS (getS (\<lambda>s. Inr (SortedResults (ss_State s) Best))) (\<lambda>best.
     bindS (related_items E best {}) (\<lambda>seen.
     bindS (getS (\<lambda>s. Inr (SortedResults (ss_State s) Partial))) (\<lambda>part.
     bindS (related_items E part seen) (\<lambda>_. retS ())))))"

section \<open>\<open>find_related_compilation_unit\<close>\<close>

definition kCuHeuristic :: string where "kCuHeuristic = ''Related compilation unit''"

definition CuLookup :: "Inputs \<Rightarrow> Interners \<Rightarrow> string \<Rightarrow> NameId \<Rightarrow> string \<Rightarrow> (SqlCell \<times> SqlCell) option result" where
  "CuLookup E ids sql name site =
     bindE (name_bind ids name) (\<lambda>bound.
     bindE (in_Db E sql [bound]) (\<lambda>st.
       case steps st of
         [] \<Rightarrow> Inr None
       | Inl e # _ \<Rightarrow> Inl e
       | Inr cells # _ \<Rightarrow>
           (case find (\<lambda>i. bad_utf8 (cells ! i)) [0..<length (st_Columns st)] of
              Some i \<Rightarrow> Inl (DiaphoraWouldRaise site
                          (''OperationalError: Could not decode to UTF-8 column '' @ quote @ st_Columns st ! i @ quote))
            | None \<Rightarrow>
                (case (FindColumn (st_Columns st) ''start_ea'', FindColumn (st_Columns st) ''end_ea'') of
                   (Some i, Some j) \<Rightarrow> Inr (Some (Statement_Cell (cells ! i), Statement_Cell (cells ! j)))
                 | _ \<Rightarrow> Inl (UnsupportedInput ''related CU lookup: the query does not select start_ea / end_ea'')))))"

definition PyFloatOfCell :: "SqlCell \<Rightarrow> string \<Rightarrow> flt result" where
  "PyFloatOfCell cell site =
     (let parse = bindE (PyFloat (sc_Bytes cell)) (\<lambda>parsed.
            case parsed of
              Some x \<Rightarrow> Inr x
            | None \<Rightarrow> Inl (DiaphoraWouldRaise site (''ValueError: could not convert string to float: '' @ quote @ sc_Bytes cell @ quote)))
      in case sc_Type cell of
           SqlNull \<Rightarrow> Inl (DiaphoraWouldRaise site
             (''TypeError: float() argument must be a string or a real number, not '' @ quote @ ''NoneType'' @ quote))
         | SqlReal \<Rightarrow> Inr (sc_Real cell)
         | SqlInteger \<Rightarrow>
             if sc_Int cell < - (2 ^ 53) \<or> sc_Int cell > 2 ^ 53
             then Inl (UnsupportedInput (site @ '': float() of an INTEGER CU bound beyond 2^53 is not ported''))
             else Inr (nearest (sc_Int cell < 0) (of_int \<bar>sc_Int cell\<bar>))
         | SqlBlob \<Rightarrow>
             if list_ex (\<lambda>ch. (of_char ch :: nat) \<ge> 0x80) (sc_Bytes cell)
             then Inl (DiaphoraWouldRaise site ''ValueError: could not convert string to float (non-ASCII bytes)'')
             else parse
         | SqlText \<Rightarrow> parse)"

definition CuReplayPlanOk :: "Inputs \<Rightarrow> bool result" where
  "CuReplayPlanOk E =
     (case in_Plan E (stage_sql E ''kSqlCuCartesian'') of
        Inl (DiaphoraWouldRaise site detail) \<Rightarrow> Inr False
      | Inl e \<Rightarrow> Inl e
      | Inr [outer, inner] \<Rightarrow> Inr (pl_Detail outer = ''SCAN f'' \<and> pl_Detail inner = ''SCAN df'' \<and> pl_Parent outer = 0 \<and> pl_Parent inner = 0)
      | Inr _ \<Rightarrow> Inr False)"

definition cu_replay :: "Inputs \<Rightarrow> flt \<Rightarrow> flt \<Rightarrow> flt \<Rightarrow> flt \<Rightarrow> unit stage" where
  "cu_replay E lo1 hi1 lo2 hi2 =
     bindS (if in_CuNative E then getS (\<lambda>s. CuReplayPlanOk E) else retS False) (\<lambda>native.
     if native
     then bindS (session_Desc kCuHeuristic) (\<lambda>desc. add_internal E (CuRows E desc (CuReplaySource E lo1 hi1 lo2 hi2)) None)
     else add_internal E (SqlRows E (stage_sql E ''kSqlCuCartesian'') [BindDouble lo1, BindDouble hi1, BindDouble lo2, BindDouble hi2]) None)"

fun cu_items :: "Inputs \<Rightarrow> Item list \<Rightarrow> unit stage" where
  "cu_items E [] = retS ()"
| "cu_items E (it # items) =
     (if it_Ratio it < kRelatedMatchesMinRatio then retS ()
      else
        bindS (getS (\<lambda>s. CuLookup E (ss_Ids s) (stage_sql E ''kSqlCuLookupMain'') (it_Name1 it) ''D:3445 fetchone (main CU)'')) (\<lambda>main_cu.
        bindS (getS (\<lambda>s. CuLookup E (ss_Ids s) (stage_sql E ''kSqlCuLookupDiff'') (it_Name2 it) ''D:3448 fetchone (diff CU)'')) (\<lambda>diff_cu.
          case (main_cu, diff_cu) of
            (Some (start1, end1), Some (start2, end2)) \<Rightarrow>
              bindS (getS (\<lambda>s. PyFloatOfCell start1 ''D:3453 float(start_ea)'')) (\<lambda>lo1.
              bindS (getS (\<lambda>s. PyFloatOfCell end1 ''D:3454 float(end_ea)'')) (\<lambda>hi1.
              bindS (getS (\<lambda>s. PyFloatOfCell start2 ''D:3455 float(start_ea)'')) (\<lambda>lo2.
              bindS (getS (\<lambda>s. PyFloatOfCell end2 ''D:3456 float(end_ea)'')) (\<lambda>hi2.
              bindS (cu_replay E lo1 hi1 lo2 hi2) (\<lambda>_. cu_items E items)))))
          | _ \<Rightarrow> cu_items E items)))"

definition StageFindRelatedCompilationUnit :: "Inputs \<Rightarrow> unit stage" where
  "StageFindRelatedCompilationUnit E =
     bindS (SessionCleanup L3413) (\<lambda>_.
     bindS (getS (\<lambda>s. Inr (SortedResults (ss_State s) Best @ SortedResults (ss_State s) Partial))) (\<lambda>seeds. cu_items E seeds))"

section \<open>\<open>find_locally_affine_functions\<close>\<close>

definition kLocalAffinity :: string where "kLocalAffinity = ''Local affinity''"

record PyIntKey =
  pk_Negative :: bool
  pk_Digits :: string

text \<open>\<^verbatim>\<open>std::string::compare\<close>.\<close>

fun byte_compare :: "string \<Rightarrow> string \<Rightarrow> int" where
  "byte_compare [] [] = 0"
| "byte_compare [] (_ # _) = - 1"
| "byte_compare (_ # _) [] = 1"
| "byte_compare (a # as) (b # bs) =
     (if (of_char a :: nat) < of_char b then - 1 else if (of_char a :: nat) > of_char b then 1 else byte_compare as bs)"

definition KeyCompare :: "PyIntKey \<Rightarrow> PyIntKey \<Rightarrow> int" where
  "KeyCompare a b =
     (if pk_Negative a \<noteq> pk_Negative b then (if pk_Negative a then - 1 else 1)
      else
        (let magnitude =
               (if length (pk_Digits a) \<noteq> length (pk_Digits b)
                then (if length (pk_Digits a) < length (pk_Digits b) then - 1 else 1)
                else (let cmp = byte_compare (pk_Digits a) (pk_Digits b) in if cmp < 0 then - 1 else if cmp > 0 then 1 else 0))
         in if pk_Negative a then - magnitude else magnitude))"

text \<open>The loop of \<^verbatim>\<open>IntKeyOf\<close>: the flag \<^verbatim>\<open>Leading\<close> is on until the first digit that is kept.\<close>

fun key_loop :: "bool \<Rightarrow> PyIntKey \<Rightarrow> string \<Rightarrow> PyIntKey" where
  "key_loop at_front key [] = key"
| "key_loop at_front key (ch # rest) =
     (if ch = CHR ''-'' then key_loop at_front (key\<lparr>pk_Negative := True\<rparr>) rest
      else if IsDigit ch
      then (if at_front \<and> ch = CHR ''0'' then key_loop at_front key rest
            else key_loop False (key\<lparr>pk_Digits := pk_Digits key @ [ch]\<rparr>) rest)
      else key_loop at_front key rest)"

definition key_of_text :: "string \<Rightarrow> PyIntKey" where
  "key_of_text str =
     (let key = key_loop True \<lparr>pk_Negative = False, pk_Digits = []\<rparr> str
      in if pk_Digits key = [] then key\<lparr>pk_Negative := False\<rparr> else key)"

definition IntKeyOf :: "Interners \<Rightarrow> AddrId \<Rightarrow> string \<Rightarrow> PyIntKey result" where
  "IntKeyOf ids ea site =
     bindE (RequirePyInt ids ea site) (\<lambda>_. bindE (AddrText ids ea) (\<lambda>str. Inr (key_of_text str)))"

definition RowNameStartsWith :: "FunctionTable \<Rightarrow> 32 word \<Rightarrow> string \<Rightarrow> string \<Rightarrow> bool result" where
  "RowNameStartsWith t row pre site =
     (case CellOf (ft_Text t NameCol) row of
        None \<Rightarrow> Inl (DiaphoraWouldRaise site (''AttributeError: '' @ quote @ ''NoneType'' @ quote @ '' object has no attribute '' @
                 quote @ ''startswith'' @ quote))
      | Some (True, _) \<Rightarrow> Inl (DiaphoraWouldRaise site ''TypeError: startswith first arg must be bytes or a tuple of bytes, not str'')
      | Some (False, name) \<Rightarrow> Inr (starts_with name pre))"

definition PseudocodeLines :: "FunctionTable \<Rightarrow> 32 word \<Rightarrow> int result" where
  "PseudocodeLines t row =
     (if ic_IsNull (ft_Int t PseudocodeLinesCol) ! unat row
      then Inl (DiaphoraWouldRaise ''D:3276'' (''TypeError: unsupported operand type(s) for +: '' @ quote @ ''NoneType'' @ quote @ '' and '' @
             quote @ ''int'' @ quote))
      else if ic_NotInteger (ft_Int t PseudocodeLinesCol) ! unat row
      then Inl (UnsupportedInput ''D:3276: functions.pseudocode_lines is not INTEGER (not ported)'')
      else Inr (ic_Value (ft_Int t PseudocodeLinesCol) ! unat row))"

definition INT64_MIN :: int where "INT64_MIN = - (2 ^ 63)"

text \<open>The sum wraps around in 64 bits.\<close>

definition SumIsNonZero :: "int \<Rightarrow> int \<Rightarrow> bool" where
  "SumIsNonZero a b =
     (let sum_bits = (word_of_int a :: 64 word) + word_of_int b
      in if sum_bits \<noteq> 0 then True else a = INT64_MIN \<and> b = INT64_MIN)"

definition AffinityNodes :: "FunctionTable \<Rightarrow> 32 word \<Rightarrow> string \<Rightarrow> int result" where
  "AffinityNodes t row site =
     (if ic_IsNull (ft_Int t NodesCol) ! unat row
      then Inl (DiaphoraWouldRaise site (''TypeError: '' @ none_type_error))
      else if ic_NotInteger (ft_Int t NodesCol) ! unat row
      then Inl (UnsupportedInput (site @ '': functions.nodes is not INTEGER (int() semantics not ported)''))
      else Inr (ic_Value (ft_Int t NodesCol) ! unat row))"

definition GapRows :: "Inputs \<Rightarrow> Interners \<Rightarrow> Side \<Rightarrow> AddrId \<Rightarrow> AddrId \<Rightarrow> 32 word list result" where
  "GapRows E ids which low high =
     bindE (BindOfAddress ids low) (\<lambda>low_bind.
     bindE (BindOfAddress ids high) (\<lambda>high_bind.
     bindE (FetchFunctionRows E ids (stage_sql E (if which = Main_Side then ''kSqlGapMain'' else ''kSqlGapDiff''))
              [low_bind, high_bind] which None) (\<lambda>refs.
     if list_ex (\<lambda>ref. fr_Row ref = kNoRow) refs
     then Inl (UnsupportedInput (''find_functions_between: a gap row'' @ quote @ ''s address is not a TEXT address of the export''))
     else Inr (map fr_Row refs))))"

definition CallOnMatchHook :: "Inputs \<Rightarrow> 32 word \<Rightarrow> 32 word \<Rightarrow> double \<Rightarrow> double stage" where
  "CallOnMatchHook E main_row diff_row ratio =
     bindS (getS (\<lambda>s. Inr (ss_HooksLoaded s))) (\<lambda>loaded.
     if \<not> loaded then retS ratio
     else
       bindS (session_Desc kLocalAffinity) (\<lambda>desc.
       bindS (getS (\<lambda>s. AffinityNodes (in_Main E) main_row ''D:3020'')) (\<lambda>nodes1.
       bindS (getS (\<lambda>s. AffinityNodes (in_Diff E) diff_row ''D:3021'')) (\<lambda>nodes2.
       bindS (CallHook E (hook_row E main_row diff_row desc nodes1 nodes2) ratio) (\<lambda>_.
       retS ratio)))))"

type_synonym scores = "(NameId \<times> double) list \<times> (NameId \<times> double) list"

definition scored :: "(NameId \<times> double) list \<Rightarrow> NameId \<Rightarrow> double \<Rightarrow> bool" where
  "scored scores_of name ratio \<longleftrightarrow> (case map_of scores_of name of Some best \<Rightarrow> best \<ge> ratio | None \<Rightarrow> False)"

text \<open>The filters of a pair (D:3269-3278): whether it is compared.\<close>

definition gap_filter :: "Inputs \<Rightarrow> 32 word \<Rightarrow> 32 word \<Rightarrow> bool result" where
  "gap_filter E a b =
     (let M = in_Main E; D = in_Diff E
      in bindE (RowNameStartsWith M a ''nullsub_'' ''D:3269'') (\<lambda>null1.
         bindE (if null1 then Inr True else RowNameStartsWith D b ''nullsub_'' ''D:3269'') (\<lambda>nullsub.
         if nullsub then Inr False
         else
           bindE (RowNameStartsWith M a ''sub_'' ''D:3271'') (\<lambda>sub1.
           bindE (if sub1 then Inr True else RowNameStartsWith D b ''sub_'' ''D:3271'') (\<lambda>has_sub.
           if \<not> has_sub then Inr False
           else
             bindE (PseudocodeLines M a) (\<lambda>lines1.
             bindE (PseudocodeLines D b) (\<lambda>lines2.
             Inr (\<not> (SumIsNonZero lines1 lines2 \<and> (lines1 = 3 \<or> lines2 = 3))))))))))"

definition gap_pair :: "Inputs \<Rightarrow> DescId \<Rightarrow> 32 word \<times> 32 word \<Rightarrow> scores \<Rightarrow> scores stage" where
  "gap_pair E desc = (\<lambda>(a, b) (main_score, diff_score).
     bindS (getS (\<lambda>s. gap_filter E a b)) (\<lambda>compared.
     if \<not> compared then retS (main_score, diff_score)
     else
       bindS (SessionCompareRows a b) (\<lambda>ratio.
       if ratio \<noteq> 1 \<and> \<not> ratio \<ge> kDefaultPartialRatio then retS (main_score, diff_score)
       else
         (let name1 = ft_NameIdOf (in_Main E) ! unat a; name2 = ft_NameIdOf (in_Diff E) ! unat b
          in if scored main_score name1 ratio \<or> scored diff_score name2 ratio then retS (main_score, diff_score)
             else
               bindS (CallOnMatchHook E a b ratio) (\<lambda>r.
               bindS (getS (\<lambda>s. AffinityNodes (in_Main E) a ''D:3303'')) (\<lambda>nodes1.
               bindS (getS (\<lambda>s. AffinityNodes (in_Diff E) b ''D:3304'')) (\<lambda>nodes2.
               bindS (SessionAddMatch name1 name2 r
                        \<lparr>it_Ea1 = ft_AddrIdOf (in_Main E) ! unat a, it_Name1 = name1, it_Ea2 = ft_AddrIdOf (in_Diff E) ! unat b,
                         it_Name2 = name2, it_Desc = desc, it_Ratio = r, it_Nodes1 = nodes1, it_Nodes2 = nodes2\<rparr>
                        (Some (if ratio = 1 then Best else Partial))) (\<lambda>_.
               retS (AList.update name1 r main_score, AList.update name2 r diff_score)))))))))"

text \<open>The two nested loops, as one loop over the pairs in their order.\<close>

fun gap_loop :: "Inputs \<Rightarrow> DescId \<Rightarrow> (32 word \<times> 32 word) list \<Rightarrow> scores \<Rightarrow> unit stage" where
  "gap_loop E desc [] sc = retS ()"
| "gap_loop E desc (p # pairs) sc = bindS (gap_pair E desc p sc) (\<lambda>sc'. gap_loop E desc pairs sc')"

definition FindFunctionsBetween :: "Inputs \<Rightarrow> AddrId \<Rightarrow> AddrId \<Rightarrow> AddrId \<Rightarrow> AddrId \<Rightarrow> unit stage" where
  "FindFunctionsBetween E low1 high1 low2 high2 =
     bindS (getS (\<lambda>s. GapRows E (ss_Ids s) Main_Side low1 high1)) (\<lambda>main_rows.
     if main_rows = [] \<or> length main_rows > 100 then retS ()
     else
       bindS (getS (\<lambda>s. GapRows E (ss_Ids s) Diff_Side low2 high2)) (\<lambda>diff_rows.
       if diff_rows = [] \<or> length diff_rows > 100 then retS ()
       else bindS (session_Desc kLocalAffinity) (\<lambda>desc. gap_loop E desc (List.product main_rows diff_rows) ([], []))))"

definition item_keys :: "Interners \<Rightarrow> Item \<Rightarrow> (PyIntKey \<times> PyIntKey) result" where
  "item_keys ids it =
     bindE (IntKeyOf ids (it_Ea1 it) ''D:3345 int(x[0])'') (\<lambda>key1.
     bindE (IntKeyOf ids (it_Ea2 it) ''D:3345 int(x[2])'') (\<lambda>key2. Inr (key1, key2)))"

text \<open>\<^verbatim>\<open>std::stable_sort\<close> with a comparison: an element stays before the later ones that are not less.\<close>

fun stable_insert :: "('a \<Rightarrow> 'a \<Rightarrow> bool) \<Rightarrow> 'a \<Rightarrow> 'a list \<Rightarrow> 'a list" where
  "stable_insert lt x [] = [x]"
| "stable_insert lt x (y # ys) = (if lt y x then y # stable_insert lt x ys else x # y # ys)"

definition stable_sort :: "('a \<Rightarrow> 'a \<Rightarrow> bool) \<Rightarrow> 'a list \<Rightarrow> 'a list" where
  "stable_sort lt xs = foldr (stable_insert lt) xs []"

definition keys_less :: "PyIntKey \<times> PyIntKey \<Rightarrow> PyIntKey \<times> PyIntKey \<Rightarrow> bool" where
  "keys_less a b = (let first = KeyCompare (fst a) (fst b) in if first \<noteq> 0 then first < 0 else KeyCompare (snd a) (snd b) < 0)"

definition AffinityOrder :: "Interners \<Rightarrow> Item list \<Rightarrow> Item list result" where
  "AffinityOrder ids items =
     bindE (collect (item_keys ids) (map Inr items)) (\<lambda>ks.
     Inr (map snd (stable_sort (\<lambda>x y. keys_less (fst x) (fst y)) (zip ks items))))"

fun affinity_gaps :: "Inputs \<Rightarrow> Item list \<Rightarrow> unit stage" where
  "affinity_gaps E (before # after # rest) =
     bindS (FindFunctionsBetween E (it_Ea1 before) (it_Ea1 after) (it_Ea2 before) (it_Ea2 after)) (\<lambda>_. affinity_gaps E (after # rest))"
| "affinity_gaps E _ = retS ()"

definition StageFindLocallyAffineFunctions :: "Inputs \<Rightarrow> unit stage" where
  "StageFindLocallyAffineFunctions E =
     bindS (SessionCleanup L3340) (\<lambda>_.
     bindS (getS (\<lambda>s. AffinityOrder (ss_Ids s) (ms_Lists (ss_State s) Best @ ms_Lists (ss_State s) Partial))) (\<lambda>ordered.
     affinity_gaps E ordered))"

end
