(* ===== verification/Pipeline.thy ===== *)
theory Pipeline
  imports Preflight LoopStages Unmatched
begin

text \<open>
  The SQL heuristics (\<^verbatim>\<open>stages/HeuristicTiers.cpp\<close>, \<^verbatim>\<open>Registry.cpp\<close>) and the run of a diff,
  \<^verbatim>\<open>RunPipeline\<close> (\<^verbatim>\<open>Pipeline.cpp\<close>), for fresh and for resumed runs.

  A run acts on the session and on the list of checkpoints that were offered for saving, each with the session at that moment.
  What a checkpoint file holds is the engine state of that session; its file format is not modelled. The iteration number
  that the session carries for snapshots, the trace contexts and the log lines are not modelled.
\<close>

section \<open>The SQL heuristics\<close>

definition ChoosersFor :: "HeurCategory \<Rightarrow> Chooser \<times> Chooser" where
  "ChoosersFor category = (if category = CatUnreliable then (Partial, Unreliable) else (Best, Partial))"

definition CategoryName :: "HeurCategory \<Rightarrow> string" where
  "CategoryName category =
     (case category of CatBest \<Rightarrow> ''Best'' | CatPartial \<Rightarrow> ''Partial'' | CatUnreliable \<Rightarrow> ''Unreliable'' | CatExperimental \<Rightarrow> ''Experimental'')"

definition postfix_token :: string where "postfix_token = ''%POSTFIX%''"

text \<open>\<^verbatim>\<open>str.replace\<close>: every occurrence, from left to right.\<close>

function ApplyPostfix :: "string \<Rightarrow> string \<Rightarrow> string" where
  "ApplyPostfix [] postfix = []"
| "ApplyPostfix (ch # rest) postfix =
     (if starts_with (ch # rest) postfix_token
      then postfix @ ApplyPostfix (drop (length postfix_token) (ch # rest)) postfix
      else ch # ApplyPostfix rest postfix)"
  by pat_completeness auto
termination
  by (relation "measure (\<lambda>(sql, _). length sql)") (auto simp: postfix_token_def)

definition runs_heuristic :: "Inputs \<Rightarrow> bool \<Rightarrow> HeuristicSpec \<Rightarrow> bool" where
  "runs_heuristic E same_processor spec \<longleftrightarrow>
     \<not> (hs_FlagUnreliable spec \<and> \<not> dc_Unreliable (in_Config E)) \<and> \<not> (hs_FlagSlow spec \<and> \<not> dc_SlowHeuristics (in_Config E)) \<and>
     \<not> (hs_FlagSameCpu spec \<and> \<not> same_processor)"

fun runnable :: "Inputs \<Rightarrow> MatchState \<Rightarrow> bool \<Rightarrow> HeurCategory \<Rightarrow> HeuristicSpec list \<Rightarrow> int list result" where
  "runnable E ms same_processor category [] = Inr []"
| "runnable E ms same_processor category (spec # specs) =
     (if AllFunctionsMatched ms then Inr []
      else if hs_Category spec \<noteq> category then runnable E ms same_processor category specs
      else if (hs_RatioType spec = RatioMax \<or> hs_RatioType spec = RatioMaxTrusted) \<and> \<not> hs_HasMin spec
      then Inl (DiaphoraWouldRaise ''D:1495 KeyError'' (quote @ ''min'' @ quote @ '' missing in heuristic '' @ dec_int (hs_Id spec)))
      else bindE (runnable E ms same_processor category specs) (\<lambda>ids.
             Inr (if runs_heuristic E same_processor spec then hs_Id spec # ids else ids)))"

definition RunnableHeuristics :: "Inputs \<Rightarrow> HeurCategory \<Rightarrow> int list stage" where
  "RunnableHeuristics E category =
     getS (\<lambda>s. runnable E (ss_State s) (re_IsSameProcessor (ss_Ratio s)) category (in_Heuristics E))"

text \<open>An exception of Python ends the worker thread of its heuristic only.\<close>

definition truncating :: "int \<Rightarrow> unit stage \<Rightarrow> unit stage" where
  "truncating id_no m s =
     (case m s of
        (Inl (DiaphoraWouldRaise site detail), s') \<Rightarrow> (Inr (), s'\<lparr>ss_Truncations := ss_Truncations s' @ [(id_no, site, detail)]\<rparr>)
      | other \<Rightarrow> other)"

definition heuristic_rows :: "Inputs \<Rightarrow> HeuristicSpec \<Rightarrow> rows" where
  "heuristic_rows E spec = SqlRows E (ApplyPostfix (hs_Sql spec) (Postfix (in_Config E))) []"

definition heuristic_consumer :: "Inputs \<Rightarrow> HeuristicSpec \<Rightarrow> unit stage" where
  "heuristic_consumer E spec =
     (let rows = heuristic_rows E spec; hook = PatchDiffHookOnMatch E; best = fst (ChoosersFor (hs_Category spec));
          part = snd (ChoosersFor (hs_Category spec))
      in case hs_RatioType spec of
           NoFps \<Rightarrow> AddMatchesFromQuery CheckRatio hook rows best
         | HeurRatio \<Rightarrow> AddMatchesFromQueryRatio CheckRatio hook rows best part
         | RatioMax \<Rightarrow> AddMatchesFromQueryRatioMax CheckRatio hook rows best part (hs_Min spec)
         | RatioMaxTrusted \<Rightarrow> AddMatchesFromQueryRatioMaxTrusted CheckRatio hook rows (hs_Min spec))"

definition StageRunSingleHeuristic :: "Inputs \<Rightarrow> int \<Rightarrow> unit stage" where
  "StageRunSingleHeuristic E id_no =
     (if id_no < 0 \<or> nat id_no \<ge> length (in_Heuristics E)
      then getS (\<lambda>s. Inl (UnsupportedInput (''heuristic id '' @ dec_int id_no @ '' is not an index of HEURISTICS (0..'' @
             dec_int (int (length (in_Heuristics E)) - 1) @ '')'')))
      else truncating id_no (heuristic_consumer E (in_Heuristics E ! nat id_no)))"

definition labelled_heuristic :: "Inputs \<Rightarrow> int \<Rightarrow> unit stage" where
  "labelled_heuristic E id_no =
     (let label = ''heuristic:'' @ dec_int id_no
      in bindS (Point (''before:'' @ label)) (\<lambda>_.
         bindS (StageRunSingleHeuristic E id_no) (\<lambda>_.
         Point (''after:'' @ label))))"

definition StageRunHeuristicsForCategory :: "Inputs \<Rightarrow> HeurCategory \<Rightarrow> unit stage" where
  "StageRunHeuristicsForCategory E category =
     bindS (RunnableHeuristics E category) (\<lambda>ids.
     bindS (for_each (labelled_heuristic E) (rev ids)) (\<lambda>_.
     bindS (SessionCleanup L1551) (\<lambda>_.
     bindS LogShowSummary (\<lambda>_.
     Point (''after:run_heuristics_for_category:'' @ CategoryName category)))))"

definition StageFindPartialMatchesCategory :: "Inputs \<Rightarrow> unit stage" where
  "StageFindPartialMatchesCategory E = StageRunHeuristicsForCategory E CatPartial"

definition StageFindPartialMatchesSmallDifferences :: "Inputs \<Rightarrow> unit stage" where
  "StageFindPartialMatchesSmallDifferences E =
     (if dc_SlowHeuristics (in_Config E)
      then bindS (Point ''before:search_small_differences'') (\<lambda>_.
           bindS (StageSearchSmallDifferences E) (\<lambda>_.
           Point ''after:search_small_differences''))
      else retS ())"

definition StageFindPartialMatches :: "Inputs \<Rightarrow> unit stage" where
  "StageFindPartialMatches E =
     bindS (StageFindPartialMatchesCategory E) (\<lambda>_. StageFindPartialMatchesSmallDifferences E)"

section \<open>The steps of a run\<close>

datatype PipelineStep =
    NoStep | EqualMatches | DirtyHeuristics | SameName | RemainingFunctions | BestCategory | PartialCategory | SmallDifferences
  | LoopCleanupTop | MatchesDiffing | RelatedMatches | RelatedCompilationUnit | LocallyAffine | LoopCleanupBottom | FinalPass
  | FindUnmatched

definition step_index :: "PipelineStep \<Rightarrow> nat" where
  "step_index st =
     (case st of
        NoStep \<Rightarrow> 0 | EqualMatches \<Rightarrow> 1 | DirtyHeuristics \<Rightarrow> 2 | SameName \<Rightarrow> 3 | RemainingFunctions \<Rightarrow> 4 | BestCategory \<Rightarrow> 5
      | PartialCategory \<Rightarrow> 6 | SmallDifferences \<Rightarrow> 7 | LoopCleanupTop \<Rightarrow> 8 | MatchesDiffing \<Rightarrow> 9 | RelatedMatches \<Rightarrow> 10
      | RelatedCompilationUnit \<Rightarrow> 11 | LocallyAffine \<Rightarrow> 12 | LoopCleanupBottom \<Rightarrow> 13 | FinalPass \<Rightarrow> 14 | FindUnmatched \<Rightarrow> 15)"

text \<open>The enumerators are compared by their position.\<close>

instantiation PipelineStep :: linorder
begin

definition less_eq_PipelineStep :: "PipelineStep \<Rightarrow> PipelineStep \<Rightarrow> bool" where
  "less_eq_PipelineStep a b \<longleftrightarrow> step_index a \<le> step_index b"

definition less_PipelineStep :: "PipelineStep \<Rightarrow> PipelineStep \<Rightarrow> bool" where
  "less_PipelineStep a b \<longleftrightarrow> step_index a < step_index b"

instance
proof
  fix a b :: PipelineStep
  assume "a \<le> b" "b \<le> a"
  then have "step_index a = step_index b" by (simp add: less_eq_PipelineStep_def)
  then show "a = b" by (cases a; cases b; simp add: step_index_def)
qed (auto simp: less_eq_PipelineStep_def less_PipelineStep_def)

end

definition IsLoopStep :: "PipelineStep \<Rightarrow> bool" where
  "IsLoopStep st \<longleftrightarrow> LoopCleanupTop \<le> st \<and> st \<le> LoopCleanupBottom"

record PipelineCursor =
  pc_Done :: PipelineStep
  pc_Iteration :: int
  pc_SkipOthers :: bool
  pc_OldTotal :: int

definition new_PipelineCursor :: PipelineCursor where
  "new_PipelineCursor = \<lparr>pc_Done = NoStep, pc_Iteration = 0, pc_SkipOthers = False, pc_OldTotal = 0\<rparr>"

type_synonym checkpoint = "PipelineCursor \<times> DiffSession"

type_synonym 'a run = "(DiffSession \<times> checkpoint list, 'a) action"

definition on_session :: "'a stage \<Rightarrow> 'a run" where
  "on_session m = (\<lambda>(s, saved). case m s of (r, s') \<Rightarrow> (r, (s', saved)))"

text \<open>\<^verbatim>\<open>Save\<close> moves the cursor and offers the checkpoint.\<close>

definition Save :: "PipelineStep \<Rightarrow> PipelineCursor \<Rightarrow> PipelineCursor run" where
  "Save st cur = (\<lambda>(s, saved). let cur' = cur\<lparr>pc_Done := st\<rparr> in (Inr cur', (s, saved @ [(cur', s)])))"

text \<open>A step runs unless the resumed checkpoint was written after it.\<close>

definition run_step :: "bool \<Rightarrow> PipelineStep \<Rightarrow> unit stage \<Rightarrow> PipelineCursor \<Rightarrow> PipelineCursor run" where
  "run_step skipped st m cur = (if skipped then retS cur else bindS (on_session m) (\<lambda>_. Save st cur))"

definition on_engine :: "(RatioEngine, 'a) action \<Rightarrow> 'a stage" where
  "on_engine m s = (case m (ss_Ratio s) of (r, e) \<Rightarrow> (r, s\<lparr>ss_Ratio := e\<rparr>))"

definition EnginePrepare :: "unit stage" where
  "EnginePrepare = on_engine (modS PrepareAll)"

definition problem_text :: "string list \<Rightarrow> string" where
  "problem_text problems = fold (\<lambda>problem acc. acc @ (if acc = [] then [] else ''; '') @ problem) problems []"

definition RequireIngest :: "Inputs \<Rightarrow> unit stage" where
  "RequireIngest E =
     getS (\<lambda>s. if problem_text (in_Problems E) \<noteq> []
               then Inl (UnsupportedInput (''export not supported: '' @ problem_text (in_Problems E))) else Inr ())"

definition pointed :: "string \<Rightarrow> unit stage \<Rightarrow> unit stage" where
  "pointed name m = bindS (Point (''before:'' @ name)) (\<lambda>_. bindS m (\<lambda>_. Point (''after:'' @ name)))"

definition LogFinalResults :: "unit stage" where
  "LogFinalResults =
     getS (\<lambda>s. if ms_Total1 (ss_State s) = 0 then Inl (DiaphoraWouldRaise ''D:3689 ZeroDivisionError'' ''total_functions1 == 0'') else Inr ())"

definition unmatched_rows :: "Inputs \<Rightarrow> string \<Rightarrow> query_rows" where
  "unmatched_rows E sql =
     (let cell = (\<lambda>c. case sc_Type c of Tables.SqlNull \<Rightarrow> Unmatched.SqlNull | Tables.SqlText \<Rightarrow> Unmatched.SqlText (sc_Bytes c) | _ \<Rightarrow> SqlOther)
      in case in_Db E sql [] of
           Inl e \<Rightarrow> [Inl e]
         | Inr st \<Rightarrow> map (map_sum id (\<lambda>cells. (cell (cells ! 0), cell (cells ! 1)))) (steps st))"

definition FindUnmatchedStage :: "Inputs \<Rightarrow> unit stage" where
  "FindUnmatchedStage E =
     bindS (StageFindUnmatched (unmatched_rows E kSqlUnmatchedMain) (unmatched_rows E kSqlUnmatchedDiff)) (\<lambda>_. Point ''after:find_unmatched'')"

section \<open>\<open>RunPipeline\<close>\<close>

text \<open>The part of a fresh run before its first checkpoint; the result tells whether the version check passed.\<close>

definition fresh_start :: "Inputs \<Rightarrow> bool stage" where
  "fresh_start E =
     bindS (on_engine Engine_ClearCache) (\<lambda>_.
     bindS (getS (\<lambda>s. StageCheckVersion E)) (\<lambda>valid.
     if \<not> valid then retS False
     else
       bindS (RequireIngest E) (\<lambda>_.
       bindS (getS (\<lambda>s. StageEqualDb E)) (\<lambda>_.
       bindS (getS (\<lambda>s. StageCheckCallgraph E)) (\<lambda>_.
       bindS (StageFindEqualMatches E) (\<lambda>_.
       bindS (Point ''after:find_equal_matches'') (\<lambda>_.
       retS True)))))))"

definition dirty_stage :: "Inputs \<Rightarrow> bool \<Rightarrow> bool stage" where
  "dirty_stage E skip_others =
     bindS (getS (\<lambda>s. StageSameProcessor E)) (\<lambda>same_processor.
     bindS (on_engine (modS (\<lambda>e. e\<lparr>re_IsSameProcessor := same_processor\<rparr>))) (\<lambda>_.
     bindS EnginePrepare (\<lambda>_.
     if dc_Experimental (in_Config E)
     then bindS (StageApplyDirtyHeuristics E) (\<lambda>skip. bindS (Point ''after:apply_dirty_heuristics'') (\<lambda>_. retS skip))
     else retS skip_others)))"

definition dirty_step :: "bool \<Rightarrow> Inputs \<Rightarrow> PipelineCursor \<Rightarrow> PipelineCursor run" where
  "dirty_step skipped E cur =
     (if skipped then bindS (on_session EnginePrepare) (\<lambda>_. retS cur)
      else bindS (on_session (dirty_stage E (pc_SkipOthers cur))) (\<lambda>skip. Save DirtyHeuristics (cur\<lparr>pc_SkipOthers := skip\<rparr>)))"

definition LoopStage :: "string \<Rightarrow> int \<Rightarrow> unit stage \<Rightarrow> unit stage" where
  "LoopStage name iteration m = pointed (name @ '':'' @ dec_int iteration) m"

text \<open>The first cleanup of an iteration also stores the total that the iteration has to exceed.\<close>

definition cleanup_top :: "bool \<Rightarrow> PipelineCursor \<Rightarrow> PipelineCursor run" where
  "cleanup_top skipped cur =
     (if skipped then retS cur
      else bindS (on_session (bindS (SessionCleanup L3655) (\<lambda>_. getS (\<lambda>s. Inr (TotalMatchedFunctions (ss_State s)))))) (\<lambda>old_total.
           Save LoopCleanupTop (cur\<lparr>pc_OldTotal := int old_total\<rparr>)))"

definition loop_body :: "Inputs \<Rightarrow> PipelineStep \<Rightarrow> PipelineCursor \<Rightarrow> PipelineCursor run" where
  "loop_body E loop_done cur =
     (let k = pc_Iteration cur; skipped = (\<lambda>st. st \<le> loop_done)
      in bindS (cleanup_top (skipped LoopCleanupTop) cur) (\<lambda>cur.
         bindS (run_step (skipped MatchesDiffing) MatchesDiffing (LoopStage ''find_matches_diffing'' k (StageFindMatchesDiffing E)) cur) (\<lambda>cur.
         bindS (run_step (\<not> dc_SlowHeuristics (in_Config E) \<or> skipped RelatedMatches) RelatedMatches
                  (LoopStage ''find_related_matches'' k (StageFindRelatedMatches E)) cur) (\<lambda>cur.
         bindS (run_step (skipped RelatedCompilationUnit) RelatedCompilationUnit
                  (LoopStage ''find_related_compilation_unit'' k (StageFindRelatedCompilationUnit E)) cur) (\<lambda>cur.
         bindS (run_step (skipped LocallyAffine) LocallyAffine
                  (LoopStage ''find_locally_affine_functions'' k (StageFindLocallyAffineFunctions E)) cur) (\<lambda>cur.
         run_step (skipped LoopCleanupBottom) LoopCleanupBottom (SessionCleanup L3671) cur))))))"

text \<open>The convergence loop; the result is \<open>None\<close> when the fuel runs out before an iteration adds nothing.\<close>

fun converge :: "nat \<Rightarrow> Inputs \<Rightarrow> PipelineStep \<Rightarrow> int \<Rightarrow> PipelineCursor \<Rightarrow> PipelineCursor option run" where
  "converge 0 E loop_done k cur = retS None"
| "converge (Suc fuel) E loop_done k cur =
     bindS (loop_body E loop_done (cur\<lparr>pc_Iteration := k\<rparr>)) (\<lambda>cur.
     bindS (on_session (getS (\<lambda>s. Inr (TotalMatchedFunctions (ss_State s))))) (\<lambda>new_total.
     if int new_total \<le> pc_OldTotal cur then retS (Some cur) else converge fuel E NoStep (k + 1) cur))"

definition run_start :: "Inputs \<Rightarrow> PipelineCursor option \<Rightarrow> PipelineCursor option run" where
  "run_start E resume =
     (case resume of
        None \<Rightarrow>
          bindS (on_session (fresh_start E)) (\<lambda>valid.
          if \<not> valid then retS None else bindS (Save EqualMatches new_PipelineCursor) (\<lambda>cur. retS (Some cur)))
      | Some cur \<Rightarrow> bindS (on_session (RequireIngest E)) (\<lambda>_. retS (Some cur)))"

definition run_heuristics :: "Inputs \<Rightarrow> nat \<Rightarrow> PipelineStep \<Rightarrow> PipelineCursor \<Rightarrow> PipelineCursor option run" where
  "run_heuristics E fuel resumed cur =
     (let skipped = (\<lambda>st. st \<le> resumed)
      in if pc_SkipOthers cur
         then bindS (run_step (skipped RemainingFunctions) RemainingFunctions
                       (pointed ''find_remaining_functions'' (StageFindRemainingFunctions E)) cur) (\<lambda>cur. retS (Some cur))
         else
           bindS (run_step (skipped BestCategory) BestCategory (StageRunHeuristicsForCategory E CatBest) cur) (\<lambda>cur.
           bindS (run_step (skipped PartialCategory) PartialCategory (StageFindPartialMatchesCategory E) cur) (\<lambda>cur.
           bindS (run_step (skipped SmallDifferences) SmallDifferences (StageFindPartialMatchesSmallDifferences E) cur) (\<lambda>cur.
           if skipped FinalPass then retS (Some cur)
           else if IsLoopStep resumed then converge fuel E resumed (pc_Iteration cur) cur
           else converge fuel E NoStep 0 cur))))"

definition run_end :: "Inputs \<Rightarrow> PipelineStep \<Rightarrow> PipelineCursor \<Rightarrow> bool option run" where
  "run_end E resumed cur =
     bindS (run_step (FinalPass \<le> resumed) FinalPass (pointed ''final_pass'' StageFinalPass) (cur\<lparr>pc_Iteration := 0\<rparr>)) (\<lambda>cur.
     bindS (run_step (FindUnmatched \<le> resumed) FindUnmatched (FindUnmatchedStage E) cur) (\<lambda>_.
     bindS (on_session LogFinalResults) (\<lambda>_. retS (Some True))))"

text \<open>After the first checkpoint: \<open>resumed\<close> is the step of the resumed checkpoint, or none.\<close>

definition run_rest :: "Inputs \<Rightarrow> nat \<Rightarrow> PipelineStep \<Rightarrow> PipelineCursor \<Rightarrow> bool option run" where
  "run_rest E fuel resumed cur =
     bindS (dirty_step (DirtyHeuristics \<le> resumed) E cur) (\<lambda>cur.
     bindS (run_step (dc_IgnoreAllNames (in_Config E) \<or> SameName \<le> resumed) SameName
              (pointed ''find_same_name'' (StageFindSameName E)) cur) (\<lambda>cur.
     bindS (run_heuristics E fuel resumed cur) (\<lambda>looped.
     case looped of None \<Rightarrow> retS None | Some cur \<Rightarrow> run_end E resumed cur)))"

text \<open>The result: whether the diff ran (\<open>Some\<close>), or that the fuel of the convergence loop ran out (\<open>None\<close>).\<close>

definition RunPipeline :: "Inputs \<Rightarrow> nat \<Rightarrow> PipelineCursor option \<Rightarrow> bool option run" where
  "RunPipeline E fuel resume =
     bindS (run_start E resume) (\<lambda>started.
     case started of
       None \<Rightarrow> retS (Some False)
     | Some cur \<Rightarrow> run_rest E fuel (case resume of None \<Rightarrow> NoStep | Some c \<Rightarrow> pc_Done c) cur)"

end
