(* ===== verification/Agreement.thy ===== *)
theory Agreement
  imports Pipeline
begin

text \<open>
  What every stage of a run keeps, and what it does not see. Two sessions that differ only in what the ratio engine has
  prepared and memoised for its rows (their engines have the same tables, processor flag and cache, and are both
  consistent) give the same result in every stage and end in two such sessions; and every stage keeps the state
  invariant: a best match has ratio 1, a partial match a smaller one, no match is unreliable, the two dictionaries are
  well formed and know the names of every match.
\<close>

section \<open>Sessions that differ in prepared data\<close>

definition engine_sim :: "RatioEngine \<Rightarrow> RatioEngine \<Rightarrow> bool" where
  "engine_sim e e' \<longleftrightarrow>
     re_Main e' = re_Main e \<and> re_Diff e' = re_Diff e \<and> re_IsSameProcessor e' = re_IsSameProcessor e \<and> re_Cache e' = re_Cache e \<and>
     provider_ok e \<and> provider_ok e'"

definition state_ok :: "MatchState \<Rightarrow> bool" where
  "state_ok ms \<longleftrightarrow> nd_wf (ms_Primary ms) \<and> nd_wf (ms_Secondary ms) \<and> items_in_dicts ms \<and> ratios_ok ms"

definition sim :: "DiffSession \<Rightarrow> RatioEngine \<Rightarrow> bool" where
  "sim s e \<longleftrightarrow> engine_sim (ss_Ratio s) e \<and> state_ok (ss_State s)"

text \<open>\<open>agrees Q m\<close>: the action does not see the difference, keeps the invariants, and its results satisfy \<open>Q\<close>.\<close>

definition agrees :: "('a \<Rightarrow> bool) \<Rightarrow> 'a stage \<Rightarrow> bool" where
  "agrees Q m \<longleftrightarrow>
     (\<forall>s e. sim s e \<longrightarrow>
        fst (m (s\<lparr>ss_Ratio := e\<rparr>)) = fst (m s) \<and>
        (\<exists>e'. snd (m (s\<lparr>ss_Ratio := e\<rparr>)) = (snd (m s))\<lparr>ss_Ratio := e'\<rparr> \<and> sim (snd (m s)) e') \<and>
        (\<forall>x. fst (m s) = Inr x \<longrightarrow> Q x))"

abbreviation agreeing :: "'a stage \<Rightarrow> bool" where
  "agreeing \<equiv> agrees (\<lambda>_. True)"

named_theorems agree \<open>agreement rules\<close>

lemma agreesI:
  assumes "\<And>s e. sim s e \<Longrightarrow> \<exists>r s' e'. m s = (r, s') \<and> m (s\<lparr>ss_Ratio := e\<rparr>) = (r, s'\<lparr>ss_Ratio := e'\<rparr>) \<and> sim s' e' \<and> (\<forall>x. r = Inr x \<longrightarrow> Q x)"
  shows "agrees Q m"
  using assms unfolding agrees_def by fastforce

lemma agreesE:
  assumes "agrees Q m" and "sim s e"
  obtains r s' e' where "m s = (r, s')" and "m (s\<lparr>ss_Ratio := e\<rparr>) = (r, s'\<lparr>ss_Ratio := e'\<rparr>)" and "sim s' e'"
    and "\<And>x. r = Inr x \<Longrightarrow> Q x"
  using assms unfolding agrees_def by (metis prod.collapse)

lemma agrees_weaken: "agrees Q m \<Longrightarrow> (\<And>x. Q x \<Longrightarrow> R x) \<Longrightarrow> agrees R m"
  unfolding agrees_def by blast

lemma agreeing_weaken: "agrees Q m \<Longrightarrow> agreeing m"
  by (rule agrees_weaken) simp_all

lemma agrees_bind:
  assumes "agrees Q m" and "\<And>x. Q x \<Longrightarrow> agrees R (f x)"
  shows "agrees R (bindS m f)"
proof (rule agreesI)
  fix s e assume "sim s e"
  from agreesE [OF assms(1) this] obtain r s' e' where 1: "m s = (r, s')" "m (s\<lparr>ss_Ratio := e\<rparr>) = (r, s'\<lparr>ss_Ratio := e'\<rparr>)" "sim s' e'"
    and Q: "\<And>x. r = Inr x \<Longrightarrow> Q x" by metis
  show "\<exists>r s' e'. bindS m f s = (r, s') \<and> bindS m f (s\<lparr>ss_Ratio := e\<rparr>) = (r, s'\<lparr>ss_Ratio := e'\<rparr>) \<and> sim s' e' \<and> (\<forall>x. r = Inr x \<longrightarrow> R x)"
  proof (cases r)
    case (Inl err)
    then show ?thesis using 1 by (auto simp: bindS_def)
  next
    case (Inr x)
    from agreesE [OF assms(2) [OF Q [OF Inr]] 1(3)] 1 Inr show ?thesis by (fastforce simp: bindS_def)
  qed
qed

lemma agreeing_bind [agree]: "agreeing m \<Longrightarrow> (\<And>x. agrees R (f x)) \<Longrightarrow> agrees R (bindS m f)"
  by (rule agrees_bind)

lemma agrees_retS: "Q x \<Longrightarrow> agrees Q (retS x)"
  by (auto simp: agrees_def retS_def)

lemma agrees_getS: "(\<And>s e. sim s e \<Longrightarrow> f (s\<lparr>ss_Ratio := e\<rparr>) = f s \<and> (\<forall>x. f s = Inr x \<longrightarrow> Q x)) \<Longrightarrow> agrees Q (getS f)"
  by (auto simp: agrees_def getS_def)

lemma agrees_throw [agree]: "agrees Q (getS (\<lambda>s. Inl e))"
  by (rule agrees_getS) simp

lemma agreeing_plain [agree]: "agreeing (retS x)" "(\<And>s e. sim s e \<Longrightarrow> f (s\<lparr>ss_Ratio := e\<rparr>) = f s) \<Longrightarrow> agreeing (getS f)"
  by (simp_all add: agrees_retS agrees_getS)

lemma agrees_splits [agree]:
  "(b \<Longrightarrow> agrees Q m1) \<Longrightarrow> (\<not> b \<Longrightarrow> agrees Q m2) \<Longrightarrow> agrees Q (if b then m1 else m2)"
  "agrees Q m \<Longrightarrow> (\<And>x. agrees Q (f x)) \<Longrightarrow> agrees Q (case opt of None \<Rightarrow> m | Some x \<Rightarrow> f x)"
  "(\<And>x y. agrees Q (g x y)) \<Longrightarrow> agrees Q (case p of (x, y) \<Rightarrow> g x y)"
  "agrees Q m \<Longrightarrow> (\<And>x ys. agrees Q (h x ys)) \<Longrightarrow> agrees Q (case l of [] \<Rightarrow> m | x # ys \<Rightarrow> h x ys)"
  by (auto split: option.splits prod.splits list.splits)

text \<open>An action that does not touch the engine and keeps the invariant of the match state.\<close>

lemma agreeing_state:
  assumes "\<And>s e. state_ok (ss_State s) \<Longrightarrow>
      \<exists>r s'. m s = (r, s') \<and> m (s\<lparr>ss_Ratio := e\<rparr>) = (r, s'\<lparr>ss_Ratio := e\<rparr>) \<and> ss_Ratio s' = ss_Ratio s \<and> state_ok (ss_State s')"
  shows "agreeing m"
proof (rule agreesI)
  fix s e assume "sim s e"
  moreover from this assms [of s e] obtain r s' where "m s = (r, s')" "m (s\<lparr>ss_Ratio := e\<rparr>) = (r, s'\<lparr>ss_Ratio := e\<rparr>)"
    "ss_Ratio s' = ss_Ratio s" "state_ok (ss_State s')" by (auto simp: sim_def)
  ultimately show "\<exists>r s' e'. m s = (r, s') \<and> m (s\<lparr>ss_Ratio := e\<rparr>) = (r, s'\<lparr>ss_Ratio := e'\<rparr>) \<and> sim s' e' \<and> (\<forall>x. r = Inr x \<longrightarrow> True)"
    by (auto simp: sim_def)
qed

lemma agreeing_other:
  assumes "\<And>s e. \<exists>r s'. m s = (r, s') \<and> m (s\<lparr>ss_Ratio := e\<rparr>) = (r, s'\<lparr>ss_Ratio := e\<rparr>) \<and> ss_State s' = ss_State s \<and> ss_Ratio s' = ss_Ratio s"
  shows "agreeing m"
  by (rule agreeing_state) (metis assms)

lemma agreeing_modS:
  "(\<And>s e. f (s\<lparr>ss_Ratio := e\<rparr>) = (f s)\<lparr>ss_Ratio := e\<rparr> \<and> ss_State (f s) = ss_State s \<and> ss_Ratio (f s) = ss_Ratio s) \<Longrightarrow> agreeing (modS f)"
  by (rule agreeing_other) (simp add: modS_def)

lemma agreeing_small [agree]:
  "agreeing (TraceRow row d r)"
  "agreeing (NameStartsWith pre site name)"
  "agreeing (PatchDiffHookCall hook row ratio)"
  "agreeing (StrOfEa ea)"
  "agreeing (FetchRow fetched)"
  "agreeing (on_ids act)"
  "agreeing (session_Desc str)"
  "agreeing (session_Name str)"
  "agreeing (Point label)"
  "agreeing (BumpCleanup line)"
  by (rule agreeing_other;
      simp add: TraceRow_def modS_def NameStartsWith_def getS_def PatchDiffHookCall_eq StrOfEa_def FetchRow_def on_ids_def session_Desc_def
        session_Name_def Point_def BumpCleanup_def Let_def list_sizes_def split: prod.splits)+

section \<open>The match state and the engine\<close>

lemma AddMatch_state_ok:
  assumes ok: "state_ok ms" and add: "AddMatch ids ms (it_Name1 it) (it_Name2 it) ratio it (Some c) = Inr (ms', res)"
    and c: "c = Best \<and> it_Ratio it = 1 \<or> c = Partial \<and> it_Ratio it < 1"
  shows "state_ok ms'"
proof -
  have "nd_wf (ms_Primary ms') \<and> nd_wf (ms_Secondary ms') \<and> items_in_dicts ms'"
    using ok add
    by (auto simp: state_ok_def AddMatch_def Let_def bindE_eq_Inr items_in_dicts_alt nd.lookup_put nd.put_invar split: if_splits)
  moreover have "ratios_ok ms'"
    using ok c AddMatch_lists [OF add, of Best] AddMatch_lists [OF add, of Partial] AddMatch_lists [OF add, of Unreliable]
    unfolding state_ok_def ratios_ok_def by auto
  ultimately show ?thesis by (simp add: state_ok_def)
qed

lemma Cleanup_state_ok: "Cleanup ids ms = Inr ms' \<Longrightarrow> state_ok ms \<Longrightarrow> state_ok ms'"
  by (simp add: state_ok_def Cleanup_dicts(1,2) Cleanup_items_in_dicts ratios_ok_Cleanup)

lemma agreeing_AddMatch:
  assumes "c = Best \<and> it_Ratio it = 1 \<or> c = Partial \<and> it_Ratio it < 1" and "n1 = it_Name1 it" and "n2 = it_Name2 it"
  shows "agreeing (SessionAddMatch n1 n2 ratio it (Some c))"
proof (rule agreeing_state)
  fix s :: DiffSession and e assume s: "state_ok (ss_State s)"
  show "\<exists>r s'. SessionAddMatch n1 n2 ratio it (Some c) s = (r, s') \<and>
      SessionAddMatch n1 n2 ratio it (Some c) (s\<lparr>ss_Ratio := e\<rparr>) = (r, s'\<lparr>ss_Ratio := e\<rparr>) \<and> ss_Ratio s' = ss_Ratio s \<and> state_ok (ss_State s')"
    using s AddMatch_state_ok [OF s _ assms(1)]
    by (cases "AddMatch (ss_Ids s) (ss_State s) n1 n2 ratio it (Some c)") (auto simp: SessionAddMatch_def assms(2,3))
qed

lemma agreeing_StateCleanup [agree]: "agreeing StateCleanup"
proof (rule agreeing_state)
  fix s :: DiffSession and e assume s: "state_ok (ss_State s)"
  show "\<exists>r s'. StateCleanup s = (r, s') \<and> StateCleanup (s\<lparr>ss_Ratio := e\<rparr>) = (r, s'\<lparr>ss_Ratio := e\<rparr>) \<and> ss_Ratio s' = ss_Ratio s \<and> state_ok (ss_State s')"
    using s by (cases "Cleanup (ss_Ids s) (ss_State s)") (auto simp: StateCleanup_def Cleanup_state_ok)
qed

lemma agreeing_SessionCleanup [agree]: "agreeing (SessionCleanup site)"
  unfolding SessionCleanup_def Let_def
  by (intro agree agreeing_modS) (simp add: list_sizes_def)

subsection \<open>The ratio engine\<close>

lemma Impl_CheckRatio_sim:
  assumes sim: "engine_sim e e'"
  shows "fst (Impl_CheckRatio ids ea1 ea2 side1 row1 side2 row2 src md1 md2 e') = fst (Impl_CheckRatio ids ea1 ea2 side1 row1 side2 row2 src md1 md2 e)"
    and "engine_sim (snd (Impl_CheckRatio ids ea1 ea2 side1 row1 side2 row2 src md1 md2 e)) (snd (Impl_CheckRatio ids ea1 ea2 side1 row1 side2 row2 src md1 md2 e'))"
    and "fst (Impl_CheckRatio ids ea1 ea2 side1 row1 side2 row2 src md1 md2 e) = Inr x \<Longrightarrow> x \<le> 1"
proof -
  let ?run = "Impl_CheckRatio ids ea1 ea2 side1 row1 side2 row2 src md1 md2"
  have ok: "engine_ok e" "engine_ok e'" "provider_ok e" "provider_ok e'"
    and eq: "re_Main e' = re_Main e" "re_Diff e' = re_Diff e" "re_IsSameProcessor e' = re_IsSameProcessor e" "re_Cache e' = re_Cache e"
    using sim by (simp_all add: engine_sim_def provider_ok_def)
  obtain f c where find: "Cache_Find ids (re_Cache e) ea1 ea2 = (f, c)" by fastforce
  define r where "r = rows_ratio ids (re_Main e) (re_Diff e) (re_IsSameProcessor e) ea1 ea2 side1 row1 side2 row2 src md1 md2"
  define outcome where "outcome = (\<lambda>(e0 :: RatioEngine) (e1 :: RatioEngine). case f of
         Inl err \<Rightarrow> (Inl err, e0\<lparr>re_Cache := c\<rparr>)
       | Inr (Some v) \<Rightarrow> (Inr v, e0\<lparr>re_Cache := c\<rparr>)
       | Inr None \<Rightarrow>
           (case r of
              Inl err \<Rightarrow> (Inl err, e1)
            | Inr v \<Rightarrow> (case Cache_Store ids c ea1 ea2 v of
                          (Inl err, c') \<Rightarrow> (Inl err, e1\<lparr>re_Cache := c'\<rparr>)
                        | (Inr _, c') \<Rightarrow> (Inr v, e1\<lparr>re_Cache := c'\<rparr>))))"
  obtain e1 where e1: "ready (re_Main e) (re_Diff e) (re_IsSameProcessor e) c e1" "?run e = outcome e e1"
    using Impl_CheckRatio_run [OF ok(1) find r_def] unfolding outcome_def by blast
  obtain e2 where e2: "ready (re_Main e) (re_Diff e) (re_IsSameProcessor e) c e2" "?run e' = outcome e' e2"
    using Impl_CheckRatio_run [OF ok(2) find [folded eq(4)] r_def [folded eq]] unfolding outcome_def eq by blast
  have unit: "provider_ok (snd (?run e))" "provider_ok (snd (?run e'))"
    using Impl_CheckRatio_unit [OF ok(3)] Impl_CheckRatio_unit [OF ok(4)] by (metis prod.collapse)+
  show "fst (?run e) = Inr x \<Longrightarrow> x \<le> 1" using Impl_CheckRatio_unit [OF ok(3)] by (metis prod.collapse)
  show "fst (?run e') = fst (?run e)"
    unfolding e1(2) e2(2) by (auto simp: outcome_def split: sum.splits option.splits prod.splits)
  show "engine_sim (snd (?run e)) (snd (?run e'))"
    using unit e1(1) e2(1) eq unfolding engine_sim_def e1(2) e2(2)
    by (auto simp: outcome_def ready_def split: sum.splits option.splits prod.splits)
qed

lemma agrees_engine:
  assumes "\<And>s. act s = (case m (ss_Ids s) (ss_Ratio s) of (r, e) \<Rightarrow> (r, s\<lparr>ss_Ratio := e\<rparr>))"
    and "\<And>ids e e'. engine_sim e e' \<Longrightarrow>
      fst (m ids e') = fst (m ids e) \<and> engine_sim (snd (m ids e)) (snd (m ids e')) \<and> (\<forall>x. fst (m ids e) = Inr x \<longrightarrow> Q x)"
  shows "agrees Q act"
proof (rule agreesI)
  fix s e assume "sim s e"
  with assms(2) [of "ss_Ratio s" e "ss_Ids s"]
  show "\<exists>r s' e'. act s = (r, s') \<and> act (s\<lparr>ss_Ratio := e\<rparr>) = (r, s'\<lparr>ss_Ratio := e'\<rparr>) \<and> sim s' e' \<and> (\<forall>x. r = Inr x \<longrightarrow> Q x)"
    unfolding assms(1) by (intro exI [of _ "fst (m (ss_Ids s) (ss_Ratio s))"] exI [of _ "s\<lparr>ss_Ratio := snd (m (ss_Ids s) (ss_Ratio s))\<rparr>"]
      exI [of _ "snd (m (ss_Ids s) e)"]) (simp add: sim_def split_beta)
qed

lemma CheckRatio_sim:
  "engine_sim e e' \<Longrightarrow> fst (CheckRatio ids e' row src) = fst (CheckRatio ids e row src) \<and>
     engine_sim (snd (CheckRatio ids e row src)) (snd (CheckRatio ids e' row src)) \<and> (\<forall>x. fst (CheckRatio ids e row src) = Inr x \<longrightarrow> x \<le> 1)"
  unfolding CheckRatio_def by (simp add: Impl_CheckRatio_sim)

lemma CompareFunctionRows_sim:
  "engine_sim e e' \<Longrightarrow> fst (CompareFunctionRows ids r1 r2 e') = fst (CompareFunctionRows ids r1 r2 e) \<and>
     engine_sim (snd (CompareFunctionRows ids r1 r2 e)) (snd (CompareFunctionRows ids r1 r2 e')) \<and>
     (\<forall>x. fst (CompareFunctionRows ids r1 r2 e) = Inr x \<longrightarrow> x \<le> 1)"
  using Impl_CheckRatio_sim [of e e'] by (simp add: CompareFunctionRows_def Let_def engine_sim_def)

lemma agrees_CheckRatioCall: "agrees (\<lambda>x. x \<le> 1) (CheckRatioCall CheckRatio row src)"
  by (rule agrees_engine [where m = "\<lambda>ids e. CheckRatio ids e row src"]) (simp_all add: CheckRatioCall_def CheckRatio_sim)

lemma agrees_SessionCompareRows: "agrees (\<lambda>x. x \<le> 1) (SessionCompareRows r1 r2)"
  by (rule agrees_engine [where m = "\<lambda>ids e. CompareFunctionRows ids r1 r2 e"]) (simp_all add: SessionCompareRows_def CompareFunctionRows_sim)

section \<open>The row consumers\<close>

text \<open>A handler for the exceptions of Python.\<close>

definition handling :: "'a stage \<Rightarrow> (string \<Rightarrow> string \<Rightarrow> 'a stage) \<Rightarrow> 'a stage" where
  "handling m h s = (case m s of (Inl (DiaphoraWouldRaise site detail), s1) \<Rightarrow> h site detail s1 | other \<Rightarrow> other)"

lemma agrees_handling:
  assumes "agrees Q m" and "\<And>site detail. agrees Q (h site detail)"
  shows "agrees Q (handling m h)"
proof (rule agreesI)
  fix s e assume "sim s e"
  from agreesE [OF assms(1) this] obtain r s' e' where 1: "m s = (r, s')" "m (s\<lparr>ss_Ratio := e\<rparr>) = (r, s'\<lparr>ss_Ratio := e'\<rparr>)" "sim s' e'"
    and Q: "\<And>x. r = Inr x \<Longrightarrow> Q x" by metis
  show "\<exists>r s' e'. handling m h s = (r, s') \<and> handling m h (s\<lparr>ss_Ratio := e\<rparr>) = (r, s'\<lparr>ss_Ratio := e'\<rparr>) \<and> sim s' e' \<and> (\<forall>x. r = Inr x \<longrightarrow> Q x)"
  proof (cases "\<exists>site detail. r = Inl (DiaphoraWouldRaise site detail)")
    case True
    then obtain site detail where r: "r = Inl (DiaphoraWouldRaise site detail)" by blast
    from agreesE [OF assms(2) [of site detail] 1(3)] 1 r show ?thesis by (fastforce simp: handling_def)
  next
    case False
    then have "handling m h s = (r, s')" "handling m h (s\<lparr>ss_Ratio := e\<rparr>) = (r, s'\<lparr>ss_Ratio := e'\<rparr>)"
      using 1 by (auto simp: handling_def split: sum.splits diff_error.splits)
    then show ?thesis using 1(3) Q by blast
  qed
qed

lemma CheckMatch_handling:
  "CheckMatch prov hook row = handling (CheckMatchBody prov hook row) (\<lambda>site detail. bindS (TraceRow row Raised None) (\<lambda>_. getS (\<lambda>s. Inl (DiaphoraWouldRaise site detail))))"
  by (rule ext) (auto simp: CheckMatch_def handling_def TraceRow_def modS_def bindS_def getS_def split: prod.splits sum.splits diff_error.splits)

lemma ratio_bind: "(\<And>x. x \<le> 1 \<Longrightarrow> agrees R (f x)) \<Longrightarrow> agrees R (bindS (CheckRatioCall CheckRatio row src) f)"
  by (rule agrees_bind [OF agrees_CheckRatioCall])

definition ratio_at_most_1 :: "double option \<Rightarrow> bool" where
  "ratio_at_most_1 R \<longleftrightarrow> (\<forall>x. R = Some x \<longrightarrow> x \<le> 1)"

lemma agrees_CheckMatch: "agrees ratio_at_most_1 (CheckMatch CheckRatio hook row)"
  unfolding CheckMatch_handling CheckMatchBody_def
  by (intro agrees_handling ratio_bind agree agrees_retS) (simp_all add: ratio_at_most_1_def)

lemma match_bind:
  assumes "agrees R m" and "\<And>x. x \<le> 1 \<Longrightarrow> agrees R (f x)"
  shows "agrees R (bindS (CheckMatch CheckRatio hook row) (\<lambda>checked. case checked of None \<Rightarrow> m | Some x \<Rightarrow> f x))"
  by (rule agrees_bind [OF agrees_CheckMatch]) (auto simp: ratio_at_most_1_def assms split: option.splits)

lemma agreeing_consume_internal: "agreeing (consume_internal CheckRatio hook Best (Some Partial) val u row)"
  unfolding consume_internal_def Let_def
  by (intro match_bind agree) (auto intro!: agreeing_AddMatch split: if_splits option.splits)

lemma agreeing_consume_query: "agreeing (consume_query CheckRatio hook Best row)"
  unfolding consume_query_def by (intro match_bind agree) (auto intro!: agreeing_AddMatch)

lemma internal_loop_Cons:
  "internal_loop consume maxrows i (fetched # rest) =
     (if maxrows \<noteq> 0 \<and> i < maxrows then bindS (FetchRow fetched) (\<lambda>row. bindS (consume row) (\<lambda>_. internal_loop consume maxrows (i + 1) rest))
      else retS ())"
  by (rule ext) (simp add: retS_def)

lemma agreeing_internal_loop:
  assumes "\<And>row. agreeing (consume row)"
  shows "agreeing (internal_loop consume maxrows i rows)"
proof (induction rows arbitrary: i)
  case Nil
  have "internal_loop consume maxrows i [] = retS ()" by (rule ext) (simp add: retS_def)
  then show ?case by (simp add: agree)
next
  case (Cons fetched rest)
  then show ?case unfolding internal_loop_Cons by (intro agree assms)
qed

lemma agreeing_query_loop:
  assumes "\<And>row. agreeing (consume row)"
  shows "agreeing (query_loop consume rows)"
proof (induction rows)
  case Nil
  have "query_loop consume [] = retS ()" by (rule ext) (simp add: retS_def)
  then show ?case by (simp add: agree)
next
  case (Cons fetched rest)
  have "query_loop consume (fetched # rest) = bindS (FetchRow fetched) (\<lambda>row. bindS (consume row) (\<lambda>_. query_loop consume rest))" by (rule ext) simp
  then show ?case by (simp only:) (intro agree assms Cons.IH)
qed

lemma agreeing_with_frame [agree]: "agreeing body \<Longrightarrow> agreeing (with_frame frame body)"
proof (rule agreesI)
  fix s e assume body: "agreeing body" and s: "sim s e"
  then have "sim (s\<lparr>ss_Frames := ss_Frames s @ [frame]\<rparr>) e" by (simp add: sim_def)
  from agreesE [OF body this] obtain r s' e' where 1: "body (s\<lparr>ss_Frames := ss_Frames s @ [frame]\<rparr>) = (r, s')"
    "body (s\<lparr>ss_Frames := ss_Frames s @ [frame], ss_Ratio := e\<rparr>) = (r, s'\<lparr>ss_Ratio := e'\<rparr>)" "sim s' e'" by metis
  have swap: "s\<lparr>ss_Ratio := e, ss_Frames := ss_Frames s @ [frame]\<rparr> = s\<lparr>ss_Frames := ss_Frames s @ [frame], ss_Ratio := e\<rparr>" by simp
  have "body (s\<lparr>ss_Ratio := e, ss_Frames := ss_Frames s @ [frame]\<rparr>) = (r, s'\<lparr>ss_Ratio := e'\<rparr>)" unfolding swap by (rule 1(2))
  then have "with_frame frame body (s\<lparr>ss_Ratio := e\<rparr>) = (r, s'\<lparr>ss_Ratio := e', ss_Frames := butlast (ss_Frames s')\<rparr>)"
    by (simp add: with_frame_def)
  then show "\<exists>r s' e'. with_frame frame body s = (r, s') \<and> with_frame frame body (s\<lparr>ss_Ratio := e\<rparr>) = (r, s'\<lparr>ss_Ratio := e'\<rparr>) \<and> sim s' e' \<and>
      (\<forall>x. r = Inr x \<longrightarrow> True)"
    by (intro exI [of _ r] exI [of _ "s'\<lparr>ss_Frames := butlast (ss_Frames s')\<rparr>"] exI [of _ e']) (use 1 in \<open>simp add: with_frame_def [of _ _ s] sim_def\<close>)
qed

text \<open>An action that first reads the session.\<close>

lemma agrees_read:
  assumes "\<And>x. agrees Q (f x)" and "\<And>s e. g (s\<lparr>ss_Ratio := e\<rparr>) = g s"
  shows "agrees Q (\<lambda>s. f (g s) s)"
  using assms unfolding agrees_def by simp

lemma agreeing_Internal [agree]: "agreeing (AddMatchesInternalImpl CheckRatio hook rows Best (Some Partial) val u)"
  unfolding AddMatchesInternalImpl_def
  by (intro agree agrees_read [where g = ss_MaxProcessedRows and
        f = "\<lambda>maxrows. internal_loop (consume_internal CheckRatio hook Best (Some Partial) val u) maxrows 0 rows"]
      agreeing_internal_loop agreeing_consume_internal) simp

lemma agreeing_unless_matched:
  assumes "agreeing m" and "\<And>s. m' s = (if AllFunctionsMatched (ss_State s) then (Inr (), s) else m s)"
  shows "agreeing m'"
proof -
  have eq: "m' = (\<lambda>s. (if AllFunctionsMatched (ss_State s) then retS () else m) s)" using assms(2) by (auto simp: retS_def)
  show ?thesis
    unfolding eq using assms(1) by (intro agrees_read [where g = "\<lambda>s. AllFunctionsMatched (ss_State s)" and f = "\<lambda>b. if b then retS () else m"] agree) simp_all
qed

lemma AddMatchesFromQuery_handling:
  "AddMatchesFromQuery prov hook rows category s =
     (if AllFunctionsMatched (ss_State s) then (Inr (), s)
      else with_frame \<lparr>rf_Which = FromQuery, rf_Partial = None, rf_Val = None, rf_UnreliableGiven = False\<rparr>
             (handling (query_loop (consume_query prov hook category) rows) (\<lambda>site detail. retS ())) s)"
  by (auto simp: AddMatchesFromQuery_def with_frame_def handling_def retS_def split: prod.splits sum.splits diff_error.splits)

lemma agreeing_consumers [agree]:
  "agreeing (AddMatchesInternal CheckRatio hook rows Best (Some Partial) val)"
  "agreeing (AddMatchesFromQuery CheckRatio hook rows Best)"
  "agreeing (AddMatchesFromQueryRatio CheckRatio hook rows Best Partial)"
  "agreeing (AddMatchesFromQueryRatioMax CheckRatio hook rows Best Partial v)"
  "agreeing (AddMatchesFromQueryRatioMaxTrusted CheckRatio hook rows v)"
proof -
  show "agreeing (AddMatchesInternal CheckRatio hook rows Best (Some Partial) val)" unfolding AddMatchesInternal_def by (intro agree)
  show "agreeing (AddMatchesFromQuery CheckRatio hook rows Best)"
    by (rule agreeing_unless_matched [OF _ AddMatchesFromQuery_handling])
       (intro agree agrees_handling agreeing_query_loop agreeing_consume_query)
  show "agreeing (AddMatchesFromQueryRatio CheckRatio hook rows Best Partial)"
    by (rule agreeing_unless_matched [OF _ AddMatchesFromQueryRatio_def]) (intro agree)
  show "agreeing (AddMatchesFromQueryRatioMax CheckRatio hook rows Best Partial v)"
    by (rule agreeing_unless_matched [OF _ AddMatchesFromQueryRatioMax_def]) (intro agree)
  show "agreeing (AddMatchesFromQueryRatioMaxTrusted CheckRatio hook rows v)"
    by (rule agreeing_unless_matched [OF _ AddMatchesFromQueryRatioMaxTrusted_def]) (intro agree)
qed

section \<open>The stages before the loop\<close>

lemma agreeing_for_each [agree]: "(\<And>x. agreeing (f x)) \<Longrightarrow> agreeing (for_each f xs)"
  by (induction xs) (simp_all add: agree)

lemma agreeing_flags [agree]:
  "agreeing (modS (\<lambda>s. s\<lparr>ss_IsSymbolsStripped := b\<rparr>))"
  "agreeing (modS (\<lambda>s. s\<lparr>ss_IsPatchDiff := b, ss_HooksLoaded := b', ss_Hook := h\<rparr>))"
  "agreeing (modS (\<lambda>s. s\<lparr>ss_Truncations := ss_Truncations s @ [t]\<rparr>))"
  "agreeing (modS (\<lambda>s. s\<lparr>ss_Final := f (ss_Final s)\<rparr>))"
  by (rule agreeing_modS; simp)+

lemma agreeing_SetTotals [agree]: "agreeing (modS (\<lambda>s. s\<lparr>ss_State := SetTotals (ss_State s) t1 t2\<rparr>))"
  by (rule agreeing_state) (simp add: modS_def SetTotals_def state_ok_def ratios_ok_def items_in_dicts_alt)

lemma agreeing_equal_row: "agreeing (add_equal_row desc row)"
  unfolding add_equal_row_def by (intro agree) (auto intro!: agreeing_AddMatch)

lemma agreeing_FindEqualMatches [agree]: "agreeing (StageFindEqualMatches E)"
  unfolding StageFindEqualMatches_def by (intro agree agreeing_equal_row) simp_all

lemma agreeing_DirtyHeuristics [agree]: "agreeing (StageApplyDirtyHeuristics E)"
  unfolding StageApplyDirtyHeuristics_def SearchJustStrippedBinaries_def SearchPatchdiffWithSymbols_def by (intro agree) simp_all

lemma with_bonus_less: "ratio < 1 \<Longrightarrow> with_bonus ratio < 1"
  by (simp add: with_bonus_def)

lemma with_bonus_1: "with_bonus 1 = 1"
  by code_simp

lemma agreeing_same_name_row: "agreeing (same_name_row E entry)"
  unfolding same_name_row_def Let_def
  by (intro agree match_bind) (auto intro!: agreeing_AddMatch agree simp: with_bonus_less split: option.splits)

lemma agreeing_SameName [agree]: "agreeing (StageFindSameName E)"
  unfolding StageFindSameName_def by (intro agree agreeing_same_name_row) simp_all

lemma agreeing_Remaining [agree]: "agreeing (StageFindRemainingFunctions E)"
  unfolding StageFindRemainingFunctions_def GetUnmatchedFunctions_def SearchRemainingFunctions_def remaining_main_def remaining_pair_def
  by (intro agree) simp_all

lemma agreeing_small_difference: "agreeing (small_difference E small)"
  unfolding small_difference_def Let_def
  by (intro agree match_bind) (auto intro!: agreeing_AddMatch)

definition next_small :: "ResultIter \<Rightarrow> (SmallRow option \<times> ResultIter) stage" where
  "next_small it s = (case IterNext (ss_Ids s, it) of (r, ids, it') \<Rightarrow> (bindE r (\<lambda>x. Inr (x, it')), s\<lparr>ss_Ids := ids\<rparr>))"

lemma small_loop_Suc:
  "small_loop E (Suc fuel) it =
     bindS (next_small it) (\<lambda>(row, it'). case row of None \<Rightarrow> retS () | Some r \<Rightarrow> bindS (small_difference E r) (\<lambda>_. small_loop E fuel it'))"
  by (rule ext) (simp add: next_small_def bindS_def retS_def split: prod.splits sum.splits option.splits)

lemma agreeing_small_loop: "agreeing (small_loop E fuel it)"
proof (induction fuel arbitrary: it)
  case 0
  have "small_loop E 0 it = retS ()" by (rule ext) (simp add: retS_def)
  then show ?case by (simp add: agree)
next
  case (Suc fuel)
  have "agreeing (next_small it)" by (rule agreeing_other) (simp add: next_small_def split: prod.splits)
  then show ?case unfolding small_loop_Suc by (intro agree agreeing_small_difference Suc.IH)
qed

lemma agreeing_SmallDifferences [agree]: "agreeing (StageSearchSmallDifferences E)"
  unfolding StageSearchSmallDifferences_def Let_def by (rule agreeing_small_loop)

section \<open>The stages of the loop\<close>

lemma compare_bind: "(\<And>x. x \<le> 1 \<Longrightarrow> agrees R (f x)) \<Longrightarrow> agrees R (bindS (SessionCompareRows r1 r2) f)"
  by (rule agrees_bind [OF agrees_SessionCompareRows])

lemma agreeing_LogShowSummary [agree]: "agreeing LogShowSummary"
  unfolding LogShowSummary_def by (intro agree) simp

lemma agreeing_CallHook [agree]: "agreeing (CallHook E row ratio)"
  unfolding CallHook_def by (intro agree)

lemma agreeing_compare_candidate [agree]: "agreeing (compare_candidate E name1 name2 heur inner r1 r2 n1 n2)"
  unfolding compare_candidate_def Let_def
  by (intro compare_bind agree) (auto intro!: agreeing_AddMatch simp: with_bonus_1 with_bonus_less)

lemma agreeing_ProcessCandidate [agree]: "agreeing (ProcessCandidate E name1 name2 heur inner)"
  unfolding ProcessCandidate_def by (intro agree) simp_all

lemma agreeing_process_pairs [agree]: "agreeing (process_pairs E heur inner pairs seen)"
  by (induction pairs arbitrary: seen) (auto simp: Let_def intro!: agree)

lemma agreeing_FindOneMatchDiffing [agree]: "agreeing (FindOneMatchDiffing E r1 r2 which heur inner seen)"
  unfolding FindOneMatchDiffing_def Let_def by (intro agree) simp_all

lemma agreeing_diffing_items [agree]: "agreeing (diffing_items E heur which inner items seen)"
  by (induction items arbitrary: seen) (auto intro!: agree)

lemma agreeing_diffing_rounds [agree]: "agreeing (diffing_rounds rounds E heur which inner seen)"
  by (induction rounds arbitrary: inner seen) (auto intro!: agree)

lemma agreeing_same_processor: "agreeing (getS (\<lambda>s. f (ss_State s) (re_IsSameProcessor (ss_Ratio s))))"
  by (rule agrees_getS) (simp add: sim_def engine_sim_def)

lemma agreeing_MatchesDiffing [agree]: "agreeing (StageFindMatchesDiffing E)"
  unfolding StageFindMatchesDiffing_def FindMatchesDiffingInternal_def
  by (intro agree) (simp_all add: sim_def engine_sim_def)

lemma agreeing_related_items [agree]: "agreeing (related_items E items seen)"
  by (induction items arbitrary: seen) (auto simp: FindRelatedConstants_def related_constant_def intro!: agree)

lemma agreeing_RelatedMatches [agree]: "agreeing (StageFindRelatedMatches E)"
  unfolding StageFindRelatedMatches_def by (intro agree) simp_all

lemma agreeing_cu_items [agree]: "agreeing (cu_items E items)"
  by (induction items) (auto simp: cu_replay_def intro!: agree)

lemma agreeing_RelatedCompilationUnit [agree]: "agreeing (StageFindRelatedCompilationUnit E)"
  unfolding StageFindRelatedCompilationUnit_def by (intro agree) simp_all

lemma agrees_CallOnMatchHook: "agrees (\<lambda>r. r = ratio) (CallOnMatchHook E r1 r2 ratio)"
  unfolding CallOnMatchHook_def by (intro agree agrees_retS) simp_all

lemma agreeing_gap_pair [agree]: "agreeing (gap_pair E desc p sc)"
  unfolding gap_pair_def Let_def
  by (cases p; cases sc) (auto intro!: agree compare_bind agrees_bind [OF agrees_CallOnMatchHook] agreeing_AddMatch split: if_splits)

lemma agreeing_gap_loop [agree]: "agreeing (gap_loop E desc pairs sc)"
  by (induction pairs arbitrary: sc) (auto intro!: agree)

lemma agreeing_FindFunctionsBetween [agree]: "agreeing (FindFunctionsBetween E low1 high1 low2 high2)"
  unfolding FindFunctionsBetween_def by (intro agree) simp_all

lemma agreeing_affinity_gaps [agree]: "agreeing (affinity_gaps E items)"
  by (induction E items rule: affinity_gaps.induct) (auto intro!: agree)

lemma agreeing_LocallyAffine [agree]: "agreeing (StageFindLocallyAffineFunctions E)"
  unfolding StageFindLocallyAffineFunctions_def by (intro agree) simp_all

section \<open>The end of a run and the SQL heuristics\<close>

lemma agreeing_AddChooserItem [agree]: "agreeing (AddChooserItem target it)"
  unfolding AddChooserItem_def by (intro agree) simp_all

lemma agreeing_add_multi_items [agree]: "agreeing (add_multi_items ea items acc)"
  by (induction ea items acc rule: add_multi_items.induct) (auto intro!: agree)

lemma agreeing_add_multi_groups [agree]: "agreeing (add_multi_groups d eas acc)"
  by (induction eas arbitrary: acc) (auto intro!: agree)

lemma agreeing_final_items [agree]: "agreeing (final_items sc im id' items)"
  by (induction sc im id' items rule: final_items.induct) (auto simp: final_item_def raise_KeyError_def intro!: agree)

lemma agreeing_FinalPass [agree]: "agreeing StageFinalPass"
  unfolding StageFinalPass_def AddMultimatchesToChooser_def by (intro agree) simp_all

lemma agreeing_session_opt [agree]: "agreeing (session_NameOpt str)" "agreeing (session_AddrOpt str)"
  by (rule agreeing_other; simp add: session_NameOpt_def session_AddrOpt_def split: prod.splits)+

lemma agreeing_FetchAll [agree]: "agreeing (FetchAll sql rows)"
  by (induction sql rows rule: FetchAll.induct) (auto intro!: agree)

lemma agreeing_Unmatched [agree]: "agreeing (Unmatched rows main_side site)"
  by (induction rows) (auto intro!: agree)

lemma agreeing_FindUnmatched [agree]: "agreeing (FindUnmatchedStage E)"
  unfolding FindUnmatchedStage_def StageFindUnmatched_def by (intro agree)

lemma agreeing_LogFinalResults [agree]: "agreeing LogFinalResults"
  unfolding LogFinalResults_def by (intro agree) simp

lemma agreeing_pointed [agree]: "agreeing m \<Longrightarrow> agreeing (pointed label m)" "agreeing m \<Longrightarrow> agreeing (LoopStage label k m)"
  unfolding pointed_def LoopStage_def by (intro agree, assumption)+

text \<open>The registry: the position of a heuristic is its id.\<close>

definition registry_ok :: "Inputs \<Rightarrow> bool" where
  "registry_ok E \<longleftrightarrow> list_all (\<lambda>i. hs_Id (in_Heuristics E ! i) = int i) [0..<length (in_Heuristics E)]"

lemma registry_at: "registry_ok E \<Longrightarrow> spec \<in> set (in_Heuristics E) \<Longrightarrow> in_Heuristics E ! nat (hs_Id spec) = spec"
  by (auto simp: registry_ok_def list_all_iff in_set_conv_nth)

lemma runnable_category:
  "runnable E ms cpu category specs = Inr ids \<Longrightarrow> i \<in> set ids \<Longrightarrow> \<exists>spec\<in>set specs. hs_Id spec = i \<and> hs_Category spec = category"
  by (induction specs arbitrary: ids) (auto simp: bindE_eq_Inr split: if_splits)

lemma agrees_Runnable:
  assumes "registry_ok E"
  shows "agrees (\<lambda>ids. \<forall>i\<in>set ids. hs_Category (in_Heuristics E ! nat i) = category) (RunnableHeuristics E category)"
  unfolding RunnableHeuristics_def
  by (rule agrees_getS) (auto simp: sim_def engine_sim_def dest!: runnable_category registry_at [OF assms])

lemma truncating_handling:
  "truncating id_no m = handling m (\<lambda>site detail. modS (\<lambda>s. s\<lparr>ss_Truncations := ss_Truncations s @ [(id_no, site, detail)]\<rparr>))"
  by (rule ext) (auto simp: truncating_def handling_def modS_def split: prod.splits sum.splits diff_error.splits)

lemma agreeing_heuristic:
  "hs_Category (in_Heuristics E ! nat i) \<noteq> CatUnreliable \<Longrightarrow> agreeing (labelled_heuristic E i)"
  unfolding labelled_heuristic_def StageRunSingleHeuristic_def truncating_handling heuristic_consumer_def Let_def
  by (intro agree agrees_handling) (auto simp: ChoosersFor_def intro!: agree split: HeurType.splits)

lemma agreeing_for_each_set: "(\<And>x. x \<in> set xs \<Longrightarrow> agreeing (f x)) \<Longrightarrow> agreeing (for_each f xs)"
  by (induction xs) (auto intro!: agree)

lemma agreeing_category [agree]:
  assumes "registry_ok E" and "category \<noteq> CatUnreliable"
  shows "agreeing (StageRunHeuristicsForCategory E category)"
  unfolding StageRunHeuristicsForCategory_def
  using assms by (intro agrees_bind [OF agrees_Runnable] agree agreeing_for_each_set) (auto intro!: agreeing_heuristic)

lemma agreeing_PartialMatches [agree]:
  "registry_ok E \<Longrightarrow> agreeing (StageFindPartialMatchesCategory E)"
  "agreeing (StageFindPartialMatchesSmallDifferences E)"
  unfolding StageFindPartialMatchesCategory_def StageFindPartialMatchesSmallDifferences_def by (intro agree; simp)+

section \<open>The engine between the stages\<close>

lemma agreeing_on_engine:
  assumes "\<And>e e'. engine_sim e e' \<Longrightarrow> engine_sim (f e) (f e')"
  shows "agreeing (on_engine (modS f))"
  by (rule agrees_engine [where m = "\<lambda>ids. modS f"]) (simp_all add: on_engine_def modS_def assms)

lemma engine_ok_fields:
  "engine_ok (e\<lparr>re_Cache := c\<rparr>) = engine_ok e" "engine_ok (e\<lparr>re_IsSameProcessor := b\<rparr>) = engine_ok e"
  by (simp_all add: engine_ok_def prepared_now_def columns_prepared_def memo_slots_ok_def Table_def)

lemma agreeing_ClearCache [agree]: "agreeing (on_engine Engine_ClearCache)"
  unfolding Engine_ClearCache_def
  by (rule agreeing_on_engine) (simp add: engine_sim_def provider_ok_def engine_ok_fields cache_unit_def ClearCache_def)

lemma agreeing_SameProcessor [agree]: "agreeing (on_engine (modS (\<lambda>e. e\<lparr>re_IsSameProcessor := b\<rparr>)))"
  by (rule agreeing_on_engine) (simp add: engine_sim_def provider_ok_def engine_ok_fields)

lemma PrepareAll_sim: "provider_ok e \<Longrightarrow> engine_sim e (PrepareAll e)"
  using PrepareAll_ready [of e] by (simp add: engine_sim_def provider_ok_def engine_ok_def ready_def)

lemma engine_sim_trans: "engine_sim e e1 \<Longrightarrow> engine_sim e1 e2 \<Longrightarrow> engine_sim e e2"
  and engine_sim_sym: "engine_sim e e1 \<Longrightarrow> engine_sim e1 e"
  by (simp_all add: engine_sim_def)

lemma agreeing_Prepare [agree]: "agreeing EnginePrepare"
  unfolding EnginePrepare_def
proof (rule agreeing_on_engine)
  fix e e' assume "engine_sim e e'"
  moreover from this have "engine_sim e (PrepareAll e)" "engine_sim e' (PrepareAll e')"
    by (auto intro!: PrepareAll_sim simp: engine_sim_def [of e e'])
  ultimately show "engine_sim (PrepareAll e) (PrepareAll e')" by (blast intro: engine_sim_trans engine_sim_sym)
qed

lemma agreeing_RequireIngest [agree]: "agreeing (RequireIngest E)"
  unfolding RequireIngest_def by (intro agree) simp

lemma agreeing_fresh_start [agree]: "agreeing (fresh_start E)"
  unfolding fresh_start_def by (intro agree) simp_all

lemma agreeing_dirty_stage [agree]: "agreeing (dirty_stage E skip)"
  unfolding dirty_stage_def by (intro agree) simp_all

end
