(* ===== verification/Convergence.thy ===== *)
theory Convergence
  imports Pipeline
begin

text \<open>
  The convergence loop of \<^verbatim>\<open>RunPipeline\<close> ends. Cleanup is a fixpoint of itself, and after it no two matches have the
  same pair of names, so the number of matches is bounded; an iteration that does not end the loop has added one.
\<close>

section \<open>The number of matches after a cleanup\<close>

definition cleaned :: "DiffSession \<Rightarrow> bool" where
  "cleaned s \<longleftrightarrow> Cleanup (ss_Ids s) (ss_State s) = Inr (ss_State s)"

lemma item_key_names: "it_Name1 a = it_Name1 b \<Longrightarrow> it_Name2 a = it_Name2 b \<Longrightarrow> item_key ids a = item_key ids b"
  by (simp add: item_key_def cleanup_key_def)

lemma card_name_pairs: "card (UNIV :: (NameId \<times> NameId) set) = 2 ^ 64"
  by (simp only: UNIV_Times_UNIV [symmetric] card_cartesian_product card_word) simp

lemma distinct_names_bound:
  fixes items :: "Item list"
  assumes "distinct (map (item_key ids) items)"
  shows "length items \<le> 2 ^ 64"
proof -
  let ?pair = "\<lambda>it. (it_Name1 it, it_Name2 it)"
  have "distinct (map ?pair items)"
    using assms unfolding distinct_map inj_on_def by (metis Pair_inject item_key_names)
  from distinct_card [OF this] have "length items = card (set (map ?pair items))" by (simp only: length_map)
  also have "\<dots> \<le> card (UNIV :: (NameId \<times> NameId) set)" by (rule card_mono [OF finite subset_UNIV])
  finally show ?thesis by (simp only: card_name_pairs)
qed

lemma cleaned_bound: "cleaned s \<Longrightarrow> TotalMatchedFunctions (ss_State s) \<le> 2 ^ 64"
proof -
  assume "cleaned s"
  from Cleanup_whole [OF this [unfolded cleaned_def]] have "distinct (map (item_key (ss_Ids s)) (all_items (ss_State s)))"
    by (auto dest: cleanup_list_keys)
  from distinct_names_bound [OF this] show ?thesis by (simp add: TotalMatchedFunctions_def all_items_def)
qed

section \<open>One iteration\<close>

lemma SessionCleanup_state:
  "SessionCleanup site s = (Inr (), s') \<Longrightarrow> Cleanup (ss_Ids s) (ss_State s) = Inr (ss_State s') \<and> ss_Ids s' = ss_Ids s"
  by (auto simp: SessionCleanup_def BumpCleanup_def Point_def StateCleanup_def modS_def bindS_eq Let_def list_sizes_def split: sum.splits)

lemma SessionCleanup_cleaned:
  assumes "SessionCleanup site s = (Inr (), s')"
  shows "cleaned s'" and "cleaned s \<Longrightarrow> ss_State s' = ss_State s"
  using SessionCleanup_state [OF assms] Cleanup_fixpoint by (auto simp: cleaned_def)

lemma on_session_eq: "on_session m (s, saved) = (r, p) \<longleftrightarrow> (\<exists>s'. m s = (r, s') \<and> p = (s', saved))"
  by (auto simp: on_session_def split: prod.splits)

lemma Save_eq: "Save st cur (s, saved) = (Inr (cur\<lparr>pc_Done := st\<rparr>), (s, saved @ [(cur\<lparr>pc_Done := st\<rparr>, s)]))"
  by (simp add: Save_def Let_def)

lemma bindS_InrE:
  assumes "bindS m f s = (Inr y, s')"
  obtains x s1 where "m s = (Inr x, s1)" and "f x s1 = (Inr y, s')"
  using assms by (auto simp: bindS_eq)

lemma run_step_total: "run_step skipped st m cur p = (Inr cur', p') \<Longrightarrow> pc_OldTotal cur' = pc_OldTotal cur"
  by (cases p) (auto simp: run_step_def bindS_eq retS_def on_session_eq Save_eq split: if_splits)

lemma cleanup_top_total:
  assumes "cleanup_top False cur (s, saved) = (Inr cur', p)" and "cleaned s"
  shows "pc_OldTotal cur' = int (TotalMatchedFunctions (ss_State s))"
  using assms SessionCleanup_cleaned(2)
  by (auto simp: cleanup_top_def bindS_eq on_session_eq Save_eq getS_def)

lemma run_cleanup_cleaned:
  assumes "run_step False st (SessionCleanup site) cur p = (Inr cur', (s', saved'))"
  shows "cleaned s'"
  using assms by (cases p) (auto simp: run_step_def bindS_eq on_session_eq Save_eq SessionCleanup_cleaned(1))

lemma loop_body_total:
  assumes "loop_body E NoStep cur (s, saved) = (Inr cur', (s', saved'))"
  shows "cleaned s'" and "cleaned s \<Longrightarrow> pc_OldTotal cur' = int (TotalMatchedFunctions (ss_State s))"
proof -
  from assms have "bindS (cleanup_top False cur) (\<lambda>cur1.
      bindS (run_step False MatchesDiffing (LoopStage ''find_matches_diffing'' (pc_Iteration cur) (StageFindMatchesDiffing E)) cur1) (\<lambda>cur2.
      bindS (run_step (\<not> dc_SlowHeuristics (in_Config E)) RelatedMatches (LoopStage ''find_related_matches'' (pc_Iteration cur) (StageFindRelatedMatches E)) cur2) (\<lambda>cur3.
      bindS (run_step False RelatedCompilationUnit (LoopStage ''find_related_compilation_unit'' (pc_Iteration cur) (StageFindRelatedCompilationUnit E)) cur3) (\<lambda>cur4.
      bindS (run_step False LocallyAffine (LoopStage ''find_locally_affine_functions'' (pc_Iteration cur) (StageFindLocallyAffineFunctions E)) cur4) (\<lambda>cur5.
      run_step False LoopCleanupBottom (SessionCleanup L3671) cur5))))) (s, saved) = (Inr cur', (s', saved'))"
    by (simp add: loop_body_def Let_def less_eq_PipelineStep_def step_index_def)
  then obtain cur1 cur5 p1 p5 where "cleanup_top False cur (s, saved) = (Inr cur1, p1)" "pc_OldTotal cur5 = pc_OldTotal cur1"
    and "run_step False LoopCleanupBottom (SessionCleanup L3671) cur5 p5 = (Inr cur', (s', saved'))"
    by (elim bindS_InrE) (metis run_step_total)
  then show "cleaned s'" and "cleaned s \<Longrightarrow> pc_OldTotal cur' = int (TotalMatchedFunctions (ss_State s))"
    using run_cleanup_cleaned cleanup_top_total run_step_total by (metis, metis)
qed

section \<open>The loop ends\<close>

lemma converge_cleaned:
  assumes "cleaned s" and "fuel + TotalMatchedFunctions (ss_State s) > 2 ^ 64"
  shows "fst (converge fuel E NoStep k cur (s, saved)) \<noteq> Inr None"
  using assms
proof (induction fuel arbitrary: s saved cur k)
  case 0
  then show ?case using cleaned_bound [of s] by simp
next
  case (Suc fuel)
  obtain r s' saved' where run: "loop_body E NoStep (cur\<lparr>pc_Iteration := k\<rparr>) (s, saved) = (r, s', saved')" by (metis prod.exhaust)
  show ?case
  proof (cases r)
    case (Inl e)
    then show ?thesis by (simp add: bindS_def run)
  next
    case (Inr cur')
    note body = loop_body_total [OF run [unfolded Inr]]
    have "fst (converge fuel E NoStep (k + 1) cur' (s', saved')) \<noteq> Inr None"
      if "\<not> int (TotalMatchedFunctions (ss_State s')) \<le> pc_OldTotal cur'"
      using that Suc.prems body by (intro Suc.IH) auto
    then show ?thesis by (simp add: bindS_def run Inr on_session_def getS_def retS_def)
  qed
qed

text \<open>From any state: one iteration until the first cleanup is known, and one more when the loop is resumed.\<close>

lemma converge_any:
  assumes "\<And>s' saved' cur'. fst (converge fuel E NoStep (k + 1) cur' (s', saved')) \<noteq> Inr None \<or>
      (loop_done = NoStep \<and> \<not> cleaned s')"
  shows "fst (converge (Suc fuel) E loop_done k cur (s, saved)) \<noteq> Inr None"
proof -
  obtain r s' saved' where run: "loop_body E loop_done (cur\<lparr>pc_Iteration := k\<rparr>) (s, saved) = (r, s', saved')" by (metis prod.exhaust)
  show ?thesis
  proof (cases r)
    case (Inr cur')
    have "loop_done = NoStep \<Longrightarrow> cleaned s'" using loop_body_total(1) run [unfolded Inr] by blast
    with assms [of cur' s' saved'] show ?thesis by (auto simp: bindS_def run Inr on_session_def getS_def retS_def)
  qed (simp add: bindS_def run)
qed

lemma converge_fresh: "fuel \<ge> 2 ^ 64 + 2 \<Longrightarrow> fst (converge fuel E NoStep k cur (s, saved)) \<noteq> Inr None"
proof (cases fuel)
  case (Suc f)
  assume "fuel \<ge> 2 ^ 64 + 2"
  then show ?thesis unfolding Suc using Suc converge_cleaned [of _ f] by (intro converge_any) auto
qed simp

lemma converge_resumed: "fuel \<ge> 2 ^ 64 + 3 \<Longrightarrow> fst (converge fuel E loop_done k cur (s, saved)) \<noteq> Inr None"
proof (cases fuel)
  case (Suc f)
  assume "fuel \<ge> 2 ^ 64 + 3"
  then show ?thesis unfolding Suc using Suc converge_fresh [of f] by (intro converge_any) auto
qed simp

lemma bindS_not_None:
  assumes "\<And>x s'. m s = (Inr x, s') \<Longrightarrow> fst (f x s') \<noteq> Inr None"
  shows "fst (bindS m f s) \<noteq> Inr None"
  using assms by (auto simp: bindS_def split: prod.splits sum.splits)

lemma run_heuristics_ends: "fuel \<ge> 2 ^ 64 + 3 \<Longrightarrow> fst (run_heuristics E fuel resumed cur p) \<noteq> Inr None"
  unfolding run_heuristics_def Let_def by (auto simp: retS_def converge_resumed intro!: bindS_not_None split: if_splits)

lemma run_rest_ends:
  assumes "fuel \<ge> 2 ^ 64 + 3"
  shows "fst (run_rest E fuel resumed cur p) \<noteq> Inr None"
  unfolding run_rest_def
proof (intro bindS_not_None)
  fix cur3 p3 looped p4
  assume "run_heuristics E fuel resumed cur3 p3 = (Inr looped, p4)"
  with run_heuristics_ends [OF assms, of E resumed cur3 p3] obtain c where "looped = Some c" by auto
  then show "fst ((case looped of None \<Rightarrow> retS None | Some cur \<Rightarrow> run_end E resumed cur) p4) \<noteq> Inr None"
    by (auto simp: run_end_def retS_def intro!: bindS_not_None)
qed

lemma pipeline_returns: "fst (RunPipeline E (2 ^ 64 + 3 + n) resume (s, saved)) \<noteq> Inr None"
  unfolding RunPipeline_def
  by (intro bindS_not_None) (auto simp: retS_def run_rest_ends split: option.splits)

text \<open>C4. converge: A diff ends. The only loop of a run without a bound of its own, the convergence loop, stops: with fuel for
  2 ^ 64 + 3 iterations, fresh or resumed from any checkpoint, on any databases and in any session, the run returns a result
  or raises, and never runs out of fuel; after each iteration but the last there is one more match between different pairs
  of names, and there are at most 2 ^ 64 such pairs.\<close>

theorem run_pipeline_ends:
  "(\<exists>ran. fst (RunPipeline E (2 ^ 64 + 3 + n) resume (s, saved)) = Inr (Some ran)) \<or>
   (\<exists>err. fst (RunPipeline E (2 ^ 64 + 3 + n) resume (s, saved)) = Inl err)"
  using pipeline_returns [of E n resume s saved]
  by (cases "fst (RunPipeline E (2 ^ 64 + 3 + n) resume (s, saved))") auto

end
