(* ===== verification/Resume.thy ===== *)
theory Resume
  imports Agreement Convergence
begin

text \<open>
  Runs and their checkpoints. A whole run keeps the invariants of the stages; and a run that is resumed from any checkpoint
  of an uninterrupted run gives the result of that run. What the resumed engine has prepared and memoised may differ from
  the engine at the checkpoint: a resumed session starts with nothing prepared.
\<close>

section \<open>Agreement of runs\<close>

definition run_agrees :: "'a run \<Rightarrow> bool" where
  "run_agrees K \<longleftrightarrow>
     (\<forall>s e saved saved2. sim s e \<longrightarrow>
        (\<exists>r s' e' new new2. K (s, saved) = (r, (s', new)) \<and> K (s\<lparr>ss_Ratio := e\<rparr>, saved2) = (r, (s'\<lparr>ss_Ratio := e'\<rparr>, new2)) \<and> sim s' e'))"

lemma run_agreesE:
  assumes "run_agrees K" and "sim s e"
  obtains r s' e' new new2 where "K (s, saved) = (r, (s', new))" and "K (s\<lparr>ss_Ratio := e\<rparr>, saved2) = (r, (s'\<lparr>ss_Ratio := e'\<rparr>, new2))" and "sim s' e'"
  using assms unfolding run_agrees_def by metis

lemma run_agrees_retS [agree]: "run_agrees (retS x)"
  unfolding run_agrees_def retS_def by blast

lemma run_agrees_Save [agree]: "run_agrees (Save st cur)"
  unfolding run_agrees_def by (simp add: Save_eq) blast

lemma run_agrees_on_session [agree]: "agreeing m \<Longrightarrow> run_agrees (on_session m)"
  unfolding run_agrees_def on_session_def by (fastforce elim!: agreesE)

lemma run_agrees_bind [agree]:
  assumes "run_agrees m" and "\<And>x. run_agrees (f x)"
  shows "run_agrees (bindS m f)"
  unfolding run_agrees_def
proof (intro allI impI)
  fix s e saved saved2 assume "sim s e"
  from run_agreesE [OF assms(1) this] obtain r s' e' new new2 where 1: "m (s, saved) = (r, (s', new))"
    "m (s\<lparr>ss_Ratio := e\<rparr>, saved2) = (r, (s'\<lparr>ss_Ratio := e'\<rparr>, new2))" "sim s' e'" by metis
  show "\<exists>r s' e' new new2. bindS m f (s, saved) = (r, (s', new)) \<and> bindS m f (s\<lparr>ss_Ratio := e\<rparr>, saved2) = (r, (s'\<lparr>ss_Ratio := e'\<rparr>, new2)) \<and> sim s' e'"
  proof (cases r)
    case (Inr x)
    from run_agreesE [OF assms(2) 1(3)] obtain r2 s2 e2 n1 n2 where "f x (s', new) = (r2, (s2, n1))"
      "f x (s'\<lparr>ss_Ratio := e'\<rparr>, new2) = (r2, (s2\<lparr>ss_Ratio := e2\<rparr>, n2))" "sim s2 e2" by metis
    then show ?thesis using 1 Inr by (simp add: bindS_def) blast
  qed (use 1 in \<open>simp add: bindS_def, blast\<close>)
qed

lemma run_agrees_splits [agree]:
  "(b \<Longrightarrow> run_agrees m1) \<Longrightarrow> (\<not> b \<Longrightarrow> run_agrees m2) \<Longrightarrow> run_agrees (if b then m1 else m2)"
  "run_agrees m \<Longrightarrow> (\<And>x. run_agrees (f x)) \<Longrightarrow> run_agrees (case opt of None \<Rightarrow> m | Some x \<Rightarrow> f x)"
  by (auto split: option.splits)

lemma run_agrees_step [agree]: "agreeing m \<Longrightarrow> run_agrees (run_step skipped st m cur)"
  unfolding run_step_def by (intro agree)

lemma run_agrees_dirty [agree]: "run_agrees (dirty_step skipped E cur)"
  unfolding dirty_step_def by (intro agree)

lemma run_agrees_total [agree]: "run_agrees (on_session (getS (\<lambda>s. Inr (f (ss_State s)))))"
  by (intro agree) simp

lemma run_agrees_loop_body [agree]: "run_agrees (loop_body E loop_done cur)"
  unfolding loop_body_def cleanup_top_def Let_def by (intro agree) simp

lemma run_agrees_converge [agree]: "run_agrees (converge fuel E loop_done k cur)"
  by (induction fuel arbitrary: loop_done k cur) (auto intro!: agree)

lemma run_agrees_end [agree]: "run_agrees (run_end E resumed cur)"
  unfolding run_end_def by (intro agree)

lemma run_agrees_rest [agree]: "registry_ok E \<Longrightarrow> run_agrees (run_rest E fuel resumed cur)"
  unfolding run_rest_def run_heuristics_def Let_def by (intro agree) simp_all

lemma run_agrees_RunPipeline: "registry_ok E \<Longrightarrow> run_agrees (RunPipeline E fuel resume)"
  unfolding RunPipeline_def run_start_def by (intro agree) simp_all

lemma sim_refl: "state_ok (ss_State s) \<Longrightarrow> provider_ok (ss_Ratio s) \<Longrightarrow> sim s (ss_Ratio s)"
  by (simp add: sim_def engine_sim_def)

lemma sim_ok: "sim s e \<Longrightarrow> state_ok (ss_State s) \<and> provider_ok (ss_Ratio s)"
  by (simp add: sim_def engine_sim_def)

section \<open>Continuing from a checkpoint\<close>

text \<open>\<open>continues E fuel c K\<close>: resuming at \<open>c\<close> does what the run still does, \<open>K\<close>, unless that runs out of fuel.\<close>

definition continues :: "Inputs \<Rightarrow> nat \<Rightarrow> PipelineCursor \<Rightarrow> bool option run \<Rightarrow> bool" where
  "continues E fuel c K \<longleftrightarrow>
     (\<forall>s e saved saved2 r s' new. sim s e \<longrightarrow> K (s, saved) = (r, (s', new)) \<longrightarrow> r \<noteq> Inr None \<longrightarrow>
        (\<exists>e' new2. RunPipeline E fuel (Some c) (s\<lparr>ss_Ratio := e\<rparr>, saved2) = (r, (s'\<lparr>ss_Ratio := e'\<rparr>, new2)) \<and> engine_sim (ss_Ratio s') e'))"

definition resumable :: "Inputs \<Rightarrow> nat \<Rightarrow> checkpoint \<Rightarrow> bool option result \<Rightarrow> DiffSession \<Rightarrow> bool" where
  "resumable E fuel = (\<lambda>(c, sc) r s'.
     state_ok (ss_State sc) \<and> provider_ok (ss_Ratio sc) \<and>
     (\<forall>e saved. engine_sim (ss_Ratio sc) e \<longrightarrow>
        (\<exists>e' new. RunPipeline E fuel (Some c) (sc\<lparr>ss_Ratio := e\<rparr>, saved) = (r, (s'\<lparr>ss_Ratio := e'\<rparr>, new)) \<and> engine_sim (ss_Ratio s') e')))"

text \<open>\<open>resumes E fuel K\<close>: every checkpoint that \<open>K\<close> offers leads to its result.\<close>

definition resumes :: "Inputs \<Rightarrow> nat \<Rightarrow> bool option run \<Rightarrow> bool" where
  "resumes E fuel K \<longleftrightarrow>
     (\<forall>s saved r s' saved'. state_ok (ss_State s) \<longrightarrow> provider_ok (ss_Ratio s) \<longrightarrow> K (s, saved) = (r, (s', saved')) \<longrightarrow> r \<noteq> Inr None \<longrightarrow>
        (\<exists>new. saved' = saved @ new \<and> (\<forall>cp\<in>set new. resumable E fuel cp r s')))"

lemma resumes_retS: "resumes E fuel (retS x)"
  by (auto simp: resumes_def retS_def)

lemma resumes_on_session:
  assumes "agreeing m" and "\<And>x. resumes E fuel (f x)"
  shows "resumes E fuel (bindS (on_session m) f)"
  unfolding resumes_def
proof (intro allI impI)
  fix s saved r s' saved'
  assume s: "state_ok (ss_State s)" "provider_ok (ss_Ratio s)" and run: "bindS (on_session m) f (s, saved) = (r, (s', saved'))" and r: "r \<noteq> Inr None"
  obtain r1 s1 e1 where m: "m s = (r1, s1)" "sim s1 e1" by (rule agreesE [OF assms(1) sim_refl [OF s]])
  from sim_ok [OF m(2)] m(1) run r assms(2)
  show "\<exists>new. saved' = saved @ new \<and> (\<forall>cp\<in>set new. resumable E fuel cp r s')"
    unfolding resumes_def by (cases r1) (auto simp: bindS_def on_session_def)
qed

lemma resumes_Save:
  assumes "continues E fuel (cur\<lparr>pc_Done := st\<rparr>) (f (cur\<lparr>pc_Done := st\<rparr>))" and "resumes E fuel (f (cur\<lparr>pc_Done := st\<rparr>))"
  shows "resumes E fuel (bindS (Save st cur) f)"
  unfolding resumes_def
proof (intro allI impI)
  fix s saved r s' saved'
  let ?c = "cur\<lparr>pc_Done := st\<rparr>"
  assume s: "state_ok (ss_State s)" "provider_ok (ss_Ratio s)" and run: "bindS (Save st cur) f (s, saved) = (r, (s', saved'))" and r: "r \<noteq> Inr None"
  from run have f: "f ?c (s, saved @ [(?c, s)]) = (r, (s', saved'))" by (simp add: bindS_def Save_eq)
  with assms(2) s r obtain new where new: "saved' = (saved @ [(?c, s)]) @ new" "\<forall>cp\<in>set new. resumable E fuel cp r s'"
    unfolding resumes_def by blast
  have "sim s e" if "engine_sim (ss_Ratio s) e" for e using that s by (simp add: sim_def)
  then have "resumable E fuel (?c, s) r s'"
    using assms(1) f r s unfolding continues_def resumable_def by fastforce
  with new show "\<exists>new. saved' = saved @ new \<and> (\<forall>cp\<in>set new. resumable E fuel cp r s')" by auto
qed

lemma bindS_retS [simp]: "bindS (retS x) f = f x"
  by (rule ext) (simp add: bindS_def retS_def)

lemma resumes_step:
  assumes "agreeing m" and "continues E fuel (cur\<lparr>pc_Done := st\<rparr>) (f (cur\<lparr>pc_Done := st\<rparr>))" and "resumes E fuel (f (cur\<lparr>pc_Done := st\<rparr>))"
  shows "resumes E fuel (bindS (run_step False st m cur) f)"
  unfolding run_step_def if_False bindS_assoc by (intro resumes_on_session resumes_Save assms)

text \<open>A resumed run, when the export was accepted: it prepares the engine and goes on behind the checkpoint.\<close>

definition accepted :: "Inputs \<Rightarrow> bool" where
  "accepted E \<longleftrightarrow> registry_ok E \<and> problem_text (in_Problems E) = []"

lemma RunPipeline_resumed: "accepted E \<Longrightarrow> RunPipeline E fuel (Some c) p = run_rest E fuel (pc_Done c) c p"
  by (cases p) (simp add: RunPipeline_def run_start_def accepted_def RequireIngest_def bindS_def on_session_def getS_def retS_def)

lemma continuesI:
  assumes ok: "accepted E" and K': "run_agrees K'"
    and run: "\<And>s e saved2. sim s e \<Longrightarrow> \<exists>e'. engine_sim e e' \<and> run_rest E fuel (pc_Done c) c (s\<lparr>ss_Ratio := e\<rparr>, saved2) = K' (s\<lparr>ss_Ratio := e'\<rparr>, saved2)"
    and less: "\<And>p. fst (K p) \<noteq> Inr None \<Longrightarrow> K' p = K p"
  shows "continues E fuel c K"
  unfolding continues_def
proof (intro allI impI)
  fix s e saved saved2 r s' new
  assume s: "sim s e" and K: "K (s, saved) = (r, (s', new))" and r: "r \<noteq> Inr None"
  obtain e1 where e1: "engine_sim e e1" "run_rest E fuel (pc_Done c) c (s\<lparr>ss_Ratio := e\<rparr>, saved2) = K' (s\<lparr>ss_Ratio := e1\<rparr>, saved2)"
    using run [OF s] by blast
  have "sim s e1" using s e1(1) engine_sim_trans [of "ss_Ratio s" e e1] by (simp add: sim_def)
  moreover have "K' (s, saved) = (r, (s', new))" using less [of "(s, saved)"] K r by simp
  ultimately obtain e2 new2 where "K' (s\<lparr>ss_Ratio := e1\<rparr>, saved2) = (r, (s'\<lparr>ss_Ratio := e2\<rparr>, new2))" "sim s' e2"
    using run_agreesE [OF K', of s e1 saved saved2] by (metis prod.inject)
  then show "\<exists>e' new2. RunPipeline E fuel (Some c) (s\<lparr>ss_Ratio := e\<rparr>, saved2) = (r, (s'\<lparr>ss_Ratio := e'\<rparr>, new2)) \<and> engine_sim (ss_Ratio s') e'"
    using e1(2) RunPipeline_resumed [OF ok] by (auto simp: sim_def intro!: exI [of _ e2])
qed

text \<open>What a run does behind the dirty heuristics, the names and the loop.\<close>

definition after_loop :: "Inputs \<Rightarrow> PipelineStep \<Rightarrow> PipelineCursor option \<Rightarrow> bool option run" where
  "after_loop E resumed looped = (case looped of None \<Rightarrow> retS None | Some cur \<Rightarrow> run_end E resumed cur)"

definition after_dirty :: "Inputs \<Rightarrow> nat \<Rightarrow> PipelineStep \<Rightarrow> PipelineCursor \<Rightarrow> bool option run" where
  "after_dirty E fuel resumed cur =
     bindS (run_step (dc_IgnoreAllNames (in_Config E) \<or> SameName \<le> resumed) SameName
              (pointed ''find_same_name'' (StageFindSameName E)) cur) (\<lambda>cur.
     bindS (run_heuristics E fuel resumed cur) (after_loop E resumed))"

lemma run_rest_eq: "run_rest E fuel resumed cur = bindS (dirty_step (DirtyHeuristics \<le> resumed) E cur) (after_dirty E fuel resumed)"
  unfolding run_rest_def after_dirty_def after_loop_def by (rule refl)

lemma run_agrees_after [agree]:
  "run_agrees (after_loop E resumed looped)" "registry_ok E \<Longrightarrow> run_agrees (run_heuristics E fuel resumed cur)"
  "registry_ok E \<Longrightarrow> run_agrees (after_dirty E fuel resumed cur)"
  unfolding after_loop_def after_dirty_def run_heuristics_def Let_def by (intro agree; simp)+

lemma continues_prepared:
  assumes ok: "accepted E" and st: "DirtyHeuristics \<le> pc_Done c" and less: "\<And>p. fst (K p) \<noteq> Inr None \<Longrightarrow> after_dirty E fuel (pc_Done c) c p = K p"
  shows "continues E fuel c K"
proof (rule continuesI [OF ok _ _ less])
  show "run_agrees (after_dirty E fuel (pc_Done c) c)" using ok by (intro agree) (simp add: accepted_def)
  fix s e and saved2 :: "checkpoint list" assume "sim s e"
  then have "engine_sim e (PrepareAll e)" by (intro PrepareAll_sim) (simp add: sim_def engine_sim_def)
  moreover have "on_session EnginePrepare (s\<lparr>ss_Ratio := e\<rparr>, saved2) = (Inr (), (s\<lparr>ss_Ratio := PrepareAll e\<rparr>, saved2))"
    by (simp add: on_session_def EnginePrepare_def on_engine_def modS_def)
  ultimately show "\<exists>e'. engine_sim e e' \<and> run_rest E fuel (pc_Done c) c (s\<lparr>ss_Ratio := e\<rparr>, saved2) = after_dirty E fuel (pc_Done c) c (s\<lparr>ss_Ratio := e'\<rparr>, saved2)"
    using st by (auto simp: run_rest_eq dirty_step_def bindS_assoc bindS_def [of "on_session EnginePrepare"])
qed

section \<open>The steps outside the loop\<close>

lemmas step_order = less_eq_PipelineStep_def less_PipelineStep_def step_index_def

lemma cursor_order:
  "cur\<lparr>pc_Done := st, pc_Iteration := k\<rparr> = cur\<lparr>pc_Iteration := k, pc_Done := st\<rparr>"
  by simp

lemma run_step_skipped [simp]: "run_step True st m cur = retS cur"
  by (simp add: run_step_def)

lemma after_loop_before: "st \<noteq> NoStep \<Longrightarrow> st < FinalPass \<Longrightarrow> after_loop E st = after_loop E NoStep"
  by (rule ext) (simp add: after_loop_def run_end_def step_order split: option.splits)

lemma agreeing_steps:
  "agreeing (pointed ''final_pass'' StageFinalPass)" "agreeing (FindUnmatchedStage E)" "agreeing LogFinalResults"
  "agreeing (pointed ''find_same_name'' (StageFindSameName E))" "agreeing (pointed ''find_remaining_functions'' (StageFindRemainingFunctions E))"
  by (intro agree)+

lemma resumes_end:
  assumes ok: "accepted E"
  shows "resumes E fuel (run_end E NoStep cur)"
proof -
  let ?c1 = "cur\<lparr>pc_Iteration := 0, pc_Done := FinalPass\<rparr>" and ?c2 = "cur\<lparr>pc_Iteration := 0, pc_Done := FindUnmatched\<rparr>"
  let ?log = "bindS (on_session LogFinalResults) (\<lambda>_. retS (Some True))"
  let ?K = "bindS (run_step False FindUnmatched (FindUnmatchedStage E) ?c1) (\<lambda>_. ?log)"
  have log: "resumes E fuel ?log" by (intro resumes_on_session agreeing_steps resumes_retS)
  have "after_dirty E fuel FinalPass ?c1 = ?K" "after_dirty E fuel FindUnmatched ?c2 = ?log"
    by (simp_all add: after_dirty_def run_heuristics_def after_loop_def run_end_def step_order cursor_order)
  then have "continues E fuel ?c1 ?K" "continues E fuel ?c2 ?log"
    by (auto intro!: continues_prepared [OF ok] simp: step_order)
  then show ?thesis
    unfolding run_end_def by (auto simp: step_order intro!: resumes_step agreeing_steps log)
qed

lemma resumes_after_loop:
  assumes "accepted E"
  shows "resumes E fuel (after_loop E NoStep looped)"
  using resumes_end [OF assms] by (auto simp: after_loop_def resumes_retS split: option.splits)

text \<open>A checkpoint before the loop: nothing behind it is skipped.\<close>

lemma run_heuristics_early: "resumed \<noteq> NoStep \<Longrightarrow> resumed < RemainingFunctions \<Longrightarrow> run_heuristics E fuel resumed = run_heuristics E fuel NoStep"
  by (rule ext) (auto simp: run_heuristics_def Let_def IsLoopStep_def step_order)

section \<open>The loop\<close>

definition loop_rest :: "nat \<Rightarrow> Inputs \<Rightarrow> PipelineStep \<Rightarrow> PipelineCursor \<Rightarrow> PipelineCursor option run" where
  "loop_rest fuel E st cur =
     bindS (loop_body E st cur) (\<lambda>cur'.
     bindS (on_session (getS (\<lambda>s. Inr (TotalMatchedFunctions (ss_State s))))) (\<lambda>new_total.
     if int new_total \<le> pc_OldTotal cur' then retS (Some cur') else converge fuel E NoStep (pc_Iteration cur + 1) cur'))"

lemma converge_rest: "converge (Suc fuel) E st k cur = loop_rest fuel E st (cur\<lparr>pc_Iteration := k\<rparr>)"
  by (simp add: loop_rest_def cong: if_cong)

lemma bindS_mono:
  assumes "\<And>p. fst (m' p) \<noteq> Inr None \<Longrightarrow> m p = m' p" and "f None = retS None" and "fst (bindS m' f p) \<noteq> Inr None"
  shows "bindS m f p = bindS m' f p"
proof (cases "fst (m' p) = Inr None")
  case True
  then have "fst (bindS m' f p) = Inr None" by (cases "m' p") (simp add: bindS_def assms(2) retS_def)
  with assms(3) show ?thesis by simp
qed (simp add: bindS_def assms(1))

lemma converge_mono: "fst (converge n E st k cur p) \<noteq> Inr None \<Longrightarrow> n \<le> f \<Longrightarrow> converge f E st k cur p = converge n E st k cur p"
proof (induction n arbitrary: f st k cur p)
  case (Suc n)
  obtain f' where f: "f = Suc f'" "n \<le> f'" using Suc.prems(2) by (cases f) auto
  show ?case
    using Suc.prems(1) Suc.IH [OF _ f(2)]
    by (auto simp: f(1) bindS_def on_session_def getS_def split: prod.splits sum.splits)
qed (simp add: retS_def)

lemma loop_rest_mono: "fst (loop_rest n E st cur p) \<noteq> Inr None \<Longrightarrow> n \<le> f \<Longrightarrow> loop_rest f E st cur p = loop_rest n E st cur p"
  using converge_mono [of "Suc n" E st "pc_Iteration cur" cur p "Suc f"] by (simp add: converge_rest del: converge.simps)

text \<open>A checkpoint of the loop: the rest of its iteration, then the loop.\<close>

lemma continues_loop:
  assumes ok: "accepted E" and st: "IsLoopStep (pc_Done c)" and c: "\<not> pc_SkipOthers c" and n: "n \<le> fuel"
  shows "continues E (Suc fuel) c (bindS (loop_rest n E (pc_Done c) c) (after_loop E NoStep))"
proof (rule continues_prepared [OF ok])
  show "DirtyHeuristics \<le> pc_Done c" using st by (simp add: IsLoopStep_def step_order)
  fix p assume r: "fst (bindS (loop_rest n E (pc_Done c) c) (after_loop E NoStep) p) \<noteq> Inr None"
  have "after_dirty E (Suc fuel) (pc_Done c) c = bindS (loop_rest fuel E (pc_Done c) c) (after_loop E (pc_Done c))"
    using st c by (cases "pc_Done c") (simp_all add: after_dirty_def run_heuristics_def IsLoopStep_def step_order converge_rest del: converge.simps)
  moreover have "after_loop E (pc_Done c) = after_loop E NoStep" using st by (intro after_loop_before) (auto simp: IsLoopStep_def step_order)
  moreover have "after_loop E NoStep None = retS None" by (simp add: after_loop_def)
  ultimately show "after_dirty E (Suc fuel) (pc_Done c) c p = bindS (loop_rest n E (pc_Done c) c) (after_loop E NoStep) p"
    using bindS_mono [of "loop_rest n E (pc_Done c) c", OF loop_rest_mono [OF _ n] _ r] by simp
qed

text \<open>The steps of an iteration, one by one.\<close>

lemma Save_normal: "Save st cur = bindS (Save st cur) (\<lambda>_. retS (cur\<lparr>pc_Done := st\<rparr>))"
  by (rule ext) (simp add: bindS_def Save_def Let_def retS_def split: prod.splits)

lemma run_step_normal:
  "run_step False st m cur = bindS (on_session m) (\<lambda>_. bindS (Save st cur) (\<lambda>_. retS (cur\<lparr>pc_Done := st\<rparr>)))"
  unfolding run_step_def if_False by (subst Save_normal) (rule refl)

lemma cleanup_top_normal:
  "cleanup_top False cur =
     bindS (on_session (bindS (SessionCleanup L3655) (\<lambda>_. getS (\<lambda>s. Inr (TotalMatchedFunctions (ss_State s)))))) (\<lambda>old_total.
     bindS (Save LoopCleanupTop (cur\<lparr>pc_OldTotal := int old_total\<rparr>)) (\<lambda>_. retS (cur\<lparr>pc_OldTotal := int old_total, pc_Done := LoopCleanupTop\<rparr>)))"
  "cleanup_top True cur = retS cur"
  unfolding cleanup_top_def if_False by (subst Save_normal, rule refl) simp

lemma loop_body_steps:
  "loop_body E NoStep cur = bindS (cleanup_top False cur) (loop_body E LoopCleanupTop)"
  "loop_body E LoopCleanupTop cur =
     bindS (run_step False MatchesDiffing (LoopStage ''find_matches_diffing'' (pc_Iteration cur) (StageFindMatchesDiffing E)) cur) (loop_body E MatchesDiffing)"
  "loop_body E MatchesDiffing cur =
     bindS (run_step (\<not> dc_SlowHeuristics (in_Config E)) RelatedMatches (LoopStage ''find_related_matches'' (pc_Iteration cur) (StageFindRelatedMatches E)) cur)
       (loop_body E RelatedMatches)"
  "loop_body E RelatedMatches cur =
     bindS (run_step False RelatedCompilationUnit (LoopStage ''find_related_compilation_unit'' (pc_Iteration cur) (StageFindRelatedCompilationUnit E)) cur)
       (loop_body E RelatedCompilationUnit)"
  "loop_body E RelatedCompilationUnit cur =
     bindS (run_step False LocallyAffine (LoopStage ''find_locally_affine_functions'' (pc_Iteration cur) (StageFindLocallyAffineFunctions E)) cur)
       (loop_body E LocallyAffine)"
  "loop_body E LocallyAffine cur = bindS (run_step False LoopCleanupBottom (SessionCleanup L3671) cur) (loop_body E LoopCleanupBottom)"
  "loop_body E LoopCleanupBottom cur = retS cur"
  by (cases "dc_SlowHeuristics (in_Config E)";
      simp add: loop_body_def Let_def step_order run_step_normal cleanup_top_normal bindS_assoc)+

lemma loop_rest_steps:
  "loop_rest n E NoStep cur = bindS (cleanup_top False cur) (loop_rest n E LoopCleanupTop)"
  "loop_rest n E LoopCleanupTop cur =
     bindS (run_step False MatchesDiffing (LoopStage ''find_matches_diffing'' (pc_Iteration cur) (StageFindMatchesDiffing E)) cur) (loop_rest n E MatchesDiffing)"
  "loop_rest n E MatchesDiffing cur =
     bindS (run_step (\<not> dc_SlowHeuristics (in_Config E)) RelatedMatches (LoopStage ''find_related_matches'' (pc_Iteration cur) (StageFindRelatedMatches E)) cur)
       (loop_rest n E RelatedMatches)"
  "loop_rest n E RelatedMatches cur =
     bindS (run_step False RelatedCompilationUnit (LoopStage ''find_related_compilation_unit'' (pc_Iteration cur) (StageFindRelatedCompilationUnit E)) cur)
       (loop_rest n E RelatedCompilationUnit)"
  "loop_rest n E RelatedCompilationUnit cur =
     bindS (run_step False LocallyAffine (LoopStage ''find_locally_affine_functions'' (pc_Iteration cur) (StageFindLocallyAffineFunctions E)) cur)
       (loop_rest n E LocallyAffine)"
  "loop_rest n E LocallyAffine cur = bindS (run_step False LoopCleanupBottom (SessionCleanup L3671) cur) (loop_rest n E LoopCleanupBottom)"
  by (cases "dc_SlowHeuristics (in_Config E)";
      simp add: loop_rest_def loop_body_steps run_step_normal cleanup_top_normal bindS_assoc cong: if_cong)+

lemma agreeing_cleanup_total [agree]: "agreeing (bindS (SessionCleanup site) (\<lambda>_. getS (\<lambda>s. Inr (TotalMatchedFunctions (ss_State s)))))"
  by (intro agree) simp

lemma resumes_loop_step:
  assumes ok: "accepted E" and n: "n \<le> fuel" and st: "IsLoopStep st" and m: "agreeing m" and cur: "\<not> pc_SkipOthers cur"
    and later: "\<And>c. \<not> pc_SkipOthers c \<Longrightarrow> resumes E (Suc fuel) (bindS (loop_rest n E st c) (after_loop E NoStep))"
  shows "resumes E (Suc fuel) (bindS (bindS (run_step False st m cur) (loop_rest n E st)) (after_loop E NoStep))"
  unfolding bindS_assoc
  using continues_loop [OF ok _ _ n, of "cur\<lparr>pc_Done := st\<rparr>"] st cur by (intro resumes_step m later) simp_all

lemma resumes_loop_top:
  assumes ok: "accepted E" and n: "n \<le> fuel" and cur: "\<not> pc_SkipOthers cur"
    and later: "\<And>c. \<not> pc_SkipOthers c \<Longrightarrow> resumes E (Suc fuel) (bindS (loop_rest n E LoopCleanupTop c) (after_loop E NoStep))"
  shows "resumes E (Suc fuel) (bindS (loop_rest n E NoStep cur) (after_loop E NoStep))"
  unfolding loop_rest_steps(1) cleanup_top_def if_False bindS_assoc
  using continues_loop [OF ok _ _ n, of "cur\<lparr>pc_OldTotal := int x, pc_Done := LoopCleanupTop\<rparr>" for x] cur
  by (intro resumes_on_session resumes_Save later agree) (simp_all add: IsLoopStep_def step_order)

lemma resumes_loop_end:
  assumes ok: "accepted E" and "\<And>c. \<not> pc_SkipOthers c \<Longrightarrow> resumes E (Suc fuel) (bindS (converge n E NoStep (pc_Iteration cur + 1) c) (after_loop E NoStep))"
    and "\<not> pc_SkipOthers cur"
  shows "resumes E (Suc fuel) (bindS (loop_rest n E LoopCleanupBottom cur) (after_loop E NoStep))"
proof -
  have "bindS (if b then retS (Some cur) else converge n E NoStep (pc_Iteration cur + 1) cur) (after_loop E NoStep) =
      (if b then after_loop E NoStep (Some cur) else bindS (converge n E NoStep (pc_Iteration cur + 1) cur) (after_loop E NoStep))" for b
    by simp
  then show ?thesis
    unfolding loop_rest_def loop_body_steps bindS_retS bindS_assoc
    using assms by (auto intro!: resumes_on_session resumes_after_loop agree)
qed

lemma resumes_iteration:
  assumes ok: "accepted E" and n: "n \<le> fuel"
    and later: "\<And>c k. \<not> pc_SkipOthers c \<Longrightarrow> resumes E (Suc fuel) (bindS (converge n E NoStep k c) (after_loop E NoStep))"
    and cur: "\<not> pc_SkipOthers cur"
  shows "resumes E (Suc fuel) (bindS (loop_rest n E NoStep cur) (after_loop E NoStep))"
proof -
  let ?R = "\<lambda>st. \<forall>c. \<not> pc_SkipOthers c \<longrightarrow> resumes E (Suc fuel) (bindS (loop_rest n E st c) (after_loop E NoStep))"
  note step = resumes_loop_step [OF ok n]
  have 6: "?R LoopCleanupBottom" using later by (intro allI impI resumes_loop_end [OF ok])
  then have 5: "?R LocallyAffine" unfolding loop_rest_steps(6) by (auto intro!: step agree simp: IsLoopStep_def step_order)
  then have 4: "?R RelatedCompilationUnit" unfolding loop_rest_steps(5) by (auto intro!: step agree simp: IsLoopStep_def step_order)
  then have 3: "?R RelatedMatches" unfolding loop_rest_steps(4) by (auto intro!: step agree simp: IsLoopStep_def step_order)
  then have 2: "?R MatchesDiffing"
    unfolding loop_rest_steps(3) by (cases "dc_SlowHeuristics (in_Config E)") (auto intro!: step agree simp: IsLoopStep_def step_order)
  then have "?R LoopCleanupTop" unfolding loop_rest_steps(2) by (auto intro!: step agree simp: IsLoopStep_def step_order)
  then show ?thesis by (intro resumes_loop_top [OF ok n cur]) blast
qed

lemma resumes_converge:
  assumes ok: "accepted E"
  shows "n \<le> Suc fuel \<Longrightarrow> \<not> pc_SkipOthers cur \<Longrightarrow> resumes E (Suc fuel) (bindS (converge n E NoStep k cur) (after_loop E NoStep))"
proof (induction n arbitrary: cur k)
  case 0
  then show ?case by (simp add: resumes_after_loop [OF ok])
next
  case (Suc n)
  then show ?case unfolding converge_rest by (intro resumes_iteration [OF ok]) auto
qed

section \<open>A whole run\<close>

lemma resumes_heuristics:
  assumes ok: "accepted E"
  shows "resumes E (Suc fuel) (bindS (run_heuristics E (Suc fuel) NoStep cur) (after_loop E NoStep))"
proof -
  let ?F = "Suc fuel"
  have reg: "registry_ok E" using ok by (simp add: accepted_def)
  have part: "agreeing (StageFindPartialMatchesCategory E)" "agreeing (StageFindPartialMatchesSmallDifferences E)"
    "agreeing (StageRunHeuristicsForCategory E CatBest)" using reg by (intro agree; simp)+
  show ?thesis
  proof (cases "pc_SkipOthers cur")
    case True
    let ?c = "cur\<lparr>pc_Done := RemainingFunctions\<rparr>"
    have "after_dirty E ?F RemainingFunctions ?c = after_loop E NoStep (Some ?c)"
      using True by (simp add: after_dirty_def run_heuristics_def step_order after_loop_def run_end_def)
    then have "continues E ?F ?c (after_loop E NoStep (Some ?c))" by (intro continues_prepared [OF ok]) (simp_all add: step_order)
    with True show ?thesis
      by (simp add: run_heuristics_def step_order bindS_assoc) (intro resumes_step agreeing_steps resumes_after_loop [OF ok])
  next
    case False
    let ?c1 = "cur\<lparr>pc_Done := BestCategory\<rparr>" and ?c2 = "cur\<lparr>pc_Done := PartialCategory\<rparr>" and ?c3 = "cur\<lparr>pc_Done := SmallDifferences\<rparr>"
    let ?K3 = "bindS (converge ?F E NoStep 0 ?c3) (after_loop E NoStep)"
    let ?K2 = "bindS (run_step False SmallDifferences (StageFindPartialMatchesSmallDifferences E) ?c2) (\<lambda>cur. bindS (converge ?F E NoStep 0 cur) (after_loop E NoStep))"
    let ?K1 = "bindS (run_step False PartialCategory (StageFindPartialMatchesCategory E) ?c1) (\<lambda>cur.
        bindS (run_step False SmallDifferences (StageFindPartialMatchesSmallDifferences E) cur) (\<lambda>cur. bindS (converge ?F E NoStep 0 cur) (after_loop E NoStep)))"
    have same: "after_loop E BestCategory = after_loop E NoStep" "after_loop E PartialCategory = after_loop E NoStep" "after_loop E SmallDifferences = after_loop E NoStep"
      by (simp_all add: after_loop_before step_order)
    have "after_dirty E ?F BestCategory ?c1 = ?K1" "after_dirty E ?F PartialCategory ?c2 = ?K2" "after_dirty E ?F SmallDifferences ?c3 = ?K3"
      using False by (simp_all add: after_dirty_def run_heuristics_def IsLoopStep_def step_order same bindS_assoc del: converge.simps)
    then have "continues E ?F ?c1 ?K1" "continues E ?F ?c2 ?K2" "continues E ?F ?c3 ?K3"
      by (auto intro!: continues_prepared [OF ok] simp: step_order)
    note cont = this
    have "resumes E ?F ?K3" using False by (intro resumes_converge [OF ok]) simp_all
    then have "resumes E ?F ?K2" using cont(3) by (intro resumes_step [OF part(2)]) (simp_all del: converge.simps)
    then have "resumes E ?F ?K1" using cont(2) by (intro resumes_step [OF part(1)]) (simp_all del: converge.simps)
    then have "resumes E ?F (bindS (run_step False BestCategory (StageRunHeuristicsForCategory E CatBest) cur) (\<lambda>cur.
        bindS (run_step False PartialCategory (StageFindPartialMatchesCategory E) cur) (\<lambda>cur.
        bindS (run_step False SmallDifferences (StageFindPartialMatchesSmallDifferences E) cur) (\<lambda>cur. bindS (converge ?F E NoStep 0 cur) (after_loop E NoStep)))))"
      using cont(1) by (intro resumes_step [OF part(3)])
    moreover have "run_heuristics E ?F NoStep cur = bindS (run_step False BestCategory (StageRunHeuristicsForCategory E CatBest) cur) (\<lambda>cur.
        bindS (run_step False PartialCategory (StageFindPartialMatchesCategory E) cur) (\<lambda>cur.
        bindS (run_step False SmallDifferences (StageFindPartialMatchesSmallDifferences E) cur) (\<lambda>cur. converge ?F E NoStep 0 cur)))"
      using False by (simp add: run_heuristics_def IsLoopStep_def step_order del: converge.simps)
    ultimately show ?thesis by (simp only: bindS_assoc)
  qed
qed

lemma resumes_dirty:
  assumes ok: "accepted E"
  shows "resumes E (Suc fuel) (after_dirty E (Suc fuel) NoStep cur)"
proof -
  let ?F = "Suc fuel" and ?c = "cur\<lparr>pc_Done := SameName\<rparr>"
  let ?K = "bindS (run_heuristics E ?F NoStep ?c) (after_loop E NoStep)"
  have "after_loop E SameName = after_loop E NoStep" "run_heuristics E ?F SameName = run_heuristics E ?F NoStep"
    by (simp_all add: after_loop_before run_heuristics_early step_order)
  then have "after_dirty E ?F SameName ?c = ?K" by (simp add: after_dirty_def)
  then have "continues E ?F ?c ?K" by (intro continues_prepared [OF ok]) (simp_all add: step_order)
  then show ?thesis
    unfolding after_dirty_def
    by (cases "dc_IgnoreAllNames (in_Config E)") (auto simp: step_order intro!: resumes_step agreeing_steps resumes_heuristics [OF ok])
qed

lemma resumes_rest:
  assumes ok: "accepted E"
  shows "resumes E (Suc fuel) (run_rest E (Suc fuel) NoStep cur)"
proof -
  let ?F = "Suc fuel" and ?c = "\<lambda>skip. cur\<lparr>pc_SkipOthers := skip, pc_Done := DirtyHeuristics\<rparr>"
  have "after_dirty E ?F DirtyHeuristics (?c skip) = after_dirty E ?F NoStep (?c skip)" for skip
    by (simp add: after_dirty_def after_loop_before run_heuristics_early step_order)
  then have "continues E ?F (?c skip) (after_dirty E ?F NoStep (?c skip))" for skip
    by (intro continues_prepared [OF ok]) (simp_all add: step_order)
  then show ?thesis
    by (auto simp: run_rest_eq dirty_step_def step_order bindS_assoc intro!: resumes_on_session resumes_Save resumes_dirty [OF ok] agree)
qed

lemma resumes_RunPipeline:
  assumes reg: "registry_ok E"
  shows "resumes E (Suc fuel) (RunPipeline E (Suc fuel) None)"
proof (cases "problem_text (in_Problems E) = []")
  case True
  with reg have ok: "accepted E" by (simp add: accepted_def)
  let ?F = "Suc fuel" and ?c = "new_PipelineCursor\<lparr>pc_Done := EqualMatches\<rparr>"
  have "after_dirty E ?F EqualMatches = after_dirty E ?F NoStep"
    by (rule ext) (simp add: after_dirty_def after_loop_before run_heuristics_early step_order)
  then have same: "run_rest E ?F EqualMatches = run_rest E ?F NoStep" by (intro ext) (simp add: run_rest_eq step_order)
  have "engine_sim e e" if "sim s e" for s e using that by (simp add: sim_def engine_sim_def)
  then have "continues E ?F ?c (run_rest E ?F NoStep ?c)"
    by (intro continuesI [OF ok run_agrees_rest [OF reg, of ?F NoStep ?c]]) (auto simp: same)
  then have "resumes E ?F (bindS (Save EqualMatches new_PipelineCursor) (run_rest E ?F NoStep))"
    by (intro resumes_Save resumes_rest [OF ok])
  then have "resumes E ?F (bindS (on_session (fresh_start E)) (\<lambda>valid.
      if \<not> valid then retS (Some False) else bindS (Save EqualMatches new_PipelineCursor) (run_rest E ?F NoStep)))"
    by (intro resumes_on_session agree) (simp add: resumes_retS)
  moreover have "RunPipeline E ?F None = bindS (on_session (fresh_start E)) (\<lambda>valid.
      if \<not> valid then retS (Some False) else bindS (Save EqualMatches new_PipelineCursor) (run_rest E ?F NoStep))"
    unfolding RunPipeline_def run_start_def option.case bindS_assoc by (rule arg_cong [of _ _ "bindS _"]) (auto simp: bindS_assoc)
  ultimately show ?thesis by simp
next
  case False
  have "fst (fresh_start E s) \<noteq> Inr True" for s
    using False by (auto simp: fresh_start_def RequireIngest_def bindS_def getS_def retS_def split: prod.splits sum.splits)
  then show ?thesis
    by (auto simp: resumes_def RunPipeline_def run_start_def bindS_def on_session_def retS_def split: prod.splits sum.splits if_splits)
       (metis fst_conv)+
qed

section \<open>Properties of a run\<close>

lemma checkpoint_resumable:
  assumes "registry_ok E" and "state_ok (ss_State s)" and "provider_ok (ss_Ratio s)"
    and "RunPipeline E (2 ^ 64 + 3 + n) None (s, []) = (r, (s', saved))" and "cp \<in> set saved"
  shows "resumable E (2 ^ 64 + 3 + n) cp r s'"
proof -
  have fuel: "2 ^ 64 + 3 + n = Suc (2 ^ 64 + 2 + n)" by simp
  have "resumes E (2 ^ 64 + 3 + n) (RunPipeline E (2 ^ 64 + 3 + n) None)"
    unfolding fuel by (rule resumes_RunPipeline [OF assms(1)])
  moreover have "r \<noteq> Inr None" using pipeline_returns [of E n None s "[]"] assms(4) by simp
  ultimately show ?thesis using assms(2-5) unfolding resumes_def by fastforce
qed

text \<open>A small diff for the examples: two exports with equal callgraphs and one function each, the first without symbols; the
  query for the unmatched functions fails, after two checkpoints.\<close>

definition count_cell :: "int \<Rightarrow> SqlCell" where
  "count_cell n = \<lparr>sc_Type = SqlInteger, sc_Int = n, sc_Real = Finite False 0, sc_Bytes = []\<rparr>"

definition demo_rows :: "string \<Rightarrow> string list \<times> SqlCell list list" where
  "demo_rows sql =
     (if sql = ''kSqlVersion'' then ([''value''], [[small_cell ''3.4.2'']])
      else if sql = ''kSqlCallgraph''
      then ([''callgraph_primes'', ''callgraph_all_primes''], [map small_cell [''1'', ''{}''], map small_cell [''1'', ''{}'']])
      else if sql = ''kSqlTotals'' then ([''total''], [[count_cell 1], [count_cell 1]])
      else if sql = ''kSqlEqualDbMd5'' \<or> sql = ''kSqlStrippedCount'' then ([''total''], [[count_cell 1]])
      else ([''ea'', ''name1'', ''ea2'', ''name2'', ''description'', ''mangled1''], []))"

definition demo_inputs :: Inputs where
  "demo_inputs = small_inputs\<lparr>in_Config := (in_Config small_inputs)\<lparr>dc_IgnoreAllNames := True\<rparr>,
     in_Db := (\<lambda>sql binds. if sql = ''kSqlUnmatchedUnion'' then Inl (DiaphoraWouldRaise ''sqlite3_step'' ''disk I/O error'')
       else Inr \<lparr>st_Columns = fst (demo_rows sql), st_Rows = snd (demo_rows sql), st_Error = None\<rparr>),
     in_StageSql := map (\<lambda>name. (name, name)) [''kSqlVersion'', ''kSqlEqualDbMd5'', ''kSqlCallgraph'', ''kSqlTotals'', ''kSqlStrippedCount'',
       ''kSqlUnmatchedUnion'']\<rparr>"

definition demo_session :: DiffSession where
  "demo_session = \<lparr>ss_Ids = empty_Interners, ss_State = empty_MatchState, ss_Ratio = new_RatioEngine one_null_row one_null_row True,
     ss_Hook = {}, ss_HooksLoaded = False, ss_MaxProcessedRows = kSqlMaxProcessedRows, ss_Frames = [], ss_Trace = [],
     ss_CleanupCounters = [], ss_PointSeq = 0,
     ss_Final = \<lparr>fr_Best = [], fr_Partial = [], fr_Unreliable = [], fr_Multimatch = [],
                 fr_UnmatchedPrimary = None, fr_UnmatchedSecondary = None\<rparr>,
     ss_IsSymbolsStripped = False, ss_IsPatchDiff = False, ss_Truncations = []\<rparr>"

lemma demo_run:
  "(case RunPipeline demo_inputs fuel None (demo_session, []) of (r, s, saved) \<Rightarrow>
      r = Inl (DiaphoraWouldRaise ''sqlite3_step'' ''disk I/O error'') \<and> map (pc_Done \<circ> fst) saved = [EqualMatches, DirtyHeuristics])"
  by code_simp

lemma demo_ok: "registry_ok demo_inputs" "state_ok (ss_State demo_session)" "provider_ok (ss_Ratio demo_session)"
  by (simp add: registry_ok_def demo_inputs_def small_inputs_def)
     (simp_all add: demo_session_def state_ok_def ratios_ok_def items_in_dicts_def all_items_def empty_MatchState_def new_provider_ok one_null_row_ok)

text \<open>C5. pipeline invariant: Every run of \<^verbatim>\<open>RunPipeline\<close>, fresh or resumed at any checkpoint, whatever the databases answer and
  wherever it stops, returning or raising, keeps the invariant of the match state (a best match has ratio 1, a partial match a
  smaller one, the unreliable list stays empty, the two ordered dictionaries are well formed and know the names of every
  match) and the consistency of the ratio engine, for a registry in which a heuristic's position is its id.\<close>

theorem run_pipeline_invariant:
  assumes "registry_ok E" and "state_ok (ss_State s)" and "provider_ok (ss_Ratio s)"
    and "RunPipeline E fuel resume (s, saved) = (r, (s', saved'))"
  shows "state_ok (ss_State s') \<and> provider_ok (ss_Ratio s')"
proof -
  from run_agreesE [OF run_agrees_RunPipeline [OF assms(1), of fuel resume] sim_refl [OF assms(2,3)], of saved saved] obtain s'' e'' new r'
    where "RunPipeline E fuel resume (s, saved) = (r', (s'', new))" "sim s'' e''" by metis
  with assms(4) sim_ok show ?thesis by auto
qed

theorem run_pipeline_invariant_witness:
  "fst (RunPipeline demo_inputs 1 None (demo_session, [])) = Inl (DiaphoraWouldRaise ''sqlite3_step'' ''disk I/O error'') \<and>
   state_ok (ss_State (fst (snd (RunPipeline demo_inputs 1 None (demo_session, [])))))"
proof -
  obtain r s' saved where run: "RunPipeline demo_inputs 1 None (demo_session, []) = (r, (s', saved))" by (metis prod_cases3)
  from run_pipeline_invariant [OF demo_ok run] demo_run [of 1, unfolded run] show ?thesis unfolding run by simp
qed



end
