(* ===== verification/Spec2Isabelle.thy ===== *)
theory Spec2Isabelle
  imports Unmatched TextScan DiffCorrect Ratio Resume
begin

text \<open>
  DSigMatcher Native, the diff engine.

  \<^verbatim>\<open>dsigmatcher\<close> compares two Diaphora exports (SQLite files with one row per function) and reports which
  functions of the main export correspond to which functions of the other one. It is a C++ port of a Python program and
  promises the same results row for row, so what this development shows is mostly of the form: the C++ routine, with its
  machine integers, hash tables, caches and prepared data, computes what the plain definition of the Python behaviour says,
  raises where Python raises, and never loses or invents a match.

  \<^bold>\<open>The parts and how they interact.\<close>
  Ingest reads both exports into column tables and interns every name and address text as a 32-bit id. The stages run SQL
  queries; a row source turns each result row into a candidate row (two addresses, two names, node counts, MD indices).
  The row consumers (\<^verbatim>\<open>check_match\<close>, \<^verbatim>\<open>add_matches_*\<close>) ask the ratio engine for the similarity of each candidate,
  consult the match state and add a match to the best, partial or unreliable list. Cleanup prunes the lists between stages.
  The final pass resolves addresses with several candidates into a one-to-one result, the unmatched functions are
  reported, and the results are written with numbers in Python's text format. Text diffs are produced by a port of
  \<^verbatim>\<open>difflib\<close>; snapshots and provenance use the JSON documents.

  \<^bold>\<open>Theories.\<close>
  \<^item> \<open>Prelude\<close>: the exceptions of \<^verbatim>\<open>Errors.h\<close> as a datatype, results as a sum type, association lists for
    \<^verbatim>\<open>std::unordered_map\<close>, decimal text.
  \<^item> \<open>Interning\<close> (\<^verbatim>\<open>Ingest.cpp\<close>, \<^verbatim>\<open>Interner.h\<close>): the id tables; locales give the laws of an interner with a
    reserved None id, interpreted for names and addresses.
  \<^item> \<open>Utf8\<close> (\<^verbatim>\<open>Ingest.cpp\<close>): the strict UTF-8 validator accepts exactly the encodings of scalar values.
  \<^item> \<open>Matching\<close> (\<^verbatim>\<open>MatchState.cpp\<close>): the three lists, the two ordered dictionaries, \<^verbatim>\<open>AddMatch\<close>,
    \<^verbatim>\<open>Cleanup\<close>; reachable states are well formed, \<^verbatim>\<open>AddMatch\<close> refines Python's list and dict code.
  \<^item> \<open>Consuming\<close> (\<^verbatim>\<open>Consumer.cpp\<close>): the row consumers over any row source, ratio provider and hook; the locale
    \<open>ratio_provider\<close> is their contract with the ratio engine and \<open>row_body\<close> the contract of a loop body.
  \<^item> \<open>Tables\<close> (\<^verbatim>\<open>Ingest.cpp\<close>, \<^verbatim>\<open>Table.h\<close>, \<^verbatim>\<open>SideTables.cpp\<close>, parts of \<^verbatim>\<open>Database.cpp\<close>): columns, the
    function table, the side tables and \<^verbatim>\<open>IngestExport\<close>.
  \<^item> \<open>QuickRatio\<close>, \<open>Rounding\<close>, \<open>RatioCache\<close>, \<open>Ratio\<close> (\<^verbatim>\<open>Ratio.cpp\<close>): line multisets over prepared ids, the
    128-bit rounding to seven decimals, the cache, and the engine itself; the engine is an interpretation of
    \<open>ratio_provider\<close>.
  \<^item> \<open>RowSources\<close> (\<^verbatim>\<open>Candidates.h\<close>, \<^verbatim>\<open>Database.cpp\<close>, \<^verbatim>\<open>Config.h\<close>, \<^verbatim>\<open>Registry.h\<close>): the inputs of a diff and the
    sources of candidate rows: the SQL row source, the native replay of the compilation-unit query and the batched
    \<^verbatim>\<open>ResultIter\<close>, whose read-ahead loses exactly the rows Python's \<^verbatim>\<open>fetchmany\<close> loses.
  \<^item> \<open>PatchDiffHook\<close> (\<^verbatim>\<open>stages/PatchDiffHook.cpp\<close>), \<open>Preflight\<close> (\<^verbatim>\<open>stages/Preflight.cpp\<close>), \<open>EarlyStages\<close>
    (\<^verbatim>\<open>stages/EqualMatches.cpp\<close>, \<^verbatim>\<open>DirtyHeuristics.cpp\<close>, \<^verbatim>\<open>SameName.cpp\<close>, \<^verbatim>\<open>RemainingFunctions.cpp\<close>,
    \<^verbatim>\<open>SmallDifferences.cpp\<close>), \<open>LoopStages\<close> (\<^verbatim>\<open>stages/CalleeDiffing.cpp\<close>, \<^verbatim>\<open>RelatedConstants.cpp\<close>,
    \<^verbatim>\<open>RelatedCompilationUnit.cpp\<close>, \<^verbatim>\<open>LocalAffinity.cpp\<close>): the stages, as actions on the session.
  \<^item> \<open>FinalPass\<close> (\<^verbatim>\<open>FinalPass.cpp\<close>), \<open>Unmatched\<close> (\<^verbatim>\<open>Unmatched.cpp\<close>): the end of the diff.
  \<^item> \<open>Pipeline\<close> (\<^verbatim>\<open>Pipeline.cpp\<close>, \<^verbatim>\<open>stages/HeuristicTiers.cpp\<close>, \<^verbatim>\<open>Registry.cpp\<close>): the SQL heuristics and
    \<^verbatim>\<open>RunPipeline\<close>, fresh or resumed, as an action on the session and the list of checkpoints offered for saving.
    \<open>Convergence\<close> shows that every run ends, \<open>Agreement\<close> that every stage keeps the invariants and does not depend on
    what the ratio engine has prepared or memoised, and \<open>Resume\<close> that a run resumed from any checkpoint ends as the
    uninterrupted one.
  \<^item> \<open>PyInt\<close>, \<open>Double\<close>, \<open>BigUInt\<close>, \<open>PyFloat\<close>, \<open>FloatText\<close>, \<open>PyJson\<close>, \<open>PySets\<close> (\<^verbatim>\<open>PyValue.cpp\<close>,
    \<^verbatim>\<open>StateDetail.h\<close>): Python's \<^verbatim>\<open>int\<close>, \<^verbatim>\<open>float\<close>, \<^verbatim>\<open>repr\<close>, \<^verbatim>\<open>json.loads\<close>, equality, hashing and sets.
  \<^item> \<open>Json\<close> (\<^verbatim>\<open>Json.cpp\<close>): the JSON document, its parser and writer.
  \<^item> \<open>TextScan\<close>, \<open>Difflib\<close>, \<open>DiffCorrect\<close> (\<^verbatim>\<open>TextDiff.cpp\<close>): text splitting, the C++ name scanner and the sequence
    matcher with its unified diff.

  \<^bold>\<open>Modelling.\<close>
  Structures are records with a prefix per structure, enumerations datatypes, ids and counters 32- and 64-bit words, file
  offsets and sizes naturals. A function that throws returns \<^typ>\<open>'a result\<close>; code over the session is an action
  that returns a result and the new session, so that the state at a throw is part of the model. Doubles that are only
  compared or combined with finite results are rationals with the IEEE rounding function \<open>fl\<close> written out
  (\<open>Double\<close>); where infinities, NaN or the sign of zero matter they are the datatype \<open>flt\<close> (\<open>PyFloat\<close>). SQLite is a
  function from SQL text and bindings to the statement's columns, rows and final error; the texts of the queries and the
  registry of the heuristics, which are generated files, are inputs. The patch-diff hook is an argument of the consumers
  and is instantiated by its model in the stages.
  The test-only mutation mask of \<^verbatim>\<open>Ratio.cpp\<close> is 0.

  \<^bold>\<open>Bounds and fuel.\<close>
  Loops whose termination is not structural have a measure. The JSON parsers recurse on the nesting depth, bounded by
  the program's own limit of 512, and their element loops take the length of the remaining text as fuel; the theorems
  \<open>json_parse_total\<close> and \<open>json_loads_wf\<close> show that the fuel never runs out. The search for the shortest decimal text of a
  double tries 17 digits, which is always enough. The convergence loop of \<^verbatim>\<open>RunPipeline\<close> has no bound of its own; it
  takes fuel, and \<open>run_pipeline_ends\<close> shows that \<open>2 ^ 64 + 3\<close> iterations are always enough.
  The loops over a row source take one more than the number of its remaining calls (\<open>cu_pairs_product\<close>,
  \<open>result_iter_batches\<close> and \<open>small_loop_fuel\<close> show that more would change nothing). Hypotheses such as fewer than \<open>2 ^ 32\<close> rows, lines or ids are the
  widths of the program's counters.
  \<^bold>\<open>Not modelled.\<close>
  SQLite runs the queries and is not interpreted. Not modelled are: the analysis of the tables a query touches (the rest of
  \<^verbatim>\<open>HeuristicTiers.cpp\<close>); opening the exports, the format of snapshots and checkpoint files (a checkpoint is the session
  itself), the replay of single passes, trace contexts, the trace sink, log lines and the facts kept for reports; the
  results writer and file helpers; the PE reader, the disassembler bindings, the control-flow graph and the hashes of the
  native exporter; provenance and the command line, which drive other programs and files.
\<close>

section \<open>The consumers with the ratio engine\<close>

text \<open>The calls of the row consumers, on any rows a stage produces and with the ratio engine as their provider, and of the
  cleanup of the match state, for any patch-diff hook. These are not all the changes a stage makes: some stages also call
  \<^verbatim>\<open>AddMatch\<close> and \<^verbatim>\<open>SetTotals\<close> themselves. Whole runs, with every stage, are the subject of \<open>Pipeline\<close> and
  \<open>Resume\<close>; this relation shows that the consumers keep the reachability of the match state, for every hook.\<close>

inductive diff_step :: "'h hook \<Rightarrow> (RatioEngine, 'h) Session \<Rightarrow> (RatioEngine, 'h) Session \<Rightarrow> bool" for hook where
  query: "list_all interns rows \<Longrightarrow> diff_step hook s (snd (AddMatchesFromQuery CheckRatio hook rows Best s))"
| ratio: "list_all interns rows \<Longrightarrow> diff_step hook s (snd (AddMatchesFromQueryRatio CheckRatio hook rows Best Partial s))"
| ratio_max: "list_all interns rows \<Longrightarrow> diff_step hook s (snd (AddMatchesFromQueryRatioMax CheckRatio hook rows Best Partial v s))"
| trusted: "list_all interns rows \<Longrightarrow> diff_step hook s (snd (AddMatchesFromQueryRatioMaxTrusted CheckRatio hook rows v s))"
| internal: "list_all interns rows \<Longrightarrow> diff_step hook s (snd (AddMatchesInternal CheckRatio hook rows Best (Some Partial) val s))"
| cleanup: "\<forall>c. length (ms_Lists (ss_State s) c) < 2 ^ 32 \<Longrightarrow> diff_step hook s (snd (SessionCleanup site s))"

inductive_cases diff_stepE: "diff_step hook s s'"

lemma engine_session_ok:
  "engine.session_ok s \<longleftrightarrow> ms_reach (ss_Ids s) (ss_State s) \<and> provider_ok (ss_Ratio s) \<and> ratios_ok (ss_State s)"
  by (rule engine.session_ok_def)

lemma SessionCleanup_ok:
  assumes "engine.session_ok s" and "\<forall>c. length (ms_Lists (ss_State s) c) < 2 ^ 32"
  shows "engine.session_ok (snd (SessionCleanup site s))"
proof (cases "Cleanup (ss_Ids s) (ss_State s)")
  case (Inl e)
  then have "ss_State (snd (SessionCleanup site s)) = ss_State s \<and> ss_Ids (snd (SessionCleanup site s)) = ss_Ids s \<and> ss_Ratio (snd (SessionCleanup site s)) = ss_Ratio s"
    by (simp add: SessionCleanup_def BumpCleanup_def StateCleanup_def Point_def bindS_def getS_def modS_def retS_def Let_def split_beta)
  then show ?thesis using assms(1) by (simp add: engine_session_ok)
next
  case (Inr ms)
  then have "ss_State (snd (SessionCleanup site s)) = ms \<and> ss_Ids (snd (SessionCleanup site s)) = ss_Ids s \<and> ss_Ratio (snd (SessionCleanup site s)) = ss_Ratio s"
    by (simp add: SessionCleanup_def BumpCleanup_def StateCleanup_def Point_def bindS_def getS_def modS_def retS_def Let_def split_beta)
  moreover have "ms_reach (ss_Ids s) ms" using assms Inr by (auto simp: engine_session_ok intro: ms_reach.cleanup)
  ultimately show ?thesis using assms(1) ratios_ok_Cleanup [OF Inr] by (simp add: engine_session_ok)
qed

lemmas consumers_ok = engine.AddMatchesInternalImpl_ok [unfolded preserves_def, rule_format]
  engine.AddMatchesFromQuery_ok [unfolded preserves_def, rule_format] SessionCleanup_ok

lemma diff_step_ok: "diff_step hook s s' \<Longrightarrow> engine.session_ok s \<Longrightarrow> engine.session_ok s'"
  by (elim diff_stepE)
     (auto simp: AddMatchesFromQueryRatio_def AddMatchesFromQueryRatioMax_def AddMatchesFromQueryRatioMaxTrusted_def AddMatchesInternal_def
       intro: consumers_ok)

text \<open>C35. What the final pass relies on holds after every sequence of consumer calls and cleanups: the match state is a reachable one, a best
  match has ratio 1, a partial match less, the unreliable list is empty, and the ratio engine keeps its invariant, whatever
  rows the stages produce, whatever the patch-diff hook does and wherever a step stops with an error.\<close>

theorem diff_run_invariant:
  assumes "(diff_step hook)\<^sup>*\<^sup>* s s'" and "ms_reach (ss_Ids s) (ss_State s)" and "ratios_ok (ss_State s)" and "provider_ok (ss_Ratio s)"
  shows "ms_reach (ss_Ids s') (ss_State s') \<and> ratios_ok (ss_State s') \<and> provider_ok (ss_Ratio s')"
proof -
  from assms(1) have "engine.session_ok s \<Longrightarrow> engine.session_ok s'"
    by (induction rule: rtranclp_induct) (auto intro: diff_step_ok)
  then show ?thesis using assms(2-4) by (simp add: engine_session_ok)
qed

definition start_session :: "(RatioEngine, unit) Session" where
  "start_session = \<lparr>ss_Ids = empty_Interners, ss_State = empty_MatchState, ss_Ratio = new_RatioEngine one_null_row one_null_row True,
     ss_Hook = (), ss_HooksLoaded = False, ss_MaxProcessedRows = 1000, ss_Frames = [], ss_Trace = [],
     ss_CleanupCounters = [], ss_PointSeq = 0,
     ss_Final = \<lparr>fr_Best = [], fr_Partial = [], fr_Unreliable = [], fr_Multimatch = [],
                 fr_UnmatchedPrimary = None, fr_UnmatchedSecondary = None\<rparr>,
     ss_IsSymbolsStripped = False, ss_IsPatchDiff = False, ss_Truncations = []\<rparr>"

theorem diff_run_witness:
  "ratios_ok (ss_State (snd (AddMatchesFromQueryRatio CheckRatio (\<lambda>ids h row r. (Inr (), h)) [\<lambda>ids. (Inr null_row_pair, ids)] Best Partial start_session)))"
proof -
  let ?hook = "\<lambda>(ids :: Interners) (h :: unit) (row :: HeuristicRow) (r :: double). (Inr () :: unit result, h)"
  let ?s = "snd (AddMatchesFromQueryRatio CheckRatio ?hook [\<lambda>ids. (Inr null_row_pair, ids)] Best Partial start_session)"
  have "(diff_step ?hook)\<^sup>*\<^sup>* start_session ?s" by (intro r_into_rtranclp diff_step.ratio) (simp add: interns_def names_le_def)
  moreover have "ms_reach (ss_Ids start_session) (ss_State start_session)" "ratios_ok (ss_State start_session)"
    by (simp_all add: start_session_def ms_reach.init ratios_ok_def) (simp_all add: empty_MatchState_def)
  moreover have "provider_ok (ss_Ratio start_session)" by (simp add: start_session_def new_provider_ok one_null_row_ok)
  ultimately show ?thesis using diff_run_invariant [of ?hook start_session ?s] by blast
qed

end
